(* ===== verification/Rust_Text.thy ===== *)
theory Rust_Text
  imports Prelude
begin

text \<open>
  The string functions of Rust's standard library that the sources call. A \<open>str\<close> is a
  \<open>string\<close>; a character is a code point below 256, and \<open>is_whitespace\<close> is the Unicode
  \<open>White_Space\<close> property on that range (tab, line feed, vertical tab, form feed, carriage
  return, space, U+0085 and U+00A0).
\<close>

definition is_ws :: "char \<Rightarrow> bool" where
  "is_ws c \<longleftrightarrow> c \<in> {CHR 0x09, CHR 0x0A, CHR 0x0B, CHR 0x0C, CHR 0x0D, CHR '' '', CHR 0x85, CHR 0xA0}"

definition is_ascii_digit :: "char \<Rightarrow> bool" where
  "is_ascii_digit c \<longleftrightarrow> (let n = (of_char c :: nat) in 48 \<le> n \<and> n \<le> 57)"

definition is_ascii_alphanumeric :: "char \<Rightarrow> bool" where
  "is_ascii_alphanumeric c \<longleftrightarrow>
     (let n = (of_char c :: nat)
      in (48 \<le> n \<and> n \<le> 57) \<or> (65 \<le> n \<and> n \<le> 90) \<or> (97 \<le> n \<and> n \<le> 122))"

text \<open>\<open>str::trim\<close>\<close>

definition trim :: "string \<Rightarrow> string" where
  "trim s = rev (dropWhile is_ws (rev (dropWhile is_ws s)))"

lemma trim_eq_Nil_iff: "trim s = [] \<longleftrightarrow> (\<forall>c \<in> set s. is_ws c)"
proof -
  have "trim s = [] \<longleftrightarrow> (\<forall>c \<in> set (dropWhile is_ws s). is_ws c)"
    by (simp add: trim_def)
  also have "\<dots> \<longleftrightarrow> (\<forall>c \<in> set s. is_ws c)"
    by (induction s) auto
  finally show ?thesis .
qed

text \<open>\<open>str::split_whitespace\<close>: the maximal runs of non-white characters, in order.\<close>

function split_whitespace :: "string \<Rightarrow> string list" where
  "split_whitespace s =
     (let t = dropWhile is_ws s
      in if t = [] then []
         else takeWhile (\<lambda>c. \<not> is_ws c) t # split_whitespace (dropWhile (\<lambda>c. \<not> is_ws c) t))"
  by pat_completeness auto
termination
proof (relation "measure length", simp, goal_cases)
  case (1 s t)
  let ?t = "dropWhile is_ws s"
  from 1 have "?t \<noteq> []" by simp
  then have "\<not> is_ws (hd ?t)" by (rule hd_dropWhile)
  with \<open>?t \<noteq> []\<close> have "length (dropWhile (\<lambda>c. \<not> is_ws c) ?t) < length ?t"
    by (intro length_dropWhile_less) auto
  also have "\<dots> \<le> length s" by (rule length_dropWhile_le)
  finally show ?case using 1 by simp
qed

declare split_whitespace.simps [simp del]

lemma split_whitespace_Nil_iff: "split_whitespace s = [] \<longleftrightarrow> trim s = []"
  by (subst split_whitespace.simps) (auto simp: Let_def trim_eq_Nil_iff dropWhile_eq_Nil_conv)

lemma split_whitespace_token:
  "t \<in> set (split_whitespace s) \<Longrightarrow> t \<noteq> [] \<and> (\<forall>c \<in> set t. \<not> is_ws c)"
proof (induction s rule: split_whitespace.induct)
  case (1 s)
  let ?t = "dropWhile is_ws s"
  from "1.prems" have ne: "?t \<noteq> []"
    by (subst (asm) split_whitespace.simps) (auto simp: Let_def split: if_splits)
  then have hd: "\<not> is_ws (hd ?t)" by (rule hd_dropWhile)
  from "1.prems" ne consider "t = takeWhile (\<lambda>c. \<not> is_ws c) ?t"
    | "t \<in> set (split_whitespace (dropWhile (\<lambda>c. \<not> is_ws c) ?t))"
    by (subst (asm) split_whitespace.simps) (auto simp: Let_def split: if_splits)
  then show ?case
  proof cases
    case 1
    with ne hd show ?thesis by (cases ?t) (auto dest: set_takeWhileD)
  next
    case 2
    with "1.IH" ne show ?thesis by blast
  qed
qed

lemma split_whitespace_Cons:
  assumes "w \<noteq> []" "\<forall>c \<in> set w. \<not> is_ws c" "is_ws b"
  shows "split_whitespace (w @ b # s) = w # split_whitespace s"
proof -
  have d: "dropWhile is_ws (w @ b # s) = w @ b # s"
    using assms by (cases w) auto
  have t: "takeWhile (\<lambda>c. \<not> is_ws c) (w @ b # s) = w"
    using assms by (simp add: takeWhile_append)
  have r: "dropWhile (\<lambda>c. \<not> is_ws c) (w @ b # s) = b # s"
    using assms by (simp add: dropWhile_append)
  have "split_whitespace (b # s) = split_whitespace s"
    using assms(3) by (subst (1 2) split_whitespace.simps) simp
  then show ?thesis
    by (subst split_whitespace.simps) (simp add: d t r)
qed

lemma split_whitespace_ws: "is_ws b \<Longrightarrow> split_whitespace (b # s) = split_whitespace s"
  by (subst (1 2) split_whitespace.simps) simp

lemma split_whitespace_word:
  assumes "w \<noteq> []" "\<forall>c \<in> set w. \<not> is_ws c"
  shows "split_whitespace w = [w]"
proof -
  have "dropWhile is_ws w = w" "takeWhile (\<lambda>c. \<not> is_ws c) w = w" "dropWhile (\<lambda>c. \<not> is_ws c) w = []"
    using assms by (cases w; simp)+
  note parts = this
  have "split_whitespace [] = []" by (subst split_whitespace.simps) simp
  then show ?thesis using assms(1) by (subst split_whitespace.simps) (simp only: parts Let_def if_False)
qed

text \<open>\<open>str::split(c)\<close>: a piece before, between and after every occurrence.\<close>

fun split_on :: "char \<Rightarrow> string \<Rightarrow> string list" where
  "split_on c [] = [[]]"
| "split_on c (x # xs) =
     (if x = c then [] # split_on c xs
      else case split_on c xs of [] \<Rightarrow> [[x]] | p # ps \<Rightarrow> (x # p) # ps)"

lemma split_on_not_Nil [simp]: "split_on c s \<noteq> []"
  by (induction s) (auto split: list.splits)

lemma split_on_no_sep: "p \<in> set (split_on c s) \<Longrightarrow> c \<notin> set p"
  by (induction s arbitrary: p) (auto split: list.splits if_splits)

text \<open>\<open>split_on\<close> loses nothing: joining the pieces gives the string back.\<close>

fun join :: "string \<Rightarrow> string list \<Rightarrow> string" where
  "join sep [] = []"
| "join sep [p] = p"
| "join sep (p # ps) = p @ sep @ join sep ps"

lemma join_Cons_head: "join sep ((x # p) # ps) = x # join sep (p # ps)"
  by (cases ps) auto

lemma join_split_on: "join [c] (split_on c s) = s"
proof (induction s)
  case (Cons x xs)
  obtain p ps where "split_on c xs = p # ps" by (cases "split_on c xs") auto
  with Cons show ?case by (auto simp: join_Cons_head)
qed simp

text \<open>\<open>str::rfind\<close> as the pieces around the last character that satisfies the pattern.\<close>

definition rsplit_at :: "(char \<Rightarrow> bool) \<Rightarrow> string \<Rightarrow> (string \<times> string) option" where
  "rsplit_at P s =
     (if \<exists>c \<in> set s. P c
      then Some (rev (dropWhile (\<lambda>c. \<not> P c) (rev s)), rev (takeWhile (\<lambda>c. \<not> P c) (rev s)))
      else None)"

lemma rsplit_at_Some:
  assumes "rsplit_at P s = Some (a, b)"
  shows "s = a @ b \<and> a \<noteq> [] \<and> P (last a) \<and> (\<forall>c \<in> set b. \<not> P c)"
proof -
  let ?d = "dropWhile (\<lambda>c. \<not> P c) (rev s)" and ?t = "takeWhile (\<lambda>c. \<not> P c) (rev s)"
  from assms have ab: "a = rev ?d" "b = rev ?t" and ex: "\<exists>c \<in> set s. P c"
    by (auto simp: rsplit_at_def split: if_splits)
  have "rev s = ?t @ ?d" by simp
  then have "s = rev ?d @ rev ?t" by (metis rev_append rev_rev_ident)
  moreover have "?d \<noteq> []" using ex by (auto simp: dropWhile_eq_Nil_conv)
  moreover from this have "P (hd ?d)" using hd_dropWhile [of "\<lambda>c. \<not> P c" "rev s"] by simp
  moreover have "\<forall>c \<in> set ?t. \<not> P c" by (auto dest: set_takeWhileD)
  ultimately show ?thesis using ab by (simp add: last_rev)
qed

text \<open>\<open>str::starts_with\<close> and \<open>str::ends_with\<close>.\<close>

definition starts_with :: "string \<Rightarrow> string \<Rightarrow> bool" where
  "starts_with s p \<longleftrightarrow> take (length p) s = p"

definition ends_with :: "string \<Rightarrow> string \<Rightarrow> bool" where
  "ends_with s p \<longleftrightarrow> length p \<le> length s \<and> drop (length s - length p) s = p"

text \<open>The decimal digits \<open>format!\<close> prints for an unsigned integer.\<close>

fun show_nat :: "nat \<Rightarrow> string" where
  "show_nat n =
     (if n < 10 then [char_of (48 + n)] else show_nat (n div 10) @ [char_of (48 + n mod 10)])"

declare show_nat.simps [simp del]

lemma show_nat_not_Nil [simp]: "show_nat n \<noteq> []"
  by (subst show_nat.simps) simp

definition read_nat :: "string \<Rightarrow> nat" where
  "read_nat s = foldl (\<lambda>n c. 10 * n + (of_char c - 48)) 0 s"

lemma read_show_nat [simp]: "read_nat (show_nat n) = n"
proof (induction n rule: show_nat.induct)
  case (1 n)
  have digit: "of_char (char_of (48 + d) :: char) - 48 = (d :: nat)" if "d < 10" for d
    using that by simp
  show ?case
  proof (cases "n < 10")
    case True
    then show ?thesis by (subst show_nat.simps) (simp add: read_nat_def digit)
  next
    case False
    with 1 have "read_nat (show_nat (n div 10)) = n div 10" by simp
    with False show ?thesis by (subst show_nat.simps) (simp add: read_nat_def digit)
  qed
qed

lemma show_nat_inject: "show_nat m = show_nat n \<longleftrightarrow> m = n"
  by (metis read_show_nat)

text \<open>\<open>str::as_bytes\<close> of ASCII text.\<close>

definition ascii_bytes :: "string \<Rightarrow> u8 list" where
  "ascii_bytes s = map of_char s"

lemma length_ascii_bytes [simp]: "length (ascii_bytes s) = length s"
  by (simp add: ascii_bytes_def)

text \<open>\<open>str::parse\<close> of an unsigned integer type: an optional plus sign and digits, in range.\<close>

definition parse_uint :: "string \<Rightarrow> 'n::len word option" where
  "parse_uint s =
     (let ds = (case s of c # cs \<Rightarrow> if c = CHR ''+'' then cs else s | [] \<Rightarrow> [])
      in if ds \<noteq> [] \<and> list_all is_ascii_digit ds \<and> read_nat ds < 2 ^ LENGTH('n) then Some (of_nat (read_nat ds)) else None)"

lemma digit_char: "(d :: nat) < 10 \<Longrightarrow> is_ascii_digit (char_of (48 + d))"
  by (simp add: is_ascii_digit_def)

lemma show_nat_digits: "list_all is_ascii_digit (show_nat n)"
proof (induction n rule: show_nat.induct)
  case (1 n)
  then show ?case by (subst show_nat.simps) (simp add: digit_char)
qed

lemma digit_not_ws: "is_ascii_digit c \<Longrightarrow> \<not> is_ws c \<and> c \<noteq> CHR ''+''"
  by (auto simp: is_ascii_digit_def is_ws_def)

lemma show_nat_word: "show_nat n \<noteq> [] \<and> (\<forall>c \<in> set (show_nat n). \<not> is_ws c)"
  using show_nat_digits [of n] digit_not_ws by (auto simp: list_all_iff)

lemma parse_show_nat: "parse_uint (show_nat (unat (w :: 'n::len word))) = Some w"
proof -
  obtain c cs where s: "show_nat (unat w) = c # cs" by (cases "show_nat (unat w)") auto
  moreover have "c \<noteq> CHR ''+''" using show_nat_digits [of "unat w"] digit_not_ws by (auto simp: s)
  moreover have "read_nat (c # cs) = unat w" using read_show_nat [of "unat w"] by (simp add: s)
  moreover have "list_all is_ascii_digit (c # cs)" using show_nat_digits [of "unat w"] by (simp add: s)
  ultimately show ?thesis by (simp add: parse_uint_def Let_def)
qed

lemma split_whitespace_join:
  "list_all (\<lambda>w. w \<noteq> [] \<and> (\<forall>c \<in> set w. \<not> is_ws c)) ws \<Longrightarrow> split_whitespace (join '' '' ws) = ws"
proof (induction ws rule: induct_list012)
  case 1
  show ?case by (subst split_whitespace.simps) simp
next
  case (2 w)
  then show ?case by (simp add: split_whitespace_word)
next
  case (3 w v ws)
  have "is_ws (CHR '' '')" by (simp add: is_ws_def)
  with 3 show ?case by (simp add: split_whitespace_Cons)
qed

text \<open>\<open>Iterator::find_map\<close>\<close>

fun find_map :: "('a \<Rightarrow> 'b option) \<Rightarrow> 'a list \<Rightarrow> 'b option" where
  "find_map f [] = None"
| "find_map f (x # xs) = (case f x of None \<Rightarrow> find_map f xs | Some y \<Rightarrow> Some y)"

section \<open>Lines\<close>

abbreviation nl :: string where
  "nl \<equiv> [CHR 0x0A]"

text \<open>\<open>str::lines\<close>: a carriage return goes with the line feed behind it, and there is no line after
  the last line feed.\<close>

definition strip_cr :: "string \<Rightarrow> string" where
  "strip_cr l = (if ends_with l [CHR 0x0D] then butlast l else l)"

definition str_lines :: "string \<Rightarrow> string list" where
  "str_lines s =
     (let ps = split_on (CHR 0x0A) s
      in map strip_cr (butlast ps) @ (if last ps = [] then [] else [last ps]))"

definition plain_line :: "string \<Rightarrow> bool" where
  "plain_line l \<longleftrightarrow> CHR 0x0A \<notin> set l \<and> \<not> ends_with l [CHR 0x0D]"

abbreviation unlines :: "string list \<Rightarrow> string" where
  "unlines ls \<equiv> concat (map (\<lambda>l. l @ nl) ls)"

lemma split_on_line: "c \<notin> set l \<Longrightarrow> split_on c (l @ c # s) = l # split_on c s"
  by (induction l) auto

lemma split_on_unlines: "list_all plain_line ls \<Longrightarrow> split_on (CHR 0x0A) (unlines ls) = ls @ [[]]"
  by (induction ls) (simp_all add: plain_line_def split_on_line)

lemma lines_unlines: "list_all plain_line ls \<Longrightarrow> str_lines (unlines ls) = ls"
  unfolding str_lines_def split_on_unlines
  by (simp add: split_on_unlines Let_def) (induction ls; simp add: plain_line_def strip_cr_def)

end
