(* ===== verification/Policy_Classifier.thy ===== *)
theory Policy_Classifier
  imports Rust_Text
begin

text \<open>
  The command classifier of \<^verbatim>\<open>src/crates/core-policy/src/classifier.rs\<close>: the splitter
  that takes a compound shell command apart, the extraction of a sub-command's head, and
  \<open>classify\<close>, the verdict on a command an agent wants to run. \<open>Err(())\<close> of the splitter
  is \<open>Err ()\<close>. The recursion of \<open>split_subcommands\<close> on the text of a command
  substitution is on a shorter string, which is the termination proof of \<open>split_loop\<close>.
\<close>

section \<open>Data\<close>

datatype AccessLevel = Readonly | Standard | Full

datatype Verdict = Allow | RequireConfirmation | Deny

definition READONLY_WHITELIST :: "string list" where
  "READONLY_WHITELIST =
    [''ls'', ''cat'', ''head'', ''tail'', ''less'', ''more'', ''grep'', ''egrep'', ''fgrep'',
     ''find'', ''pwd'', ''df'', ''du'', ''ps'', ''top'', ''htop'', ''free'', ''uptime'',
     ''uname'', ''hostname'', ''whoami'', ''id'', ''date'', ''ip'', ''ss'', ''netstat'',
     ''lsof'', ''dmesg'', ''journalctl'', ''systemctl'', ''mount'', ''env'', ''printenv'',
     ''wc'', ''sort'', ''uniq'', ''diff'', ''file'', ''stat'', ''readlink'', ''echo'',
     ''printf'', ''true'', ''false'']"

definition BLACKLIST :: "string list" where
  "BLACKLIST =
    [''rm'', ''mkfs'', ''dd'', ''shutdown'', ''reboot'', ''halt'', ''poweroff'', ''init'',
     ''iptables'', ''useradd'', ''userdel'', ''usermod'', ''passwd'', ''chpasswd'', ''visudo'',
     ''chmod'', ''chown'', ''chattr'', ''yum'', ''apt'', ''apt-get'', ''dnf'', ''zypper'',
     ''pacman'', ''snap'', ''systemctl-danger'']"

definition INDIRECT_SHELLS :: "string list" where
  "INDIRECT_SHELLS =
    [''bash'', ''sh'', ''dash'', ''zsh'', ''ksh'', ''fish'', ''eval'', ''exec'', ''xargs'',
     ''nohup'', ''sudo'', ''su'', ''doas'', ''python'', ''python3'', ''perl'', ''ruby'',
     ''node'', ''awk'', ''sed'']"

record PolicyEngine =
  pe_whitelist :: "string list"
  pe_blacklist :: "string list"

definition engine_new :: PolicyEngine where
  "engine_new = \<lparr>pe_whitelist = [], pe_blacklist = []\<rparr>"

definition with_lists :: "string list \<Rightarrow> string list \<Rightarrow> PolicyEngine" where
  "with_lists wl bl = \<lparr>pe_whitelist = wl, pe_blacklist = bl\<rparr>"

definition whitelist :: "PolicyEngine \<Rightarrow> string list" where
  "whitelist e = (if pe_whitelist e = [] then READONLY_WHITELIST else pe_whitelist e)"

definition blacklist :: "PolicyEngine \<Rightarrow> string list" where
  "blacklist e = (if pe_blacklist e = [] then BLACKLIST else pe_blacklist e)"

section \<open>Splitting a compound command\<close>

text \<open>\<open>chars.peek() == Some(&c)\<close>\<close>

definition peek_is :: "char \<Rightarrow> string \<Rightarrow> bool" where
  "peek_is c cs = (case cs of [] \<Rightarrow> False | x # _ \<Rightarrow> x = c)"

lemma peek_is_simps [simp]:
  "\<not> peek_is c []"
  "peek_is c (x # xs) \<longleftrightarrow> x = c"
  by (simp_all add: peek_is_def)

text \<open>
  The inner scan of \<open>$(...)\<close>: \<open>Some (inner, rest)\<close> at the parenthesis that closes the
  first one, \<open>None\<close> when the input ends before.
\<close>

fun scan_paren :: "nat \<Rightarrow> string \<Rightarrow> string \<Rightarrow> (string \<times> string) option" where
  "scan_paren depth inner [] = None"
| "scan_paren depth inner (c # cs) =
     (if c = CHR ''('' then scan_paren (depth + 1) (inner @ [c]) cs
      else if c = CHR '')'' then
        (if depth - 1 = 0 then Some (inner, cs) else scan_paren (depth - 1) (inner @ [c]) cs)
      else scan_paren depth (inner @ [c]) cs)"

text \<open>The inner scan of a backtick substitution.\<close>

fun scan_backtick :: "string \<Rightarrow> string \<Rightarrow> (string \<times> string) option" where
  "scan_backtick inner [] = None"
| "scan_backtick inner (c # cs) =
     (if c = CHR 0x60 then Some (inner, cs) else scan_backtick (inner @ [c]) cs)"

lemma scan_paren_length:
  "scan_paren d i cs = Some (inner, rest) \<Longrightarrow>
     length inner + length rest < length i + length cs"
  by (induction d i cs rule: scan_paren.induct) (fastforce split: if_splits)+

lemma scan_backtick_length:
  "scan_backtick i cs = Some (inner, rest) \<Longrightarrow>
     length inner + length rest < length i + length cs"
  by (induction i cs rule: scan_backtick.induct) (fastforce split: if_splits)+

definition is_separator :: "char \<Rightarrow> bool" where
  "is_separator c \<longleftrightarrow> c \<in> {CHR ''|'', CHR '';'', CHR ''&'', CHR 0x0A, CHR ''<'', CHR ''>''}"

text \<open>
  The main loop. \<open>out\<close> and \<open>cur\<close> are the code's accumulators, \<open>sq\<close> and \<open>dq\<close> its
  \<open>in_single\<close> and \<open>in_double\<close>, the last argument the characters left. The branches are
  in the order of the \<open>match\<close>.
\<close>

function split_loop ::
  "string list \<Rightarrow> string \<Rightarrow> bool \<Rightarrow> bool \<Rightarrow> string \<Rightarrow> (unit, string list) result" where
  "split_loop out cur sq dq [] =
     (if sq \<or> dq then Err ()
      else Ok (if trim cur \<noteq> [] then out @ [cur] else out))"
| "split_loop out cur sq dq (c # cs) =
     (if c = CHR 0x27 \<and> \<not> dq then split_loop out cur (\<not> sq) dq cs
      else if c = CHR 0x22 \<and> \<not> sq then split_loop out cur sq (\<not> dq) cs
      else if c = CHR 0x5C \<and> \<not> sq then
        (case cs of [] \<Rightarrow> Err () | n # cs' \<Rightarrow> split_loop out (cur @ [n]) sq dq cs')
      else if c = CHR ''$'' \<and> \<not> sq \<and> peek_is CHR ''('' cs then
        (case scan_paren 1 [] (tl cs) of
           None \<Rightarrow> Err ()
         | Some (inner, rest) \<Rightarrow>
             (case split_loop [] [] False False inner of
                Inl e \<Rightarrow> Err e
              | Inr subs \<Rightarrow> split_loop (out @ subs) (cur @ ''x'') sq dq rest))
      else if c = CHR 0x60 \<and> \<not> sq then
        (case scan_backtick [] cs of
           None \<Rightarrow> Err ()
         | Some (inner, rest) \<Rightarrow>
             (case split_loop [] [] False False inner of
                Inl e \<Rightarrow> Err e
              | Inr subs \<Rightarrow> split_loop (out @ subs) cur sq dq rest))
      else if c \<in> {CHR ''('', CHR '')''} \<and> \<not> sq \<and> \<not> dq then Err ()
      else if is_separator c \<and> \<not> sq \<and> \<not> dq then
        (let cs' = (if c \<in> {CHR ''|'', CHR ''&'', CHR ''>''} \<and> peek_is c cs then tl cs else cs);
             cur' = (if c = CHR ''>'' then cur @ ''>'' else cur)
         in split_loop (if trim cur' \<noteq> [] then out @ [cur'] else out) [] sq dq cs')
      else split_loop out (cur @ [c]) sq dq cs)"
  by pat_completeness auto
termination
  by (relation "measure (\<lambda>(out, cur, sq, dq, cs). length cs)")
     (auto simp: peek_is_def split: list.splits dest!: scan_paren_length scan_backtick_length)

definition split_subcommands :: "string \<Rightarrow> (unit, string list) result" where
  "split_subcommands cmd = split_loop [] [] False False cmd"

section \<open>Heads, redirections and the verdict\<close>

definition is_ident :: "string \<Rightarrow> bool" where
  "is_ident s \<longleftrightarrow>
     s \<noteq> [] \<and> (\<forall>c \<in> set s. is_ascii_alphanumeric c \<or> c = CHR ''_'') \<and> \<not> is_ascii_digit (hd s)"

text \<open>The loop that drops leading \<open>NAME=value\<close> words.\<close>

definition is_assignment :: "string \<Rightarrow> bool" where
  "is_assignment w \<longleftrightarrow>
     CHR ''='' \<in> set w \<and> \<not> starts_with w ''/'' \<and> is_ident (hd (split_on CHR ''='' w))"

fun skip_assignments :: "string list \<Rightarrow> string option" where
  "skip_assignments [] = None"
| "skip_assignments (w # ws) = (if is_assignment w then skip_assignments ws else Some w)"

definition command_head :: "string \<Rightarrow> string option" where
  "command_head sub =
     (case skip_assignments (split_whitespace sub) of
        None \<Rightarrow> None
      | Some w \<Rightarrow>
          (let name = last (split_on CHR ''/'' w) in if name = [] then None else Some name))"

fun has_output_redirect :: "string \<Rightarrow> bool" where
  "has_output_redirect [] = False"
| "has_output_redirect (b # bs) =
     (if b = CHR ''>'' then (if peek_is CHR ''&'' bs then has_output_redirect bs else True)
      else has_output_redirect bs)"

definition all_whitelisted :: "string list \<Rightarrow> string list \<Rightarrow> bool" where
  "all_whitelisted subs wl \<longleftrightarrow>
     list_all (\<lambda>s. case command_head s of None \<Rightarrow> False | Some h \<Rightarrow> h \<in> set wl) subs"

text \<open>The loop over the sub-commands: \<open>Inl\<close> is its early return, \<open>Inr\<close> the final \<open>has_unproven\<close>.\<close>

fun classify_loop :: "string list \<Rightarrow> string list \<Rightarrow> bool \<Rightarrow> string list \<Rightarrow> Verdict + bool" where
  "classify_loop wl bl has_unproven [] = Inr has_unproven"
| "classify_loop wl bl has_unproven (sub # subs) =
     (case command_head sub of
        None \<Rightarrow> Inl RequireConfirmation
      | Some head \<Rightarrow>
          if head \<in> set bl then Inl RequireConfirmation
          else if head \<in> set INDIRECT_SHELLS then Inl RequireConfirmation
          else
            (let u1 = (if head \<notin> set wl then True else has_unproven);
                 u2 = (if has_output_redirect sub then True else u1)
             in classify_loop wl bl u2 subs))"

definition classify :: "PolicyEngine \<Rightarrow> string \<Rightarrow> AccessLevel \<Rightarrow> bool \<Rightarrow> Verdict" where
  "classify e cmd level production =
     (case split_subcommands cmd of
        Inl _ \<Rightarrow> RequireConfirmation
      | Inr subs \<Rightarrow>
          if subs = [] then Deny
          else
            (case classify_loop (whitelist e) (blacklist e) False subs of
               Inl v \<Rightarrow> v
             | Inr has_unproven \<Rightarrow>
                 if production \<and> (has_unproven \<or> \<not> all_whitelisted subs (whitelist e))
                 then RequireConfirmation
                 else if has_unproven then
                   (case level of
                      Readonly \<Rightarrow> Deny
                    | Standard \<Rightarrow> RequireConfirmation
                    | Full \<Rightarrow> RequireConfirmation)
                 else Allow))"

section \<open>The decision matrix\<close>

text \<open>
  What the module documentation promises of a split command, without loops or early
  returns: a sub-command is \<open>dangerous\<close> when its head cannot be found, is blacklisted or
  runs other code, and \<open>proven\<close> when its head is whitelisted and it redirects no output.
\<close>

definition dangerous :: "PolicyEngine \<Rightarrow> string \<Rightarrow> bool" where
  "dangerous e sub \<longleftrightarrow>
     (case command_head sub of
        None \<Rightarrow> True
      | Some h \<Rightarrow> h \<in> set (blacklist e) \<or> h \<in> set INDIRECT_SHELLS)"

definition proven :: "PolicyEngine \<Rightarrow> string \<Rightarrow> bool" where
  "proven e sub \<longleftrightarrow>
     (case command_head sub of
        None \<Rightarrow> False
      | Some h \<Rightarrow> h \<in> set (whitelist e) \<and> \<not> has_output_redirect sub)"

definition matrix_verdict :: "PolicyEngine \<Rightarrow> string \<Rightarrow> AccessLevel \<Rightarrow> bool \<Rightarrow> Verdict" where
  "matrix_verdict e cmd level production =
     (case split_subcommands cmd of
        Inl _ \<Rightarrow> RequireConfirmation
      | Inr subs \<Rightarrow>
          if subs = [] then Deny
          else if list_ex (dangerous e) subs then RequireConfirmation
          else if list_all (proven e) subs then Allow
          else if production then RequireConfirmation
          else if level = Readonly then Deny
          else RequireConfirmation)"

lemma classify_loop_eq:
  "classify_loop (whitelist e) (blacklist e) u subs =
     (if list_ex (dangerous e) subs then Inl RequireConfirmation
      else Inr (u \<or> \<not> list_all (proven e) subs))"
  by (induction subs arbitrary: u)
     (auto simp: dangerous_def proven_def Let_def split: option.splits)

lemma proven_all_whitelisted:
  "list_all (proven e) subs \<Longrightarrow> all_whitelisted subs (whitelist e)"
  by (auto simp: all_whitelisted_def proven_def list_all_iff split: option.splits)

lemma classify_eq_matrix: "classify e cmd level production = matrix_verdict e cmd level production"
  by (auto simp: classify_def matrix_verdict_def classify_loop_eq proven_all_whitelisted
      split: sum.splits AccessLevel.splits)

lemma classify_Allow_iff:
  "classify e cmd level production = Allow \<longleftrightarrow>
     (\<exists>subs. split_subcommands cmd = Ok subs \<and> subs \<noteq> [] \<and>
        (\<forall>sub \<in> set subs. proven e sub \<and> \<not> dangerous e sub))"
  by (auto simp: classify_eq_matrix matrix_verdict_def list_ex_iff list_all_iff split: sum.splits)

section \<open>What the splitter keeps\<close>

declare split_loop.simps(2) [simp del]

lemma split_loop_keeps_out:
  "split_loop out cur sq dq cs = Ok subs \<Longrightarrow> set out \<subseteq> set subs"
proof (induction out cur sq dq cs arbitrary: subs rule: split_loop.induct)
  case (1 out cur sq dq)
  then show ?case by (auto split: if_splits)
next
  case (2 out cur sq dq c cs)
  note eq = "2.prems" [unfolded split_loop.simps(2)]
  consider "c = CHR 0x27 \<and> \<not> dq" | "\<not> (c = CHR 0x27 \<and> \<not> dq)" "c = CHR 0x22 \<and> \<not> sq"
    | "\<not> (c = CHR 0x27 \<and> \<not> dq)" "\<not> (c = CHR 0x22 \<and> \<not> sq)"
    by blast
  then show ?case
  proof cases
    case 1
    with eq "2.IH"(1) show ?thesis by simp
  next
    case 2
    with eq "2.IH"(2) show ?thesis by simp
  next
    case 3
    note q = 3
    consider (esc) "c = CHR 0x5C \<and> \<not> sq"
      | (sub) "\<not> (c = CHR 0x5C \<and> \<not> sq)" "c = CHR ''$'' \<and> \<not> sq \<and> peek_is CHR ''('' cs"
      | (rest) "\<not> (c = CHR 0x5C \<and> \<not> sq)" "\<not> (c = CHR ''$'' \<and> \<not> sq \<and> peek_is CHR ''('' cs)"
      by blast
    then show ?thesis
    proof cases
      case esc
      with q eq "2.IH"(3) show ?thesis by (simp split: list.splits)
    next
      case sub
      with q eq obtain inner rest subs' where "scan_paren 1 [] (tl cs) = Some (inner, rest)"
        "split_loop [] [] False False inner = Inr subs'"
        "split_loop (out @ subs') (cur @ ''x'') sq dq rest = Ok subs"
        by (auto split: option.splits sum.splits)
      with q sub "2.IH"(5) show ?thesis by auto
    next
      case rest
      show ?thesis
      proof (cases "c = CHR 0x60 \<and> \<not> sq")
        case True
        with q rest eq obtain inner rest' subs' where "scan_backtick [] cs = Some (inner, rest')"
          "split_loop [] [] False False inner = Inr subs'"
          "split_loop (out @ subs') cur sq dq rest' = Ok subs"
          by (auto split: option.splits sum.splits)
        with q rest True "2.IH"(7) show ?thesis by auto
      next
        case False
        note r = rest False
        show ?thesis
        proof (cases "is_separator c \<and> \<not> sq \<and> \<not> dq")
          case True
          with q r eq "2.IH"(8) show ?thesis by (auto simp: Let_def split: if_splits)
        next
          case False
          with q r eq "2.IH"(9) show ?thesis by (auto split: if_splits)
        qed
      qed
    qed
  qed
qed

text \<open>A character that neither quotes, escapes nor groups what follows it.\<close>

definition transparent :: "char \<Rightarrow> bool" where
  "transparent c \<longleftrightarrow> c \<notin> {CHR 0x27, CHR 0x5C, CHR ''$'', CHR 0x60, CHR ''('', CHR '')''}"

lemma split_loop_transparent:
  "transparent c \<Longrightarrow> split_loop out cur False dq (c # cs) =
     (if c = CHR 0x22 then split_loop out cur False (\<not> dq) cs
      else if is_separator c \<and> \<not> dq then
        (let cs' = (if c \<in> {CHR ''|'', CHR ''&'', CHR ''>''} \<and> peek_is c cs then tl cs else cs);
             cur' = (if c = CHR ''>'' then cur @ ''>'' else cur)
         in split_loop (if trim cur' \<noteq> [] then out @ [cur'] else out) [] False dq cs')
      else split_loop out (cur @ [c]) False dq cs)"
  by (simp add: transparent_def split_loop.simps(2))

text \<open>The last character of a prefix is half of a two-character operator.\<close>

definition splits_operator :: "string \<Rightarrow> string \<Rightarrow> bool" where
  "splits_operator p q \<longleftrightarrow>
     p \<noteq> [] \<and> last p \<in> {CHR ''|'', CHR ''&'', CHR ''>''} \<and> peek_is (last p) q"

lemma split_loop_prefix:
  assumes "\<forall>c \<in> set p. transparent c" and "\<not> splits_operator p q"
  shows "\<exists>out' cur' dq'. set out \<subseteq> set out' \<and> (CHR 0x22 \<notin> set p \<longrightarrow> dq' = dq) \<and>
           split_loop out cur False dq (p @ q) = split_loop out' cur' False dq' q"
  using assms
proof (induction "length p" arbitrary: p out cur dq rule: less_induct)
  case less
  show ?case
  proof (cases p)
    case Nil
    then show ?thesis by auto
  next
    case (Cons c p')
    have tail: "\<exists>out' cur' dq'. set out1 \<subseteq> set out' \<and> (CHR 0x22 \<notin> set p1 \<longrightarrow> dq' = dq1) \<and>
        split_loop out1 cur1 False dq1 (p1 @ q) = split_loop out' cur' False dq' q"
      if "p = xs @ p1" "xs \<noteq> []" for xs p1 out1 cur1 dq1
      using less.prems that by (intro less.hyps) (auto simp: splits_operator_def)
    from less.prems Cons have tc: "transparent c" by simp
    consider (quote) "c = CHR 0x22" | (sep) "c \<noteq> CHR 0x22" "is_separator c" "\<not> dq"
      | (push) "c \<noteq> CHR 0x22" "\<not> (is_separator c \<and> \<not> dq)" by blast
    then show ?thesis
    proof cases
      case quote
      with Cons tc tail [of "[c]" p' out "\<not> dq" cur] show ?thesis
        by (auto simp: split_loop_transparent)
    next
      case push
      with Cons tc tail [of "[c]" p' out dq "cur @ [c]"] show ?thesis
        by (auto simp: split_loop_transparent)
    next
      case sep
      define cur' where "cur' = (if c = CHR ''>'' then cur @ ''>'' else cur)"
      define out1 where "out1 = (if trim cur' \<noteq> [] then out @ [cur'] else out)"
      define r where
        "r = (if c \<in> {CHR ''|'', CHR ''&'', CHR ''>''} \<and> peek_is c (p' @ q) then tl (p' @ q) else p' @ q)"
      have eq: "split_loop out cur False dq (p @ q) = split_loop out1 [] False dq r"
        using sep tc Cons
        by (simp add: split_loop_transparent Let_def r_def out1_def cur'_def)
      have "\<exists>xs p1. p = xs @ p1 \<and> xs \<noteq> [] \<and> r = p1 @ q"
      proof (cases "c \<in> {CHR ''|'', CHR ''&'', CHR ''>''} \<and> peek_is c (p' @ q)")
        case True
        with less.prems(2) Cons have "p' \<noteq> []" by (auto simp: splits_operator_def)
        then show ?thesis using True Cons
          by (intro exI [of _ "[c, hd p']"] exI [of _ "tl p'"]) (simp add: r_def)
      next
        case False
        with Cons show ?thesis
          by (intro exI [of _ "[c]"] exI [of _ p']) (auto simp: r_def)
      qed
      then obtain xs p1 where p1: "p = xs @ p1" "xs \<noteq> []" "r = p1 @ q" by blast
      have "set out \<subseteq> set out1" by (auto simp: out1_def)
      moreover obtain out' cur' dq' where "set out1 \<subseteq> set out'"
        "CHR 0x22 \<notin> set p1 \<longrightarrow> dq' = dq"
        "split_loop out1 [] False dq (p1 @ q) = split_loop out' cur' False dq' q"
        using tail [OF p1(1,2), of out1 dq "[]"] by blast
      ultimately show ?thesis using eq p1
        by (intro exI [of _ out'] exI [of _ cur'] exI [of _ dq']) simp
    qed
  qed
qed

text \<open>A parenthesis-balanced text is what the \<open>$(\<close> scan returns.\<close>

fun paren_balanced :: "nat \<Rightarrow> string \<Rightarrow> bool" where
  "paren_balanced d [] \<longleftrightarrow> d = 0"
| "paren_balanced d (c # cs) \<longleftrightarrow>
     (if c = CHR ''('' then paren_balanced (Suc d) cs
      else if c = CHR '')'' then d \<noteq> 0 \<and> paren_balanced (d - 1) cs
      else paren_balanced d cs)"

lemma scan_paren_balanced:
  "paren_balanced d inner \<Longrightarrow>
     scan_paren (Suc d) i (inner @ CHR '')'' # q) = Some (i @ inner, q)"
  by (induction d inner arbitrary: i rule: paren_balanced.induct) (auto split: if_splits)

lemma scan_backtick_free:
  "CHR 0x60 \<notin> set inner \<Longrightarrow> scan_backtick i (inner @ CHR 0x60 # q) = Some (i @ inner, q)"
  by (induction inner arbitrary: i) auto

text \<open>The two spellings of a command substitution whose text is \<open>inner\<close>.\<close>

definition substitution :: "string \<Rightarrow> string \<Rightarrow> bool" where
  "substitution inner w \<longleftrightarrow>
     (w = ''$('' @ inner @ '')'' \<and> paren_balanced 0 inner) \<or>
     (w = [CHR 0x60] @ inner @ [CHR 0x60] \<and> CHR 0x60 \<notin> set inner)"

lemma split_substitution:
  assumes "substitution inner w" and "split_loop out cur False dq (w @ q) = Ok subs"
  shows "\<exists>subs'. split_subcommands inner = Ok subs' \<and> set subs' \<subseteq> set subs"
proof -
  have "\<exists>subs' cur' rest. split_subcommands inner = Ok subs' \<and>
      split_loop (out @ subs') cur' False dq rest = Ok subs"
    using assms scan_paren_balanced [of 0 inner "[]" q] scan_backtick_free [of inner "[]" q]
    by (auto simp: substitution_def split_subcommands_def split_loop.simps(2)
        split: sum.splits) blast+
  then show ?thesis by (force dest: split_loop_keeps_out)
qed

lemma splits_operator_substitution:
  "substitution inner w \<Longrightarrow> \<not> splits_operator p (w @ q)"
  by (auto simp: substitution_def splits_operator_def)

lemma split_embedded:
  assumes "\<forall>c \<in> set p. transparent c" and "substitution inner w"
    and "split_subcommands (p @ w @ q) = Ok subs"
  shows "\<exists>subs'. split_subcommands inner = Ok subs' \<and> set subs' \<subseteq> set subs"
proof -
  obtain out' cur' dq' where
    "split_loop [] [] False False (p @ w @ q) = split_loop out' cur' False dq' (w @ q)"
    using split_loop_prefix [OF assms(1) splits_operator_substitution [OF assms(2), of p q]]
    by blast
  with assms(3) have "split_loop out' cur' False dq' (w @ q) = Ok subs"
    by (simp add: split_subcommands_def)
  then show ?thesis by (rule split_substitution [OF assms(2)])
qed

section \<open>Commands without quoting\<close>

text \<open>A character the splitter appends to the current sub-command.\<close>

definition plain :: "char \<Rightarrow> bool" where
  "plain c \<longleftrightarrow> transparent c \<and> c \<noteq> CHR 0x22 \<and> \<not> is_separator c"

lemma split_loop_plain:
  "\<forall>c \<in> set p. plain c \<Longrightarrow> split_loop out cur False False (p @ q) = split_loop out (cur @ p) False False q"
  by (induction p arbitrary: cur) (auto simp: plain_def split_loop_transparent)

lemma split_subcommands_plain:
  "\<forall>c \<in> set p. plain c \<Longrightarrow> split_subcommands p = Ok (if trim p \<noteq> [] then [p] else [])"
  using split_loop_plain [of p "[]" "[]" "[]"] by (simp add: split_subcommands_def)

lemma no_redirect_plain: "\<forall>c \<in> set p. plain c \<Longrightarrow> \<not> has_output_redirect p"
  by (induction p) (auto simp: plain_def is_separator_def)

lemma has_output_redirect_snoc: "has_output_redirect (p @ ''>'')"
  by (induction p) auto

lemma command_head_word:
  assumes "w \<noteq> []" "\<forall>c \<in> set w. \<not> is_ws c \<and> c \<noteq> CHR ''='' \<and> c \<noteq> CHR ''/''" "is_ws b"
  shows "command_head (w @ b # s) = Some w"
proof -
  have "split_on CHR ''/'' w = [w]"
    using assms(2) by (induction w) auto
  with assms show ?thesis
    by (simp add: command_head_def split_whitespace_Cons is_assignment_def Let_def)
       (auto simp: is_assignment_def)
qed

section \<open>Properties\<close>

text \<open>
  C8. The verdict of \<open>classify\<close> is the one of the documented decision matrix, for every
  engine, command, access level and production flag: a command that does not parse needs
  confirmation, an empty one is denied, a dangerous sub-command needs confirmation at any
  level, a command whose sub-commands are all proven read-only is allowed, and of the
  rest production sessions and the higher levels need confirmation and the read-only
  level denies.
\<close>

theorem classify_follows_matrix:
  "classify e cmd level production = matrix_verdict e cmd level production"
  by (rule classify_eq_matrix)

text \<open>
  A command is only allowed when it parses into at least one sub-command and every
  sub-command has a head that is whitelisted, is not blacklisted and is no indirect
  shell, and redirects no output; and no access level and no production flag changes
  whether a command is allowed.
\<close>

theorem allow_is_read_only:
  "classify e cmd level production = Allow \<longleftrightarrow>
     (\<exists>subs. split_subcommands cmd = Ok subs \<and> subs \<noteq> [] \<and>
        list_all (\<lambda>sub. case command_head sub of None \<Rightarrow> False
                        | Some h \<Rightarrow> h \<in> set (whitelist e) \<and> h \<notin> set (blacklist e) \<and>
                            h \<notin> set INDIRECT_SHELLS \<and> \<not> has_output_redirect sub) subs)"
  unfolding classify_Allow_iff
  by (intro ex_cong conj_cong refl)
     (auto simp: list_all_iff proven_def dangerous_def split: option.splits)

text \<open>
  A command substitution cannot hide a command: when \<open>p\<close> holds no character that
  quotes, escapes or groups (double quotes allowed) and \<open>w\<close> is \<open>$(inner)\<close> or a
  backtick substitution of \<open>inner\<close>, then an allowed command \<open>p w q\<close> has an \<open>inner\<close>
  that is empty or allowed by itself.
\<close>

theorem substitution_is_checked:
  assumes "\<forall>c \<in> set p. transparent c" and "substitution inner w"
    and "classify e (p @ w @ q) level production = Allow"
  shows "split_subcommands inner = Ok [] \<or> classify e inner level production = Allow"
proof -
  from assms(3) obtain subs where subs: "split_subcommands (p @ w @ q) = Ok subs"
    "\<forall>sub \<in> set subs. proven e sub \<and> \<not> dangerous e sub"
    by (auto simp: classify_Allow_iff)
  obtain subs' where "split_subcommands inner = Ok subs'" "set subs' \<subseteq> set subs"
    using split_embedded [OF assms(1,2) subs(1)] by blast
  with subs(2) show ?thesis by (cases "subs' = []") (auto simp: classify_Allow_iff)
qed

theorem substitution_is_checked_witness:
  "classify engine_new ''ls'' Readonly True = Allow"
proof -
  have "split_subcommands ''ls'' = Ok [] \<or> classify engine_new ''ls'' Readonly True = Allow"
  proof (rule substitution_is_checked [of "''echo ''" "''ls''" "''$(ls)''" engine_new "[]"])
    show "\<forall>c \<in> set ''echo ''. transparent c" by (simp add: transparent_def)
    show "substitution ''ls'' ''$(ls)''" by (simp add: substitution_def)
    show "classify engine_new (''echo '' @ ''$(ls)'' @ []) Readonly True = Allow"
      by code_simp
  qed
  moreover have "split_subcommands ''ls'' \<noteq> Ok []" by code_simp
  ultimately show ?thesis by simp
qed

text \<open>
  An output redirection outside quotes is never silently allowed, whatever follows
  the \<open>>\<close>: also \<open>>&2\<close>, which the comment on \<open>has_output_redirect\<close> says is not a
  write, because the splitter cuts the sub-command right after the \<open>>\<close>.
\<close>

theorem redirect_never_allowed:
  assumes "\<forall>c \<in> set p. transparent c \<and> c \<noteq> CHR 0x22 \<and> c \<noteq> CHR ''>''"
  shows "classify e (p @ ''>'' @ q) level production \<noteq> Allow"
proof
  assume allow: "classify e (p @ ''>'' @ q) level production = Allow"
  have "p \<noteq> [] \<Longrightarrow> last p \<noteq> CHR ''>''" using assms last_in_set [of p] by blast
  then have "\<not> splits_operator p (''>'' @ q)" by (auto simp: splits_operator_def)
  then obtain out' cur' where
    eq: "split_loop [] [] False False (p @ ''>'' @ q) = split_loop out' cur' False False (''>'' @ q)"
    using split_loop_prefix [of p "''>'' @ q" "[]" False "[]"] assms by blast
  have "trim (cur' @ ''>'') \<noteq> []" by (auto simp: trim_eq_Nil_iff is_ws_def)
  then have "\<exists>r. split_loop out' cur' False False (''>'' @ q) =
      split_loop (out' @ [cur' @ ''>'']) [] False False r"
    by (auto simp: split_loop_transparent transparent_def is_separator_def)
  with eq obtain r where "split_subcommands (p @ ''>'' @ q) =
      split_loop (out' @ [cur' @ ''>'']) [] False False r"
    by (auto simp: split_subcommands_def)
  with allow obtain subs where
    "split_loop (out' @ [cur' @ ''>'']) [] False False r = Ok subs"
    and all_proven: "\<forall>sub \<in> set subs. proven e sub"
    by (auto simp: classify_Allow_iff)
  then have "cur' @ ''>'' \<in> set subs" using split_loop_keeps_out by force
  with all_proven show False
    by (force simp: proven_def has_output_redirect_snoc split: option.splits)
qed

theorem redirect_never_allowed_witness:
  "classify engine_new ''ls >&2'' Standard False \<noteq> Allow"
proof -
  have "\<forall>c \<in> set ''ls ''. transparent c \<and> c \<noteq> CHR 0x22 \<and> c \<noteq> CHR ''>''"
    by (simp add: transparent_def)
  from redirect_never_allowed [OF this, of engine_new "''&2''"] show ?thesis by simp
qed

text \<open>
  The blacklist is consulted for the head of a sub-command only. Since \<open>env\<close> is on
  the default whitelist and runs its arguments, a command made of \<open>env\<close> and any words
  without shell syntax is allowed at every level, in production too: \<open>env rm -rf /\<close> is
  allowed although \<open>rm\<close> is blacklisted.
\<close>

theorem env_hides_blacklisted:
  assumes "\<forall>c \<in> set args. plain c"
  shows "classify engine_new (''env '' @ args) level production = Allow"
proof -
  let ?cmd = "''env '' @ args"
  have plain: "\<forall>c \<in> set ?cmd. plain c"
    using assms by (simp add: plain_def transparent_def is_separator_def)
  have "trim ?cmd \<noteq> []" by (simp add: trim_eq_Nil_iff is_ws_def)
  with plain have subs: "split_subcommands ?cmd = Ok [?cmd]"
    by (simp add: split_subcommands_plain)
  have "command_head ?cmd = Some ''env''"
    using command_head_word [of "''env''" "CHR '' ''" args] by (simp add: is_ws_def)
  moreover have "\<not> has_output_redirect ?cmd" using plain by (rule no_redirect_plain)
  ultimately have "proven engine_new ?cmd \<and> \<not> dangerous engine_new ?cmd"
    by (simp add: proven_def dangerous_def whitelist_def blacklist_def engine_new_def
        READONLY_WHITELIST_def BLACKLIST_def INDIRECT_SHELLS_def)
  with subs show ?thesis by (simp add: classify_Allow_iff)
qed

theorem env_hides_blacklisted_witness:
  "classify engine_new ''env rm -rf /'' Readonly True = Allow \<and>
   classify engine_new ''rm -rf /'' Readonly True = RequireConfirmation"
proof
  have "\<forall>c \<in> set ''rm -rf /''. plain c"
    by (simp add: plain_def transparent_def is_separator_def)
  from env_hides_blacklisted [OF this, of Readonly True]
  show "classify engine_new ''env rm -rf /'' Readonly True = Allow" by simp
  show "classify engine_new ''rm -rf /'' Readonly True = RequireConfirmation" by code_simp
qed

end
