(* ===== verification/Policy_Rate.thy ===== *)
theory Policy_Rate
  imports Prelude
begin

text \<open>
  The per-caller rate limiter of \<^verbatim>\<open>src/crates/core-policy/src/rate.rs\<close>, with the errors
  of \<^verbatim>\<open>src/crates/core-policy/src/error.rs\<close>. An \<open>Instant\<close> is its reading in
  nanoseconds; \<open>check\<close> reads the clock up to three times (inserting the window, asking for
  its age, restarting it), so a call carries three readings. The mutex makes calls
  sequential: a history is a list of calls.
\<close>

section \<open>Data and operations\<close>

datatype PolicyError = Denied string | RateLimited u32 | KillSwitchActive

record Window =
  w_count :: u32
  w_started :: nat

record RateLimiter =
  per_minute :: u32
  windows :: "string \<rightharpoonup> Window"

record clock =
  t_insert :: nat
  t_elapsed :: nat
  t_restart :: nat

definition window_length :: nat where
  "window_length = 60 * 10 ^ 9"

definition rate_new :: "u32 \<Rightarrow> RateLimiter" where
  "rate_new n = \<lparr>per_minute = n, windows = Map.empty\<rparr>"

definition check :: "RateLimiter \<Rightarrow> string \<Rightarrow> clock \<Rightarrow> RateLimiter \<times> (PolicyError, unit) result" where
  "check rl caller t =
     (let w0 = (case windows rl caller of
                  None \<Rightarrow> \<lparr>w_count = 0, w_started = t_insert t\<rparr>
                | Some w \<Rightarrow> w);
          w1 = (if window_length \<le> t_elapsed t - w_started w0
                then \<lparr>w_count = 0, w_started = t_restart t\<rparr>
                else w0)
      in if per_minute rl \<le> w_count w1
         then (rl\<lparr>windows := (windows rl)(caller \<mapsto> w1)\<rparr>, Err (RateLimited (per_minute rl)))
         else (rl\<lparr>windows := (windows rl)(caller \<mapsto> w1\<lparr>w_count := w_count w1 + 1\<rparr>)\<rparr>, Ok ()))"

fun check_all :: "RateLimiter \<Rightarrow> (string \<times> clock) list \<Rightarrow> RateLimiter" where
  "check_all rl [] = rl"
| "check_all rl ((c, t) # rs) = check_all (fst (check rl c t)) rs"

text \<open>How many calls of \<open>caller\<close> a history accepts.\<close>

fun accepted :: "string \<Rightarrow> RateLimiter \<Rightarrow> (string \<times> clock) list \<Rightarrow> nat" where
  "accepted caller rl [] = 0"
| "accepted caller rl ((c, t) # rs) =
     (case check rl c t of
        (rl', r) \<Rightarrow> (if c = caller \<and> r = Ok () then 1 else 0) + accepted caller rl' rs)"

section \<open>Invariant\<close>

text \<open>A window never counts past the limit, and is only opened by a call that it counts.\<close>

definition rate_inv :: "RateLimiter \<Rightarrow> bool" where
  "rate_inv rl \<longleftrightarrow>
     (\<forall>c w. windows rl c = Some w \<longrightarrow>
        w_count w \<le> per_minute rl \<and> (0 < per_minute rl \<longrightarrow> 0 < w_count w))"

lemma per_minute_check [simp]: "per_minute (fst (check rl c t)) = per_minute rl"
  by (simp add: check_def Let_def)

lemma windows_check_other:
  "c \<noteq> caller \<Longrightarrow> windows (fst (check rl c t)) caller = windows rl caller"
  by (simp add: check_def Let_def)

lemma word_inc_pos: "(a :: u32) < b \<Longrightarrow> 0 < a + 1 \<and> a + 1 \<le> b"
  using unat_Suc_lt [of a b] by (auto simp: word_less_nat_alt word_le_nat_alt)

lemma word_one_le: "0 < (a :: u32) \<Longrightarrow> 1 \<le> a"
  by (simp add: word_less_nat_alt word_le_nat_alt)

lemma rate_inv_new: "rate_inv (rate_new n)"
  by (simp add: rate_inv_def rate_new_def)

lemma rate_inv_check:
  assumes "rate_inv rl"
  shows "rate_inv (fst (check rl c t))"
  unfolding rate_inv_def
proof (intro allI impI)
  fix c' w
  assume w: "windows (fst (check rl c t)) c' = Some w"
  show "w_count w \<le> per_minute (fst (check rl c t)) \<and>
      (0 < per_minute (fst (check rl c t)) \<longrightarrow> 0 < w_count w)"
  proof (cases "c' = c")
    case True
    with w assms show ?thesis
      by (auto simp: check_def Let_def rate_inv_def not_le word_inc_pos word_one_le
          split: if_splits option.splits intro: order.antisym)
  next
    case False
    with w assms show ?thesis by (auto simp: windows_check_other rate_inv_def)
  qed
qed

lemma rate_inv_check_all: "rate_inv rl \<Longrightarrow> rate_inv (check_all rl rs)"
  by (induction rl rs rule: check_all.induct) (auto intro: rate_inv_check)

lemma per_minute_check_all [simp]: "per_minute (check_all rl rs) = per_minute rl"
  by (induction rl rs rule: check_all.induct) auto

section \<open>Counting accepted calls\<close>

text \<open>All clock readings of a history lie in one span shorter than a window.\<close>

definition within :: "nat \<Rightarrow> (string \<times> clock) list \<Rightarrow> bool" where
  "within T rs \<longleftrightarrow>
     list_all (\<lambda>(c, t). T \<le> t_insert t \<and> t_elapsed t < T + window_length \<and> T \<le> t_restart t) rs"

text \<open>The quota a caller has left before the next restart of its window.\<close>

definition left_in_window :: "string \<Rightarrow> RateLimiter \<Rightarrow> nat" where
  "left_in_window caller rl =
     (case windows rl caller of
        None \<Rightarrow> unat (per_minute rl)
      | Some w \<Rightarrow> unat (per_minute rl) - unat (w_count w))"

definition fresh_since :: "nat \<Rightarrow> string \<Rightarrow> RateLimiter \<Rightarrow> bool" where
  "fresh_since T caller rl \<longleftrightarrow>
     (case windows rl caller of None \<Rightarrow> True | Some w \<Rightarrow> T \<le> w_started w)"

lemma window_length_pos: "0 < window_length"
  by (simp add: window_length_def)

lemma check_fresh:
  assumes "fresh_since T caller rl" "t_elapsed t < T + window_length" "T \<le> t_insert t"
  shows "fresh_since T caller (fst (check rl caller t)) \<and>
    left_in_window caller rl =
      left_in_window caller (fst (check rl caller t)) + (if snd (check rl caller t) = Ok () then 1 else 0)"
  using assms window_length_pos
  by (auto simp: check_def Let_def fresh_since_def left_in_window_def not_le word_less_nat_alt
      word_le_nat_alt unat_Suc_lt split: option.splits if_splits)

lemma check_stale:
  assumes "\<not> fresh_since T caller rl" "T \<le> t_restart t"
  shows "(\<not> fresh_since T caller (fst (check rl caller t)) \<and>
      left_in_window caller rl =
        left_in_window caller (fst (check rl caller t)) + (if snd (check rl caller t) = Ok () then 1 else 0)) \<or>
    (fresh_since T caller (fst (check rl caller t)) \<and>
      unat (per_minute rl) =
        left_in_window caller (fst (check rl caller t)) + (if snd (check rl caller t) = Ok () then 1 else 0))"
  using assms
  by (auto simp: check_def Let_def fresh_since_def left_in_window_def not_le word_less_nat_alt
      word_le_nat_alt unat_Suc_lt split: option.splits if_splits)

lemma left_check_other:
  "c \<noteq> caller \<Longrightarrow> left_in_window caller (fst (check rl c t)) = left_in_window caller rl"
  "c \<noteq> caller \<Longrightarrow> fresh_since T caller (fst (check rl c t)) = fresh_since T caller rl"
  by (simp_all add: left_in_window_def fresh_since_def windows_check_other split: option.splits)

lemma accepted_Cons:
  "accepted caller rl ((c, t) # rs) =
     (if c = caller \<and> snd (check rl c t) = Ok () then 1 else 0) + accepted caller (fst (check rl c t)) rs"
  by (simp add: case_prod_unfold)

declare accepted.simps(2) [simp del]

lemma accepted_fresh:
  "fresh_since T caller rl \<Longrightarrow> within T rs \<Longrightarrow> accepted caller rl rs \<le> left_in_window caller rl"
proof (induction rs arbitrary: rl)
  case (Cons r rs)
  obtain c t where r: "r = (c, t)" by fastforce
  show ?case
  proof (cases "c = caller")
    case True
    with Cons r check_fresh [of T caller rl t] show ?thesis
      by (auto simp: accepted_Cons within_def)
  next
    case False
    with Cons.IH [of "fst (check rl c t)"] Cons.prems r show ?thesis
      by (simp add: accepted_Cons within_def left_check_other)
  qed
qed simp

lemma accepted_stale:
  "within T rs \<Longrightarrow> accepted caller rl rs \<le> left_in_window caller rl + unat (per_minute rl)"
proof (induction rs arbitrary: rl)
  case (Cons r rs)
  obtain c t where r: "r = (c, t)" by fastforce
  let ?rl = "fst (check rl c t)"
  have bound: "accepted caller ?rl rs \<le> left_in_window caller ?rl + unat (per_minute rl)"
    using Cons.IH [of ?rl] Cons.prems by (simp add: within_def)
  show ?case
  proof (cases "c = caller \<and> \<not> fresh_since T caller rl")
    case True
    then consider "left_in_window caller rl =
        left_in_window caller ?rl + (if snd (check rl c t) = Ok () then 1 else 0)"
      | "fresh_since T caller ?rl" "unat (per_minute rl) =
        left_in_window caller ?rl + (if snd (check rl c t) = Ok () then 1 else 0)"
      using check_stale [of T caller rl t] Cons.prems r by (auto simp: within_def)
    then show ?thesis
    proof cases
      case 1
      with bound True r show ?thesis by (simp add: accepted_Cons)
    next
      case 2
      with accepted_fresh [of T caller ?rl rs] Cons.prems True r show ?thesis
        by (simp add: accepted_Cons within_def)
    qed
  next
    case False
    show ?thesis
    proof (cases "c = caller")
      case True
      with False accepted_fresh [of T caller rl "r # rs"] Cons.prems show ?thesis by simp
    next
      case False
      with bound r show ?thesis by (simp add: accepted_Cons left_check_other)
    qed
  qed
qed simp

lemma left_in_window_seen:
  assumes "rate_inv rl" "windows rl caller = Some w"
  shows "left_in_window caller rl \<le> unat (per_minute rl) - 1"
proof (cases "per_minute rl = 0")
  case False
  with assms have "0 < w_count w" by (auto simp: rate_inv_def word_neq_0_conv)
  with assms show ?thesis by (auto simp: left_in_window_def word_less_nat_alt)
qed (use assms in \<open>auto simp: left_in_window_def\<close>)

section \<open>Properties\<close>



text \<open>
  One caller's calls never touch another caller's window, and a caller whose window
  is at least a minute old is accepted again when the limit is not zero.
\<close>

theorem rate_limit_isolated_and_reopens:
  "(c \<noteq> caller \<longrightarrow> windows (fst (check rl c t)) caller = windows rl caller) \<and>
   (windows rl c = Some w \<and> window_length \<le> t_elapsed t - w_started w \<and> per_minute rl \<noteq> 0 \<longrightarrow>
      snd (check rl c t) = Ok ())"
  by (simp add: windows_check_other) (auto simp: check_def Let_def)

theorem rate_limit_isolated_and_reopens_witness:
  "snd (check (check_all (rate_new 1) [(''a'', \<lparr>t_insert = 0, t_elapsed = 0, t_restart = 0\<rparr>)]) ''a''
      \<lparr>t_insert = 0, t_elapsed = window_length, t_restart = window_length\<rparr>) = Ok ()"
proof -
  let ?rl = "check_all (rate_new 1) [(''a'', \<lparr>t_insert = 0, t_elapsed = 0, t_restart = 0\<rparr>)]"
  let ?t = "\<lparr>t_insert = 0, t_elapsed = window_length, t_restart = window_length\<rparr>"
  have "windows ?rl ''a'' = Some \<lparr>w_count = 1, w_started = 0\<rparr>"
    by (simp add: check_def rate_new_def window_length_def)
  moreover have "per_minute ?rl \<noteq> 0" by (simp add: rate_new_def)
  ultimately show ?thesis
    using rate_limit_isolated_and_reopens [of "''a''" "''b''" ?rl ?t "\<lparr>w_count = 1, w_started = 0\<rparr>"]
    by simp
qed

end
