(* ===== verification/Policy_Budget.thy ===== *)
theory Policy_Budget
  imports Prelude
begin

text \<open>
  The resource ledger of \<^verbatim>\<open>src/crates/core-policy/src/budget.rs\<close>: \<open>Budget\<close> with its
  atomic \<open>used\<close> and \<open>rejected\<close> counters (\<open>usize\<close> and \<open>u64\<close>, both 64 bits wide), the
  compare-and-swap \<open>cas_take\<close>, and the tasks that call \<open>try_acquire\<close>, \<open>acquire\<close> and
  \<open>acquire_timeout\<close> as a step relation in which every rule is one atomic access. When a
  waiting task is woken is left to the scheduler: a \<open>Waiting\<close> task may be woken at any
  time.
\<close>

section \<open>The ledger\<close>

record Budget =
  b_name :: string
  b_cap :: u64
  b_used :: u64
  b_rejected :: u64

record BudgetSnapshot =
  s_name :: string
  s_cap :: u64
  s_active :: u64
  s_rejected :: u64

record BudgetExhausted =
  x_name :: string
  x_active :: u64
  x_cap :: u64

definition TUNNEL_CHANNEL :: u64 where "TUNNEL_CHANNEL = 256"
definition SFTP_EXEC :: u64 where "SFTP_EXEC = 3"
definition SFTP_READY :: u64 where "SFTP_READY = 512"

definition budget_new :: "string \<Rightarrow> u64 \<Rightarrow> Budget" where
  "budget_new name cap = \<lparr>b_name = name, b_cap = cap, b_used = 0, b_rejected = 0\<rparr>"

text \<open>\<open>fetch_update\<close>: \<open>None\<close> is its failure, which leaves the counter alone.\<close>

definition cas_take :: "Budget \<Rightarrow> Budget option" where
  "cas_take b = (if b_used b < b_cap b then Some (b\<lparr>b_used := b_used b + 1\<rparr>) else None)"

definition permit_drop :: "Budget \<Rightarrow> Budget" where
  "permit_drop b = b\<lparr>b_used := b_used b - 1\<rparr>"

definition count_reject :: "Budget \<Rightarrow> Budget" where
  "count_reject b = b\<lparr>b_rejected := b_rejected b + 1\<rparr>"

definition exhausted :: "Budget \<Rightarrow> BudgetExhausted" where
  "exhausted b = \<lparr>x_name = b_name b, x_active = b_used b, x_cap = b_cap b\<rparr>"

text \<open>\<open>try_acquire\<close> without another task between its atomic accesses.\<close>

definition try_acquire :: "Budget \<Rightarrow> Budget \<times> (BudgetExhausted, unit) result" where
  "try_acquire b =
     (case cas_take b of
        Some b' \<Rightarrow> (b', Ok ())
      | None \<Rightarrow> (count_reject b, Err (exhausted b)))"

definition snapshot :: "Budget \<Rightarrow> BudgetSnapshot" where
  "snapshot b =
     \<lparr>s_name = b_name b, s_cap = b_cap b, s_active = b_used b, s_rejected = b_rejected b\<rparr>"

section \<open>The contract\<close>

text \<open>
  What a client of a permit ledger relies on: \<open>held\<close> counts the permits out, \<open>take\<close>
  succeeds exactly below the capacity, and giving a permit back undoes a take.
\<close>

locale permit_ledger =
  fixes take :: "'b \<Rightarrow> 'b option" and give :: "'b \<Rightarrow> 'b"
    and held :: "'b \<Rightarrow> nat" and capacity :: "'b \<Rightarrow> nat"
  assumes take_iff: "(\<exists>b'. take b = Some b') \<longleftrightarrow> held b < capacity b"
    and held_take: "take b = Some b' \<Longrightarrow> held b' = Suc (held b)"
    and capacity_take: "take b = Some b' \<Longrightarrow> capacity b' = capacity b"
    and held_give: "0 < held b \<Longrightarrow> held (give b) = held b - 1"
    and capacity_give: "capacity (give b) = capacity b"
    and give_take: "take b = Some b' \<Longrightarrow> give b' = b"
begin

lemma take_None_iff: "take b = None \<longleftrightarrow> capacity b \<le> held b"
  using take_iff [of b] by (cases "take b") auto

lemma take_within: "take b = Some b' \<Longrightarrow> held b' \<le> capacity b'"
  using take_iff [of b] held_take [of b b'] capacity_take [of b b'] by auto

lemma give_within: "0 < held b \<Longrightarrow> held b \<le> capacity b \<Longrightarrow> held (give b) < capacity (give b)"
  by (simp add: held_give capacity_give)

text \<open>A freed permit can be taken at once.\<close>

lemma take_after_give: "0 < held b \<Longrightarrow> held b \<le> capacity b \<Longrightarrow> \<exists>b'. take (give b) = Some b'"
  using give_within take_iff by blast

end

definition held :: "Budget \<Rightarrow> nat" where "held b = unat (b_used b)"
definition capacity :: "Budget \<Rightarrow> nat" where "capacity b = unat (b_cap b)"

interpretation ledger: permit_ledger cas_take permit_drop held capacity
proof unfold_locales
  fix b b' :: Budget
  show "(\<exists>b'. cas_take b = Some b') \<longleftrightarrow> held b < capacity b"
    by (simp add: cas_take_def held_def capacity_def word_less_nat_alt)
  show "cas_take b = Some b' \<Longrightarrow> held b' = Suc (held b)"
    by (auto simp: cas_take_def held_def unat_Suc_lt split: if_splits)
  show "cas_take b = Some b' \<Longrightarrow> capacity b' = capacity b"
    by (auto simp: cas_take_def capacity_def split: if_splits)
  show "0 < held b \<Longrightarrow> held (permit_drop b) = held b - 1"
    by (simp add: held_def permit_drop_def unat_pred unat_gt_0)
  show "capacity (permit_drop b) = capacity b"
    by (simp add: capacity_def permit_drop_def)
  show "cas_take b = Some b' \<Longrightarrow> permit_drop b' = b"
    by (auto simp: cas_take_def permit_drop_def split: if_splits)
qed

lemma held_count_reject [simp]: "held (count_reject b) = held b" "capacity (count_reject b) = capacity b"
  by (simp_all add: held_def capacity_def count_reject_def)

section \<open>Tasks\<close>

text \<open>
  Where a task is: outside, in \<open>try_acquire\<close> after its compare-and-swap failed, in the
  \<open>notified().await\<close> of \<open>acquire\<close> or of \<open>acquire_timeout\<close>, back from it and about to
  retry, past a deadline and about to report it, or holding a \<open>Permit\<close>.
\<close>

datatype pc = Outside | TryFailed | Waiting bool | Retrying bool | TimedOut | Holding

record budget_sys =
  ledger_of :: Budget
  pcs :: "nat \<Rightarrow> pc"

definition holders :: "budget_sys \<Rightarrow> nat set" where
  "holders s = {i. pcs s i = Holding}"

definition budget_init :: "budget_sys \<Rightarrow> bool" where
  "budget_init s \<longleftrightarrow> (\<exists>name cap. s = \<lparr>ledger_of = budget_new name cap, pcs = (\<lambda>_. Outside)\<rparr>)"

abbreviation goto :: "budget_sys \<Rightarrow> nat \<Rightarrow> pc \<Rightarrow> budget_sys" where
  "goto s i p \<equiv> s\<lparr>pcs := (pcs s)(i := p)\<rparr>"

text \<open>The flag of \<open>Waiting\<close> and \<open>Retrying\<close> says whether the call has a deadline.\<close>

inductive budget_step :: "budget_sys \<Rightarrow> budget_sys \<Rightarrow> bool" where
  try_ok: "pcs s i = Outside \<Longrightarrow> cas_take (ledger_of s) = Some b \<Longrightarrow>
     budget_step s ((goto s i Holding)\<lparr>ledger_of := b\<rparr>)"
| try_fail: "pcs s i = Outside \<Longrightarrow> cas_take (ledger_of s) = None \<Longrightarrow>
     budget_step s (goto s i TryFailed)"
| try_reject: "pcs s i = TryFailed \<Longrightarrow>
     budget_step s ((goto s i Outside)\<lparr>ledger_of := count_reject (ledger_of s)\<rparr>)"
| acquire_call: "pcs s i = Outside \<Longrightarrow> budget_step s (goto s i (Retrying deadline))"
| acquire_ok: "pcs s i = Retrying deadline \<Longrightarrow> cas_take (ledger_of s) = Some b \<Longrightarrow>
     budget_step s ((goto s i Holding)\<lparr>ledger_of := b\<rparr>)"
| acquire_wait: "pcs s i = Retrying deadline \<Longrightarrow> cas_take (ledger_of s) = None \<Longrightarrow>
     budget_step s (goto s i (Waiting deadline))"
| wake: "pcs s i = Waiting deadline \<Longrightarrow> budget_step s (goto s i (Retrying deadline))"
| expire: "pcs s i = Waiting True \<Longrightarrow> budget_step s (goto s i TimedOut)"
| expire_reject: "pcs s i = TimedOut \<Longrightarrow>
     budget_step s ((goto s i Outside)\<lparr>ledger_of := count_reject (ledger_of s)\<rparr>)"
| drop: "pcs s i = Holding \<Longrightarrow>
     budget_step s ((goto s i Outside)\<lparr>ledger_of := permit_drop (ledger_of s)\<rparr>)"

text \<open>The invariant: the counter is the number of permits alive, and within the capacity.\<close>

definition budget_inv :: "budget_sys \<Rightarrow> bool" where
  "budget_inv s \<longleftrightarrow>
     finite (holders s) \<and> held (ledger_of s) = card (holders s) \<and>
     held (ledger_of s) \<le> capacity (ledger_of s)"

lemma holders_goto:
  "holders (goto s i p) = (if p = Holding then insert i (holders s) else holders s - {i})"
  "holders (s\<lparr>ledger_of := b\<rparr>) = holders s"
  by (auto simp: holders_def)

lemma holders_idle: "pcs s i \<noteq> Holding \<Longrightarrow> i \<notin> holders s"
  by (simp add: holders_def)

lemma budget_inv_take:
  assumes "budget_inv s" "pcs s i \<noteq> Holding" "cas_take (ledger_of s) = Some b"
  shows "budget_inv ((goto s i Holding)\<lparr>ledger_of := b\<rparr>)"
  using assms ledger.held_take [OF assms(3)] ledger.take_within [OF assms(3)] holders_idle [OF assms(2)]
  by (simp add: budget_inv_def holders_goto)

lemma budget_inv_move:
  assumes "budget_inv s" "pcs s i \<noteq> Holding" "p \<noteq> Holding"
  shows "budget_inv (goto s i p)"
  using assms holders_idle [OF assms(2)] by (simp add: budget_inv_def holders_goto)

lemma budget_inv_reject: "budget_inv s \<Longrightarrow> budget_inv (s\<lparr>ledger_of := count_reject (ledger_of s)\<rparr>)"
  by (simp add: budget_inv_def holders_goto)

lemma budget_inv_drop:
  assumes "budget_inv s" "pcs s i = Holding"
  shows "budget_inv ((goto s i Outside)\<lparr>ledger_of := permit_drop (ledger_of s)\<rparr>)"
proof -
  from assms(2) have i: "i \<in> holders s" by (simp add: holders_def)
  with assms(1) have "0 < held (ledger_of s)"
    by (auto simp: budget_inv_def card_gt_0_iff)
  with assms i show ?thesis
    by (auto simp: budget_inv_def holders_goto ledger.held_give ledger.capacity_give)
qed

interpretation budget: invariant_system budget_init budget_step budget_inv
proof unfold_locales
  fix s assume "budget_init s"
  then show "budget_inv s"
    by (auto simp: budget_init_def budget_inv_def holders_def held_def budget_new_def)
next
  fix s t assume "budget_inv s" "budget_step s t"
  from this(2,1) show "budget_inv t"
  proof (induction rule: budget_step.induct)
    case (try_reject s i)
    then show ?case using budget_inv_reject [OF budget_inv_move [of s i Outside]] by simp
  next
    case (expire_reject s i)
    then show ?case using budget_inv_reject [OF budget_inv_move [of s i Outside]] by simp
  qed (auto intro: budget_inv_take budget_inv_move budget_inv_drop)
qed

section \<open>Properties\<close>

text \<open>
  C17. Whatever the interleaving of acquiring, waiting, timing out and dropping tasks, the
  ledger's \<open>used\<close> is exactly the number of permits alive and never above the capacity; so
  the subtraction of a dropped permit never wraps around.
\<close>

theorem budget_never_oversubscribed:
  assumes "reachable budget_init budget_step s"
  shows "card {i. pcs s i = Holding} \<le> unat (b_cap (ledger_of s)) \<and>
    unat (b_used (ledger_of s)) = card {i. pcs s i = Holding} \<and>
    (pcs s i = Holding \<longrightarrow> b_used (ledger_of s) \<noteq> 0)"
proof -
  have inv: "budget_inv s" using assms by (rule budget.inv_reachable)
  then have card: "unat (b_used (ledger_of s)) = card (holders s)" "finite (holders s)"
    by (simp_all add: budget_inv_def held_def)
  have "b_used (ledger_of s) \<noteq> 0" if "pcs s i = Holding"
    using card that by (auto simp: holders_def card_eq_0_iff)
  with inv card show ?thesis
    by (auto simp: budget_inv_def held_def capacity_def holders_def)
qed

definition one_holder :: budget_sys where
  "one_holder = \<lparr>ledger_of = (budget_new ''sftp.exec'' 1)\<lparr>b_used := 1\<rparr>, pcs = (\<lambda>_. Outside)(0 := Holding)\<rparr>"

lemma reachable_one_holder: "reachable budget_init budget_step one_holder"
proof (rule reach_step)
  let ?s = "\<lparr>ledger_of = budget_new ''sftp.exec'' 1, pcs = (\<lambda>_. Outside)\<rparr>"
  show "reachable budget_init budget_step ?s"
    by (rule reach_init) (auto simp: budget_init_def)
  have "cas_take (ledger_of ?s) = Some ((budget_new ''sftp.exec'' 1)\<lparr>b_used := 1\<rparr>)"
    by (simp add: cas_take_def budget_new_def)
  then show "budget_step ?s one_holder"
    using try_ok [of ?s 0] by (simp add: one_holder_def)
qed

theorem budget_never_oversubscribed_witness:
  "card {i. pcs one_holder i = Holding} \<le> 1 \<and> b_used (ledger_of one_holder) \<noteq> 0"
  using budget_never_oversubscribed [OF reachable_one_holder, of 0]
  by (simp add: one_holder_def budget_new_def)

text \<open>
  \<open>try_acquire\<close> on a full ledger changes nothing but the rejection count and reports
  the usage and the capacity; below the capacity it takes one permit, and dropping that
  permit restores the ledger exactly.
\<close>

theorem try_acquire_cases:
  "(case try_acquire b of
      (b', Inr _) \<Rightarrow> b_used b < b_cap b \<and> unat (b_used b') = Suc (unat (b_used b)) \<and> permit_drop b' = b
    | (b', Inl e) \<Rightarrow> b_cap b \<le> b_used b \<and> b' = b\<lparr>b_rejected := b_rejected b + 1\<rparr> \<and>
        e = \<lparr>x_name = b_name b, x_active = b_used b, x_cap = b_cap b\<rparr>)"
proof (cases "cas_take b")
  case None
  then show ?thesis
    by (auto simp: try_acquire_def cas_take_def count_reject_def exhausted_def not_less split: if_splits)
next
  case (Some b')
  then show ?thesis
    using ledger.give_take [OF Some] ledger.held_take [OF Some]
    by (auto simp: try_acquire_def cas_take_def held_def split: if_splits)
qed

end
