(* ===== verification/Stream_Protocol.thy ===== *)
theory Stream_Protocol
  imports Prelude "HOL-Library.Log_Nat"
begin

text \<open>
  The terminal stream protocol of \<^verbatim>\<open>src/crates/app/src/stream_protocol.rs\<close>: the frame
  header, the offset allocator, the cumulative ACK and the credit gate of one stream
  epoch, and the decoder of the front end
  (\<^verbatim>\<open>src/app/ui/src/terminal/stream-protocol.ts\<close>).

  The credit gate is tokio's \<open>Semaphore\<close>, which is not part of the repository. It is the
  argument \<open>sm\<close> of every operation that touches it; what the code relies on is the
  predicate \<open>semaphore_laws\<close>, a named hypothesis of the theorems that need it.
\<close>

section \<open>The semaphore the code is given\<close>

text \<open>
  \<open>sem_acquire n s\<close> is the outcome of polling \<open>acquire_many(n)\<close> and forgetting the permit:
  \<open>None\<close> while it is pending, \<open>Err\<close> once the semaphore is closed. \<open>sem_try\<close> is
  \<open>try_acquire_many(n)\<close> followed by \<open>forget\<close>.
\<close>

record 's sem_ops =
  sem_new :: "nat \<Rightarrow> 's"
  sem_avail :: "'s \<Rightarrow> nat"
  sem_acquire :: "nat \<Rightarrow> 's \<Rightarrow> (unit, 's) result option"
  sem_try :: "nat \<Rightarrow> 's \<Rightarrow> 's option"
  sem_add :: "nat \<Rightarrow> 's \<Rightarrow> 's"

text \<open>\<open>Semaphore::MAX_PERMITS\<close> is \<open>usize::MAX >> 3\<close>; \<open>add_permits\<close> is specified up to it.\<close>

definition MAX_PERMITS :: nat where "MAX_PERMITS = 2 ^ 61 - 1"

definition semaphore_laws :: "'s sem_ops \<Rightarrow> bool" where
  "semaphore_laws sm \<longleftrightarrow>
     (\<forall>n. n \<le> MAX_PERMITS \<longrightarrow> sem_avail sm (sem_new sm n) = n) \<and>
     (\<forall>n s s'. sem_acquire sm n s = Some (Ok s') \<longrightarrow> sem_avail sm s' + n = sem_avail sm s) \<and>
     (\<forall>n s s'. sem_try sm n s = Some s' \<longrightarrow> sem_avail sm s' + n = sem_avail sm s) \<and>
     (\<forall>n s. sem_avail sm s + n \<le> MAX_PERMITS \<longrightarrow> sem_avail sm (sem_add sm n s) = sem_avail sm s + n)"

section \<open>State and operations\<close>

definition CREDIT_HIGH :: u32 where "CREDIT_HIGH = 8 * 1024 * 1024"
definition FRAME_HEADER_LEN :: nat where "FRAME_HEADER_LEN = 32"

record 's CreditState =
  epoch :: u64
  sent_total :: u64
  acked_total :: u64
  frame_seq :: u64
  broken :: bool
  credits :: 's

definition credit_new :: "'s sem_ops \<Rightarrow> u64 \<Rightarrow> 's CreditState" where
  "credit_new sm e =
     \<lparr>epoch = e, sent_total = 0, acked_total = 0, frame_seq = 0, broken = False,
      credits = sem_new sm (unat CREDIT_HIGH)\<rparr>"

definition is_broken :: "'s CreditState \<Rightarrow> bool" where
  "is_broken c = broken c"

definition outstanding :: "'s CreditState \<Rightarrow> u64" where
  "outstanding c = saturating_sub (sent_total c) (acked_total c)"

definition acquire_credit ::
  "'s sem_ops \<Rightarrow> u32 \<Rightarrow> 's CreditState \<Rightarrow> (bool \<times> 's CreditState) option" where
  "acquire_credit sm n c =
     (case sem_acquire sm (unat n) (credits c) of
        None \<Rightarrow> None
      | Some (Inr s) \<Rightarrow> Some (True, c\<lparr>credits := s\<rparr>)
      | Some (Inl _) \<Rightarrow> Some (False, c))"

definition available_credit :: "'s sem_ops \<Rightarrow> 's CreditState \<Rightarrow> nat" where
  "available_credit sm c = sem_avail sm (credits c)"

definition try_acquire_credit :: "'s sem_ops \<Rightarrow> u32 \<Rightarrow> 's CreditState \<Rightarrow> bool \<times> 's CreditState" where
  "try_acquire_credit sm n c =
     (case sem_try sm (unat n) (credits c) of
        Some s \<Rightarrow> (True, c\<lparr>credits := s\<rparr>)
      | None \<Rightarrow> (False, c))"

text \<open>\<open>u64::to_le_bytes\<close>\<close>

definition to_le_bytes :: "u64 \<Rightarrow> u8 list" where
  "to_le_bytes w = map (\<lambda>i. ucast (drop_bit (8 * i) w)) [0..<8]"

definition alloc_frame :: "u8 list \<Rightarrow> 's CreditState \<Rightarrow> u8 list option \<times> 's CreditState" where
  "alloc_frame payload c =
     (if is_broken c then (None, c)
      else let start = sent_total c in
        case checked_add start (of_nat (length payload)) of
          None \<Rightarrow> (None, c\<lparr>broken := True\<rparr>)
        | Some end' \<Rightarrow>
            (Some (to_le_bytes (epoch c) @ to_le_bytes (frame_seq c) @ to_le_bytes start
                   @ to_le_bytes end' @ payload),
             c\<lparr>frame_seq := frame_seq c + 1, sent_total := end'\<rparr>))"

definition mark_broken :: "'s CreditState \<Rightarrow> 's CreditState" where
  "mark_broken c = c\<lparr>broken := True\<rparr>"

text \<open>
  One round of the loop of \<open>ack\<close>: what it decides from the two values it has read.
\<close>

definition ack_newly :: "u64 \<Rightarrow> u64 \<Rightarrow> u64 \<Rightarrow> u64" where
  "ack_newly incoming cur sent =
     (if incoming \<le> cur then 0 else min (incoming - cur) (saturating_sub sent cur))"

text \<open>
  \<open>ack\<close> without another task between its accesses: the compare-and-swap then succeeds at
  once. Its interleavings are the step relation below.
\<close>

definition ack :: "'s sem_ops \<Rightarrow> u64 \<Rightarrow> u64 \<Rightarrow> 's CreditState \<Rightarrow> u64 \<times> 's CreditState" where
  "ack sm e incoming c =
     (if e \<noteq> epoch c \<or> is_broken c then (0, c)
      else let newly = ack_newly incoming (acked_total c) (sent_total c)
           in if newly = 0 then (0, c)
              else (newly, c\<lparr>acked_total := acked_total c + newly,
                             credits := sem_add sm (unat newly) (credits c)\<rparr>))"

section \<open>The decoder\<close>

text \<open>\<open>DataView.getBigUint64(off, true)\<close> and \<open>Number\<close> of a 64-bit value (round half to even).\<close>

definition from_le_bytes :: "u8 list \<Rightarrow> u64" where
  "from_le_bytes bs = word_of_nat (foldr (\<lambda>b acc. unat b + 256 * acc) bs 0)"

definition get_u64 :: "u8 list \<Rightarrow> nat \<Rightarrow> u64" where
  "get_u64 bs off = from_le_bytes (take 8 (drop off bs))"

definition js_number :: "u64 \<Rightarrow> nat" where
  "js_number w =
     (let n = unat w; k = floorlog 2 n - 53; q = n div 2 ^ k; r = n mod 2 ^ k
      in if k = 0 then n
         else (if 2 ^ k < 2 * r \<or> (2 * r = 2 ^ k \<and> odd q) then q + 1 else q) * 2 ^ k)"

datatype drop_reason = TooShort | OldEpoch | Duplicate

datatype FrameParse = Accept (payload_of: "u8 list") (end_of: nat) (gap_of: bool) | DropFrame drop_reason

definition parseFrame :: "u8 list \<Rightarrow> nat \<Rightarrow> nat \<Rightarrow> FrameParse" where
  "parseFrame frame streamEpoch lastEndOffset =
     (if length frame < FRAME_HEADER_LEN then DropFrame TooShort
      else if js_number (get_u64 frame 0) \<noteq> streamEpoch then DropFrame OldEpoch
      else let startOffset = js_number (get_u64 frame 16);
               endOffset = js_number (get_u64 frame 24)
           in if endOffset \<le> lastEndOffset then DropFrame Duplicate
              else Accept (drop FRAME_HEADER_LEN frame) endOffset (startOffset \<noteq> lastEndOffset))"

section \<open>The header round trip\<close>

lemma foldr_le_digits:
  "foldr (\<lambda>b acc. b + 256 * acc) (map (\<lambda>i. n div 256 ^ i mod 256) [0..<k]) 0 = n mod (256::nat) ^ k"
proof (induction k arbitrary: n)
  case (Suc k)
  have "map (\<lambda>i. n div 256 ^ i mod 256) [0..<Suc k] =
      n mod 256 # map (\<lambda>i. (n div 256) div 256 ^ i mod 256) [0..<k]"
    by (simp only: upt_conv_Cons [OF zero_less_Suc] map_Suc_upt [symmetric])
      (simp add: comp_def div_mult2_eq)
  then have "foldr (\<lambda>b acc. b + 256 * acc) (map (\<lambda>i. n div 256 ^ i mod 256) [0..<Suc k]) 0 =
      n mod 256 + 256 * (n div 256 mod 256 ^ k)"
    by (simp only: list.simps foldr.simps comp_apply Suc.IH)
  also have "\<dots> = n mod 256 ^ Suc k"
    by (simp add: mod_mult2_eq)
  finally show ?case .
qed simp

lemma unat_byte: "unat (ucast (drop_bit (8 * i) w) :: u8) = unat (w :: u64) div 256 ^ i mod 256"
  by (simp only: unsigned_ucast_eq unat_drop_bit_eq) (simp add: drop_bit_eq_div power_mult take_bit_eq_mod)

lemma from_to_le_bytes [simp]: "from_le_bytes (to_le_bytes w) = w"
proof -
  have "map unat (to_le_bytes w) = map (\<lambda>i. unat w div 256 ^ i mod 256) [0..<8]"
    by (simp only: to_le_bytes_def map_map comp_def unat_byte)
  then have "foldr (\<lambda>b acc. b + 256 * acc) (map unat (to_le_bytes w)) 0 = unat w mod 256 ^ 8"
    by (simp only: foldr_le_digits)
  then have "foldr (\<lambda>b acc. unat b + 256 * acc) (to_le_bytes w) 0 = unat w mod 256 ^ 8"
    by (simp only: foldr_map comp_def)
  also have "unat w < 2 ^ LENGTH(64)" by (rule unsigned_less)
  then have "unat w mod 256 ^ 8 = unat w" by simp
  finally show ?thesis by (simp add: from_le_bytes_def)
qed

lemma length_to_le_bytes [simp]: "length (to_le_bytes w) = 8"
  by (simp add: to_le_bytes_def)

lemma get_u64_header:
  "get_u64 (to_le_bytes a @ to_le_bytes b @ to_le_bytes c @ to_le_bytes d @ p) 0 = a"
  "get_u64 (to_le_bytes a @ to_le_bytes b @ to_le_bytes c @ to_le_bytes d @ p) 16 = c"
  "get_u64 (to_le_bytes a @ to_le_bytes b @ to_le_bytes c @ to_le_bytes d @ p) 24 = d"
  by (simp_all add: get_u64_def)

lemma js_number_exact: "unat w < 2 ^ 53 \<Longrightarrow> js_number w = unat w"
  using floorlog_le_iff [of 2 "unat w" 53] by (simp add: js_number_def Let_def)

section \<open>A stream of frames\<close>

text \<open>The single writer: it allocates a frame per payload, in order.\<close>

fun send_all :: "u8 list list \<Rightarrow> 's CreditState \<Rightarrow> u8 list option list \<times> 's CreditState" where
  "send_all [] c = ([], c)"
| "send_all (p # ps) c =
     (let (f, c') = alloc_frame p c; (fs, c'') = send_all ps c' in (f # fs, c''))"

text \<open>The front end: it renders accepted payloads and keeps the last end offset.\<close>

fun receive :: "nat \<Rightarrow> u8 list list \<Rightarrow> nat \<Rightarrow> u8 list \<times> bool \<times> nat" where
  "receive e [] lst = ([], False, lst)"
| "receive e (f # fs) lst =
     (case parseFrame f e lst of
        DropFrame _ \<Rightarrow> receive e fs lst
      | Accept p end' gap \<Rightarrow> (let (out, g, l) = receive e fs end' in (p @ out, gap \<or> g, l)))"

definition offset_at :: "u8 list list \<Rightarrow> nat \<Rightarrow> nat" where
  "offset_at ps k = length (concat (take k ps))"

lemma offset_at_0 [simp]: "offset_at ps 0 = 0"
  by (simp add: offset_at_def)

lemma offset_at_Suc: "k < length ps \<Longrightarrow> offset_at ps (Suc k) = offset_at ps k + length (ps ! k)"
  by (simp add: offset_at_def take_Suc_conv_app_nth)

lemma offset_at_mono: "i \<le> j \<Longrightarrow> offset_at ps i \<le> offset_at ps j"
  unfolding offset_at_def by (metis le_add1 length_append concat_append take_add le_iff_add)

lemma offset_at_strict:
  assumes "\<forall>p \<in> set ps. p \<noteq> []" "i < j" "j \<le> length ps"
  shows "offset_at ps i < offset_at ps j"
proof -
  have "offset_at ps i < offset_at ps (Suc i)"
    using assms nth_mem [of i ps] by (simp add: offset_at_Suc)
  also have "\<dots> \<le> offset_at ps j" using assms by (intro offset_at_mono) simp
  finally show ?thesis .
qed

lemma offset_at_le: "offset_at ps k \<le> length (concat ps)"
  using offset_at_mono [of k "max k (length ps)" ps] by (simp add: offset_at_def)

definition header :: "'s CreditState \<Rightarrow> u64 \<Rightarrow> u64 \<Rightarrow> u64 \<Rightarrow> u8 list" where
  "header c q a b = to_le_bytes (epoch c) @ to_le_bytes q @ to_le_bytes a @ to_le_bytes b"

lemma alloc_frame_ok:
  assumes "\<not> broken c" "unat (sent_total c) + length p < 2 ^ 64"
  shows "alloc_frame p c =
     (Some (header c (frame_seq c) (sent_total c) (sent_total c + of_nat (length p)) @ p),
      c\<lparr>frame_seq := frame_seq c + 1, sent_total := sent_total c + of_nat (length p)\<rparr>)"
  using assms by (simp add: alloc_frame_def is_broken_def checked_add_def header_def unat_of_nat Let_def)

lemma parseFrame_header:
  assumes "unat (epoch c) < 2 ^ 53" "unat a < 2 ^ 53" "unat b < 2 ^ 53"
  shows "parseFrame (header c q a b @ p) (unat (epoch c)) lst =
     (if unat b \<le> lst then DropFrame Duplicate else Accept p (unat b) (unat a \<noteq> lst))"
  using assms
  by (simp add: parseFrame_def header_def FRAME_HEADER_LEN_def get_u64_header js_number_exact Let_def)

text \<open>Every frame the writer allocates carries the range of its payload.\<close>

lemma send_all_frames:
  assumes "\<not> broken c" "unat (sent_total c) + length (concat ps) < 2 ^ 64" "j < length ps"
  shows "\<exists>q. fst (send_all ps c) ! j =
     Some (header c q (sent_total c + of_nat (offset_at ps j))
                      (sent_total c + of_nat (offset_at ps (Suc j))) @ ps ! j)"
  using assms
proof (induction ps arbitrary: c j)
  case (Cons p ps)
  let ?c = "c\<lparr>frame_seq := frame_seq c + 1, sent_total := sent_total c + of_nat (length p)\<rparr>"
  have alloc: "alloc_frame p c =
      (Some (header c (frame_seq c) (sent_total c) (sent_total c + of_nat (length p)) @ p), ?c)"
    using Cons.prems by (intro alloc_frame_ok) simp_all
  have sent: "unat (sent_total ?c) = unat (sent_total c) + length p"
    using Cons.prems by (simp add: unat_word_ariths unat_of_nat)
  show ?case
  proof (cases j)
    case 0
    with alloc show ?thesis
      by (auto simp: Let_def split_beta offset_at_def)
  next
    case (Suc k)
    have "\<exists>q. fst (send_all ps ?c) ! k =
       Some (header ?c q (sent_total ?c + of_nat (offset_at ps k))
                         (sent_total ?c + of_nat (offset_at ps (Suc k))) @ ps ! k)"
      using Cons.prems Suc sent by (intro Cons.IH) simp_all
    with Suc alloc show ?thesis
      by (auto simp: Let_def split_beta offset_at_def header_def algebra_simps)
  qed
qed simp

lemma length_send_all [simp]: "length (fst (send_all ps c)) = length ps"
  by (induction ps arbitrary: c) (auto simp: Let_def split_beta)

definition frames_of :: "'s sem_ops \<Rightarrow> u64 \<Rightarrow> u8 list list \<Rightarrow> u8 list list" where
  "frames_of sm e ps = map the (fst (send_all ps (credit_new sm e)))"

lemma length_frames_of [simp]: "length (frames_of sm e ps) = length ps"
  by (simp add: frames_of_def)

lemma frames_of_parse:
  assumes "unat e < 2 ^ 53" "length (concat ps) < 2 ^ 53" "j < length ps"
  shows "parseFrame (frames_of sm e ps ! j) (unat e) lst =
     (if offset_at ps (Suc j) \<le> lst then DropFrame Duplicate
      else Accept (ps ! j) (offset_at ps (Suc j)) (offset_at ps j \<noteq> lst))"
proof -
  let ?c = "credit_new sm e"
  have off: "unat (of_nat (offset_at ps k) :: u64) = offset_at ps k \<and> offset_at ps k < 2 ^ 53" for k
    using offset_at_le [of ps k] assms(2) by (simp add: unat_of_nat)
  have "\<exists>q. fst (send_all ps ?c) ! j =
     Some (header ?c q (sent_total ?c + of_nat (offset_at ps j))
                      (sent_total ?c + of_nat (offset_at ps (Suc j))) @ ps ! j)"
    using assms by (intro send_all_frames) (auto simp: credit_new_def)
  then obtain q where
    "frames_of sm e ps ! j = header ?c q (of_nat (offset_at ps j)) (of_nat (offset_at ps (Suc j))) @ ps ! j"
    using assms(3) by (auto simp: frames_of_def credit_new_def)
  moreover have "epoch ?c = e" by (simp add: credit_new_def)
  ultimately show ?thesis
    using parseFrame_header [of ?c "of_nat (offset_at ps j)" "of_nat (offset_at ps (Suc j))" q "ps ! j" lst]
      off [of j] off [of "Suc j"] assms(1) by simp
qed

lemma receive_from:
  assumes "unat e < 2 ^ 53" "length (concat ps) < 2 ^ 53" "\<forall>p \<in> set ps. p \<noteq> []" "k \<le> length ps"
  shows "receive (unat e) (drop k (frames_of sm e ps)) (offset_at ps k) =
     (concat (drop k ps), False, length (concat ps))"
  using assms(4)
proof (induction "length ps - k" arbitrary: k)
  case 0
  then show ?case by (simp add: offset_at_def)
next
  case (Suc m)
  then have k: "k < length ps" by simp
  have "drop k (frames_of sm e ps) = frames_of sm e ps ! k # drop (Suc k) (frames_of sm e ps)"
    using k by (simp add: Cons_nth_drop_Suc)
  moreover have "concat (drop k ps) = ps ! k @ concat (drop (Suc k) ps)"
    using k by (simp flip: Cons_nth_drop_Suc)
  moreover have "offset_at ps k < offset_at ps (Suc k)"
    using k by (intro offset_at_strict [OF assms(3)]) simp_all
  ultimately show ?case
    using Suc k frames_of_parse [OF assms(1,2) k, of sm "offset_at ps k"] by simp
qed

section \<open>ACKs one after another\<close>

lemma unat_ack_newly:
  "unat (ack_newly inc cur sent) = min (unat inc) (unat sent) - unat cur"
  by (auto simp: ack_newly_def min_def word_le_nat_alt unat_sub)

lemma ack_state:
  assumes "acked_total c \<le> sent_total c" "e = epoch c" "\<not> broken c"
  shows "unat (acked_total (snd (ack sm e inc c))) =
     max (unat (acked_total c)) (min (unat inc) (unat (sent_total c)))"
    and "unat (fst (ack sm e inc c)) = min (unat inc) (unat (sent_total c)) - unat (acked_total c)"
proof -
  let ?n = "ack_newly inc (acked_total c) (sent_total c)"
  have n: "unat ?n = min (unat inc) (unat (sent_total c)) - unat (acked_total c)"
    by (rule unat_ack_newly)
  then show "unat (fst (ack sm e inc c)) = min (unat inc) (unat (sent_total c)) - unat (acked_total c)"
    using assms by (auto simp: ack_def is_broken_def Let_def)
  have "unat (acked_total c) + unat ?n < 2 ^ LENGTH(64)"
  proof -
    have "unat (acked_total c) + unat ?n \<le> unat (sent_total c)"
      using n assms(1) by (simp add: word_le_nat_alt)
    also have "\<dots> < 2 ^ LENGTH(64)" by (rule unsigned_less)
    finally show ?thesis .
  qed
  then have "unat (acked_total c + ?n) = unat (acked_total c) + unat ?n"
    by (rule unat_add_lt)
  with n assms show "unat (acked_total (snd (ack sm e inc c))) =
     max (unat (acked_total c)) (min (unat inc) (unat (sent_total c)))"
    by (auto simp: ack_def is_broken_def Let_def unat_eq_zero max_def)
qed

lemma ack_keeps [simp]:
  "sent_total (snd (ack sm e inc c)) = sent_total c"
  "epoch (snd (ack sm e inc c)) = epoch c"
  "broken (snd (ack sm e inc c)) = broken c"
  by (auto simp: ack_def Let_def)

lemma ack_within:
  assumes "acked_total c \<le> sent_total c"
  shows "acked_total (snd (ack sm e inc c)) \<le> sent_total c"
proof (cases "e = epoch c \<and> \<not> broken c")
  case True
  then show ?thesis using ack_state(1) [OF assms, of e sm inc] assms by (simp add: word_le_nat_alt)
next
  case False
  then show ?thesis using assms by (auto simp: ack_def is_broken_def)
qed

text \<open>A run of ACKs, with the credit each of them gives back.\<close>

fun acks :: "'s sem_ops \<Rightarrow> u64 \<Rightarrow> u64 list \<Rightarrow> 's CreditState \<Rightarrow> nat \<times> 's CreditState" where
  "acks sm e [] c = (0, c)"
| "acks sm e (i # is) c =
     (let (n, c') = ack sm e i c; (m, c'') = acks sm e is c' in (unat n + m, c''))"

lemma acks_total:
  assumes "acked_total c \<le> sent_total c" "e = epoch c" "\<not> broken c"
  shows "unat (acked_total (snd (acks sm e is c))) =
       Max (insert (unat (acked_total c)) ((\<lambda>i. min (unat i) (unat (sent_total c))) ` set is)) \<and>
     unat (acked_total c) + fst (acks sm e is c) = unat (acked_total (snd (acks sm e is c)))"
  using assms
proof (induction "is" arbitrary: c)
  case (Cons i "is")
  let ?c = "snd (ack sm e i c)"
  have IH: "unat (acked_total (snd (acks sm e is ?c))) =
       Max (insert (unat (acked_total ?c)) ((\<lambda>i. min (unat i) (unat (sent_total c))) ` set is)) \<and>
     unat (acked_total ?c) + fst (acks sm e is ?c) = unat (acked_total (snd (acks sm e is ?c)))"
    using Cons.IH [of ?c] Cons.prems ack_within [of c sm e i] by simp
  let ?S = "(\<lambda>i. min (unat i) (unat (sent_total c))) ` set is"
  have "Max (insert (max a b) ?S) = Max (insert a (insert b ?S))" for a b
    by (cases "?S = {}") (simp_all add: max.assoc)
  moreover have "a + (b - a + k) = max a b + k" for a b k :: nat by simp
  ultimately show ?case using IH ack_state [OF Cons.prems, of sm i]
    by (simp add: Let_def split_beta flip: add.assoc)
qed simp

section \<open>The writer and concurrent ACKs\<close>

text \<open>
  The writer (the read loop) claims credit for a payload, allocates its frame and sends
  it; any number \<open>N\<close> of \<open>term_credit\<close> calls run \<open>ack\<close> at the same time. Every rule is one
  atomic access of the code. Only the writer stores \<open>sent_total\<close>, \<open>frame_seq\<close> and \<open>broken\<close>,
  so \<open>alloc_frame\<close> is one step. \<open>lost\<close> counts the credit of payloads whose frame could not
  be allocated, which the code gives up with the epoch.
\<close>

datatype writer_pc = WIdle | WClaimed "u8 list" | WFramed "u8 list"

datatype ack_pc = AIdle | AChecked u64 | ALoaded u64 u64 | ASent u64 u64 u64 | AAdding u64

record 's credit_sys =
  cs :: "'s CreditState"
  writer :: writer_pc
  lost :: nat
  ack_pcs :: "nat \<Rightarrow> ack_pc"

definition credit_init :: "'s sem_ops \<Rightarrow> 's credit_sys \<Rightarrow> bool" where
  "credit_init sm s \<longleftrightarrow>
     (\<exists>e. s = \<lparr>cs = credit_new sm e, writer = WIdle, lost = 0, ack_pcs = (\<lambda>_. AIdle)\<rparr>)"

abbreviation a_goto :: "'s credit_sys \<Rightarrow> nat \<Rightarrow> ack_pc \<Rightarrow> 's credit_sys" where
  "a_goto s i p \<equiv> s\<lparr>ack_pcs := (ack_pcs s)(i := p)\<rparr>"

inductive credit_step :: "'s sem_ops \<Rightarrow> nat \<Rightarrow> 's credit_sys \<Rightarrow> 's credit_sys \<Rightarrow> bool"
  for sm :: "'s sem_ops" and N :: nat where
  w_acquire: "writer s = WIdle \<Longrightarrow> length p < 2 ^ 32 \<Longrightarrow>
     acquire_credit sm (of_nat (length p)) (cs s) = Some (True, c) \<Longrightarrow>
     credit_step sm N s (s\<lparr>cs := c, writer := WClaimed p\<rparr>)"
| w_try: "writer s = WIdle \<Longrightarrow> length p < 2 ^ 32 \<Longrightarrow>
     try_acquire_credit sm (of_nat (length p)) (cs s) = (True, c) \<Longrightarrow>
     credit_step sm N s (s\<lparr>cs := c, writer := WClaimed p\<rparr>)"
| w_alloc: "writer s = WClaimed p \<Longrightarrow> alloc_frame p (cs s) = (Some f, c) \<Longrightarrow>
     credit_step sm N s (s\<lparr>cs := c, writer := WFramed f\<rparr>)"
| w_alloc_none: "writer s = WClaimed p \<Longrightarrow> alloc_frame p (cs s) = (None, c) \<Longrightarrow>
     credit_step sm N s (s\<lparr>cs := c, writer := WIdle, lost := lost s + length p\<rparr>)"
| w_sent: "writer s = WFramed f \<Longrightarrow> credit_step sm N s (s\<lparr>writer := WIdle\<rparr>)"
| w_send_failed: "writer s = WFramed f \<Longrightarrow>
     credit_step sm N s (s\<lparr>cs := mark_broken (cs s), writer := WIdle\<rparr>)"
| a_check: "i < N \<Longrightarrow> ack_pcs s i = AIdle \<Longrightarrow> e = epoch (cs s) \<Longrightarrow> \<not> is_broken (cs s) \<Longrightarrow>
     credit_step sm N s (a_goto s i (AChecked inc))"
| a_load: "i < N \<Longrightarrow> ack_pcs s i = AChecked inc \<Longrightarrow>
     credit_step sm N s (a_goto s i (ALoaded inc (acked_total (cs s))))"
| a_old: "i < N \<Longrightarrow> ack_pcs s i = ALoaded inc cur \<Longrightarrow> inc \<le> cur \<Longrightarrow>
     credit_step sm N s (a_goto s i AIdle)"
| a_sent: "i < N \<Longrightarrow> ack_pcs s i = ALoaded inc cur \<Longrightarrow> cur < inc \<Longrightarrow>
     credit_step sm N s (a_goto s i (ASent inc cur (sent_total (cs s))))"
| a_zero: "i < N \<Longrightarrow> ack_pcs s i = ASent inc cur sent \<Longrightarrow> ack_newly inc cur sent = 0 \<Longrightarrow>
     credit_step sm N s (a_goto s i AIdle)"
| a_cas_ok: "i < N \<Longrightarrow> ack_pcs s i = ASent inc cur sent \<Longrightarrow> ack_newly inc cur sent \<noteq> 0 \<Longrightarrow>
     acked_total (cs s) = cur \<Longrightarrow>
     credit_step sm N s ((a_goto s i (AAdding (ack_newly inc cur sent)))
        \<lparr>cs := (cs s)\<lparr>acked_total := cur + ack_newly inc cur sent\<rparr>\<rparr>)"
| a_cas_err: "i < N \<Longrightarrow> ack_pcs s i = ASent inc cur sent \<Longrightarrow> ack_newly inc cur sent \<noteq> 0 \<Longrightarrow>
     credit_step sm N s (a_goto s i (ALoaded inc (acked_total (cs s))))"
| a_add: "i < N \<Longrightarrow> ack_pcs s i = AAdding newly \<Longrightarrow>
     credit_step sm N s ((a_goto s i AIdle)
        \<lparr>cs := (cs s)\<lparr>credits := sem_add sm (unat newly) (credits (cs s))\<rparr>\<rparr>)"

fun claimed :: "writer_pc \<Rightarrow> nat" where
  "claimed (WClaimed p) = length p"
| "claimed _ = 0"

fun adding :: "ack_pc \<Rightarrow> nat" where
  "adding (AAdding n) = unat n"
| "adding _ = 0"

fun seen_sent :: "ack_pc \<Rightarrow> nat" where
  "seen_sent (ASent inc cur sent) = unat sent"
| "seen_sent _ = 0"

definition window_total :: "'s sem_ops \<Rightarrow> nat \<Rightarrow> 's credit_sys \<Rightarrow> nat" where
  "window_total sm N s =
     available_credit sm (cs s) + (unat (sent_total (cs s)) - unat (acked_total (cs s))) +
     claimed (writer s) + lost s + (\<Sum>i<N. adding (ack_pcs s i))"

text \<open>
  The invariant: credit is conserved, ACKs never pass the sent offset, and an ACK in
  progress has read a sent offset that is not ahead of the current one.
\<close>

definition credit_inv :: "'s sem_ops \<Rightarrow> nat \<Rightarrow> 's credit_sys \<Rightarrow> bool" where
  "credit_inv sm N s \<longleftrightarrow>
     window_total sm N s = unat CREDIT_HIGH \<and> acked_total (cs s) \<le> sent_total (cs s) \<and>
     (\<forall>i<N. seen_sent (ack_pcs s i) \<le> unat (sent_total (cs s))) \<and>
     (case writer s of WClaimed p \<Rightarrow> length p < 2 ^ 32 | _ \<Rightarrow> True)"

lemma adding_goto:
  "i < N \<Longrightarrow> (\<Sum>j<N. adding (((ack_pcs s)(i := p)) j)) + adding (ack_pcs s i) =
     (\<Sum>j<N. adding (ack_pcs s j)) + adding p"
  by (rule sum_fun_upd) simp_all

lemma credit_inv_move:
  assumes "credit_inv sm N s" "i < N" "adding (ack_pcs s i) = 0" "adding p = 0"
    "seen_sent p \<le> unat (sent_total (cs s))"
  shows "credit_inv sm N (a_goto s i p)"
  using assms adding_goto [OF assms(2), of s p] by (simp add: credit_inv_def window_total_def)

lemma credit_inv_claim:
  assumes "credit_inv sm N s" "writer s = WIdle" "length p < 2 ^ 32"
    and "sem_avail sm c + length p = sem_avail sm (credits (cs s))"
  shows "credit_inv sm N (s\<lparr>cs := (cs s)\<lparr>credits := c\<rparr>, writer := WClaimed p\<rparr>)"
  using assms by (simp add: credit_inv_def window_total_def available_credit_def)

lemma credit_inv_acquire:
  assumes "semaphore_laws sm" "credit_inv sm N s" "writer s = WIdle" "length p < 2 ^ 32"
    and "acquire_credit sm (of_nat (length p)) (cs s) = Some (True, c)"
  shows "credit_inv sm N (s\<lparr>cs := c, writer := WClaimed p\<rparr>)"
proof -
  from assms(5) obtain c' where c: "sem_acquire sm (unat (of_nat (length p) :: u32)) (credits (cs s)) = Some (Ok c')"
    "c = (cs s)\<lparr>credits := c'\<rparr>"
    by (auto simp: acquire_credit_def split: option.splits sum.splits)
  then have "sem_avail sm c' + length p = sem_avail sm (credits (cs s))"
    using assms(1,4) by (simp add: semaphore_laws_def unat_of_nat)
  with c(2) show ?thesis using assms(2-4) by (simp add: credit_inv_claim)
qed

lemma credit_inv_try:
  assumes "semaphore_laws sm" "credit_inv sm N s" "writer s = WIdle" "length p < 2 ^ 32"
    and "try_acquire_credit sm (of_nat (length p)) (cs s) = (True, c)"
  shows "credit_inv sm N (s\<lparr>cs := c, writer := WClaimed p\<rparr>)"
proof -
  from assms(5) obtain c' where c: "sem_try sm (unat (of_nat (length p) :: u32)) (credits (cs s)) = Some c'"
    "c = (cs s)\<lparr>credits := c'\<rparr>"
    by (auto simp: try_acquire_credit_def split: option.splits)
  then have "sem_avail sm c' + length p = sem_avail sm (credits (cs s))"
    using assms(1,4) by (simp add: semaphore_laws_def unat_of_nat)
  with c(2) show ?thesis using assms(2-4) by (simp add: credit_inv_claim)
qed

lemma alloc_frame_Some:
  assumes "alloc_frame p c = (Some f, c')" "length p < 2 ^ 32"
  shows "unat (sent_total c') = unat (sent_total c) + length p"
    and "acked_total c' = acked_total c" "credits c' = credits c" "epoch c' = epoch c" "\<not> broken c"
  using assms
  by (auto simp: alloc_frame_def Let_def unat_of_nat is_broken_def dest!: checked_add_Some_unat
      split: if_splits option.splits)

lemma alloc_frame_None:
  assumes "alloc_frame p c = (None, c')"
  shows "c' = c\<lparr>broken := True\<rparr>"
  using assms by (auto simp: alloc_frame_def Let_def is_broken_def split: if_splits option.splits)

lemma credit_inv_alloc:
  assumes "credit_inv sm N s" "writer s = WClaimed p" "alloc_frame p (cs s) = (Some f, c)"
  shows "credit_inv sm N (s\<lparr>cs := c, writer := WFramed f\<rparr>)"
proof -
  from assms have p: "length p < 2 ^ 32" and acked: "acked_total (cs s) \<le> sent_total (cs s)"
    by (simp_all add: credit_inv_def)
  from acked have "unat (acked_total (cs s)) \<le> unat (sent_total (cs s))"
    by (simp add: word_le_nat_alt)
  with alloc_frame_Some [OF assms(3) p] assms(1,2) show ?thesis
    by (auto simp: credit_inv_def window_total_def available_credit_def word_le_nat_alt intro: trans_le_add1)
qed

lemma credit_inv_framed:
  assumes "credit_inv sm N s" "writer s = WFramed f"
  shows "credit_inv sm N (s\<lparr>writer := WIdle\<rparr>)"
    and "credit_inv sm N (s\<lparr>cs := mark_broken (cs s), writer := WIdle\<rparr>)"
  using assms by (simp_all add: credit_inv_def window_total_def available_credit_def mark_broken_def)

lemma credit_inv_cas:
  assumes "credit_inv sm N s" "i < N" "ack_pcs s i = ASent inc (acked_total (cs s)) sent"
  defines "n \<equiv> ack_newly inc (acked_total (cs s)) sent"
  shows "credit_inv sm N ((a_goto s i (AAdding n))\<lparr>cs := (cs s)\<lparr>acked_total := acked_total (cs s) + n\<rparr>\<rparr>)"
proof -
  let ?a = "acked_total (cs s)" and ?t = "sent_total (cs s)"
  have seen: "unat sent \<le> unat ?t" and acked: "unat ?a \<le> unat ?t"
    using assms by (auto simp: credit_inv_def word_le_nat_alt dest: spec [of _ i])
  have n: "unat ?a + unat n \<le> unat ?t"
    using seen acked by (simp add: n_def unat_ack_newly)
  also have "unat ?t < 2 ^ LENGTH(64)" by (rule unsigned_less)
  finally have sum: "unat (?a + n) = unat ?a + unat n" by (rule unat_add_lt)
  have "(\<Sum>j<N. adding (((ack_pcs s)(i := AAdding n)) j)) = (\<Sum>j<N. adding (ack_pcs s j)) + unat n"
    using adding_goto [OF assms(2), of s "AAdding n"] assms(3) by simp
  with assms(1) sum n show ?thesis
    by (auto simp: credit_inv_def window_total_def available_credit_def word_le_nat_alt)
qed

lemma credit_inv_add:
  assumes "semaphore_laws sm" "credit_inv sm N s" "i < N" "ack_pcs s i = AAdding n"
  shows "credit_inv sm N ((a_goto s i AIdle)\<lparr>cs := (cs s)\<lparr>credits := sem_add sm (unat n) (credits (cs s))\<rparr>\<rparr>)"
proof -
  have sum: "(\<Sum>j<N. adding (((ack_pcs s)(i := AIdle)) j)) + unat n = (\<Sum>j<N. adding (ack_pcs s j))"
    using adding_goto [OF assms(3), of s AIdle] assms(4) by simp
  then have "sem_avail sm (credits (cs s)) + unat n \<le> unat CREDIT_HIGH"
    using assms(2) by (simp add: credit_inv_def window_total_def available_credit_def)
  then have "sem_avail sm (sem_add sm (unat n) (credits (cs s))) = sem_avail sm (credits (cs s)) + unat n"
    using assms(1) by (simp add: semaphore_laws_def CREDIT_HIGH_def MAX_PERMITS_def)
  with sum assms(2) show ?thesis
    by (simp add: credit_inv_def window_total_def available_credit_def)
qed

interpretation credit: invariant_system "credit_init sm" "credit_step sm N"
  "\<lambda>s. semaphore_laws sm \<longrightarrow> credit_inv sm N s" for sm N
proof (unfold_locales, goal_cases)
  case (1 s)
  then show ?case
    by (auto simp: credit_init_def credit_inv_def window_total_def credit_new_def available_credit_def
        semaphore_laws_def CREDIT_HIGH_def MAX_PERMITS_def)
next
  case (2 s t)
  show ?case
  proof
    assume laws: "semaphore_laws sm"
    with 2 have "credit_inv sm N s" by simp
    with 2(2) show "credit_inv sm N t"
    proof (induction rule: credit_step.induct)
      case (w_alloc_none s p c)
      then show ?case
        by (auto simp: credit_inv_def window_total_def available_credit_def dest!: alloc_frame_None)
    next
      case (a_cas_ok i s inc cur sent)
      then show ?case using credit_inv_cas [of sm N s i inc sent] by simp
    qed (auto intro: credit_inv_acquire [OF laws] credit_inv_try [OF laws]
        credit_inv_alloc credit_inv_framed credit_inv_move credit_inv_add [OF laws])
  qed
qed

lemma credit_step_broken:
  "credit_step sm N s t \<Longrightarrow> broken (cs s) \<Longrightarrow>
     broken (cs t) \<and> sent_total (cs t) = sent_total (cs s) \<and> frame_seq (cs t) = frame_seq (cs s)"
  by (induction rule: credit_step.induct)
    (auto simp: acquire_credit_def try_acquire_credit_def alloc_frame_def is_broken_def mark_broken_def
      split: option.splits sum.splits)

section \<open>Properties\<close>

text \<open>A counter that satisfies the laws of the semaphore, for the witnesses.\<close>

definition counter_sem :: "nat sem_ops" where
  "counter_sem =
     \<lparr>sem_new = (\<lambda>n. n), sem_avail = (\<lambda>s. s),
      sem_acquire = (\<lambda>n s. if n \<le> s then Some (Ok (s - n)) else None),
      sem_try = (\<lambda>n s. if n \<le> s then Some (s - n) else None),
      sem_add = (\<lambda>n s. s + n)\<rparr>"

lemma counter_sem_laws: "semaphore_laws counter_sem"
  by (auto simp: semaphore_laws_def counter_sem_def split: if_splits)

text \<open>
  C33. The frames the encoder allocates for a sequence of non-empty payloads, decoded in
  order by the front end from offset 0, give back exactly the concatenated bytes, with no
  gap reported and with the total length as the final offset, as long as epoch and offsets
  are exact JavaScript numbers.
\<close>

theorem frame_stream_roundtrip:
  assumes "unat e < 2 ^ 53" "length (concat ps) < 2 ^ 53" "\<forall>p \<in> set ps. p \<noteq> []"
  shows "receive (unat e) (frames_of sm e ps) 0 = (concat ps, False, length (concat ps))"
  using receive_from [OF assms, of 0 sm] by simp

theorem frame_stream_roundtrip_witness:
  "receive 7 (frames_of counter_sem 7 [[1, 2], [3]]) 0 = ([1, 2, 3], False, 3)"
  using frame_stream_roundtrip [of 7 "[[1, 2], [3]]" counter_sem] by simp

text \<open>
  A front end that has rendered the first \<open>i\<close> frames drops every frame it has already
  seen as a duplicate, accepts the next one without a gap, and accepts any later one with
  the gap flag set: replayed frames are never rendered twice and a lost frame never goes
  unnoticed by the frame after it. A frame of another epoch is dropped.
\<close>

theorem frame_duplicates_and_gaps:
  assumes "unat e < 2 ^ 53" "length (concat ps) < 2 ^ 53" "\<forall>p \<in> set ps. p \<noteq> []"
    "i \<le> length ps" "j < length ps"
  shows "parseFrame (frames_of sm e ps ! j) (unat e) (offset_at ps i) =
      (if j < i then DropFrame Duplicate else Accept (ps ! j) (offset_at ps (Suc j)) (j \<noteq> i)) \<and>
    (e' \<noteq> unat e \<longrightarrow> parseFrame (frames_of sm e ps ! j) e' l = DropFrame OldEpoch)"
proof
  note offs = offset_at_strict [OF assms(3)]
  have "offset_at ps (Suc j) \<le> offset_at ps i \<longleftrightarrow> j < i"
    using offset_at_mono [of "Suc j" i ps] offs [of i "Suc j"] assms(4,5) by (cases "j < i") auto
  moreover have "(offset_at ps j \<noteq> offset_at ps i) = (j \<noteq> i)" if "\<not> j < i"
    using offs [of i j] that assms(5) by (cases "i < j") auto
  ultimately show "parseFrame (frames_of sm e ps ! j) (unat e) (offset_at ps i) =
      (if j < i then DropFrame Duplicate else Accept (ps ! j) (offset_at ps (Suc j)) (j \<noteq> i))"
    using frames_of_parse [OF assms(1,2,5), of sm "offset_at ps i"] by auto
  show "e' \<noteq> unat e \<longrightarrow> parseFrame (frames_of sm e ps ! j) e' l = DropFrame OldEpoch"
    using frames_of_parse [OF assms(1,2,5), of sm l]
    by (auto simp: parseFrame_def Let_def split: if_splits)
qed

theorem frame_duplicates_and_gaps_witness:
  "parseFrame (frames_of counter_sem 7 [[1, 2], [3]] ! 1) 7 0 = Accept [3] 3 True"
  using frame_duplicates_and_gaps [of 7 "[[1, 2], [3]]" 0 1 counter_sem 0 0]
  by (simp add: offset_at_def)

text \<open>
  C4. In every interleaving of the writer with any number of concurrent ACKs, credit is
  conserved: available credit, bytes sent and not acknowledged, credit claimed by the
  writer, credit given up with a broken epoch and credit an ACK is about to return always
  add up to the window. So the front end never has more than 8 MiB unacknowledged and the
  acknowledged offset never passes the sent one.
\<close>

theorem credit_window_conserved:
  assumes "semaphore_laws sm" "reachable (credit_init sm) (credit_step sm N) s"
  shows "available_credit sm (cs s) + unat (outstanding (cs s)) + claimed (writer s) + lost s +
      (\<Sum>i<N. adding (ack_pcs s i)) = 8 * 1024 * 1024 \<and>
    acked_total (cs s) \<le> sent_total (cs s)"
proof -
  have "credit_inv sm N s"
    using credit.inv_reachable [OF assms(2)] assms(1) by blast
  then show ?thesis
    by (simp add: credit_inv_def window_total_def outstanding_def CREDIT_HIGH_def)
qed

definition claimed_sys :: "nat credit_sys" where
  "claimed_sys = \<lparr>cs = (credit_new counter_sem 7)\<lparr>credits := 8388606\<rparr>, writer = WClaimed [1, 2],
     lost = 0, ack_pcs = (\<lambda>_. AIdle)\<rparr>"

lemma reachable_claimed_sys: "reachable (credit_init counter_sem) (credit_step counter_sem N) claimed_sys"
proof (rule reach_step)
  let ?s = "\<lparr>cs = credit_new counter_sem 7, writer = WIdle, lost = 0, ack_pcs = (\<lambda>_. AIdle)\<rparr>"
  show "reachable (credit_init counter_sem) (credit_step counter_sem N) ?s"
    by (rule reach_init) (auto simp: credit_init_def)
  have "try_acquire_credit counter_sem (of_nat (length [1, 2 :: u8])) (cs ?s) =
      (True, (credit_new counter_sem 7)\<lparr>credits := 8388606\<rparr>)"
    by (simp add: try_acquire_credit_def credit_new_def counter_sem_def CREDIT_HIGH_def)
  then show "credit_step counter_sem N ?s claimed_sys"
    using w_try [of ?s "[1, 2]" counter_sem _ N] by (simp add: claimed_sys_def)
qed

theorem credit_window_conserved_witness:
  "available_credit counter_sem (cs claimed_sys) + claimed (writer claimed_sys) = 8 * 1024 * 1024"
  using credit_window_conserved [OF counter_sem_laws reachable_claimed_sys [of 2]]
  by (simp add: claimed_sys_def credit_new_def outstanding_def)

text \<open>
  ACKs are cumulative: after any run of ACKs of the current epoch the acknowledged
  offset is the largest of them (cut at what was sent), and the credit they returned in
  total is exactly how far it moved. So duplicated, delayed or reordered ACKs neither lose
  nor create credit.
\<close>

theorem ack_cumulative:
  assumes "acked_total c \<le> sent_total c" "\<not> broken c"
  shows "unat (acked_total (snd (acks sm (epoch c) is c))) =
      Max (insert (unat (acked_total c)) ((\<lambda>i. min (unat i) (unat (sent_total c))) ` set is)) \<and>
    unat (acked_total c) + fst (acks sm (epoch c) is c) =
      unat (acked_total (snd (acks sm (epoch c) is c)))"
  using acks_total [OF assms(1) refl assms(2)] by blast

theorem ack_cumulative_witness:
  "unat (acked_total (snd (acks counter_sem 7 [30, 10, 30]
     ((credit_new counter_sem 7)\<lparr>sent_total := 20\<rparr>)))) = 20"
  using ack_cumulative [of "(credit_new counter_sem 7)\<lparr>sent_total := 20\<rparr>" counter_sem "[30, 10, 30]"]
  by (simp add: credit_new_def)

text \<open>
  A broken epoch stays broken: whatever the writer and the ACKs do next, no further
  frame is allocated, so no offset is ever reused, and a new ACK gives back nothing.
\<close>

theorem broken_epoch_is_final:
  assumes "(credit_step sm N)\<^sup>*\<^sup>* s t" "broken (cs s)"
  shows "broken (cs t) \<and> sent_total (cs t) = sent_total (cs s) \<and> frame_seq (cs t) = frame_seq (cs s) \<and>
    fst (alloc_frame p (cs t)) = None \<and> ack sm e inc (cs t) = (0, cs t)"
proof -
  from assms have "broken (cs t) \<and> sent_total (cs t) = sent_total (cs s) \<and> frame_seq (cs t) = frame_seq (cs s)"
    by (induction rule: rtranclp_induct) (auto dest: credit_step_broken)
  then show ?thesis by (auto simp: alloc_frame_def ack_def is_broken_def)
qed

theorem broken_epoch_is_final_witness:
  "fst (alloc_frame [1] (mark_broken (credit_new counter_sem 7))) = None"
  using broken_epoch_is_final [of counter_sem 2 "claimed_sys\<lparr>cs := mark_broken (credit_new counter_sem 7)\<rparr>"
      "claimed_sys\<lparr>cs := mark_broken (credit_new counter_sem 7)\<rparr>" "[1]" 0 0]
  by (simp add: mark_broken_def)

end
