(* ===== verification/Term_Stream.thy ===== *)
theory Term_Stream
  imports Stream_Protocol Rust_Text "HOL-Library.Sublist"
begin

text \<open>
  The terminal read loop of \<^verbatim>\<open>src/crates/app/src/terminal/stream.rs\<close>: aggregation of output,
  the credit gate, the ring buffer of a background tab and its replay, and the one-shot
  \<open>su\<close> password answer (\<open>SuWatch\<close> of \<^verbatim>\<open>src/crates/app/src/terminal/session.rs\<close>).

  The loop is a function \<open>loop_event\<close> of the next thing that happens: data or end of file
  from the byte source, the aggregation timer, progress of the task itself, or another
  task moving the focus flag or acknowledging bytes. \<open>None\<close> says that the event cannot
  happen in that state, in particular that an \<open>acquire_credit\<close> is still pending. The times
  at which the timer fires are left open. The fields \<open>decoded\<close>, \<open>out\<close>, \<open>announced\<close> and
  \<open>discarded\<close> are history: no operation reads them. The \<open>encoding_rs\<close> decoder is the
  argument \<open>dec\<close>, the semaphore the argument \<open>sm\<close>.
\<close>

section \<open>The ring buffer\<close>

definition AGG_CAP :: nat where "AGG_CAP = 256 * 1024"
definition RING_CAP :: nat where "RING_CAP = 1024 * 1024"
definition RING_DRAIN_CHUNK :: nat where "RING_DRAIN_CHUNK = 64 * 1024"

record RingBuf =
  buf :: "u8 list"
  cap :: nat
  truncated :: u64

definition ring_new :: "nat \<Rightarrow> RingBuf" where
  "ring_new c = \<lparr>buf = [], cap = c, truncated = 0\<rparr>"

definition push :: "RingBuf \<Rightarrow> u8 list \<Rightarrow> RingBuf" where
  "push r data =
     (let dropped = length data - cap r;
          r = (if length data > cap r then r\<lparr>truncated := truncated r + of_nat dropped\<rparr> else r);
          data = (if length data > cap r then drop dropped data else data);
          overflow = (length (buf r) + length data) - cap r;
          evict = min overflow (length (buf r));
          r = (if overflow > 0
               then r\<lparr>buf := drop evict (buf r), truncated := truncated r + of_nat evict\<rparr> else r)
      in r\<lparr>buf := buf r @ data\<rparr>)"

definition pop_chunk :: "RingBuf \<Rightarrow> nat \<Rightarrow> u8 list \<times> RingBuf" where
  "pop_chunk r n =
     (let k = min n (length (buf r)) in (take k (buf r), r\<lparr>buf := drop k (buf r)\<rparr>))"

definition take_truncated :: "RingBuf \<Rightarrow> u64 \<times> RingBuf" where
  "take_truncated r = (truncated r, r\<lparr>truncated := 0\<rparr>)"

definition ring_len :: "RingBuf \<Rightarrow> nat" where
  "ring_len r = length (buf r)"

section \<open>The password prompt\<close>

record SuWatch =
  password :: "u8 list option"
  deadline :: nat
  answered :: bool

definition to_ascii_lower :: "u8 \<Rightarrow> u8" where
  "to_ascii_lower b = (if 65 \<le> b \<and> b \<le> 90 then b + 32 else b)"

definition eq_ignore_ascii_case :: "u8 list \<Rightarrow> u8 list \<Rightarrow> bool" where
  "eq_ignore_ascii_case a b \<longleftrightarrow> map to_ascii_lower a = map to_ascii_lower b"

text \<open>\<open>slice::windows\<close>: every contiguous run of the given length.\<close>

definition windows :: "nat \<Rightarrow> 'a list \<Rightarrow> 'a list list" where
  "windows n xs = (if length xs < n then [] else map (\<lambda>i. take n (drop i xs)) [0..<Suc (length xs - n)])"

text \<open>The markers: \<open>assword\<close>, two Chinese words in UTF-8 and one of them in GBK.\<close>

definition MARKERS :: "u8 list list" where
  "MARKERS =
    [[97, 115, 115, 119, 111, 114, 100],
     [229, 175, 134, 231, 160, 129],
     [195, 220, 194, 235],
     [229, 143, 163, 228, 187, 164]]"

definition is_password_prompt :: "u8 list \<Rightarrow> bool" where
  "is_password_prompt chunk =
     list_ex (\<lambda>m. list_ex (\<lambda>w. eq_ignore_ascii_case w m \<or> w = m) (windows (length m) chunk)) MARKERS"

section \<open>The loop\<close>

text \<open>
  Where the task is: at the top of the loop, waiting for the credit of the truncation
  notice, in the replay loop, waiting for the credit of a replayed chunk, in the
  \<open>select!\<close>, at the start of \<open>flush\<close>, waiting for the credit of a flushed buffer (the flag
  says whether the loop returns afterwards), or returned.
\<close>

datatype loop_pc =
    LTop | LNotice u64 | LDrain | LChunk "u8 list" | LSelect | LFlush bool | LAcquire bool "u8 list" | LEnd

record ('s, 'd) term_loop =
  credit :: "'s CreditState"
  focused :: bool
  ring :: RingBuf
  agg :: "u8 list"
  decoder :: "'d option"
  su_watch :: "SuWatch option"
  macro_pending :: "string list option"
  has_writer :: bool
  written :: "u8 list list"
  macros :: "string list list"
  wire :: "u8 list list"
  loop_pc :: loop_pc
  decoded :: "u8 list"
  out :: "u8 list"
  announced :: u64
  discarded :: nat

datatype event = SetFocus bool | Ack u64 u64 | Data nat "u8 list" | Eof | Timer | Go bool

text \<open>The truncation notice, in UTF-8.\<close>

definition notice :: "u64 \<Rightarrow> u8 list" where
  "notice t =
    [13, 10, 27, 91, 49, 59, 51, 51, 109, 91, 109, 121, 115, 115, 104, 93, 32, 229, 144, 142,
     229, 143, 176, 232, 190, 147, 229, 135, 186, 229, 183, 178, 230, 136, 170, 230, 150, 173,
     32] @ ascii_bytes (show_nat (unat t)) @
    [32, 229, 173, 151, 232, 138, 130, 239, 188, 136, 232, 191, 135, 232, 189, 189, 228, 191,
     157, 230, 138, 164, 239, 188, 137, 32, 47, 32, 98, 97, 99, 107, 103, 114, 111, 117, 110,
     100, 32, 111, 117, 116, 112, 117, 116, 32, 116, 114, 117, 110, 99, 97, 116, 101, 100, 32] @ ascii_bytes (show_nat (unat t)) @
    [32, 98, 121, 116, 101, 115, 32, 40, 111, 118, 101, 114, 108, 111, 97, 100, 32, 112, 114,
     111, 116, 101, 99, 116, 105, 111, 110, 41, 27, 91, 48, 109, 13, 10]"

text \<open>
  \<open>send_frame\<close>: \<open>ok\<close> is what the sink answers. The first component says whether the frame
  went out.
\<close>

definition send_frame :: "bool \<Rightarrow> u8 list \<Rightarrow> ('s, 'd) term_loop \<Rightarrow> bool \<times> ('s, 'd) term_loop" where
  "send_frame ok b st =
     (case alloc_frame b (credit st) of
        (None, c) \<Rightarrow> (False, st\<lparr>credit := c\<rparr>)
      | (Some frame, c) \<Rightarrow>
          if ok then (True, st\<lparr>credit := c, wire := wire st @ [frame]\<rparr>)
          else (False, st\<lparr>credit := mark_broken c\<rparr>))"

text \<open>\<open>send_frame\<close> of terminal output, with its history.\<close>

definition send_data :: "bool \<Rightarrow> u8 list \<Rightarrow> ('s, 'd) term_loop \<Rightarrow> ('s, 'd) term_loop" where
  "send_data ok b st =
     (case send_frame ok b st of
        (True, st) \<Rightarrow> st\<lparr>out := out st @ b\<rparr>
      | (False, st) \<Rightarrow> st\<lparr>discarded := discarded st + length b\<rparr>)"

text \<open>The part of \<open>flush\<close> before the foreground wait; \<open>next\<close> is where it returns to.\<close>

definition flush :: "'s sem_ops \<Rightarrow> bool \<Rightarrow> bool \<Rightarrow> ('s, 'd) term_loop \<Rightarrow> ('s, 'd) term_loop" where
  "flush sm ok fin st =
     (let return = (\<lambda>st. st\<lparr>loop_pc := (if fin then LEnd else LTop)\<rparr>) in
      if agg st = [] then return st
      else let b = agg st; st = st\<lparr>agg := []\<rparr> in
        if is_broken (credit st) then return (st\<lparr>discarded := discarded st + length b\<rparr>)
        else if focused st then st\<lparr>loop_pc := LAcquire fin b\<rparr>
        else (case try_acquire_credit sm (of_nat (length b)) (credit st) of
                (False, _) \<Rightarrow> return (st\<lparr>ring := push (ring st) b\<rparr>)
              | (True, c) \<Rightarrow> return (send_data ok b (st\<lparr>credit := c\<rparr>))))"

text \<open>A wait for credit for the output \<open>b\<close>, and what follows it.\<close>

definition await_credit ::
  "'s sem_ops \<Rightarrow> bool \<Rightarrow> u8 list \<Rightarrow> loop_pc \<Rightarrow> loop_pc \<Rightarrow> ('s, 'd) term_loop \<Rightarrow> ('s, 'd) term_loop option" where
  "await_credit sm ok b pc_ok pc_closed st =
     (case acquire_credit sm (of_nat (length b)) (credit st) of
        None \<Rightarrow> None
      | Some (True, c) \<Rightarrow> Some ((send_data ok b (st\<lparr>credit := c\<rparr>))\<lparr>loop_pc := pc_ok\<rparr>)
      | Some (False, c) \<Rightarrow> Some (st\<lparr>discarded := discarded st + length b, loop_pc := pc_closed\<rparr>))"

definition drain_notice ::
  "'s sem_ops \<Rightarrow> bool \<Rightarrow> u64 \<Rightarrow> ('s, 'd) term_loop \<Rightarrow> ('s, 'd) term_loop option" where
  "drain_notice sm ok t st =
     (case acquire_credit sm (of_nat (length (notice t))) (credit st) of
        None \<Rightarrow> None
      | Some (True, c) \<Rightarrow> Some ((snd (send_frame ok (notice t) (st\<lparr>credit := c\<rparr>)))\<lparr>loop_pc := LDrain\<rparr>)
      | Some (False, c) \<Rightarrow> Some (st\<lparr>loop_pc := LDrain\<rparr>))"

definition drain_next :: "('s, 'd) term_loop \<Rightarrow> ('s, 'd) term_loop" where
  "drain_next st =
     (if focused st
      then (let (chunk, r) = pop_chunk (ring st) RING_DRAIN_CHUNK
            in st\<lparr>ring := r, loop_pc := (if chunk = [] then LSelect else LChunk chunk)\<rparr>)
      else st\<lparr>loop_pc := LSelect\<rparr>)"

definition loop_top :: "('s, 'd) term_loop \<Rightarrow> ('s, 'd) term_loop" where
  "loop_top st =
     (if focused st \<and> ring_len (ring st) > 0
      then (let (t, r) = take_truncated (ring st)
            in st\<lparr>ring := r, announced := announced st + t,
                  loop_pc := (if t > 0 then LNotice t else LDrain)\<rparr>)
      else st\<lparr>loop_pc := LSelect\<rparr>)"

definition su_react :: "nat \<Rightarrow> u8 list \<Rightarrow> ('s, 'd) term_loop \<Rightarrow> ('s, 'd) term_loop" where
  "su_react now bytes st =
     (case su_watch st of
        None \<Rightarrow> st
      | Some w \<Rightarrow>
          if \<not> answered w \<and> now < deadline w
          then (if is_password_prompt bytes
                then st\<lparr>su_watch := Some (w\<lparr>answered := True\<rparr>),
                        written := written st @
                          (case password w of Some pw \<Rightarrow> if has_writer st then [pw @ [13]] else [] | None \<Rightarrow> []),
                        macros := macros st @
                          (case macro_pending st of Some m \<Rightarrow> if has_writer st then [m] else [] | None \<Rightarrow> []),
                        macro_pending := None\<rparr>
                else st)
          else if deadline w \<le> now then st\<lparr>su_watch := None\<rparr>
          else st)"

definition decode_append ::
  "('d \<Rightarrow> u8 list \<Rightarrow> u8 list \<times> 'd) \<Rightarrow> u8 list \<Rightarrow> ('s, 'd) term_loop \<Rightarrow> ('s, 'd) term_loop" where
  "decode_append dec bytes st =
     (case decoder st of
        None \<Rightarrow> st\<lparr>agg := agg st @ bytes, decoded := decoded st @ bytes\<rparr>
      | Some d \<Rightarrow>
          if bytes = [] then st
          else let (o', d') = dec d bytes
               in st\<lparr>agg := agg st @ o', decoder := Some d', decoded := decoded st @ o'\<rparr>)"

definition on_data ::
  "('d \<Rightarrow> u8 list \<Rightarrow> u8 list \<times> 'd) \<Rightarrow> nat \<Rightarrow> u8 list \<Rightarrow> ('s, 'd) term_loop \<Rightarrow> ('s, 'd) term_loop" where
  "on_data dec now bytes st =
     (let st = decode_append dec bytes (su_react now bytes st)
      in st\<lparr>loop_pc := (if length (agg st) \<ge> AGG_CAP then LFlush False else LTop)\<rparr>)"

definition progress :: "'s sem_ops \<Rightarrow> bool \<Rightarrow> ('s, 'd) term_loop \<Rightarrow> ('s, 'd) term_loop option" where
  "progress sm ok st =
     (case loop_pc st of
        LTop \<Rightarrow> Some (loop_top st)
      | LNotice t \<Rightarrow> drain_notice sm ok t st
      | LDrain \<Rightarrow> Some (drain_next st)
      | LChunk b \<Rightarrow> await_credit sm ok b LDrain LSelect st
      | LFlush fin \<Rightarrow> Some (flush sm ok fin st)
      | LAcquire fin b \<Rightarrow> (let p = (if fin then LEnd else LTop) in await_credit sm ok b p p st)
      | LSelect \<Rightarrow> None
      | LEnd \<Rightarrow> None)"

fun loop_event ::
  "'s sem_ops \<Rightarrow> ('d \<Rightarrow> u8 list \<Rightarrow> u8 list \<times> 'd) \<Rightarrow> event \<Rightarrow> ('s, 'd) term_loop \<Rightarrow> ('s, 'd) term_loop option" where
  "loop_event sm dec (SetFocus b) st = Some (st\<lparr>focused := b\<rparr>)"
| "loop_event sm dec (Ack e inc) st = Some (st\<lparr>credit := snd (ack sm e inc (credit st))\<rparr>)"
| "loop_event sm dec (Data now bytes) st =
     (if loop_pc st = LSelect then Some (on_data dec now bytes st) else None)"
| "loop_event sm dec Eof st =
     (if loop_pc st = LSelect then Some (st\<lparr>loop_pc := LFlush True\<rparr>) else None)"
| "loop_event sm dec Timer st =
     (if loop_pc st = LSelect
      then Some (st\<lparr>loop_pc := (if agg st = [] then LTop else LFlush False)\<rparr>) else None)"
| "loop_event sm dec (Go ok) st = progress sm ok st"

fun run_loop ::
  "'s sem_ops \<Rightarrow> ('d \<Rightarrow> u8 list \<Rightarrow> u8 list \<times> 'd) \<Rightarrow> event list \<Rightarrow> ('s, 'd) term_loop \<Rightarrow> ('s, 'd) term_loop option" where
  "run_loop sm dec [] st = Some st"
| "run_loop sm dec (ev # evs) st =
     (case loop_event sm dec ev st of None \<Rightarrow> None | Some st' \<Rightarrow> run_loop sm dec evs st')"

section \<open>The ring keeps the newest bytes\<close>

lemma push_spec:
  assumes "length (buf r) \<le> cap r"
  shows "buf (push r data) = drop (length (buf r @ data) - cap r) (buf r @ data)"
    and "truncated (push r data) = truncated r + of_nat (length (buf r @ data) - cap r)"
    and "cap (push r data) = cap r"
  using assms by (auto simp: push_def Let_def of_nat_diff ac_simps simp flip: of_nat_add)

lemma push_account:
  assumes "length (buf r) \<le> cap r"
  shows "of_nat (length (buf (push r data))) + truncated (push r data) =
     of_nat (length (buf r)) + truncated r + (of_nat (length data) :: u64)"
proof -
  let ?n = "length (buf r @ data)"
  have "?n = (?n - (?n - cap r)) + (?n - cap r)" by simp
  then have "(of_nat ?n :: u64) = of_nat (?n - (?n - cap r)) + of_nat (?n - cap r)"
    by (metis of_nat_add)
  moreover have "length (buf (push r data)) = ?n - (?n - cap r)"
    using push_spec [OF assms, of data] by (metis length_drop)
  ultimately show ?thesis using push_spec [OF assms, of data] by simp
qed

lemma push_len: "length (buf r) \<le> cap r \<Longrightarrow> length (buf (push r data)) \<le> cap r"
  by (simp add: push_spec)

section \<open>Nothing is lost silently\<close>

fun pc_buf :: "loop_pc \<Rightarrow> u8 list" where
  "pc_buf (LChunk b) = b"
| "pc_buf (LAcquire fin b) = b"
| "pc_buf _ = []"

text \<open>The output that is still somewhere in the loop, in the order it will go out.\<close>

definition in_loop :: "('s, 'd) term_loop \<Rightarrow> u8 list" where
  "in_loop st = out st @ pc_buf (loop_pc st) @ buf (ring st) @ agg st"

definition accounted :: "('s, 'd) term_loop \<Rightarrow> u64" where
  "accounted st =
     of_nat (length (in_loop st)) + of_nat (discarded st) + truncated (ring st) + announced st"

definition loop_inv :: "('s, 'd) term_loop \<Rightarrow> bool" where
  "loop_inv st \<longleftrightarrow> of_nat (length (decoded st)) = accounted st \<and> length (buf (ring st)) \<le> cap (ring st)"

lemma wire_same: "(st :: ('s, 'd) term_loop)\<lparr>credit := c\<rparr> = st\<lparr>credit := c, wire := wire st\<rparr>"
  by (cases st) simp

lemma send_frame_frame:
  "\<exists>c w. snd (send_frame ok b st) = st\<lparr>credit := c, wire := w\<rparr>"
proof -
  obtain f c where "alloc_frame b (credit st) = (f, c)" by fastforce
  then show ?thesis
    by (cases f; cases ok) (auto simp: send_frame_def intro: wire_same)
qed

lemma drain_notice_frame:
  assumes "drain_notice sm ok t st = Some st'"
  shows "\<exists>c w. st' = st\<lparr>credit := c, wire := w, loop_pc := LDrain\<rparr>"
proof -
  from assms consider c where "st' = (snd (send_frame ok (notice t) (st\<lparr>credit := c\<rparr>)))\<lparr>loop_pc := LDrain\<rparr>"
    | "st' = st\<lparr>loop_pc := LDrain\<rparr>"
    by (auto simp: drain_notice_def split: option.splits prod.splits bool.splits)
  then show ?thesis
  proof cases
    case (1 c)
    obtain c' w where "snd (send_frame ok (notice t) (st\<lparr>credit := c\<rparr>)) = st\<lparr>credit := c', wire := w\<rparr>"
      using send_frame_frame [of ok "notice t" "st\<lparr>credit := c\<rparr>"] by auto
    with 1 have "st' = st\<lparr>credit := c', wire := w, loop_pc := LDrain\<rparr>" by simp
    then show ?thesis by blast
  next
    case 2
    then have "st' = st\<lparr>credit := credit st, wire := wire st, loop_pc := LDrain\<rparr>" by (cases st) simp
    then show ?thesis by blast
  qed
qed

lemma send_data_cases:
  obtains c w where "send_data ok b st = st\<lparr>credit := c, wire := w, out := out st @ b\<rparr>"
  | c w where "send_data ok b st = st\<lparr>credit := c, wire := w, discarded := discarded st + length b\<rparr>"
proof -
  obtain d st' where sf: "send_frame ok b st = (d, st')" by fastforce
  obtain c w where "st' = st\<lparr>credit := c, wire := w\<rparr>"
    using send_frame_frame [of ok b st] sf by auto
  with sf that show ?thesis by (cases d) (auto simp: send_data_def)
qed

lemma su_react_keeps [simp]:
  "in_loop (su_react now b st) = in_loop st" "discarded (su_react now b st) = discarded st"
  "ring (su_react now b st) = ring st" "announced (su_react now b st) = announced st"
  "decoded (su_react now b st) = decoded st" "agg (su_react now b st) = agg st"
  "loop_pc (su_react now b st) = loop_pc st" "out (su_react now b st) = out st"
  "focused (su_react now b st) = focused st" "credit (su_react now b st) = credit st"
  "decoder (su_react now b st) = decoder st"
  by (simp_all add: su_react_def in_loop_def split: option.splits)

lemma pop_chunk_spec:
  "pop_chunk r n = (c, r') \<Longrightarrow>
     c @ buf r' = buf r \<and> cap r' = cap r \<and> truncated r' = truncated r \<and> length (buf r') \<le> length (buf r)"
  by (auto simp: pop_chunk_def Let_def)

lemma loop_inv_send:
  assumes "of_nat (length (decoded st)) = accounted st + of_nat (length b)"
    "length (buf (ring st)) \<le> cap (ring st)"
    "pc_buf p = []" "pc_buf (loop_pc st) = []"
  shows "loop_inv ((send_data ok b (st\<lparr>credit := c\<rparr>))\<lparr>loop_pc := p\<rparr>)"
  by (rule send_data_cases [of ok b "st\<lparr>credit := c\<rparr>"])
    (use assms in \<open>auto simp: loop_inv_def accounted_def in_loop_def\<close>)

lemma loop_inv_flush:
  assumes "loop_inv st" "loop_pc st = LFlush fin"
  shows "loop_inv (flush sm ok fin st)"
proof -
  let ?st = "st\<lparr>agg := []\<rparr>"
  have split: "of_nat (length (decoded ?st)) = accounted ?st + of_nat (length (agg st))"
    and cap: "length (buf (ring ?st)) \<le> cap (ring ?st)" "pc_buf (loop_pc ?st) = []"
    using assms by (auto simp: loop_inv_def accounted_def in_loop_def)
  obtain d c where tr: "try_acquire_credit sm (of_nat (length (agg st))) (credit st) = (d, c)"
    by fastforce
  let ?p = "if fin then LEnd else LTop"
  have sent: "loop_inv ((send_data ok (agg st) (?st\<lparr>credit := c\<rparr>))\<lparr>loop_pc := ?p\<rparr>)"
    using split cap by (intro loop_inv_send) simp_all
  have ring: "loop_inv (?st\<lparr>ring := push (ring st) (agg st), loop_pc := ?p\<rparr>)"
    using split cap push_account [of "ring st" "agg st"] push_len [of "ring st" "agg st"]
      push_spec(3) [of "ring st" "agg st"]
    by (auto simp: loop_inv_def accounted_def in_loop_def algebra_simps)
  from assms split cap sent ring tr show ?thesis
    by (cases d) (auto simp: flush_def Let_def loop_inv_def accounted_def in_loop_def)
qed

lemma loop_inv_await:
  assumes "loop_inv st" "pc_buf (loop_pc st) = b" "pc_buf p = []" "pc_buf q = []"
    "await_credit sm ok b p q st = Some st'"
  shows "loop_inv st'"
proof -
  let ?st = "st\<lparr>loop_pc := p\<rparr>"
  have inv: "of_nat (length (decoded ?st)) = accounted ?st + of_nat (length b)"
    "length (buf (ring ?st)) \<le> cap (ring ?st)" "pc_buf (loop_pc ?st) = []"
    using assms(1-3) by (auto simp: loop_inv_def accounted_def in_loop_def)
  from assms(5) consider c where "st' = (send_data ok b (st\<lparr>credit := c\<rparr>))\<lparr>loop_pc := p\<rparr>"
    | "st' = st\<lparr>discarded := discarded st + length b, loop_pc := q\<rparr>"
    by (auto simp: await_credit_def split: option.splits prod.splits bool.splits)
  then show ?thesis
  proof cases
    case (1 c)
    have "(send_data ok b (st\<lparr>credit := c\<rparr>))\<lparr>loop_pc := p\<rparr> = (send_data ok b (?st\<lparr>credit := c\<rparr>))\<lparr>loop_pc := p\<rparr>"
      by (auto simp: send_data_def send_frame_def split: option.splits prod.splits)
    with 1 inv assms(3) show ?thesis by (simp add: loop_inv_send)
  next
    case 2
    with assms show ?thesis by (auto simp: loop_inv_def accounted_def in_loop_def)
  qed
qed

lemma loop_inv_drain:
  assumes "loop_inv st" "pc_buf (loop_pc st) = []"
  shows "loop_inv (drain_next st)" and "loop_inv (loop_top st)"
    and "drain_notice sm ok t st = Some st' \<Longrightarrow> loop_inv st'"
proof -
  obtain c r where pop: "pop_chunk (ring st) RING_DRAIN_CHUNK = (c, r)" by fastforce
  from pop_chunk_spec [OF pop] have "length (buf (ring st)) = length c + length (buf r)"
    by (metis length_append)
  with assms pop pop_chunk_spec [OF pop] show "loop_inv (drain_next st)"
    by (auto simp: drain_next_def loop_inv_def accounted_def in_loop_def)
  show "loop_inv (loop_top st)"
    using assms by (auto simp: loop_top_def take_truncated_def Let_def loop_inv_def accounted_def in_loop_def)
  assume "drain_notice sm ok t st = Some st'"
  from drain_notice_frame [OF this] assms show "loop_inv st'"
    by (auto simp: loop_inv_def accounted_def in_loop_def)
qed

lemma loop_inv_data:
  assumes "loop_inv st" "loop_pc st = LSelect"
  shows "loop_inv (on_data dec now b st)"
  using assms
  by (auto simp: on_data_def decode_append_def Let_def loop_inv_def accounted_def in_loop_def
      split: option.splits prod.splits)

lemma loop_inv_event:
  assumes "loop_inv st" "loop_event sm dec ev st = Some st'"
  shows "loop_inv st'"
proof (cases ev)
  case (Go ok)
  with assms have "progress sm ok st = Some st'" by simp
  then show ?thesis
    using assms(1)
    by (auto simp: progress_def Let_def split: loop_pc.splits
        intro: loop_inv_drain loop_inv_flush elim!: loop_inv_await [rotated -1])
next
  case (Data now b)
  with assms loop_inv_data [of st dec now b] show ?thesis by (simp split: if_splits)
qed (use assms in \<open>auto simp: loop_inv_def accounted_def in_loop_def split: if_splits\<close>)

lemma loop_inv_run: "loop_inv st \<Longrightarrow> run_loop sm dec evs st = Some st' \<Longrightarrow> loop_inv st'"
  by (induction evs arbitrary: st) (auto split: option.splits intro: loop_inv_event)

section \<open>The order of the output\<close>

text \<open>
  A flush overtakes when it sends a buffer past older output that is still in the ring.
\<close>

definition overtakes :: "'s sem_ops \<Rightarrow> ('s, 'd) term_loop \<Rightarrow> bool" where
  "overtakes sm st \<longleftrightarrow>
     (case loop_pc st of
        LFlush fin \<Rightarrow> agg st \<noteq> [] \<and> buf (ring st) \<noteq> [] \<and> \<not> is_broken (credit st) \<and>
          (focused st \<or> fst (try_acquire_credit sm (of_nat (length (agg st))) (credit st)))
      | _ \<Rightarrow> False)"

fun run_overtakes ::
  "'s sem_ops \<Rightarrow> ('d \<Rightarrow> u8 list \<Rightarrow> u8 list \<times> 'd) \<Rightarrow> event list \<Rightarrow> ('s, 'd) term_loop \<Rightarrow> bool" where
  "run_overtakes sm dec [] st = False"
| "run_overtakes sm dec (ev # evs) st =
     ((case ev of Go ok \<Rightarrow> overtakes sm st | _ \<Rightarrow> False) \<or>
      (case loop_event sm dec ev st of None \<Rightarrow> False | Some st' \<Rightarrow> run_overtakes sm dec evs st'))"

definition shrinks :: "('s, 'd) term_loop \<Rightarrow> ('s, 'd) term_loop \<Rightarrow> bool" where
  "shrinks st st' \<longleftrightarrow> subseq (in_loop st') (in_loop st) \<and> decoded st' = decoded st"

lemma shrinks_send:
  assumes "pc_buf p = []" "pc_buf (loop_pc st) @ buf (ring st) @ agg st = b @ buf (ring st') @ agg st'"
    "st' = st\<lparr>agg := a, credit := c\<rparr>"
  shows "shrinks st ((send_data ok b st')\<lparr>loop_pc := p\<rparr>)"
proof -
  have "in_loop st = out st @ b @ buf (ring st) @ a"
    using assms(2,3) by (simp add: in_loop_def)
  moreover have "subseq (buf (ring st) @ a) (b @ buf (ring st) @ a)"
    by (rule list_emb_append2) simp
  ultimately show ?thesis
    by (rule_tac send_data_cases [of ok b st']) (use assms in \<open>auto simp: shrinks_def in_loop_def subseq_append'\<close>)
qed

lemma shrinks_await:
  assumes "pc_buf (loop_pc st) = b" "pc_buf p = []" "pc_buf q = []"
    "await_credit sm ok b p q st = Some st'"
  shows "shrinks st st'"
proof -
  have skip: "subseq (buf (ring st) @ agg st) (b @ buf (ring st) @ agg st)"
    by (rule list_emb_append2) simp
  from assms(4) consider c where "st' = (send_data ok b (st\<lparr>credit := c\<rparr>))\<lparr>loop_pc := p\<rparr>"
    | "st' = st\<lparr>discarded := discarded st + length b, loop_pc := q\<rparr>"
    by (auto simp: await_credit_def split: option.splits prod.splits bool.splits)
  then show ?thesis
  proof cases
    case (1 c)
    have eq: "st\<lparr>credit := c\<rparr> = st\<lparr>agg := agg st, credit := c\<rparr>" by (cases st) simp
    have "pc_buf (loop_pc st) @ buf (ring st) @ agg st =
        b @ buf (ring (st\<lparr>credit := c\<rparr>)) @ agg (st\<lparr>credit := c\<rparr>)"
      using assms(1) by simp
    from shrinks_send [OF assms(2) this eq, of ok] 1 show ?thesis by simp
  next
    case 2
    with assms skip show ?thesis by (simp add: shrinks_def in_loop_def subseq_append')
  qed
qed

lemma shrinks_flush:
  assumes "loop_pc st = LFlush fin" "\<not> overtakes sm st" "length (buf (ring st)) \<le> cap (ring st)"
  shows "shrinks st (flush sm ok fin st)"
proof -
  obtain d c where tr: "try_acquire_credit sm (of_nat (length (agg st))) (credit st) = (d, c)"
    by fastforce
  let ?p = "if fin then LEnd else LTop" and ?st = "st\<lparr>agg := [], credit := c\<rparr>"
  have sent: "shrinks st ((send_data ok (agg st) ?st)\<lparr>loop_pc := ?p\<rparr>)" if "buf (ring st) = []"
    using that assms(1) by (intro shrinks_send) simp_all
  have "subseq (drop k (buf (ring st) @ agg st)) (buf (ring st) @ agg st)" for k
    by (intro suffix_imp_subseq suffix_drop)
  then have ring: "shrinks st (st\<lparr>agg := [], ring := push (ring st) (agg st), loop_pc := ?p\<rparr>)"
    using push_spec(1) [OF assms(3), of "agg st"] assms(1) 
    by (simp add: shrinks_def in_loop_def subseq_append' del: drop_append)
  have dropped: "shrinks st (st\<lparr>agg := [], discarded := n, loop_pc := ?p\<rparr>)" for n
    using assms(1) by (simp add: shrinks_def in_loop_def subseq_append' subseq_rev_drop_many)
  from assms sent ring dropped tr show ?thesis
    by (cases d; cases fin) (auto simp: flush_def Let_def overtakes_def shrinks_def in_loop_def)
qed

lemma shrinks_progress:
  assumes "progress sm ok st = Some st'" "\<not> overtakes sm st" "length (buf (ring st)) \<le> cap (ring st)"
  shows "shrinks st st'"
proof -
  obtain c r where pop: "pop_chunk (ring st) RING_DRAIN_CHUNK = (c, r)" by fastforce
  from pop pop_chunk_spec [OF pop] have "in_loop (drain_next st) = in_loop st" if "loop_pc st = LDrain"
    using that by (auto simp: drain_next_def in_loop_def)
  then have drain: "loop_pc st = LDrain \<Longrightarrow> shrinks st (drain_next st)"
    by (simp add: shrinks_def) (simp add: drain_next_def split_beta)
  have top: "loop_pc st = LTop \<Longrightarrow> shrinks st (loop_top st)"
    by (simp add: shrinks_def loop_top_def take_truncated_def in_loop_def Let_def)
  have notice: "shrinks st st'" if "loop_pc st = LNotice t" "drain_notice sm ok t st = Some st'" for t
    using that drain_notice_frame [OF that(2)] by (auto simp: shrinks_def in_loop_def)
  from assms drain top notice shrinks_flush [OF _ assms(2,3)] show ?thesis
    by (auto simp: progress_def Let_def split: loop_pc.splits elim!: shrinks_await [rotated -1])
qed

lemma ordered_event:
  assumes "subseq (in_loop st) (decoded st)" "loop_inv st" "loop_event sm dec ev st = Some st'"
    "\<not> (case ev of Go ok \<Rightarrow> overtakes sm st | _ \<Rightarrow> False)"
  shows "subseq (in_loop st') (decoded st')"
proof (cases ev)
  case (Go ok)
  with assms have "shrinks st st'" by (auto simp: loop_inv_def intro: shrinks_progress)
  with assms(1) show ?thesis by (auto simp: shrinks_def intro: subseq_order.trans)
next
  case (Data now b)
  with assms show ?thesis
    by (auto simp: on_data_def decode_append_def Let_def in_loop_def
        split: if_splits option.splits prod.splits simp flip: append_assoc)
qed (use assms in \<open>auto simp: in_loop_def split: if_splits\<close>)

lemma ordered_run:
  assumes "subseq (in_loop st) (decoded st)" "loop_inv st" "\<not> run_overtakes sm dec evs st"
    "run_loop sm dec evs st = Some st'"
  shows "subseq (in_loop st') (decoded st')"
  using assms
proof (induction evs arbitrary: st)
  case (Cons ev evs)
  then obtain st1 where st1: "loop_event sm dec ev st = Some st1" "run_loop sm dec evs st1 = Some st'"
    by (auto split: option.splits)
  with Cons.prems have "subseq (in_loop st1) (decoded st1)" "loop_inv st1" "\<not> run_overtakes sm dec evs st1"
    by (auto intro: ordered_event loop_inv_event)
  with st1 show ?case by (intro Cons.IH)
qed simp

section \<open>The password is sent once\<close>

text \<open>How many answers the loop may still give.\<close>

definition armed :: "('s, 'd) term_loop \<Rightarrow> nat" where
  "armed st = (case su_watch st of Some w \<Rightarrow> if answered w then 0 else 1 | None \<Rightarrow> 0)"

lemma su_react_armed:
  "length (written (su_react now b st)) + armed (su_react now b st) \<le> length (written st) + armed st"
  by (auto simp: su_react_def armed_def split: option.splits)

lemma send_frame_su [simp]:
  "written (snd (send_frame ok b st)) = written st" "su_watch (snd (send_frame ok b st)) = su_watch st"
  using send_frame_frame [of ok b st] by auto

lemma send_data_su [simp]:
  "written (send_data ok b st) = written st" "su_watch (send_data ok b st) = su_watch st"
  by (rule send_data_cases [of ok b st]; simp)+

lemma progress_su:
  "progress sm ok st = Some st' \<Longrightarrow> written st' = written st \<and> su_watch st' = su_watch st"
  by (auto simp: progress_def Let_def loop_top_def drain_notice_def drain_next_def await_credit_def flush_def
      split: loop_pc.splits if_splits prod.splits option.splits bool.splits)

lemma loop_event_armed:
  assumes "loop_event sm dec ev st = Some st'"
  shows "length (written st') + armed st' \<le> length (written st) + armed st"
proof (cases ev)
  case (Go ok)
  with assms progress_su [of sm ok st st'] show ?thesis by (simp add: armed_def)
next
  case (Data now b)
  with assms su_react_armed [of now b st] show ?thesis
    by (auto simp: on_data_def decode_append_def Let_def armed_def split: if_splits option.splits prod.splits)
qed (use assms in \<open>auto simp: armed_def split: if_splits\<close>)

lemma run_loop_armed:
  "run_loop sm dec evs st = Some st' \<Longrightarrow> length (written st') + armed st' \<le> length (written st) + armed st"
  by (induction evs arbitrary: st) (fastforce split: option.splits dest: loop_event_armed)+

section \<open>Output is given up only with the epoch\<close>

definition never_closed :: "'s sem_ops \<Rightarrow> bool" where
  "never_closed sm \<longleftrightarrow> (\<forall>n s. sem_acquire sm n s \<noteq> Some (Err ()))"

definition lost_only_broken :: "('s, 'd) term_loop \<Rightarrow> bool" where
  "lost_only_broken st \<longleftrightarrow> (discarded st \<noteq> 0 \<longrightarrow> broken (credit st))"

lemma alloc_frame_broken: "alloc_frame b c = (f, c') \<Longrightarrow> broken c \<Longrightarrow> broken c'"
  by (auto simp: alloc_frame_def is_broken_def)

lemma lost_send_frame:
  assumes "lost_only_broken st"
  shows "lost_only_broken (snd (send_frame ok b st))" "\<not> fst (send_frame ok b st) \<Longrightarrow> broken (credit (snd (send_frame ok b st)))"
proof -
  obtain f c where "alloc_frame b (credit st) = (f, c)" by fastforce
  with assms show "lost_only_broken (snd (send_frame ok b st))"
    "\<not> fst (send_frame ok b st) \<Longrightarrow> broken (credit (snd (send_frame ok b st)))"
    by (cases f; cases ok; auto simp: send_frame_def lost_only_broken_def mark_broken_def
        dest: alloc_frame_broken alloc_frame_None)+
qed

lemma lost_send_data: "lost_only_broken st \<Longrightarrow> lost_only_broken (send_data ok b st)"
  using lost_send_frame [of st ok b]
  by (auto simp: send_data_def lost_only_broken_def split: prod.splits bool.splits)

lemma acquire_credit_broken:
  "acquire_credit sm n c = Some (d, c') \<Longrightarrow> broken c' = broken c"
  "try_acquire_credit sm n c = (d, c') \<Longrightarrow> broken c' = broken c"
  "never_closed sm \<Longrightarrow> acquire_credit sm n c \<noteq> Some (False, c'')"
  by (auto simp: acquire_credit_def try_acquire_credit_def never_closed_def split: option.splits sum.splits)

lemma lost_pc [simp]:
  "lost_only_broken (st\<lparr>loop_pc := p\<rparr>) = lost_only_broken st"
  "lost_only_broken (st\<lparr>ring := r\<rparr>) = lost_only_broken st"
  "lost_only_broken (st\<lparr>agg := a\<rparr>) = lost_only_broken st"
  "lost_only_broken (st\<lparr>announced := n\<rparr>) = lost_only_broken st"
  by (simp_all add: lost_only_broken_def)

lemma lost_credit: "lost_only_broken st \<Longrightarrow> broken c = broken (credit st) \<Longrightarrow> lost_only_broken (st\<lparr>credit := c\<rparr>)"
  by (simp add: lost_only_broken_def)

lemma lost_flush:
  assumes "lost_only_broken st"
  shows "lost_only_broken (flush sm ok fin st)"
proof -
  obtain d c where tr: "try_acquire_credit sm (of_nat (length (agg st))) (credit st) = (d, c)" by fastforce
  have "lost_only_broken (send_data ok (agg st) (st\<lparr>agg := [], credit := c\<rparr>))"
    using assms acquire_credit_broken(2) [OF tr] by (intro lost_send_data) (simp add: lost_only_broken_def)
  with assms tr show ?thesis
    by (cases d) (auto simp: flush_def Let_def, auto simp: lost_only_broken_def is_broken_def)
qed

lemma lost_event:
  assumes "never_closed sm" "lost_only_broken st" "loop_event sm dec ev st = Some st'"
  shows "lost_only_broken st'"
proof (cases ev)
  case (Go ok)
  have await: "lost_only_broken st'" if "await_credit sm ok b p q st = Some st'" for b p q
    using that assms(1,2)
    by (auto simp: await_credit_def acquire_credit_broken(3) split: option.splits prod.splits bool.splits
        intro!: lost_send_data lost_credit dest: acquire_credit_broken(1))
  have notice: "lost_only_broken st'" if "drain_notice sm ok t st = Some st'" for t
    using that assms(1,2)
    by (auto simp: drain_notice_def acquire_credit_broken(3) split: option.splits prod.splits bool.splits
        intro!: lost_send_frame(1) lost_credit dest: acquire_credit_broken(1))
  from Go assms await notice show ?thesis
    by (auto simp: progress_def Let_def loop_top_def drain_next_def split_beta split: loop_pc.splits if_splits
        intro: lost_flush)
next
  case (Data now b)
  with assms show ?thesis
    by (auto simp: lost_only_broken_def on_data_def decode_append_def Let_def split: if_splits option.splits prod.splits)
qed (use assms in \<open>auto simp: lost_only_broken_def split: if_splits\<close>)

lemma lost_run:
  "never_closed sm \<Longrightarrow> lost_only_broken st \<Longrightarrow> run_loop sm dec evs st = Some st' \<Longrightarrow> lost_only_broken st'"
  by (induction evs arbitrary: st) (auto split: option.splits intro: lost_event)

section \<open>Properties\<close>

text \<open>The loop at the start of a shell, with an empty ring.\<close>

definition loop_start ::
  "'s CreditState \<Rightarrow> bool \<Rightarrow> 'd option \<Rightarrow> SuWatch option \<Rightarrow> string list option \<Rightarrow> ('s, 'd) term_loop" where
  "loop_start c foc d su mac =
     \<lparr>credit = c, focused = foc, ring = ring_new RING_CAP, agg = [], decoder = d, su_watch = su,
      macro_pending = mac, has_writer = True, written = [], macros = [], wire = [], loop_pc = LTop,
      decoded = [], out = [], announced = 0, discarded = 0\<rparr>"

lemma loop_start_inv:
  "loop_inv (loop_start c foc d su mac)" "subseq (in_loop (loop_start c foc d su mac)) (decoded (loop_start c foc d su mac))"
  "lost_only_broken (loop_start c foc d su mac)" "cap (ring (loop_start c foc d su mac)) = RING_CAP"
  by (simp_all add: loop_start_def loop_inv_def accounted_def in_loop_def ring_new_def lost_only_broken_def)

lemma foldl_push:
  "length (buf r) \<le> cap r \<Longrightarrow>
     buf (foldl push r ds) = drop (length (buf r @ concat ds) - cap r) (buf r @ concat ds) \<and>
     truncated (foldl push r ds) = truncated r + of_nat (length (buf r @ concat ds) - cap r)"
proof (induction ds arbitrary: r)
  case (Cons d ds)
  let ?r = "push r d" and ?n = "length (buf r @ d) - cap r"
  have spec: "buf ?r = drop ?n (buf r @ d)" "truncated ?r = truncated r + of_nat ?n" "cap ?r = cap r"
    using push_spec [OF Cons.prems] by blast+
  have IH: "buf (foldl push ?r ds) = drop (length (buf ?r @ concat ds) - cap r) (buf ?r @ concat ds) \<and>
      truncated (foldl push ?r ds) = truncated ?r + of_nat (length (buf ?r @ concat ds) - cap r)"
    using Cons.IH [of ?r] push_len [OF Cons.prems, of d] spec(3) by simp
  have n: "?n \<le> length (buf r @ d)" by simp
  then have cat: "buf ?r @ concat ds = drop ?n (buf r @ concat (d # ds))" by (simp add: spec(1))
  then have drop: "drop m (buf ?r @ concat ds) = drop (m + ?n) (buf r @ concat (d # ds))" for m
    by (simp only: drop_drop)
  have sum: "length (buf ?r @ concat ds) - cap r + ?n = length (buf r @ concat (d # ds)) - cap r"
    using n Cons.prems by (simp add: cat)
  have "drop (length (buf ?r @ concat ds) - cap r) (buf ?r @ concat ds) =
      drop (length (buf r @ concat (d # ds)) - cap r) (buf r @ concat (d # ds))"
    by (simp only: drop sum)
  moreover have "(of_nat ?n :: u64) + of_nat (length (buf ?r @ concat ds) - cap r) =
      of_nat (length (buf r @ concat (d # ds)) - cap r)"
    by (simp only: sum [symmetric] of_nat_add add.commute)
  ultimately show ?case using IH spec(2) by (simp add: add.assoc)
qed simp

text \<open>
  However output is cut into batches, the ring of a background tab holds exactly the
  newest bytes up to its capacity, and \<open>truncated\<close> counts every byte it gave up.
\<close>

theorem ring_keeps_newest:
  "buf (foldl push (ring_new c) ds) = drop (length (concat ds) - c) (concat ds) \<and>
   truncated (foldl push (ring_new c) ds) = of_nat (length (concat ds) - c)"
  using foldl_push [of "ring_new c" ds] by (simp add: ring_new_def)


definition pass :: "unit \<Rightarrow> u8 list \<Rightarrow> u8 list \<times> unit" where
  "pass d b = (b, d)"

definition fg_run :: "event list" where
  "fg_run = [Go True, Data 0 [1, 2], Go True, Timer, Go True, Go True]"

definition fg_end :: "(nat, unit) term_loop" where
  "fg_end = the (run_loop counter_sem pass fg_run (loop_start (credit_new counter_sem 7) True None None None))"

lemmas run_simps =
  loop_start_def progress_def loop_top_def ring_new_def ring_len_def on_data_def decode_append_def su_react_def
  AGG_CAP_def flush_def is_broken_def await_credit_def send_data_def send_frame_def alloc_frame_def
  acquire_credit_def try_acquire_credit_def checked_add_def credit_new_def counter_sem_def CREDIT_HIGH_def
  RING_CAP_def

lemma fg_end_run:
  "run_loop counter_sem pass fg_run (loop_start (credit_new counter_sem 7) True None None None) = Some fg_end"
  "out fg_end = [1, 2]" "loop_pc fg_end = LTop" "agg fg_end = []"
  by (simp_all add: fg_end_def fg_run_def run_simps Let_def)

lemma counter_never_closed: "never_closed counter_sem"
  by (simp add: never_closed_def counter_sem_def)


text \<open>
  Order: as long as no flush overtakes output that still waits in the ring, the bytes
  sent, followed by those still in the loop in the order they will go out, are a
  subsequence of the bytes read: background buffering, truncation and replay never
  reorder the terminal's output.
\<close>

theorem output_in_order_unless_overtaken:
  assumes "run_loop sm dec evs (loop_start c foc d su mac) = Some st"
    "\<not> run_overtakes sm dec evs (loop_start c foc d su mac)"
  shows "subseq (out st @ pc_buf (loop_pc st) @ buf (ring st) @ agg st) (decoded st)"
  using ordered_run [OF loop_start_inv(2,1) assms(2,1)] by (simp add: in_loop_def)

theorem output_in_order_unless_overtaken_witness:
  "\<not> run_overtakes counter_sem pass fg_run (loop_start (credit_new counter_sem 7) True None None None) \<and>
   subseq (out fg_end @ buf (ring fg_end)) (decoded fg_end)"
proof -
  have "\<not> run_overtakes counter_sem pass fg_run (loop_start (credit_new counter_sem 7) True None None None)"
    by (simp add: fg_run_def run_simps overtakes_def Let_def)
  with output_in_order_unless_overtaken [OF fg_end_run(1) this] fg_end_run show ?thesis by simp
qed

text \<open>
  A background tab whose credit runs out parks output \<open>a\<close> in the ring; when an ACK
  frees credit, the next flush sends the newer output \<open>b\<close> directly, and \<open>a\<close> follows only
  when the tab regains the focus. The terminal then shows \<open>b\<close> before \<open>a\<close>, although the
  program printed \<open>a\<close> first.
\<close>

theorem background_flush_overtakes_ring:
  fixes st :: "('s, 'd) term_loop"
  assumes start: "loop_pc st = LSelect" "\<not> focused st" "agg st = []" "decoder st = None" "su_watch st = None"
      "buf (ring st) = []" "truncated (ring st) = 0" "cap (ring st) = RING_CAP" "\<not> broken (credit st)"
    and sizes: "a \<noteq> []" "b \<noteq> []" "length a < RING_DRAIN_CHUNK" "length b < RING_DRAIN_CHUNK"
      "unat (sent_total (credit st)) + length a + length b < 2 ^ 64"
    and full: "sem_try sm (length a) (credits (credit st)) = None"
    and freed: "sem_try sm (length b) (credits (snd (ack sm e inc (credit st)))) = Some s1"
      "sem_acquire sm (length a) s1 = Some (Ok s2)"
  shows "\<exists>st'. run_loop sm dec [Data t a, Go True, Timer, Go True, Ack e inc, Go True, Data t b, Go True,
        Timer, Go True, SetFocus True, Go True, Go True, Go True] st = Some st' \<and>
      decoded st' = decoded st @ a @ b \<and> out st' = out st @ b @ a"
proof -
  let ?c = "snd (ack sm e inc (credit st))"
  let ?c1 = "?c\<lparr>credits := s1\<rparr>"
  have len: "unat (of_nat (length a) :: u32) = length a" "unat (of_nat (length b) :: u32) = length b"
    using sizes by (simp_all add: unat_of_nat RING_DRAIN_CHUNK_def)
  let ?c2 = "?c1\<lparr>frame_seq := frame_seq ?c1 + 1, sent_total := sent_total ?c1 + of_nat (length b)\<rparr>"
  let ?c3 = "?c2\<lparr>credits := s2\<rparr>"
  have alloc1: "\<exists>f. alloc_frame b ?c1 = (Some f, ?c2)"
    using alloc_frame_ok [of ?c1 b] start sizes by simp
  have "unat (sent_total ?c3) = unat (sent_total (credit st)) + length b"
    using sizes by (simp add: unat_word_ariths unat_of_nat)
  then have alloc2: "\<exists>f c. alloc_frame a ?c3 = (Some f, c)"
    using alloc_frame_ok [of ?c3 a] start sizes by simp
  have push: "push (ring st) a = (ring st)\<lparr>buf := a\<rparr>"
    using start sizes by (simp add: push_def Let_def RING_CAP_def RING_DRAIN_CHUNK_def)
  from alloc1 alloc2 start sizes full freed len push show ?thesis
    by (auto simp: progress_def loop_top_def ring_len_def on_data_def decode_append_def su_react_def
      AGG_CAP_def flush_def is_broken_def try_acquire_credit_def Let_def RING_DRAIN_CHUNK_def
      take_truncated_def drain_next_def pop_chunk_def await_credit_def acquire_credit_def send_data_def
      send_frame_def)
qed

definition parked :: "(nat, unit) term_loop" where
  "parked = (loop_start ((credit_new counter_sem 7)\<lparr>sent_total := 8388608, credits := 0\<rparr>)
     False None None None)\<lparr>loop_pc := LSelect\<rparr>"

theorem background_flush_overtakes_ring_witness:
  "\<exists>st'. run_loop counter_sem pass [Data 0 [1], Go True, Timer, Go True, Ack 7 10, Go True, Data 0 [2], Go True,
        Timer, Go True, SetFocus True, Go True, Go True, Go True] parked = Some st' \<and>
      decoded st' = [1, 2] \<and> out st' = [2, 1]"
  using background_flush_overtakes_ring [of parked "[1]" "[2]" counter_sem 7 10 9 8 pass 0]
  by (simp add: parked_def loop_start_def ring_new_def RING_DRAIN_CHUNK_def credit_new_def counter_sem_def
      ack_def is_broken_def ack_newly_def saturating_sub_def)

text \<open>
  The \<open>su\<close> password is written at most once per shell, whatever the remote side
  prints: a loop armed with a password answers the first prompt before the deadline and
  never answers another one.
\<close>

theorem su_password_at_most_once:
  assumes "run_loop sm dec evs (loop_start c foc d su mac) = Some st"
  shows "length (written st) \<le> (case su of Some w \<Rightarrow> if answered w then 0 else 1 | None \<Rightarrow> 0)"
  using run_loop_armed [OF assms] by (simp add: loop_start_def armed_def)

definition su_run :: "event list" where
  "su_run = [Go True, Data 5 [80, 97, 115, 115, 119, 111, 114, 100, 58], Go True,
     Data 6 [80, 97, 115, 115, 119, 111, 114, 100, 58]]"

definition su_armed :: SuWatch where
  "su_armed = \<lparr>password = Some [120], deadline = 30, answered = False\<rparr>"

theorem su_password_at_most_once_witness:
  "\<exists>st. run_loop counter_sem pass su_run (loop_start (credit_new counter_sem 7) True None (Some su_armed) None) = Some st \<and>
     written st = [[120, 13]] \<and> length (written st) \<le> 1"
proof -
  have "is_password_prompt [80, 97, 115, 115, 119, 111, 114, 100, 58]" by code_simp
  then obtain st where st: "run_loop counter_sem pass su_run
      (loop_start (credit_new counter_sem 7) True None (Some su_armed) None) = Some st" "written st = [[120, 13]]"
    by (simp add: su_run_def su_armed_def run_simps Let_def)
  from su_password_at_most_once [OF st(1)] st show ?thesis by (simp add: su_armed_def)
qed

end
