(* ===== verification/Ssh_Error.thy ===== *)
theory Ssh_Error
  imports Rust_Text
begin

text \<open>
  The errors of the SSH crate, \<^verbatim>\<open>src/crates/core-ssh/src/error.rs\<close>, with their texts (in ASCII)
  and the class that decides whether a lost connection is tried again. \<open>russh::Error\<close> is
  reduced to the cases the conversion tells apart.
\<close>

datatype SshError =
    Connect string string
  | ConnectTimeout string
  | Disconnected string
  | HostKeyRejectedError string string
  | HostKeyChanged string
  | HostKeyStore string string
  | AuthFailedError string string string
  | CredentialUnavailable string
  | UnsupportedAuth string
  | ChannelOpen string string
  | ChannelRejected string string
  | ChannelIo string
  | Internal string

fun ssh_str :: "SshError \<Rightarrow> string" where
  "ssh_str (Connect target source) = ''E1001 connect '' @ target @ '': '' @ source"
| "ssh_str (ConnectTimeout target) = ''E1002 timeout '' @ target"
| "ssh_str (Disconnected reason) = ''E1003 disconnected: '' @ reason"
| "ssh_str (HostKeyRejectedError host detail) = ''E1004 host key rejected '' @ host @ '': '' @ detail"
| "ssh_str (HostKeyChanged host) = ''E1005 host key changed '' @ host"
| "ssh_str (HostKeyStore host detail) = ''E1006 known_hosts '' @ host @ '': '' @ detail"
| "ssh_str (AuthFailedError user host method) = ''E2001 login failed '' @ user @ ''@'' @ host @ '' ('' @ method @ '')''"
| "ssh_str (CredentialUnavailable e) = ''E2002 credential unavailable: '' @ e"
| "ssh_str (UnsupportedAuth m) = ''E2003 unsupported method: '' @ m"
| "ssh_str (ChannelOpen kind reason) = ''E3001 channel '' @ kind @ '': '' @ reason"
| "ssh_str (ChannelRejected kind reason) = ''E3002 channel rejected '' @ kind @ '': '' @ reason"
| "ssh_str (ChannelIo e) = ''E3003 channel io: '' @ e"
| "ssh_str (Internal e) = ''E3004 internal: '' @ e"

datatype ReconnectClass = Retryable | AuthFailed | HostKeyRejected

fun reconnect_class :: "SshError \<Rightarrow> ReconnectClass" where
  "reconnect_class (AuthFailedError _ _ _) = AuthFailed"
| "reconnect_class (CredentialUnavailable _) = AuthFailed"
| "reconnect_class (UnsupportedAuth _) = AuthFailed"
| "reconnect_class (HostKeyRejectedError _ _) = HostKeyRejected"
| "reconnect_class (HostKeyChanged _) = HostKeyRejected"
| "reconnect_class _ = Retryable"

datatype russh_error = RusshIO string | RusshDisconnect | RusshTimeout | RusshOther string

fun from_russh :: "russh_error \<Rightarrow> SshError" where
  "from_russh (RusshIO e) = Connect [] e"
| "from_russh RusshDisconnect = Disconnected ''peer disconnect''"
| "from_russh RusshTimeout = ConnectTimeout []"
| "from_russh (RusshOther e) = Internal e"

end
