(* ===== verification/Ssh_Connect.thy ===== *)
theory Ssh_Connect
  imports Ssh_Error
begin

text \<open>
  Making an SSH connection: \<^verbatim>\<open>src/crates/core-ssh/src/hostkey.rs\<close>, the known hosts and the
  decision on a server key; \<open>connect\<close>, \<open>authenticate\<close> and \<open>check_server_key\<close> of
  \<^verbatim>\<open>src/crates/core-ssh/src/connection.rs\<close>; \<^verbatim>\<open>src/crates/core-ssh/src/auth.rs\<close>; and the policy
  for connections nobody watches in \<^verbatim>\<open>src/crates/app/src/connect.rs\<close>.

  The functions of russh that read and write known\_hosts lines are arguments. The network is
  the list of \<open>leg\<close>s of a connection: how the handshake with a host goes up to its key and
  after it, how the login ends, and how the channel to the next host opens. russh fails a
  handshake whose key the handler does not accept. The methods of \<open>AuthMethod\<close> carry no secrets
  in the model: the answer of the other side is an event.
\<close>

section \<open>Known hosts\<close>

datatype HostKeyPrompt = PromptUnknown string u16 string string | PromptChanged string u16 string string string

datatype HostKeyDecision = Learn | AcceptOnce | Reject

datatype HostKeyStatus = Trusted | UnknownHost | Changed string

datatype HostKeyCheck = AcceptAll | KnownHosts "HostKeyPrompt \<Rightarrow> HostKeyDecision"

datatype kh_answer = KhKnown bool | KhChanged | KhError string

text \<open>The file, \<open>None\<close> when it is missing, and the errors of reading and writing it.\<close>

record known_hosts =
  kh_file :: "string option"
  kh_read_error :: "string option"
  kh_write_error :: "string option"

record russh_keys =
  rk_check :: "string option \<Rightarrow> string \<Rightarrow> u16 \<Rightarrow> string \<Rightarrow> kh_answer"
  rk_first_key :: "string option \<Rightarrow> string \<Rightarrow> u16 \<Rightarrow> string option"
  rk_learn :: "string option \<Rightarrow> string \<Rightarrow> u16 \<Rightarrow> string \<Rightarrow> (string, string) result"
  rk_fingerprint :: "string \<Rightarrow> string"
  rk_algorithm :: "string \<Rightarrow> string"

definition host_port :: "string \<Rightarrow> u16 \<Rightarrow> string" where
  "host_port host port = host @ '':'' @ show_nat (unat port)"

definition evaluate :: "russh_keys \<Rightarrow> string \<Rightarrow> u16 \<Rightarrow> string \<Rightarrow> known_hosts \<Rightarrow> (SshError, HostKeyStatus) result" where
  "evaluate lib host port key kh =
     (case rk_check lib (kh_file kh) host port key of
        KhKnown True \<Rightarrow> Ok Trusted
      | KhKnown False \<Rightarrow> Ok UnknownHost
      | KhChanged \<Rightarrow>
          Ok (Changed (case rk_first_key lib (kh_file kh) host port of
                         Some k \<Rightarrow> rk_fingerprint lib k
                       | None \<Rightarrow> ''<no old fingerprint>''))
      | KhError e \<Rightarrow> Err (HostKeyRejectedError (host_port host port) e))"

text \<open>\<open>str::lines\<close>: the pieces that end in a line feed, less a carriage return before it, and an unfinished last one.\<close>

definition strip_cr :: "string \<Rightarrow> string" where
  "strip_cr l = (if l \<noteq> [] \<and> last l = CHR 0x0D then butlast l else l)"

definition lines_of :: "string \<Rightarrow> string list" where
  "lines_of s =
     (let ps = split_on CHR 0x0A s
      in map strip_cr (butlast ps) @ (if last ps = [] then [] else [last ps]))"

definition host_pattern :: "string \<Rightarrow> u16 \<Rightarrow> string" where
  "host_pattern host port = (if port = 22 then host else ''['' @ host @ '']:'' @ show_nat (unat port))"

definition names_host :: "string \<Rightarrow> string \<Rightarrow> bool" where
  "names_host want line =
     (let first = (case split_whitespace line of [] \<Rightarrow> [] | w # _ \<Rightarrow> w)
      in \<not> starts_with first ''|'' \<and> want \<in> set (split_on CHR '','' first))"

definition kept_text :: "string list \<Rightarrow> string" where
  "kept_text kept = (let out = join [CHR 0x0A] kept in if out = [] then [] else out @ [CHR 0x0A])"

definition remove_host_keys :: "string \<Rightarrow> u16 \<Rightarrow> known_hosts \<Rightarrow> (SshError, nat) result \<times> known_hosts" where
  "remove_host_keys host port kh =
     (case kh_read_error kh of
        Some e \<Rightarrow> (Err (HostKeyStore (host_port host port) e), kh)
      | None \<Rightarrow>
          (case kh_file kh of
             None \<Rightarrow> (Ok 0, kh)
           | Some content \<Rightarrow>
               (let want = host_pattern host port;
                    kept = filter (\<lambda>l. \<not> names_host want l) (lines_of content);
                    removed = length (lines_of content) - length kept
                in if removed = 0 then (Ok 0, kh)
                   else case kh_write_error kh of
                          Some e \<Rightarrow> (Err (HostKeyStore (host_port host port) e), kh)
                        | None \<Rightarrow> (Ok removed, kh\<lparr>kh_file := Some (kept_text kept)\<rparr>))))"

definition learn :: "russh_keys \<Rightarrow> string \<Rightarrow> u16 \<Rightarrow> string \<Rightarrow> known_hosts \<Rightarrow> (SshError, unit) result \<times> known_hosts" where
  "learn lib host port key kh =
     (case rk_learn lib (kh_file kh) host port key of
        Inl e \<Rightarrow> (Err (HostKeyStore (host_port host port) e), kh)
      | Inr content \<Rightarrow> (Ok (), kh\<lparr>kh_file := Some content\<rparr>))"

definition prompt_for :: "russh_keys \<Rightarrow> string \<Rightarrow> u16 \<Rightarrow> string \<Rightarrow> HostKeyStatus \<Rightarrow> HostKeyPrompt" where
  "prompt_for lib host port key st =
     (case st of
        Changed old \<Rightarrow> PromptChanged host port (rk_algorithm lib key) old (rk_fingerprint lib key)
      | _ \<Rightarrow> PromptUnknown host port (rk_algorithm lib key) (rk_fingerprint lib key))"

definition check_server_key :: "russh_keys \<Rightarrow> HostKeyCheck \<Rightarrow> string \<Rightarrow> u16 \<Rightarrow> string \<Rightarrow> known_hosts \<Rightarrow> bool \<times> known_hosts" where
  "check_server_key lib check host port key kh =
     (case check of
        AcceptAll \<Rightarrow> (True, kh)
      | KnownHosts prompter \<Rightarrow>
          (case evaluate lib host port key kh of
             Inl _ \<Rightarrow> (False, kh)
           | Inr Trusted \<Rightarrow> (True, kh)
           | Inr st \<Rightarrow>
               (case prompter (prompt_for lib host port key st) of
                  Learn \<Rightarrow>
                    (case remove_host_keys host port kh of
                       (Inl _, kh1) \<Rightarrow> (True, kh1)
                     | (Inr _, kh1) \<Rightarrow> (True, snd (learn lib host port key kh1)))
                | AcceptOnce \<Rightarrow> (True, kh)
                | Reject \<Rightarrow> (False, kh))))"

section \<open>Login\<close>

datatype AuthMethod = NoAuth | Password | PublicKey | KeyboardInteractive | Agent

fun auth_name :: "AuthMethod \<Rightarrow> string" where
  "auth_name NoAuth = ''none''"
| "auth_name Password = ''password''"
| "auth_name PublicKey = ''publickey''"
| "auth_name KeyboardInteractive = ''keyboard-interactive''"
| "auth_name Agent = ''agent''"

text \<open>
  What the other side and the user answer: the reply to a request or its transport error,
  a key that does not parse, the rounds of a dialogue, and the identities of an agent.
\<close>

datatype ki_round = KiSuccess | KiFailure | KiAnswered | KiCancelled | KiBroken

datatype auth_answer =
    AuthReply bool
  | AuthBroken string
  | KeyUnreadable string
  | KiRounds "ki_round list"
  | AgentMissing string
  | AgentTried "bool list"

text \<open>The loop of \<open>auth_keyboard_interactive\<close>; a connection that says nothing more is broken.\<close>

fun ki_loop :: "SshError \<Rightarrow> ki_round list \<Rightarrow> (SshError, unit) result" where
  "ki_loop failed [] = Err failed"
| "ki_loop failed (KiSuccess # _) = Ok ()"
| "ki_loop failed (KiFailure # _) = Err failed"
| "ki_loop failed (KiAnswered # rs) = ki_loop failed rs"
| "ki_loop failed (KiCancelled # _) = Err (CredentialUnavailable ''cancelled'')"
| "ki_loop failed (KiBroken # _) = Err failed"

record JumpHop =
  jh_host :: string
  jh_port :: u16
  jh_user :: string
  jh_auth :: AuthMethod

record ConnectOptions =
  co_host :: string
  co_port :: u16
  co_user :: string
  co_auth :: AuthMethod
  co_jump_chain :: "JumpHop list"
  co_window_size :: u32
  co_check :: HostKeyCheck
  co_ki_prompter :: bool

definition authenticate :: "bool \<Rightarrow> JumpHop \<Rightarrow> auth_answer \<Rightarrow> (SshError, unit) result" where
  "authenticate ki_prompter h a =
     (let failed = AuthFailedError (jh_user h) (host_port (jh_host h) (jh_port h)) (auth_name (jh_auth h));
          reply = (\<lambda>ok. if ok then Ok () else Err failed)
      in case jh_auth h of
           PublicKey \<Rightarrow>
             (case a of
                KeyUnreadable e \<Rightarrow> Err (CredentialUnavailable e)
              | AuthBroken e \<Rightarrow> Err (CredentialUnavailable e)
              | AuthReply ok \<Rightarrow> reply ok
              | _ \<Rightarrow> Err failed)
         | KeyboardInteractive \<Rightarrow>
             if \<not> ki_prompter then Err (CredentialUnavailable ''no prompter'')
             else (case a of KiRounds rs \<Rightarrow> ki_loop failed rs | _ \<Rightarrow> Err failed)
         | Agent \<Rightarrow>
             (case a of
                AgentMissing e \<Rightarrow> Err (CredentialUnavailable e)
              | AgentTried oks \<Rightarrow> reply (True \<in> set oks)
              | _ \<Rightarrow> Err failed)
         | _ \<Rightarrow> (case a of AuthReply ok \<Rightarrow> reply ok | _ \<Rightarrow> Err failed))"

section \<open>Connecting\<close>

datatype after_key = KexDone | KexFail string | KexTimeout

datatype handshake_answer = HsTimeout | HsFail string | HsKey string after_key

datatype channel_answer = ChTimeout | ChFail string | ChOpened

record leg =
  lg_handshake :: handshake_answer
  lg_auth :: auth_answer
  lg_channel :: channel_answer

definition handshake :: "russh_keys \<Rightarrow> HostKeyCheck \<Rightarrow> JumpHop \<Rightarrow> handshake_answer \<Rightarrow> known_hosts \<Rightarrow> (SshError, unit) result \<times> known_hosts" where
  "handshake lib check h hs kh =
     (let target = host_port (jh_host h) (jh_port h)
      in case hs of
           HsTimeout \<Rightarrow> (Err (ConnectTimeout target), kh)
         | HsFail e \<Rightarrow> (Err (Connect target e), kh)
         | HsKey key after \<Rightarrow>
             (let (ok, kh) = check_server_key lib check (jh_host h) (jh_port h) key kh
              in if \<not> ok then (Err (Connect target ''Unknown server key''), kh)
                 else (case after of
                         KexDone \<Rightarrow> (Ok (), kh)
                       | KexFail e \<Rightarrow> (Err (Connect target e), kh)
                       | KexTimeout \<Rightarrow> (Err (ConnectTimeout target), kh))))"

definition enter_host :: "russh_keys \<Rightarrow> HostKeyCheck \<Rightarrow> bool \<Rightarrow> JumpHop \<Rightarrow> leg \<Rightarrow> known_hosts \<Rightarrow> (SshError, unit) result \<times> known_hosts" where
  "enter_host lib check ki h l kh =
     (case handshake lib check h (lg_handshake l) kh of
        (Inl e, kh) \<Rightarrow> (Err e, kh)
      | (Inr _, kh) \<Rightarrow> (authenticate ki h (lg_auth l), kh))"

definition open_next :: "JumpHop \<Rightarrow> channel_answer \<Rightarrow> (SshError, unit) result" where
  "open_next h c =
     (case c of
        ChTimeout \<Rightarrow> Err (ConnectTimeout (host_port (jh_host h) (jh_port h)))
      | ChFail e \<Rightarrow> Err (ChannelOpen ''direct-tcpip'' e)
      | ChOpened \<Rightarrow> Ok ())"

text \<open>The hops in turn, then the target; a network that ends before the connection stands is a time-out.\<close>

fun connect_hops :: "russh_keys \<Rightarrow> HostKeyCheck \<Rightarrow> bool \<Rightarrow> JumpHop \<Rightarrow> JumpHop list \<Rightarrow> leg list \<Rightarrow> known_hosts \<Rightarrow> (SshError, unit) result \<times> known_hosts" where
  "connect_hops lib check ki target hops [] kh = (Err (ConnectTimeout (host_port (jh_host target) (jh_port target))), kh)"
| "connect_hops lib check ki target [] (l # ls) kh = enter_host lib check ki target l kh"
| "connect_hops lib check ki target (h # hops) (l # ls) kh =
     (case enter_host lib check ki h l kh of
        (Inl e, kh) \<Rightarrow> (Err e, kh)
      | (Inr _, kh) \<Rightarrow>
          (case open_next h (lg_channel l) of
             Inl e \<Rightarrow> (Err e, kh)
           | Inr _ \<Rightarrow> connect_hops lib check ki target hops ls kh))"

definition target_of :: "ConnectOptions \<Rightarrow> JumpHop" where
  "target_of opts = \<lparr>jh_host = co_host opts, jh_port = co_port opts, jh_user = co_user opts, jh_auth = co_auth opts\<rparr>"

definition ssh_connect :: "russh_keys \<Rightarrow> ConnectOptions \<Rightarrow> leg list \<Rightarrow> known_hosts \<Rightarrow> (SshError, unit) result \<times> known_hosts" where
  "ssh_connect lib opts legs kh =
     connect_hops lib (co_check opts) (co_ki_prompter opts) (target_of opts) (co_jump_chain opts) legs kh"

section \<open>Connections in the background\<close>

datatype ConnectProfile = Throughput | Control

fun window_size :: "ConnectProfile \<Rightarrow> u32" where
  "window_size Throughput = 16 * 1024 * 1024"
| "window_size Control = 4 * 1024 * 1024"

datatype AuthSpec = AsPassword string | AsPublicKey string "string option" | AsKeyboardInteractive | AsAgent

record JumpHopSpec =
  js_host :: string
  js_port :: u16
  js_user :: string
  js_auth :: AuthSpec

record TermOpenSpec =
  to_host :: string
  to_port :: u16
  to_user :: string
  to_auth :: AuthSpec
  to_jump_chain :: "JumpHopSpec list"
  to_term :: "string option"
  to_command :: "string option"
  to_encoding :: string
  to_su_user :: "string option"
  to_su_password :: "string option"
  to_login_macro :: "string option"

fun auth_method_from :: "AuthSpec \<Rightarrow> AuthMethod" where
  "auth_method_from (AsPassword _) = Password"
| "auth_method_from (AsPublicKey _ _) = PublicKey"
| "auth_method_from AsKeyboardInteractive = KeyboardInteractive"
| "auth_method_from AsAgent = Agent"

definition jump_chain_from :: "JumpHopSpec list \<Rightarrow> JumpHop list" where
  "jump_chain_from chain =
     map (\<lambda>h. \<lparr>jh_host = js_host h, jh_port = js_port h, jh_user = js_user h, jh_auth = auth_method_from (js_auth h)\<rparr>) chain"

definition reject_background_ki :: "TermOpenSpec \<Rightarrow> (SshError, unit) result" where
  "reject_background_ki spec =
     (if to_auth spec = AsKeyboardInteractive \<or> list_ex (\<lambda>h. js_auth h = AsKeyboardInteractive) (to_jump_chain spec)
      then Err (UnsupportedAuth ''keyboard-interactive in the background'') else Ok ())"

definition background_host_key_check :: HostKeyCheck where
  "background_host_key_check = KnownHosts (\<lambda>_. Reject)"

definition background_options :: "TermOpenSpec \<Rightarrow> ConnectProfile \<Rightarrow> ConnectOptions" where
  "background_options spec profile =
     \<lparr>co_host = to_host spec, co_port = to_port spec, co_user = to_user spec, co_auth = auth_method_from (to_auth spec),
      co_jump_chain = jump_chain_from (to_jump_chain spec), co_window_size = window_size profile, co_check = background_host_key_check,
      co_ki_prompter = False\<rparr>"

definition background :: "russh_keys \<Rightarrow> TermOpenSpec \<Rightarrow> ConnectProfile \<Rightarrow> leg list \<Rightarrow> known_hosts \<Rightarrow> (SshError, unit) result \<times> known_hosts" where
  "background lib spec profile legs kh =
     (case reject_background_ki spec of
        Inl e \<Rightarrow> (Err e, kh)
      | Inr _ \<Rightarrow> ssh_connect lib (background_options spec profile) legs kh)"

section \<open>What is left of the known hosts\<close>

lemma split_on_sepless: "c \<notin> set p \<Longrightarrow> split_on c p = [p]"
  by (induction p) auto

lemma split_on_append_sep: "c \<notin> set p \<Longrightarrow> split_on c (p @ c # s) = p # split_on c s"
  by (induction p) auto

lemma split_on_join:
  assumes "ps \<noteq> []" "\<forall>p \<in> set ps. c \<notin> set p"
  shows "split_on c (join [c] ps) = ps"
  using assms by (induction "[c]" ps rule: join.induct) (auto simp: split_on_sepless split_on_append_sep)

lemma join_snoc_Nil: "ps \<noteq> [] \<Longrightarrow> join [c] (ps @ [[]]) = join [c] ps @ [c]"
  by (induction "[c]" ps rule: join.induct) auto

lemma strip_cr_plain: "CHR 0x0D \<notin> set l \<Longrightarrow> strip_cr l = l"
  by (auto simp: strip_cr_def dest: last_in_set)

lemma set_split_on: "p \<in> set (split_on c s) \<Longrightarrow> set p \<subseteq> set s"
  by (induction s arbitrary: p) (fastforce split: list.splits if_splits)+

lemma lines_of_plain:
  assumes "l \<in> set (lines_of s)" "CHR 0x0D \<notin> set s"
  shows "CHR 0x0A \<notin> set l \<and> CHR 0x0D \<notin> set l"
proof -
  let ?ps = "split_on CHR 0x0A s"
  have no_cr: "CHR 0x0D \<notin> set p" if "p \<in> set ?ps" for p
    using set_split_on [OF that] assms(2) by auto
  have "l \<in> set ?ps"
    using assms(1) no_cr
    by (auto simp: lines_of_def Let_def strip_cr_plain dest: in_set_butlastD last_in_set split: if_splits)
  then show ?thesis using no_cr split_on_no_sep by blast
qed

lemma join_eq_Nil_iff: "join [c] ps = [] \<longleftrightarrow> ps = [] \<or> ps = [[]]"
  by (induction "[c]" ps rule: join.induct) auto

text \<open>Lines that are written and read again are the same lines, but for a lone blank one.\<close>

lemma lines_of_kept_text:
  assumes "\<forall>l \<in> set kept. CHR 0x0A \<notin> set l \<and> CHR 0x0D \<notin> set l"
  shows "lines_of (kept_text kept) = (if kept = [[]] then [] else kept)"
proof (cases "kept = [] \<or> kept = [[]]")
  case True
  then show ?thesis by (auto simp: kept_text_def lines_of_def)
next
  case False
  then have "kept_text kept = join [CHR 0x0A] (kept @ [[]])"
    by (simp add: kept_text_def Let_def join_eq_Nil_iff join_snoc_Nil)
  moreover have "split_on CHR 0x0A (join [CHR 0x0A] (kept @ [[]])) = kept @ [[]]"
    using assms by (intro split_on_join) auto
  moreover have "map strip_cr kept = kept"
    using assms by (intro map_idI) (simp add: strip_cr_plain)
  ultimately show ?thesis using False by (simp add: lines_of_def Let_def)
qed

text \<open>
  Removing the keys of a host from a file without carriage returns: exactly the lines that
  name the host in plain text are gone, and as many are reported; every other entry is kept,
  in order.
\<close>

theorem remove_host_keys_keeps_others:
  assumes "remove_host_keys host port kh = (Ok n, kh')"
    and "kh_file kh = Some content" "CHR 0x0D \<notin> set content"
  shows "n = length (filter (names_host (host_pattern host port)) (lines_of content)) \<and>
         (\<exists>content'. kh_file kh' = Some content' \<and>
            filter (\<lambda>l. l \<noteq> []) (lines_of content') =
            filter (\<lambda>l. l \<noteq> [] \<and> \<not> names_host (host_pattern host port) l) (lines_of content))"
proof -
  let ?named = "names_host (host_pattern host port)"
  let ?kept = "filter (\<lambda>l. \<not> ?named l) (lines_of content)"
  have count: "length (lines_of content) - length ?kept = length (filter ?named (lines_of content))"
    using sum_length_filter_compl [of ?named "lines_of content"] by simp
  have "lines_of (kept_text ?kept) = (if ?kept = [[]] then [] else ?kept)"
    by (rule lines_of_kept_text) (use lines_of_plain assms(3) in auto)
  then have kept: "filter (\<lambda>l. l \<noteq> []) (lines_of (kept_text ?kept)) = filter (\<lambda>l. l \<noteq> []) ?kept"
    by (simp del: filter_filter)
  show ?thesis
  proof (cases "filter ?named (lines_of content) = []")
    case True
    then have "?kept = lines_of content" by (auto simp: filter_empty_conv filter_id_conv)
    then show ?thesis
      using assms True by (auto simp: remove_host_keys_def Let_def filter_empty_conv split: option.splits if_splits intro!: filter_cong)
  next
    case False
    then have "kh' = kh\<lparr>kh_file := Some (kept_text ?kept)\<rparr>" "n = length (filter ?named (lines_of content))"
      using assms count by (auto simp: remove_host_keys_def Let_def split: option.splits if_splits)
    then show ?thesis using kept by (auto simp: filter_filter conj_commute)
  qed
qed

theorem remove_host_keys_keeps_others_witness:
  "let content = ''a,b k1'' @ [CHR 0x0A] @ ''|1|h k2'' @ [CHR 0x0A] @ ''c k3'';
       kh = \<lparr>kh_file = Some content, kh_read_error = None, kh_write_error = None\<rparr>;
       (r, kh') = remove_host_keys ''b'' 22 kh
   in r = Ok 1 \<and> length (filter (names_host (host_pattern ''b'' 22)) (lines_of content)) = 1 \<and>
      kh_file kh' = Some (''|1|h k2'' @ [CHR 0x0A] @ ''c k3'' @ [CHR 0x0A])"
proof -
  let ?content = "''a,b k1'' @ [CHR 0x0A] @ ''|1|h k2'' @ [CHR 0x0A] @ ''c k3''"
  let ?kh = "\<lparr>kh_file = Some ?content, kh_read_error = None, kh_write_error = None\<rparr>"
  let ?new = "''|1|h k2'' @ [CHR 0x0A] @ ''c k3'' @ [CHR 0x0A]"
  have r: "remove_host_keys ''b'' 22 ?kh = (Ok 1, ?kh\<lparr>kh_file := Some ?new\<rparr>)"
    by code_simp
  have "1 = length (filter (names_host (host_pattern ''b'' 22)) (lines_of ?content))"
    using remove_host_keys_keeps_others [OF r, of ?content] by simp
  with r show ?thesis by (simp add: Let_def)
qed

section \<open>Which keys a connection accepts\<close>

definition trusted_leg :: "russh_keys \<Rightarrow> known_hosts \<Rightarrow> JumpHop \<Rightarrow> leg \<Rightarrow> bool" where
  "trusted_leg lib kh h l \<longleftrightarrow>
     (case lg_handshake l of
        HsKey key KexDone \<Rightarrow> evaluate lib (jh_host h) (jh_port h) key kh = Ok Trusted
      | _ \<Rightarrow> False)"

lemma background_key:
  "check_server_key lib background_host_key_check host port key kh =
     (evaluate lib host port key kh = Ok Trusted, kh)"
  by (auto simp: check_server_key_def background_host_key_check_def split: sum.splits HostKeyStatus.splits)

lemma background_handshake:
  "snd (handshake lib background_host_key_check h hs kh) = kh"
  "fst (handshake lib background_host_key_check h hs kh) = Ok () \<longleftrightarrow>
     (\<exists>key. hs = HsKey key KexDone \<and> evaluate lib (jh_host h) (jh_port h) key kh = Ok Trusted)"
  by (auto simp: handshake_def Let_def background_key split: handshake_answer.splits after_key.splits)

lemma background_enter_host:
  "snd (enter_host lib background_host_key_check ki h l kh) = kh"
  "fst (enter_host lib background_host_key_check ki h l kh) = Ok () \<Longrightarrow> trusted_leg lib kh h l"
  using background_handshake [of lib h "lg_handshake l" kh]
  by (auto simp: enter_host_def trusted_leg_def split: prod.splits sum.splits)

lemma background_hops:
  "snd (connect_hops lib background_host_key_check ki target hops legs kh) = kh \<and>
   (fst (connect_hops lib background_host_key_check ki target hops legs kh) = Ok () \<longrightarrow>
      list_all2 (trusted_leg lib kh) (hops @ [target]) (take (Suc (length hops)) legs))"
proof (induction lib background_host_key_check ki target hops legs kh rule: connect_hops.induct)
  case (2 lib ki target l ls kh)
  then show ?case using background_enter_host [of lib ki target l kh] by auto
next
  case (3 lib ki target h hops l ls kh)
  then show ?case using background_enter_host [of lib ki h l kh]
    by (auto split: prod.splits sum.splits)
qed simp

text \<open>
  C12. A connection made in the background never writes the known hosts, and when it stands every
  host on the way, the jump hosts and the target, has shown a key the file already trusts.
\<close>

theorem background_fails_closed:
  assumes "background lib spec profile legs kh = (r, kh')"
  shows "kh' = kh \<and>
         (r = Ok () \<longrightarrow>
            list_all2 (trusted_leg lib kh)
              (jump_chain_from (to_jump_chain spec) @ [target_of (background_options spec profile)])
              (take (Suc (length (to_jump_chain spec))) legs))"
  using assms background_hops [of lib False "target_of (background_options spec profile)" "jump_chain_from (to_jump_chain spec)" legs kh]
  by (auto simp: background_def ssh_connect_def background_options_def jump_chain_from_def split: sum.splits)

definition plain_spec :: "JumpHopSpec list \<Rightarrow> TermOpenSpec" where
  "plain_spec chain =
     \<lparr>to_host = ''t'', to_port = 22, to_user = ''u'', to_auth = AsPassword ''p'', to_jump_chain = chain, to_term = None,
      to_command = None, to_encoding = ''utf-8'', to_su_user = None, to_su_password = None, to_login_macro = None\<rparr>"

theorem background_fails_closed_witness:
  "let lib = \<lparr>rk_check = (\<lambda>f h p k. if f = Some k then KhKnown True else KhKnown False), rk_first_key = (\<lambda>_ _ _. None),
               rk_learn = (\<lambda>_ _ _ k. Ok k), rk_fingerprint = id, rk_algorithm = id\<rparr>;
       kh = \<lparr>kh_file = Some ''k'', kh_read_error = None, kh_write_error = None\<rparr>;
       l = \<lparr>lg_handshake = HsKey ''k'' KexDone, lg_auth = AuthReply True, lg_channel = ChOpened\<rparr>;
       spec = plain_spec [\<lparr>js_host = ''j'', js_port = 22, js_user = ''u'', js_auth = AsAgent\<rparr>];
       l1 = l\<lparr>lg_auth := AgentTried [False, True]\<rparr>
   in background lib spec Control [l1, l] kh = (Ok (), kh) \<and>
      trusted_leg lib kh (target_of (background_options spec Control)) l \<and>
      fst (background lib spec Control [l1, l] (kh\<lparr>kh_file := None\<rparr>)) \<noteq> Ok ()"
proof -
  let ?lib = "\<lparr>rk_check = (\<lambda>f h p k. if f = Some k then KhKnown True else KhKnown False), rk_first_key = (\<lambda>_ _ _. None),
               rk_learn = (\<lambda>_ _ _ k. Ok k), rk_fingerprint = id, rk_algorithm = id\<rparr>"
  let ?kh = "\<lparr>kh_file = Some ''k'', kh_read_error = None, kh_write_error = None\<rparr>"
  let ?l = "\<lparr>lg_handshake = HsKey ''k'' KexDone, lg_auth = AuthReply True, lg_channel = ChOpened\<rparr>"
  let ?l1 = "?l\<lparr>lg_auth := AgentTried [False, True]\<rparr>"
  let ?spec = "plain_spec [\<lparr>js_host = ''j'', js_port = 22, js_user = ''u'', js_auth = AsAgent\<rparr>]"
  note ev = background_def reject_background_ki_def ssh_connect_def background_options_def enter_host_def
    handshake_def check_server_key_def background_host_key_check_def evaluate_def authenticate_def open_next_def target_of_def Let_def
    jump_chain_from_def plain_spec_def
  have r: "background ?lib ?spec Control [?l1, ?l] ?kh = (Ok (), ?kh)"
    by (simp add: ev)
  have "fst (background ?lib ?spec Control [?l1, ?l] (?kh\<lparr>kh_file := None\<rparr>)) \<noteq> Ok ()"
    by (simp add: ev)
  with r background_fails_closed [OF r] show ?thesis by (simp add: Let_def jump_chain_from_def plain_spec_def)
qed

section \<open>How a failed connection is classed\<close>

lemma handshake_class:
  "handshake lib check h hs kh = (Err e, kh') \<Longrightarrow> reconnect_class e = Retryable"
  by (auto simp: handshake_def Let_def split: handshake_answer.splits after_key.splits prod.splits if_splits)

lemma ki_loop_class:
  "ki_loop failed rs = Err e \<Longrightarrow> reconnect_class failed = AuthFailed \<Longrightarrow> reconnect_class e = AuthFailed"
  by (induction failed rs rule: ki_loop.induct) auto

lemma authenticate_class:
  "authenticate ki h a = Err e \<Longrightarrow> reconnect_class e = AuthFailed"
  by (auto simp: authenticate_def Let_def split: AuthMethod.splits auth_answer.splits if_splits dest: ki_loop_class)

lemma open_next_class: "open_next h c = Err e \<Longrightarrow> reconnect_class e = Retryable"
  by (auto simp: open_next_def split: channel_answer.splits)

lemma connect_hops_class:
  "connect_hops lib check ki target hops legs kh = (Err e, kh') \<Longrightarrow> reconnect_class e \<noteq> HostKeyRejected"
proof (induction lib check ki target hops legs kh rule: connect_hops.induct)
  case (2 lib check ki target l ls kh)
  then show ?case
    by (auto simp: enter_host_def split: prod.splits sum.splits dest!: handshake_class authenticate_class)
next
  case (3 lib check ki target h hops l ls kh)
  then show ?case
    by (auto simp: enter_host_def split: prod.splits sum.splits dest!: handshake_class authenticate_class open_next_class)
qed auto

text \<open>No failure of \<open>SshConnection::connect\<close> is ever classed as a rejected host key.\<close>

lemma ssh_connect_class:
  "ssh_connect lib opts legs kh = (Err e, kh') \<Longrightarrow> reconnect_class e \<noteq> HostKeyRejected"
  unfolding ssh_connect_def by (rule connect_hops_class)

end
