(* ===== verification/Term_Session.thy ===== *)
theory Term_Session
  imports Ssh_Connect
begin

text \<open>
  The terminal tabs: the table of sessions with its commands
  (\<^verbatim>\<open>src/crates/app/src/terminal.rs\<close>), and the supervisor of a tab, which starts the shell,
  waits for the read loop to end and connects again
  (\<^verbatim>\<open>src/crates/app/src/terminal/session.rs\<close>). The read loop itself is modelled in
  \<open>Term_Stream\<close>; here its end is an event.

  A tab is opened in two steps, the start of its supervisor and the entry in the table, and
  closed in several. \<open>term_event\<close> is one atomic piece of one of these tasks. How a connection
  attempt ends, the setting that is read and the number that stands for a new write half are
  part of the events. What is written to a shell, the frames for the front end and the
  requests to stop the tunnels of a session are logs.
\<close>

section \<open>A new shell\<close>

datatype Backend = BackendSsh "string option" | BackendLocal

record SuConfig =
  su_user :: string
  su_password :: "string option"

text \<open>What the supervisor does with the login macro when a shell starts.\<close>

datatype macro_plan = NoMacro | SendNow "string list" | SkipNotice | AfterSu "string list"

text \<open>\<open>str::lines\<close> cuts a carriage return before the line feed; \<open>trim\<close> would remove it as well.\<close>

definition macro_lines :: "string \<Rightarrow> string list" where
  "macro_lines raw = filter (\<lambda>l. l \<noteq> []) (map trim (split_on CHR 0x0A raw))"

fun commandless :: "Backend \<Rightarrow> bool" where
  "commandless (BackendSsh c) = (c = None)"
| "commandless BackendLocal = True"

text \<open>The password the read loop is armed with: none without \<open>su\<close>, possibly none with it.\<close>

definition su_watch_for :: "Backend \<Rightarrow> SuConfig option \<Rightarrow> string option option" where
  "su_watch_for b su =
     (case (b, su) of
        (BackendSsh None, Some s) \<Rightarrow> Some (su_password s)
      | _ \<Rightarrow> None)"

definition su_command :: "Backend \<Rightarrow> SuConfig option \<Rightarrow> string list" where
  "su_command b su =
     (case (b, su) of
        (BackendSsh None, Some s) \<Rightarrow> [''su - '' @ su_user s @ [CHR 0x0D]]
      | _ \<Rightarrow> [])"

definition macro_for :: "Backend \<Rightarrow> SuConfig option \<Rightarrow> string list \<Rightarrow> macro_plan" where
  "macro_for b su lines =
     (if lines = [] \<or> \<not> commandless b then NoMacro
      else case su of
             None \<Rightarrow> SendNow lines
           | Some s \<Rightarrow> if su_password s = None then SkipNotice else AfterSu lines)"

text \<open>A task of \<open>send_macro\<close>: a line at a time, through the input encoder; it ends at a write that fails.\<close>

record macro_task =
  mk_writer :: nat
  mk_enc :: "(string \<Rightarrow> string) option"
  mk_lines :: "string list"

definition macro_line :: "(string \<Rightarrow> string) option \<Rightarrow> string \<Rightarrow> string" where
  "macro_line enc l = (case enc of None \<Rightarrow> l | Some f \<Rightarrow> f l) @ [CHR 0x0D]"

section \<open>Reconnecting\<close>

definition DEFAULT_RECONNECT_ATTEMPTS :: nat where
  "DEFAULT_RECONNECT_ATTEMPTS = 5"

definition MAX_RECONNECT_ATTEMPTS :: nat where
  "MAX_RECONNECT_ATTEMPTS = 20"

text \<open>\<open>num\<close> is \<open>serde_json::from_str::<u64>\<close>.\<close>

definition parse_reconnect_attempts :: "(string \<Rightarrow> u64 option) \<Rightarrow> string option \<Rightarrow> nat" where
  "parse_reconnect_attempts num raw =
     (case raw of
        None \<Rightarrow> DEFAULT_RECONNECT_ATTEMPTS
      | Some v \<Rightarrow>
          (case num v of
             None \<Rightarrow> DEFAULT_RECONNECT_ATTEMPTS
           | Some n \<Rightarrow> min (unat n) MAX_RECONNECT_ATTEMPTS))"

text \<open>Seconds before jitter.\<close>

definition reconnect_backoff :: "nat \<Rightarrow> nat" where
  "reconnect_backoff attempt = 2 ^ min (attempt - 1) 4"

section \<open>Tabs and their supervisors\<close>

record TermSession =
  tb_writer :: nat
  tb_session :: "string option"
  tb_cols :: u32
  tb_rows :: u32
  tb_focused :: bool

datatype frame =
    FrConnected string
  | FrReconnecting string nat
  | FrReconnected string
  | FrClosed string
  | FrMacroSkipped string

text \<open>
  Where a supervisor stands. \<open>SvTry a m\<close> is the head of the loop of \<open>reconnect\<close> after \<open>a\<close>
  attempts out of \<open>m\<close>, \<open>SvGiveUp\<close> a \<open>reconnect\<close> that returned \<open>None\<close>.
\<close>

datatype sv_pc =
    SvShell
  | SvReading
  | SvEnded
  | SvLimit
  | SvTry nat nat
  | SvSleep nat nat
  | SvSize nat nat
  | SvConnecting nat nat u32 u32
  | SvSwap nat
  | SvAnnounce
  | SvGiveUp
  | SvRemove
  | SvLast
  | SvDone
  | SvAborted

record supervisor =
  sv_tab :: string
  sv_session :: "string option"
  sv_backend :: Backend
  sv_su :: "SuConfig option"
  sv_macro :: "string list"
  sv_enc :: "(string \<Rightarrow> string) option"
  sv_writer :: nat
  sv_pc :: sv_pc
  sv_inserted :: bool
  sv_su_armed :: "string option option"
  sv_macro_pending :: "string list option"

datatype cl_pc = ClWriter | ClAbort | ClLast | ClDone

record closing =
  cl_tab :: string
  cl_session :: TermSession
  cl_pc :: cl_pc

record term_mgr =
  tm_sessions :: "string \<Rightarrow> TermSession option"
  tm_seq :: nat
  tm_tasks :: "supervisor list"
  tm_closings :: "closing list"
  tm_macros :: "macro_task list"
  tm_frames :: "frame list"
  tm_written :: "(nat \<times> string) list"
  tm_closed_writers :: "nat list"
  tm_tunnel_stops :: "string list"

definition mgr_new :: term_mgr where
  "mgr_new = \<lparr>tm_sessions = (\<lambda>_. None), tm_seq = 1, tm_tasks = [], tm_closings = [], tm_macros = [], tm_frames = [], tm_written = [],
              tm_closed_writers = [], tm_tunnel_stops = []\<rparr>"

definition emit :: "frame \<Rightarrow> term_mgr \<Rightarrow> term_mgr" where
  "emit f m = m\<lparr>tm_frames := tm_frames m @ [f]\<rparr>"

definition write_to :: "nat \<Rightarrow> string list \<Rightarrow> term_mgr \<Rightarrow> term_mgr" where
  "write_to w ls m = m\<lparr>tm_written := tm_written m @ map (Pair w) ls\<rparr>"

text \<open>The tunnels of a session are stopped when no other tab of that session is open.\<close>

definition still_open :: "(string \<Rightarrow> TermSession option) \<Rightarrow> string list \<Rightarrow> string \<Rightarrow> bool" where
  "still_open ss tabs sid \<longleftrightarrow> list_ex (\<lambda>t. case ss t of None \<Rightarrow> False | Some s \<Rightarrow> tb_session s = Some sid) tabs"

definition stop_session_tunnels_if_last :: "string option \<Rightarrow> term_mgr \<Rightarrow> term_mgr" where
  "stop_session_tunnels_if_last session m =
     (case session of
        None \<Rightarrow> m
      | Some sid \<Rightarrow>
          if still_open (tm_sessions m) (map sv_tab (tm_tasks m)) sid then m
          else m\<lparr>tm_tunnel_stops := tm_tunnel_stops m @ [sid]\<rparr>)"

text \<open>What a step of a supervisor may need from outside.\<close>

datatype sv_event =
    Go
  | PromptSeen
  | ReadEnd
  | Setting "string option"
  | Elapsed
  | ConnectFailed
  | PtyFailed
  | PtyOpened nat

definition spawn_macro :: "supervisor \<Rightarrow> string list \<Rightarrow> term_mgr \<Rightarrow> term_mgr" where
  "spawn_macro sv ls m = m\<lparr>tm_macros := tm_macros m @ [\<lparr>mk_writer = sv_writer sv, mk_enc = sv_enc sv, mk_lines = ls\<rparr>]\<rparr>"

definition macro_step :: "nat \<Rightarrow> bool \<Rightarrow> term_mgr \<Rightarrow> term_mgr option" where
  "macro_step k ok m =
     (if k < length (tm_macros m) then
        let t = tm_macros m ! k; rest = (\<lambda>ls. m\<lparr>tm_macros := (tm_macros m)[k := t\<lparr>mk_lines := ls\<rparr>]\<rparr>)
        in case mk_lines t of
             [] \<Rightarrow> None
           | l # ls \<Rightarrow> Some (if ok then write_to (mk_writer t) [macro_line (mk_enc t) l] (rest ls) else rest [])
      else None)"

text \<open>The start of a round of \<open>supervise\<close>: the \<open>su\<close> command, then the macro.\<close>

definition start_shell :: "supervisor \<Rightarrow> term_mgr \<Rightarrow> supervisor \<times> term_mgr" where
  "start_shell sv m =
     (let m = write_to (sv_writer sv) (su_command (sv_backend sv) (sv_su sv)) m;
          sv = sv\<lparr>sv_pc := SvReading, sv_su_armed := su_watch_for (sv_backend sv) (sv_su sv), sv_macro_pending := None\<rparr>
      in case macro_for (sv_backend sv) (sv_su sv) (sv_macro sv) of
           NoMacro \<Rightarrow> (sv, m)
         | SendNow ls \<Rightarrow> (sv, spawn_macro sv ls m)
         | SkipNotice \<Rightarrow> (sv, emit (FrMacroSkipped (sv_tab sv)) m)
         | AfterSu ls \<Rightarrow> (sv\<lparr>sv_macro_pending := Some ls\<rparr>, m))"

text \<open>The read loop sees the prompt of \<open>su\<close>: one answer, then the macro that waited for it.\<close>

definition su_prompt :: "supervisor \<Rightarrow> term_mgr \<Rightarrow> (supervisor \<times> term_mgr) option" where
  "su_prompt sv m =
     (case sv_su_armed sv of
        None \<Rightarrow> None
      | Some pw \<Rightarrow>
          (let m = (case pw of None \<Rightarrow> m | Some p \<Rightarrow> write_to (sv_writer sv) [p @ [CHR 0x0D]] m);
               m = (case sv_macro_pending sv of None \<Rightarrow> m | Some ls \<Rightarrow> spawn_macro sv ls m)
           in Some (sv\<lparr>sv_su_armed := None, sv_macro_pending := None\<rparr>, m)))"

definition sv_step :: "(string \<Rightarrow> u64 option) \<Rightarrow> sv_event \<Rightarrow> supervisor \<Rightarrow> term_mgr \<Rightarrow> (supervisor \<times> term_mgr) option" where
  "sv_step num ev sv m =
     (let t = sv_tab sv; goto = (\<lambda>pc. sv\<lparr>sv_pc := pc\<rparr>); present = tm_sessions m t \<noteq> None
      in case (sv_pc sv, ev) of
           (SvShell, Go) \<Rightarrow> Some (start_shell sv m)
         | (SvReading, PromptSeen) \<Rightarrow> su_prompt sv m
         | (SvReading, ReadEnd) \<Rightarrow> Some (goto SvEnded, m)
         | (SvEnded, Go) \<Rightarrow>
             if \<not> present then Some (goto SvDone, m)
             else if sv_backend sv = BackendLocal then Some (goto SvRemove, emit (FrClosed t) m)
             else Some (goto SvLimit, m)
         | (SvLimit, Setting raw) \<Rightarrow> Some (goto (SvTry 0 (parse_reconnect_attempts num raw)), m)
         | (SvTry a mx, Go) \<Rightarrow>
             if a + 1 > mx then Some (goto SvGiveUp, m)
             else Some (goto (SvSleep (a + 1) mx), emit (FrReconnecting t (a + 1)) m)
         | (SvSleep a mx, Elapsed) \<Rightarrow> Some (goto (if present then SvSize a mx else SvGiveUp), m)
         | (SvSize a mx, Go) \<Rightarrow>
             (case tm_sessions m t of
                None \<Rightarrow> Some (goto SvGiveUp, m)
              | Some s \<Rightarrow> Some (goto (SvConnecting a mx (tb_cols s) (tb_rows s)), m))
         | (SvConnecting a mx c r, ConnectFailed) \<Rightarrow> Some (goto (SvTry a mx), m)
         | (SvConnecting a mx c r, PtyFailed) \<Rightarrow> Some (goto (SvTry a mx), m)
         | (SvConnecting a mx c r, PtyOpened w) \<Rightarrow> Some (goto (SvSwap w), m)
         | (SvSwap w, Go) \<Rightarrow>
             (case tm_sessions m t of
                None \<Rightarrow> Some (goto SvDone, m)
              | Some s \<Rightarrow>
                  Some (sv\<lparr>sv_pc := SvAnnounce, sv_writer := w\<rparr>,
                        m\<lparr>tm_sessions := (tm_sessions m)(t \<mapsto> s\<lparr>tb_writer := w\<rparr>)\<rparr>))
         | (SvAnnounce, Go) \<Rightarrow> Some (goto SvShell, emit (FrReconnected t) m)
         | (SvGiveUp, Go) \<Rightarrow> Some (goto SvRemove, emit (FrClosed t) m)
         | (SvRemove, Go) \<Rightarrow> Some (goto SvLast, m\<lparr>tm_sessions := (tm_sessions m)(t := None)\<rparr>)
         | (SvLast, Go) \<Rightarrow> Some (goto SvDone, stop_session_tunnels_if_last (sv_session sv) m)
         | _ \<Rightarrow> None)"

section \<open>The commands\<close>

text \<open>\<open>next_id\<close> counts up; \<open>term_open\<close> starts the supervisor before it makes the entry.\<close>

definition tab_name :: "nat \<Rightarrow> string" where
  "tab_name n = ''t'' @ show_nat n"

record open_request =
  or_session :: "string option"
  or_backend :: Backend
  or_su_user :: "string option"
  or_su_password :: "string option"
  or_macro :: "string option"
  or_enc :: "(string \<Rightarrow> string) option"
  or_writer :: nat

definition su_of :: "open_request \<Rightarrow> SuConfig option" where
  "su_of r =
     (if or_backend r = BackendLocal then None
      else case or_su_user r of
             None \<Rightarrow> None
           | Some u \<Rightarrow> if trim u = [] then None else Some \<lparr>su_user = trim u, su_password = or_su_password r\<rparr>)"

definition open_spawn :: "open_request \<Rightarrow> term_mgr \<Rightarrow> term_mgr" where
  "open_spawn r m =
     m\<lparr>tm_seq := tm_seq m + 1,
       tm_tasks := tm_tasks m @
         [\<lparr>sv_tab = tab_name (tm_seq m), sv_session = or_session r, sv_backend = or_backend r, sv_su = su_of r,
           sv_macro = macro_lines (case or_macro r of None \<Rightarrow> [] | Some s \<Rightarrow> s), sv_enc = (if or_backend r = BackendLocal then None else or_enc r), sv_writer = or_writer r, sv_pc = SvShell,
           sv_inserted = False, sv_su_armed = None, sv_macro_pending = None\<rparr>]\<rparr>"

text \<open>A call that fails has used up its number.\<close>

definition open_fail :: "term_mgr \<Rightarrow> term_mgr" where
  "open_fail m = m\<lparr>tm_seq := tm_seq m + 1\<rparr>"

definition open_insert :: "nat \<Rightarrow> u32 \<Rightarrow> u32 \<Rightarrow> term_mgr \<Rightarrow> term_mgr option" where
  "open_insert i cols rows m =
     (if i < length (tm_tasks m) \<and> \<not> sv_inserted (tm_tasks m ! i) then
        let sv = tm_tasks m ! i; t = sv_tab sv
        in Some (emit (FrConnected t)
             (m\<lparr>tm_tasks := (tm_tasks m)[i := sv\<lparr>sv_inserted := True\<rparr>],
                tm_sessions := (tm_sessions m)(t \<mapsto>
                  \<lparr>tb_writer = sv_writer sv, tb_session = sv_session sv, tb_cols = cols, tb_rows = rows, tb_focused = True\<rparr>)\<rparr>))
      else None)"

definition term_resize :: "string \<Rightarrow> u32 \<Rightarrow> u32 \<Rightarrow> term_mgr \<Rightarrow> (string, nat) result \<times> term_mgr" where
  "term_resize t cols rows m =
     (case tm_sessions m t of
        None \<Rightarrow> (Err (''unknown tab '' @ t), m)
      | Some s \<Rightarrow> (Ok (tb_writer s), m\<lparr>tm_sessions := (tm_sessions m)(t \<mapsto> s\<lparr>tb_cols := cols, tb_rows := rows\<rparr>)\<rparr>))"

definition term_focus :: "string \<Rightarrow> bool \<Rightarrow> term_mgr \<Rightarrow> term_mgr" where
  "term_focus t f m =
     (case tm_sessions m t of
        None \<Rightarrow> m
      | Some s \<Rightarrow> m\<lparr>tm_sessions := (tm_sessions m)(t \<mapsto> s\<lparr>tb_focused := f\<rparr>)\<rparr>)"

definition term_input :: "(string \<Rightarrow> string) option \<Rightarrow> string \<Rightarrow> string \<Rightarrow> term_mgr \<Rightarrow> (string, unit) result \<times> term_mgr" where
  "term_input enc t bytes m =
     (case tm_sessions m t of
        None \<Rightarrow> (Err (''unknown tab '' @ t), m)
      | Some s \<Rightarrow> (Ok (), write_to (tb_writer s) [case enc of None \<Rightarrow> bytes | Some f \<Rightarrow> f bytes] m))"

text \<open>\<open>term_close\<close>: the entry is removed, then the writer closed, the task aborted, and the tunnels looked at.\<close>

definition close_begin :: "string \<Rightarrow> term_mgr \<Rightarrow> term_mgr" where
  "close_begin t m =
     (case tm_sessions m t of
        None \<Rightarrow> m
      | Some s \<Rightarrow>
          m\<lparr>tm_sessions := (tm_sessions m)(t := None),
            tm_closings := tm_closings m @ [\<lparr>cl_tab = t, cl_session = s, cl_pc = ClWriter\<rparr>]\<rparr>)"

definition abort_task :: "string \<Rightarrow> supervisor \<Rightarrow> supervisor" where
  "abort_task t sv = (if sv_tab sv = t \<and> sv_pc sv \<noteq> SvDone then sv\<lparr>sv_pc := SvAborted\<rparr> else sv)"

definition close_step :: "nat \<Rightarrow> term_mgr \<Rightarrow> term_mgr option" where
  "close_step k m =
     (if k < length (tm_closings m) then
        let c = tm_closings m ! k; goto = (\<lambda>pc. m\<lparr>tm_closings := (tm_closings m)[k := c\<lparr>cl_pc := pc\<rparr>]\<rparr>)
        in case cl_pc c of
             ClWriter \<Rightarrow> Some ((goto ClAbort)\<lparr>tm_closed_writers := tm_closed_writers m @ [tb_writer (cl_session c)]\<rparr>)
           | ClAbort \<Rightarrow> Some ((goto ClLast)\<lparr>tm_tasks := map (abort_task (cl_tab c)) (tm_tasks m)\<rparr>)
           | ClLast \<Rightarrow> Some (stop_session_tunnels_if_last (tb_session (cl_session c)) (goto ClDone))
           | ClDone \<Rightarrow> None
      else None)"

datatype term_event =
    OpenSpawn open_request
  | OpenFail
  | OpenInsert nat u32 u32
  | Supervise nat sv_event
  | Resize string u32 u32
  | Focus string bool
  | Input "(string \<Rightarrow> string) option" string string
  | CloseTab string
  | CloseStep nat
  | MacroStep nat bool

definition term_step :: "(string \<Rightarrow> u64 option) \<Rightarrow> term_event \<Rightarrow> term_mgr \<Rightarrow> term_mgr option" where
  "term_step num ev m =
     (case ev of
        OpenSpawn r \<Rightarrow> Some (open_spawn r m)
      | OpenFail \<Rightarrow> Some (open_fail m)
      | OpenInsert i c r \<Rightarrow> open_insert i c r m
      | Supervise i e \<Rightarrow>
          if i < length (tm_tasks m) then
            (case sv_step num e (tm_tasks m ! i) m of
               None \<Rightarrow> None
             | Some (sv, m') \<Rightarrow> Some (m'\<lparr>tm_tasks := (tm_tasks m)[i := sv]\<rparr>))
          else None
      | Resize t c r \<Rightarrow> Some (snd (term_resize t c r m))
      | Focus t f \<Rightarrow> Some (term_focus t f m)
      | Input enc t b \<Rightarrow> Some (snd (term_input enc t b m))
      | CloseTab t \<Rightarrow> Some (close_begin t m)
      | CloseStep k \<Rightarrow> close_step k m
      | MacroStep k ok \<Rightarrow> macro_step k ok m)"

fun term_run :: "(string \<Rightarrow> u64 option) \<Rightarrow> term_event list \<Rightarrow> term_mgr \<Rightarrow> term_mgr option" where
  "term_run num [] m = Some m"
| "term_run num (e # es) m = (case term_step num e m of None \<Rightarrow> None | Some m' \<Rightarrow> term_run num es m')"

section \<open>Supervised tabs\<close>

lemmas sv_defs = emit_def write_to_def spawn_macro_def stop_session_tunnels_if_last_def

lemma start_shell_frame:
  "start_shell sv m = (sv', m') \<Longrightarrow>
     sv_tab sv' = sv_tab sv \<and> sv_session sv' = sv_session sv \<and> sv_inserted sv' = sv_inserted sv \<and> sv_pc sv' = SvReading \<and>
     tm_tasks m' = tm_tasks m \<and> tm_closings m' = tm_closings m \<and> tm_seq m' = tm_seq m \<and> tm_sessions m' = tm_sessions m"
  by (auto simp: start_shell_def Let_def sv_defs split: macro_plan.splits)

lemma su_prompt_frame:
  "su_prompt sv m = Some (sv', m') \<Longrightarrow>
     sv_tab sv' = sv_tab sv \<and> sv_session sv' = sv_session sv \<and> sv_inserted sv' = sv_inserted sv \<and> sv_pc sv' = sv_pc sv \<and>
     tm_tasks m' = tm_tasks m \<and> tm_closings m' = tm_closings m \<and> tm_seq m' = tm_seq m \<and> tm_sessions m' = tm_sessions m"
  by (auto simp: su_prompt_def Let_def sv_defs split: option.splits)

text \<open>What a step of a supervisor leaves alone, and what it does to the table.\<close>

lemma sv_step_frame:
  "sv_step num ev sv m = Some (sv', m') \<Longrightarrow>
     sv_tab sv' = sv_tab sv \<and> sv_session sv' = sv_session sv \<and> sv_inserted sv' = sv_inserted sv \<and>
     tm_tasks m' = tm_tasks m \<and> tm_closings m' = tm_closings m \<and> tm_seq m' = tm_seq m"
  by (auto simp: sv_step_def Let_def sv_defs split: sv_pc.splits sv_event.splits option.splits if_splits
      dest: start_shell_frame su_prompt_frame)

definition running :: "sv_pc \<Rightarrow> bool" where
  "running pc \<longleftrightarrow> pc \<notin> {SvLast, SvDone, SvAborted}"

lemma sv_step_table:
  assumes "sv_step num ev sv m = Some (sv', m')" "tm_sessions m' t = Some s'"
  shows "\<exists>s. tm_sessions m t = Some s \<and> tb_session s' = tb_session s \<and> (t = sv_tab sv \<longrightarrow> running (sv_pc sv) \<longrightarrow> running (sv_pc sv'))"
  using assms
  by (auto simp: sv_step_def Let_def sv_defs running_def split: sv_pc.splits sv_event.splits option.splits if_splits
      dest: start_shell_frame su_prompt_frame)

text \<open>
  \<open>guarded\<close> restricts the interleavings to those in which the read loop of a tab does not end
  before \<open>term_open\<close> has made the entry of the tab.
\<close>

fun guard :: "term_event \<Rightarrow> term_mgr \<Rightarrow> bool" where
  "guard (Supervise i ReadEnd) m = sv_inserted (tm_tasks m ! i)"
| "guard _ m = True"

definition term_rel :: "(string \<Rightarrow> u64 option) \<Rightarrow> bool \<Rightarrow> term_mgr \<Rightarrow> term_mgr \<Rightarrow> bool" where
  "term_rel num guarded m m' \<longleftrightarrow> (\<exists>ev. (guarded \<longrightarrow> guard ev m) \<and> term_step num ev m = Some m')"

definition term_init :: "term_mgr \<Rightarrow> bool" where
  "term_init m \<longleftrightarrow> m = mgr_new"

definition supervised :: "term_mgr \<Rightarrow> string \<Rightarrow> TermSession \<Rightarrow> bool" where
  "supervised m t s \<longleftrightarrow>
     (\<exists>i<length (tm_tasks m). sv_tab (tm_tasks m ! i) = t \<and> sv_inserted (tm_tasks m ! i) \<and>
        running (sv_pc (tm_tasks m ! i)) \<and> sv_session (tm_tasks m ! i) = tb_session s)"

definition tab_inserted :: "term_mgr \<Rightarrow> string \<Rightarrow> bool" where
  "tab_inserted m t \<longleftrightarrow> (\<exists>i<length (tm_tasks m). sv_tab (tm_tasks m ! i) = t \<and> sv_inserted (tm_tasks m ! i))"

definition term_inv :: "term_mgr \<Rightarrow> bool" where
  "term_inv m \<longleftrightarrow>
     distinct (map sv_tab (tm_tasks m)) \<and>
     (\<forall>i<length (tm_tasks m). \<exists>n<tm_seq m. sv_tab (tm_tasks m ! i) = tab_name n) \<and>
     (\<forall>t s. tm_sessions m t = Some s \<longrightarrow> supervised m t s) \<and>
     (\<forall>c \<in> set (tm_closings m). tm_sessions m (cl_tab c) = None \<and> tab_inserted m (cl_tab c)) \<and>
     (\<forall>i<length (tm_tasks m). \<not> sv_inserted (tm_tasks m ! i) \<longrightarrow> sv_pc (tm_tasks m ! i) \<in> {SvShell, SvReading})"

lemma tab_name_inject: "tab_name m = tab_name n \<longleftrightarrow> m = n"
  by (simp add: tab_name_def show_nat_inject)

lemma same_tab:
  assumes "distinct (map sv_tab ts)" "i < length ts" "j < length ts" "sv_tab (ts ! i) = sv_tab (ts ! j)"
  shows "i = j"
  using assms nth_eq_iff_index_eq [of "map sv_tab ts" i j] by simp

lemma map_tab_update:
  "i < length ts \<Longrightarrow> sv_tab sv = sv_tab (ts ! i) \<Longrightarrow> map sv_tab (ts[i := sv]) = map sv_tab ts"
  by (metis list_update_id map_update nth_map)

lemma supervised_inserted: "supervised m t s \<Longrightarrow> tab_inserted m t"
  by (auto simp: supervised_def tab_inserted_def)

lemma supervised_update:
  assumes "supervised m t s" "tm_tasks m' = (tm_tasks m)[i := sv]" "i < length (tm_tasks m)"
    and "sv_tab sv = sv_tab (tm_tasks m ! i)" "sv_session sv = sv_session (tm_tasks m ! i)"
    and "sv_inserted (tm_tasks m ! i) \<Longrightarrow> sv_inserted sv"
    and "t = sv_tab (tm_tasks m ! i) \<Longrightarrow> running (sv_pc (tm_tasks m ! i)) \<Longrightarrow> running (sv_pc sv)"
  shows "supervised m' t s"
proof -
  obtain j where "j < length (tm_tasks m)" "sv_tab (tm_tasks m ! j) = t" "sv_inserted (tm_tasks m ! j)"
    "running (sv_pc (tm_tasks m ! j))" "sv_session (tm_tasks m ! j) = tb_session s"
    using assms(1) by (auto simp: supervised_def)
  then show ?thesis
    unfolding supervised_def assms(2) using assms(3-) by (intro exI [of _ j]) (auto simp: nth_list_update)
qed

lemma tab_inserted_update:
  assumes "tab_inserted m t" "tm_tasks m' = (tm_tasks m)[i := sv]" "i < length (tm_tasks m)"
    and "sv_tab sv = sv_tab (tm_tasks m ! i)" "sv_inserted (tm_tasks m ! i) \<Longrightarrow> sv_inserted sv"
  shows "tab_inserted m' t"
  using assms by (fastforce simp: tab_inserted_def nth_list_update)

text \<open>A command that leaves tasks alone and does not touch who owns an entry keeps the invariant.\<close>

lemma term_inv_entries:
  assumes "term_inv m" "tm_tasks m' = tm_tasks m" "tm_closings m' = tm_closings m" "tm_seq m \<le> tm_seq m'"
    and "\<And>t s'. tm_sessions m' t = Some s' \<Longrightarrow> \<exists>s. tm_sessions m t = Some s \<and> tb_session s' = tb_session s"
  shows "term_inv m'"
proof -
  have "tm_sessions m t = None \<Longrightarrow> tm_sessions m' t = None" for t
    using assms(5) [of t] by (cases "tm_sessions m' t") auto
  moreover have "tm_sessions m' t = Some s' \<Longrightarrow> supervised m' t s'" for t s'
    using assms(5) [of t s'] assms(1,2) by (fastforce simp: term_inv_def supervised_def)
  moreover have "\<forall>i<length (tm_tasks m'). \<exists>n<tm_seq m'. sv_tab (tm_tasks m' ! i) = tab_name n"
    using assms(1,2,4) by (fastforce simp: term_inv_def intro: less_le_trans)
  ultimately show ?thesis
    using assms(1-3) by (auto simp: term_inv_def tab_inserted_def)
qed

lemma term_inv_supervise:
  assumes inv: "term_inv m" and i: "i < length (tm_tasks m)"
    and st: "sv_step num ev (tm_tasks m ! i) m = Some (sv, m1)"
    and g: "ev = ReadEnd \<longrightarrow> sv_inserted (tm_tasks m ! i)"
  shows "term_inv (m1\<lparr>tm_tasks := (tm_tasks m)[i := sv]\<rparr>)"
proof -
  let ?sv = "tm_tasks m ! i" and ?m = "m1\<lparr>tm_tasks := (tm_tasks m)[i := sv]\<rparr>"
  note f = sv_step_frame [OF st] and tab = sv_step_table [OF st]
  note inv' = inv [unfolded term_inv_def]
  have d: "distinct (map sv_tab (tm_tasks ?m))"
    using inv' f i by (simp add: map_tab_update)
  have sup: "supervised ?m t s'" if "tm_sessions m1 t = Some s'" for t s'
  proof -
    from tab [OF that] obtain s where s: "tm_sessions m t = Some s" "tb_session s' = tb_session s"
      "t = sv_tab ?sv \<longrightarrow> running (sv_pc ?sv) \<longrightarrow> running (sv_pc sv)"
      by blast
    then have "supervised m t s'" using inv' by (simp add: supervised_def)
    then show ?thesis using f s(3) i by (intro supervised_update [of m t s' ?m i sv]) auto
  qed
  have none: "tm_sessions m t = None \<Longrightarrow> tm_sessions m1 t = None" for t
    using tab [of t] by (cases "tm_sessions m1 t") auto
  have ins: "tab_inserted m t \<Longrightarrow> tab_inserted ?m t" for t
    using f i by (auto intro: tab_inserted_update [of m t ?m i sv])
  have pcs: "\<not> sv_inserted sv \<Longrightarrow> sv_pc sv \<in> {SvShell, SvReading}"
  proof -
    assume "\<not> sv_inserted sv"
    then have "\<not> sv_inserted ?sv" using f by simp
    moreover from this have "sv_pc ?sv \<in> {SvShell, SvReading}" using inv' i by blast
    ultimately show ?thesis
      using st g by (auto simp: sv_step_def Let_def split: sv_event.splits dest!: start_shell_frame su_prompt_frame)
  qed
  show ?thesis
    unfolding term_inv_def using d sup none ins pcs inv' f i by (auto simp: nth_list_update)
qed

lemma term_inv_spawn:
  assumes inv: "term_inv m"
  shows "term_inv (open_spawn r m)"
proof -
  note inv' = inv [unfolded term_inv_def]
  let ?ts = "tm_tasks m" and ?m = "open_spawn r m"
  have new: "tab_name (tm_seq m) \<notin> sv_tab ` set ?ts"
    using inv' by (fastforce simp: tab_name_inject in_set_conv_nth)
  have old: "i < length ?ts \<Longrightarrow> tm_tasks ?m ! i = ?ts ! i" for i
    by (simp add: open_spawn_def nth_append)
  have "supervised m t s \<Longrightarrow> supervised ?m t s" for t s
    unfolding supervised_def using old by (fastforce simp: open_spawn_def nth_append)
  moreover have "tab_inserted m t \<Longrightarrow> tab_inserted ?m t" for t
    unfolding tab_inserted_def using old by (fastforce simp: open_spawn_def nth_append)
  ultimately show ?thesis
    using inv' new by (fastforce simp: term_inv_def open_spawn_def nth_append less_Suc_eq)
qed

lemma term_inv_insert:
  assumes inv: "term_inv m" and st: "open_insert i cols rows m = Some m'"
  shows "term_inv m'"
proof -
  note inv' = inv [unfolded term_inv_def]
  let ?ts = "tm_tasks m" and ?t = "sv_tab (tm_tasks m ! i)"
  from st have i: "i < length ?ts" "\<not> sv_inserted (?ts ! i)"
    and m': "tm_tasks m' = ?ts[i := (?ts ! i)\<lparr>sv_inserted := True\<rparr>]" "tm_closings m' = tm_closings m" "tm_seq m' = tm_seq m"
      "\<And>t. t \<noteq> ?t \<Longrightarrow> tm_sessions m' t = tm_sessions m t"
      "\<exists>s. tm_sessions m' ?t = Some s \<and> tb_session s = sv_session (?ts ! i)"
    by (auto simp: open_insert_def Let_def emit_def split: if_splits)
  have pc: "running (sv_pc (?ts ! i))" using inv' i by (auto simp: running_def)
  have fresh: "\<not> tab_inserted m ?t"
    using inv' i same_tab [of ?ts] unfolding tab_inserted_def by metis
  have d: "distinct (map sv_tab (tm_tasks m'))" using inv' i m'(1) by (simp add: map_tab_update)
  have ins: "tab_inserted m t \<Longrightarrow> tab_inserted m' t" for t
    using i m'(1) by (auto intro: tab_inserted_update)
  have "supervised m' t s" if "tm_sessions m' t = Some s" for t s
  proof (cases "t = ?t")
    case True
    then show ?thesis unfolding supervised_def m'(1) using that m'(5) i pc by (intro exI [of _ i]) auto
  next
    case False
    then have "supervised m t s" using that m'(4) inv' by simp
    then show ?thesis using i m'(1) by (auto intro: supervised_update)
  qed
  moreover have "tm_sessions m' (cl_tab c) = None" if "c \<in> set (tm_closings m)" for c
  proof -
    have "cl_tab c \<noteq> ?t" using that inv' fresh by metis
    then show ?thesis using that inv' m'(4) by simp
  qed
  ultimately show ?thesis
    using inv' m'(1-3) d ins i by (auto simp: term_inv_def nth_list_update)
qed

lemma term_inv_close_begin:
  assumes inv: "term_inv m"
  shows "term_inv (close_begin t m)"
proof (cases "tm_sessions m t")
  case None
  then show ?thesis using inv by (simp add: close_begin_def)
next
  case (Some s)
  then have "tab_inserted m t" using inv supervised_inserted unfolding term_inv_def by blast
  with Some inv show ?thesis
    by (auto simp: close_begin_def term_inv_def supervised_def tab_inserted_def)
qed

lemma abort_task_frame [simp]:
  "sv_tab (abort_task t sv) = sv_tab sv" "sv_session (abort_task t sv) = sv_session sv" "sv_inserted (abort_task t sv) = sv_inserted sv"
  "sv_tab sv \<noteq> t \<Longrightarrow> abort_task t sv = sv"
  by (auto simp: abort_task_def)

lemma term_inv_abort:
  assumes inv: "term_inv m" and c: "c \<in> set (tm_closings m)"
    and m': "tm_tasks m' = map (abort_task (cl_tab c)) (tm_tasks m)" "tm_sessions m' = tm_sessions m" "tm_seq m' = tm_seq m"
      "\<forall>c' \<in> set (tm_closings m'). \<exists>c'' \<in> set (tm_closings m). cl_tab c' = cl_tab c''"
  shows "term_inv m'"
proof -
  note inv' = inv [unfolded term_inv_def]
  have none: "tm_sessions m (cl_tab c) = None" and ins: "tab_inserted m (cl_tab c)" using inv' c by auto
  have d: "distinct (map sv_tab (tm_tasks m'))" using inv' m'(1) by (simp add: comp_def)
  have "supervised m' t s" if "tm_sessions m' t = Some s" for t s
  proof -
    have "t \<noteq> cl_tab c" "supervised m t s" using that m'(2) none inv' by auto
    then show ?thesis unfolding supervised_def m'(1) by auto
  qed
  moreover have ins': "tab_inserted m t \<Longrightarrow> tab_inserted m' t" for t
    unfolding tab_inserted_def m'(1) by auto
  moreover have "sv_pc (tm_tasks m' ! i) \<in> {SvShell, SvReading}"
    if "i < length (tm_tasks m)" "\<not> sv_inserted (tm_tasks m ! i)" for i
  proof -
    have "sv_tab (tm_tasks m ! i) \<noteq> cl_tab c"
      using that ins inv' same_tab [of "tm_tasks m"] unfolding tab_inserted_def by metis
    then show ?thesis using that inv' m'(1) by simp
  qed
  ultimately show ?thesis
    using inv' m' d by (fastforce simp: term_inv_def)
qed

lemma term_inv_close_step:
  assumes inv: "term_inv m" and st: "close_step k m = Some m'"
  shows "term_inv m'"
proof -
  let ?c = "tm_closings m ! k"
  from st have k: "k < length (tm_closings m)" by (simp add: close_step_def split: if_splits)
  have tabs: "\<forall>c' \<in> set ((tm_closings m)[k := ?c\<lparr>cl_pc := pc\<rparr>]). \<exists>c'' \<in> set (tm_closings m). cl_tab c' = cl_tab c''" for pc
  proof
    fix c' assume "c' \<in> set ((tm_closings m)[k := ?c\<lparr>cl_pc := pc\<rparr>])"
    then have "c' = ?c\<lparr>cl_pc := pc\<rparr> \<or> c' \<in> set (tm_closings m)"
      using set_update_subset_insert [of "tm_closings m" k] by blast
    then show "\<exists>c'' \<in> set (tm_closings m). cl_tab c' = cl_tab c''"
      using nth_mem [OF k] by auto
  qed
  have keep: "term_inv m1" if "tm_tasks m1 = tm_tasks m" "tm_sessions m1 = tm_sessions m" "tm_seq m1 = tm_seq m"
    "tm_closings m1 = (tm_closings m)[k := ?c\<lparr>cl_pc := pc\<rparr>]" for m1 pc
    using inv that tabs [of pc] by (fastforce simp: term_inv_def supervised_def tab_inserted_def)
  show ?thesis
  proof (cases "cl_pc ?c")
    case ClWriter
    with st k show ?thesis by (auto simp: close_step_def Let_def intro!: keep [of _ ClAbort])
  next
    case ClAbort
    with st k tabs [of ClLast] show ?thesis
      by (auto simp: close_step_def Let_def intro!: term_inv_abort [OF inv, of ?c])
  next
    case ClLast
    with st k show ?thesis
      by (auto simp: close_step_def Let_def stop_session_tunnels_if_last_def split: option.splits if_splits intro!: keep [of _ ClDone])
  next
    case ClDone
    with st k show ?thesis by (simp add: close_step_def Let_def)
  qed
qed

lemma term_inv_step:
  assumes inv: "term_inv m" and st: "term_step num ev m = Some m'" and g: "guard ev m"
  shows "term_inv m'"
proof (cases ev)
  case (Supervise i e)
  with st obtain sv m1 where "i < length (tm_tasks m)" "sv_step num e (tm_tasks m ! i) m = Some (sv, m1)"
    and m': "m' = m1\<lparr>tm_tasks := (tm_tasks m)[i := sv]\<rparr>"
    by (auto simp: term_step_def split: option.splits if_splits)
  then show ?thesis using Supervise g inv by (auto intro: term_inv_supervise)
next
  case (MacroStep k ok)
  with st show ?thesis
    by (auto simp: term_step_def macro_step_def Let_def write_to_def split: if_splits list.splits intro!: term_inv_entries [OF inv])
next
  case (Resize t c r)
  with st show ?thesis
    by (auto simp: term_step_def term_resize_def split: if_splits option.splits intro!: term_inv_entries [OF inv])
next
  case (Focus t f)
  with st show ?thesis
    by (auto simp: term_step_def term_focus_def split: if_splits option.splits intro!: term_inv_entries [OF inv])
next
  case (Input enc t b)
  with st show ?thesis
    by (auto simp: term_step_def term_input_def write_to_def split: option.splits intro!: term_inv_entries [OF inv])
next
  case OpenFail
  with st show ?thesis
    by (auto simp: term_step_def open_fail_def intro!: term_inv_entries [OF inv])
qed (use inv st in \<open>auto simp: term_step_def intro: term_inv_spawn term_inv_insert term_inv_close_begin term_inv_close_step\<close>)

interpretation tabs: invariant_system term_init "term_rel num True" term_inv for num
proof
  show "term_init s \<Longrightarrow> term_inv s" for s
    by (simp add: term_init_def mgr_new_def term_inv_def)
  show "term_inv s \<Longrightarrow> term_rel num True s t \<Longrightarrow> term_inv t" for s t
    by (auto simp: term_rel_def intro: term_inv_step)
qed

text \<open>
  C19. As long as no read loop ends before the entry of its tab is made, every tab in the table
  has exactly one supervisor, which is still at work and belongs to the same session; a tab
  that is being closed is out of the table. This holds in every interleaving of the commands
  with the supervisors, the reconnections and the macros.
\<close>

theorem tabs_are_supervised:
  assumes "reachable term_init (term_rel num True) m" "tm_sessions m t = Some s"
  shows "(\<exists>!i. i < length (tm_tasks m) \<and> sv_tab (tm_tasks m ! i) = t \<and> running (sv_pc (tm_tasks m ! i)) \<and>
              sv_session (tm_tasks m ! i) = tb_session s) \<and>
         t \<notin> cl_tab ` set (tm_closings m)"
proof
  have inv: "term_inv m" using assms(1) by (rule tabs.inv_reachable)
  then have "supervised m t s" using assms(2) by (simp add: term_inv_def)
  moreover have "i = j" if "i < length (tm_tasks m)" "j < length (tm_tasks m)" "sv_tab (tm_tasks m ! i) = sv_tab (tm_tasks m ! j)" for i j
    using inv that same_tab [of "tm_tasks m"] by (simp add: term_inv_def)
  ultimately show "\<exists>!i. i < length (tm_tasks m) \<and> sv_tab (tm_tasks m ! i) = t \<and> running (sv_pc (tm_tasks m ! i)) \<and>
              sv_session (tm_tasks m ! i) = tb_session s"
    unfolding supervised_def by metis
  show "t \<notin> cl_tab ` set (tm_closings m)"
    using inv assms(2) by (auto simp: term_inv_def)
qed

text \<open>A run in which no read loop ends is a guarded one.\<close>

lemma run_reachable:
  assumes "term_run num evs m = Some m'" "\<forall>i. Supervise i ReadEnd \<notin> set evs" "reachable term_init (term_rel num True) m"
  shows "reachable term_init (term_rel num True) m'"
  using assms
proof (induction evs arbitrary: m)
  case (Cons e es)
  then obtain m1 where st: "term_step num e m = Some m1" "term_run num es m1 = Some m'"
    by (auto split: option.splits)
  have "guard e m" using Cons.prems(2) by (cases "(e, m)" rule: guard.cases) auto
  with st have "term_rel num True m m1" by (auto simp: term_rel_def)
  with Cons.prems(3) have "reachable term_init (term_rel num True) m1" by (rule reach_step)
  with Cons st(2) show ?case by auto
qed simp

definition plain_tab :: open_request where
  "plain_tab = \<lparr>or_session = Some ''s1'', or_backend = BackendSsh None, or_su_user = Some ''root'', or_su_password = Some ''pw'',
                or_macro = None, or_enc = None, or_writer = 7\<rparr>"

lemma plain_tab_run:
  assumes "m = the (term_run num [OpenSpawn plain_tab, Supervise 0 Go, OpenInsert 0 80 24] mgr_new)"
  shows "term_run num [OpenSpawn plain_tab, Supervise 0 Go, OpenInsert 0 80 24] mgr_new = Some m"
    and "reachable term_init (term_rel num True) m"
    and "tm_sessions m (tab_name 1) = Some \<lparr>tb_writer = 7, tb_session = Some ''s1'', tb_cols = 80, tb_rows = 24, tb_focused = True\<rparr>"
    and "length (tm_tasks m) = 1" "tm_tasks m ! 0 =
      \<lparr>sv_tab = tab_name 1, sv_session = Some ''s1'', sv_backend = BackendSsh None,
       sv_su = Some \<lparr>su_user = ''root'', su_password = Some ''pw''\<rparr>, sv_macro = [], sv_enc = None, sv_writer = 7, sv_pc = SvReading,
       sv_inserted = True, sv_su_armed = Some (Some ''pw''), sv_macro_pending = None\<rparr>"
proof -
  have trim: "trim ''root'' = ''root''" by code_simp
  have r: "term_run num [OpenSpawn plain_tab, Supervise 0 Go, OpenInsert 0 80 24] mgr_new \<noteq> None"
    by (simp add: term_step_def open_spawn_def mgr_new_def sv_step_def start_shell_def Let_def macro_for_def open_insert_def
        plain_tab_def macro_lines_def trim_def)
  then show run: "term_run num [OpenSpawn plain_tab, Supervise 0 Go, OpenInsert 0 80 24] mgr_new = Some m"
    using assms by simp
  show "reachable term_init (term_rel num True) m"
    by (rule run_reachable [OF run]) (auto intro: reach_init simp: term_init_def)
  show "tm_sessions m (tab_name 1) = Some \<lparr>tb_writer = 7, tb_session = Some ''s1'', tb_cols = 80, tb_rows = 24, tb_focused = True\<rparr>"
    "length (tm_tasks m) = 1" "tm_tasks m ! 0 =
      \<lparr>sv_tab = tab_name 1, sv_session = Some ''s1'', sv_backend = BackendSsh None,
       sv_su = Some \<lparr>su_user = ''root'', su_password = Some ''pw''\<rparr>, sv_macro = [], sv_enc = None, sv_writer = 7, sv_pc = SvReading,
       sv_inserted = True, sv_su_armed = Some (Some ''pw''), sv_macro_pending = None\<rparr>"
    using run trim
    by (auto simp: term_step_def open_spawn_def mgr_new_def sv_step_def start_shell_def Let_def macro_for_def open_insert_def
        plain_tab_def macro_lines_def su_of_def su_watch_for_def su_command_def emit_def write_to_def trim_def)
qed

theorem tabs_are_supervised_witness:
  "let num = (\<lambda>_. None);
       m = the (term_run num [OpenSpawn plain_tab, Supervise 0 Go, OpenInsert 0 80 24] mgr_new)
   in \<exists>!i. i < length (tm_tasks m) \<and> sv_tab (tm_tasks m ! i) = tab_name 1 \<and> running (sv_pc (tm_tasks m ! i)) \<and>
           sv_session (tm_tasks m ! i) = Some ''s1''"
  using tabs_are_supervised [OF plain_tab_run(2,3) [OF refl]] by (simp add: Let_def)

section \<open>Reconnecting in rounds\<close>

text \<open>The table is left alone, and the task is where it should be, after the pieces of one failed attempt.\<close>

definition fail_round :: "nat \<Rightarrow> term_event list" where
  "fail_round i = [Supervise i Go, Supervise i Elapsed, Supervise i Go, Supervise i ConnectFailed]"

lemma term_run_append:
  "term_run num (es @ fs) m = (case term_run num es m of None \<Rightarrow> None | Some m' \<Rightarrow> term_run num fs m')"
  by (induction es arbitrary: m) (auto split: option.splits)

definition at_pc :: "nat \<Rightarrow> sv_pc \<Rightarrow> frame list \<Rightarrow> term_mgr \<Rightarrow> term_mgr" where
  "at_pc i pc fs m = m\<lparr>tm_tasks := (tm_tasks m)[i := (tm_tasks m ! i)\<lparr>sv_pc := pc\<rparr>], tm_frames := tm_frames m @ fs\<rparr>"

lemma at_pc_select [simp]:
  "i < length (tm_tasks m) \<Longrightarrow> tm_tasks (at_pc i pc fs m) ! i = (tm_tasks m ! i)\<lparr>sv_pc := pc\<rparr>"
  "length (tm_tasks (at_pc i pc fs m)) = length (tm_tasks m)"
  "tm_sessions (at_pc i pc fs m) = tm_sessions m"
  by (simp_all add: at_pc_def)

lemma at_pc_at_pc [simp]:
  "i < length (tm_tasks m) \<Longrightarrow> at_pc i pc' gs (at_pc i pc fs m) = at_pc i pc' (fs @ gs) m"
  by (simp add: at_pc_def)

text \<open>The pieces of a round as moves of the one task.\<close>

lemma move_at_pc:
  assumes "i < length (tm_tasks m)"
    and "sv_step num ev ((tm_tasks m ! i)\<lparr>sv_pc := pc\<rparr>) (at_pc i pc fs m) =
           Some ((tm_tasks m ! i)\<lparr>sv_pc := pc'\<rparr>, (at_pc i pc fs m)\<lparr>tm_frames := tm_frames (at_pc i pc fs m) @ gs\<rparr>)"
  shows "term_step num (Supervise i ev) (at_pc i pc fs m) = Some (at_pc i pc' (fs @ gs) m)"
  using assms by (simp add: term_step_def) (simp add: at_pc_def)

lemma attempt_moves:
  assumes i: "i < length (tm_tasks m)" and t: "tm_sessions m (sv_tab (tm_tasks m ! i)) = Some s"
  shows "a < mx \<Longrightarrow> term_step num (Supervise i Go) (at_pc i (SvTry a mx) fs m) =
           Some (at_pc i (SvSleep (a + 1) mx) (fs @ [FrReconnecting (sv_tab (tm_tasks m ! i)) (a + 1)]) m)"
    and "term_step num (Supervise i Elapsed) (at_pc i (SvSleep a mx) fs m) = Some (at_pc i (SvSize a mx) fs m)"
    and "term_step num (Supervise i Go) (at_pc i (SvSize a mx) fs m) =
           Some (at_pc i (SvConnecting a mx (tb_cols s) (tb_rows s)) fs m)"
    and "term_step num (Supervise i ConnectFailed) (at_pc i (SvConnecting a mx c r) fs m) = Some (at_pc i (SvTry a mx) fs m)"
    and "term_step num (Supervise i (PtyOpened w)) (at_pc i (SvConnecting a mx c r) fs m) = Some (at_pc i (SvSwap w) fs m)"
    and "mx \<le> a \<Longrightarrow> term_step num (Supervise i Go) (at_pc i (SvTry a mx) fs m) = Some (at_pc i SvGiveUp fs m)"
    and "term_step num (Supervise i Go) (at_pc i SvGiveUp fs m) =
           Some (at_pc i SvRemove (fs @ [FrClosed (sv_tab (tm_tasks m ! i))]) m)"
  using assms by (auto simp: sv_step_def emit_def Let_def intro!: move_at_pc [where gs = "[]", simplified] move_at_pc)

lemma fail_rounds:
  assumes i: "i < length (tm_tasks m)" and t: "tm_sessions m (sv_tab (tm_tasks m ! i)) = Some s" and "a + k \<le> mx"
  shows "term_run num (concat (replicate k (fail_round i))) (at_pc i (SvTry a mx) fs m) =
           Some (at_pc i (SvTry (a + k) mx) (fs @ map (FrReconnecting (sv_tab (tm_tasks m ! i))) [a + 1..<a + k + 1]) m)"
  using \<open>a + k \<le> mx\<close>
proof (induction k arbitrary: a fs)
  case (Suc k)
  then have "a < mx" by simp
  then have "term_run num (fail_round i) (at_pc i (SvTry a mx) fs m) =
      Some (at_pc i (SvTry (a + 1) mx) (fs @ [FrReconnecting (sv_tab (tm_tasks m ! i)) (a + 1)]) m)"
    by (simp add: fail_round_def attempt_moves [OF i t, simplified])
  moreover have "[a + 1..<a + Suc k + 1] = (a + 1) # [a + 1 + 1..<a + 1 + k + 1]"
    by (simp add: upt_rec)
  ultimately show ?case
    using Suc.IH [of "a + 1" "fs @ [FrReconnecting (sv_tab (tm_tasks m ! i)) (a + 1)]"] Suc.prems
    by (simp add: term_run_append)
qed simp

lemma parse_reconnect_attempts_le: "parse_reconnect_attempts num raw \<le> 20"
  by (auto simp: parse_reconnect_attempts_def DEFAULT_RECONNECT_ATTEMPTS_def MAX_RECONNECT_ATTEMPTS_def split: option.splits)

lemma limit_move:
  assumes "i < length (tm_tasks m)" "sv_pc (tm_tasks m ! i) = SvLimit"
  shows "term_step num (Supervise i (Setting raw)) m = Some (at_pc i (SvTry 0 (parse_reconnect_attempts num raw)) [] m)"
  using assms by (simp add: term_step_def sv_step_def at_pc_def)



text \<open>
  A shell that ends before \<open>term_open\<close> has made the entry of its tab: the supervisor takes the
  missing entry for a tab the user closed and ends, the entry is made afterwards, and the
  front end is told that the tab is connected. No event of the supervisor is possible any
  more: the tab stays in the table as connected until the user closes it.
\<close>

theorem early_exit_leaves_dead_tab:
  assumes "reachable term_init (term_rel num True) m"
  shows "\<exists>m'. term_run num [OpenSpawn r, Supervise (length (tm_tasks m)) Go, Supervise (length (tm_tasks m)) ReadEnd,
                 Supervise (length (tm_tasks m)) Go, OpenInsert (length (tm_tasks m)) cols rows] m = Some m' \<and>
            tm_sessions m' (tab_name (tm_seq m)) \<noteq> None \<and> last (tm_frames m') = FrConnected (tab_name (tm_seq m)) \<and>
            (\<forall>ev. term_step num (Supervise (length (tm_tasks m)) ev) m' = None)"
proof -
  have inv: "term_inv m" using assms by (rule tabs.inv_reachable)
  have none: "tm_sessions m (tab_name (tm_seq m)) = None"
  proof (rule ccontr)
    assume "tm_sessions m (tab_name (tm_seq m)) \<noteq> None"
    then obtain s where "supervised m (tab_name (tm_seq m)) s" using inv by (auto simp: term_inv_def)
    with inv show False by (fastforce simp: term_inv_def supervised_def tab_name_inject)
  qed
  let ?i = "length (tm_tasks m)" and ?m1 = "open_spawn r m"
  have m1: "?i < length (tm_tasks ?m1)" "tm_tasks ?m1 ! ?i = last (tm_tasks ?m1)" "sv_pc (last (tm_tasks ?m1)) = SvShell"
    "sv_tab (last (tm_tasks ?m1)) = tab_name (tm_seq m)" "tm_sessions ?m1 = tm_sessions m" "\<not> sv_inserted (last (tm_tasks ?m1))"
    by (simp_all add: open_spawn_def)
  obtain sv m2 where m2: "start_shell (last (tm_tasks ?m1)) ?m1 = (sv, m2)" by fastforce
  note f = start_shell_frame [OF m2]
  have "sv_step num Go (tm_tasks ?m1 ! ?i) ?m1 = Some (sv, m2)"
    using m1 m2 by (simp add: sv_step_def)
  then have "term_step num (Supervise ?i Go) ?m1 = Some (m2\<lparr>tm_tasks := (tm_tasks ?m1)[?i := sv]\<rparr>)"
    using m1 by (simp add: term_step_def)
  then show ?thesis
    using m1 f none
    by (simp add: term_step_def [of _ "OpenSpawn _"])
       (simp add: term_step_def sv_step_def Let_def open_insert_def emit_def split: sv_event.splits)
qed

theorem early_exit_leaves_dead_tab_witness:
  "let num = (\<lambda>_. None);
       m = the (term_run num [OpenSpawn plain_tab, Supervise 0 Go, OpenInsert 0 80 24] mgr_new)
   in \<exists>m'. term_run num [OpenSpawn plain_tab, Supervise 1 Go, Supervise 1 ReadEnd, Supervise 1 Go, OpenInsert 1 80 24] m = Some m' \<and>
        tm_sessions m' (tab_name (tm_seq m)) \<noteq> None \<and> term_step num (Supervise 1 Go) m' = None"
  unfolding Let_def
  using early_exit_leaves_dead_tab [OF plain_tab_run(2) [OF refl], where num = "\<lambda>_. None" and r = plain_tab and cols = 80 and rows = 24,
      unfolded plain_tab_run(4) [OF refl]]
  by blast

section \<open>Asking the user\<close>

text \<open>
  The prompts of a connection go to the front end under a fresh identifier and wait for
  \<open>hostkey_confirm\<close> or \<open>ki_respond\<close>, at most two minutes. \<open>br_table\<close> is the table of the
  senders, \<open>br_answers\<close> what arrived while somebody waited, and \<open>br_results\<close> what the waiting
  call returned; a call that times out leaves its sender in the table. \<open>refuse\<close> is what a call
  without an answer returns.
\<close>

record 'd bridge =
  br_seq :: nat
  br_table :: "nat list"
  br_answers :: "nat \<Rightarrow> 'd option"
  br_results :: "nat \<Rightarrow> 'd option"

definition bridge_new :: "'d bridge" where
  "bridge_new = \<lparr>br_seq = 1, br_table = [], br_answers = (\<lambda>_. None), br_results = (\<lambda>_. None)\<rparr>"

text \<open>The numbers are shared with the other kind of prompt, which therefore uses some up.\<close>

definition other_prompt :: "'d bridge \<Rightarrow> 'd bridge" where
  "other_prompt b = b\<lparr>br_seq := br_seq b + 1\<rparr>"

definition ask :: "'d bridge \<Rightarrow> 'd bridge" where
  "ask b = b\<lparr>br_seq := br_seq b + 1, br_table := br_table b @ [br_seq b]\<rparr>"

definition deliver :: "nat \<Rightarrow> 'd \<Rightarrow> 'd bridge \<Rightarrow> 'd bridge" where
  "deliver n d b =
     (if n \<in> set (br_table b)
      then b\<lparr>br_table := filter (\<lambda>k. k \<noteq> n) (br_table b),
             br_answers := (if br_results b n = None then (br_answers b)(n \<mapsto> d) else br_answers b)\<rparr>
      else b)"

fun hostkey_decision :: "bool \<Rightarrow> bool \<Rightarrow> HostKeyDecision" where
  "hostkey_decision True True = Learn"
| "hostkey_decision True False = AcceptOnce"
| "hostkey_decision False _ = Reject"

definition hostkey_confirm :: "nat \<Rightarrow> bool \<Rightarrow> bool \<Rightarrow> HostKeyDecision bridge \<Rightarrow> HostKeyDecision bridge" where
  "hostkey_confirm n accept remember = deliver n (hostkey_decision accept remember)"

definition ki_respond :: "nat \<Rightarrow> string list option \<Rightarrow> string list option bridge \<Rightarrow> string list option bridge" where
  "ki_respond n answers = deliver n answers"

text \<open>The call returns: with the answer, or without one when the time is up.\<close>

definition answer_or :: "'d \<Rightarrow> nat \<Rightarrow> 'd bridge \<Rightarrow> 'd bridge" where
  "answer_or refuse n b =
     (if 0 < n \<and> n < br_seq b \<and> br_results b n = None
      then b\<lparr>br_results := (br_results b)(n \<mapsto> (case br_answers b n of Some d \<Rightarrow> d | None \<Rightarrow> refuse))\<rparr>
      else b)"

datatype hk_event = HkAsk | HkOther | HkConfirm nat bool bool | HkReturn nat

fun hk_step :: "hk_event \<Rightarrow> HostKeyDecision bridge \<Rightarrow> HostKeyDecision bridge" where
  "hk_step HkAsk b = ask b"
| "hk_step HkOther b = other_prompt b"
| "hk_step (HkConfirm n a r) b = hostkey_confirm n a r b"
| "hk_step (HkReturn n) b = answer_or Reject n b"

definition user_said :: "hk_event list \<Rightarrow> nat \<Rightarrow> HostKeyDecision \<Rightarrow> bool" where
  "user_said evs n d \<longleftrightarrow> (\<exists>a r. HkConfirm n a r \<in> set evs \<and> d = hostkey_decision a r)"

definition confirmed :: "hk_event list \<Rightarrow> HostKeyDecision bridge \<Rightarrow> bool" where
  "confirmed evs b \<longleftrightarrow>
     (\<forall>n d. br_answers b n = Some d \<longrightarrow> user_said evs n d) \<and>
     (\<forall>n d. br_results b n = Some d \<longrightarrow> d = Reject \<or> user_said evs n d)"

lemma user_said_snoc: "user_said evs n d \<Longrightarrow> user_said (evs @ [e]) n d"
  by (auto simp: user_said_def)

lemma hk_step_confirmed:
  assumes "confirmed evs b" "e \<in> set evs"
  shows "confirmed evs (hk_step e b)"
proof -
  have "user_said evs n (hostkey_decision a r)" if "e = HkConfirm n a r" for n a r
    using assms(2) that by (auto simp: user_said_def)
  then show ?thesis
    using assms(1) unfolding confirmed_def
    by (cases e) (simp_all add: ask_def other_prompt_def hostkey_confirm_def deliver_def answer_or_def split: option.splits)
qed

lemma confirmed_run: "confirmed evs (fold hk_step evs bridge_new)"
proof (induction evs rule: rev_induct)
  case Nil
  then show ?case by (simp add: confirmed_def bridge_new_def)
next
  case (snoc e evs)
  then have "confirmed (evs @ [e]) (fold hk_step evs bridge_new)"
    unfolding confirmed_def using user_said_snoc by blast
  then show ?case by (simp add: hk_step_confirmed)
qed

lemma hostkey_decision_cases:
  "hostkey_decision a r = Learn \<longleftrightarrow> a \<and> r" "hostkey_decision a r = AcceptOnce \<longleftrightarrow> a \<and> \<not> r" "hostkey_decision a r = Reject \<longleftrightarrow> \<not> a"
  by (cases a; cases r; simp)+

text \<open>
  A terminal connection whose prompt is answered through the bridge: when a server key is
  accepted, the known hosts trusted it, or the user accepted exactly this prompt; and when
  the file has changed, the user asked for the key to be remembered. No answer in time, an
  answer to another prompt or a file that cannot be read rejects the key.
\<close>

theorem accepted_key_was_confirmed:
  assumes "br_results (fold hk_step evs bridge_new) n = Some d"
    and "check_server_key lib (KnownHosts (\<lambda>_. d)) host port key kh = (ok, kh')"
  shows "(ok \<longrightarrow> evaluate lib host port key kh = Ok Trusted \<or> HkConfirm n True True \<in> set evs \<or> HkConfirm n True False \<in> set evs) \<and>
         (kh' \<noteq> kh \<longrightarrow> HkConfirm n True True \<in> set evs)"
proof -
  have d: "d = Reject \<or> (\<exists>a r. HkConfirm n a r \<in> set evs \<and> d = hostkey_decision a r)"
    using confirmed_run [of evs] assms(1) by (auto simp: confirmed_def user_said_def)
  then have "d = Learn \<Longrightarrow> HkConfirm n True True \<in> set evs" "d = AcceptOnce \<Longrightarrow> HkConfirm n True False \<in> set evs"
    by (metis (full_types) HostKeyDecision.distinct hostkey_decision_cases)+
  then show ?thesis
    using assms(2) by (auto simp: check_server_key_def split: sum.splits HostKeyStatus.splits HostKeyDecision.splits prod.splits)
qed

theorem accepted_key_was_confirmed_witness:
  "let evs = [HkAsk, HkOther, HkConfirm 1 True True, HkReturn 1];
       lib = \<lparr>rk_check = (\<lambda>f h p k. KhKnown (f = Some k)), rk_first_key = (\<lambda>_ _ _. None),
              rk_learn = (\<lambda>_ _ _ k. Ok k), rk_fingerprint = id, rk_algorithm = id\<rparr>;
       kh = \<lparr>kh_file = None, kh_read_error = None, kh_write_error = None\<rparr>;
       (ok, kh') = check_server_key lib (KnownHosts (\<lambda>_. Learn)) ''h'' 22 ''k'' kh
   in br_results (fold hk_step evs bridge_new) 1 = Some Learn \<and> ok \<and> kh_file kh' = Some ''k'' \<and> HkConfirm 1 True True \<in> set evs"
proof -
  let ?evs = "[HkAsk, HkOther, HkConfirm 1 True True, HkReturn 1]"
  let ?lib = "\<lparr>rk_check = (\<lambda>f h p k. KhKnown (f = Some k)), rk_first_key = (\<lambda>_ _ _. None),
              rk_learn = (\<lambda>_ _ _ k. Ok k), rk_fingerprint = id, rk_algorithm = id\<rparr>"
  let ?kh = "\<lparr>kh_file = None, kh_read_error = None, kh_write_error = None\<rparr>"
  have r: "br_results (fold hk_step ?evs bridge_new) 1 = Some Learn"
    by (simp add: ask_def other_prompt_def hostkey_confirm_def deliver_def answer_or_def bridge_new_def)
  have c: "check_server_key ?lib (KnownHosts (\<lambda>_. Learn)) ''h'' 22 ''k'' ?kh = (True, ?kh\<lparr>kh_file := Some ''k''\<rparr>)"
    by (simp add: check_server_key_def evaluate_def remove_host_keys_def learn_def)
  have "HkConfirm 1 True True \<in> set ?evs"
    using accepted_key_was_confirmed [OF r c] by simp
  with r c show ?thesis by (simp add: Let_def)
qed

end
