(* ===== verification/Sftp_Slot.thy ===== *)
theory Sftp_Slot
  imports Prelude
begin

text \<open>
  The single-flight slot of \<^verbatim>\<open>src/crates/core-sftp/src/slot.rs\<close>, which owns the client of one
  SFTP subsystem: callers share a ready client, a suspect one is probed before it is used
  again, and a missing one is opened by one recovery task for everybody.

  A \<open>watch\<close> channel is a cell of \<open>cells\<close> that keeps the last value sent; the state and the
  waiting callers hold its index. What the probe and the factory answer is part of the step
  that ends a recovery. \<open>installed\<close> is history: the clients opened so far, in order. Times
  are milliseconds.
\<close>

section \<open>State and operations\<close>

datatype 'c SlotState = Empty | SlotFailed nat string | Recovering nat | Ready u64 'c

type_synonym 'c SlotOutcome = "(string, 'c) result"

record 'c SubsystemSlot =
  sl_state :: "'c SlotState"
  suspect :: bool
  seq :: u64
  retry_backoff :: u64
  cells :: "'c SlotOutcome option list"
  recoveries :: "(nat \<times> (u64 \<times> 'c) option) list"
  installed :: "'c list"

definition slot_new :: "'c SubsystemSlot" where
  "slot_new = \<lparr>sl_state = Empty, suspect = False, seq = 0, retry_backoff = 0, cells = [], recoveries = [], installed = []\<rparr>"

definition set_retry_backoff :: "u64 \<Rightarrow> 'c SubsystemSlot \<Rightarrow> 'c SubsystemSlot" where
  "set_retry_backoff ms s = s\<lparr>retry_backoff := ms\<rparr>"

definition ready_client :: "'c SubsystemSlot \<Rightarrow> 'c option" where
  "ready_client s = (case sl_state s of Ready g c \<Rightarrow> Some c | _ \<Rightarrow> None)"

definition invalidate :: "'c SubsystemSlot \<Rightarrow> 'c SubsystemSlot" where
  "invalidate s = (case sl_state s of Ready g c \<Rightarrow> s\<lparr>sl_state := Empty\<rparr> | _ \<Rightarrow> s)"

definition state_name :: "'c SubsystemSlot \<Rightarrow> string" where
  "state_name s =
     (case sl_state s of Empty \<Rightarrow> ''empty'' | SlotFailed _ _ \<Rightarrow> ''failed'' | Recovering _ \<Rightarrow> ''connecting'' | Ready _ _ \<Rightarrow> ''ready'')"

definition backoff :: "'c SubsystemSlot \<Rightarrow> nat" where
  "backoff s = unat (retry_backoff s)"

definition record_error :: "'c SubsystemSlot \<Rightarrow> 'c SubsystemSlot" where
  "record_error s = s\<lparr>suspect := True\<rparr>"

definition generation :: "'c SubsystemSlot \<Rightarrow> u64" where
  "generation s = (case sl_state s of Ready g c \<Rightarrow> g | _ \<Rightarrow> seq s)"

text \<open>The fast path of \<open>get\<close>.\<close>

definition get_fast :: "'c SubsystemSlot \<Rightarrow> 'c option" where
  "get_fast s = (case sl_state s of Ready g c \<Rightarrow> if \<not> suspect s then Some c else None | _ \<Rightarrow> None)"

datatype 'c Act = Return 'c | Recover "(u64 \<times> 'c) option" | Wait nat | Fail string

definition ensure_act :: "nat \<Rightarrow> 'c SubsystemSlot \<Rightarrow> 'c Act" where
  "ensure_act now s =
     (case sl_state s of
        Ready g c \<Rightarrow> if \<not> suspect s then Return c else Recover (Some (g, c))
      | Empty \<Rightarrow> Recover None
      | SlotFailed at e \<Rightarrow> if now - at < backoff s then Fail e else Recover None
      | Recovering k \<Rightarrow> Wait k)"

text \<open>\<open>ensure\<close> up to its wait: what the caller has, and the slot it leaves.\<close>

datatype 'c ensured = Got 'c | Waiting nat | Rejected string

definition ensure :: "nat \<Rightarrow> 'c SubsystemSlot \<Rightarrow> 'c ensured \<times> 'c SubsystemSlot" where
  "ensure now s =
     (case ensure_act now s of
        Return c \<Rightarrow> (Got c, s)
      | Recover old \<Rightarrow>
          (let k = length (cells s)
           in (Waiting k, s\<lparr>cells := cells s @ [None], sl_state := Recovering k,
                           recoveries := recoveries s @ [(k, old)]\<rparr>))
      | Wait k \<Rightarrow> (Waiting k, s)
      | Fail e \<Rightarrow> (Rejected e, s))"

datatype 'c recovered = Kept u64 'c | Fresh 'c | RecFailed string

text \<open>The probe of an old client decides whether the factory is called at all.\<close>

definition recover_outcome :: "(u64 \<times> 'c) option \<Rightarrow> bool \<Rightarrow> 'c SlotOutcome \<Rightarrow> 'c recovered" where
  "recover_outcome old probe_ok opened =
     (case old of
        Some (g, c) \<Rightarrow> if probe_ok then Kept g c else (case opened of Inr c' \<Rightarrow> Fresh c' | Inl e \<Rightarrow> RecFailed e)
      | None \<Rightarrow> (case opened of Inr c' \<Rightarrow> Fresh c' | Inl e \<Rightarrow> RecFailed e))"

definition finish_recover :: "nat \<Rightarrow> nat \<Rightarrow> 'c recovered \<Rightarrow> 'c SubsystemSlot \<Rightarrow> 'c SubsystemSlot" where
  "finish_recover now k done s =
     (case done of
        Kept g c \<Rightarrow> s\<lparr>suspect := False, sl_state := Ready g c, cells := (cells s)[k := Some (Ok c)]\<rparr>
      | Fresh c \<Rightarrow> s\<lparr>suspect := False, seq := seq s + 1, sl_state := Ready (seq s + 1) c,
                     cells := (cells s)[k := Some (Ok c)], installed := installed s @ [c]\<rparr>
      | RecFailed e \<Rightarrow> s\<lparr>sl_state := (if backoff s = 0 then Empty else SlotFailed now e),
                         cells := (cells s)[k := Some (Err e)]\<rparr>)"

section \<open>Callers and the recovery task\<close>

text \<open>
  A caller has not called, is between the fast path and \<open>ensure\<close>, waits on a cell, or has
  its answer; it may be dropped while it waits.
\<close>

datatype 'c caller = CIdle | CEnsure | CWait nat | CGot 'c | CErr string

record 'c slot_sys =
  slot :: "'c SubsystemSlot"
  callers :: "nat \<Rightarrow> 'c caller"

definition slot_init :: "'c slot_sys \<Rightarrow> bool" where
  "slot_init s \<longleftrightarrow> s = \<lparr>slot = slot_new, callers = (\<lambda>_. CIdle)\<rparr>"

abbreviation c_goto :: "'c slot_sys \<Rightarrow> nat \<Rightarrow> 'c caller \<Rightarrow> 'c slot_sys" where
  "c_goto s i p \<equiv> s\<lparr>callers := (callers s)(i := p)\<rparr>"

fun to_caller :: "'c ensured \<Rightarrow> 'c caller" where
  "to_caller (Got c) = CGot c"
| "to_caller (Waiting k) = CWait k"
| "to_caller (Rejected e) = CErr e"

inductive slot_step :: "'c slot_sys \<Rightarrow> 'c slot_sys \<Rightarrow> bool" where
  sl_fast: "callers s i = CIdle \<Longrightarrow> get_fast (slot s) = Some c \<Longrightarrow> slot_step s (c_goto s i (CGot c))"
| sl_slow: "callers s i = CIdle \<Longrightarrow> get_fast (slot s) = None \<Longrightarrow> slot_step s (c_goto s i CEnsure)"
| sl_ensure: "callers s i = CEnsure \<Longrightarrow> ensure now (slot s) = (r, s') \<Longrightarrow>
     slot_step s ((c_goto s i (to_caller r))\<lparr>slot := s'\<rparr>)"
| sl_served: "callers s i = CWait k \<Longrightarrow> cells (slot s) ! k = Some out \<Longrightarrow>
     slot_step s (c_goto s i (case out of Inr c \<Rightarrow> CGot c | Inl e \<Rightarrow> CErr e))"
| sl_drop: "slot_step s (c_goto s i CIdle)"
| sl_invalidate: "slot_step s (s\<lparr>slot := invalidate (slot s)\<rparr>)"
| sl_record_error: "slot_step s (s\<lparr>slot := record_error (slot s)\<rparr>)"
| sl_backoff: "slot_step s (s\<lparr>slot := set_retry_backoff ms (slot s)\<rparr>)"
| sl_recovered: "recoveries (slot s) = rs @ (k, old) # rs' \<Longrightarrow>
     slot_step s (s\<lparr>slot := (finish_recover now k (recover_outcome old ok opened) (slot s))\<lparr>recoveries := rs @ rs'\<rparr>\<rparr>)"

section \<open>Single flight\<close>

text \<open>The \<open>n\<close>-th client ever opened has generation \<open>n + 1\<close>.\<close>

definition known :: "'c SubsystemSlot \<Rightarrow> u64 \<Rightarrow> 'c \<Rightarrow> bool" where
  "known s g c \<longleftrightarrow> (\<exists>n < length (installed s). g = of_nat (Suc n) \<and> installed s ! n = c)"

definition flight_ok :: "'c SubsystemSlot \<Rightarrow> bool" where
  "flight_ok s \<longleftrightarrow>
     (case sl_state s of
        Recovering k \<Rightarrow> k < length (cells s) \<and> cells s ! k = None \<and>
          (\<exists>old. recoveries s = [(k, old)] \<and> (\<forall>g c. old = Some (g, c) \<longrightarrow> known s g c))
      | Ready g c \<Rightarrow> recoveries s = [] \<and> known s g c
      | _ \<Rightarrow> recoveries s = [])"

definition slot_ok :: "'c SubsystemSlot \<Rightarrow> bool" where
  "slot_ok s \<longleftrightarrow> flight_ok s \<and> seq s = of_nat (length (installed s))"

definition waiter_ok :: "'c SubsystemSlot \<Rightarrow> 'c caller \<Rightarrow> bool" where
  "waiter_ok s p \<longleftrightarrow>
     (case p of CWait k \<Rightarrow> k < length (cells s) \<and> (cells s ! k \<noteq> None \<or> sl_state s = Recovering k) | _ \<Rightarrow> True)"

definition slot_inv :: "'c slot_sys \<Rightarrow> bool" where
  "slot_inv s \<longleftrightarrow> slot_ok (slot s) \<and> (\<forall>i. waiter_ok (slot s) (callers s i))"

lemma slot_inv_goto: "slot_inv s \<Longrightarrow> waiter_ok (slot s) p \<Longrightarrow> slot_inv (c_goto s i p)"
  by (simp add: slot_inv_def)

lemma ensure_inv:
  assumes "slot_ok s" "ensure now s = (r, s')"
  shows "slot_ok s'" "waiter_ok s' (to_caller r)" "waiter_ok s p \<Longrightarrow> waiter_ok s' p"
  using assms
  by (auto simp: ensure_def ensure_act_def slot_ok_def flight_ok_def waiter_ok_def known_def Let_def nth_append
      split: SlotState.splits if_splits caller.splits)

lemma invalidate_inv: "slot_ok s \<Longrightarrow> slot_ok (invalidate s)" "waiter_ok s p \<Longrightarrow> waiter_ok (invalidate s) p"
  by (auto simp: invalidate_def slot_ok_def flight_ok_def waiter_ok_def split: SlotState.splits caller.splits)

lemma flag_inv:
  "slot_ok s \<Longrightarrow> slot_ok (record_error s)" "waiter_ok s p \<Longrightarrow> waiter_ok (record_error s) p"
  "slot_ok s \<Longrightarrow> slot_ok (set_retry_backoff ms s)" "waiter_ok s p \<Longrightarrow> waiter_ok (set_retry_backoff ms s) p"
  by (auto simp: record_error_def set_retry_backoff_def slot_ok_def flight_ok_def known_def waiter_ok_def
      split: SlotState.splits caller.splits)

lemma recovering_unique:
  assumes "slot_ok s" "recoveries s = rs @ (k, old) # rs'"
  shows "sl_state s = Recovering k" "rs = []" "rs' = []" "k < length (cells s)" "\<forall>g c. old = Some (g, c) \<longrightarrow> known s g c"
  using assms by (auto simp: slot_ok_def flight_ok_def Cons_eq_append_conv append_eq_Cons_conv split: SlotState.splits)

lemma finish_inv:
  assumes "slot_ok s" "recoveries s = rs @ (k, old) # rs'"
    "s' = (finish_recover now k (recover_outcome old ok opened) s)\<lparr>recoveries := rs @ rs'\<rparr>"
  shows "slot_ok s'" "waiter_ok s p \<Longrightarrow> waiter_ok s' p"
proof -
  note s' = assms(3)
  note u = recovering_unique [OF assms(1,2)]
  show "slot_ok s'"
    using u assms(1)
    by (auto simp: s' finish_recover_def recover_outcome_def slot_ok_def flight_ok_def known_def nth_append
        split: option.splits sum.splits if_splits)
  assume "waiter_ok s p"
  with u show "waiter_ok s' p"
    by (auto simp: s' finish_recover_def waiter_ok_def nth_list_update split: recovered.splits caller.splits)
qed

interpretation slot: invariant_system slot_init slot_step slot_inv
proof (unfold_locales, goal_cases)
  case (1 s)
  then show ?case
    by (simp add: slot_init_def slot_inv_def slot_ok_def flight_ok_def slot_new_def waiter_ok_def)
next
  case (2 s t)
  from 2(2,1) show ?case
  proof (induction rule: slot_step.induct)
    case (sl_ensure s i now r s')
    then have ok: "slot_ok (slot s)" by (simp add: slot_inv_def)
    from ensure_inv [OF ok sl_ensure(2)] sl_ensure show ?case by (simp add: slot_inv_def)
  next
    case (sl_served s i k out)
    then show ?case by (intro slot_inv_goto) (auto simp: waiter_ok_def split: sum.splits)
  next
    case (sl_recovered s rs k old rs' now ok opened)
    then have "slot_ok (slot s)" by (simp add: slot_inv_def)
    from finish_inv [OF this sl_recovered(1) refl] sl_recovered show ?case by (simp add: slot_inv_def)
  next
    case (sl_invalidate s)
    then show ?case by (simp add: slot_inv_def invalidate_inv)
  next
    case (sl_record_error s)
    then show ?case by (simp add: slot_inv_def flag_inv)
  next
    case (sl_backoff s ms)
    then show ?case by (simp add: slot_inv_def flag_inv)
  qed (auto intro: slot_inv_goto simp: waiter_ok_def)
qed

section \<open>Properties\<close>

text \<open>
  C14. Single flight: in every interleaving at most one recovery runs, exactly while the
  slot is recovering, and no caller is left behind: whoever waits either has its outcome
  in the cell it holds or waits on the recovery that is running.
\<close>

theorem single_flight:
  assumes "reachable slot_init slot_step s"
  shows "length (recoveries (slot s)) = (case sl_state (slot s) of Recovering _ \<Rightarrow> 1 | _ \<Rightarrow> 0) \<and>
    (callers s i = CWait k \<longrightarrow> cells (slot s) ! k \<noteq> None \<or> (\<exists>old. recoveries (slot s) = [(k, old)]))"
proof -
  have inv: "slot_ok (slot s)" "waiter_ok (slot s) (callers s i)"
    using slot.inv_reachable [OF assms] by (simp_all add: slot_inv_def)
  from inv(1) have "length (recoveries (slot s)) = (case sl_state (slot s) of Recovering _ \<Rightarrow> 1 | _ \<Rightarrow> 0)"
    by (auto simp: slot_ok_def flight_ok_def split: SlotState.splits)
  moreover from inv have "callers s i = CWait k \<Longrightarrow> cells (slot s) ! k \<noteq> None \<or> (\<exists>old. recoveries (slot s) = [(k, old)])"
    by (auto simp: waiter_ok_def slot_ok_def flight_ok_def split: SlotState.splits)
  ultimately show ?thesis by blast
qed

definition slot_waiting :: "nat slot_sys" where
  "slot_waiting = \<lparr>slot = slot_new\<lparr>cells := [None], sl_state := Recovering 0, recoveries := [(0, None)]\<rparr>,
     callers = (\<lambda>_. CIdle)(0 := CWait 0)\<rparr>"

definition slot_served :: "nat slot_sys" where
  "slot_served = slot_waiting\<lparr>slot := (finish_recover 0 0 (Fresh 42) (slot slot_waiting))\<lparr>recoveries := []\<rparr>\<rparr>"

lemma reachable_slot_waiting: "reachable slot_init slot_step slot_waiting"
proof -
  let ?s0 = "\<lparr>slot = slot_new, callers = (\<lambda>_. CIdle)\<rparr> :: nat slot_sys"
  have r0: "reachable slot_init slot_step ?s0" by (rule reach_init) (simp add: slot_init_def)
  have s1: "slot_step ?s0 (c_goto ?s0 0 CEnsure)"
    by (rule sl_slow) (simp_all add: get_fast_def slot_new_def)
  let ?s1 = "c_goto ?s0 0 CEnsure"
  have "ensure 0 (slot ?s1) = (Waiting 0, slot slot_waiting)"
    by (simp add: ensure_def ensure_act_def slot_new_def slot_waiting_def)
  from sl_ensure [of ?s1 0, OF _ this] have s2: "slot_step ?s1 slot_waiting"
    by (simp add: slot_waiting_def)
  from reach_step [OF reach_step [OF r0 s1] s2] show ?thesis .
qed

lemma reachable_slot_served: "reachable slot_init slot_step slot_served"
proof -
  have "slot_step slot_waiting slot_served"
    using sl_recovered [of slot_waiting "[]" 0 None "[]" 0 True "Inr 42"]
    by (simp add: slot_served_def recover_outcome_def) (simp add: slot_waiting_def)
  from reach_step [OF reachable_slot_waiting this] show ?thesis .
qed

theorem single_flight_witness:
  "length (recoveries (slot slot_waiting)) = 1 \<and> (\<exists>old. recoveries (slot slot_waiting) = [(0, old)])"
  using single_flight [OF reachable_slot_waiting, of 0 0] by (simp add: slot_waiting_def)

text \<open>
  Generations identify clients: the client a caller finds ready under generation \<open>g\<close>
  is the \<open>g\<close>-th client ever opened, so a probe that succeeds brings back the same client
  under the same generation, and a reopened one gets a new generation (up to the width of
  the counter).
\<close>

theorem generation_identifies_client:
  assumes "reachable slot_init slot_step s" "sl_state (slot s) = Ready g c" "length (installed (slot s)) < 2 ^ 64"
  shows "0 < unat g \<and> unat g \<le> length (installed (slot s)) \<and> installed (slot s) ! (unat g - 1) = c \<and>
    unat (seq (slot s)) = length (installed (slot s))"
proof -
  have "slot_ok (slot s)" using slot.inv_reachable [OF assms(1)] by (simp add: slot_inv_def)
  with assms(2) obtain n where n: "n < length (installed (slot s))" "g = of_nat (Suc n)" "installed (slot s) ! n = c"
    and seq: "seq (slot s) = of_nat (length (installed (slot s)))"
    by (auto simp: slot_ok_def flight_ok_def known_def)
  have "unat g = Suc n" using n(1,2) assms(3) by (simp only: unat_of_nat) simp
  moreover have "unat (seq (slot s)) = length (installed (slot s))" using seq assms(3) by (simp add: unat_of_nat)
  ultimately show ?thesis using n by simp
qed

theorem generation_identifies_client_witness:
  "sl_state (slot slot_served) = Ready 1 42 \<and> installed (slot slot_served) ! 0 = 42"
proof -
  have "sl_state (slot slot_served) = Ready 1 42" "length (installed (slot slot_served)) = 1"
    by (simp_all add: slot_served_def slot_waiting_def finish_recover_def slot_new_def)
  with generation_identifies_client [OF reachable_slot_served this(1)] show ?thesis by simp
qed

text \<open>
  A failed connection is not cached but throttled: while the back-off window of a
  failure is open, every caller gets that error at once and the slot stays as it is; when
  it has passed, or without a window, the next caller starts a new recovery.
\<close>

theorem failure_is_throttled:
  assumes "sl_state s = SlotFailed at e"
  shows "ensure now s =
    (if now - at < unat (retry_backoff s) then (Rejected e, s)
     else (Waiting (length (cells s)),
           s\<lparr>cells := cells s @ [None], sl_state := Recovering (length (cells s)),
             recoveries := recoveries s @ [(length (cells s), None)]\<rparr>)) \<and>
   (retry_backoff s = 0 \<longrightarrow> sl_state (finish_recover now k (RecFailed e') s) = Empty)"
  using assms by (auto simp: ensure_def ensure_act_def backoff_def finish_recover_def Let_def)

theorem failure_is_throttled_witness:
  "ensure 500 ((slot_new :: nat SubsystemSlot)\<lparr>sl_state := SlotFailed 0 ''refused'', retry_backoff := 2000\<rparr>) =
     (Rejected ''refused'', slot_new\<lparr>sl_state := SlotFailed 0 ''refused'', retry_backoff := 2000\<rparr>)"
  using failure_is_throttled [of "(slot_new :: nat SubsystemSlot)\<lparr>sl_state := SlotFailed 0 ''refused'', retry_backoff := 2000\<rparr>"
      0 "''refused''" 500 0 "''refused''"] by simp

end
