(* ===== verification/Sftp_Transfer.thy ===== *)
theory Sftp_Transfer
  imports Rust_Text
begin

text \<open>
  The single-file transfer queue of \<^verbatim>\<open>src/crates/core-sftp/src/transfer.rs\<close>: the transfer
  state machine, the registry with its commands, the priority ledger and the hooks the
  executor calls (\<open>QueueFlow\<close>).

  A \<open>TransferInner\<close> is shared by the registry and by the tasks that run it, and lives on
  after it is removed from the registry, so the queue keeps all of them in \<open>inners\<close>, and
  an address is an index into that list. The registry is an association list with distinct
  keys, since a \<open>HashMap\<close> has no order of its own. \<open>usize\<close> is 64 bits wide.

  The updates of the two priority counters are atomic accesses of their own, which come
  after the change of the transfer's own mark. The hooks therefore return them as
  \<open>delta\<close>s; a command that runs alone applies them at once, and the step relation applies
  them at any later time.
\<close>

section \<open>Conflict policy\<close>

datatype OnExists = Resume | Overwrite | Skip | Rename

fun on_exists_str :: "OnExists \<Rightarrow> string" where
  "on_exists_str Resume = ''resume''"
| "on_exists_str Overwrite = ''overwrite''"
| "on_exists_str Skip = ''skip''"
| "on_exists_str Rename = ''rename''"

fun runtime :: "OnExists \<Rightarrow> OnExists" where
  "runtime Overwrite = Overwrite"
| "runtime _ = Resume"

definition resume_offset :: "u64 \<Rightarrow> u64 \<Rightarrow> OnExists \<Rightarrow> u64" where
  "resume_offset target_len source_len mode =
     (case mode of Overwrite \<Rightarrow> 0 | _ \<Rightarrow> if target_len > source_len then 0 else target_len)"

definition rename_candidate :: "string \<Rightarrow> nat \<Rightarrow> string" where
  "rename_candidate path n =
     (let (dir, name) = (case rsplit_at (\<lambda>c. c = CHR ''/'' \<or> c = CHR 0x5C) path of
                           Some (d, nm) \<Rightarrow> (d, nm) | None \<Rightarrow> ([], path));
          (stem, ext) = (case rsplit_at (\<lambda>c. c = CHR ''.'') name of
                           Some (s, e) \<Rightarrow> if length s > 1 then (butlast s, last s # e) else (name, [])
                         | None \<Rightarrow> (name, []))
      in dir @ stem @ ''-'' @ show_nat n @ ext)"

section \<open>Transfers\<close>

datatype TransferDirection = Upload | Download

datatype TransferState = Queued | Running | Paused | Done | Failed | Canceled

fun state_str :: "TransferState \<Rightarrow> string" where
  "state_str Queued = ''queued''"
| "state_str Running = ''running''"
| "state_str Paused = ''paused''"
| "state_str Done = ''done''"
| "state_str Failed = ''failed''"
| "state_str Canceled = ''canceled''"

definition is_terminal :: "TransferState \<Rightarrow> bool" where
  "is_terminal s \<longleftrightarrow> s \<in> {Done, Failed, Canceled}"

text \<open>The messages of \<open>SftpError\<close> that the queue builds, by what they say.\<close>

datatype reason =
    NoSuchTransfer | TerminalNotPrioritised TransferState | NotRetriable TransferState
  | NotRemovable TransferState | NoRenameCandidate | Reported string

datatype SftpError =
    Subsystem string
  | RemotePath string reason
  | LocalIo string reason
  | Interrupted u64 u64
  | Ssh string

record TransferInfo =
  ti_id :: string
  ti_direction :: TransferDirection
  ti_local :: string
  ti_remote :: string
  ti_state :: TransferState
  ti_bytes_done :: u64
  ti_bytes_total :: u64
  ti_on_exists :: OnExists
  ti_priority :: bool
  ti_retries :: u32
  ti_error :: "string option"

record TransferInner =
  t_info :: TransferInfo
  t_bytes_done :: u64
  t_pause :: bool
  t_cancel :: bool
  t_priority :: u8

record TransferQueue =
  inners :: "TransferInner list"
  transfers :: "(string \<times> nat) list"
  id_seq :: u64
  priority_waiting :: u64
  priority_running :: u64
  max_retries :: u32
  on_progress :: bool
  emitted :: "TransferInfo list"

definition DEFAULT_MAX_RETRIES :: u32 where "DEFAULT_MAX_RETRIES = 2"

definition queue_new :: TransferQueue where
  "queue_new =
     \<lparr>inners = [], transfers = [], id_seq = 1, priority_waiting = 0, priority_running = 0,
      max_retries = DEFAULT_MAX_RETRIES, on_progress = False, emitted = []\<rparr>"

definition set_progress_callback :: "TransferQueue \<Rightarrow> TransferQueue" where
  "set_progress_callback q = q\<lparr>on_progress := True\<rparr>"

definition snapshot :: "TransferInner \<Rightarrow> TransferInfo" where
  "snapshot t = (t_info t)\<lparr>ti_bytes_done := t_bytes_done t, ti_priority := (t_priority t \<noteq> 0)\<rparr>"

definition emit :: "nat \<Rightarrow> TransferQueue \<Rightarrow> TransferQueue" where
  "emit a q = (if on_progress q then q\<lparr>emitted := emitted q @ [snapshot (inners q ! a)]\<rparr> else q)"

definition upd :: "nat \<Rightarrow> (TransferInner \<Rightarrow> TransferInner) \<Rightarrow> TransferQueue \<Rightarrow> TransferQueue" where
  "upd a f q = q\<lparr>inners := (inners q)[a := f (inners q ! a)]\<rparr>"

definition set_state :: "TransferState \<Rightarrow> TransferInner \<Rightarrow> TransferInner" where
  "set_state s t = t\<lparr>t_info := (t_info t)\<lparr>ti_state := s\<rparr>\<rparr>"

abbreviation state_of :: "TransferInner \<Rightarrow> TransferState" where
  "state_of t \<equiv> ti_state (t_info t)"

text \<open>\<open>millis\<close> is the wall clock; the identifier is \<open>tr-<millis>-<seq>\<close>.\<close>

definition fresh_inner ::
  "string \<Rightarrow> TransferDirection \<Rightarrow> string \<Rightarrow> string \<Rightarrow> u64 \<Rightarrow> OnExists \<Rightarrow> TransferInner" where
  "fresh_inner i dir local remote bytes oe =
     \<lparr>t_info = \<lparr>ti_id = i, ti_direction = dir, ti_local = local, ti_remote = remote, ti_state = Queued,
        ti_bytes_done = 0, ti_bytes_total = bytes, ti_on_exists = oe, ti_priority = False,
        ti_retries = 0, ti_error = None\<rparr>,
      t_bytes_done = 0, t_pause = False, t_cancel = False, t_priority = 0\<rparr>"

definition transfer_id :: "nat \<Rightarrow> u64 \<Rightarrow> string" where
  "transfer_id millis seq = ''tr-'' @ show_nat millis @ ''-'' @ show_nat (unat seq)"

text \<open>\<open>HashMap::insert\<close> and \<open>remove\<close> on the association list.\<close>

definition map_insert :: "'k \<Rightarrow> 'v \<Rightarrow> ('k \<times> 'v) list \<Rightarrow> ('k \<times> 'v) list" where
  "map_insert k v m = (k, v) # filter (\<lambda>(k', _). k' \<noteq> k) m"

definition map_remove :: "'k \<Rightarrow> ('k \<times> 'v) list \<Rightarrow> ('k \<times> 'v) list" where
  "map_remove k m = filter (\<lambda>(k', _). k' \<noteq> k) m"

definition register ::
  "nat \<Rightarrow> TransferDirection \<Rightarrow> string \<Rightarrow> string \<Rightarrow> u64 \<Rightarrow> OnExists \<Rightarrow> TransferQueue \<Rightarrow> (string \<times> nat) \<times> TransferQueue" where
  "register millis dir local remote bytes oe q =
     (let i = transfer_id millis (id_seq q); a = length (inners q)
      in ((i, a), q\<lparr>id_seq := id_seq q + 1, inners := inners q @ [fresh_inner i dir local remote bytes oe],
                   transfers := map_insert i a (transfers q)\<rparr>))"

section \<open>Commands\<close>

definition transfer_list :: "TransferQueue \<Rightarrow> TransferInfo list" where
  "transfer_list q = map (\<lambda>(_, a). snapshot (inners q ! a)) (transfers q)"

definition transfer_get :: "string \<Rightarrow> TransferQueue \<Rightarrow> TransferInfo option" where
  "transfer_get i q = map_option (\<lambda>a. snapshot (inners q ! a)) (map_of (transfers q) i)"

definition with_transfer ::
  "string \<Rightarrow> (nat \<Rightarrow> TransferQueue \<Rightarrow> 'r \<times> TransferQueue) \<Rightarrow> TransferQueue \<Rightarrow> (SftpError, 'r) result \<times> TransferQueue" where
  "with_transfer i f q =
     (case map_of (transfers q) i of
        None \<Rightarrow> (Err (RemotePath i NoSuchTransfer), q)
      | Some a \<Rightarrow> (let (r, q') = f a q in (Ok r, q')))"

definition pause :: "string \<Rightarrow> TransferQueue \<Rightarrow> (SftpError, unit) result \<times> TransferQueue" where
  "pause i = with_transfer i (\<lambda>a q. ((), upd a (\<lambda>t. t\<lparr>t_pause := True\<rparr>) q))"

definition resume_inner :: "TransferInner \<Rightarrow> TransferInner" where
  "resume_inner t = set_state Running (t\<lparr>t_pause := False\<rparr>)"

definition resume :: "string \<Rightarrow> TransferQueue \<Rightarrow> (SftpError, unit) result \<times> TransferQueue" where
  "resume i = with_transfer i (\<lambda>a q. ((), upd a resume_inner q))"

definition cancel :: "string \<Rightarrow> TransferQueue \<Rightarrow> (SftpError, unit) result \<times> TransferQueue" where
  "cancel i = with_transfer i (\<lambda>a q. ((), upd a (\<lambda>t. t\<lparr>t_cancel := True, t_pause := False\<rparr>) q))"

text \<open>The two counters, and an update of one of them that is still to be made.\<close>

datatype delta = DWait u64 | DRun u64

fun apply_delta :: "delta \<Rightarrow> TransferQueue \<Rightarrow> TransferQueue" where
  "apply_delta (DWait d) q = q\<lparr>priority_waiting := priority_waiting q + d\<rparr>"
| "apply_delta (DRun d) q = q\<lparr>priority_running := priority_running q + d\<rparr>"

definition repay_swap :: "TransferInner \<Rightarrow> TransferInner \<times> delta list" where
  "repay_swap t =
     (t\<lparr>t_priority := 0\<rparr>,
      if t_priority t = 1 then [DWait (- 1)] else if t_priority t = 2 then [DRun (- 1)] else [])"

definition cas_priority :: "u8 \<Rightarrow> u8 \<Rightarrow> delta list \<Rightarrow> TransferInner \<Rightarrow> TransferInner \<times> delta list" where
  "cas_priority old new ds t = (if t_priority t = old then (t\<lparr>t_priority := new\<rparr>, ds) else (t, []))"

definition prioritize_inner :: "string \<Rightarrow> TransferInner \<Rightarrow> (SftpError, TransferInner \<times> delta list) result" where
  "prioritize_inner i t =
     (case state_of t of
        Queued \<Rightarrow> Ok (cas_priority 0 1 [DWait 1] t)
      | Paused \<Rightarrow> Ok (cas_priority 0 1 [DWait 1] t)
      | Running \<Rightarrow> Ok (cas_priority 0 2 [DRun 1] t)
      | s \<Rightarrow> Err (RemotePath i (TerminalNotPrioritised s)))"

text \<open>A hook run alone: its counter updates follow at once.\<close>

definition run_hook :: "(TransferInner \<Rightarrow> TransferInner \<times> delta list) \<Rightarrow> nat \<Rightarrow> TransferQueue \<Rightarrow> TransferQueue" where
  "run_hook h a q = (let (t, ds) = h (inners q ! a) in fold apply_delta ds (upd a (\<lambda>_. t) q))"

definition repay_priority :: "nat \<Rightarrow> TransferQueue \<Rightarrow> TransferQueue" where
  "repay_priority = run_hook repay_swap"

definition prioritize :: "string \<Rightarrow> TransferQueue \<Rightarrow> (SftpError, unit) result \<times> TransferQueue" where
  "prioritize i q =
     (case map_of (transfers q) i of
        None \<Rightarrow> (Err (RemotePath i NoSuchTransfer), q)
      | Some a \<Rightarrow>
          (case prioritize_inner i (inners q ! a) of
             Inl e \<Rightarrow> (Err e, q)
           | Inr (t, ds) \<Rightarrow> (Ok (), fold apply_delta ds (upd a (\<lambda>_. t) q))))"

definition retry_inner :: "TransferInner \<Rightarrow> TransferInner" where
  "retry_inner t =
     t\<lparr>t_info := (t_info t)\<lparr>ti_state := Queued, ti_retries := 0, ti_error := None\<rparr>,
       t_pause := False, t_cancel := False, t_bytes_done := 0\<rparr>"

text \<open>\<open>retry\<close> answers with the address of the transfer whose task it spawns.\<close>

definition retry :: "string \<Rightarrow> TransferQueue \<Rightarrow> (SftpError, nat) result \<times> TransferQueue" where
  "retry i q =
     (case map_of (transfers q) i of
        None \<Rightarrow> (Err (RemotePath i NoSuchTransfer), q)
      | Some a \<Rightarrow>
          (let s = state_of (inners q ! a)
           in if s \<notin> {Failed, Canceled} then (Err (RemotePath i (NotRetriable s)), q)
              else (Ok a, emit a (upd a retry_inner q))))"

definition remove :: "string \<Rightarrow> TransferQueue \<Rightarrow> (SftpError, unit) result \<times> TransferQueue" where
  "remove i q =
     (case map_of (transfers q) i of
        None \<Rightarrow> (Err (RemotePath i NoSuchTransfer), q)
      | Some a \<Rightarrow>
          (let s = state_of (inners q ! a)
           in if \<not> is_terminal s then (Err (RemotePath i (NotRemovable s)), q)
              else (Ok (), q\<lparr>transfers := map_remove i (transfers q)\<rparr>)))"

definition clear_where :: "(TransferState \<Rightarrow> bool) \<Rightarrow> TransferQueue \<Rightarrow> TransferInfo list \<times> TransferQueue" where
  "clear_where pred q =
     (let gone = (\<lambda>(_, a). let s = state_of (inners q ! a) in is_terminal s \<and> pred s)
      in (map (\<lambda>(_, a). snapshot (inners q ! a)) (filter gone (transfers q)),
          q\<lparr>transfers := filter (\<lambda>e. \<not> gone e) (transfers q)\<rparr>))"

definition pause_all :: "TransferQueue \<Rightarrow> TransferQueue" where
  "pause_all q =
     fold (\<lambda>(_, a) q. if state_of (inners q ! a) \<in> {Queued, Running}
                      then upd a (\<lambda>t. t\<lparr>t_pause := True\<rparr>) q else q) (transfers q) q"

definition resume_all :: "TransferQueue \<Rightarrow> TransferQueue" where
  "resume_all q =
     fold (\<lambda>(_, a) q. if t_pause (inners q ! a) then upd a resume_inner q else q) (transfers q) q"

section \<open>The hooks of the executor\<close>

datatype AttemptEnd = AttDone | AttCanceled | AttFailed | AttRetry

record AttemptReport =
  r_kind :: AttemptEnd
  r_bytes :: u64
  r_error :: "string option"

definition prepare :: "nat \<Rightarrow> TransferQueue \<Rightarrow> TransferQueue" where
  "prepare a q = emit a (upd a (set_state Running) q)"

definition cancel_terminal :: "nat \<Rightarrow> TransferQueue \<Rightarrow> TransferQueue" where
  "cancel_terminal a q = emit a (repay_priority a (upd a (set_state Canceled) q))"

definition pause_edge_cas :: "TransferInner \<Rightarrow> TransferInner \<times> delta list" where
  "pause_edge_cas = cas_priority 2 1 [DRun (- 1), DWait 1]"

definition pause_edge :: "bool \<Rightarrow> nat \<Rightarrow> TransferQueue \<Rightarrow> TransferQueue" where
  "pause_edge entering a q =
     (if entering then emit a (run_hook pause_edge_cas a (upd a (set_state Paused) q)) else q)"

definition gate_blocked :: "nat \<Rightarrow> TransferQueue \<Rightarrow> bool" where
  "gate_blocked a q \<longleftrightarrow>
     (let t = inners q ! a
      in t_priority t = 0 \<and> priority_waiting q > 0 \<and> \<not> t_pause t \<and> \<not> t_cancel t)"

definition gate_cas :: "TransferInner \<Rightarrow> TransferInner \<times> delta list" where
  "gate_cas = cas_priority 1 2 [DWait (- 1), DRun 1]"

text \<open>\<open>pre_permit_gate\<close>: \<open>None\<close> while the transfer gives way.\<close>

definition pre_permit_gate :: "nat \<Rightarrow> TransferQueue \<Rightarrow> TransferQueue option" where
  "pre_permit_gate a q = (if gate_blocked a q then None else Some (run_hook gate_cas a q))"

text \<open>\<open>yield_to_priority\<close> of a transfer of this queue, at a block boundary.\<close>

definition yields :: "nat \<Rightarrow> TransferQueue \<Rightarrow> bool" where
  "yields a q \<longleftrightarrow>
     (let t = inners q ! a
      in t_priority t = 0 \<and> priority_running q > 0 \<and> \<not> t_cancel t \<and> \<not> t_pause t)"

definition report_info :: "AttemptReport \<Rightarrow> TransferInner \<Rightarrow> TransferInner" where
  "report_info r t =
     (case r_kind r of
        AttDone \<Rightarrow> set_state Done t
      | AttCanceled \<Rightarrow> set_state Canceled t
      | AttFailed \<Rightarrow> t\<lparr>t_info := (t_info t)\<lparr>ti_retries := ti_retries (t_info t) + 1, ti_error := r_error r,
                        ti_state := Failed\<rparr>\<rparr>
      | AttRetry \<Rightarrow> t\<lparr>t_info := (t_info t)\<lparr>ti_retries := ti_retries (t_info t) + 1, ti_error := r_error r\<rparr>\<rparr>)"

definition report :: "AttemptReport \<Rightarrow> nat \<Rightarrow> TransferQueue \<Rightarrow> TransferQueue" where
  "report r a q =
     (let q' = upd a (report_info r) q
      in emit a (if r_kind r = AttRetry then q' else repay_priority a q'))"

section \<open>Commands and tasks interleaved\<close>

text \<open>
  A task runs the executor on one transfer: it is running, has stored a terminal state and
  is about to give its priority mark back, or has ended. \<open>in_flight\<close> holds the counter
  updates that some thread has still to make. With \<open>guarded\<close>, \<open>resume\<close> and \<open>resume_all\<close>
  are only called when they touch no finished transfer; the code does not check this.
\<close>

datatype task_pc = TRun | TRepay | TEnd

record queue_sys =
  queue :: TransferQueue
  in_flight :: "delta list"
  tasks :: "(nat \<times> task_pc) list"

definition queue_init :: "queue_sys \<Rightarrow> bool" where
  "queue_init s \<longleftrightarrow> s = \<lparr>queue = queue_new, in_flight = [], tasks = []\<rparr>"

abbreviation mark_at :: "nat \<Rightarrow> TransferInner \<times> delta list \<Rightarrow> queue_sys \<Rightarrow> queue_sys" where
  "mark_at a r s \<equiv> s\<lparr>queue := upd a (\<lambda>_. fst r) (queue s), in_flight := in_flight s @ snd r\<rparr>"

inductive queue_step :: "bool \<Rightarrow> queue_sys \<Rightarrow> queue_sys \<Rightarrow> bool" for guarded :: bool where
  q_register: "register millis dir local remote bytes oe (queue s) = ((i, a), q) \<Longrightarrow>
     queue_step guarded s (s\<lparr>queue := q, tasks := tasks s @ [(a, TRun)]\<rparr>)"
| q_pause: "queue_step guarded s (s\<lparr>queue := snd (pause i (queue s))\<rparr>)"
| q_cancel: "queue_step guarded s (s\<lparr>queue := snd (cancel i (queue s))\<rparr>)"
| q_resume: "(\<forall>a. guarded \<and> map_of (transfers (queue s)) i = Some a \<longrightarrow> \<not> is_terminal (state_of (inners (queue s) ! a))) \<Longrightarrow>
     queue_step guarded s (s\<lparr>queue := snd (resume i (queue s))\<rparr>)"
| q_pause_all: "queue_step guarded s (s\<lparr>queue := pause_all (queue s)\<rparr>)"
| q_resume_all: "(\<forall>(i, a) \<in> set (transfers (queue s)). guarded \<and> t_pause (inners (queue s) ! a) \<longrightarrow>
       \<not> is_terminal (state_of (inners (queue s) ! a))) \<Longrightarrow>
     queue_step guarded s (s\<lparr>queue := resume_all (queue s)\<rparr>)"
| q_prioritize: "map_of (transfers (queue s)) i = Some a \<Longrightarrow>
     prioritize_inner i (inners (queue s) ! a) = Ok r \<Longrightarrow> queue_step guarded s (mark_at a r s)"
| q_retry: "retry i (queue s) = (Ok a, q) \<Longrightarrow>
     queue_step guarded s (s\<lparr>queue := q, tasks := tasks s @ [(a, TRun)]\<rparr>)"
| q_remove: "queue_step guarded s (s\<lparr>queue := snd (remove i (queue s))\<rparr>)"
| q_clear: "queue_step guarded s (s\<lparr>queue := snd (clear_where pred (queue s))\<rparr>)"
| t_prepare: "(a, TRun) \<in> set (tasks s) \<Longrightarrow> queue_step guarded s (s\<lparr>queue := prepare a (queue s)\<rparr>)"
| t_pause_set: "(a, TRun) \<in> set (tasks s) \<Longrightarrow>
     queue_step guarded s (s\<lparr>queue := upd a (set_state Paused) (queue s)\<rparr>)"
| t_pause_cas: "(a, TRun) \<in> set (tasks s) \<Longrightarrow>
     queue_step guarded s (mark_at a (pause_edge_cas (inners (queue s) ! a)) s)"
| t_gate: "(a, TRun) \<in> set (tasks s) \<Longrightarrow> \<not> gate_blocked a (queue s) \<Longrightarrow>
     queue_step guarded s (mark_at a (gate_cas (inners (queue s) ! a)) s)"
| t_retry: "(a, TRun) \<in> set (tasks s) \<Longrightarrow> r_kind r = AttRetry \<Longrightarrow>
     queue_step guarded s (s\<lparr>queue := report r a (queue s)\<rparr>)"
| t_finish: "k < length (tasks s) \<Longrightarrow> tasks s ! k = (a, TRun) \<Longrightarrow> r_kind r \<noteq> AttRetry \<Longrightarrow>
     queue_step guarded s (s\<lparr>queue := upd a (report_info r) (queue s), tasks := (tasks s)[k := (a, TRepay)]\<rparr>)"
| t_repay: "k < length (tasks s) \<Longrightarrow> tasks s ! k = (a, TRepay) \<Longrightarrow>
     queue_step guarded s ((mark_at a (repay_swap (inners (queue s) ! a)) s)\<lparr>tasks := (tasks s)[k := (a, TEnd)]\<rparr>)"
| q_settle: "in_flight s = ds @ d # ds' \<Longrightarrow>
     queue_step guarded s (s\<lparr>queue := apply_delta d (queue s), in_flight := ds @ ds'\<rparr>)"
| q_emit: "queue_step guarded s (s\<lparr>queue := emit a (queue s)\<rparr>)"

section \<open>The ledger\<close>

fun dwait :: "delta \<Rightarrow> u64" where
  "dwait (DWait d) = d" | "dwait (DRun d) = 0"

fun drun :: "delta \<Rightarrow> u64" where
  "drun (DWait d) = 0" | "drun (DRun d) = d"

definition mark :: "u8 \<Rightarrow> TransferInner \<Rightarrow> u64" where
  "mark p t = (if t_priority t = p then 1 else 0)"

definition marks :: "u8 \<Rightarrow> TransferInner list \<Rightarrow> nat" where
  "marks p ts = length (filter (\<lambda>t. t_priority t = p) ts)"

text \<open>The counters, together with what is in flight, count the marks.\<close>

definition ledger :: "TransferQueue \<Rightarrow> delta list \<Rightarrow> bool" where
  "ledger q ds \<longleftrightarrow>
     priority_waiting q + sum_list (map dwait ds) = of_nat (marks 1 (inners q)) \<and>
     priority_running q + sum_list (map drun ds) = of_nat (marks 2 (inners q)) \<and>
     (\<forall>t \<in> set (inners q). t_priority t \<in> {0, 1, 2})"

definition balanced :: "TransferInner \<Rightarrow> TransferInner \<times> delta list \<Rightarrow> bool" where
  "balanced t r \<longleftrightarrow> t_priority (fst r) \<in> {0, 1, 2} \<and>
     mark 1 (fst r) = mark 1 t + sum_list (map dwait (snd r)) \<and>
     mark 2 (fst r) = mark 2 t + sum_list (map drun (snd r))"

lemma marks_update:
  assumes "a < length ts"
  shows "of_nat (marks p (ts[a := t])) + mark p (ts ! a) = of_nat (marks p ts) + mark p t"
proof -
  have "marks p (ts[a := t]) + (if t_priority (ts ! a) = p then 1 else 0) =
      marks p ts + (if t_priority t = p then 1 else 0)"
    unfolding marks_def using assms by (rule length_filter_update)
  from arg_cong [OF this, of "of_nat :: nat \<Rightarrow> u64"] show ?thesis
    by (simp add: mark_def split: if_splits)
qed

lemma ledger_hook:
  assumes "ledger q ds" "a < length (inners q)" "balanced (inners q ! a) r"
  shows "ledger (upd a (\<lambda>_. fst r) q) (ds @ snd r)"
proof -
  have "of_nat (marks 1 ((inners q)[a := fst r])) = of_nat (marks 1 (inners q)) + sum_list (map dwait (snd r))"
    using marks_update [OF assms(2), of 1 "fst r"] assms(3) by (simp add: balanced_def algebra_simps)
  moreover have "of_nat (marks 2 ((inners q)[a := fst r])) = of_nat (marks 2 (inners q)) + sum_list (map drun (snd r))"
    using marks_update [OF assms(2), of 2 "fst r"] assms(3) by (simp add: balanced_def algebra_simps)
  moreover have "\<forall>t \<in> set ((inners q)[a := fst r]). t_priority t \<in> {0, 1, 2}"
    using assms(1,3) by (auto simp: ledger_def balanced_def dest!: set_update_subset_insert [THEN subsetD])
  ultimately show ?thesis using assms(1) by (simp add: ledger_def upd_def flip: add.assoc)
qed

lemma balanced_hooks:
  "t_priority t \<in> {0, 1, 2} \<Longrightarrow> balanced t (repay_swap t)"
  "t_priority t \<in> {0, 1, 2} \<Longrightarrow> balanced t (pause_edge_cas t)"
  "t_priority t \<in> {0, 1, 2} \<Longrightarrow> balanced t (gate_cas t)"
  "t_priority t \<in> {0, 1, 2} \<Longrightarrow> prioritize_inner i t = Ok r \<Longrightarrow> balanced t r"
  by (auto simp: balanced_def repay_swap_def pause_edge_cas_def gate_cas_def cas_priority_def mark_def
      prioritize_inner_def split: TransferState.splits)

lemma balanced_same: "t_priority t \<in> {0, 1, 2} \<Longrightarrow> t_priority t' = t_priority t \<Longrightarrow> balanced t (t', [])"
  by (simp add: balanced_def mark_def)

lemma ledger_settle: "ledger q (ds @ d # ds') \<Longrightarrow> ledger (apply_delta d q) (ds @ ds')"
  by (cases d) (auto simp: ledger_def algebra_simps)

text \<open>
  Most commands change neither a mark nor whether a transfer has finished: what they keep
  is the list of marks (with the counters) and the list of terminal flags.
\<close>

definition flags :: "TransferQueue \<Rightarrow> bool list" where
  "flags q = map (\<lambda>t. is_terminal (state_of t)) (inners q)"

definition same_marks :: "TransferQueue \<Rightarrow> TransferQueue \<Rightarrow> bool" where
  "same_marks q q' \<longleftrightarrow> map t_priority (inners q') = map t_priority (inners q) \<and>
     priority_waiting q' = priority_waiting q \<and> priority_running q' = priority_running q"

definition same_flags :: "TransferQueue \<Rightarrow> TransferQueue \<Rightarrow> bool" where
  "same_flags q q' \<longleftrightarrow> flags q' = flags q"

lemma marks_priorities: "marks p ts = length (filter (\<lambda>x. x = p) (map t_priority ts))"
  by (simp add: marks_def filter_map comp_def)

lemma ledger_same_marks: "ledger q ds \<Longrightarrow> same_marks q q' \<Longrightarrow> ledger q' ds"
proof -
  assume l: "ledger q ds" and "same_marks q q'"
  then have m: "map t_priority (inners q') = map t_priority (inners q)"
    "priority_waiting q' = priority_waiting q" "priority_running q' = priority_running q"
    unfolding same_marks_def by blast+
  then have img: "t_priority ` set (inners q') = t_priority ` set (inners q)" by (metis set_map)
  have "t_priority ` set (inners q') \<subseteq> {0, 1, 2}"
    unfolding img image_subset_iff using l unfolding ledger_def by blast
  then have "\<forall>t \<in> set (inners q'). t_priority t \<in> {0, 1, 2}" by (simp only: image_subset_iff)
  moreover have "marks p (inners q') = marks p (inners q)" for p
    by (simp only: marks_priorities m(1))
  ultimately show ?thesis using l m(2,3) unfolding ledger_def by presburger
qed

lemma same_refl [simp]: "same_marks q q" "same_flags q q"
  by (simp_all add: same_marks_def same_flags_def)

lemma same_trans:
  "same_marks q q' \<Longrightarrow> same_marks q' q'' \<Longrightarrow> same_marks q q''"
  "same_flags q q' \<Longrightarrow> same_flags q' q'' \<Longrightarrow> same_flags q q''"
  by (simp_all add: same_marks_def same_flags_def)

lemma same_length: "same_marks q q' \<Longrightarrow> length (inners q') = length (inners q)"
  unfolding same_marks_def by (metis length_map)

lemma same_marks_upd: "t_priority (f (inners q ! a)) = t_priority (inners q ! a) \<Longrightarrow> same_marks q (upd a f q)"
  by (cases "a < length (inners q)") (simp_all add: same_marks_def upd_def map_update list_update_same_conv list_update_beyond)

lemma same_flags_upd:
  "is_terminal (state_of (f (inners q ! a))) = is_terminal (state_of (inners q ! a)) \<Longrightarrow> same_flags q (upd a f q)"
  by (cases "a < length (inners q)") (simp_all add: same_flags_def flags_def upd_def map_update list_update_same_conv list_update_beyond)

lemma same_emit [simp]: "same_marks q (emit a q)" "same_flags q (emit a q)"
  by (simp_all add: same_marks_def same_flags_def flags_def emit_def)

lemma same_transfers [simp]:
  "same_marks q (q\<lparr>transfers := m\<rparr>)" "same_flags q (q\<lparr>transfers := m\<rparr>)"
  by (simp_all add: same_marks_def same_flags_def flags_def)

lemma set_state_simps [simp]:
  "t_priority (set_state st t) = t_priority t" "state_of (set_state st t) = st"
  "t_priority (resume_inner t) = t_priority t" "state_of (resume_inner t) = Running"
  "t_priority (report_info r t) = t_priority t" "t_priority (retry_inner t) = t_priority t"
  "state_of (retry_inner t) = Queued"
  by (simp_all add: set_state_def resume_inner_def report_info_def retry_inner_def split: AttemptEnd.splits)

lemma same_marks_commands:
  "same_marks q (snd (pause i q))" "same_marks q (snd (resume i q))" "same_marks q (snd (cancel i q))"
  "same_marks q (snd (remove i q))" "same_marks q (snd (clear_where P q))" "same_marks q (prepare a q)"
  by (auto simp: pause_def resume_def cancel_def remove_def clear_where_def prepare_def with_transfer_def Let_def
      intro: same_marks_upd same_trans(1) [OF same_marks_upd same_emit(1)] split: option.splits)

lemma same_marks_fold:
  assumes "\<And>e q. same_marks q (f e q)"
  shows "same_marks q (fold f es q)"
  using assms by (induction es arbitrary: q) (auto intro: same_trans)

lemma same_marks_all: "same_marks q (pause_all q)" "same_marks q (resume_all q)"
  unfolding pause_all_def resume_all_def
  by (rule same_marks_fold; auto intro!: same_marks_upd split: if_splits)+

lemma same_marks_report: "r_kind r = AttRetry \<Longrightarrow> same_marks q (report r a q)"
  by (auto simp: report_def Let_def intro: same_trans(1) [OF same_marks_upd same_emit(1)])

lemma same_marks_retry: "retry i q = (Ok a, q') \<Longrightarrow> same_marks q q'"
  by (auto simp: retry_def Let_def intro: same_trans(1) [OF same_marks_upd same_emit(1)]
      split: option.splits if_splits)

lemma ledger_register:
  assumes "register millis dir local remote bytes oe q = ((i, a), q')" "ledger q ds"
  shows "ledger q' ds"
  using assms by (auto simp: register_def Let_def ledger_def marks_def fresh_inner_def)

text \<open>Addresses stay within \<open>inners\<close>.\<close>

definition addresses :: "queue_sys \<Rightarrow> bool" where
  "addresses s \<longleftrightarrow>
     (\<forall>(i, a) \<in> set (transfers (queue s)). a < length (inners (queue s))) \<and>
     (\<forall>(a, p) \<in> set (tasks s). a < length (inners (queue s)))"

definition queue_inv :: "queue_sys \<Rightarrow> bool" where
  "queue_inv s \<longleftrightarrow> ledger (queue s) (in_flight s) \<and> addresses s"

lemma addresses_lookup:
  "addresses s \<Longrightarrow> map_of (transfers (queue s)) i = Some a \<Longrightarrow> a < length (inners (queue s))"
  by (auto simp: addresses_def dest!: map_of_SomeD)

lemma addresses_shrink:
  "addresses s \<Longrightarrow> set (transfers q) \<subseteq> set (transfers (queue s)) \<Longrightarrow>
     length (inners q) = length (inners (queue s)) \<Longrightarrow> addresses (s\<lparr>queue := q\<rparr>)"
  by (auto simp: addresses_def)

lemma transfers_upd [simp]: "transfers (upd a f q) = transfers q" "transfers (emit a q) = transfers q"
  by (simp_all add: upd_def emit_def)

lemma fold_transfers: "(\<And>e q. transfers (f e q) = transfers q) \<Longrightarrow> transfers (fold f es q) = transfers q"
  by (induction es arbitrary: q) auto

lemma transfers_commands:
  "set (transfers (snd (pause i q))) \<subseteq> set (transfers q)" "set (transfers (snd (resume i q))) \<subseteq> set (transfers q)"
  "set (transfers (snd (cancel i q))) \<subseteq> set (transfers q)" "set (transfers (snd (remove i q))) \<subseteq> set (transfers q)"
  "set (transfers (snd (clear_where P q))) \<subseteq> set (transfers q)" "set (transfers (prepare a q)) \<subseteq> set (transfers q)"
  "r_kind r = AttRetry \<Longrightarrow> set (transfers (report r a q)) \<subseteq> set (transfers q)"
  "retry i q = (Ok a, q') \<Longrightarrow> set (transfers q') \<subseteq> set (transfers q)"
  by (auto simp: pause_def resume_def cancel_def remove_def clear_where_def prepare_def report_def with_transfer_def
      retry_def map_remove_def Let_def split: option.splits if_splits)

lemma transfers_all: "transfers (pause_all q) = transfers q" "transfers (resume_all q) = transfers q"
  unfolding pause_all_def resume_all_def by (rule fold_transfers; auto)+

lemma queue_inv_same:
  assumes "queue_inv s" "same_marks (queue s) q" "set (transfers q) \<subseteq> set (transfers (queue s))"
  shows "queue_inv (s\<lparr>queue := q\<rparr>)"
  using assms addresses_shrink [of s q] same_length [OF assms(2)] ledger_same_marks [OF _ assms(2)]
  by (simp add: queue_inv_def)

lemma queue_inv_mark:
  assumes "queue_inv s" "a < length (inners (queue s))" "balanced (inners (queue s) ! a) r"
  shows "queue_inv (mark_at a r s)"
proof -
  have "addresses (mark_at a r s)" using assms(1) by (auto simp: queue_inv_def addresses_def upd_def)
  then show ?thesis using assms ledger_hook [of "queue s" "in_flight s" a r] by (simp add: queue_inv_def)
qed

lemma queue_inv_tasks:
  "queue_inv s \<Longrightarrow> \<forall>(a, p) \<in> set ts. a < length (inners (queue s)) \<Longrightarrow> queue_inv (s\<lparr>tasks := ts\<rparr>)"
  by (simp add: queue_inv_def addresses_def)

lemma queue_inv_priority: "queue_inv s \<Longrightarrow> a < length (inners (queue s)) \<Longrightarrow> t_priority (inners (queue s) ! a) \<in> {0, 1, 2}"
  unfolding queue_inv_def ledger_def using nth_mem by blast

lemma queue_inv_task: "queue_inv s \<Longrightarrow> (a, p) \<in> set (tasks s) \<Longrightarrow> a < length (inners (queue s))"
  by (auto simp: queue_inv_def addresses_def)

lemma queue_inv_settle:
  "queue_inv s \<Longrightarrow> in_flight s = ds @ d # ds' \<Longrightarrow>
     queue_inv (s\<lparr>queue := apply_delta d (queue s), in_flight := ds @ ds'\<rparr>)"
  by (cases d) (auto simp: queue_inv_def addresses_def ledger_settle dest: ledger_settle)

lemma queue_inv_new_task:
  assumes "queue_inv s" "a < length (inners (queue s))"
  shows "queue_inv (s\<lparr>tasks := tasks s @ [(a, p)]\<rparr>)"
  using assms by (intro queue_inv_tasks) (auto simp: queue_inv_def addresses_def)

lemma queue_inv_move_task:
  assumes "queue_inv s" "k < length (tasks s)" "tasks s ! k = (a, p)"
  shows "queue_inv (s\<lparr>tasks := (tasks s)[k := (a, p')]\<rparr>)"
proof -
  have "a < length (inners (queue s))"
    using assms queue_inv_task nth_mem by metis
  with assms show ?thesis
    by (intro queue_inv_tasks) (auto simp: queue_inv_def addresses_def dest!: set_update_subset_insert [THEN subsetD])
qed

lemma queue_inv_register:
  assumes "queue_inv s" "register millis dir local remote bytes oe (queue s) = ((i, a), q)"
  shows "queue_inv (s\<lparr>queue := q, tasks := tasks s @ [(a, TRun)]\<rparr>)"
proof -
  from assms(2) have q: "inners q = inners (queue s) @ [fresh_inner i dir local remote bytes oe]"
    "transfers q = map_insert i a (transfers (queue s))" "a = length (inners (queue s))"
    by (auto simp: register_def Let_def)
  then have "addresses (s\<lparr>queue := q, tasks := tasks s @ [(a, TRun)]\<rparr>)"
    using assms(1) by (auto simp: queue_inv_def addresses_def map_insert_def)
  with assms ledger_register show ?thesis by (auto simp: queue_inv_def)
qed

lemma retry_address: "retry i q = (Ok a, q') \<Longrightarrow> map_of (transfers q) i = Some a"
  by (auto simp: retry_def Let_def split: option.splits if_splits)

interpretation queue: invariant_system queue_init "queue_step guarded" queue_inv for guarded
proof (unfold_locales, goal_cases)
  case (1 s)
  then show ?case
    by (simp add: queue_init_def queue_inv_def ledger_def addresses_def queue_new_def marks_def)
next
  case (2 s t)
  from 2(2,1) show ?case
  proof (induction rule: queue_step.induct)
    case (q_retry i s a q)
    have "queue_inv (s\<lparr>queue := q\<rparr>)"
      using q_retry same_marks_retry transfers_commands(8) by (intro queue_inv_same) auto
    moreover have "a < length (inners q)"
      using q_retry retry_address [OF q_retry(1)] addresses_lookup [of s i a] same_length [OF same_marks_retry [OF q_retry(1)]]
      by (simp add: queue_inv_def)
    ultimately show ?case using queue_inv_new_task [of "s\<lparr>queue := q\<rparr>" a TRun] by simp
  next
    case (t_finish k s a r)
    have "queue_inv (s\<lparr>queue := upd a (report_info r) (queue s)\<rparr>)"
      using t_finish by (intro queue_inv_same same_marks_upd) simp_all
    with t_finish queue_inv_move_task [of "s\<lparr>queue := upd a (report_info r) (queue s)\<rparr>" k a TRun TRepay]
    show ?case by simp
  next
    case (t_repay k s a)
    then have a: "a < length (inners (queue s))" using queue_inv_task nth_mem by metis
    with t_repay queue_inv_priority have "queue_inv (mark_at a (repay_swap (inners (queue s) ! a)) s)"
      by (intro queue_inv_mark balanced_hooks) auto
    with t_repay queue_inv_move_task [of "mark_at a (repay_swap (inners (queue s) ! a)) s" k a TRepay TEnd]
    show ?case by simp
  next
    case (q_prioritize s i a r)
    then have "a < length (inners (queue s))" by (auto simp: queue_inv_def intro: addresses_lookup)
    with q_prioritize queue_inv_priority show ?case
      by (intro queue_inv_mark) (auto intro: balanced_hooks)
  next
    case (t_pause_cas a s)
    then show ?case
      using queue_inv_task queue_inv_priority by (intro queue_inv_mark balanced_hooks) blast+
  next
    case (t_gate a s)
    then show ?case
      using queue_inv_task queue_inv_priority by (intro queue_inv_mark balanced_hooks) blast+
  next
    case (t_retry a s r)
    then show ?case by (intro queue_inv_same same_marks_report transfers_commands)
  next
    case (t_pause_set a s)
    then show ?case by (intro queue_inv_same same_marks_upd) simp_all
  qed (auto intro: queue_inv_same same_marks_commands same_marks_all queue_inv_register queue_inv_settle
      transfers_commands [THEN subsetD] simp: transfers_all)
qed

section \<open>No priority mark outlives its transfer\<close>

text \<open>
  A transfer that has not finished has exactly one running task; a finished one has none,
  and if it still carries a mark, a task is about to give it back.
\<close>

definition runs :: "nat \<Rightarrow> (nat \<times> task_pc) list \<Rightarrow> nat" where
  "runs a ts = length (filter (\<lambda>e. e = (a, TRun)) ts)"

definition owned :: "TransferInner \<Rightarrow> nat \<Rightarrow> (nat \<times> task_pc) list \<Rightarrow> bool" where
  "owned t a ts \<longleftrightarrow>
     runs a ts = (if is_terminal (state_of t) then 0 else 1) \<and>
     (t_priority t \<noteq> 0 \<and> is_terminal (state_of t) \<longrightarrow> (a, TRepay) \<in> set ts)"

definition all_owned :: "queue_sys \<Rightarrow> bool" where
  "all_owned s \<longleftrightarrow> (\<forall>a < length (inners (queue s)). owned (inners (queue s) ! a) a (tasks s))"

definition owned_inv :: "queue_sys \<Rightarrow> bool" where
  "owned_inv s \<longleftrightarrow> queue_inv s \<and> all_owned s"

lemma runs_append [simp]: "runs a (ts @ [(b, p)]) = runs a ts + (if b = a \<and> p = TRun then 1 else 0)"
  by (simp add: runs_def)

lemma runs_update:
  assumes "k < length ts" "ts ! k = (b, p)" "p' \<noteq> TRun"
  shows "runs a (ts[k := (b, p')]) = runs a ts - (if b = a \<and> p = TRun then 1 else 0)"
  using length_filter_update [OF assms(1), of "\<lambda>e. e = (a, TRun)" "(b, p')"] assms(2,3)
  by (auto simp: runs_def)

lemma runs_member: "(a, TRun) \<in> set ts \<Longrightarrow> 0 < runs a ts"
  by (auto simp: runs_def filter_empty_conv)

lemma owned_running: "owned t a ts \<Longrightarrow> (a, TRun) \<in> set ts \<Longrightarrow> \<not> is_terminal (state_of t)"
  using runs_member by (fastforce simp: owned_def)

lemma flags_nth: "a < length (inners q) \<Longrightarrow> flags q ! a = is_terminal (state_of (inners q ! a))"
  by (simp add: flags_def)

lemma all_owned_same:
  assumes "all_owned s" "same_marks (queue s) q" "same_flags (queue s) q"
  shows "all_owned (s\<lparr>queue := q\<rparr>)"
proof -
  have len: "length (inners q) = length (inners (queue s))" by (rule same_length [OF assms(2)])
  have "t_priority (inners q ! a) = t_priority (inners (queue s) ! a) \<and>
      is_terminal (state_of (inners q ! a)) = is_terminal (state_of (inners (queue s) ! a))"
    if "a < length (inners q)" for a
  proof
    show "t_priority (inners q ! a) = t_priority (inners (queue s) ! a)"
      using assms(2) that len unfolding same_marks_def by (metis nth_map)
    show "is_terminal (state_of (inners q ! a)) = is_terminal (state_of (inners (queue s) ! a))"
      using assms(3) that len unfolding same_flags_def by (metis flags_nth)
  qed
  with assms(1) len show ?thesis by (simp add: all_owned_def owned_def)
qed

text \<open>One transfer changes, together with the task list.\<close>

lemma all_owned_upd:
  assumes "all_owned s" "a < length (inners (queue s))" "owned t a ts"
    and "\<And>b. b \<noteq> a \<Longrightarrow> runs b ts = runs b (tasks s) \<and> ((b, TRepay) \<in> set (tasks s) \<longrightarrow> (b, TRepay) \<in> set ts)"
  shows "all_owned (s\<lparr>queue := upd a (\<lambda>_. t) (queue s), in_flight := ds, tasks := ts\<rparr>)"
  using assms by (auto simp: all_owned_def owned_def upd_def nth_list_update)

lemma all_owned_mark:
  assumes "all_owned s" "a < length (inners (queue s))" "\<not> is_terminal (state_of (inners (queue s) ! a))"
    "state_of (fst r) = state_of (inners (queue s) ! a)"
  shows "all_owned (mark_at a r s)"
proof -
  from assms have "owned (fst r) a (tasks s)" by (auto simp: all_owned_def owned_def)
  from all_owned_upd [OF assms(1,2) this, of "in_flight s @ snd r"] show ?thesis by simp
qed

lemma set_update_keep: "k < length ts \<Longrightarrow> x \<in> set ts \<Longrightarrow> x \<noteq> ts ! k \<Longrightarrow> x \<in> set (ts[k := y])"
  by (metis in_set_conv_nth length_list_update nth_list_update_neq)

lemma all_owned_finish:
  assumes "all_owned s" "a < length (inners (queue s))" "k < length (tasks s)" "tasks s ! k = (a, TRun)" "r_kind r \<noteq> AttRetry"
  shows "all_owned (s\<lparr>queue := upd a (report_info r) (queue s), tasks := (tasks s)[k := (a, TRepay)]\<rparr>)"
proof -
  let ?t = "report_info r (inners (queue s) ! a)" and ?ts = "(tasks s)[k := (a, TRepay)]"
  have "is_terminal (state_of ?t)"
    using assms(5) by (auto simp: report_info_def set_state_def is_terminal_def split: AttemptEnd.splits)
  moreover have "runs a (tasks s) \<le> 1" using assms(1,2) by (auto simp: all_owned_def owned_def)
  ultimately have owned: "owned ?t a ?ts"
    using assms(3,4) runs_update [OF assms(3,4), of TRepay a] by (auto simp: owned_def set_update_memI)
  have "runs b ?ts = runs b (tasks s) \<and> ((b, TRepay) \<in> set (tasks s) \<longrightarrow> (b, TRepay) \<in> set ?ts)" if "b \<noteq> a" for b
    using that runs_update [OF assms(3,4), of TRepay b] set_update_keep [OF assms(3), of "(b, TRepay)"] assms(4) by auto
  from all_owned_upd [OF assms(1,2) owned this, of "in_flight s"] show ?thesis
    by (simp add: upd_def)
qed

lemma all_owned_repay:
  assumes "all_owned s" "a < length (inners (queue s))" "k < length (tasks s)" "tasks s ! k = (a, TRepay)"
  shows "all_owned ((mark_at a (repay_swap (inners (queue s) ! a)) s)\<lparr>tasks := (tasks s)[k := (a, TEnd)]\<rparr>)"
proof -
  let ?t = "fst (repay_swap (inners (queue s) ! a))" and ?ts = "(tasks s)[k := (a, TEnd)]"
  have runs: "runs b ?ts = runs b (tasks s)" for b
    using runs_update [OF assms(3,4), of TEnd b] by simp
  then have owned: "owned ?t a ?ts"
    using assms(1,2) by (auto simp: all_owned_def owned_def repay_swap_def)
  have "runs b ?ts = runs b (tasks s) \<and> ((b, TRepay) \<in> set (tasks s) \<longrightarrow> (b, TRepay) \<in> set ?ts)" if "b \<noteq> a" for b
    using that runs set_update_keep [OF assms(3), of "(b, TRepay)"] assms(4) by auto
  from all_owned_upd [OF assms(1,2) owned this, of "in_flight s @ snd (repay_swap (inners (queue s) ! a))"]
  show ?thesis by (simp add: upd_def)
qed

lemma all_owned_register:
  assumes "queue_inv s" "all_owned s" "register millis dir local remote bytes oe (queue s) = ((i, a), q)"
  shows "all_owned (s\<lparr>queue := q, tasks := tasks s @ [(a, TRun)]\<rparr>)"
proof -
  from assms(3) have q: "inners q = inners (queue s) @ [fresh_inner i dir local remote bytes oe]"
    "a = length (inners (queue s))"
    by (auto simp: register_def Let_def)
  have "runs a (tasks s) = 0"
    using assms(1) q(2) by (auto simp: runs_def queue_inv_def addresses_def filter_empty_conv)
  with assms(2) q show ?thesis
    by (auto simp: all_owned_def owned_def nth_append fresh_inner_def is_terminal_def less_Suc_eq)
qed

lemma all_owned_retry:
  assumes "queue_inv s" "all_owned s" "retry i (queue s) = (Ok a, q)"
  shows "all_owned (s\<lparr>queue := q, tasks := tasks s @ [(a, TRun)]\<rparr>)"
proof -
  have a: "a < length (inners (queue s))"
    using assms(1) retry_address [OF assms(3)] by (auto simp: queue_inv_def intro: addresses_lookup)
  have q: "q = emit a (upd a (\<lambda>_. retry_inner (inners (queue s) ! a)) (queue s))"
    "is_terminal (state_of (inners (queue s) ! a))"
    using assms(3) by (auto simp: retry_def Let_def is_terminal_def upd_def split: option.splits if_splits)
  have owned: "owned (retry_inner (inners (queue s) ! a)) a (tasks s @ [(a, TRun)])"
    using assms(2) a q(2) by (auto simp: all_owned_def owned_def is_terminal_def)
  have "all_owned (s\<lparr>queue := upd a (\<lambda>_. retry_inner (inners (queue s) ! a)) (queue s), in_flight := in_flight s,
      tasks := tasks s @ [(a, TRun)]\<rparr>)"
    using assms(2) a owned by (intro all_owned_upd) auto
  then show ?thesis using q(1) by (simp add: all_owned_def emit_def)
qed

lemma same_flags_commands:
  "same_flags q (snd (pause i q))" "same_flags q (snd (cancel i q))"
  "same_flags q (snd (remove i q))" "same_flags q (snd (clear_where P q))"
  by (auto simp: pause_def cancel_def remove_def clear_where_def with_transfer_def Let_def
      intro: same_flags_upd split: option.splits)

lemma same_flags_resume:
  assumes "\<forall>a. map_of (transfers q) i = Some a \<longrightarrow> \<not> is_terminal (state_of (inners q ! a))"
  shows "same_flags q (snd (resume i q))"
  using assms
  by (auto simp: resume_def with_transfer_def is_terminal_def intro!: same_flags_upd split: option.splits)

lemma same_flags_pause_fold:
  "same_flags q (fold (\<lambda>(_, a) q. if state_of (inners q ! a) \<in> {Queued, Running}
      then upd a (\<lambda>t. t\<lparr>t_pause := True\<rparr>) q else q) es q)"
proof (induction es arbitrary: q)
  case (Cons e es)
  have "same_flags q (case e of (_, a) \<Rightarrow> if state_of (inners q ! a) \<in> {Queued, Running}
      then upd a (\<lambda>t. t\<lparr>t_pause := True\<rparr>) q else q)"
    by (auto intro!: same_flags_upd split: prod.splits)
  from same_trans(2) [OF this Cons.IH] show ?case by (auto simp: split_beta)
qed simp

lemma same_flags_resume_fold:
  "\<forall>(i, a) \<in> set es. t_pause (inners q ! a) \<longrightarrow> \<not> is_terminal (state_of (inners q ! a)) \<Longrightarrow>
   same_flags q (fold (\<lambda>(_, a) q. if t_pause (inners q ! a) then upd a resume_inner q else q) es q)"
proof (induction es arbitrary: q)
  case (Cons e es)
  obtain i a where e: "e = (i, a)" by fastforce
  let ?q = "if t_pause (inners q ! a) then upd a resume_inner q else q"
  have first: "same_flags q ?q"
    using Cons.prems e by (auto simp: is_terminal_def intro!: same_flags_upd)
  have "\<forall>(j, b) \<in> set es. t_pause (inners ?q ! b) \<longrightarrow> \<not> is_terminal (state_of (inners ?q ! b))"
  proof (clarify)
    fix j b assume "(j, b) \<in> set es" "t_pause (inners ?q ! b)" "is_terminal (state_of (inners ?q ! b))"
    with Cons.prems e show False
      by (cases "a < length (inners q)"; cases "b = a")
        (auto simp: upd_def resume_inner_def set_state_def list_update_beyond split: if_splits)
  qed
  from same_trans(2) [OF first Cons.IH [OF this]] show ?case by (simp add: e)
qed simp

lemma all_owned_task_state:
  assumes "all_owned s" "a < length (inners (queue s))" "(a, TRun) \<in> set (tasks s)" "\<not> is_terminal st"
  shows "same_flags (queue s) (upd a (set_state st) (queue s))"
  using assms owned_running by (intro same_flags_upd) (fastforce simp: all_owned_def)

interpretation owned: invariant_system queue_init "queue_step True" owned_inv
proof (unfold_locales, goal_cases)
  case (1 s)
  then show ?case using queue.inv_init [of s]
    by (simp add: owned_inv_def all_owned_def queue_init_def queue_new_def)
next
  case (2 s t)
  have inv: "queue_inv t" using 2 queue.inv_step [of s True t] by (simp add: owned_inv_def)
  have "queue_inv s" "all_owned s" using 2 by (simp_all add: owned_inv_def)
  with 2(2) have "all_owned t"
  proof (induction rule: queue_step.induct)
    case (q_resume s i)
    then show ?case by (intro all_owned_same same_marks_commands same_flags_resume) auto
  next
    case (q_resume_all s)
    then show ?case
      by (intro all_owned_same same_marks_all) (auto simp: resume_all_def intro: same_flags_resume_fold)
  next
    case (q_pause_all s)
    then show ?case
      by (intro all_owned_same same_marks_all) (auto simp only: pause_all_def intro: same_flags_pause_fold)
  next
    case (q_prioritize s i a r)
    then have "a < length (inners (queue s))" by (auto simp: queue_inv_def intro: addresses_lookup)
    moreover have "\<not> is_terminal (state_of (inners (queue s) ! a))" "state_of (fst r) = state_of (inners (queue s) ! a)"
      using q_prioritize(2)
      by (auto simp: prioritize_inner_def cas_priority_def is_terminal_def split: TransferState.splits)
    ultimately show ?case using q_prioritize by (intro all_owned_mark)
  next
    case (t_prepare a s)
    then have a: "a < length (inners (queue s))" by (auto intro: queue_inv_task)
    have "same_flags (queue s) (prepare a (queue s))"
      unfolding prepare_def using t_prepare a
      by (intro same_trans(2) [OF all_owned_task_state same_emit(2)]) (simp_all add: is_terminal_def)
    with t_prepare show ?case by (intro all_owned_same same_marks_commands)
  next
    case (t_pause_set a s)
    then have "a < length (inners (queue s))" by (auto intro: queue_inv_task)
    with t_pause_set show ?case
      by (intro all_owned_same same_marks_upd all_owned_task_state) (simp_all add: is_terminal_def)
  next
    case (t_pause_cas a s)
    then have "a < length (inners (queue s))" by (auto intro: queue_inv_task)
    with t_pause_cas owned_running show ?case
      by (intro all_owned_mark) (auto simp: all_owned_def pause_edge_cas_def cas_priority_def)
  next
    case (t_gate a s)
    then have "a < length (inners (queue s))" by (auto intro: queue_inv_task)
    with t_gate owned_running show ?case
      by (intro all_owned_mark) (auto simp: all_owned_def gate_cas_def cas_priority_def)
  next
    case (t_retry a s r)
    have "same_flags (queue s) (report r a (queue s))"
      using t_retry(2) unfolding report_def Let_def
      by (auto simp: report_info_def intro: same_trans(2) [OF same_flags_upd same_emit(2)])
    with t_retry show ?case by (intro all_owned_same same_marks_report)
  next
    case (t_finish k s a r)
    then have "a < length (inners (queue s))" using queue_inv_task nth_mem by metis
    with t_finish show ?case by (intro all_owned_finish)
  next
    case (t_repay k s a)
    then have "a < length (inners (queue s))" using queue_inv_task nth_mem by metis
    with t_repay show ?case by (intro all_owned_repay)
  next
    case (q_settle s ds d ds')
    then show ?case by (cases d) (simp_all add: all_owned_def)
  qed (auto intro: all_owned_same same_marks_commands same_flags_commands all_owned_register all_owned_retry)
  with inv show ?case by (simp add: owned_inv_def)
qed

section \<open>Properties\<close>

text \<open>
  The priority ledger never drifts: in every interleaving of commands and transfer
  tasks, whatever their order, the two counters together with the updates still in flight
  are exactly the number of transfers that carry the waiting and the running mark (modulo
  the 64-bit counters).
\<close>

theorem priority_ledger_exact:
  assumes "reachable queue_init (queue_step guarded) s"
  shows "priority_waiting (queue s) + sum_list (map dwait (in_flight s)) =
      of_nat (length (filter (\<lambda>t. t_priority t = 1) (inners (queue s)))) \<and>
    priority_running (queue s) + sum_list (map drun (in_flight s)) =
      of_nat (length (filter (\<lambda>t. t_priority t = 2) (inners (queue s))))"
  using queue.inv_reachable [OF assms] by (simp add: queue_inv_def ledger_def marks_def)

text \<open>
  C15. As long as nobody resumes a finished transfer, no mark outlives its transfer: when
  the tasks of a transfer have ended it carries none, and once all tasks have ended and no
  counter update is in flight both counters are zero, so nobody gives way for nothing.
\<close>

theorem priority_never_leaks:
  assumes "reachable queue_init (queue_step True) s"
    "\<forall>(a, p) \<in> set (tasks s). p = TEnd" "in_flight s = []"
  shows "priority_waiting (queue s) = 0 \<and> priority_running (queue s) = 0 \<and>
    (\<forall>t \<in> set (inners (queue s)). t_priority t = 0 \<and> is_terminal (ti_state (t_info t)))"
proof -
  have inv: "owned_inv s" by (rule owned.inv_reachable [OF assms(1)])
  have ended: "t_priority (inners (queue s) ! a) = 0 \<and> is_terminal (state_of (inners (queue s) ! a))"
    if "a < length (inners (queue s))" for a
  proof -
    have "runs a (tasks s) = 0" "(a, TRepay) \<notin> set (tasks s)"
      using assms(2) by (auto simp: runs_def filter_empty_conv)
    with inv that show ?thesis by (auto simp: owned_inv_def all_owned_def owned_def split: if_splits)
  qed
  then have "\<forall>t \<in> set (inners (queue s)). t_priority t = 0 \<and> is_terminal (state_of t)"
    by (metis in_set_conv_nth)
  with inv assms(3) show ?thesis
    by (auto simp: owned_inv_def queue_inv_def ledger_def marks_def)
qed

definition one_queue :: TransferQueue where
  "one_queue = snd (register 0 Download ''l'' ''r'' 5 Resume queue_new)"

definition finished_ok :: AttemptReport where
  "finished_ok = \<lparr>r_kind = AttDone, r_bytes = 5, r_error = None\<rparr>"

definition done_queue :: TransferQueue where
  "done_queue = upd 0 (\<lambda>t. t\<lparr>t_priority := 0\<rparr>) (upd 0 (report_info finished_ok) one_queue)"

definition done_sys :: queue_sys where
  "done_sys = \<lparr>queue = done_queue, in_flight = [], tasks = [(0, TEnd)]\<rparr>"

lemma reachable_done_sys: "reachable queue_init (queue_step guarded) done_sys"
proof -
  let ?s0 = "\<lparr>queue = queue_new, in_flight = [], tasks = []\<rparr>"
  let ?s1 = "\<lparr>queue = one_queue, in_flight = [], tasks = [(0, TRun)]\<rparr>"
  let ?s2 = "\<lparr>queue = upd 0 (report_info finished_ok) one_queue, in_flight = [], tasks = [(0, TRepay)]\<rparr>"
  have r0: "reachable queue_init (queue_step guarded) ?s0"
    by (rule reach_init) (simp add: queue_init_def)
  have "register 0 Download ''l'' ''r'' 5 Resume queue_new = ((transfer_id 0 1, 0), one_queue)"
    by (simp add: one_queue_def register_def queue_new_def Let_def)
  then have s1: "queue_step guarded ?s0 ?s1"
    using q_register [of 0 Download "''l''" "''r''" 5 Resume ?s0] by simp
  have s2: "queue_step guarded ?s1 ?s2"
    using t_finish [of 0 ?s1 0 finished_ok guarded] by (simp add: finished_ok_def)
  have "t_priority (inners (queue ?s2) ! 0) = 0"
    by (simp add: upd_def one_queue_def register_def queue_new_def Let_def fresh_inner_def)
  then have "repay_swap (inners (queue ?s2) ! 0) = ((inners (queue ?s2) ! 0)\<lparr>t_priority := 0\<rparr>, [])"
    by (simp add: repay_swap_def)
  then have s3: "queue_step guarded ?s2 done_sys"
    using t_repay [of 0 ?s2 0 guarded] by (simp add: done_sys_def done_queue_def upd_def)
  from reach_step [OF reach_step [OF reach_step [OF r0 s1] s2] s3] show ?thesis .
qed

theorem priority_ledger_exact_witness:
  "priority_waiting (queue done_sys) = of_nat (length (filter (\<lambda>t. t_priority t = 1) (inners (queue done_sys))))"
  using priority_ledger_exact [OF reachable_done_sys [of False]] by (simp add: done_sys_def)

theorem priority_never_leaks_witness:
  "priority_running (queue done_sys) = 0 \<and> list_all (\<lambda>t. is_terminal (ti_state (t_info t))) (inners (queue done_sys))"
  using priority_never_leaks [OF reachable_done_sys] by (simp add: done_sys_def list_all_iff)

text \<open>
  \<open>resume\<close> does not check the state: on a finished transfer it stores \<open>Running\<close>
  although no task runs it any more. The entry can then neither be removed nor retried,
  and \<open>prioritize\<close> accepts it and takes a running mark that no task will ever give back,
  so that every other unpaused transfer without a mark gives way to it from then on.
\<close>

theorem resume_revives_finished:
  assumes "map_of (transfers q) i = Some a" "a < length (inners q)" "is_terminal (ti_state (t_info (inners q ! a)))"
    "t_priority (inners q ! a) = 0" "priority_running q = 0"
  defines "q' \<equiv> snd (prioritize i (snd (resume i q)))"
  shows "ti_state (t_info (inners q' ! a)) = Running \<and>
    remove i q' = (Inl (RemotePath i (NotRemovable Running)), q') \<and>
    retry i q' = (Inl (RemotePath i (NotRetriable Running)), q') \<and>
    priority_running q' = 1 \<and>
    (\<forall>b. b \<noteq> a \<and> t_priority (inners q ! b) = 0 \<and> \<not> t_cancel (inners q ! b) \<and> \<not> t_pause (inners q ! b) \<longrightarrow> yields b q')"
proof -
  let ?t = "(resume_inner (inners q ! a))\<lparr>t_priority := 2\<rparr>"
  have "prioritize_inner i (resume_inner (inners q ! a)) = Ok (?t, [DRun 1])"
    using assms(4) by (simp add: prioritize_inner_def cas_priority_def)
  then have q': "q' = q\<lparr>inners := (inners q)[a := ?t], priority_running := 1\<rparr>"
    using assms by (simp add: q'_def resume_def with_transfer_def prioritize_def upd_def)
  then show ?thesis
    using assms(1-4) by (auto simp: remove_def retry_def yields_def is_terminal_def Let_def)
qed

theorem resume_revives_finished_witness:
  "ti_state (t_info (inners (snd (prioritize (transfer_id 0 1) (snd (resume (transfer_id 0 1) done_queue)))) ! 0)) = Running"
proof -
  have q: "map_of (transfers done_queue) (transfer_id 0 1) = Some 0" "0 < length (inners done_queue)"
    "is_terminal (ti_state (t_info (inners done_queue ! 0)))" "t_priority (inners done_queue ! 0) = 0"
    "priority_running done_queue = 0"
    by (simp_all add: done_queue_def one_queue_def register_def queue_new_def Let_def upd_def map_insert_def
        fresh_inner_def report_info_def finished_ok_def set_state_def is_terminal_def)
  from resume_revives_finished [OF q] show ?thesis by blast
qed

end
