(* ===== verification/Sftp_Executor.thy ===== *)
theory Sftp_Executor
  imports Sftp_Transfer Policy_Budget
begin

text \<open>
  The executor of \<^verbatim>\<open>src/crates/core-sftp/src/executor.rs\<close>, which single-file transfers and
  directory jobs share: waiting out a pause, taking a permit, running the transfer,
  telling cancel, pause and failure apart, and retrying. The trait \<open>ExecFlow\<close> is the record
  \<open>flow\<close> of its hooks; what the executor relies on is the locale \<open>exec_flow\<close>, interpreted
  here for \<open>QueueFlow\<close>. The conflict policies of the targets are here too.

  The outcome of the transfer itself, \<open>download_once\<close> or \<open>upload_once\<close>, is part of the
  event that ends it. A pause or a gate that still blocks gives \<open>None\<close>.
\<close>

section \<open>The executor\<close>

record ('w, 'g) flow =
  f_canceled :: "'w \<Rightarrow> bool"
  f_paused :: "'w \<Rightarrow> bool"
  f_prepare :: "u32 \<Rightarrow> 'w \<Rightarrow> 'g \<times> 'w"
  f_cancel_terminal :: "'w \<Rightarrow> 'w"
  f_pause_edge :: "bool \<Rightarrow> 'w \<Rightarrow> 'w"
  f_gate :: "'w \<Rightarrow> 'w option"
  f_report :: "AttemptReport \<Rightarrow> 'g \<Rightarrow> 'w \<Rightarrow> 'w"
  f_drop_guard :: "'g \<Rightarrow> 'w \<Rightarrow> 'w"
  f_real_error :: "'w \<Rightarrow> 'w"
  f_max_retries :: u32

datatype exec_pc =
    XTop | XPaused | XGate | XAcquire | XCheck | XTransfer | XBackoff | XReturned TransferState

record 'g exec =
  x_pc :: exec_pc
  x_attempt :: u32
  x_guard :: "'g option"

definition exec_start :: "'g exec" where
  "exec_start = \<lparr>x_pc = XTop, x_attempt = 0, x_guard = None\<rparr>"

text \<open>\<open>Result bytes None\<close> is a transfer that succeeded, \<open>Result bytes (Some e)\<close> one that failed.\<close>

datatype exec_event = Advance | Result u64 "string option"

definition exec_top :: "('w, 'g) flow \<Rightarrow> 'g exec \<Rightarrow> 'w \<Rightarrow> 'g exec \<times> 'w" where
  "exec_top f x w =
     (if f_canceled f w then (x\<lparr>x_pc := XReturned Canceled\<rparr>, f_cancel_terminal f w)
      else if f_paused f w then (x\<lparr>x_pc := XPaused\<rparr>, f_pause_edge f True w)
      else (x\<lparr>x_pc := XGate\<rparr>, w))"

definition exec_check :: "('w, 'g) flow \<Rightarrow> 'g exec \<Rightarrow> Budget \<times> 'w \<Rightarrow> 'g exec \<times> Budget \<times> 'w" where
  "exec_check f x = (\<lambda>(b, w).
     if f_canceled f w \<or> f_paused f w then (x\<lparr>x_pc := XTop\<rparr>, permit_drop b, w)
     else let (g, w') = f_prepare f (x_attempt x) w in (x\<lparr>x_pc := XTransfer, x_guard := Some g\<rparr>, b, w'))"

definition exec_failed :: "('w, 'g) flow \<Rightarrow> u64 \<Rightarrow> string \<Rightarrow> 'g \<Rightarrow> 'g exec \<Rightarrow> 'w \<Rightarrow> 'g exec \<times> 'w" where
  "exec_failed f bytes e g x w =
     (if f_canceled f w
      then (x\<lparr>x_pc := XReturned Canceled\<rparr>,
            f_report f \<lparr>r_kind = AttCanceled, r_bytes = bytes, r_error = Some e\<rparr> g w)
      else if f_paused f w then (x\<lparr>x_pc := XTop\<rparr>, f_drop_guard f g w)
      else let w = f_real_error f w; n = x_attempt x + 1; x = x\<lparr>x_attempt := n\<rparr>
           in if n > f_max_retries f
              then (x\<lparr>x_pc := XReturned Failed\<rparr>,
                    f_report f \<lparr>r_kind = AttFailed, r_bytes = bytes, r_error = Some e\<rparr> g w)
              else (x\<lparr>x_pc := XBackoff\<rparr>,
                    f_report f \<lparr>r_kind = AttRetry, r_bytes = bytes, r_error = Some e\<rparr> g w))"

definition exec_result ::
  "('w, 'g) flow \<Rightarrow> u64 \<Rightarrow> string option \<Rightarrow> 'g exec \<Rightarrow> Budget \<times> 'w \<Rightarrow> 'g exec \<times> Budget \<times> 'w" where
  "exec_result f bytes res x = (\<lambda>(b, w).
     let b = permit_drop b; g = the (x_guard x); x = x\<lparr>x_guard := None\<rparr>
     in case res of
          None \<Rightarrow> (x\<lparr>x_pc := XReturned Done\<rparr>, b,
                   f_report f \<lparr>r_kind = AttDone, r_bytes = bytes, r_error = None\<rparr> g w)
        | Some e \<Rightarrow> (let (x, w) = exec_failed f bytes e g x w in (x, b, w)))"

fun exec_step ::
  "('w, 'g) flow \<Rightarrow> exec_event \<Rightarrow> 'g exec \<Rightarrow> Budget \<times> 'w \<Rightarrow> ('g exec \<times> Budget \<times> 'w) option" where
  "exec_step f (Result bytes res) x s =
     (if x_pc x = XTransfer then Some (exec_result f bytes res x s) else None)"
| "exec_step f Advance x (b, w) =
     (case x_pc x of
        XTop \<Rightarrow> (let (x, w) = exec_top f x w in Some (x, b, w))
      | XPaused \<Rightarrow> if f_paused f w \<and> \<not> f_canceled f w then None
                   else Some (x\<lparr>x_pc := XTop\<rparr>, b, f_pause_edge f False w)
      | XGate \<Rightarrow> (case f_gate f w of None \<Rightarrow> None | Some w' \<Rightarrow> Some (x\<lparr>x_pc := XAcquire\<rparr>, b, w'))
      | XAcquire \<Rightarrow> (case cas_take b of None \<Rightarrow> None | Some b' \<Rightarrow> Some (x\<lparr>x_pc := XCheck\<rparr>, b', w))
      | XCheck \<Rightarrow> Some (exec_check f x (b, w))
      | XBackoff \<Rightarrow> Some (x\<lparr>x_pc := XTop\<rparr>, b, w)
      | XTransfer \<Rightarrow> None
      | XReturned st \<Rightarrow> None)"

fun exec_run ::
  "('w, 'g) flow \<Rightarrow> exec_event list \<Rightarrow> 'g exec \<Rightarrow> Budget \<times> 'w \<Rightarrow> ('g exec \<times> Budget \<times> 'w) option" where
  "exec_run f [] x s = Some (x, s)"
| "exec_run f (ev # evs) x s =
     (case exec_step f ev x s of None \<Rightarrow> None | Some (x', s') \<Rightarrow> exec_run f evs x' s')"

lemma exec_run_append:
  "exec_run f (evs @ evs') x s =
     (case exec_run f evs x s of None \<Rightarrow> None | Some (x', s') \<Rightarrow> exec_run f evs' x' s')"
  by (induction evs arbitrary: x s) (auto split: option.splits)

section \<open>Permits\<close>

text \<open>An executor holds a permit exactly between taking it and the end of the transfer.\<close>

definition holding :: "'g exec \<Rightarrow> bool" where
  "holding x \<longleftrightarrow> x_pc x = XCheck \<or> x_pc x = XTransfer"

lemma exec_step_permit:
  assumes "exec_step f ev x (b, w) = Some (x', b', w')"
  shows "holding x' = holding x \<and> b' = b \<or>
     \<not> holding x \<and> holding x' \<and> cas_take b = Some b' \<or>
     holding x \<and> \<not> holding x' \<and> b' = permit_drop b"
proof (cases ev)
  case Advance
  with assms show ?thesis
    by (auto simp: exec_top_def exec_check_def holding_def Let_def split_beta split: exec_pc.splits if_splits option.splits)
next
  case (Result bytes res)
  with assms have pc: "x_pc x = XTransfer" and r: "exec_result f bytes res x (b, w) = (x', b', w')"
    by (auto split: if_splits)
  from r have "b' = permit_drop b \<and> x_pc x' \<noteq> XTransfer \<and> x_pc x' \<noteq> XCheck"
    by (auto simp: exec_result_def exec_failed_def Let_def split_beta split: option.splits if_splits)
  with pc show ?thesis by (simp add: holding_def)
qed

section \<open>Executors that share a budget\<close>

text \<open>
  Any number of executors run over one budget and one world of shared state, each with
  its own hooks; other tasks change the world at any time.
\<close>

record ('w, 'g) pool =
  pool_budget :: Budget
  world :: 'w
  execs :: "nat \<Rightarrow> 'g exec"

definition pool_init :: "('w, 'g) pool \<Rightarrow> bool" where
  "pool_init s \<longleftrightarrow> (\<exists>name cap w. s = \<lparr>pool_budget = budget_new name cap, world = w, execs = (\<lambda>_. exec_start)\<rparr>)"

inductive pool_step :: "(nat \<Rightarrow> ('w, 'g) flow) \<Rightarrow> ('w, 'g) pool \<Rightarrow> ('w, 'g) pool \<Rightarrow> bool"
  for fl :: "nat \<Rightarrow> ('w, 'g) flow" where
  p_exec: "exec_step (fl i) ev (execs s i) (pool_budget s, world s) = Some (x, b, w) \<Longrightarrow>
     pool_step fl s (s\<lparr>pool_budget := b, world := w, execs := (execs s)(i := x)\<rparr>)"
| p_env: "pool_step fl s (s\<lparr>world := w\<rparr>)"

definition pool_holders :: "('w, 'g) pool \<Rightarrow> nat set" where
  "pool_holders s = {i. holding (execs s i)}"

definition attempts_ok :: "('w, 'g) flow \<Rightarrow> 'g exec \<Rightarrow> bool" where
  "attempts_ok f x \<longleftrightarrow>
     (if x_pc x = XReturned Failed then unat (x_attempt x) = Suc (unat (f_max_retries f))
      else x_attempt x \<le> f_max_retries f)"

definition pool_inv :: "(nat \<Rightarrow> ('w, 'g) flow) \<Rightarrow> ('w, 'g) pool \<Rightarrow> bool" where
  "pool_inv fl s \<longleftrightarrow>
     finite (pool_holders s) \<and> held (pool_budget s) = card (pool_holders s) \<and>
     held (pool_budget s) \<le> capacity (pool_budget s) \<and>
     (\<forall>i. f_max_retries (fl i) < - 1 \<longrightarrow> attempts_ok (fl i) (execs s i))"

lemma pool_holders_upd:
  "pool_holders (s\<lparr>pool_budget := b, world := w, execs := (execs s)(i := x)\<rparr>) =
     (if holding x then insert i (pool_holders s) else pool_holders s - {i})"
  "pool_holders (s\<lparr>world := w, execs := (execs s)(i := x)\<rparr>) =
     (if holding x then insert i (pool_holders s) else pool_holders s - {i})"
  by (auto simp: pool_holders_def)

lemma exec_step_attempts:
  assumes "exec_step f ev x s = Some (x', s')" "attempts_ok f x" "f_max_retries f < - 1"
  shows "attempts_ok f x'"
proof (cases ev)
  case Advance
  obtain b w where "s = (b, w)" by fastforce
  with Advance assms show ?thesis
    by (auto simp: attempts_ok_def exec_top_def exec_check_def Let_def split_beta
        split: exec_pc.splits if_splits option.splits)
next
  case (Result bytes res)
  obtain b w where s: "s = (b, w)" by fastforce
  from Result assms have pc: "x_pc x = XTransfer" and r: "exec_result f bytes res x s = (x', s')"
    by (auto split: if_splits)
  from pc assms(2) have le: "x_attempt x \<le> f_max_retries f" by (simp add: attempts_ok_def)
  then have "unat (x_attempt x + 1) = Suc (unat (x_attempt x))"
    using assms(3) by (intro unat_Suc_lt) (rule le_less_trans)
  with le r s show ?thesis
    by (auto simp: attempts_ok_def exec_result_def exec_failed_def Let_def word_le_nat_alt word_less_nat_alt not_less
        split: option.splits if_splits)
qed

lemma pool_inv_exec:
  assumes "pool_inv fl s" "exec_step (fl i) ev (execs s i) (pool_budget s, world s) = Some (x, b, w)"
  shows "pool_inv fl (s\<lparr>pool_budget := b, world := w, execs := (execs s)(i := x)\<rparr>)"
proof -
  have att: "\<forall>j. f_max_retries (fl j) < - 1 \<longrightarrow> attempts_ok (fl j) (((execs s)(i := x)) j)"
    using assms exec_step_attempts [OF assms(2)] by (auto simp: pool_inv_def)
  have inv: "finite (pool_holders s)" "held (pool_budget s) = card (pool_holders s)"
    "held (pool_budget s) \<le> capacity (pool_budget s)"
    using assms(1) by (simp_all add: pool_inv_def)
  have i: "i \<in> pool_holders s \<longleftrightarrow> holding (execs s i)" by (simp add: pool_holders_def)
  from exec_step_permit [OF assms(2)] consider
      "holding x = holding (execs s i)" "b = pool_budget s"
    | "\<not> holding (execs s i)" "holding x" "cas_take (pool_budget s) = Some b"
    | "holding (execs s i)" "\<not> holding x" "b = permit_drop (pool_budget s)"
    by blast
  then show ?thesis
  proof cases
    case 1
    with inv att i show ?thesis by (auto simp: pool_inv_def pool_holders_upd insert_absorb)
  next
    case 2
    with inv att i ledger.held_take [OF 2(3)] ledger.take_within [OF 2(3)] show ?thesis
      by (simp add: pool_inv_def pool_holders_upd)
  next
    case 3
    with i inv have "0 < held (pool_budget s)" by (auto simp: card_gt_0_iff)
    with 3 inv att i ledger.held_give [of "pool_budget s"] ledger.capacity_give [of "pool_budget s"] show ?thesis
      by (simp add: pool_inv_def pool_holders_upd)
  qed
qed

interpretation pool: invariant_system pool_init "pool_step fl" "pool_inv fl" for fl
proof (unfold_locales, goal_cases)
  case (1 s)
  then show ?case
    by (auto simp: pool_init_def pool_inv_def pool_holders_def holding_def exec_start_def held_def budget_new_def
        attempts_ok_def)
next
  case (2 s t)
  from 2(2,1) show ?case
    by (induction rule: pool_step.induct)
      (auto intro: pool_inv_exec, auto simp: pool_inv_def pool_holders_def)
qed

section \<open>What the executor relies on\<close>

text \<open>
  The contract of \<open>ExecFlow\<close>: while its transfer is live, every hook but a terminal one
  keeps it live, and a terminal one settles it in the state the executor returns.
\<close>

locale exec_flow =
  fixes f :: "('w, 'g) flow" and live :: "'w \<Rightarrow> bool" and settled :: "TransferState \<Rightarrow> 'w \<Rightarrow> bool"
  assumes prepare_live: "live w \<Longrightarrow> live (snd (f_prepare f n w))"
    and pause_live: "live w \<Longrightarrow> live (f_pause_edge f e w)"
    and gate_live: "live w \<Longrightarrow> f_gate f w = Some w' \<Longrightarrow> live w'"
    and drop_live: "live w \<Longrightarrow> live (f_drop_guard f g w)"
    and error_live: "live w \<Longrightarrow> live (f_real_error f w)"
    and retry_live: "live w \<Longrightarrow> r_kind r = AttRetry \<Longrightarrow> live (f_report f r g w)"
    and cancel_settled: "live w \<Longrightarrow> settled Canceled (f_cancel_terminal f w)"
    and done_settled: "live w \<Longrightarrow> r_kind r = AttDone \<Longrightarrow> settled Done (f_report f r g w)"
    and canceled_settled: "live w \<Longrightarrow> r_kind r = AttCanceled \<Longrightarrow> settled Canceled (f_report f r g w)"
    and failed_settled: "live w \<Longrightarrow> r_kind r = AttFailed \<Longrightarrow> settled Failed (f_report f r g w)"
begin

lemma step_settles:
  assumes "exec_step f ev x (b, w) = Some (x', b', w')" "live w"
  shows "case x_pc x' of XReturned st \<Rightarrow> settled st w' | _ \<Rightarrow> live w'"
proof (cases ev)
  case Advance
  have prep: "f_prepare f n w = (g, w1) \<Longrightarrow> live w1" for n g w1
    using prepare_live [OF assms(2), of n] by simp
  with Advance assms show ?thesis
    by (auto simp: exec_top_def exec_check_def Let_def split: exec_pc.splits if_splits option.splits prod.splits
        intro: pause_live gate_live cancel_settled prep)
next
  case (Result bytes res)
  with assms have "exec_result f bytes res x (b, w) = (x', b', w')" by (auto split: if_splits)
  then show ?thesis
    using assms(2)
    by (auto simp: exec_result_def exec_failed_def Let_def split: option.splits if_splits
        intro!: drop_live retry_live error_live done_settled canceled_settled failed_settled)
qed

lemma returned_stops: "x_pc x = XReturned st \<Longrightarrow> exec_step f ev x s = None"
  by (cases ev; cases s) auto

lemma run_settles:
  assumes "exec_run f evs x (b, w) = Some (x', b', w')" "live w" "\<forall>st. x_pc x \<noteq> XReturned st"
  shows "case x_pc x' of XReturned st \<Rightarrow> settled st w' | _ \<Rightarrow> live w'"
  using assms
proof (induction evs arbitrary: x b w)
  case Nil
  then show ?case by (auto split: exec_pc.splits)
next
  case (Cons ev evs)
  then obtain x1 b1 w1 where step: "exec_step f ev x (b, w) = Some (x1, b1, w1)"
    and run: "exec_run f evs x1 (b1, w1) = Some (x', b', w')"
    by (auto split: option.splits)
  note settles = step_settles [OF step Cons.prems(2)]
  show ?case
  proof (cases "\<exists>st. x_pc x1 = XReturned st")
    case True
    then have "evs = []" using run returned_stops by (cases evs) auto
    with run settles show ?thesis by auto
  next
    case False
    with settles have "live w1" by (auto split: exec_pc.splits)
    with run False show ?thesis by (intro Cons.IH) auto
  qed
qed

end

section \<open>The hooks of the transfer queue\<close>

definition queue_flow :: "nat \<Rightarrow> (TransferQueue, unit) flow" where
  "queue_flow a =
     \<lparr>f_canceled = (\<lambda>q. t_cancel (inners q ! a)), f_paused = (\<lambda>q. t_pause (inners q ! a)),
      f_prepare = (\<lambda>n q. ((), prepare a q)), f_cancel_terminal = cancel_terminal a,
      f_pause_edge = (\<lambda>e. pause_edge e a), f_gate = pre_permit_gate a,
      f_report = (\<lambda>r g. report r a), f_drop_guard = (\<lambda>g q. q), f_real_error = (\<lambda>q. q),
      f_max_retries = DEFAULT_MAX_RETRIES\<rparr>"

lemma apply_delta_inners [simp]: "inners (apply_delta d q) = inners q"
  by (cases d) simp_all

lemma fold_delta_inners [simp]: "inners (fold apply_delta ds q) = inners q"
  by (induction ds arbitrary: q) auto

lemma inners_emit [simp]: "inners (emit a q) = inners q"
  by (simp add: emit_def)

lemma inners_hook: "inners (run_hook h a q) = (inners q)[a := fst (h (inners q ! a))]"
  by (simp add: run_hook_def upd_def split_beta Let_def)

definition queue_live :: "nat \<Rightarrow> TransferQueue \<Rightarrow> bool" where
  "queue_live a q \<longleftrightarrow> a < length (inners q) \<and> \<not> is_terminal (state_of (inners q ! a))"

definition queue_settled :: "nat \<Rightarrow> TransferState \<Rightarrow> TransferQueue \<Rightarrow> bool" where
  "queue_settled a st q \<longleftrightarrow> state_of (inners q ! a) = st \<and> t_priority (inners q ! a) = 0"

lemmas queue_hooks =
  queue_flow_def queue_live_def queue_settled_def prepare_def cancel_terminal_def pause_edge_def pre_permit_gate_def
  report_def repay_priority_def inners_hook upd_def repay_swap_def pause_edge_cas_def gate_cas_def cas_priority_def
  is_terminal_def set_state_def report_info_def

interpretation qf: exec_flow "queue_flow a" "queue_live a" "queue_settled a" for a
  by unfold_locales (auto simp: queue_hooks Let_def split: if_splits)

section \<open>Conflicts with an existing target\<close>

text \<open>
  \<open>resolve_remote\<close> with the probe as an argument (an error of the probe ends it), and
  \<open>resolve_local\<close> with the existence test of the file system as an argument.
\<close>

fun remote_candidates ::
  "(string \<Rightarrow> (SftpError, bool) result) \<Rightarrow> string \<Rightarrow> nat list \<Rightarrow> (SftpError, (string \<times> OnExists) option) result" where
  "remote_candidates probe target [] = Err (RemotePath target NoRenameCandidate)"
| "remote_candidates probe target (n # ns) =
     (case probe (rename_candidate target n) of
        Inl e \<Rightarrow> Err e
      | Inr taken \<Rightarrow> if \<not> taken then Ok (Some (rename_candidate target n, Resume))
                    else remote_candidates probe target ns)"

definition resolve_remote ::
  "(string \<Rightarrow> (SftpError, bool) result) \<Rightarrow> string \<Rightarrow> OnExists \<Rightarrow> (SftpError, (string \<times> OnExists) option) result" where
  "resolve_remote probe target policy =
     (case probe target of
        Inl e \<Rightarrow> Err e
      | Inr taken \<Rightarrow>
          if \<not> taken then Ok (Some (target, runtime policy))
          else (case policy of
                  Resume \<Rightarrow> Ok (Some (target, policy))
                | Overwrite \<Rightarrow> Ok (Some (target, policy))
                | Skip \<Rightarrow> Ok None
                | Rename \<Rightarrow> remote_candidates probe target [1..<1000]))"

fun local_candidates :: "(string \<Rightarrow> bool) \<Rightarrow> string \<Rightarrow> nat list \<Rightarrow> (SftpError, (string \<times> OnExists) option) result" where
  "local_candidates ex target [] = Err (LocalIo target NoRenameCandidate)"
| "local_candidates ex target (n # ns) =
     (if \<not> ex (rename_candidate target n) then Ok (Some (rename_candidate target n, Resume))
      else local_candidates ex target ns)"

definition resolve_local ::
  "(string \<Rightarrow> bool) \<Rightarrow> string \<Rightarrow> OnExists \<Rightarrow> (SftpError, (string \<times> OnExists) option) result" where
  "resolve_local ex target policy =
     (if \<not> ex target then Ok (Some (target, runtime policy))
      else (case policy of
              Resume \<Rightarrow> Ok (Some (target, policy))
            | Overwrite \<Rightarrow> Ok (Some (target, policy))
            | Skip \<Rightarrow> Ok None
            | Rename \<Rightarrow> local_candidates ex target [1..<1000]))"

lemma local_candidates_find:
  "local_candidates ex target ns =
     (case find (\<lambda>n. \<not> ex (rename_candidate target n)) ns of
        Some n \<Rightarrow> Ok (Some (rename_candidate target n, Resume))
      | None \<Rightarrow> Err (LocalIo target NoRenameCandidate))"
  by (induction ns) auto

text \<open>A probe that never fails makes the remote policy the local one, up to the error.\<close>

lemma remote_candidates_find:
  "remote_candidates (\<lambda>p. Ok (ex p)) target ns =
     (case find (\<lambda>n. \<not> ex (rename_candidate target n)) ns of
        Some n \<Rightarrow> Ok (Some (rename_candidate target n, Resume))
      | None \<Rightarrow> Err (RemotePath target NoRenameCandidate))"
  by (induction ns) auto

lemma rename_candidate_inject: "rename_candidate p m = rename_candidate p n \<Longrightarrow> m = n"
  by (auto simp: rename_candidate_def Let_def show_nat_inject split: option.splits prod.splits if_splits)

lemma find_range:
  "find P [1..<k] = Some n \<Longrightarrow> 1 \<le> n \<and> n < k \<and> P n \<and> (\<forall>m. 1 \<le> m \<and> m < n \<longrightarrow> \<not> P m)"
  "find P [1..<k] = None \<Longrightarrow> \<forall>n. 1 \<le> n \<and> n < k \<longrightarrow> \<not> P n"
proof -
  assume "find P [1..<k] = Some n"
  then obtain i where i: "i < k - 1" "P ([1..<k] ! i)" "n = [1..<k] ! i" "\<forall>j < i. \<not> P ([1..<k] ! j)"
    by (auto simp: find_Some_iff)
  have "\<not> P m" if "1 \<le> m" "m < n" for m
    using i(4) [rule_format, of "m - 1"] i(1,3) that by simp
  with i show "1 \<le> n \<and> n < k \<and> P n \<and> (\<forall>m. 1 \<le> m \<and> m < n \<longrightarrow> \<not> P m)" by auto
next
  assume "find P [1..<k] = None"
  then show "\<forall>n. 1 \<le> n \<and> n < k \<longrightarrow> \<not> P n" by (auto simp: find_None_iff)
qed

lemma step_terminal: "exec_step f ev x s = Some (x', s') \<Longrightarrow> x_pc x' = XReturned st \<Longrightarrow> st \<in> {Done, Failed, Canceled}"
  by (cases ev; cases s)
    (auto simp: exec_top_def exec_check_def exec_result_def exec_failed_def Let_def
      split: exec_pc.splits if_splits option.splits prod.splits)

lemma returned_terminal:
  "exec_run f evs x s = Some (x', s') \<Longrightarrow> x_pc x' = XReturned st \<Longrightarrow> \<forall>st. x_pc x \<noteq> XReturned st \<Longrightarrow> is_terminal st"
proof (induction evs arbitrary: x s)
  case (Cons ev evs)
  then obtain x1 s1 where st: "exec_step f ev x s = Some (x1, s1)" "exec_run f evs x1 s1 = Some (x', s')"
    by (auto split: option.splits)
  show ?case
  proof (cases "\<exists>st. x_pc x1 = XReturned st")
    case True
    then have "x1 = x'" using st(2) by (cases evs; cases s1) (auto elim!: exec_step.elims split: option.splits)
    with st(1) Cons.prems(2) step_terminal show ?thesis by (metis is_terminal_def)
  next
    case False
    with st(2) Cons.prems(2) show ?thesis by (intro Cons.IH) auto
  qed
qed simp

section \<open>A transfer with failing attempts\<close>

definition attempt_fails :: "u64 \<Rightarrow> string \<Rightarrow> exec_event list" where
  "attempt_fails n e = [Advance, Advance, Advance, Advance, Result n (Some e)]"

definition attempt_succeeds :: "u64 \<Rightarrow> exec_event list" where
  "attempt_succeeds n = [Advance, Advance, Advance, Advance, Result n None]"

definition ready :: "nat \<Rightarrow> TransferQueue \<Rightarrow> bool" where
  "ready a q \<longleftrightarrow> a < length (inners q) \<and> \<not> t_pause (inners q ! a) \<and> \<not> t_cancel (inners q ! a) \<and>
     t_priority (inners q ! a) = 0 \<and> priority_waiting q = 0"

lemma ready_hooks:
  assumes "ready a q"
  shows "pre_permit_gate a q = Some q" "ready a (prepare a q)"
    "ti_retries (t_info (inners (prepare a q) ! a)) = ti_retries (t_info (inners q ! a))"
    "r_kind r = AttRetry \<Longrightarrow> ready a (report r a q)"
  using assms
  by (simp_all add: ready_def gate_blocked_def queue_hooks Let_def run_hook_def emit_def)

lemma exec_attempt:
  assumes "ready a q" "b_used b < b_cap b" "x_pc x = XTop"
  shows "\<exists>b'. permit_drop b' = b \<and>
    exec_run (queue_flow a) [Advance, Advance, Advance, Advance] x (b, q) =
      Some (x\<lparr>x_pc := XTransfer, x_guard := Some ()\<rparr>, b', prepare a q)"
proof -
  obtain b' where b': "cas_take b = Some b'" using assms(2) by (simp add: cas_take_def)
  from assms(1) have flags: "\<not> t_cancel (inners q ! a)" "\<not> t_pause (inners q ! a)" by (simp_all add: ready_def)
  have "exec_run (queue_flow a) [Advance, Advance, Advance, Advance] x (b, q) =
      Some (x\<lparr>x_pc := XTransfer, x_guard := Some ()\<rparr>, b', prepare a q)"
    using assms(3) flags b' ready_hooks(1) [OF assms(1)]
    by (simp add: exec_top_def exec_check_def queue_flow_def)
  with ledger.give_take [OF b'] show ?thesis by blast
qed

lemma attempt_retries:
  assumes "ready a q" "b_used b < b_cap b" "x_pc x = XTop" "x_attempt x < DEFAULT_MAX_RETRIES"
  shows "\<exists>q'. exec_run (queue_flow a) (attempt_fails n e @ [Advance]) x (b, q) =
      Some (x\<lparr>x_attempt := x_attempt x + 1, x_guard := None\<rparr>, b, q') \<and> ready a q' \<and>
      ti_retries (t_info (inners q' ! a)) = ti_retries (t_info (inners q ! a)) + 1"
proof -
  let ?r = "\<lparr>r_kind = AttRetry, r_bytes = n, r_error = Some e\<rparr>"
  let ?q = "report ?r a (prepare a q)"
  obtain b' where b': "permit_drop b' = b" and run: "exec_run (queue_flow a) [Advance, Advance, Advance, Advance] x (b, q) =
      Some (x\<lparr>x_pc := XTransfer, x_guard := Some ()\<rparr>, b', prepare a q)"
    using exec_attempt [OF assms(1-3)] by blast
  have rdy: "ready a (prepare a q)" using ready_hooks(2) [OF assms(1)] .
  have "x_attempt x + 1 \<le> DEFAULT_MAX_RETRIES"
    using assms(4) unat_Suc_lt [OF assms(4)] by (simp add: word_le_nat_alt word_less_nat_alt)
  then have "exec_run (queue_flow a) [Result n (Some e), Advance] (x\<lparr>x_pc := XTransfer, x_guard := Some ()\<rparr>) (b', prepare a q) =
      Some (x\<lparr>x_pc := XTop, x_attempt := x_attempt x + 1, x_guard := None\<rparr>, b, ?q)"
    using rdy b' by (simp add: exec_result_def exec_failed_def queue_flow_def ready_def Let_def not_less)
  moreover have "x\<lparr>x_pc := XTop, x_attempt := x_attempt x + 1, x_guard := None\<rparr> = x\<lparr>x_attempt := x_attempt x + 1, x_guard := None\<rparr>"
    using assms(3) by (cases x) simp
  moreover have "attempt_fails n e @ [Advance] = [Advance, Advance, Advance, Advance] @ [Result n (Some e), Advance]"
    by (simp add: attempt_fails_def)
  ultimately have "exec_run (queue_flow a) (attempt_fails n e @ [Advance]) x (b, q) =
      Some (x\<lparr>x_attempt := x_attempt x + 1, x_guard := None\<rparr>, b, ?q)"
    using run by (simp only: exec_run_append option.case prod.case)
  moreover have "ready a ?q" using ready_hooks(4) [OF rdy] by simp
  moreover have "ti_retries (t_info (inners ?q ! a)) = ti_retries (t_info (inners q ! a)) + 1"
    using rdy ready_hooks(3) [OF assms(1)] by (simp add: report_def report_info_def upd_def ready_def Let_def)
  ultimately show ?thesis by blast
qed

lemma attempts_retry:
  assumes "ready a q" "b_used b < b_cap b" "x_pc x = XTop" "unat (x_attempt x) + length es \<le> unat DEFAULT_MAX_RETRIES"
  shows "\<exists>x' q'. exec_run (queue_flow a) (concat (map (\<lambda>e. attempt_fails n e @ [Advance]) es)) x (b, q) = Some (x', b, q') \<and>
      x_pc x' = XTop \<and> unat (x_attempt x') = unat (x_attempt x) + length es \<and> ready a q' \<and>
      ti_retries (t_info (inners q' ! a)) = ti_retries (t_info (inners q ! a)) + of_nat (length es)"
  using assms
proof (induction es arbitrary: x q)
  case Nil
  then show ?case by simp
next
  case (Cons e es)
  have lt: "x_attempt x < DEFAULT_MAX_RETRIES" using Cons.prems by (simp add: word_less_nat_alt)
  let ?x = "x\<lparr>x_attempt := x_attempt x + 1, x_guard := None\<rparr>"
  obtain q1 where q1: "exec_run (queue_flow a) (attempt_fails n e @ [Advance]) x (b, q) = Some (?x, b, q1)" "ready a q1"
    "ti_retries (t_info (inners q1 ! a)) = ti_retries (t_info (inners q ! a)) + 1"
    using attempt_retries [OF Cons.prems(1-3) lt, of n e] by blast
  have "unat (x_attempt ?x) = Suc (unat (x_attempt x))" using unat_Suc_lt [OF lt] by simp
  with Cons.IH [OF q1(2) Cons.prems(2), of ?x] Cons.prems(3,4) obtain x' q' where IH:
    "exec_run (queue_flow a) (concat (map (\<lambda>e. attempt_fails n e @ [Advance]) es)) ?x (b, q1) = Some (x', b, q')"
    "x_pc x' = XTop" "unat (x_attempt x') = unat (x_attempt x) + length (e # es)" "ready a q'"
    "ti_retries (t_info (inners q' ! a)) = ti_retries (t_info (inners q1 ! a)) + of_nat (length es)"
    by auto
  have "exec_run (queue_flow a) (concat (map (\<lambda>e. attempt_fails n e @ [Advance]) (e # es))) x (b, q) = Some (x', b, q')"
    using q1(1) IH(1) by (simp only: list.map concat.simps exec_run_append option.case prod.case)
  with IH q1(3) show ?case by auto
qed

lemma last_attempt:
  assumes "ready a q" "b_used b < b_cap b" "x_pc x = XTop"
  shows "\<exists>x' q'. exec_run (queue_flow a) (attempt_succeeds n) x (b, q) = Some (x', b, q') \<and>
      x_pc x' = XReturned Done \<and> state_of (inners q' ! a) = Done \<and>
      ti_retries (t_info (inners q' ! a)) = ti_retries (t_info (inners q ! a))"
    and "x_attempt x = DEFAULT_MAX_RETRIES \<Longrightarrow>
      \<exists>x' q'. exec_run (queue_flow a) (attempt_fails n e) x (b, q) = Some (x', b, q') \<and>
      x_pc x' = XReturned Failed \<and> state_of (inners q' ! a) = Failed \<and> ti_error (t_info (inners q' ! a)) = Some e"
proof -
  let ?x = "x\<lparr>x_pc := XTransfer, x_guard := Some ()\<rparr>"
  obtain b' where b': "permit_drop b' = b" and run: "exec_run (queue_flow a) [Advance, Advance, Advance, Advance] x (b, q) =
      Some (?x, b', prepare a q)"
    using exec_attempt [OF assms] by blast
  have rdy: "ready a (prepare a q)" "a < length (inners q)"
    using ready_hooks(2) [OF assms(1)] assms(1) by (simp_all add: ready_def)
  have evs: "attempt_succeeds n = [Advance, Advance, Advance, Advance] @ [Result n None]"
    "attempt_fails n e = [Advance, Advance, Advance, Advance] @ [Result n (Some e)]"
    by (simp_all add: attempt_succeeds_def attempt_fails_def)
  have "exec_run (queue_flow a) [Result n None] ?x (b', prepare a q) =
      Some (x\<lparr>x_pc := XReturned Done, x_guard := None\<rparr>, b,
        report \<lparr>r_kind = AttDone, r_bytes = n, r_error = None\<rparr> a (prepare a q))"
    using b' by (simp add: exec_result_def queue_flow_def)
  moreover have "state_of (inners (report \<lparr>r_kind = AttDone, r_bytes = n, r_error = None\<rparr> a (prepare a q)) ! a) = Done"
    "ti_retries (t_info (inners (report \<lparr>r_kind = AttDone, r_bytes = n, r_error = None\<rparr> a (prepare a q)) ! a)) =
       ti_retries (t_info (inners q ! a))"
    using rdy by (simp_all add: queue_hooks Let_def)
  ultimately show "\<exists>x' q'. exec_run (queue_flow a) (attempt_succeeds n) x (b, q) = Some (x', b, q') \<and>
      x_pc x' = XReturned Done \<and> state_of (inners q' ! a) = Done \<and>
      ti_retries (t_info (inners q' ! a)) = ti_retries (t_info (inners q ! a))"
    using run unfolding evs by (simp only: exec_run_append option.case prod.case) auto
  assume max: "x_attempt x = DEFAULT_MAX_RETRIES"
  let ?q = "report \<lparr>r_kind = AttFailed, r_bytes = n, r_error = Some e\<rparr> a (prepare a q)"
  have "exec_run (queue_flow a) [Result n (Some e)] ?x (b', prepare a q) =
      Some (x\<lparr>x_pc := XReturned Failed, x_attempt := x_attempt x + 1, x_guard := None\<rparr>, b, ?q)"
    using b' rdy max
    by (simp add: exec_result_def exec_failed_def queue_flow_def ready_def Let_def DEFAULT_MAX_RETRIES_def)
  moreover have "state_of (inners ?q ! a) = Failed" "ti_error (t_info (inners ?q ! a)) = Some e"
    using rdy by (simp_all add: queue_hooks Let_def)
  ultimately show "\<exists>x' q'. exec_run (queue_flow a) (attempt_fails n e) x (b, q) = Some (x', b, q') \<and>
      x_pc x' = XReturned Failed \<and> state_of (inners q' ! a) = Failed \<and> ti_error (t_info (inners q' ! a)) = Some e"
    using run unfolding evs by (simp only: exec_run_append option.case prod.case) auto
qed

section \<open>Properties\<close>

text \<open>
  C16. However many executors share a budget, and whatever other tasks do meanwhile, the
  permits in use are exactly those of the executors between acquiring and the end of the
  transfer: at most \<open>cap\<close> transfers run at once, and an executor that waits out a pause,
  gives way, backs off or has returned holds none.
\<close>

theorem transfers_within_permits:
  assumes "reachable pool_init (pool_step fl) s"
  shows "card {i. x_pc (execs s i) = XTransfer} \<le> unat (b_cap (pool_budget s)) \<and>
    unat (b_used (pool_budget s)) = card {i. x_pc (execs s i) = XCheck \<or> x_pc (execs s i) = XTransfer}"
proof -
  have inv: "finite (pool_holders s)" "held (pool_budget s) = card (pool_holders s)"
    "held (pool_budget s) \<le> capacity (pool_budget s)"
    using pool.inv_reachable [OF assms] by (simp_all add: pool_inv_def)
  have "card {i. x_pc (execs s i) = XTransfer} \<le> card (pool_holders s)"
    by (rule card_mono) (use inv(1) in \<open>auto simp: pool_holders_def holding_def\<close>)
  with inv show ?thesis by (simp add: held_def capacity_def pool_holders_def holding_def)
qed

text \<open>
  An executor gives up only after \<open>max_retries + 1\<close> attempts that failed on their own:
  interruptions by a pause or a cancel never count.
\<close>

theorem gives_up_after_retries:
  assumes "reachable pool_init (pool_step fl) s" "f_max_retries (fl i) < - 1"
  shows "if x_pc (execs s i) = XReturned Failed then unat (x_attempt (execs s i)) = Suc (unat (f_max_retries (fl i)))
    else x_attempt (execs s i) \<le> f_max_retries (fl i)"
  using pool.inv_reachable [OF assms(1)] assms(2) by (simp add: pool_inv_def attempts_ok_def)

lemma pool_run:
  assumes "reachable pool_init (pool_step fl) s"
    "exec_run (fl i) evs (execs s i) (pool_budget s, world s) = Some (x, b, w)"
  shows "reachable pool_init (pool_step fl) (s\<lparr>pool_budget := b, world := w, execs := (execs s)(i := x)\<rparr>)"
  using assms
proof (induction evs arbitrary: s)
  case Nil
  then have "s\<lparr>pool_budget := b, world := w, execs := (execs s)(i := x)\<rparr> = s" by (cases s) auto
  with Nil(1) show ?case by (simp only:)
next
  case (Cons ev evs)
  then obtain x1 b1 w1 where st: "exec_step (fl i) ev (execs s i) (pool_budget s, world s) = Some (x1, b1, w1)"
    "exec_run (fl i) evs x1 (b1, w1) = Some (x, b, w)"
    by (auto split: option.splits)
  let ?s = "s\<lparr>pool_budget := b1, world := w1, execs := (execs s)(i := x1)\<rparr>"
  have "reachable pool_init (pool_step fl) ?s"
    by (rule reach_step [OF Cons.prems(1)]) (rule p_exec [of fl i ev, OF st(1)])
  from Cons.IH [OF this] st(2) show ?case by (simp del: fun_upd_apply add: fun_upd_same)
qed

definition idle_pool :: "(TransferQueue, unit) pool" where
  "idle_pool = \<lparr>pool_budget = budget_new ''sftp.exec'' 1, world = one_queue, execs = (\<lambda>_. exec_start)\<rparr>"

definition busy_pool :: "(TransferQueue, unit) pool" where
  "busy_pool = idle_pool\<lparr>pool_budget := (budget_new ''sftp.exec'' 1)\<lparr>b_used := 1\<rparr>, world := prepare 0 one_queue,
     execs := (\<lambda>_. exec_start)(0 := \<lparr>x_pc = XTransfer, x_attempt = 0, x_guard = Some ()\<rparr>)\<rparr>"

lemma ready_one_queue: "ready 0 one_queue"
  by (simp add: ready_def one_queue_def register_def queue_new_def Let_def fresh_inner_def)

lemma reachable_busy_pool: "reachable pool_init (pool_step queue_flow) busy_pool"
proof -
  have init: "reachable pool_init (pool_step queue_flow) idle_pool"
    by (rule reach_init) (auto simp: pool_init_def idle_pool_def)
  have "exec_run (queue_flow 0) [Advance, Advance, Advance, Advance] exec_start (budget_new ''sftp.exec'' 1, one_queue) =
      Some (\<lparr>x_pc = XTransfer, x_attempt = 0, x_guard = Some ()\<rparr>, (budget_new ''sftp.exec'' 1)\<lparr>b_used := 1\<rparr>, prepare 0 one_queue)"
    using ready_one_queue ready_hooks(1) [OF ready_one_queue]
    by (simp add: exec_start_def exec_top_def exec_check_def queue_flow_def ready_def cas_take_def budget_new_def)
  with pool_run [OF init, of 0 "[Advance, Advance, Advance, Advance]"] show ?thesis
    by (simp add: idle_pool_def busy_pool_def)
qed

theorem transfers_within_permits_witness:
  "card {i. x_pc (execs busy_pool i) = XTransfer} \<le> 1 \<and> x_pc (execs busy_pool 0) = XTransfer"
  using transfers_within_permits [OF reachable_busy_pool] by (simp add: busy_pool_def idle_pool_def budget_new_def)

theorem gives_up_after_retries_witness: "x_attempt (execs busy_pool 0) \<le> DEFAULT_MAX_RETRIES"
  using gives_up_after_retries [OF reachable_busy_pool, of 0]
  by (simp add: busy_pool_def queue_flow_def DEFAULT_MAX_RETRIES_def)

text \<open>
  A transfer task leaves its transfer settled: when the executor returns a state, the
  registry entry is in that very state and its priority mark has been given back.
\<close>

theorem task_settles_transfer:
  assumes "exec_run (queue_flow a) evs exec_start (b, q) = Some (x, b', q')"
    "a < length (inners q)" "\<not> is_terminal (ti_state (t_info (inners q ! a)))" "x_pc x = XReturned st"
  shows "ti_state (t_info (inners q' ! a)) = st \<and> t_priority (inners q' ! a) = 0 \<and> is_terminal st"
proof -
  have "case x_pc x of XReturned st \<Rightarrow> queue_settled a st q' | _ \<Rightarrow> queue_live a q'"
    using qf.run_settles [OF assms(1)] assms(2,3) by (simp add: queue_live_def exec_start_def)
  moreover have "is_terminal st"
    using assms(1,4) returned_terminal [of "queue_flow a" evs exec_start "(b, q)" x "(b', q')" st]
    by (simp add: exec_start_def)
  ultimately show ?thesis using assms(4) by (simp add: queue_settled_def)
qed

theorem task_settles_transfer_witness:
  "\<exists>x q'. exec_run (queue_flow 0) (attempt_succeeds 5) exec_start (budget_new ''sftp.exec'' 1, one_queue) =
      Some (x, budget_new ''sftp.exec'' 1, q') \<and> ti_state (t_info (inners q' ! 0)) = Done \<and> t_priority (inners q' ! 0) = 0"
proof -
  obtain x q' where run: "exec_run (queue_flow 0) (attempt_succeeds 5) exec_start (budget_new ''sftp.exec'' 1, one_queue) =
      Some (x, budget_new ''sftp.exec'' 1, q')" "x_pc x = XReturned Done"
    using last_attempt(1) [OF ready_one_queue, of "budget_new ''sftp.exec'' 1" exec_start 5]
    by (auto simp: budget_new_def exec_start_def)
  have "0 < length (inners one_queue)" "\<not> is_terminal (ti_state (t_info (inners one_queue ! 0)))"
    by (simp_all add: one_queue_def register_def queue_new_def Let_def fresh_inner_def is_terminal_def)
  from task_settles_transfer [OF run(1) this run(2)] run(1) show ?thesis by blast
qed

text \<open>
  The retry policy, end to end: a transfer that is neither paused nor canceled and
  finds a free permit survives up to two failed attempts and then succeeds, with the
  failures counted; when the third attempt fails too it is \<open>Failed\<close> with the last error.
  Either way every permit is back.
\<close>

theorem retry_policy:
  assumes "ready a q" "b_used b < b_cap b" "length es \<le> 2"
  shows "(\<exists>x q'. exec_run (queue_flow a) (concat (map (\<lambda>e. attempt_fails n e @ [Advance]) es) @ attempt_succeeds n)
        exec_start (b, q) = Some (x, b, q') \<and> x_pc x = XReturned Done \<and> ti_state (t_info (inners q' ! a)) = Done \<and>
        ti_retries (t_info (inners q' ! a)) = ti_retries (t_info (inners q ! a)) + of_nat (length es)) \<and>
    (length es = 2 \<longrightarrow> (\<exists>x q'. exec_run (queue_flow a) (concat (map (\<lambda>e. attempt_fails n e @ [Advance]) es) @ attempt_fails n e)
        exec_start (b, q) = Some (x, b, q') \<and> x_pc x = XReturned Failed \<and> ti_state (t_info (inners q' ! a)) = Failed \<and>
        ti_error (t_info (inners q' ! a)) = Some e))"
proof -
  have two: "unat DEFAULT_MAX_RETRIES = 2" by (simp add: DEFAULT_MAX_RETRIES_def)
  obtain x q1 where q1: "exec_run (queue_flow a) (concat (map (\<lambda>e. attempt_fails n e @ [Advance]) es)) exec_start (b, q) = Some (x, b, q1)"
    "x_pc x = XTop" "unat (x_attempt x) = length es" "ready a q1"
    "ti_retries (t_info (inners q1 ! a)) = ti_retries (t_info (inners q ! a)) + of_nat (length es)"
    using attempts_retry [OF assms(1,2), of exec_start es n] assms(3) two by (auto simp: exec_start_def)
  have "x_attempt x = DEFAULT_MAX_RETRIES" if "length es = 2"
    using that q1(3) two by (metis word_unat_eq_iff)
  with last_attempt [OF q1(4) assms(2) q1(2), of n] q1 show ?thesis
    by (auto simp: exec_run_append)
qed

theorem retry_policy_witness:
  "\<exists>x q'. exec_run (queue_flow 0) (attempt_fails 1 ''eof'' @ [Advance] @ attempt_succeeds 1) exec_start
      (budget_new ''sftp.exec'' 1, one_queue) = Some (x, budget_new ''sftp.exec'' 1, q') \<and>
    ti_state (t_info (inners q' ! 0)) = Done"
  using retry_policy [OF ready_one_queue, of "budget_new ''sftp.exec'' 1" "[''eof'']" 1]
  by (auto simp: budget_new_def)

text \<open>
  Resolving a conflict with an existing local target never clobbers it unasked: only
  the policy \<open>Overwrite\<close> yields an overwriting transfer, \<open>Skip\<close> drops exactly the existing
  targets, and \<open>Rename\<close> picks the first free numbered name, different from every other
  candidate, and fails only when all 999 are taken.
\<close>

theorem resolve_local_policy:
  "case resolve_local ex target policy of
     Inr (Some (p, mode)) \<Rightarrow>
       mode \<in> {Resume, Overwrite} \<and> (mode = Overwrite \<longleftrightarrow> policy = Overwrite) \<and>
       (policy \<in> {Skip, Rename} \<longrightarrow> \<not> ex p) \<and>
       (p = target \<or> policy = Rename \<and> ex target \<and>
          (\<exists>n. 1 \<le> n \<and> n < 1000 \<and> p = rename_candidate target n \<and>
            (\<forall>m. 1 \<le> m \<and> m < n \<longrightarrow> ex (rename_candidate target m) \<and> rename_candidate target m \<noteq> p)))
   | Inr None \<Rightarrow> policy = Skip \<and> ex target
   | Inl e \<Rightarrow> policy = Rename \<and> ex target \<and> e = LocalIo target NoRenameCandidate \<and>
       (\<forall>n. 1 \<le> n \<and> n < 1000 \<longrightarrow> ex (rename_candidate target n))"
proof (cases "ex target \<and> policy = Rename")
  case False
  then show ?thesis by (cases policy) (auto simp: resolve_local_def)
next
  case True
  then have eq: "resolve_local ex target policy = local_candidates ex target [1..<1000]"
    by (simp add: resolve_local_def)
  show ?thesis
  proof (cases "find (\<lambda>n. \<not> ex (rename_candidate target n)) [1..<1000]")
    case None
    with find_range(2) [OF None] True show ?thesis unfolding eq local_candidates_find by simp
  next
    case (Some n)
    note n = find_range(1) [OF Some]
    have "rename_candidate target m \<noteq> rename_candidate target n" if "m < n" for m
      using that rename_candidate_inject [of target m n] by auto
    with n True Some show ?thesis unfolding eq local_candidates_find by auto
  qed
qed

theorem resolve_local_policy_witness:
  "resolve_local (\<lambda>p. p \<in> {''a.txt'', ''a-1.txt''}) ''a.txt'' Rename = Inr (Some (''a-2.txt'', Resume)) \<and>
   \<not> (\<lambda>p. p \<in> {''a.txt'', ''a-1.txt''}) ''a-2.txt''"
proof -
  have cand: "rename_candidate ''a.txt'' 1 = ''a-1.txt''" "rename_candidate ''a.txt'' 2 = ''a-2.txt''"
    by code_simp+
  have c: "local_candidates (\<lambda>p. p \<in> {''a.txt'', ''a-1.txt''}) ''a.txt'' (1 # 2 # ns) = Inr (Some (''a-2.txt'', Resume))" for ns
    by (simp add: cand cand(1) [simplified])
  have n: "(1::nat) < 1000" "(2::nat) < 1000" "Suc 1 = 2" by simp_all
  have up: "[1..<1000] = 1 # 2 # [Suc 2..<1000]"
    by (simp only: upt_conv_Cons [OF n(1)] n(3) upt_conv_Cons [OF n(2)])
  have "resolve_local (\<lambda>p. p \<in> {''a.txt'', ''a-1.txt''}) ''a.txt'' Rename = Inr (Some (''a-2.txt'', Resume))"
    unfolding resolve_local_def up c by simp
  with resolve_local_policy [where ex = "\<lambda>p. p \<in> {''a.txt'', ''a-1.txt''}" and target = "''a.txt''" and policy = Rename] show ?thesis by simp
qed

end
