(* ===== verification/Sftp_Pipeline.thy ===== *)
theory Sftp_Pipeline
  imports Sftp_Transfer "HOL-Library.Multiset"
begin

text \<open>
  One attempt of a transfer, of \<^verbatim>\<open>src/crates/core-sftp/src/transfer.rs\<close>: the pipelined reads
  of \<open>pipelined_body\<close> (a window of requests, short reads completed later, answers put back
  in order, only the contiguous prefix written), the serial copy of \<open>download_once\<close> and
  \<open>upload_once\<close>, and the resume offset both start from.

  The answers of the SFTP server and the order in which they arrive are events. What is
  relied on is \<open>honest\<close>: a read answers with bytes of the file at the requested offset, at
  most as many as requested, and with none only behind its end. Offsets are natural numbers: the theorems keep them within
  the file size, which is a 64-bit number, so no sum wraps around. A \<open>BTreeMap\<close> is an
  association list sorted by key.
\<close>

section \<open>The pipeline\<close>

definition CHUNK :: nat where "CHUNK = 256 * 1024"
definition READ_AHEAD_DEPTH :: nat where "READ_AHEAD_DEPTH = 16"

datatype status = Working | Finished "(SftpError, unit) result"

record pipeline =
  p_next :: nat
  p_write_at :: nat
  p_in_flight :: "(nat \<times> nat) list"
  p_reorder :: "(nat \<times> u8 list) list"
  p_missing :: "(nat \<times> nat) list"
  p_shrink_eof :: bool
  p_written :: "u8 list"
  p_bytes_done :: nat
  p_status :: status

fun bt_insert :: "nat \<Rightarrow> 'v \<Rightarrow> (nat \<times> 'v) list \<Rightarrow> (nat \<times> 'v) list" where
  "bt_insert k v [] = [(k, v)]"
| "bt_insert k v ((k', v') # m) =
     (if k < k' then (k, v) # (k', v') # m else if k = k' then (k, v) # m else (k', v') # bt_insert k v m)"

text \<open>The next request of the window: an unfinished short read first, then a new block.\<close>

definition next_request :: "nat \<Rightarrow> pipeline \<Rightarrow> ((nat \<times> nat) \<times> pipeline) option" where
  "next_request tot p =
     (case p_missing p of
        m # ms \<Rightarrow> Some (m, p\<lparr>p_missing := ms\<rparr>)
      | [] \<Rightarrow> if p_next p < tot
              then (let len = min (tot - p_next p) CHUNK in Some ((p_next p, len), p\<lparr>p_next := p_next p + len\<rparr>))
              else None)"

function fill :: "nat \<Rightarrow> pipeline \<Rightarrow> pipeline" where
  "fill tot p =
     (if \<not> p_shrink_eof p \<and> length (p_in_flight p) < READ_AHEAD_DEPTH
      then (case next_request tot p of
              None \<Rightarrow> p
            | Some (req, p') \<Rightarrow> fill tot (p'\<lparr>p_in_flight := p_in_flight p' @ [req]\<rparr>))
      else p)"
  by pat_completeness auto
termination
  by (relation "measure (\<lambda>(tot, p). READ_AHEAD_DEPTH - length (p_in_flight p))")
    (auto simp: next_request_def Let_def split: list.splits if_splits)

declare fill.simps [simp del]

text \<open>The write-out of the contiguous prefix.\<close>

fun drain :: "(nat \<times> u8 list) list \<Rightarrow> nat \<Rightarrow> u8 list \<Rightarrow> (nat \<times> u8 list) list \<times> nat \<times> u8 list" where
  "drain [] at out = ([], at, out)"
| "drain ((k, d) # m) at out = (if k = at then drain m (at + length d) (out @ d) else ((k, d) # m, at, out))"

definition drain_prefix :: "pipeline \<Rightarrow> pipeline" where
  "drain_prefix p =
     (let (m, at, out) = drain (p_reorder p) (p_write_at p) (p_written p)
      in p\<lparr>p_reorder := m, p_write_at := at, p_written := out, p_bytes_done := at\<rparr>)"

text \<open>\<open>i\<close> is the request that is answered.\<close>

definition take_request :: "nat \<Rightarrow> pipeline \<Rightarrow> (nat \<times> nat) \<times> pipeline" where
  "take_request i p =
     (p_in_flight p ! i, p\<lparr>p_in_flight := take i (p_in_flight p) @ drop (Suc i) (p_in_flight p)\<rparr>)"

definition answered :: "nat \<Rightarrow> u8 list \<Rightarrow> pipeline \<Rightarrow> pipeline" where
  "answered i data p =
     (let ((at, want), p) = take_request i p
      in if data = [] then p\<lparr>p_shrink_eof := True\<rparr>
         else let got = length data;
                  p = p\<lparr>p_reorder := bt_insert at data (p_reorder p)\<rparr>;
                  p = (if got < want then p\<lparr>p_missing := p_missing p @ [(at + got, want - got)]\<rparr> else p)
              in drain_prefix p)"

text \<open>The top of the loop: refill the window, and stop when nothing is in flight.\<close>

definition loop_head :: "nat \<Rightarrow> pipeline \<Rightarrow> pipeline" where
  "loop_head tot p =
     (let p = fill tot p in if p_in_flight p = [] then p\<lparr>p_status := Finished (Ok ())\<rparr> else p)"

text \<open>
  \<open>WriteError i data n e\<close>: request \<open>i\<close> is answered, and the local write of what it
  completes fails after \<open>n\<close> bytes.
\<close>

datatype read_event = Answer nat "u8 list" | ReadError string | Interrupt | WriteError nat "u8 list" nat string

definition pipe_step :: "string \<Rightarrow> string \<Rightarrow> nat \<Rightarrow> read_event \<Rightarrow> pipeline \<Rightarrow> pipeline option" where
  "pipe_step remote local tot ev p =
     (if p_status p \<noteq> Working then None
      else case ev of
        Interrupt \<Rightarrow> Some (p\<lparr>p_status := Finished (Err (Interrupted (of_nat (p_write_at p)) (of_nat tot)))\<rparr>)
      | ReadError e \<Rightarrow> Some (p\<lparr>p_status := Finished (Err (RemotePath remote (Reported e)))\<rparr>)
      | WriteError i data n e \<Rightarrow>
          if i < length (p_in_flight p)
          then Some (p\<lparr>p_written := take (length (p_written p) + n) (p_written (answered i data p)),
                       p_status := Finished (Err (LocalIo local (Reported e)))\<rparr>)
          else None
      | Answer i data \<Rightarrow>
          if i < length (p_in_flight p) then Some (loop_head tot (answered i data p)) else None)"

fun pipe_run :: "string \<Rightarrow> string \<Rightarrow> nat \<Rightarrow> read_event list \<Rightarrow> pipeline \<Rightarrow> pipeline option" where
  "pipe_run remote local tot [] p = Some p"
| "pipe_run remote local tot (ev # evs) p =
     (case pipe_step remote local tot ev p of None \<Rightarrow> None | Some p' \<Rightarrow> pipe_run remote local tot evs p')"

definition pipelined_body :: "nat \<Rightarrow> nat \<Rightarrow> pipeline" where
  "pipelined_body offset tot =
     loop_head tot \<lparr>p_next = offset, p_write_at = offset, p_in_flight = [], p_reorder = [], p_missing = [],
       p_shrink_eof = False, p_written = [], p_bytes_done = offset, p_status = Working\<rparr>"

section \<open>What the server answers\<close>

definition honest :: "u8 list \<Rightarrow> nat \<times> nat \<Rightarrow> u8 list \<Rightarrow> bool" where
  "honest F req data \<longleftrightarrow>
     length data \<le> snd req \<and> data = take (length data) (drop (fst req) F) \<and>
     (data = [] \<longrightarrow> length F \<le> fst req)"

fun honest_run :: "string \<Rightarrow> string \<Rightarrow> nat \<Rightarrow> u8 list \<Rightarrow> read_event list \<Rightarrow> pipeline \<Rightarrow> bool" where
  "honest_run remote local tot F [] p = True"
| "honest_run remote local tot F (ev # evs) p =
     ((case ev of
         Answer i data \<Rightarrow> i < length (p_in_flight p) \<longrightarrow> honest F (p_in_flight p ! i) data
       | WriteError i data n e \<Rightarrow> i < length (p_in_flight p) \<longrightarrow> honest F (p_in_flight p ! i) data
       | _ \<Rightarrow> True) \<and>
      (case pipe_step remote local tot ev p of None \<Rightarrow> True | Some p' \<Rightarrow> honest_run remote local tot F evs p'))"

section \<open>The written prefix\<close>

text \<open>Data at an offset of the file.\<close>

definition segment :: "u8 list \<Rightarrow> nat \<Rightarrow> u8 list \<Rightarrow> bool" where
  "segment F at d \<longleftrightarrow> d = take (length d) (drop at F)"

definition content :: "u8 list \<Rightarrow> nat \<Rightarrow> pipeline \<Rightarrow> bool" where
  "content F offset p \<longleftrightarrow>
     segment F offset (p_written p) \<and>
     p_write_at p = offset + length (p_written p) \<and> p_bytes_done p = p_write_at p \<and>
     (\<forall>(a, d) \<in> set (p_reorder p). segment F a d)"

lemma segment_append: "segment F at d \<Longrightarrow> segment F (at + length d) e \<Longrightarrow> segment F at (d @ e)"
proof -
  assume d: "segment F at d" and e: "segment F (at + length d) e"
  have "take (length d + length e) (drop at F) = take (length d) (drop at F) @ take (length e) (drop (length d) (drop at F))"
    by (rule take_add)
  also have "\<dots> = d @ e" using d e by (simp add: segment_def add.commute)
  finally show ?thesis by (simp add: segment_def)
qed

lemma segment_Nil [simp]: "segment F at []"
  by (simp add: segment_def)

lemma segment_take: "segment F at d \<Longrightarrow> segment F at (take n d)"
proof -
  assume "segment F at d"
  then have "take n d = take n (take (length d) (drop at F))" by (simp add: segment_def)
  also have "\<dots> = take (length (take n d)) (drop at F)" by (simp add: min.commute)
  finally show ?thesis by (simp only: segment_def)
qed

lemma drain_content:
  assumes "segment F offset out" "at = offset + length out" "\<forall>(a, d) \<in> set m. segment F a d"
    "drain m at out = (m', at', out')"
  shows "segment F offset out' \<and> at' = offset + length out' \<and> set m' \<subseteq> set m"
  using assms
proof (induction m at out rule: drain.induct)
  case (2 k d m at out)
  show ?case
  proof (cases "k = at")
    case True
    have "segment F offset (out @ d)"
      using "2.prems" True by (intro segment_append) auto
    moreover have "drain m (at + length d) (out @ d) = (m', at', out')" using "2.prems"(4) True by simp
    ultimately show ?thesis using "2.IH" [OF True] "2.prems" by auto
  next
    case False
    with "2.prems" show ?thesis by auto
  qed
qed simp

lemma drain_prefix_content: "content F offset p \<Longrightarrow> content F offset (drain_prefix p)"
proof -
  assume c: "content F offset p"
  obtain m at out where d: "drain (p_reorder p) (p_write_at p) (p_written p) = (m, at, out)"
    by (metis prod_cases3)
  have "segment F offset out \<and> at = offset + length out \<and> set m \<subseteq> set (p_reorder p)"
    using c d by (intro drain_content) (auto simp: content_def)
  with c d show ?thesis unfolding content_def drain_prefix_def Let_def by auto
qed

lemma bt_insert_set: "set (bt_insert k v m) \<subseteq> insert (k, v) (set m)"
  by (induction m) (auto split: if_splits)

lemma answered_content:
  assumes "content F offset p" "i < length (p_in_flight p)" "honest F (p_in_flight p ! i) data"
  shows "content F offset (answered i data p)"
proof -
  obtain at want where req: "p_in_flight p ! i = (at, want)" by fastforce
  have "segment F at data" using assms(3) req by (simp add: honest_def segment_def)
  then have "\<forall>(a, d) \<in> set (bt_insert at data (p_reorder p)). segment F a d"
    using assms(1) bt_insert_set [of at data "p_reorder p"] by (auto simp: content_def)
  then have c: "content F offset (p\<lparr>p_in_flight := fs, p_reorder := bt_insert at data (p_reorder p), p_missing := ms\<rparr>)" for fs ms
    using assms(1) by (simp add: content_def)
  have "p\<lparr>p_in_flight := fs, p_reorder := r\<rparr> = p\<lparr>p_in_flight := fs, p_reorder := r, p_missing := p_missing p\<rparr>" for fs r
    by (cases p) simp
  with c have "content F offset (p\<lparr>p_in_flight := fs, p_reorder := bt_insert at data (p_reorder p)\<rparr>)" for fs
    by metis
  with c req have "content F offset (answered i data p)" if "data \<noteq> []"
    using that by (simp add: answered_def take_request_def Let_def drain_prefix_content)
  moreover have "content F offset (answered i data p)" if "data = []"
    using that assms(1) req by (simp add: answered_def take_request_def Let_def content_def)
  ultimately show ?thesis by blast
qed

lemma next_request_fields:
  "next_request tot p = Some (req, p') \<Longrightarrow>
     p_written p' = p_written p \<and> p_write_at p' = p_write_at p \<and> p_bytes_done p' = p_bytes_done p \<and>
     p_reorder p' = p_reorder p \<and> p_status p' = p_status p \<and> p_in_flight p' = p_in_flight p \<and>
     p_shrink_eof p' = p_shrink_eof p"
  by (auto simp: next_request_def Let_def split: list.splits if_splits)

lemma fill_fields:
  "p_written (fill tot p) = p_written p \<and> p_write_at (fill tot p) = p_write_at p \<and>
   p_bytes_done (fill tot p) = p_bytes_done p \<and> p_reorder (fill tot p) = p_reorder p \<and>
   p_status (fill tot p) = p_status p \<and> p_shrink_eof (fill tot p) = p_shrink_eof p"
proof (induction tot p rule: fill.induct)
  case (1 tot p)
  show ?case
  proof (cases "\<not> p_shrink_eof p \<and> length (p_in_flight p) < READ_AHEAD_DEPTH")
    case True
    show ?thesis
    proof (cases "next_request tot p")
      case None
      with True show ?thesis by (subst (1 2 3 4 5 6) fill.simps) simp
    next
      case (Some r)
      obtain req p' where r: "r = (req, p')" by fastforce
      have "fill tot p = fill tot (p'\<lparr>p_in_flight := p_in_flight p' @ [req]\<rparr>)"
        by (subst fill.simps) (simp add: True Some r)
      with 1 [OF True Some r [symmetric]] next_request_fields [OF Some [unfolded r]] show ?thesis by simp
    qed
  next
    case False
    then show ?thesis by (subst (1 2 3 4 5 6) fill.simps) auto
  qed
qed

lemma loop_head_content: "content F offset p \<Longrightarrow> content F offset (loop_head tot p)"
  by (auto simp: loop_head_def Let_def content_def fill_fields)

lemma drain_grows: "drain m at out = (m', at', out') \<Longrightarrow> length out \<le> length out'"
  by (induction m at out rule: drain.induct) (auto split: if_splits)

lemma answered_grows: "length (p_written p) \<le> length (p_written (answered i data p))"
proof -
  have "length (p_written q) \<le> length (p_written (drain_prefix q))" for q
  proof -
    obtain m at out where "drain (p_reorder q) (p_write_at q) (p_written q) = (m, at, out)" by (metis prod_cases3)
    with drain_grows [OF this] show ?thesis by (simp add: drain_prefix_def)
  qed
  from this [of "(p\<lparr>p_in_flight := _, p_reorder := _\<rparr>)"] this [of "p\<lparr>p_in_flight := _, p_reorder := _, p_missing := _\<rparr>"]
  show ?thesis by (simp add: answered_def take_request_def Let_def split_beta)
qed

text \<open>
  What holds of the local file at every moment; only a failed local write can leave it
  ahead of the reported progress.
\<close>

definition safe_prefix :: "u8 list \<Rightarrow> nat \<Rightarrow> pipeline \<Rightarrow> bool" where
  "safe_prefix F offset p \<longleftrightarrow>
     segment F offset (p_written p) \<and> p_bytes_done p \<le> offset + length (p_written p) \<and>
     ((\<forall>path why. p_status p \<noteq> Finished (Err (LocalIo path why))) \<longrightarrow> content F offset p)"

lemma content_status: "content F offset p \<Longrightarrow> content F offset (p\<lparr>p_status := st\<rparr>)"
  by (simp add: content_def)

lemma pipe_step_safe:
  assumes "content F offset p" "pipe_step remote local tot ev p = Some p'" "honest_run remote local tot F [ev] p"
  shows "safe_prefix F offset p'"
proof -
  have safe: "safe_prefix F offset q" if "content F offset q" for q
    using that by (simp add: safe_prefix_def content_def)
  show ?thesis
  proof (cases ev)
    case (Answer i data)
    with assms have "p' = loop_head tot (answered i data p)" "content F offset (answered i data p)"
      by (auto simp: pipe_step_def intro: answered_content split: if_splits)
    then show ?thesis by (auto intro: safe loop_head_content)
  next
    case (WriteError i data n e)
    let ?w = "take (length (p_written p) + n) (p_written (answered i data p))"
    from WriteError assms have p': "p' = p\<lparr>p_written := ?w, p_status := Finished (Err (LocalIo local (Reported e)))\<rparr>"
      and "content F offset (answered i data p)"
      by (auto simp: pipe_step_def intro: answered_content split: if_splits)
    then have "segment F offset ?w" by (intro segment_take) (simp add: content_def)
    moreover have "p_bytes_done p \<le> offset + length ?w"
      using assms(1) answered_grows [of p i data] by (simp add: content_def)
    ultimately show ?thesis by (simp add: p' safe_prefix_def)
  qed (use assms in \<open>auto simp: pipe_step_def intro!: safe content_status split: if_splits\<close>)
qed

lemma pipe_run_safe:
  assumes "content F offset p" "pipe_run remote local tot evs p = Some p'" "honest_run remote local tot F evs p"
  shows "safe_prefix F offset p'"
  using assms
proof (induction evs arbitrary: p)
  case Nil
  then show ?case by (simp add: safe_prefix_def content_def)
next
  case (Cons ev evs)
  then obtain p1 where p1: "pipe_step remote local tot ev p = Some p1" "pipe_run remote local tot evs p1 = Some p'"
    "honest_run remote local tot F evs p1" "honest_run remote local tot F [ev] p"
    by (auto split: option.splits)
  have safe: "safe_prefix F offset p1" using pipe_step_safe [OF Cons.prems(1) p1(1,4)] .
  show ?case
  proof (cases "p_status p1 = Working")
    case True
    with safe have "content F offset p1" by (simp add: safe_prefix_def)
    with p1 show ?thesis by (intro Cons.IH)
  next
    case False
    then have "evs = []" using p1(2) by (cases evs) (auto simp: pipe_step_def split: option.splits)
    with p1(2) safe show ?thesis by simp
  qed
qed

section \<open>Nothing is forgotten\<close>

text \<open>
  As long as no read came back empty, the requests in flight, the rests of short reads and
  the answers waiting for their turn tile the range between the written prefix and the
  next new request.
\<close>

fun chain :: "nat \<Rightarrow> nat \<Rightarrow> (nat \<times> nat) list \<Rightarrow> bool" where
  "chain lo hi [] \<longleftrightarrow> lo = hi"
| "chain lo hi ((a, l) # c) \<longleftrightarrow> a = lo \<and> 0 < l \<and> chain (lo + l) hi c"

definition tiles :: "nat \<Rightarrow> nat \<Rightarrow> (nat \<times> nat) multiset \<Rightarrow> bool" where
  "tiles lo hi M \<longleftrightarrow> (\<exists>c. mset c = M \<and> chain lo hi c)"

lemma chain_append: "chain lo hi (c @ c') \<longleftrightarrow> (\<exists>mid. chain lo mid c \<and> chain mid hi c')"
  by (induction c arbitrary: lo) auto

lemma chain_le: "chain lo hi c \<Longrightarrow> lo \<le> hi"
  by (induction c arbitrary: lo) fastforce+

lemma chain_bounds: "chain lo hi c \<Longrightarrow> (a, l) \<in> set c \<Longrightarrow> lo \<le> a \<and> 0 < l \<and> a + l \<le> hi"
  by (induction c arbitrary: lo) (fastforce dest: chain_le)+

lemma tiles_new: "tiles lo hi M \<Longrightarrow> 0 < l \<Longrightarrow> tiles lo (hi + l) (add_mset (hi, l) M)"
proof -
  assume "tiles lo hi M" "0 < l"
  then obtain c where "mset c = M" "chain lo (hi + l) (c @ [(hi, l)])"
    by (auto simp: tiles_def chain_append)
  then show ?thesis by (auto simp: tiles_def intro!: exI [of _ "c @ [(hi, l)]"])
qed

lemma tiles_split:
  assumes "tiles lo hi (add_mset (a, l) M)" "0 < k" "k < l"
  shows "tiles lo hi (add_mset (a, k) (add_mset (a + k, l - k) M))"
proof -
  obtain c where c: "mset c = add_mset (a, l) M" "chain lo hi c" using assms(1) by (auto simp: tiles_def)
  then have "(a, l) \<in> set c" by (metis union_single_eq_member set_mset_mset)
  then obtain x y where xy: "c = x @ (a, l) # y" by (auto simp: in_set_conv_decomp)
  with c(1) have "mset (x @ y) = M" by simp
  moreover have "chain lo hi (x @ (a, k) # (a + k, l - k) # y)"
    using c(2) assms(2,3) xy by (auto simp: chain_append)
  ultimately show ?thesis by (auto simp: tiles_def intro!: exI [of _ "x @ (a, k) # (a + k, l - k) # y"])
qed

lemma tiles_first:
  assumes "tiles lo hi (add_mset (lo, l) M)"
  shows "tiles (lo + l) hi M"
proof -
  obtain c where c: "mset c = add_mset (lo, l) M" "chain lo hi c" using assms by (auto simp: tiles_def)
  then obtain a k c' where cons: "c = (a, k) # c'" by (cases c) auto
  have "(lo, l) \<in> set c" using c(1) by (metis union_single_eq_member set_mset_mset)
  then have "(lo, l) = (a, k)" using c(2) chain_bounds [of "lo + k" hi c' lo l] cons by auto
  with c cons show ?thesis by (auto simp: tiles_def)
qed

lemma chain_starts: "chain lo hi c \<Longrightarrow> distinct (map fst c)"
proof (induction c arbitrary: lo)
  case (Cons e c)
  obtain a l where e: "e = (a, l)" by fastforce
  with Cons have c: "chain (lo + l) hi c" "a = lo" "0 < l" by auto
  have "a \<notin> fst ` set c"
  proof
    assume "a \<in> fst ` set c"
    then obtain k where "(a, k) \<in> set c" by auto
    from chain_bounds [OF c(1) this] c show False by simp
  qed
  with Cons.IH [OF c(1)] e show ?case by simp
qed simp

lemma tiles_distinct: "tiles lo hi (add_mset (a, l) M) \<Longrightarrow> (a, k) \<notin># M"
proof
  assume "tiles lo hi (add_mset (a, l) M)" "(a, k) \<in># M"
  then obtain c where c: "mset c = add_mset (a, l) M" "chain lo hi c" by (auto simp: tiles_def)
  have "image_mset fst (mset c) = add_mset a (image_mset fst M)" using c(1) by simp
  then have m: "mset (map fst c) = add_mset a (image_mset fst M)" by (simp only: mset_map)
  have "a \<in># image_mset fst M" using \<open>(a, k) \<in># M\<close> by force
  then have "2 \<le> count (mset (map fst c)) a" unfolding m
    by (metis One_nat_def Suc_1 Suc_le_mono add_mset_add_single count_add_mset count_greater_eq_one_iff)
  moreover have "count (mset (map fst c)) a \<le> 1"
    using chain_starts [OF c(2)] by (metis distinct_count_atmost_1 le_numeral_extra(4) zero_le_one)
  ultimately show False by simp
qed

definition segs :: "(nat \<times> u8 list) list \<Rightarrow> (nat \<times> nat) multiset" where
  "segs m = mset (map (\<lambda>(a, d). (a, length d)) m)"

lemma segs_simps [simp]: "segs [] = {#}" "segs ((a, d) # m) = add_mset (a, length d) (segs m)"
  by (simp_all add: segs_def)

lemma bt_insert_segs: "k \<notin> fst ` set m \<Longrightarrow> segs (bt_insert k d m) = add_mset (k, length d) (segs m)"
  by (induction m) auto

lemma bt_insert_sorted:
  "sorted_wrt (<) (map fst m) \<Longrightarrow> sorted_wrt (<) (map fst (bt_insert k d m))"
proof (induction m)
  case (Cons e m)
  obtain a v where e: "e = (a, v)" by fastforce
  have "\<forall>x \<in> set (bt_insert k d m). a < fst x" if "a < k"
    using Cons.prems e that bt_insert_set [of k d m] by fastforce
  with Cons e show ?case by (auto simp: image_iff)
qed simp

definition tile_inv :: "nat \<Rightarrow> pipeline \<Rightarrow> bool" where
  "tile_inv tot p \<longleftrightarrow> p_shrink_eof p \<or>
     tiles (p_write_at p) (p_next p) (mset (p_in_flight p) + mset (p_missing p) + segs (p_reorder p)) \<and>
     p_next p \<le> tot \<and> sorted_wrt (<) (map fst (p_reorder p)) \<and>
     (p_reorder p = [] \<or> fst (hd (p_reorder p)) \<noteq> p_write_at p)"

lemma tile_inv_request:
  assumes "tile_inv tot p" "next_request tot p = Some (req, p')"
  shows "tile_inv tot (p'\<lparr>p_in_flight := p_in_flight p' @ [req]\<rparr>)"
proof (cases "p_missing p")
  case (Cons m ms)
  with assms show ?thesis by (auto simp: tile_inv_def next_request_def)
next
  case Nil
  with assms(2) have req: "req = (p_next p, min (tot - p_next p) CHUNK)" "p_next p < tot"
    and p': "p' = p\<lparr>p_next := p_next p + min (tot - p_next p) CHUNK\<rparr>"
    by (auto simp: next_request_def Let_def split: if_splits)
  have "0 < min (tot - p_next p) CHUNK" using req(2) by (simp add: CHUNK_def)
  from tiles_new [OF _ this] show ?thesis using assms(1) req Nil by (auto simp: tile_inv_def p')
qed

lemma fill_tiles:
  "tile_inv tot p \<Longrightarrow> tile_inv tot (fill tot p) \<and>
     (\<not> p_shrink_eof p \<longrightarrow> p_in_flight (fill tot p) = [] \<longrightarrow> p_missing (fill tot p) = [] \<and> tot \<le> p_next (fill tot p))"
proof (induction tot p rule: fill.induct)
  case (1 tot p)
  show ?case
  proof (cases "\<not> p_shrink_eof p \<and> length (p_in_flight p) < READ_AHEAD_DEPTH")
    case True
    show ?thesis
    proof (cases "next_request tot p")
      case None
      with True have "fill tot p = p" by (subst fill.simps) simp
      with None 1 show ?thesis by (auto simp: next_request_def Let_def split: list.splits if_splits)
    next
      case (Some r)
      obtain req p' where r: "r = (req, p')" by fastforce
      have eq: "fill tot p = fill tot (p'\<lparr>p_in_flight := p_in_flight p' @ [req]\<rparr>)"
        by (subst fill.simps) (simp add: True Some r)
      from tile_inv_request [OF 1(2) Some [unfolded r]]
      show ?thesis unfolding eq
        using 1(1) [OF True Some r [symmetric]] next_request_fields [OF Some [unfolded r]] by simp
    qed
  next
    case False
    then have "fill tot p = p" by (subst fill.simps) auto
    with False 1 show ?thesis by (auto simp: READ_AHEAD_DEPTH_def)
  qed
qed

lemma drain_tiles:
  assumes "tiles at hi (M + segs m)" "sorted_wrt (<) (map fst m)" "drain m at out = (m', at', out')"
  shows "tiles at' hi (M + segs m') \<and> sorted_wrt (<) (map fst m') \<and> (m' = [] \<or> fst (hd m') \<noteq> at')"
  using assms
proof (induction m at out rule: drain.induct)
  case (2 k d m at out)
  show ?case
  proof (cases "k = at")
    case True
    have "tiles (at + length d) hi (M + segs m)"
      using "2.prems"(1) True by (intro tiles_first) simp
    with 2 True show ?thesis by simp
  next
    case False
    with 2 show ?thesis by auto
  qed
qed simp

lemma drain_prefix_tiles:
  assumes "tiles (p_write_at p) (p_next p) (mset (p_in_flight p) + mset (p_missing p) + segs (p_reorder p))"
    "sorted_wrt (<) (map fst (p_reorder p))" "p_next p \<le> tot"
  shows "tile_inv tot (drain_prefix p)"
proof -
  obtain m at out where d: "drain (p_reorder p) (p_write_at p) (p_written p) = (m, at, out)" by (metis prod_cases3)
  from drain_tiles [OF assms(1,2) d] assms(3) d show ?thesis by (simp add: tile_inv_def drain_prefix_def)
qed

lemma answered_tiles:
  assumes "tile_inv tot p" "i < length (p_in_flight p)" "length data \<le> snd (p_in_flight p ! i)"
  shows "tile_inv tot (answered i data p)"
proof (cases "p_shrink_eof p \<or> data = []")
  case True
  then show ?thesis
    by (auto simp: tile_inv_def answered_def take_request_def drain_prefix_def Let_def split_beta)
next
  case False
  obtain at want where req: "p_in_flight p ! i = (at, want)" by fastforce
  let ?fs = "take i (p_in_flight p) @ drop (Suc i) (p_in_flight p)"
  have fs: "mset (p_in_flight p) = add_mset (at, want) (mset ?fs)"
    using assms(2) req by (metis add_mset_add_single id_take_nth_drop mset.simps(2) mset_append union_mset_add_mset_right)
  let ?M = "mset ?fs + mset (p_missing p) + segs (p_reorder p)"
  have inv: "tiles (p_write_at p) (p_next p) (add_mset (at, want) ?M)" "p_next p \<le> tot" "sorted_wrt (<) (map fst (p_reorder p))"
    using assms(1) False by (auto simp: tile_inv_def fs)
  have "at \<notin> fst ` set (p_reorder p)"
  proof
    assume "at \<in> fst ` set (p_reorder p)"
    then obtain d where "(at, d) \<in> set (p_reorder p)" by auto
    then have "(at, length d) \<in># ?M" by (force simp: segs_def)
    with tiles_distinct [OF inv(1)] show False by blast
  qed
  then have ins: "segs (bt_insert at data (p_reorder p)) = add_mset (at, length data) (segs (p_reorder p))"
    by (rule bt_insert_segs)
  have sorted: "sorted_wrt (<) (map fst (bt_insert at data (p_reorder p)))" using inv(3) by (rule bt_insert_sorted)
  show ?thesis
  proof (cases "length data < want")
    case True
    have "tiles (p_write_at p) (p_next p) (add_mset (at, length data) (add_mset (at + length data, want - length data) ?M))"
      using inv(1) False True by (intro tiles_split) auto
    with True False inv(2) sorted req ins show ?thesis
      unfolding answered_def take_request_def Let_def by (auto intro!: drain_prefix_tiles)
  next
    case long: False
    with assms(3) req have "length data = want" by simp
    with long False inv sorted req ins show ?thesis
      unfolding answered_def take_request_def Let_def by (auto intro!: drain_prefix_tiles)
  qed
qed

lemma tiles_complete:
  assumes "tile_inv tot p" "\<not> p_shrink_eof p" "p_in_flight p = []" "p_missing p = []" "tot \<le> p_next p"
  shows "p_write_at p = tot"
proof -
  have inv: "tiles (p_write_at p) (p_next p) (segs (p_reorder p))" "p_next p \<le> tot"
    "sorted_wrt (<) (map fst (p_reorder p))" "p_reorder p = [] \<or> fst (hd (p_reorder p)) \<noteq> p_write_at p"
    using assms(1-4) by (auto simp: tile_inv_def)
  obtain c where c: "mset c = segs (p_reorder p)" "chain (p_write_at p) (p_next p) c"
    using inv(1) by (auto simp: tiles_def)
  have "c = []"
  proof (rule ccontr)
    assume "c \<noteq> []"
    then obtain a l c' where cons: "c = (a, l) # c'" by (cases c) auto
    with c(2) have a: "a = p_write_at p" by simp
    have set: "set c = (\<lambda>(a, d). (a, length d)) ` set (p_reorder p)"
      using c(1) by (metis segs_def set_map set_mset_mset)
    with cons obtain d where "(a, d) \<in> set (p_reorder p)" by force
    then obtain k v m where r: "p_reorder p = (k, v) # m" "k \<le> a"
      using inv(3) by (cases "p_reorder p") (auto dest: less_imp_le)
    then have "(k, length v) \<in> set c" using set by force
    from chain_bounds [OF c(2) this] r a inv(4) show False by simp
  qed
  with c(2) inv(2) assms(5) show ?thesis by simp
qed

definition done_ok :: "nat \<Rightarrow> pipeline \<Rightarrow> bool" where
  "done_ok tot p \<longleftrightarrow> tile_inv tot p \<and> (p_status p = Finished (Ok ()) \<longrightarrow> \<not> p_shrink_eof p \<longrightarrow> p_write_at p = tot)"

lemma loop_head_done:
  assumes "tile_inv tot p" "p_status p = Working"
  shows "done_ok tot (loop_head tot p)"
proof -
  note f = fill_tiles [OF assms(1)]
  have "p_write_at (fill tot p) = tot" if "\<not> p_shrink_eof p" "p_in_flight (fill tot p) = []"
    using f that fill_fields [of tot p] by (intro tiles_complete) auto
  with f assms(2) fill_fields [of tot p] show ?thesis
    by (auto simp: done_ok_def loop_head_def Let_def tile_inv_def)
qed

lemma answered_status [simp]: "p_status (answered i data p) = p_status p"
  by (simp add: answered_def take_request_def drain_prefix_def Let_def split_beta)

lemma pipe_step_done:
  assumes "done_ok tot p" "pipe_step remote local tot ev p = Some p'" "honest_run remote local tot F [ev] p"
  shows "done_ok tot p' \<or> (\<exists>path why. p_status p' = Finished (Err (LocalIo path why)))"
proof (cases ev)
  case (Answer i data)
  with assms have "tile_inv tot (answered i data p)"
    by (intro answered_tiles) (auto simp: done_ok_def pipe_step_def honest_def split: if_splits)
  with Answer assms loop_head_done [of tot "answered i data p"] show ?thesis
    by (auto simp: pipe_step_def split: if_splits)
qed (use assms in \<open>auto simp: pipe_step_def done_ok_def tile_inv_def split: if_splits\<close>)

lemma pipe_run_done:
  assumes "done_ok tot p" "pipe_run remote local tot evs p = Some p'" "honest_run remote local tot F evs p"
  shows "done_ok tot p' \<or> (\<exists>path why. p_status p' = Finished (Err (LocalIo path why)))"
  using assms
proof (induction evs arbitrary: p)
  case (Cons ev evs)
  then obtain p1 where p1: "pipe_step remote local tot ev p = Some p1" "pipe_run remote local tot evs p1 = Some p'"
    "honest_run remote local tot F evs p1" "honest_run remote local tot F [ev] p"
    by (auto split: option.splits)
  from pipe_step_done [OF Cons.prems(1) p1(1,4)] show ?case
  proof
    assume "done_ok tot p1"
    with p1 show ?thesis by (intro Cons.IH)
  next
    assume err: "\<exists>path why. p_status p1 = Finished (Err (LocalIo path why))"
    then have "evs = []" using p1(2) by (cases evs) (auto simp: pipe_step_def split: option.splits)
    with p1(2) err show ?thesis by simp
  qed
qed simp

section \<open>The work that is left\<close>

definition work :: "nat \<Rightarrow> pipeline \<Rightarrow> nat" where
  "work tot p = (tot - p_next p) + sum_list (map snd (p_in_flight p)) + sum_list (map snd (p_missing p))"

definition positive :: "pipeline \<Rightarrow> bool" where
  "positive p \<longleftrightarrow> (\<forall>(a, l) \<in> set (p_in_flight p) \<union> set (p_missing p). 0 < l)"

lemma request_work:
  assumes "next_request tot p = Some (req, p')" "positive p"
  shows "work tot (p'\<lparr>p_in_flight := p_in_flight p' @ [req]\<rparr>) = work tot p"
    "positive (p'\<lparr>p_in_flight := p_in_flight p' @ [req]\<rparr>)"
  using assms
  by (auto simp: next_request_def Let_def work_def positive_def CHUNK_def split: list.splits if_splits)

lemma fill_work:
  "positive p \<Longrightarrow> work tot (fill tot p) = work tot p \<and> positive (fill tot p) \<and>
     (length (p_in_flight p) \<le> READ_AHEAD_DEPTH \<longrightarrow> length (p_in_flight (fill tot p)) \<le> READ_AHEAD_DEPTH)"
proof (induction tot p rule: fill.induct)
  case (1 tot p)
  show ?case
  proof (cases "\<not> p_shrink_eof p \<and> length (p_in_flight p) < READ_AHEAD_DEPTH \<and> next_request tot p \<noteq> None")
    case True
    then obtain req p' where r: "next_request tot p = Some (req, p')" by auto
    have eq: "fill tot p = fill tot (p'\<lparr>p_in_flight := p_in_flight p' @ [req]\<rparr>)"
      using True by (subst fill.simps) (simp add: r)
    from request_work [OF r 1(2)] 1(1) [OF _ r refl] True next_request_fields [OF r] show ?thesis
      unfolding eq by auto
  next
    case False
    then have "fill tot p = p" by (subst fill.simps) (auto split: option.splits)
    with 1 show ?thesis by simp
  qed
qed

lemma drain_prefix_fields [simp]:
  "p_in_flight (drain_prefix p) = p_in_flight p" "p_missing (drain_prefix p) = p_missing p"
  "p_next (drain_prefix p) = p_next p"
  by (simp_all add: drain_prefix_def split_beta Let_def)

lemma answered_work:
  assumes "positive p" "i < length (p_in_flight p)" "length data \<le> snd (p_in_flight p ! i)"
  shows "work tot (answered i data p) < work tot p" "positive (answered i data p)"
    "length (p_in_flight (answered i data p)) = length (p_in_flight p) - 1"
proof -
  obtain at want where req: "p_in_flight p ! i = (at, want)" by fastforce
  have split: "p_in_flight p = take i (p_in_flight p) @ (at, want) # drop (Suc i) (p_in_flight p)"
    using assms(2) req by (metis id_take_nth_drop)
  then have "sum_list (map snd (p_in_flight p)) =
      sum_list (map snd (take i (p_in_flight p))) + want + sum_list (map snd (drop (Suc i) (p_in_flight p)))"
    by (metis (no_types, lifting) add.assoc list.simps(9) map_append snd_conv sum_list.Cons sum_list_append)
  moreover have "0 < want" using assms(1,2) req nth_mem by (fastforce simp: positive_def)
  ultimately show "work tot (answered i data p) < work tot p"
    using assms(3) req
    by (auto simp: answered_def take_request_def Let_def work_def neq_Nil_conv)
  have "set (take i (p_in_flight p) @ drop (Suc i) (p_in_flight p)) \<subseteq> set (p_in_flight p)"
    using set_take_subset set_drop_subset by fastforce
  with assms(1) req show "positive (answered i data p)"
    by (auto simp: answered_def take_request_def Let_def positive_def)
  show "length (p_in_flight (answered i data p)) = length (p_in_flight p) - 1"
    using assms(2) by (auto simp: answered_def take_request_def Let_def split_beta)
qed

definition busy :: "pipeline \<Rightarrow> bool" where
  "busy p \<longleftrightarrow> positive p \<and> length (p_in_flight p) \<le> READ_AHEAD_DEPTH \<and> (p_status p = Working \<longrightarrow> p_in_flight p \<noteq> [])"

lemma loop_head_busy:
  assumes "positive p" "length (p_in_flight p) \<le> READ_AHEAD_DEPTH"
  shows "busy (loop_head tot p)" "work tot (loop_head tot p) = work tot p"
  using fill_work [OF assms(1), of tot] assms(2)
  by (auto simp: busy_def loop_head_def Let_def positive_def work_def)

lemma pipe_step_work:
  assumes "busy p" "pipe_step remote local tot ev p = Some p'" "honest_run remote local tot F [ev] p"
  shows "busy p' \<and> (p_status p' = Working \<longrightarrow> work tot p' < work tot p) \<and> p_status p = Working \<and> 0 < work tot p"
proof -
  have working: "p_status p = Working" using assms(2) by (auto simp: pipe_step_def split: if_splits)
  with assms(1) obtain e es where "p_in_flight p = e # es" by (cases "p_in_flight p") (auto simp: busy_def)
  with assms(1) have pos: "0 < work tot p" by (cases e) (auto simp: busy_def positive_def work_def)
  show ?thesis
  proof (cases ev)
    case (Answer i data)
    with assms have i: "i < length (p_in_flight p)" "length data \<le> snd (p_in_flight p ! i)"
      and p': "p' = loop_head tot (answered i data p)"
      by (auto simp: pipe_step_def honest_def split: if_splits)
    have b: "positive p" "length (p_in_flight p) \<le> READ_AHEAD_DEPTH" using assms(1) by (simp_all add: busy_def)
    from b(2) answered_work(1) [OF b(1) i, of tot] answered_work(2,3) [OF b(1) i] show ?thesis
      using loop_head_busy(1) [of "answered i data p" tot] loop_head_busy(2) [of "answered i data p" tot] working pos
      by (simp add: p')
  qed (use assms working pos in \<open>auto simp: pipe_step_def busy_def positive_def split: if_splits\<close>)
qed

lemma pipe_run_work:
  assumes "busy p" "pipe_run remote local tot evs p = Some p'" "honest_run remote local tot F evs p"
  shows "busy p' \<and> length evs \<le> work tot p"
  using assms
proof (induction evs arbitrary: p)
  case (Cons ev evs)
  then obtain p1 where p1: "pipe_step remote local tot ev p = Some p1" "pipe_run remote local tot evs p1 = Some p'"
    "honest_run remote local tot F evs p1" "honest_run remote local tot F [ev] p"
    by (auto split: option.splits)
  note w = pipe_step_work [OF Cons.prems(1) p1(1,4)]
  show ?case
  proof (cases "p_status p1 = Working")
    case True
    with w p1 Cons.IH [of p1] show ?thesis by auto
  next
    case False
    then have "evs = []" using p1(2) by (cases evs) (auto simp: pipe_step_def split: option.splits)
    with p1(2) w show ?thesis by auto
  qed
qed simp

lemma start_inv:
  assumes "offset \<le> tot"
  shows "content F offset (pipelined_body offset tot)" "done_ok tot (pipelined_body offset tot)"
    "busy (pipelined_body offset tot)" "work tot (pipelined_body offset tot) = tot - offset"
proof -
  let ?p = "\<lparr>p_next = offset, p_write_at = offset, p_in_flight = [], p_reorder = [], p_missing = [],
       p_shrink_eof = False, p_written = [], p_bytes_done = offset, p_status = Working\<rparr>"
  have "tiles offset offset {#}" by (simp add: tiles_def)
  then have "tile_inv tot ?p" using assms by (simp add: tile_inv_def)
  then show "done_ok tot (pipelined_body offset tot)" unfolding pipelined_body_def by (rule loop_head_done) simp
  show "content F offset (pipelined_body offset tot)"
    unfolding pipelined_body_def by (rule loop_head_content) (simp add: content_def)
  show "busy (pipelined_body offset tot)" "work tot (pipelined_body offset tot) = tot - offset"
    unfolding pipelined_body_def using loop_head_busy [of ?p tot] by (simp_all add: positive_def work_def)
qed

section \<open>The serial copy\<close>

text \<open>
  The loop of \<open>upload_once\<close> and of \<open>download_once\<close> without a raw session: \<open>offset\<close> is where
  the source was positioned, \<open>rerr\<close> and \<open>werr\<close> wrap an error of the source and of the target.
\<close>

datatype copy_event = Chunk "u8 list" | CopyReadError string | CopyWriteError "u8 list" nat string | CopyInterrupt

record copy =
  c_written :: "u8 list"
  c_bytes_done :: nat
  c_status :: status

definition copy_start :: "nat \<Rightarrow> copy" where
  "copy_start offset = \<lparr>c_written = [], c_bytes_done = offset, c_status = Working\<rparr>"

definition copy_step ::
  "(string \<Rightarrow> SftpError) \<Rightarrow> (string \<Rightarrow> SftpError) \<Rightarrow> nat \<Rightarrow> copy_event \<Rightarrow> copy \<Rightarrow> copy option" where
  "copy_step rerr werr tot ev c =
     (if c_status c \<noteq> Working then None
      else Some (case ev of
        CopyInterrupt \<Rightarrow> c\<lparr>c_status := Finished (Err (Interrupted (of_nat (c_bytes_done c)) (of_nat tot)))\<rparr>
      | CopyReadError e \<Rightarrow> c\<lparr>c_status := Finished (Err (rerr e))\<rparr>
      | CopyWriteError d n e \<Rightarrow> c\<lparr>c_written := c_written c @ take n d, c_status := Finished (Err (werr e))\<rparr>
      | Chunk d \<Rightarrow> if d = [] then c\<lparr>c_status := Finished (Ok ())\<rparr>
                   else c\<lparr>c_written := c_written c @ d, c_bytes_done := c_bytes_done c + length d\<rparr>))"

fun copy_run ::
  "(string \<Rightarrow> SftpError) \<Rightarrow> (string \<Rightarrow> SftpError) \<Rightarrow> nat \<Rightarrow> copy_event list \<Rightarrow> copy \<Rightarrow> copy option" where
  "copy_run rerr werr tot [] c = Some c"
| "copy_run rerr werr tot (ev # evs) c =
     (case copy_step rerr werr tot ev c of None \<Rightarrow> None | Some c' \<Rightarrow> copy_run rerr werr tot evs c')"

text \<open>The source answers with its next bytes, and with none only at its end.\<close>

definition honest_chunk :: "u8 list \<Rightarrow> nat \<Rightarrow> u8 list \<Rightarrow> bool" where
  "honest_chunk F at d \<longleftrightarrow> segment F at d \<and> (d = [] \<longrightarrow> length F \<le> at)"

fun honest_copy :: "u8 list \<Rightarrow> nat \<Rightarrow> copy_event list \<Rightarrow> bool" where
  "honest_copy F at [] = True"
| "honest_copy F at (Chunk d # evs) = (honest_chunk F at d \<and> honest_copy F (at + length d) evs)"
| "honest_copy F at (CopyWriteError d n e # evs) = honest_chunk F at d"
| "honest_copy F at (ev # evs) = True"

lemma copy_run_stop: "c_status c \<noteq> Working \<Longrightarrow> copy_run rerr werr tot evs c = Some c' \<Longrightarrow> c' = c"
  by (cases evs) (auto simp: copy_step_def)

lemma copy_run_safe:
  assumes "copy_run rerr werr tot evs c = Some c'" "honest_copy F (offset + length (c_written c)) evs"
    "segment F offset (c_written c)" "c_bytes_done c = offset + length (c_written c)" "c_status c = Working"
  shows "segment F offset (c_written c') \<and> c_bytes_done c' \<le> offset + length (c_written c') \<and>
    (c_status c' = Finished (Ok ()) \<longrightarrow> length F \<le> offset + length (c_written c'))"
  using assms
proof (induction evs arbitrary: c)
  case Nil
  then show ?case by simp
next
  case (Cons ev evs)
  then obtain c1 where c1: "copy_step rerr werr tot ev c = Some c1" "copy_run rerr werr tot evs c1 = Some c'"
    by (auto split: option.splits)
  show ?case
  proof (cases ev)
    case (Chunk d)
    show ?thesis
    proof (cases "d = []")
      case True
      with Chunk c1 Cons.prems have "c1 = c\<lparr>c_status := Finished (Ok ())\<rparr>" by (simp add: copy_step_def)
      with copy_run_stop [OF _ c1(2)] Chunk True Cons.prems show ?thesis by (simp add: honest_chunk_def)
    next
      case False
      with Chunk c1 Cons.prems have "c1 = c\<lparr>c_written := c_written c @ d, c_bytes_done := c_bytes_done c + length d\<rparr>"
        by (simp add: copy_step_def)
      with Chunk Cons.prems show ?thesis
        by (intro Cons.IH [OF c1(2)]) (auto simp: honest_chunk_def add.assoc intro: segment_append)
    qed
  next
    case (CopyWriteError d n e)
    with c1 Cons.prems have "c1 = c\<lparr>c_written := c_written c @ take n d, c_status := Finished (Err (werr e))\<rparr>"
      by (simp add: copy_step_def)
    with copy_run_stop [OF _ c1(2)] CopyWriteError Cons.prems show ?thesis
      by (auto simp: honest_chunk_def intro: segment_append segment_take)
  next
    case (CopyReadError e)
    with c1 Cons.prems have "c1 = c\<lparr>c_status := Finished (Err (rerr e))\<rparr>" by (simp add: copy_step_def)
    with copy_run_stop [OF _ c1(2)] Cons.prems show ?thesis by simp
  next
    case CopyInterrupt
    with c1 Cons.prems have "c1 = c\<lparr>c_status := Finished (Err (Interrupted (of_nat (c_bytes_done c)) (of_nat tot)))\<rparr>"
      by (simp add: copy_step_def)
    with copy_run_stop [OF _ c1(2)] Cons.prems show ?thesis by simp
  qed
qed

section \<open>A file that keeps its length\<close>

lemma request_in_range:
  assumes "tile_inv tot p" "\<not> p_shrink_eof p" "i < length (p_in_flight p)"
  shows "fst (p_in_flight p ! i) < tot"
proof -
  obtain c where c: "mset c = mset (p_in_flight p) + mset (p_missing p) + segs (p_reorder p)"
    "chain (p_write_at p) (p_next p) c" "p_next p \<le> tot"
    using assms(1,2) by (auto simp: tile_inv_def tiles_def)
  have "p_in_flight p ! i \<in># mset c" unfolding c(1) using assms(3) by simp
  then have "(fst (p_in_flight p ! i), snd (p_in_flight p ! i)) \<in> set c" by simp
  from chain_bounds [OF c(2) this] c(3) show ?thesis by simp
qed

lemma drain_prefix_shrink [simp]: "p_shrink_eof (drain_prefix p) = p_shrink_eof p"
  by (simp add: drain_prefix_def split_beta Let_def)

lemma pipe_step_no_eof:
  assumes "done_ok tot p" "\<not> p_shrink_eof p" "tot \<le> length F" "pipe_step remote local tot ev p = Some p'"
    "honest_run remote local tot F [ev] p"
  shows "\<not> p_shrink_eof p'"
proof (cases ev)
  case (Answer i data)
  with assms have i: "i < length (p_in_flight p)" "honest F (p_in_flight p ! i) data" "p' = loop_head tot (answered i data p)"
    by (auto simp: pipe_step_def split: if_splits)
  have "data \<noteq> []" using request_in_range [of tot p i] assms(1-3) i by (auto simp: honest_def done_ok_def)
  then have "p_shrink_eof (answered i data p) = p_shrink_eof p"
    by (simp add: answered_def take_request_def Let_def split_beta)
  with assms(2) i(3) fill_fields [of tot "answered i data p"] show ?thesis by (simp add: loop_head_def Let_def)
qed (use assms in \<open>auto simp: pipe_step_def split: if_splits\<close>)

lemma pipe_run_complete:
  assumes "done_ok tot p" "\<not> p_shrink_eof p" "tot \<le> length F" "pipe_run remote local tot evs p = Some p'"
    "honest_run remote local tot F evs p" "p_status p' = Finished (Ok ())"
  shows "p_write_at p' = tot"
  using assms
proof (induction evs arbitrary: p)
  case Nil
  then show ?case by (simp add: done_ok_def)
next
  case (Cons ev evs)
  then obtain p1 where p1: "pipe_step remote local tot ev p = Some p1" "pipe_run remote local tot evs p1 = Some p'"
    "honest_run remote local tot F evs p1" "honest_run remote local tot F [ev] p"
    by (auto split: option.splits)
  from pipe_step_done [OF Cons.prems(1) p1(1,4)] show ?case
  proof
    assume "done_ok tot p1"
    with pipe_step_no_eof [OF Cons.prems(1-3) p1(1,4)] p1 Cons.prems show ?thesis by (intro Cons.IH)
  next
    assume err: "\<exists>path why. p_status p1 = Finished (Err (LocalIo path why))"
    then have "evs = []" using p1(2) by (cases evs) (auto simp: pipe_step_def split: option.splits)
    with p1(2) err Cons.prems(6) show ?thesis by auto
  qed
qed

section \<open>Attempts\<close>

definition start_offset :: "nat \<Rightarrow> nat \<Rightarrow> OnExists \<Rightarrow> nat" where
  "start_offset have tot mode = unat (resume_offset (of_nat have) (of_nat tot) mode)"

text \<open>
  \<open>download_once\<close>: \<open>raw\<close> says whether a raw session is available, \<open>old\<close> is the local file
  found, and the result is the local file, the progress and the status it leaves.
\<close>

definition download_once ::
  "bool \<Rightarrow> string \<Rightarrow> string \<Rightarrow> nat \<Rightarrow> OnExists \<Rightarrow> u8 list \<Rightarrow> read_event list \<Rightarrow> copy_event list \<Rightarrow> (u8 list \<times> nat \<times> status) option" where
  "download_once raw remote local tot mode old revs cevs =
     (let offset = start_offset (length old) tot mode;
          base = (if offset > 0 then old else [])
      in if raw \<and> tot - offset > CHUNK
         then map_option (\<lambda>p. (base @ p_written p, p_bytes_done p, p_status p))
                (pipe_run remote local tot revs (pipelined_body offset tot))
         else map_option (\<lambda>c. (base @ c_written c, c_bytes_done c, c_status c))
                (copy_run (\<lambda>e. RemotePath remote (Reported e)) (\<lambda>e. LocalIo local (Reported e)) tot cevs (copy_start offset)))"

text \<open>\<open>upload_once\<close>: \<open>old\<close> is the remote file found; it is truncated at offset 0.\<close>

definition upload_once ::
  "string \<Rightarrow> string \<Rightarrow> nat \<Rightarrow> OnExists \<Rightarrow> u8 list \<Rightarrow> copy_event list \<Rightarrow> (u8 list \<times> nat \<times> status) option" where
  "upload_once remote local tot mode old cevs =
     (let offset = start_offset (length old) tot mode;
          base = (if offset > 0 then old else [])
      in map_option (\<lambda>c. (take offset base @ c_written c @ drop (offset + length (c_written c)) base, c_bytes_done c, c_status c))
           (copy_run (\<lambda>e. LocalIo local (Reported e)) (\<lambda>e. RemotePath remote (Reported e)) tot cevs (copy_start offset)))"

definition honest_reads ::
  "bool \<Rightarrow> string \<Rightarrow> string \<Rightarrow> nat \<Rightarrow> OnExists \<Rightarrow> u8 list \<Rightarrow> u8 list \<Rightarrow> read_event list \<Rightarrow> copy_event list \<Rightarrow> bool" where
  "honest_reads raw remote local tot mode old F revs cevs =
     (let offset = start_offset (length old) tot mode
      in if raw \<and> tot - offset > CHUNK
         then honest_run remote local tot F revs (pipelined_body offset tot) else honest_copy F offset cevs)"

text \<open>A target an earlier attempt left, or one that is not continued.\<close>

definition resumable :: "u8 list \<Rightarrow> OnExists \<Rightarrow> u8 list \<Rightarrow> bool" where
  "resumable F mode old \<longleftrightarrow> segment F 0 old \<or> mode = Overwrite \<or> length F < length old"

lemma start_offset_cases:
  assumes "length F = tot" "tot < 2 ^ 64" "length old < 2 ^ 64" "resumable F mode old"
  shows "start_offset (length old) tot mode \<le> tot"
    "start_offset (length old) tot mode > 0 \<Longrightarrow> start_offset (length old) tot mode = length old \<and> segment F 0 old"
  using assms
  by (auto simp: start_offset_def resume_offset_def resumable_def word_less_nat_alt unat_of_nat split: OnExists.splits if_splits)

lemma segment_full:
  assumes "segment F at d" "length F \<le> at + length d"
  shows "d = drop at F"
proof -
  have "take (length d) (drop at F) = drop at F" using assms(2) by simp
  then show ?thesis using assms(1) by (simp only: segment_def)
qed

lemma attempt_prefix:
  assumes "segment F offset out" "0 < offset \<Longrightarrow> offset = length old \<and> segment F 0 old"
  shows "segment F 0 ((if offset > 0 then old else []) @ out)"
  using assms by (cases "offset > 0") (auto intro: segment_append)

lemma download_once_result:
  assumes "length F = tot" "tot < 2 ^ 64" "length old < 2 ^ 64" "resumable F mode old"
    "honest_reads raw remote local tot mode old F revs cevs"
    "download_once raw remote local tot mode old revs cevs = Some (new, prog, st)"
  shows "segment F 0 new \<and> prog \<le> length new \<and> (st = Finished (Ok ()) \<longrightarrow> new = F)"
proof -
  define offset where "offset = start_offset (length old) tot mode"
  define base where "base = (if offset > 0 then old else [])"
  note off = start_offset_cases [OF assms(1-4), folded offset_def]
  have len: "length base = offset" using off(2) by (auto simp: base_def)
  obtain out where new: "new = base @ out" and out: "segment F offset out" "prog \<le> offset + length out"
    "st = Finished (Ok ()) \<Longrightarrow> length F \<le> offset + length out"
  proof (cases "raw \<and> tot - offset > CHUNK")
    case True
    then obtain p where p: "pipe_run remote local tot revs (pipelined_body offset tot) = Some p"
      "new = base @ p_written p" "prog = p_bytes_done p" "st = p_status p"
      and hon: "honest_run remote local tot F revs (pipelined_body offset tot)"
      using assms(5,6) by (auto simp: download_once_def honest_reads_def Let_def base_def simp flip: offset_def)
    note start = start_inv(1) [OF off(1), of F] start_inv(2) [OF off(1)]
    have safe: "safe_prefix F offset p" using pipe_run_safe [OF start(1) p(1) hon] .
    have "p_write_at p = tot" if "p_status p = Finished (Ok ())"
      using pipe_run_complete [OF start(2) _ _ p(1) hon that] assms(1)
      by (simp add: pipelined_body_def loop_head_def Let_def fill_fields)
    with safe p assms(1) that show ?thesis by (auto simp: safe_prefix_def content_def)
  next
    case False
    then obtain c where c: "copy_run (\<lambda>e. RemotePath remote (Reported e)) (\<lambda>e. LocalIo local (Reported e)) tot cevs (copy_start offset) = Some c"
      "new = base @ c_written c" "prog = c_bytes_done c" "st = c_status c" and hon: "honest_copy F offset cevs"
      using assms(5,6) by (auto simp: download_once_def honest_reads_def Let_def base_def simp flip: offset_def)
    have "segment F offset (c_written c) \<and> c_bytes_done c \<le> offset + length (c_written c) \<and>
        (c_status c = Finished (Ok ()) \<longrightarrow> length F \<le> offset + length (c_written c))"
      using hon by (intro copy_run_safe [OF c(1)]) (simp_all add: copy_start_def)
    with c that show ?thesis by auto
  qed
  have seg: "segment F 0 new" unfolding new base_def using out(1) off(2) by (intro attempt_prefix) auto
  have "new = F" if "st = Finished (Ok ())"
    using segment_full [OF seg] out(3) [OF that] len new by simp
  with seg out(2) len new show ?thesis by simp
qed

lemma upload_once_result:
  assumes "length F = tot" "tot < 2 ^ 64" "length old < 2 ^ 64" "resumable F mode old"
    "honest_copy F (start_offset (length old) tot mode) cevs"
    "upload_once remote local tot mode old cevs = Some (new, prog, st)"
  shows "segment F 0 new \<and> prog \<le> length new \<and> (st = Finished (Ok ()) \<longrightarrow> new = F)"
proof -
  define offset where "offset = start_offset (length old) tot mode"
  define base where "base = (if offset > 0 then old else [])"
  note off = start_offset_cases [OF assms(1-4), folded offset_def]
  have len: "length base = offset" using off(2) by (auto simp: base_def)
  obtain c where c: "copy_run (\<lambda>e. LocalIo local (Reported e)) (\<lambda>e. RemotePath remote (Reported e)) tot cevs (copy_start offset) = Some c"
    and new: "new = base @ c_written c" and rest: "prog = c_bytes_done c" "st = c_status c"
    using assms(6) len by (auto simp: upload_once_def Let_def base_def simp flip: offset_def)
  have safe: "segment F offset (c_written c) \<and> c_bytes_done c \<le> offset + length (c_written c) \<and>
      (c_status c = Finished (Ok ()) \<longrightarrow> length F \<le> offset + length (c_written c))"
    using assms(5) by (intro copy_run_safe [OF c]) (simp_all add: copy_start_def offset_def)
  have seg: "segment F 0 new" unfolding new base_def using safe off(2) by (intro attempt_prefix) auto
  have "new = F" if "st = Finished (Ok ())"
    using segment_full [OF seg] safe that len new rest by simp
  with seg safe len new rest show ?thesis by simp
qed

section \<open>A stalled read\<close>

text \<open>The first block is not answered, all others are, in full.\<close>

definition full_block :: "u8 list" where
  "full_block = replicate CHUNK 0"

definition stalled :: "nat \<Rightarrow> nat \<Rightarrow> pipeline \<Rightarrow> bool" where
  "stalled tot k p \<longleftrightarrow>
     p_status p = Working \<and> \<not> p_shrink_eof p \<and> p_missing p = [] \<and> p_write_at p = 0 \<and>
     p_next p = (READ_AHEAD_DEPTH + k) * CHUNK \<and> length (p_in_flight p) = READ_AHEAD_DEPTH \<and>
     hd (p_in_flight p) = (0, CHUNK) \<and> (\<forall>r \<in> set (p_in_flight p). snd r = CHUNK) \<and> tile_inv tot p"

definition held_back :: "pipeline \<Rightarrow> nat" where
  "held_back p = sum_list (map (length \<circ> snd) (p_reorder p))"

lemma chain_sum: "chain lo hi c \<Longrightarrow> lo + sum_list (map snd c) = hi"
  by (induction c arbitrary: lo) fastforce+

lemma sum_list_const: "\<forall>x \<in> set xs. f x = n \<Longrightarrow> sum_list (map f xs) = length xs * (n :: nat)"
  by (induction xs) auto

lemma stalled_held_back:
  assumes "stalled tot k p"
  shows "held_back p = k * CHUNK"
proof -
  obtain c where c: "mset c = mset (p_in_flight p) + segs (p_reorder p)" "chain 0 (p_next p) c"
    using assms by (auto simp: stalled_def tile_inv_def tiles_def)
  have "sum_mset (image_mset snd (mset c)) = sum_mset (image_mset snd (mset (p_in_flight p))) + sum_mset (image_mset snd (segs (p_reorder p)))"
    by (simp add: c(1))
  moreover have "image_mset snd (segs (p_reorder p)) = mset (map (length \<circ> snd) (p_reorder p))"
    by (simp add: segs_def comp_def split_beta image_mset.compositionality)
  ultimately have "sum_list (map snd c) = sum_list (map snd (p_in_flight p)) + held_back p"
    by (simp only: held_back_def sum_mset_sum_list flip: mset_map)
  moreover have "sum_list (map snd c) = p_next p" using chain_sum [OF c(2)] by simp
  moreover have "sum_list (map snd (p_in_flight p)) = READ_AHEAD_DEPTH * CHUNK"
    using sum_list_const [of "p_in_flight p" snd CHUNK] assms by (simp add: stalled_def)
  ultimately show ?thesis using assms by (simp add: stalled_def algebra_simps)
qed

lemma stalled_no_drain:
  assumes "stalled tot k p" "at \<noteq> 0"
  shows "drain (bt_insert at d (p_reorder p)) 0 out = (bt_insert at d (p_reorder p), 0, out)"
proof -
  obtain fs where fs: "p_in_flight p = (0, CHUNK) # fs"
    using assms(1) by (cases "p_in_flight p") (auto simp: stalled_def READ_AHEAD_DEPTH_def)
  then have "tiles 0 (p_next p) (add_mset (0, CHUNK) (mset fs + segs (p_reorder p)))"
    using assms(1) by (auto simp: stalled_def tile_inv_def)
  from tiles_distinct [OF this] have "\<forall>k. (0, k) \<notin># segs (p_reorder p)" by auto
  then have "0 \<notin> fst ` set (p_reorder p)" by (force simp: segs_def)
  then have "0 \<notin> fst ` set (bt_insert at d (p_reorder p))"
    using bt_insert_set [of at d "p_reorder p"] assms(2) by force
  then show ?thesis by (cases "bt_insert at d (p_reorder p)") auto
qed

lemma stalled_step:
  assumes "stalled tot k p" "(READ_AHEAD_DEPTH + Suc k) * CHUNK \<le> tot"
  shows "\<exists>p'. pipe_step remote local tot (Answer 1 full_block) p = Some p' \<and> stalled tot (Suc k) p'"
proof -
  obtain r fs where fs: "p_in_flight p = (0, CHUNK) # r # fs" "length fs = 14"
    using assms(1) by (auto simp: stalled_def READ_AHEAD_DEPTH_def numeral_eq_Suc length_Suc_conv)
  obtain at where r: "r = (at, CHUNK)" using assms(1) fs by (cases r) (auto simp: stalled_def)
  have chunk: "CHUNK > 0" by (simp add: CHUNK_def)
  have at: "at \<noteq> 0"
  proof
    assume "at = 0"
    then have "tiles 0 (p_next p) (add_mset (0, CHUNK) (add_mset (0, CHUNK) (mset fs + segs (p_reorder p))))"
      using assms(1) fs r by (auto simp: stalled_def tile_inv_def)
    from tiles_distinct [OF this, of CHUNK] show False by simp
  qed
  let ?q = "p\<lparr>p_in_flight := (0, CHUNK) # fs, p_reorder := bt_insert at full_block (p_reorder p), p_bytes_done := 0\<rparr>"
  have "drain_prefix (p\<lparr>p_in_flight := (0, CHUNK) # fs, p_reorder := bt_insert at full_block (p_reorder p)\<rparr>) = ?q"
    using stalled_no_drain [OF assms(1) at, of full_block "p_written p"] assms(1)
    by (cases p) (simp add: drain_prefix_def stalled_def)
  then have q: "answered (Suc 0) full_block p = ?q"
    using fs r chunk by (simp add: answered_def take_request_def full_block_def)
  have inv: "tile_inv tot ?q"
    unfolding q [symmetric] using assms(1) fs r by (intro answered_tiles) (auto simp: stalled_def full_block_def)
  have nxt: "next_request tot ?q = Some ((p_next p, CHUNK), ?q\<lparr>p_next := p_next p + CHUNK\<rparr>)"
    using assms chunk by (simp add: next_request_def stalled_def algebra_simps)
  let ?p = "?q\<lparr>p_next := p_next p + CHUNK, p_in_flight := (0, CHUNK) # fs @ [(p_next p, CHUNK)]\<rparr>"
  have "fill tot ?q = fill tot ?p"
    by (subst fill.simps, subst nxt) (use assms(1) fs in \<open>simp add: stalled_def READ_AHEAD_DEPTH_def\<close>)
  also have "\<dots> = ?p"
    by (subst fill.simps) (use fs(2) in \<open>simp add: READ_AHEAD_DEPTH_def\<close>)
  finally have fill: "fill tot ?q = ?p" .
  then have head: "loop_head tot ?q = ?p" by (simp add: loop_head_def)
  have "tile_inv tot ?p" using fill_tiles [OF inv] fill by simp
  then have "stalled tot (Suc k) ?p"
    using assms(1) fs by (simp add: stalled_def algebra_simps READ_AHEAD_DEPTH_def)
  moreover have "pipe_step remote local tot (Answer 1 full_block) p = Some ?p"
    using assms(1) fs head q by (simp add: pipe_step_def stalled_def)
  ultimately show ?thesis by blast
qed

lemma stalled_run:
  assumes "stalled tot k p" "(READ_AHEAD_DEPTH + k + n) * CHUNK \<le> tot"
  shows "\<exists>p'. pipe_run remote local tot (replicate n (Answer 1 full_block)) p = Some p' \<and> stalled tot (k + n) p'"
  using assms
proof (induction n arbitrary: k p)
  case (Suc n)
  have "(READ_AHEAD_DEPTH + Suc k) * CHUNK \<le> (READ_AHEAD_DEPTH + k + Suc n) * CHUNK" by simp
  with Suc.prems(2) have "(READ_AHEAD_DEPTH + Suc k) * CHUNK \<le> tot" by (rule order_trans [rotated])
  from stalled_step [OF Suc.prems(1) this] obtain p1
    where p1: "pipe_step remote local tot (Answer 1 full_block) p = Some p1" "stalled tot (Suc k) p1" by blast
  with Suc.IH [OF p1(2)] Suc.prems(2) show ?case by auto
qed auto

lemma fill_new:
  assumes "p_missing p = []" "\<not> p_shrink_eof p" "length (p_in_flight p) + n = READ_AHEAD_DEPTH" "p_next p + n * CHUNK \<le> tot"
  shows "fill tot p = p\<lparr>p_next := p_next p + n * CHUNK,
     p_in_flight := p_in_flight p @ map (\<lambda>j. (p_next p + j * CHUNK, CHUNK)) [0..<n]\<rparr>"
  using assms
proof (induction n arbitrary: p)
  case 0
  then show ?case by (subst fill.simps) (cases p, simp)
next
  case (Suc n)
  let ?p = "p\<lparr>p_next := p_next p + CHUNK, p_in_flight := p_in_flight p @ [(p_next p, CHUNK)]\<rparr>"
  have chunk: "0 < CHUNK" by (simp add: CHUNK_def)
  with Suc.prems have "p_next p < tot" "CHUNK \<le> tot - p_next p" by (auto simp: algebra_simps)
  then have "next_request tot p = Some ((p_next p, CHUNK), p\<lparr>p_next := p_next p + CHUNK\<rparr>)"
    using Suc.prems(1) by (simp add: next_request_def min_def)
  then have "fill tot p = fill tot ?p" using Suc.prems by (subst fill.simps) simp
  also have "\<dots> = ?p\<lparr>p_next := p_next ?p + n * CHUNK,
      p_in_flight := p_in_flight ?p @ map (\<lambda>j. (p_next ?p + j * CHUNK, CHUNK)) [0..<n]\<rparr>"
    using Suc.prems by (intro Suc.IH) (simp_all add: algebra_simps)
  also have "map (\<lambda>j. (p_next ?p + j * CHUNK, CHUNK)) [0..<n] = map (\<lambda>j. (p_next p + j * CHUNK, CHUNK)) [1..<Suc n]"
    unfolding One_nat_def map_Suc_upt [symmetric] by (simp add: comp_def algebra_simps)
  finally show ?case by (simp add: upt_conv_Cons algebra_simps)
qed

lemma stalled_start:
  assumes "READ_AHEAD_DEPTH * CHUNK \<le> tot"
  shows "stalled tot 0 (pipelined_body 0 tot)"
proof -
  let ?p = "\<lparr>p_next = 0, p_write_at = 0, p_in_flight = [], p_reorder = [], p_missing = [],
       p_shrink_eof = False, p_written = [], p_bytes_done = 0, p_status = Working\<rparr>"
  have fill: "fill tot ?p = ?p\<lparr>p_next := READ_AHEAD_DEPTH * CHUNK,
      p_in_flight := map (\<lambda>j. (j * CHUNK, CHUNK)) [0..<READ_AHEAD_DEPTH]\<rparr>"
    using fill_new [of ?p READ_AHEAD_DEPTH tot] assms by simp
  then have "pipelined_body 0 tot = fill tot ?p"
    by (simp add: pipelined_body_def loop_head_def READ_AHEAD_DEPTH_def)
  moreover have "done_ok tot (pipelined_body 0 tot)" by (rule start_inv) simp
  ultimately show ?thesis using fill by (simp add: stalled_def done_ok_def hd_map READ_AHEAD_DEPTH_def)
qed

section \<open>Properties\<close>



text \<open>
  The same for uploads, where the remote file is the target and the local file the
  source.
\<close>

theorem upload_resumes_to_exact_copy:
  assumes "length F = tot" "tot < 2 ^ 64" "length old < 2 ^ 64" "resumable F mode old"
    "honest_copy F (start_offset (length old) tot mode) cevs"
    "upload_once remote local tot mode old cevs = Some (new, prog, st)"
  shows "new = take (length new) F \<and> prog \<le> length new \<and> (st = Finished (Inr ()) \<longrightarrow> new = F) \<and> resumable F mode new"
  using upload_once_result [OF assms] by (simp add: resumable_def segment_def)

theorem upload_resumes_to_exact_copy_witness:
  "upload_once ''r'' ''l'' 3 Resume [7] [Chunk [8], Chunk [9], Chunk []] =
     Some ([7, 8, 9], 3, Finished (Inr ())) \<and> resumable [7, 8, 9] Resume [7, 8, 9]"
proof -
  have off: "start_offset (Suc 0) 3 Resume = 1" by (simp add: start_offset_def resume_offset_def)
  have run: "upload_once ''r'' ''l'' 3 Resume [7] [Chunk [8], Chunk [9], Chunk []] =
     Some ([7, 8, 9], 3, Finished (Inr ()))"
    by (simp add: upload_once_def off copy_start_def copy_step_def)
  have "resumable [7, 8, 9] Resume [7]"
    "honest_copy [7, 8, 9] (start_offset (length [7 :: u8]) 3 Resume) [Chunk [8], Chunk [9], Chunk []]"
    by (simp_all add: resumable_def off honest_chunk_def segment_def)
  with upload_resumes_to_exact_copy [OF _ _ _ this run] run show ?thesis by simp
qed



text \<open>
  The window bounds the reads in flight, not the memory: while the first block is not
  answered, the answers behind it are held back without a limit, so that for every \<open>n\<close> a
  file of sufficient size makes the pipeline hold back \<open>n\<close> blocks.
\<close>

theorem held_back_unbounded:
  assumes "(16 + n) * CHUNK \<le> tot"
  shows "\<exists>p. pipe_run remote local tot (replicate n (Answer 1 (replicate CHUNK 0))) (pipelined_body 0 tot) = Some p \<and>
    sum_list (map (length \<circ> snd) (p_reorder p)) = n * CHUNK \<and> p_write_at p = 0"
proof -
  have "stalled tot 0 (pipelined_body 0 tot)" using assms by (intro stalled_start) (simp add: READ_AHEAD_DEPTH_def algebra_simps)
  from stalled_run [OF this, of n remote local] assms obtain p
    where run: "pipe_run remote local tot (replicate n (Answer 1 full_block)) (pipelined_body 0 tot) = Some p" "stalled tot n p"
    by (auto simp: READ_AHEAD_DEPTH_def)
  then show ?thesis using stalled_held_back [OF run(2)]
    by (auto simp: full_block_def held_back_def stalled_def)
qed

theorem held_back_unbounded_witness:
  "\<exists>p. pipe_run ''r'' ''l'' (1016 * CHUNK) (replicate 1000 (Answer 1 (replicate CHUNK 0))) (pipelined_body 0 (1016 * CHUNK)) = Some p \<and>
     sum_list (map (length \<circ> snd) (p_reorder p)) = 1000 * CHUNK"
proof -
  have "(16 + 1000) * CHUNK \<le> 1016 * CHUNK" by simp
  from held_back_unbounded [OF this, of "''r''" "''l''"] show ?thesis by blast
qed

end
