(* ===== verification/Sftp_Job.thy ===== *)
theory Sftp_Job
  imports Sftp_Executor "HOL-Library.Multiset" "HOL-Library.Product_Lexorder" "HOL-Library.List_Lexorder"
begin

text \<open>
  Directory transfers, \<^verbatim>\<open>src/crates/core-sftp/src/job.rs\<close>: the registry of jobs with its
  commands, the coordinator that scans the tree, the scan operations it starts, the workers
  that run the files through the shared executor, and the accounting of a job.

  A job is a system of tasks over shared state: \<open>job_event_step\<close> performs one atomic piece
  of one task, and \<open>job_step\<close> is any interleaving of them. What a directory listing, a
  transfer or a conflict probe answers is part of the event. \<open>notify_waiters\<close> reaches the
  waiters that registered before it: \<open>j_wake\<close> counts the calls, and a waiter remembers the
  count at which it registered. Message texts outside the modelled character range are
  rendered in ASCII. Paths are Unix paths, lengths and depths are \<open>nat\<close>, the
  counters of a job are \<open>u64\<close> and wrap around.
\<close>

section \<open>Capacities\<close>

record SchedulerCaps =
  cap_frontier :: nat
  cap_ready :: nat
  cap_in_flight :: nat
  max_depth :: nat
  cap_failed :: nat

definition default_caps :: SchedulerCaps where
  "default_caps =
     \<lparr>cap_frontier = 1024, cap_ready = unat SFTP_READY, cap_in_flight = 4, max_depth = 64, cap_failed = 256\<rparr>"

definition MAX_PATH :: nat where "MAX_PATH = 1024"

definition WORKERS :: nat where "WORKERS = 3"

section \<open>Jobs\<close>

datatype JobState = Scanning | Transferring | Finalizing | JobCompleted | JobFailed | JobCanceled

fun job_state_str :: "JobState \<Rightarrow> string" where
  "job_state_str Scanning = ''scanning''"
| "job_state_str Transferring = ''transferring''"
| "job_state_str Finalizing = ''finalizing''"
| "job_state_str JobCompleted = ''completed''"
| "job_state_str JobFailed = ''failed''"
| "job_state_str JobCanceled = ''canceled''"

definition job_terminal :: "JobState \<Rightarrow> bool" where
  "job_terminal s \<longleftrightarrow> s \<in> {JobCompleted, JobFailed, JobCanceled}"

record FailedEntry =
  fe_path :: string
  fe_error :: string

record JobRoot =
  root_local :: string
  root_remote :: string

record JobSpec =
  spec_direction :: TransferDirection
  spec_roots :: "JobRoot list"
  spec_policy :: OnExists

record FileTerminal =
  ft_id :: string
  ft_direction :: TransferDirection
  ft_local :: string
  ft_remote :: string
  ft_bytes_done :: u64
  ft_bytes_total :: u64
  ft_state :: TransferState
  ft_error :: "string option"

record DirToScan =
  d_local :: string
  d_remote :: string
  d_depth :: nat

record TransferTask =
  k_id :: string
  k_local :: string
  k_remote :: string
  k_size :: u64

record Lanes =
  l_files :: "(string \<times> u64) list"
  l_dirs :: "string list"

datatype ScanMsg = Listed DirToScan Lanes u64 | DirFailed DirToScan string

record JobInner =
  j_id :: string
  j_direction :: TransferDirection
  j_roots :: "JobRoot list"
  j_policy :: OnExists
  j_summary :: string
  j_state :: JobState
  j_error :: "string option"
  j_failed_entries :: "FailedEntry list"
  j_current :: "(nat \<times> string) list"
  j_pause :: bool
  j_cancel :: bool
  j_scan_done :: bool
  j_wake :: nat
  j_discovered_files :: u64
  j_discovered_bytes :: u64
  j_completed_files :: u64
  j_failed_files :: u64
  j_skipped :: u64
  j_bytes_done :: u64
  j_pending :: u64
  j_active :: u64

record JobSnapshot =
  sn_id :: string
  sn_direction :: TransferDirection
  sn_summary :: string
  sn_state :: JobState
  sn_paused :: bool
  sn_scan_done :: bool
  sn_discovered_files :: u64
  sn_discovered_bytes :: u64
  sn_completed_files :: u64
  sn_failed_files :: u64
  sn_skipped :: u64
  sn_bytes_done :: u64
  sn_error :: "string option"
  sn_current :: "string list"
  sn_failed_entries :: "FailedEntry list"

definition job_snapshot :: "JobInner \<Rightarrow> JobSnapshot" where
  "job_snapshot j =
     \<lparr>sn_id = j_id j, sn_direction = j_direction j, sn_summary = j_summary j, sn_state = j_state j,
      sn_paused = j_pause j, sn_scan_done = j_scan_done j, sn_discovered_files = j_discovered_files j,
      sn_discovered_bytes = j_discovered_bytes j, sn_completed_files = j_completed_files j,
      sn_failed_files = j_failed_files j, sn_skipped = j_skipped j, sn_bytes_done = j_bytes_done j,
      sn_error = j_error j, sn_current = map snd (j_current j), sn_failed_entries = j_failed_entries j\<rparr>"

definition record_failure :: "string \<Rightarrow> string \<Rightarrow> nat \<Rightarrow> JobInner \<Rightarrow> JobInner" where
  "record_failure path error cap j =
     (let j = j\<lparr>j_failed_files := j_failed_files j + 1\<rparr>
      in if length (j_failed_entries j) < cap
         then j\<lparr>j_failed_entries := j_failed_entries j @ [\<lparr>fe_path = path, fe_error = error\<rparr>]\<rparr> else j)"

definition notify_waiters :: "JobInner \<Rightarrow> JobInner" where
  "notify_waiters j = j\<lparr>j_wake := j_wake j + 1\<rparr>"

definition job_new :: "string \<Rightarrow> JobSpec \<Rightarrow> JobInner" where
  "job_new i spec =
     \<lparr>j_id = i, j_direction = spec_direction spec, j_roots = spec_roots spec, j_policy = spec_policy spec,
      j_summary = (case spec_roots spec of [] \<Rightarrow> [] | r # _ \<Rightarrow> root_local r @ '' -> '' @ root_remote r),
      j_state = Scanning, j_error = None, j_failed_entries = [], j_current = [], j_pause = False,
      j_cancel = False, j_scan_done = False, j_wake = 0, j_discovered_files = 0, j_discovered_bytes = 0,
      j_completed_files = 0, j_failed_files = 0, j_skipped = 0, j_bytes_done = 0, j_pending = 0,
      j_active = 0\<rparr>"

text \<open>The job together with the two callbacks of its scheduler and what they were given.\<close>

record jobw =
  wj :: JobInner
  file_cb :: bool
  job_cb :: bool
  file_log :: "FileTerminal list"
  job_log :: "JobSnapshot list"

abbreviation on_job :: "(JobInner \<Rightarrow> JobInner) \<Rightarrow> jobw \<Rightarrow> jobw" where
  "on_job f w \<equiv> w\<lparr>wj := f (wj w)\<rparr>"

definition emit_file_terminal :: "FileTerminal \<Rightarrow> jobw \<Rightarrow> jobw" where
  "emit_file_terminal r w = (if file_cb w then w\<lparr>file_log := file_log w @ [r]\<rparr> else w)"

definition emit_job_terminal :: "jobw \<Rightarrow> jobw" where
  "emit_job_terminal w = (if job_cb w then w\<lparr>job_log := job_log w @ [job_snapshot (wj w)]\<rparr> else w)"

definition check_terminal :: "jobw \<Rightarrow> jobw" where
  "check_terminal w =
     (let j = wj w
      in if \<not> (j_scan_done j \<and> j_pending j = 0 \<and> j_active j = 0) then w
         else if job_terminal (j_state j) then w
         else emit_job_terminal
                (w\<lparr>wj := j\<lparr>j_state := (if j_error j \<noteq> None then JobFailed else JobCompleted)\<rparr>\<rparr>))"

definition refresh_phase :: "JobInner \<Rightarrow> JobInner" where
  "refresh_phase j =
     (if job_terminal (j_state j) then j
      else let idle = (j_pending j = 0 \<and> j_active j = 0)
           in j\<lparr>j_state := (if \<not> j_scan_done j then Scanning else if \<not> idle then Transferring else Finalizing)\<rparr>)"

section \<open>The registry\<close>

datatype job_reason = NoSuchJob | AlreadyTerminal JobState | OnlyTerminalRetry | OnlyTerminalRemove JobState

text \<open>\<open>SftpError::RemotePath\<close> with the identifier of the job and the reason.\<close>

datatype job_error = JobError string job_reason

text \<open>
  A job is shared by the registry and its tasks, so the registry maps identifiers to
  positions in \<open>sc_inners\<close>, where a job stays after it is removed.
\<close>

record DirectoryJobScheduler =
  sc_caps :: SchedulerCaps
  sc_inners :: "JobInner list"
  sc_jobs :: "(string \<times> nat) list"
  sc_id_seq :: u64
  sc_file_cb :: bool
  sc_job_cb :: bool
  sc_job_log :: "JobSnapshot list"

definition sched_with_caps :: "SchedulerCaps \<Rightarrow> DirectoryJobScheduler" where
  "sched_with_caps c =
     \<lparr>sc_caps = c, sc_inners = [], sc_jobs = [], sc_id_seq = 1, sc_file_cb = False, sc_job_cb = False,
      sc_job_log = []\<rparr>"

definition sched_new :: DirectoryJobScheduler where
  "sched_new = sched_with_caps default_caps"

definition set_file_terminal_callback :: "DirectoryJobScheduler \<Rightarrow> DirectoryJobScheduler" where
  "set_file_terminal_callback s = s\<lparr>sc_file_cb := True\<rparr>"

definition set_job_terminal_callback :: "DirectoryJobScheduler \<Rightarrow> DirectoryJobScheduler" where
  "set_job_terminal_callback s = s\<lparr>sc_job_cb := True\<rparr>"

definition id_text :: "string \<Rightarrow> nat \<Rightarrow> u64 \<Rightarrow> string" where
  "id_text pre millis n = pre @ ''-'' @ show_nat millis @ ''-'' @ show_nat (unat n)"

definition new_id :: "string \<Rightarrow> nat \<Rightarrow> DirectoryJobScheduler \<Rightarrow> string \<times> DirectoryJobScheduler" where
  "new_id pre millis s = (id_text pre millis (sc_id_seq s), s\<lparr>sc_id_seq := sc_id_seq s + 1\<rparr>)"

text \<open>\<open>submit\<close> registers the job; the tasks it starts are the system below.\<close>

definition submit :: "nat \<Rightarrow> JobSpec \<Rightarrow> DirectoryJobScheduler \<Rightarrow> string \<times> DirectoryJobScheduler" where
  "submit millis spec s =
     (let (i, s) = new_id ''job'' millis s
      in (i, s\<lparr>sc_inners := sc_inners s @ [job_new i spec],
              sc_jobs := (i, length (sc_inners s)) # filter (\<lambda>(k, _). k \<noteq> i) (sc_jobs s)\<rparr>))"

definition job_list :: "DirectoryJobScheduler \<Rightarrow> JobSnapshot list" where
  "job_list s = map (\<lambda>(_, a). job_snapshot (sc_inners s ! a)) (sc_jobs s)"

definition job_count :: "DirectoryJobScheduler \<Rightarrow> nat" where
  "job_count s = length (sc_jobs s)"

definition with_job ::
  "string \<Rightarrow> (JobInner \<Rightarrow> JobInner) \<Rightarrow> DirectoryJobScheduler \<Rightarrow> (job_error, unit) result \<times> DirectoryJobScheduler" where
  "with_job i f s =
     (case map_of (sc_jobs s) i of
        None \<Rightarrow> (Err (JobError i NoSuchJob), s)
      | Some a \<Rightarrow> (Ok (), s\<lparr>sc_inners := (sc_inners s)[a := f (sc_inners s ! a)]\<rparr>))"

definition set_pause :: "JobInner \<Rightarrow> JobInner" where
  "set_pause j = j\<lparr>j_pause := True\<rparr>"

definition unset_pause :: "JobInner \<Rightarrow> JobInner" where
  "unset_pause j = notify_waiters (j\<lparr>j_pause := False\<rparr>)"

definition job_pause :: "string \<Rightarrow> DirectoryJobScheduler \<Rightarrow> (job_error, unit) result \<times> DirectoryJobScheduler" where
  "job_pause i s = with_job i set_pause s"

definition job_resume :: "string \<Rightarrow> DirectoryJobScheduler \<Rightarrow> (job_error, unit) result \<times> DirectoryJobScheduler" where
  "job_resume i s = with_job i unset_pause s"

text \<open>\<open>cancel\<close> in its pieces: the state under its lock, then the flags and the wake-up.\<close>

definition cancel_mark :: "JobInner \<Rightarrow> (JobState, JobInner) result" where
  "cancel_mark j = (if job_terminal (j_state j) then Err (j_state j) else Ok (j\<lparr>j_state := JobCanceled\<rparr>))"

definition cancel_flags :: "JobInner \<Rightarrow> JobInner" where
  "cancel_flags j = notify_waiters (j\<lparr>j_cancel := True, j_pause := False\<rparr>)"

definition job_cancel :: "string \<Rightarrow> DirectoryJobScheduler \<Rightarrow> (job_error, unit) result \<times> DirectoryJobScheduler" where
  "job_cancel i s =
     (case map_of (sc_jobs s) i of
        None \<Rightarrow> (Err (JobError i NoSuchJob), s)
      | Some a \<Rightarrow>
          (case cancel_mark (sc_inners s ! a) of
             Inl st \<Rightarrow> (Err (JobError i (AlreadyTerminal st)), s)
           | Inr j \<Rightarrow>
               (let j = cancel_flags j
                in (Ok (), s\<lparr>sc_inners := (sc_inners s)[a := j],
                      sc_job_log := sc_job_log s @ (if sc_job_cb s then [job_snapshot j] else [])\<rparr>))))"

definition job_retry ::
  "nat \<Rightarrow> string \<Rightarrow> DirectoryJobScheduler \<Rightarrow> (job_error, string) result \<times> DirectoryJobScheduler" where
  "job_retry millis i s =
     (case map_of (sc_jobs s) i of
        None \<Rightarrow> (Err (JobError i NoSuchJob), s)
      | Some a \<Rightarrow>
          (let j = sc_inners s ! a
           in if \<not> job_terminal (j_state j) then (Err (JobError i OnlyTerminalRetry), s)
              else let (i', s') = submit millis
                         \<lparr>spec_direction = j_direction j, spec_roots = j_roots j, spec_policy = Resume\<rparr> s
                   in (Ok i', s')))"

definition job_remove :: "string \<Rightarrow> DirectoryJobScheduler \<Rightarrow> (job_error, unit) result \<times> DirectoryJobScheduler" where
  "job_remove i s =
     (case map_of (sc_jobs s) i of
        None \<Rightarrow> (Err (JobError i NoSuchJob), s)
      | Some a \<Rightarrow>
          (let st = j_state (sc_inners s ! a)
           in if \<not> job_terminal st then (Err (JobError i (OnlyTerminalRemove st)), s)
              else (Ok (), s\<lparr>sc_jobs := filter (\<lambda>(k, _). k \<noteq> i) (sc_jobs s)\<rparr>)))"

definition job_pause_all :: "DirectoryJobScheduler \<Rightarrow> DirectoryJobScheduler" where
  "job_pause_all s =
     s\<lparr>sc_inners := fold (\<lambda>(_, a) js. js[a := (if job_terminal (j_state (js ! a)) then js ! a else set_pause (js ! a))])
                     (sc_jobs s) (sc_inners s)\<rparr>"

definition job_resume_all :: "DirectoryJobScheduler \<Rightarrow> DirectoryJobScheduler" where
  "job_resume_all s =
     s\<lparr>sc_inners := fold (\<lambda>(_, a) js. js[a := (if j_pause (js ! a) then unset_pause (js ! a) else js ! a)])
                     (sc_jobs s) (sc_inners s)\<rparr>"

section \<open>Scanning a directory\<close>

datatype EntryKind = EFile | EDir | ESymlink | EOther

record DirEntry =
  e_name :: string
  e_path :: string
  e_kind :: EntryKind
  e_size :: u64
  e_permissions :: "u32 option"
  e_mtime :: "u32 option"
  e_uid :: "u32 option"
  e_gid :: "u32 option"
  e_user :: "string option"
  e_group :: "string option"

text \<open>What the server says of a file: whether it is a link, a directory or a regular file, and its attributes.\<close>

record raw_entry =
  raw_name :: string
  raw_path :: string
  raw_symlink :: bool
  raw_dir :: bool
  raw_regular :: bool
  raw_size :: "u64 option"
  raw_permissions :: "u32 option"
  raw_mtime :: "u32 option"
  raw_uid :: "u32 option"
  raw_gid :: "u32 option"
  raw_user :: "string option"
  raw_group :: "string option"

definition from_raw :: "raw_entry \<Rightarrow> DirEntry" where
  "from_raw r =
     \<lparr>e_name = raw_name r, e_path = raw_path r,
      e_kind = (if raw_symlink r then ESymlink else if raw_dir r then EDir
                else if raw_regular r then EFile else EOther),
      e_size = (case raw_size r of Some n \<Rightarrow> n | None \<Rightarrow> 0),
      e_permissions = raw_permissions r, e_mtime = raw_mtime r, e_uid = raw_uid r, e_gid = raw_gid r,
      e_user = raw_user r, e_group = raw_group r\<rparr>"

text \<open>\<open>str::to_lowercase\<close> on code points below 256.\<close>

definition lower :: "char \<Rightarrow> nat" where
  "lower c =
     (let n = (of_char c :: nat)
      in if (65 \<le> n \<and> n \<le> 90) \<or> (192 \<le> n \<and> n \<le> 222 \<and> n \<noteq> 215) then n + 32 else n)"

text \<open>\<open>list\<close>: directories first, then by the name in lower case; the sort is stable.\<close>

definition client_list :: "raw_entry list \<Rightarrow> DirEntry list" where
  "client_list raw =
     sort_key (\<lambda>e. (e_kind e \<noteq> EDir, map lower (e_name e)))
       (filter (\<lambda>e. e_name e \<noteq> ''.'' \<and> e_name e \<noteq> ''..'') (map from_raw raw))"

fun sort_lanes :: "DirEntry list \<Rightarrow> Lanes \<Rightarrow> u64 \<Rightarrow> Lanes \<times> u64" where
  "sort_lanes [] l n = (l, n)"
| "sort_lanes (e # es) l n =
     (case e_kind e of
        EFile \<Rightarrow> sort_lanes es (l\<lparr>l_files := l_files l @ [(e_name e, e_size e)]\<rparr>) n
      | EDir \<Rightarrow> sort_lanes es (l\<lparr>l_dirs := l_dirs l @ [e_name e]\<rparr>) n
      | ESymlink \<Rightarrow> sort_lanes es l (n + 1)
      | EOther \<Rightarrow> sort_lanes es l (n + 1))"

abbreviation no_lanes :: Lanes where
  "no_lanes \<equiv> \<lparr>l_files = [], l_dirs = []\<rparr>"

text \<open>A download lists the remote directory; both the slot and the listing may fail.\<close>

definition scan_remote :: "DirToScan \<Rightarrow> (string, (string, raw_entry list) result) result \<Rightarrow> ScanMsg" where
  "scan_remote dir ans =
     (case ans of
        Inl e \<Rightarrow> DirFailed dir e
      | Inr (Inl e) \<Rightarrow> DirFailed dir e
      | Inr (Inr raw) \<Rightarrow> (let (lanes, skipped) = sort_lanes (client_list raw) no_lanes 0 in Listed dir lanes skipped))"

text \<open>The entries of \<open>read_dir\<close>: an error, or the name, the file type and the length.\<close>

datatype file_type = FtDir | FtFile | FtOther | FtUnknown

fun local_entries ::
  "DirToScan \<Rightarrow> (string, string \<times> file_type \<times> u64 option) result list \<Rightarrow> Lanes \<Rightarrow> u64 \<Rightarrow> ScanMsg" where
  "local_entries dir [] l n = Listed dir l n"
| "local_entries dir (Inl e # es) l n = DirFailed dir e"
| "local_entries dir (Inr (nm, ft, len) # es) l n =
     (case ft of
        FtDir \<Rightarrow> local_entries dir es (l\<lparr>l_dirs := l_dirs l @ [nm]\<rparr>) n
      | FtFile \<Rightarrow> local_entries dir es (l\<lparr>l_files := l_files l @ [(nm, case len of Some k \<Rightarrow> k | None \<Rightarrow> 0)]\<rparr>) n
      | FtOther \<Rightarrow> local_entries dir es l (n + 1)
      | FtUnknown \<Rightarrow> local_entries dir es l (n + 1))"

definition scan_local_dir ::
  "DirToScan \<Rightarrow> (string, (string, string \<times> file_type \<times> u64 option) result list) result \<Rightarrow> ScanMsg" where
  "scan_local_dir dir rd =
     (case rd of Inl e \<Rightarrow> DirFailed dir e | Inr es \<Rightarrow> local_entries dir es no_lanes 0)"

text \<open>
  An upload makes the remote directory first, where a message with \<open>Failure\<close> in it counts as
  already there, and then scans the local one on a blocking thread.
\<close>

fun contains_str :: "string \<Rightarrow> string \<Rightarrow> bool" where
  "contains_str p [] \<longleftrightarrow> p = []"
| "contains_str p (c # cs) \<longleftrightarrow> starts_with (c # cs) p \<or> contains_str p cs"

datatype local_scan =
    LimiterClosed
  | ScanPanicked string
  | Scanned "(string, (string, string \<times> file_type \<times> u64 option) result list) result"

definition mkdir_err :: "(string, (string, unit) result) result \<Rightarrow> string option" where
  "mkdir_err ans =
     (case ans of
        Inl e \<Rightarrow> Some e
      | Inr (Inr ()) \<Rightarrow> None
      | Inr (Inl e) \<Rightarrow> if contains_str ''Failure'' e then None else Some e)"

definition scan_upload :: "DirToScan \<Rightarrow> (string, (string, unit) result) result \<Rightarrow> local_scan \<Rightarrow> ScanMsg" where
  "scan_upload dir mk loc =
     (case mkdir_err mk of
        Some e \<Rightarrow> DirFailed dir (''mkdir: '' @ e)
      | None \<Rightarrow>
          (case loc of
             LimiterClosed \<Rightarrow> DirFailed dir ''limiter closed''
           | ScanPanicked e \<Rightarrow> DirFailed dir (''scan: '' @ e)
           | Scanned rd \<Rightarrow> scan_local_dir dir rd))"

datatype scan_answer =
    RemoteAnswer "(string, (string, raw_entry list) result) result"
  | LocalAnswer "(string, (string, unit) result) result" local_scan

fun scan_msg :: "TransferDirection \<Rightarrow> DirToScan \<Rightarrow> scan_answer \<Rightarrow> ScanMsg option" where
  "scan_msg Download dir (RemoteAnswer a) = Some (scan_remote dir a)"
| "scan_msg Upload dir (LocalAnswer mk loc) = Some (scan_upload dir mk loc)"
| "scan_msg _ dir _ = None"

section \<open>The hooks of a job\<close>

text \<open>\<open>Path::join\<close>: an absolute name replaces the path.\<close>

definition path_join :: "string \<Rightarrow> string \<Rightarrow> string" where
  "path_join p nm =
     (if starts_with nm ''/'' then nm
      else if p = [] \<or> last p = CHR ''/'' then p @ nm else p @ ''/'' @ nm)"

definition remote_join :: "string \<Rightarrow> string \<Rightarrow> string" where
  "remote_join p nm = p @ ''/'' @ nm"

definition display_path :: "TransferDirection \<Rightarrow> string \<Rightarrow> string \<Rightarrow> string" where
  "display_path dir local remote = (case dir of Upload \<Rightarrow> local | Download \<Rightarrow> remote)"

definition new_transient :: "TransferInfo \<Rightarrow> TransferInner" where
  "new_transient info = \<lparr>t_info = info, t_bytes_done = 0, t_pause = False, t_cancel = False, t_priority = 0\<rparr>"

definition signal :: "bool \<Rightarrow> bool \<Rightarrow> TransferInner \<Rightarrow> TransferInner" where
  "signal p c t = t\<lparr>t_pause := p, t_cancel := c\<rparr>"

text \<open>The guard of an attempt: the transient transfer, and where its watching task has registered (\<open>None\<close> once it has ended).\<close>

type_synonym job_guard = "TransferInner \<times> nat option"

record job_file =
  f_idx :: nat
  f_task :: TransferTask
  f_local :: string
  f_remote :: string
  f_mode :: OnExists

definition worker_report :: "TransferTask \<Rightarrow> u64 \<Rightarrow> TransferState \<Rightarrow> string option \<Rightarrow> jobw \<Rightarrow> jobw" where
  "worker_report k bytes st err w =
     emit_file_terminal
       \<lparr>ft_id = k_id k, ft_direction = j_direction (wj w), ft_local = k_local k, ft_remote = k_remote k,
        ft_bytes_done = bytes, ft_bytes_total = k_size k, ft_state = st, ft_error = err\<rparr> w"

definition guard_drop :: "nat \<Rightarrow> jobw \<Rightarrow> jobw" where
  "guard_drop idx = on_job (\<lambda>j. j\<lparr>j_active := j_active j - 1,
     j_current := filter (\<lambda>(i, _). i \<noteq> idx) (j_current j)\<rparr>)"

definition job_prepare :: "job_file \<Rightarrow> u32 \<Rightarrow> jobw \<Rightarrow> job_guard \<times> jobw" where
  "job_prepare f attempt w =
     (let j = wj w; k = f_task f;
          info = \<lparr>ti_id = k_id k, ti_direction = j_direction j, ti_local = f_local f, ti_remote = f_remote f,
                  ti_state = Running, ti_bytes_done = 0, ti_bytes_total = k_size k, ti_on_exists = f_mode f,
                  ti_priority = False, ti_retries = attempt, ti_error = None\<rparr>;
          display = display_path (j_direction j) (f_local f) (f_remote f)
      in ((new_transient info, Some (j_wake j)),
          w\<lparr>wj := j\<lparr>j_current := (f_idx f, display) # filter (\<lambda>(i, _). i \<noteq> f_idx f) (j_current j),
                    j_active := j_active j + 1\<rparr>\<rparr>))"

definition job_report :: "nat \<Rightarrow> job_file \<Rightarrow> AttemptReport \<Rightarrow> jobw \<Rightarrow> jobw" where
  "job_report cap f r w =
     (let w = guard_drop (f_idx f) w; k = f_task f; add = (\<lambda>j. j\<lparr>j_bytes_done := j_bytes_done j + r_bytes r\<rparr>)
      in case r_kind r of
           AttDone \<Rightarrow> worker_report k (r_bytes r) Done None
                       (on_job (\<lambda>j. add (j\<lparr>j_completed_files := j_completed_files j + 1\<rparr>)) w)
         | AttCanceled \<Rightarrow> worker_report k (r_bytes r) Canceled (r_error r) (on_job add w)
         | AttFailed \<Rightarrow>
             (let e = (case r_error r of Some e \<Rightarrow> e | None \<Rightarrow> [])
              in worker_report k (r_bytes r) Failed (Some e)
                   (on_job (record_failure (display_path (j_direction (wj w)) (k_local k) (k_remote k)) e cap)
                     (on_job add w)))
         | AttRetry \<Rightarrow> w)"

definition job_flow :: "nat \<Rightarrow> job_file \<Rightarrow> (jobw, job_guard) flow" where
  "job_flow cap f =
     \<lparr>f_canceled = (\<lambda>w. j_cancel (wj w)), f_paused = (\<lambda>w. j_pause (wj w)), f_prepare = job_prepare f,
      f_cancel_terminal = worker_report (f_task f) 0 Canceled None, f_pause_edge = (\<lambda>_ w. w), f_gate = Some,
      f_report = (\<lambda>r _. job_report cap f r), f_drop_guard = (\<lambda>_. guard_drop (f_idx f)),
      f_real_error = (\<lambda>w. w), f_max_retries = DEFAULT_MAX_RETRIES\<rparr>"

section \<open>The tasks of a job\<close>

datatype coord_pc =
    CTop | CDirs nat | CFiles nat | CAdd nat | CNext nat | CLaunch | CTest | CWait nat
  | CClose | CScanDone | CRefresh | CCheck | CEnd

text \<open>A scan operation works, then sends its message, then gives its slot back.\<close>

datatype scan_op = OpScan DirToScan | OpSend ScanMsg | OpSent | OpEnd

datatype worker =
    WTop | WUnpaused | WRegister | WPaused nat | WSelect | WRecv nat | WGot TransferTask
  | WResolve TransferTask | WExec job_file "job_guard exec" | WSub | WRefresh | WCheck | WLast | WEnd

datatype cancel_pc = NoCancel | CancelFlag | CancelUnpause | CancelWake | CancelEmit | CancelEnd

record job_sys =
  jw :: jobw
  c_pc :: coord_pc
  frontier :: "DirToScan list"
  c_held :: "(DirToScan \<times> Lanes) list"
  in_flight :: nat
  page :: "ScanMsg list"
  ops :: "scan_op list"
  rd_queue :: "TransferTask list"
  rd_open :: bool
  workers :: "worker list"
  permits :: Budget
  next_seq :: u64
  cancel_at :: cancel_pc
  handed :: "(string \<times> string \<times> u64) list"
  dir_failures :: u64
  scan_skips :: u64

abbreviation sys_job :: "job_sys \<Rightarrow> JobInner" where
  "sys_job s \<equiv> wj (jw s)"

abbreviation upd_job :: "(JobInner \<Rightarrow> JobInner) \<Rightarrow> job_sys \<Rightarrow> job_sys" where
  "upd_job f s \<equiv> s\<lparr>jw := on_job f (jw s)\<rparr>"

text \<open>\<open>handed\<close>, \<open>dir_failures\<close> and \<open>scan_skips\<close> are history: the files given to the workers, and what
  the scan itself added to the failure and skip counters.\<close>

definition job_sys_new :: "string \<Rightarrow> JobSpec \<Rightarrow> bool \<Rightarrow> bool \<Rightarrow> Budget \<Rightarrow> u64 \<Rightarrow> job_sys" where
  "job_sys_new i spec fcb jcb b n =
     \<lparr>jw = \<lparr>wj = job_new i spec, file_cb = fcb, job_cb = jcb, file_log = [], job_log = []\<rparr>,
      c_pc = CTop,
      frontier = map (\<lambda>r. \<lparr>d_local = root_local r, d_remote = root_remote r, d_depth = 0\<rparr>) (spec_roots spec),
      c_held = [], in_flight = 0, page = [], ops = [], rd_queue = [], rd_open = True,
      workers = replicate WORKERS WTop, permits = b, next_seq = n, cancel_at = NoCancel, handed = [],
      dir_failures = 0, scan_skips = 0\<rparr>"

subsection \<open>The coordinator\<close>

definition child_of :: "DirToScan \<Rightarrow> string \<Rightarrow> DirToScan" where
  "child_of p nm =
     \<lparr>d_local = path_join (d_local p) nm, d_remote = remote_join (d_remote p) nm, d_depth = d_depth p + 1\<rparr>"

definition too_deep :: "SchedulerCaps \<Rightarrow> DirToScan \<Rightarrow> bool" where
  "too_deep caps p \<longleftrightarrow> d_depth p + 1 > max_depth caps"

definition too_long :: "DirToScan \<Rightarrow> bool" where
  "too_long d \<longleftrightarrow> length (d_remote d) > MAX_PATH \<or> length (d_local d) > MAX_PATH"

definition skip_one :: "job_sys \<Rightarrow> job_sys" where
  "skip_one s = upd_job (\<lambda>j. j\<lparr>j_skipped := j_skipped j + 1\<rparr>) (s\<lparr>scan_skips := scan_skips s + 1\<rparr>)"

text \<open>One turn of the loop over the directories of the result at \<open>i\<close>.\<close>

definition place_dir :: "SchedulerCaps \<Rightarrow> nat \<Rightarrow> job_sys \<Rightarrow> job_sys" where
  "place_dir caps i s =
     (if i \<ge> length (c_held s) then s\<lparr>c_pc := CLaunch\<rparr>
      else let (parent, lanes) = c_held s ! i
           in case l_dirs lanes of
                [] \<Rightarrow> s\<lparr>c_pc := CFiles i\<rparr>
              | nm # rest \<Rightarrow>
                  if length (frontier s) \<ge> cap_frontier caps then s\<lparr>c_pc := CFiles i\<rparr>
                  else let s' = s\<lparr>c_held := (c_held s)[i := (parent, lanes\<lparr>l_dirs := rest\<rparr>)]\<rparr>
                       in if too_deep caps parent then skip_one s'
                          else if too_long (child_of parent nm) then skip_one s'
                          else s'\<lparr>frontier := frontier s @ [child_of parent nm]\<rparr>)"

text \<open>One turn of the loop over its files; \<open>try_send\<close> fails when the queue is full or every worker is gone.\<close>

definition place_file :: "SchedulerCaps \<Rightarrow> nat \<Rightarrow> nat \<Rightarrow> job_sys \<Rightarrow> job_sys" where
  "place_file caps millis i s =
     (let (parent, lanes) = c_held s ! i
      in case l_files lanes of
           [] \<Rightarrow> s\<lparr>c_pc := CNext i\<rparr>
         | (nm, sz) # rest \<Rightarrow>
             if j_pause (sys_job s) \<or> j_cancel (sys_job s) then s\<lparr>c_pc := CNext i\<rparr>
             else let task = \<lparr>k_id = id_text ''tr'' millis (next_seq s), k_local = path_join (d_local parent) nm,
                              k_remote = remote_join (d_remote parent) nm, k_size = sz\<rparr>;
                      s' = s\<lparr>next_seq := next_seq s + 1\<rparr>
                  in if length (rd_queue s) \<ge> cap_ready caps \<or> list_all (\<lambda>w. w = WEnd) (workers s)
                     then s'\<lparr>c_pc := CNext i\<rparr>
                     else s'\<lparr>rd_queue := rd_queue s @ [task], c_pc := CAdd i,
                            c_held := (c_held s)[i := (parent, lanes\<lparr>l_files := rest\<rparr>)],
                            handed := handed s @ [(k_local task, k_remote task, sz)]\<rparr>)"

definition place_next :: "nat \<Rightarrow> job_sys \<Rightarrow> job_sys" where
  "place_next i s =
     (let (parent, lanes) = c_held s ! i
      in if l_files lanes = [] \<and> l_dirs lanes = []
         then s\<lparr>c_held := take i (c_held s) @ drop (Suc i) (c_held s), c_pc := CDirs i\<rparr>
         else s\<lparr>c_pc := CDirs (Suc i)\<rparr>)"

definition launch :: "SchedulerCaps \<Rightarrow> job_sys \<Rightarrow> job_sys" where
  "launch caps s =
     (if in_flight s < cap_in_flight caps \<and> frontier s \<noteq> []
      then s\<lparr>frontier := tl (frontier s), in_flight := in_flight s + 1, ops := ops s @ [OpScan (hd (frontier s))]\<rparr>
      else s\<lparr>c_pc := CTest\<rparr>)"

definition scan_over :: "job_sys \<Rightarrow> bool" where
  "scan_over s \<longleftrightarrow> frontier s = [] \<and> c_held s = [] \<and> in_flight s = 0 \<and> page s = []"

definition coord_step :: "SchedulerCaps \<Rightarrow> nat \<Rightarrow> job_sys \<Rightarrow> job_sys option" where
  "coord_step caps millis s =
     (case c_pc s of
        CTop \<Rightarrow> Some (if j_cancel (sys_job s) then s\<lparr>c_pc := CClose\<rparr> else s\<lparr>c_pc := CDirs 0\<rparr>)
      | CDirs i \<Rightarrow> Some (place_dir caps i s)
      | CFiles i \<Rightarrow> Some (place_file caps millis i s)
      | CAdd i \<Rightarrow> Some (upd_job (\<lambda>j. j\<lparr>j_pending := j_pending j + 1\<rparr>) (s\<lparr>c_pc := CFiles i\<rparr>))
      | CNext i \<Rightarrow> Some (place_next i s)
      | CLaunch \<Rightarrow> Some (launch caps s)
      | CTest \<Rightarrow> Some (if scan_over s then s\<lparr>c_pc := CClose\<rparr> else s\<lparr>c_pc := CWait (j_wake (sys_job s))\<rparr>)
      | CWait n \<Rightarrow> Some (s\<lparr>c_pc := CTop\<rparr>)
      | CClose \<Rightarrow> Some (s\<lparr>rd_open := False, c_pc := CScanDone\<rparr>)
      | CScanDone \<Rightarrow> Some (upd_job (\<lambda>j. j\<lparr>j_scan_done := True\<rparr>) (s\<lparr>c_pc := CRefresh\<rparr>))
      | CRefresh \<Rightarrow> Some (upd_job refresh_phase (s\<lparr>c_pc := CCheck\<rparr>))
      | CCheck \<Rightarrow> Some (s\<lparr>jw := check_terminal (jw s), c_pc := CEnd\<rparr>)
      | CEnd \<Rightarrow> None)"

text \<open>The coordinator takes a message, unless it holds as many results as it may.\<close>

definition take_msg :: "SchedulerCaps \<Rightarrow> ScanMsg \<Rightarrow> job_sys \<Rightarrow> job_sys" where
  "take_msg caps m s =
     (case m of
        Listed parent lanes skipped \<Rightarrow>
          (let s = upd_job (\<lambda>j. j\<lparr>j_skipped := j_skipped j + skipped,
                     j_discovered_files := j_discovered_files j + of_nat (length (l_files lanes)),
                     j_discovered_bytes := j_discovered_bytes j + sum_list (map snd (l_files lanes))\<rparr>)
                   (s\<lparr>scan_skips := scan_skips s + skipped\<rparr>)
           in if l_files lanes \<noteq> [] \<or> l_dirs lanes \<noteq> [] then s\<lparr>c_held := c_held s @ [(parent, lanes)]\<rparr> else s)
      | DirFailed parent error \<Rightarrow>
          upd_job (record_failure (display_path (j_direction (sys_job s)) (d_local parent) (d_remote parent)) error (cap_failed caps))
            (s\<lparr>dir_failures := dir_failures s + 1\<rparr>))"

definition coord_recv :: "SchedulerCaps \<Rightarrow> job_sys \<Rightarrow> job_sys option" where
  "coord_recv caps s =
     (case (c_pc s, page s) of
        (CWait n, m # ms) \<Rightarrow>
          if length (c_held s) \<ge> cap_in_flight caps then None
          else Some (take_msg caps m (s\<lparr>page := ms, c_pc := CTop\<rparr>))
      | _ \<Rightarrow> None)"

subsection \<open>The scan operations\<close>

text \<open>\<open>send\<close> waits for room in the channel, whose capacity is the limit of operations in flight.\<close>

definition op_step :: "SchedulerCaps \<Rightarrow> nat \<Rightarrow> scan_answer \<Rightarrow> job_sys \<Rightarrow> job_sys option" where
  "op_step caps k ans s =
     (if k \<ge> length (ops s) then None
      else case ops s ! k of
             OpScan d \<Rightarrow>
               (case scan_msg (j_direction (sys_job s)) d ans of
                  None \<Rightarrow> None | Some m \<Rightarrow> Some (s\<lparr>ops := (ops s)[k := OpSend m]\<rparr>))
           | OpSend m \<Rightarrow>
               if length (page s) < cap_in_flight caps
               then Some (s\<lparr>ops := (ops s)[k := OpSent], page := page s @ [m]\<rparr>) else None
           | OpSent \<Rightarrow> Some (s\<lparr>ops := (ops s)[k := OpEnd], in_flight := in_flight s - 1\<rparr>)
           | OpEnd \<Rightarrow> None)"

subsection \<open>The workers\<close>

text \<open>
  The conflict test of a file: for an upload it probes the server through the data slot,
  for a download it asks the local file system. \<open>probe\<close> and \<open>ex\<close> are their answers.
\<close>

definition resolve_task ::
  "(string \<Rightarrow> (SftpError, bool) result) \<Rightarrow> (string \<Rightarrow> bool) \<Rightarrow> JobInner \<Rightarrow> TransferTask \<Rightarrow>
   (SftpError, (string \<times> string \<times> OnExists) option) result" where
  "resolve_task probe ex j k =
     (case j_direction j of
        Upload \<Rightarrow> (case resolve_remote probe (k_remote k) (j_policy j) of
                     Inl e \<Rightarrow> Err e
                   | Inr o' \<Rightarrow> Ok (map_option (\<lambda>(remote, mode). (k_local k, remote, mode)) o'))
      | Download \<Rightarrow> (case resolve_local ex (k_local k) (j_policy j) of
                       Inl e \<Rightarrow> Err e
                     | Inr o' \<Rightarrow> Ok (map_option (\<lambda>(local, mode). (local, k_remote k, mode)) o')))"

text \<open>\<open>run_task\<close> up to the executor; \<open>show_err\<close> renders the error.\<close>

definition start_task ::
  "SchedulerCaps \<Rightarrow> (SftpError \<Rightarrow> string) \<Rightarrow> (SftpError, (string \<times> string \<times> OnExists) option) result \<Rightarrow>
   nat \<Rightarrow> TransferTask \<Rightarrow> jobw \<Rightarrow> worker \<times> jobw" where
  "start_task caps show_err resolved idx k w =
     (case resolved of
        Inr (Some (local, remote, mode)) \<Rightarrow>
          (WExec \<lparr>f_idx = idx, f_task = k, f_local = local, f_remote = remote, f_mode = mode\<rparr> exec_start, w)
      | Inr None \<Rightarrow> (WSub, on_job (\<lambda>j. j\<lparr>j_skipped := j_skipped j + 1\<rparr>) w)
      | Inl e \<Rightarrow>
          (WSub, on_job (record_failure (display_path (j_direction (wj w)) (k_local k) (k_remote k)) (show_err e)
                          (cap_failed caps)) w))"

text \<open>What a worker meets: nothing in particular, a wake-up, the answers of a probe, an event of its executor.\<close>

datatype work_event =
    Go | Woken
  | Probed "string \<Rightarrow> (SftpError, bool) result" "string \<Rightarrow> bool" "SftpError \<Rightarrow> string"
  | Exec exec_event
  | Watch

definition set_worker :: "nat \<Rightarrow> worker \<Rightarrow> job_sys \<Rightarrow> job_sys" where
  "set_worker k w s = s\<lparr>workers := (workers s)[k := w]\<rparr>"

text \<open>The pieces of \<open>run\<close> between its waits.\<close>

definition worker_go :: "nat \<Rightarrow> job_sys \<Rightarrow> job_sys option" where
  "worker_go k s =
     (let j = sys_job s
      in case workers s ! k of
           WTop \<Rightarrow> Some (set_worker k (if j_cancel j then WLast else WUnpaused) s)
         | WUnpaused \<Rightarrow> Some (set_worker k (if j_pause j \<and> \<not> j_cancel j then WRegister else WSelect) s)
         | WRegister \<Rightarrow> Some (set_worker k (WPaused (j_wake j)) s)
         | WSelect \<Rightarrow> Some (set_worker k (WRecv (j_wake j)) s)
         | WRecv n \<Rightarrow>
             (case rd_queue s of
                t # ts \<Rightarrow> Some (set_worker k (WGot t) (s\<lparr>rd_queue := ts\<rparr>))
              | [] \<Rightarrow> if rd_open s then None else Some (set_worker k WLast s))
         | WGot t \<Rightarrow> Some (set_worker k (if j_cancel j then WLast else WResolve t) s)
         | WExec f x \<Rightarrow> (case x_pc x of XReturned st \<Rightarrow> Some (set_worker k WSub s) | _ \<Rightarrow> None)
         | WSub \<Rightarrow> Some (set_worker k WRefresh (upd_job (\<lambda>j. j\<lparr>j_pending := j_pending j - 1\<rparr>) s))
         | WRefresh \<Rightarrow> Some (set_worker k WCheck (upd_job refresh_phase s))
         | WCheck \<Rightarrow> Some (set_worker k WTop (s\<lparr>jw := check_terminal (jw s)\<rparr>))
         | WLast \<Rightarrow> Some (set_worker k WEnd (s\<lparr>jw := check_terminal (jw s)\<rparr>))
         | _ \<Rightarrow> None)"

text \<open>A registered waiter is woken by a \<open>notify_waiters\<close> after its registration.\<close>

definition worker_woken :: "nat \<Rightarrow> job_sys \<Rightarrow> job_sys option" where
  "worker_woken k s =
     (case workers s ! k of
        WPaused n \<Rightarrow> if n < j_wake (sys_job s) then Some (set_worker k WUnpaused s) else None
      | WRecv n \<Rightarrow> if n < j_wake (sys_job s) then Some (set_worker k WTop s) else None
      | _ \<Rightarrow> None)"

text \<open>The task that watches an attempt passes the flags of the job on when it is woken.\<close>

definition watch_step :: "nat \<Rightarrow> job_sys \<Rightarrow> job_sys option" where
  "watch_step k s =
     (case workers s ! k of
        WExec f x \<Rightarrow>
          (case x_guard x of
             Some (t, Some n) \<Rightarrow>
               if n < j_wake (sys_job s)
               then Some (set_worker k (WExec f (x\<lparr>x_guard :=
                      Some (signal (j_pause (sys_job s)) (j_cancel (sys_job s)) t,
                            if j_cancel (sys_job s) then None else Some (j_wake (sys_job s)))\<rparr>)) s)
               else None
           | _ \<Rightarrow> None)
      | _ \<Rightarrow> None)"

definition worker_step :: "SchedulerCaps \<Rightarrow> nat \<Rightarrow> work_event \<Rightarrow> job_sys \<Rightarrow> job_sys option" where
  "worker_step caps k ev s =
     (if k \<ge> length (workers s) then None
      else case ev of
             Go \<Rightarrow> worker_go k s
           | Woken \<Rightarrow> worker_woken k s
           | Watch \<Rightarrow> watch_step k s
           | Probed probe ex show_err \<Rightarrow>
               (case workers s ! k of
                  WResolve t \<Rightarrow>
                    (let (w, j) = start_task caps show_err (resolve_task probe ex (sys_job s) t) k t (jw s)
                     in Some (set_worker k w (s\<lparr>jw := j\<rparr>)))
                | _ \<Rightarrow> None)
           | Exec e \<Rightarrow>
               (case workers s ! k of
                  WExec f x \<Rightarrow>
                    (case exec_step (job_flow (cap_failed caps) f) e x (permits s, jw s) of
                       None \<Rightarrow> None
                     | Some (x', b, j) \<Rightarrow> Some (set_worker k (WExec f x') (s\<lparr>permits := b, jw := j\<rparr>)))
                | _ \<Rightarrow> None))"

subsection \<open>Commands and the whole system\<close>

datatype control = Pause | Unpause | Cancel

text \<open>\<open>cancel\<close> in its pieces; a second cancel is refused since the state is terminal.\<close>

definition control_step :: "control \<Rightarrow> job_sys \<Rightarrow> job_sys option" where
  "control_step c s =
     (case c of
        Pause \<Rightarrow> Some (upd_job set_pause s)
      | Unpause \<Rightarrow> Some (upd_job unset_pause s)
      | Cancel \<Rightarrow>
          (case cancel_at s of
             CancelFlag \<Rightarrow> Some (upd_job (\<lambda>j. j\<lparr>j_cancel := True\<rparr>) (s\<lparr>cancel_at := CancelUnpause\<rparr>))
           | CancelUnpause \<Rightarrow> Some (upd_job (\<lambda>j. j\<lparr>j_pause := False\<rparr>) (s\<lparr>cancel_at := CancelWake\<rparr>))
           | CancelWake \<Rightarrow> Some (upd_job notify_waiters (s\<lparr>cancel_at := CancelEmit\<rparr>))
           | CancelEmit \<Rightarrow> Some (s\<lparr>jw := emit_job_terminal (jw s), cancel_at := CancelEnd\<rparr>)
           | _ \<Rightarrow> (case cancel_mark (sys_job s) of
                     Inl _ \<Rightarrow> None
                   | Inr j \<Rightarrow> Some (upd_job (\<lambda>_. j) (s\<lparr>cancel_at := CancelFlag\<rparr>)))))"

datatype job_event =
    Coord nat | Receive | Op nat scan_answer | Work nat work_event | Control control
  | Budget_moves Budget | Seq_moves u64

text \<open>Other transfers share the permits, and other jobs the identifiers.\<close>

definition job_event_step :: "SchedulerCaps \<Rightarrow> job_event \<Rightarrow> job_sys \<Rightarrow> job_sys option" where
  "job_event_step caps ev s =
     (case ev of
        Coord millis \<Rightarrow> coord_step caps millis s
      | Receive \<Rightarrow> coord_recv caps s
      | Op k ans \<Rightarrow> op_step caps k ans s
      | Work k e \<Rightarrow> worker_step caps k e s
      | Control c \<Rightarrow> control_step c s
      | Budget_moves b \<Rightarrow> Some (s\<lparr>permits := b\<rparr>)
      | Seq_moves n \<Rightarrow> Some (s\<lparr>next_seq := n\<rparr>))"

inductive job_step :: "SchedulerCaps \<Rightarrow> job_sys \<Rightarrow> job_sys \<Rightarrow> bool" for caps :: SchedulerCaps where
  j_event: "job_event_step caps ev s = Some t \<Longrightarrow> job_step caps s t"

definition job_init :: "job_sys \<Rightarrow> bool" where
  "job_init s \<longleftrightarrow> (\<exists>i spec fcb jcb b n. s = job_sys_new i spec fcb jcb b n)"

fun job_run :: "SchedulerCaps \<Rightarrow> job_event list \<Rightarrow> job_sys \<Rightarrow> job_sys option" where
  "job_run caps [] s = Some s"
| "job_run caps (ev # evs) s =
     (case job_event_step caps ev s of None \<Rightarrow> None | Some t \<Rightarrow> job_run caps evs t)"

lemma job_run_steps: "job_run caps evs s = Some t \<Longrightarrow> (job_step caps)\<^sup>*\<^sup>* s t"
proof (induction evs arbitrary: s)
  case (Cons ev evs)
  then obtain u where "job_event_step caps ev s = Some u" "job_run caps evs u = Some t"
    by (auto split: option.splits)
  with Cons.IH show ?case by (meson converse_rtranclp_into_rtranclp j_event)
qed simp

section \<open>Facts about the pieces\<close>

definition returned :: "'g exec \<Rightarrow> bool" where
  "returned x \<longleftrightarrow> (case x_pc x of XReturned _ \<Rightarrow> True | _ \<Rightarrow> False)"

text \<open>What the accounting of a job adds up: the files that reached an end, one way or another.\<close>

definition tally :: "JobInner \<Rightarrow> u64" where
  "tally j = j_completed_files j + j_failed_files j + j_skipped j"

definition same_control :: "JobInner \<Rightarrow> JobInner \<Rightarrow> bool" where
  "same_control j j' \<longleftrightarrow>
     j_state j' = j_state j \<and> j_error j' = j_error j \<and> j_pause j' = j_pause j \<and> j_cancel j' = j_cancel j \<and>
     j_scan_done j' = j_scan_done j \<and> j_wake j' = j_wake j \<and> j_pending j' = j_pending j \<and>
     j_discovered_files j' = j_discovered_files j \<and> j_direction j' = j_direction j"

lemma record_failure_facts [simp]:
  "same_control j (record_failure p e c j)" "tally (record_failure p e c j) = tally j + 1"
  by (auto simp: record_failure_def same_control_def tally_def Let_def)

lemma worker_report_job [simp]:
  "wj (worker_report k b st e w) = wj w" "job_log (worker_report k b st e w) = job_log w"
  "job_cb (worker_report k b st e w) = job_cb w"
  by (auto simp: worker_report_def emit_file_terminal_def)

lemma guard_drop_facts [simp]:
  "same_control (wj w) (wj (guard_drop i w))" "tally (wj (guard_drop i w)) = tally (wj w)"
  "job_log (guard_drop i w) = job_log w" "job_cb (guard_drop i w) = job_cb w"
  by (auto simp: guard_drop_def same_control_def tally_def)

lemma job_prepare_facts [simp]:
  "same_control (wj w) (wj (snd (job_prepare f n w)))" "tally (wj (snd (job_prepare f n w))) = tally (wj w)"
  "job_log (snd (job_prepare f n w)) = job_log w" "job_cb (snd (job_prepare f n w)) = job_cb w"
  by (auto simp: job_prepare_def same_control_def tally_def Let_def)

lemma job_report_facts:
  "same_control (wj w) (wj (job_report c f r w))"
  "tally (wj (job_report c f r w)) = tally (wj w) + (if r_kind r \<in> {AttDone, AttFailed} then 1 else 0)"
  "job_log (job_report c f r w) = job_log w" "job_cb (job_report c f r w) = job_cb w"
  by (auto simp: job_report_def guard_drop_def record_failure_def same_control_def tally_def Let_def
      split: AttemptEnd.splits option.splits)

lemma same_control_refl [simp]: "same_control j j"
  by (simp add: same_control_def)

text \<open>
  One step of the executor under the hooks of a job: only the tally moves, by one exactly
  when the file ends in another state than \<open>Canceled\<close>, which needs a canceled job.
\<close>

lemma exec_job:
  assumes "exec_step (job_flow c f) ev x (b, w) = Some (x', b', w')"
  shows "same_control (wj w) (wj w')" "job_log w' = job_log w" "job_cb w' = job_cb w" "\<not> returned x"
    "j_cancel (wj w) \<or> tally (wj w') = tally (wj w) + (if returned x' then 1 else 0)"
proof -
  have *: "same_control (wj w) (wj w') \<and> job_log w' = job_log w \<and> job_cb w' = job_cb w \<and> \<not> returned x \<and>
    (j_cancel (wj w) \<or> tally (wj w') = tally (wj w) + (if returned x' then 1 else 0))"
  proof (cases ev)
    case Advance
    have p: "job_prepare f n w = (g, w1) \<Longrightarrow> same_control (wj w) (wj w1) \<and> tally (wj w1) = tally (wj w) \<and>
        job_log w1 = job_log w \<and> job_cb w1 = job_cb w" for n g w1
      using job_prepare_facts [where w = w and f = f and n = n] by simp
    from Advance assms show ?thesis
      by (auto simp: exec_top_def exec_check_def job_flow_def returned_def Let_def dest: p
          split: exec_pc.splits if_splits option.splits prod.splits)
  next
    case (Result bytes res)
    with assms have "x_pc x = XTransfer" "exec_result (job_flow c f) bytes res x (b, w) = (x', b', w')"
      by (auto split: if_splits)
    then show ?thesis
      by (auto simp: exec_result_def exec_failed_def job_flow_def returned_def Let_def job_report_facts
          split: option.splits if_splits)
  qed
  then show "same_control (wj w) (wj w')" "job_log w' = job_log w" "job_cb w' = job_cb w" "\<not> returned x"
    "j_cancel (wj w) \<or> tally (wj w') = tally (wj w) + (if returned x' then 1 else 0)" by blast+
qed

lemma check_terminal_fields [simp]:
  "j_pending (wj (check_terminal w)) = j_pending (wj w)" "j_cancel (wj (check_terminal w)) = j_cancel (wj w)"
  "j_pause (wj (check_terminal w)) = j_pause (wj w)" "j_scan_done (wj (check_terminal w)) = j_scan_done (wj w)"
  "j_wake (wj (check_terminal w)) = j_wake (wj w)" "j_error (wj (check_terminal w)) = j_error (wj w)"
  "j_discovered_files (wj (check_terminal w)) = j_discovered_files (wj w)"
  "j_direction (wj (check_terminal w)) = j_direction (wj w)"
  "tally (wj (check_terminal w)) = tally (wj w)" "job_cb (check_terminal w) = job_cb w"
  by (auto simp: check_terminal_def emit_job_terminal_def tally_def Let_def)

lemma refresh_phase_fields [simp]:
  "j_pending (refresh_phase j) = j_pending j" "j_cancel (refresh_phase j) = j_cancel j"
  "j_pause (refresh_phase j) = j_pause j" "j_scan_done (refresh_phase j) = j_scan_done j"
  "j_wake (refresh_phase j) = j_wake j" "j_error (refresh_phase j) = j_error j"
  "j_discovered_files (refresh_phase j) = j_discovered_files j" "j_direction (refresh_phase j) = j_direction j"
  "tally (refresh_phase j) = tally j"
  by (auto simp: refresh_phase_def tally_def Let_def)

lemma refresh_phase_state:
  "job_terminal (j_state (refresh_phase j)) \<longleftrightarrow> job_terminal (j_state j)"
  "job_terminal (j_state j) \<Longrightarrow> j_state (refresh_phase j) = j_state j"
  by (auto simp: refresh_phase_def job_terminal_def Let_def)

lemma check_terminal_state:
  "j_state (wj (check_terminal w)) =
     (if j_scan_done (wj w) \<and> j_pending (wj w) = 0 \<and> j_active (wj w) = 0 \<and> \<not> job_terminal (j_state (wj w))
      then if j_error (wj w) \<noteq> None then JobFailed else JobCompleted else j_state (wj w))"
  "length (job_log (check_terminal w)) = length (job_log w) +
     (if j_scan_done (wj w) \<and> j_pending (wj w) = 0 \<and> j_active (wj w) = 0 \<and> \<not> job_terminal (j_state (wj w)) \<and> job_cb w
      then 1 else 0)"
  by (auto simp: check_terminal_def emit_job_terminal_def Let_def)

end
