(* ===== verification/Sftp_Scan.thy ===== *)
theory Sftp_Scan
  imports Sftp_Job
begin

text \<open>
  What the directory jobs of \<open>Sftp_Job\<close> guarantee: the accounting of a job in every
  interleaving of its tasks, and the one report of its end.
\<close>

section \<open>The invariant\<close>

definition scan_ended :: "coord_pc \<Rightarrow> bool" where
  "scan_ended pc \<longleftrightarrow> pc \<in> {CClose, CScanDone, CRefresh, CCheck, CEnd}"

definition cancel_inv :: "job_sys \<Rightarrow> bool" where
  "cancel_inv s \<longleftrightarrow>
     (j_cancel (sys_job s) \<longleftrightarrow> cancel_at s \<in> {CancelUnpause, CancelWake, CancelEmit, CancelEnd}) \<and>
     (j_state (sys_job s) = JobCanceled \<longleftrightarrow> cancel_at s \<noteq> NoCancel) \<and> j_error (sys_job s) = None"

definition live_ops :: "job_sys \<Rightarrow> nat" where
  "live_ops s = length (filter (\<lambda>p. p \<noteq> OpEnd) (ops s))"

definition pos_ok :: "coord_pc \<Rightarrow> nat \<Rightarrow> bool" where
  "pos_ok pc n \<longleftrightarrow> (case pc of CFiles i \<Rightarrow> i < n | CAdd i \<Rightarrow> i < n | CNext i \<Rightarrow> i < n | _ \<Rightarrow> True)"

definition scan_inv :: "SchedulerCaps \<Rightarrow> job_sys \<Rightarrow> bool" where
  "scan_inv caps s \<longleftrightarrow>
     in_flight s = live_ops s \<and> pos_ok (c_pc s) (length (c_held s)) \<and>
     (j_scan_done (sys_job s) \<longleftrightarrow> c_pc s \<in> {CRefresh, CCheck, CEnd}) \<and>
     (scan_ended (c_pc s) \<and> \<not> j_cancel (sys_job s) \<longrightarrow> scan_over s) \<and>
     length (rd_queue s) \<le> cap_ready caps \<and> length (workers s) = WORKERS"

definition has_task :: "worker \<Rightarrow> bool" where
  "has_task w \<longleftrightarrow> (case w of WGot _ \<Rightarrow> True | WResolve _ \<Rightarrow> True | WExec _ _ \<Rightarrow> True | WSub \<Rightarrow> True | _ \<Rightarrow> False)"

definition unsettled :: "worker \<Rightarrow> bool" where
  "unsettled w \<longleftrightarrow> (case w of WGot _ \<Rightarrow> True | WResolve _ \<Rightarrow> True | WExec _ x \<Rightarrow> \<not> returned x | _ \<Rightarrow> False)"

text \<open>Tasks that are queued or with a worker, and files that are not settled yet.\<close>

definition live_tasks :: "job_sys \<Rightarrow> nat" where
  "live_tasks s = length (rd_queue s) + length (filter has_task (workers s))"

definition held_files :: "job_sys \<Rightarrow> nat" where
  "held_files s = sum_list (map (\<lambda>(_, l). length (l_files l)) (c_held s))"

definition open_files :: "job_sys \<Rightarrow> nat" where
  "open_files s = length (rd_queue s) + length (filter unsettled (workers s)) + held_files s"

definition adding :: "coord_pc \<Rightarrow> u64" where
  "adding pc = (case pc of CAdd _ \<Rightarrow> 1 | _ \<Rightarrow> 0)"

definition count_inv :: "job_sys \<Rightarrow> bool" where
  "count_inv s \<longleftrightarrow>
     (\<not> j_cancel (sys_job s) \<longrightarrow>
        j_pending (sys_job s) + adding (c_pc s) = of_nat (live_tasks s) \<and>
        tally (sys_job s) + of_nat (open_files s) = j_discovered_files (sys_job s) + dir_failures s + scan_skips s)"

definition log_inv :: "job_sys \<Rightarrow> bool" where
  "log_inv s \<longleftrightarrow>
     length (job_log (jw s)) =
       (if job_cb (jw s) \<and> job_terminal (j_state (sys_job s)) \<and>
           cancel_at s \<notin> {CancelFlag, CancelUnpause, CancelWake, CancelEmit} then 1 else 0)"

text \<open>The counter of pending tasks is exact while the queue and the workers cannot hold \<open>2 ^ 64\<close> tasks.\<close>

definition ready_bound :: "SchedulerCaps \<Rightarrow> bool" where
  "ready_bound caps \<longleftrightarrow> cap_ready caps + WORKERS < 2 ^ 64"

definition end_inv :: "SchedulerCaps \<Rightarrow> job_sys \<Rightarrow> bool" where
  "end_inv caps s \<longleftrightarrow>
     (j_state (sys_job s) = JobCompleted \<longrightarrow> j_scan_done (sys_job s) \<and> (ready_bound caps \<longrightarrow> live_tasks s = 0)) \<and>
     j_state (sys_job s) \<noteq> JobFailed"

definition job_inv :: "SchedulerCaps \<Rightarrow> job_sys \<Rightarrow> bool" where
  "job_inv caps s \<longleftrightarrow> cancel_inv s \<and> scan_inv caps s \<and> count_inv s \<and> log_inv s \<and> end_inv caps s"

lemmas job_inv_defs = job_inv_def cancel_inv_def scan_inv_def count_inv_def log_inv_def end_inv_def

lemma sum_list_map_update:
  fixes g :: "'a \<Rightarrow> 'b::comm_monoid_add"
  shows "k < length xs \<Longrightarrow> sum_list (map g (xs[k := y])) + g (xs ! k) = sum_list (map g xs) + g y"
proof (induction xs arbitrary: k)
  case (Cons x xs)
  then show ?case by (cases k) (auto simp: ac_simps)
qed simp

lemma sum_list_map_remove:
  fixes g :: "'a \<Rightarrow> 'b::comm_monoid_add"
  shows "k < length xs \<Longrightarrow> sum_list (map g (take k xs @ drop (Suc k) xs)) + g (xs ! k) = sum_list (map g xs)"
proof (induction xs arbitrary: k)
  case (Cons x xs)
  then show ?case by (cases k) (auto simp: ac_simps)
qed simp

section \<open>The coordinator keeps it\<close>

lemma upd_job_facts [simp]:
  "held_files (s\<lparr>jw := w\<rparr>) = held_files s" "live_tasks (s\<lparr>jw := w\<rparr>) = live_tasks s"
  "open_files (s\<lparr>jw := w\<rparr>) = open_files s" "live_ops (s\<lparr>jw := w\<rparr>) = live_ops s"
  "held_files (s\<lparr>c_pc := p\<rparr>) = held_files s" "live_tasks (s\<lparr>c_pc := p\<rparr>) = live_tasks s"
  "open_files (s\<lparr>c_pc := p\<rparr>) = open_files s" "live_ops (s\<lparr>c_pc := p\<rparr>) = live_ops s"
  "scan_over (s\<lparr>jw := w\<rparr>) = scan_over s" "scan_over (s\<lparr>c_pc := p\<rparr>) = scan_over s"
  by (simp_all add: held_files_def live_tasks_def open_files_def live_ops_def scan_over_def)

lemma job_inv_init: "job_init s \<Longrightarrow> job_inv caps s"
  by (auto simp: job_init_def job_sys_new_def job_new_def job_inv_defs live_ops_def pos_ok_def scan_ended_def
      live_tasks_def has_task_def open_files_def unsettled_def held_files_def adding_def tally_def job_terminal_def
      WORKERS_def)

lemma place_dir_cases:
  obtains (stop) "place_dir caps i s = s\<lparr>c_pc := CLaunch\<rparr>"
  | (files) "i < length (c_held s)" "place_dir caps i s = s\<lparr>c_pc := CFiles i\<rparr>"
  | (skip) p l nm r where "i < length (c_held s)" "c_held s ! i = (p, l)" "l_dirs l = nm # r"
      "place_dir caps i s = skip_one (s\<lparr>c_held := (c_held s)[i := (p, l\<lparr>l_dirs := r\<rparr>)]\<rparr>)"
      "too_deep caps p \<or> too_long (child_of p nm)"
  | (child) p l nm r where "i < length (c_held s)" "c_held s ! i = (p, l)" "l_dirs l = nm # r"
      "place_dir caps i s =
         s\<lparr>c_held := (c_held s)[i := (p, l\<lparr>l_dirs := r\<rparr>)], frontier := frontier s @ [child_of p nm]\<rparr>"
      "\<not> too_deep caps p" "\<not> too_long (child_of p nm)"
proof -
  obtain p l where pl: "c_held s ! i = (p, l)" by fastforce
  show thesis
  proof (cases "i < length (c_held s)")
    case False
    then show thesis by (intro stop) (simp add: place_dir_def)
  next
    case True
    show thesis
    proof (cases "l_dirs l")
      case Nil
      with True pl show thesis by (intro files) (simp_all add: place_dir_def)
    next
      case (Cons nm r)
      with True pl show thesis
        by (cases "cap_frontier caps \<le> length (frontier s)"; cases "too_deep caps p"; cases "too_long (child_of p nm)")
          (auto simp: place_dir_def Let_def intro: files skip child)
    qed
  qed
qed

lemma held_files_upd:
  assumes "i < length (c_held s)" "c_held s ! i = (p, l)"
  shows "sum_list (map (\<lambda>(_, l). length (l_files l)) ((c_held s)[i := (p, l')])) + length (l_files l) =
    held_files s + length (l_files l')"
  using sum_list_map_update [OF assms(1), of "\<lambda>(_, l). length (l_files l)" "(p, l')"] assms(2)
  by (simp add: held_files_def)

lemmas inv_views = scan_over_def live_ops_def live_tasks_def open_files_def held_files_def

lemma place_dir_inv:
  assumes inv: "job_inv caps s" and pc: "c_pc s = CDirs i"
  shows "job_inv caps (place_dir caps i s)"
proof (cases caps i s rule: place_dir_cases)
  case stop
  with inv pc show ?thesis by (simp add: job_inv_defs pos_ok_def scan_ended_def adding_def cong: conj_cong)
next
  case files
  with inv pc show ?thesis by (simp add: job_inv_defs pos_ok_def scan_ended_def adding_def cong: conj_cong)
next
  case (skip p l nm r)
  note upd = held_files_upd [OF skip(1,2), of "l\<lparr>l_dirs := r\<rparr>"]
  then have h: "held_files (skip_one (s\<lparr>c_held := (c_held s)[i := (p, l\<lparr>l_dirs := r\<rparr>)]\<rparr>)) = held_files s"
    by (simp add: skip_one_def held_files_def)
  with inv pc skip(4) show ?thesis
    unfolding skip_one_def by (simp add: job_inv_defs pos_ok_def scan_ended_def adding_def live_ops_def live_tasks_def open_files_def
        tally_def ac_simps cong: conj_cong)
next
  case (child p l nm r)
  note upd = held_files_upd [OF child(1,2), of "l\<lparr>l_dirs := r\<rparr>"]
  with inv pc child(4) show ?thesis
    by (simp add: job_inv_defs pos_ok_def scan_ended_def adding_def inv_views tally_def cong: conj_cong)
qed

lemma place_file_cases:
  obtains (wait) n where "place_file caps millis i s = s\<lparr>next_seq := n, c_pc := CNext i\<rparr>"
  | (send) p l nm sz r k where "c_held s ! i = (p, l)" "l_files l = (nm, sz) # r"
      "k_local k = path_join (d_local p) nm" "k_remote k = remote_join (d_remote p) nm" "k_size k = sz"
      "length (rd_queue s) < cap_ready caps" "\<not> list_all (\<lambda>w. w = WEnd) (workers s)"
      "\<not> j_pause (sys_job s)" "\<not> j_cancel (sys_job s)"
      "place_file caps millis i s =
         s\<lparr>next_seq := next_seq s + 1, rd_queue := rd_queue s @ [k], c_pc := CAdd i,
           c_held := (c_held s)[i := (p, l\<lparr>l_files := r\<rparr>)],
           handed := handed s @ [(path_join (d_local p) nm, remote_join (d_remote p) nm, sz)]\<rparr>"
proof -
  obtain p l where pl: "c_held s ! i = (p, l)" by fastforce
  show thesis
  proof (cases "l_files l")
    case Nil
    with pl show thesis by (intro wait [of "next_seq s"]) (simp add: place_file_def)
  next
    case (Cons f r)
    obtain nm sz where f: "f = (nm, sz)" by fastforce
    let ?k = "\<lparr>k_id = id_text ''tr'' millis (next_seq s), k_local = path_join (d_local p) nm,
      k_remote = remote_join (d_remote p) nm, k_size = sz\<rparr>"
    consider "j_pause (sys_job s) \<or> j_cancel (sys_job s)"
      | "\<not> (j_pause (sys_job s) \<or> j_cancel (sys_job s))"
        "cap_ready caps \<le> length (rd_queue s) \<or> list_all (\<lambda>w. w = WEnd) (workers s)"
      | "\<not> j_pause (sys_job s)" "\<not> j_cancel (sys_job s)" "length (rd_queue s) < cap_ready caps"
        "\<not> list_all (\<lambda>w. w = WEnd) (workers s)"
      by force
    then show thesis
    proof cases
      case 1
      with Cons pl f show thesis by (intro wait [of "next_seq s"]) (simp add: place_file_def)
    next
      case 2
      with Cons pl f show thesis by (intro wait [of "next_seq s + 1"]) (simp add: place_file_def Let_def)
    next
      case 3
      with Cons pl f show thesis by (intro send [of p l nm sz r ?k]) (simp_all add: place_file_def Let_def)
    qed
  qed
qed

lemma place_file_inv:
  assumes inv: "job_inv caps s" and pc: "c_pc s = CFiles i"
  shows "job_inv caps (place_file caps millis i s)"
proof (cases caps millis i s rule: place_file_cases)
  case (wait n)
  with inv pc show ?thesis
    by (simp add: job_inv_defs pos_ok_def scan_ended_def adding_def inv_views cong: conj_cong)
next
  case (send p l nm sz r k)
  from inv pc have i: "i < length (c_held s)" by (simp add: job_inv_defs pos_ok_def)
  note upd = held_files_upd [OF i send(1), of "l\<lparr>l_files := r\<rparr>"]
  have "Suc (sum_list (map (\<lambda>(_, l). length (l_files l)) ((c_held s)[i := (p, l\<lparr>l_files := r\<rparr>)]))) = held_files s"
    using upd send(2) by simp
  then have held: "sum_list (map (\<lambda>(_, l). length (l_files l)) (c_held s)) =
      Suc (sum_list (map (\<lambda>(_, l). length (l_files l)) ((c_held s)[i := (p, l\<lparr>l_files := r\<rparr>)])))"
    by (simp add: held_files_def)
  show ?thesis
    using inv pc send(6) unfolding send(10)
    by (simp add: job_inv_defs pos_ok_def scan_ended_def adding_def inv_views held ac_simps cong: conj_cong)
qed

lemma place_next_inv:
  assumes inv: "job_inv caps s" and pc: "c_pc s = CNext i"
  shows "job_inv caps (place_next i s)"
proof -
  obtain p l where pl: "c_held s ! i = (p, l)" by fastforce
  from inv pc have i: "i < length (c_held s)" by (simp add: job_inv_defs pos_ok_def)
  have held: "sum_list (map (\<lambda>(_, l). length (l_files l)) (c_held s)) =
      sum_list (map (\<lambda>(_, l). length (l_files l)) (take i (c_held s) @ drop (Suc i) (c_held s)))"
    if "l_files l = []"
    using sum_list_map_remove [OF i, of "\<lambda>(_, l). length (l_files l)"] pl that by simp
  show ?thesis
  proof (cases "l_files l = [] \<and> l_dirs l = []")
    case True
    then have t: "place_next i s = s\<lparr>c_held := take i (c_held s) @ drop (Suc i) (c_held s), c_pc := CDirs i\<rparr>"
      using pl by (simp add: place_next_def)
    from inv pc True show ?thesis
      unfolding t
      by (simp add: job_inv_defs pos_ok_def scan_ended_def adding_def inv_views held ac_simps del: map_append sum_list_append cong: conj_cong)
  next
    case False
    then have t: "place_next i s = s\<lparr>c_pc := CDirs (Suc i)\<rparr>" using pl by (auto simp: place_next_def)
    from inv pc show ?thesis
      unfolding t by (simp add: job_inv_defs pos_ok_def scan_ended_def adding_def cong: conj_cong)
  qed
qed

lemma launch_inv:
  assumes inv: "job_inv caps s" and pc: "c_pc s = CLaunch"
  shows "job_inv caps (launch caps s)"
proof (cases "in_flight s < cap_in_flight caps \<and> frontier s \<noteq> []")
  case True
  then have t: "launch caps s = s\<lparr>frontier := tl (frontier s), in_flight := in_flight s + 1, ops := ops s @ [OpScan (hd (frontier s))]\<rparr>"
    by (simp add: launch_def)
  from inv pc show ?thesis
    unfolding t by (simp add: job_inv_defs pos_ok_def scan_ended_def adding_def inv_views cong: conj_cong)
next
  case False
  then have t: "launch caps s = s\<lparr>c_pc := CTest\<rparr>" by (auto simp: launch_def)
  from inv pc show ?thesis
    unfolding t by (simp add: job_inv_defs pos_ok_def scan_ended_def adding_def cong: conj_cong)
qed

lemma live_bound:
  assumes "scan_inv caps s" "ready_bound caps"
  shows "live_tasks s < 2 ^ 64"
proof -
  have "length (filter has_task (workers s)) \<le> WORKERS"
    using assms(1) by (metis length_filter_le scan_inv_def)
  with assms show ?thesis by (simp add: live_tasks_def scan_inv_def ready_bound_def)
qed

lemma check_inv:
  assumes inv: "job_inv caps s"
  shows "job_inv caps (s\<lparr>jw := check_terminal (jw s)\<rparr>)"
proof (cases "j_scan_done (sys_job s) \<and> j_pending (sys_job s) = 0 \<and> j_active (sys_job s) = 0 \<and> \<not> job_terminal (j_state (sys_job s))")
  case False
  then have "check_terminal (jw s) = jw s" by (auto simp: check_terminal_def Let_def)
  with inv show ?thesis by simp
next
  case True
  with inv have nc: "\<not> j_cancel (sys_job s)" "cancel_at s = NoCancel" "adding (c_pc s) = 0"
    by (auto simp: job_inv_defs job_terminal_def adding_def split: coord_pc.splits)
  then have "of_nat (live_tasks s) = (0 :: u64)" using inv True by (simp add: job_inv_defs)
  then have live: "live_tasks s = 0" if "ready_bound caps"
  proof -
    have "scan_inv caps s" using inv by (simp add: job_inv_def)
    then have "live_tasks s < 2 ^ 64" using that by (rule live_bound)
    with \<open>of_nat (live_tasks s) = (0 :: u64)\<close> show ?thesis
      by (auto simp: word_of_nat_eq_0_iff dest: dvd_imp_le)
  qed
  from inv True nc live show ?thesis
    by (simp add: job_inv_defs check_terminal_state job_terminal_def)
qed

lemma refresh_phase_ends:
  "j_state (refresh_phase j) = JobCanceled \<longleftrightarrow> j_state j = JobCanceled"
  "j_state (refresh_phase j) = JobCompleted \<longleftrightarrow> j_state j = JobCompleted"
  "j_state (refresh_phase j) = JobFailed \<longleftrightarrow> j_state j = JobFailed"
  by (auto simp: refresh_phase_def job_terminal_def Let_def)

lemma pc_inv:
  assumes "job_inv caps s" "pos_ok p (length (c_held s))" "adding p = adding (c_pc s)"
    "scan_ended p \<Longrightarrow> scan_ended (c_pc s) \<or> j_cancel (sys_job s) \<or> scan_over s"
    "p \<in> {CRefresh, CCheck, CEnd} \<longleftrightarrow> c_pc s \<in> {CRefresh, CCheck, CEnd}"
  shows "job_inv caps (s\<lparr>c_pc := p\<rparr>)"
proof -
  have "scan_inv caps (s\<lparr>c_pc := p\<rparr>)"
    using assms(1,2,4,5) unfolding job_inv_def scan_inv_def by auto
  with assms(1,3) show ?thesis
    by (simp add: job_inv_def cancel_inv_def count_inv_def log_inv_def end_inv_def)
qed

lemma coord_step_inv:
  assumes "job_inv caps s" "coord_step caps millis s = Some t"
  shows "job_inv caps t"
proof (cases "c_pc s")
  case (CDirs i)
  with assms place_dir_inv show ?thesis by (auto simp: coord_step_def)
next
  case (CFiles i)
  with assms place_file_inv show ?thesis by (auto simp: coord_step_def)
next
  case (CNext i)
  with assms place_next_inv show ?thesis by (auto simp: coord_step_def)
next
  case CLaunch
  with assms launch_inv show ?thesis by (auto simp: coord_step_def)
next
  case CCheck
  with assms(2) have t: "t = (s\<lparr>jw := check_terminal (jw s)\<rparr>)\<lparr>c_pc := CEnd\<rparr>" by (simp add: coord_step_def)
  have "job_inv caps (s\<lparr>jw := check_terminal (jw s)\<rparr>)" by (rule check_inv [OF assms(1)])
  with CCheck show ?thesis
    unfolding t by (simp add: job_inv_defs pos_ok_def scan_ended_def adding_def cong: conj_cong)
next
  case CTop
  then show ?thesis
    using assms pc_inv [of caps s CClose] pc_inv [of caps s "CDirs 0"]
    by (auto simp: coord_step_def pos_ok_def adding_def scan_ended_def split: if_splits)
next
  case CTest
  then show ?thesis
    using assms pc_inv [of caps s CClose] pc_inv [of caps s "CWait (j_wake (sys_job s))"]
    by (auto simp: coord_step_def pos_ok_def adding_def scan_ended_def split: if_splits)
next
  case (CAdd i)
  with assms(2) have t: "t = upd_job (\<lambda>j. j\<lparr>j_pending := j_pending j + 1\<rparr>) (s\<lparr>c_pc := CFiles i\<rparr>)" by (simp add: coord_step_def)
  from assms(1) CAdd show ?thesis
    unfolding t by (simp add: job_inv_defs pos_ok_def scan_ended_def adding_def tally_def ac_simps cong: conj_cong)
next
  case (CWait n)
  then show ?thesis
    using assms pc_inv [of caps s CTop] by (auto simp: coord_step_def pos_ok_def adding_def scan_ended_def)
next
  case CClose
  with assms(2) have t: "t = s\<lparr>rd_open := False, c_pc := CScanDone\<rparr>" by (simp add: coord_step_def)
  from assms(1) CClose show ?thesis
    unfolding t by (simp add: job_inv_defs pos_ok_def scan_ended_def adding_def inv_views cong: conj_cong)
next
  case CScanDone
  with assms(2) have t: "t = upd_job (\<lambda>j. j\<lparr>j_scan_done := True\<rparr>) (s\<lparr>c_pc := CRefresh\<rparr>)" by (simp add: coord_step_def)
  from assms(1) CScanDone show ?thesis
    unfolding t by (simp add: job_inv_defs pos_ok_def scan_ended_def adding_def tally_def cong: conj_cong)
next
  case CRefresh
  with assms(2) have t: "t = upd_job refresh_phase (s\<lparr>c_pc := CCheck\<rparr>)" by (simp add: coord_step_def)
  from assms(1) CRefresh show ?thesis
    unfolding t by (simp add: job_inv_defs pos_ok_def scan_ended_def adding_def refresh_phase_state(1) refresh_phase_ends cong: conj_cong)
next
  case CEnd
  with assms show ?thesis by (simp add: coord_step_def)
qed

lemma coord_recv_inv:
  assumes inv: "job_inv caps s" and step: "coord_recv caps s = Some t"
  shows "job_inv caps t"
proof -
  from step obtain n m ms where s: "c_pc s = CWait n" "page s = m # ms" "length (c_held s) < cap_in_flight caps"
    and t: "t = take_msg caps m (s\<lparr>page := ms, c_pc := CTop\<rparr>)"
    by (auto simp: coord_recv_def split: coord_pc.splits list.splits if_splits)
  have fail: "tally (record_failure a b c j) = tally j + 1" "same_control j (record_failure a b c j)" for a b c j
    by simp_all
  show ?thesis
  proof (cases m)
    case (DirFailed d e)
    with inv s fail show ?thesis
      unfolding t by (simp add: take_msg_def job_inv_defs pos_ok_def scan_ended_def adding_def inv_views same_control_def
          ac_simps cong: conj_cong)
  next
    case (Listed d l k)
    with inv s show ?thesis
      unfolding t by (cases "l_files l \<noteq> [] \<or> l_dirs l \<noteq> []")
        (simp_all add: take_msg_def job_inv_defs pos_ok_def scan_ended_def adding_def inv_views tally_def Let_def
          ac_simps cong: conj_cong)
  qed
qed

section \<open>The scan operations keep it\<close>

lemma op_step_inv:
  assumes inv: "job_inv caps s" and step: "op_step caps k ans s = Some t"
  shows "job_inv caps t"
proof -
  have k: "k < length (ops s)" using step by (auto simp: op_step_def split: if_splits)
  note count = length_filter_update [OF k, of "\<lambda>p. p \<noteq> OpEnd"]
  have live: "in_flight s = live_ops s" "scan_ended (c_pc s) \<Longrightarrow> \<not> j_cancel (sys_job s) \<Longrightarrow> live_ops s = 0"
    using inv by (auto simp: job_inv_defs scan_over_def)
  have pos: "live_ops s > 0" if "ops s ! k \<noteq> OpEnd"
    using k that nth_mem by (fastforce simp: live_ops_def filter_empty_conv)
  have keep: "job_inv caps u"
    if "u = s\<lparr>ops := (ops s)[k := q], page := pg, in_flight := n\<rparr>" "ops s ! k \<noteq> OpEnd"
      "n = length (filter (\<lambda>p. p \<noteq> OpEnd) ((ops s)[k := q]))" for u q n pg
  proof -
    have "\<not> (scan_ended (c_pc s) \<and> \<not> j_cancel (sys_job s))" using live(2) pos [OF that(2)] by auto
    with inv that(3) show ?thesis
      unfolding that(1) by (simp add: job_inv_defs inv_views cong: conj_cong)
  qed
  show ?thesis
  proof (cases "ops s ! k")
    case (OpScan d)
    then obtain m where "t = s\<lparr>ops := (ops s)[k := OpSend m]\<rparr>"
      using step k by (auto simp: op_step_def split: option.splits)
    moreover have "in_flight s = length (filter (\<lambda>p. p \<noteq> OpEnd) ((ops s)[k := OpSend m]))"
      using length_filter_update [OF k, of "\<lambda>p. p \<noteq> OpEnd" "OpSend m"] OpScan live(1) by (simp add: live_ops_def)
    ultimately show ?thesis using OpScan by (intro keep [where q = "OpSend m" and pg = "page s" and n = "in_flight s"]) simp_all
  next
    case (OpSend m)
    then have "t = s\<lparr>ops := (ops s)[k := OpSent], page := page s @ [m]\<rparr>"
      using step k by (auto simp: op_step_def split: if_splits)
    moreover have "in_flight s = length (filter (\<lambda>p. p \<noteq> OpEnd) ((ops s)[k := OpSent]))"
      using length_filter_update [OF k, of "\<lambda>p. p \<noteq> OpEnd" OpSent] OpSend live(1) by (simp add: live_ops_def)
    ultimately show ?thesis using OpSend by (intro keep [where q = OpSent and pg = "page s @ [m]" and n = "in_flight s"]) simp_all
  next
    case OpSent
    then have "t = s\<lparr>ops := (ops s)[k := OpEnd], in_flight := in_flight s - 1\<rparr>"
      using step k by (simp add: op_step_def)
    moreover have "in_flight s - 1 = length (filter (\<lambda>p. p \<noteq> OpEnd) ((ops s)[k := OpEnd]))"
      using length_filter_update [OF k, of "\<lambda>p. p \<noteq> OpEnd" OpEnd] OpSent live(1) by (simp add: live_ops_def)
    ultimately show ?thesis using OpSent by (intro keep [where q = OpEnd and pg = "page s" and n = "in_flight s - 1"]) simp_all
  next
    case OpEnd
    with step show ?thesis by (simp add: op_step_def split: if_splits)
  qed
qed

section \<open>The workers and the commands keep it\<close>

lemma ledger_shift:
  fixes p d l :: "'a::ab_group_add"
  shows "p + d = l \<Longrightarrow> p' + h = p + v \<Longrightarrow> l' + h = l + v \<Longrightarrow> p' + d = l'"
    and "p + d = l \<Longrightarrow> p' + h = p + v \<Longrightarrow> d' + v = d + h \<Longrightarrow> p' + d' = l"
proof -
  assume a: "p + d = l" "p' + h = p + v" "l' + h = l + v"
  have "p' + d + h = (p' + h) + d" by (simp add: ac_simps)
  also have "\<dots> = l + v" unfolding a(2) a(1) [symmetric] by (simp add: ac_simps)
  finally show "p' + d = l'" using a(3) by (metis add_right_cancel)
next
  assume a: "p + d = l" "p' + h = p + v" "d' + v = d + h"
  have "p' + d' + (h + v) = (p' + h) + (d' + v)" by (simp add: ac_simps)
  also have "\<dots> = l + (h + v)" unfolding a(2,3) a(1) [symmetric] by (simp add: ac_simps)
  finally show "p' + d' = l" by simp
qed

text \<open>
  A worker that moves on with its task, or puts it down: the counters of the job have to
  move with the task. Every step of a worker but taking a task is of this kind.
\<close>

lemma worker_move_inv:
  assumes inv: "job_inv caps s" and k: "k < length (workers s)"
    and ctl: "j_state (wj w) = j_state (sys_job s)" "j_error (wj w) = j_error (sys_job s)"
      "j_cancel (wj w) = j_cancel (sys_job s)" "j_scan_done (wj w) = j_scan_done (sys_job s)"
      "j_discovered_files (wj w) = j_discovered_files (sys_job s)"
      "job_log w = job_log (jw s)" "job_cb w = job_cb (jw s)"
    and pend: "\<not> j_cancel (sys_job s) \<Longrightarrow>
      j_pending (wj w) + of_bool (has_task (workers s ! k)) = j_pending (sys_job s) + of_bool (has_task v)"
    and tal: "\<not> j_cancel (sys_job s) \<Longrightarrow>
      tally (wj w) + of_bool (unsettled v) = tally (sys_job s) + of_bool (unsettled (workers s ! k))"
    and mono: "has_task v \<Longrightarrow> has_task (workers s ! k)"
  shows "job_inv caps (set_worker k v (s\<lparr>jw := w, permits := b\<rparr>))"
proof -
  let ?t = "set_worker k v (s\<lparr>jw := w, permits := b\<rparr>)"
  have n: "live_tasks ?t + of_bool (has_task (workers s ! k)) = live_tasks s + of_bool (has_task v)"
    "open_files ?t + of_bool (unsettled (workers s ! k)) = open_files s + of_bool (unsettled v)"
    using length_filter_update [OF k, of has_task v] length_filter_update [OF k, of unsettled v]
    by (auto simp: set_worker_def live_tasks_def open_files_def held_files_def split: if_splits)
  then have words: "of_nat (live_tasks ?t) + of_bool (has_task (workers s ! k)) = (of_nat (live_tasks s) + of_bool (has_task v) :: u64)"
    "of_nat (open_files ?t) + of_bool (unsettled (workers s ! k)) = (of_nat (open_files s) + of_bool (unsettled v) :: u64)"
    by (metis of_nat_add of_nat_of_bool)+
  have "count_inv ?t"
    unfolding count_inv_def
  proof (intro impI conjI)
    assume "\<not> j_cancel (sys_job ?t)"
    then have nc: "\<not> j_cancel (sys_job s)" using ctl by (simp add: set_worker_def)
    have c: "j_pending (sys_job s) + adding (c_pc s) = of_nat (live_tasks s)"
      "tally (sys_job s) + of_nat (open_files s) = j_discovered_files (sys_job s) + dir_failures s + scan_skips s"
      using inv nc by (simp_all add: job_inv_def count_inv_def)
    show "j_pending (sys_job ?t) + adding (c_pc ?t) = of_nat (live_tasks ?t)"
      using ledger_shift(1) [OF c(1) pend [OF nc] words(1)] by (simp add: set_worker_def)
    show "tally (sys_job ?t) + of_nat (open_files ?t) =
        j_discovered_files (sys_job ?t) + dir_failures ?t + scan_skips ?t"
      using ledger_shift(2) [OF c(2) tal [OF nc] words(2)] ctl by (simp add: set_worker_def)
  qed
  moreover have "live_tasks s = 0 \<Longrightarrow> live_tasks ?t = 0" using n(1) mono by (cases "has_task v") auto
  then have "end_inv caps ?t" using inv ctl by (auto simp: job_inv_def end_inv_def set_worker_def)
  moreover have "cancel_inv ?t" "log_inv ?t"
    using inv ctl by (simp_all add: job_inv_def cancel_inv_def log_inv_def set_worker_def)
  moreover have "live_ops ?t = live_ops s" "scan_over ?t = scan_over s"
    by (simp_all add: set_worker_def live_ops_def scan_over_def)
  then have "scan_inv caps ?t" using inv ctl by (simp add: job_inv_def scan_inv_def set_worker_def)
  ultimately show ?thesis by (simp add: job_inv_def)
qed

text \<open>The same without a change of the budget, and without a change of the job.\<close>

lemma worker_move_jw:
  assumes "job_inv caps s" "k < length (workers s)" "same_control (sys_job s) (wj w)"
    "job_log w = job_log (jw s)" "job_cb w = job_cb (jw s)"
    "has_task v = has_task (workers s ! k)"
    "\<not> j_cancel (sys_job s) \<Longrightarrow> tally (wj w) + of_bool (unsettled v) = tally (sys_job s) + of_bool (unsettled (workers s ! k))"
  shows "job_inv caps (set_worker k v (s\<lparr>jw := w, permits := b\<rparr>))"
  by (rule worker_move_inv) (use assms in \<open>auto simp: same_control_def\<close>)

lemma worker_move_pure:
  assumes "job_inv caps s" "k < length (workers s)"
    "has_task v = has_task (workers s ! k)" "unsettled v = unsettled (workers s ! k)"
  shows "job_inv caps (set_worker k v s)"
proof -
  have "set_worker k v s = set_worker k v (s\<lparr>jw := jw s, permits := permits s\<rparr>)" by simp
  also have "job_inv caps \<dots>" by (rule worker_move_jw) (use assms in auto)
  finally show ?thesis .
qed

lemmas task_views = has_task_def unsettled_def

lemma take_task_inv:
  assumes inv: "job_inv caps s" and k: "k < length (workers s)" "workers s ! k = WRecv n" and q: "rd_queue s = t # ts"
  shows "job_inv caps (set_worker k (WGot t) (s\<lparr>rd_queue := ts\<rparr>))"
proof -
  let ?t = "set_worker k (WGot t) (s\<lparr>rd_queue := ts\<rparr>)"
  have "live_tasks ?t = live_tasks s" "open_files ?t = open_files s"
    using length_filter_update [OF k(1), of has_task "WGot t"] length_filter_update [OF k(1), of unsettled "WGot t"] k(2) q
    by (simp_all add: set_worker_def live_tasks_def open_files_def held_files_def task_views)
  moreover have "live_ops ?t = live_ops s" "scan_over ?t = scan_over s"
    by (simp_all add: set_worker_def live_ops_def scan_over_def)
  ultimately show ?thesis
    using inv q unfolding job_inv_defs by (simp add: set_worker_def) blast
qed

lemma worker_go_inv:
  assumes inv: "job_inv caps s" and k: "k < length (workers s)" and step: "worker_go k s = Some t"
  shows "job_inv caps t"
proof -
  note pure = worker_move_pure [OF inv k]
  note move = worker_move_inv [OF inv k, where b = "permits s"]
  have self: "set_worker k v (s\<lparr>jw := w\<rparr>) = set_worker k v (s\<lparr>jw := w, permits := permits s\<rparr>)" for v w by simp
  show ?thesis
  proof (cases "workers s ! k")
    case (WRecv n)
    show ?thesis
    proof (cases "rd_queue s")
      case Nil
      with WRecv step pure [of WLast] show ?thesis by (auto simp: worker_go_def task_views split: if_splits)
    next
      case (Cons t' ts)
      with WRecv step take_task_inv [OF inv k] show ?thesis by (auto simp: worker_go_def)
    qed
  next
    case (WGot t')
    show ?thesis
    proof (cases "j_cancel (sys_job s)")
      case True
      with WGot step have "t = set_worker k WLast (s\<lparr>jw := jw s, permits := permits s\<rparr>)" by (simp add: worker_go_def)
      moreover have "job_inv caps (set_worker k WLast (s\<lparr>jw := jw s, permits := permits s\<rparr>))"
        by (rule worker_move_inv [OF inv k]) (use True in \<open>auto simp: task_views\<close>)
      ultimately show ?thesis by simp
    next
      case False
      with WGot step pure [of "WResolve t'"] show ?thesis by (auto simp: worker_go_def task_views)
    qed
  next
    case (WExec f x)
    then obtain st where "x_pc x = XReturned st" "t = set_worker k WSub s"
      using step by (auto simp: worker_go_def split: exec_pc.splits)
    with WExec pure [of WSub] show ?thesis by (simp add: task_views returned_def)
  next
    case WSub
    with step have t: "t = set_worker k WRefresh (upd_job (\<lambda>j. j\<lparr>j_pending := j_pending j - 1\<rparr>) s)" by (simp add: worker_go_def)
    show ?thesis unfolding t self by (rule worker_move_inv [OF inv k]) (use WSub in \<open>auto simp: task_views tally_def\<close>)
  next
    case WRefresh
    with step have t: "t = set_worker k WCheck (upd_job refresh_phase s)" by (simp add: worker_go_def)
    have "job_inv caps (upd_job refresh_phase s)"
      using inv by (simp add: job_inv_defs refresh_phase_state(1) refresh_phase_ends cong: conj_cong)
    with WRefresh k worker_move_pure [of caps "upd_job refresh_phase s" k WCheck] show ?thesis
      unfolding t by (simp add: task_views)
  next
    case WCheck
    with step have t: "t = set_worker k WTop (s\<lparr>jw := check_terminal (jw s)\<rparr>)" by (simp add: worker_go_def)
    from WCheck k worker_move_pure [OF check_inv [OF inv], of k WTop] show ?thesis unfolding t by (simp add: task_views)
  next
    case WLast
    with step have t: "t = set_worker k WEnd (s\<lparr>jw := check_terminal (jw s)\<rparr>)" by (simp add: worker_go_def)
    from WLast k worker_move_pure [OF check_inv [OF inv], of k WEnd] show ?thesis unfolding t by (simp add: task_views)
  qed (use step pure in \<open>auto simp: worker_go_def task_views Let_def split: if_splits\<close>)
qed

lemma skip_facts [simp]:
  "same_control j (j\<lparr>j_skipped := n\<rparr>)" "tally (j\<lparr>j_skipped := j_skipped j + 1\<rparr>) = tally j + 1"
  by (simp_all add: same_control_def tally_def)

lemma worker_step_inv:
  assumes inv: "job_inv caps s" and step: "worker_step caps k ev s = Some t"
  shows "job_inv caps t"
proof -
  have k: "k < length (workers s)" using step by (auto simp: worker_step_def split: if_splits)
  note pure = worker_move_pure [OF inv k]
  show ?thesis
  proof (cases ev)
    case Go
    with step k worker_go_inv [OF inv k] show ?thesis by (simp add: worker_step_def)
  next
    case Woken
    with step k have "worker_woken k s = Some t" by (simp add: worker_step_def)
    then show ?thesis
      using pure [of WUnpaused] pure [of WTop]
      by (auto simp: worker_woken_def task_views split: worker.splits if_splits)
  next
    case Watch
    with step k have "watch_step k s = Some t" by (simp add: worker_step_def)
    then obtain f x g where w: "workers s ! k = WExec f x" and t: "t = set_worker k (WExec f (x\<lparr>x_guard := g\<rparr>)) s"
      by (auto simp: watch_step_def split: worker.splits option.splits if_splits prod.splits)
    with pure [of "WExec f (x\<lparr>x_guard := g\<rparr>)"] show ?thesis by (simp add: task_views returned_def)
  next
    case (Probed probe ex show_err)
    with step k obtain t' v w where w: "workers s ! k = WResolve t'"
      and st: "start_task caps show_err (resolve_task probe ex (sys_job s) t') k t' (jw s) = (v, w)"
      and t: "t = set_worker k v (s\<lparr>jw := w\<rparr>)"
      by (auto simp: worker_step_def Let_def split: worker.splits prod.splits)
    have "set_worker k v (s\<lparr>jw := w\<rparr>) = set_worker k v (s\<lparr>jw := w, permits := permits s\<rparr>)" by simp
    moreover have "same_control (sys_job s) (wj w)" "job_log w = job_log (jw s)" "job_cb w = job_cb (jw s)"
      "has_task v" "tally (wj w) + of_bool (unsettled v) = tally (sys_job s) + 1"
      using st by (auto simp: start_task_def task_views returned_def exec_start_def
          split: sum.splits option.splits)
    ultimately show ?thesis
      unfolding t using worker_move_jw [OF inv k, of w v "permits s"] w by (simp add: task_views)
  next
    case (Exec e)
    with step k obtain f x x' b w where w: "workers s ! k = WExec f x"
      and st: "exec_step (job_flow (cap_failed caps) f) e x (permits s, jw s) = Some (x', b, w)"
      and t: "t = set_worker k (WExec f x') (s\<lparr>permits := b, jw := w\<rparr>)"
      by (auto simp: worker_step_def split: worker.splits option.splits)
    note facts = exec_job [OF st]
    have "job_inv caps (set_worker k (WExec f x') (s\<lparr>jw := w, permits := b\<rparr>))"
      by (rule worker_move_jw [OF inv k]) (use facts w in \<open>auto simp: task_views\<close>)
    moreover have "s\<lparr>permits := b, jw := w\<rparr> = s\<lparr>jw := w, permits := b\<rparr>" by simp
    ultimately show ?thesis unfolding t by metis
  qed
qed

lemma jw_inv:
  assumes inv: "job_inv caps s"
    and "j_state (wj w) = j_state (sys_job s)" "j_error (wj w) = j_error (sys_job s)"
      "j_cancel (wj w) = j_cancel (sys_job s)" "j_scan_done (wj w) = j_scan_done (sys_job s)"
      "j_pending (wj w) = j_pending (sys_job s)" "tally (wj w) = tally (sys_job s)"
      "j_discovered_files (wj w) = j_discovered_files (sys_job s)" "job_log w = job_log (jw s)" "job_cb w = job_cb (jw s)"
  shows "job_inv caps (s\<lparr>jw := w\<rparr>)"
  using assms unfolding job_inv_defs by simp blast

text \<open>From the moment the flag is set, only the state and the log still matter.\<close>

lemma canceled_inv:
  assumes inv: "job_inv caps s" and st: "cancel_at s \<noteq> NoCancel"
    and p: "p \<in> {CancelUnpause, CancelWake, CancelEmit, CancelEnd}"
    and w: "j_state (wj w) = j_state (sys_job s)" "j_error (wj w) = None" "j_cancel (wj w)"
      "j_scan_done (wj w) = j_scan_done (sys_job s)"
      "length (job_log w) = (if job_cb w \<and> p = CancelEnd then 1 else 0)"
  shows "job_inv caps (s\<lparr>jw := w, cancel_at := p\<rparr>)"
proof -
  let ?t = "s\<lparr>jw := w, cancel_at := p\<rparr>"
  have canceled: "j_state (sys_job s) = JobCanceled" using inv st by (simp add: job_inv_def cancel_inv_def)
  have "cancel_inv ?t" "log_inv ?t" "end_inv caps ?t" "count_inv ?t"
    using p w canceled by (auto simp: cancel_inv_def log_inv_def end_inv_def count_inv_def job_terminal_def)
  moreover have "live_ops ?t = live_ops s" by (simp add: live_ops_def)
  then have "scan_inv caps ?t" using inv w by (simp add: job_inv_def scan_inv_def)
  ultimately show ?thesis by (simp add: job_inv_def)
qed

lemma control_step_inv:
  assumes inv: "job_inv caps s" and step: "control_step c s = Some t"
  shows "job_inv caps t"
proof (cases c)
  case Pause
  with step have t: "t = upd_job set_pause s" by (simp add: control_step_def)
  show ?thesis unfolding t by (rule jw_inv [OF inv]) (simp_all add: set_pause_def tally_def)
next
  case Unpause
  with step have t: "t = upd_job unset_pause s" by (simp add: control_step_def)
  show ?thesis unfolding t by (rule jw_inv [OF inv]) (simp_all add: unset_pause_def notify_waiters_def tally_def)
next
  case Cancel
  have c: "j_error (sys_job s) = None" "cancel_at s \<noteq> NoCancel \<Longrightarrow> j_state (sys_job s) = JobCanceled"
    "cancel_at s \<in> {CancelUnpause, CancelWake, CancelEmit, CancelEnd} \<Longrightarrow> j_cancel (sys_job s)"
    using inv by (auto simp: job_inv_def cancel_inv_def)
  have log: "job_log (jw s) = []" if "cancel_at s \<in> {CancelFlag, CancelUnpause, CancelWake, CancelEmit}"
    using inv that by (auto simp: job_inv_def log_inv_def)
  show ?thesis
  proof (cases "cancel_at s")
    case NoCancel
    with Cancel step have nt: "\<not> job_terminal (j_state (sys_job s))"
      and t: "t = upd_job (\<lambda>j. j\<lparr>j_state := JobCanceled\<rparr>) (s\<lparr>cancel_at := CancelFlag\<rparr>)"
      by (auto simp: control_step_def cancel_mark_def split: if_splits)
    have "cancel_inv t" "count_inv t" "log_inv t" "end_inv caps t"
      using inv NoCancel nt unfolding t job_inv_defs
      by (simp_all add: job_terminal_def inv_views tally_def split: if_splits)
    moreover have "live_ops t = live_ops s" "scan_over t = scan_over s" by (simp_all add: t live_ops_def scan_over_def)
    then have "scan_inv caps t" using inv by (simp add: t job_inv_def scan_inv_def)
    ultimately show ?thesis by (simp add: job_inv_def)
  next
    case CancelEnd
    with Cancel step c show ?thesis by (auto simp: control_step_def cancel_mark_def job_terminal_def)
  next
    case CancelFlag
    with Cancel step have t: "t = s\<lparr>jw := on_job (\<lambda>j. j\<lparr>j_cancel := True\<rparr>) (jw s), cancel_at := CancelUnpause\<rparr>"
      by (auto simp: control_step_def)
    show ?thesis unfolding t by (rule canceled_inv [OF inv]) (use CancelFlag c log in auto)
  next
    case CancelUnpause
    with Cancel step have t: "t = s\<lparr>jw := on_job (\<lambda>j. j\<lparr>j_pause := False\<rparr>) (jw s), cancel_at := CancelWake\<rparr>"
      by (auto simp: control_step_def)
    show ?thesis unfolding t by (rule canceled_inv [OF inv]) (use CancelUnpause c log in auto)
  next
    case CancelWake
    with Cancel step have t: "t = s\<lparr>jw := on_job notify_waiters (jw s), cancel_at := CancelEmit\<rparr>"
      by (auto simp: control_step_def)
    show ?thesis unfolding t by (rule canceled_inv [OF inv]) (use CancelWake c log in \<open>auto simp: notify_waiters_def\<close>)
  next
    case CancelEmit
    with Cancel step have t: "t = s\<lparr>jw := emit_job_terminal (jw s), cancel_at := CancelEnd\<rparr>"
      by (auto simp: control_step_def)
    show ?thesis unfolding t by (rule canceled_inv [OF inv]) (use CancelEmit c log in \<open>auto simp: emit_job_terminal_def\<close>)
  qed
qed

lemma outside_inv:
  "job_inv caps s \<Longrightarrow> job_inv caps (s\<lparr>permits := b\<rparr>)" "job_inv caps s \<Longrightarrow> job_inv caps (s\<lparr>next_seq := n\<rparr>)"
proof -
  have "live_ops (s\<lparr>permits := b\<rparr>) = live_ops s" "live_ops (s\<lparr>next_seq := n\<rparr>) = live_ops s"
    "live_tasks (s\<lparr>permits := b\<rparr>) = live_tasks s" "live_tasks (s\<lparr>next_seq := n\<rparr>) = live_tasks s"
    "open_files (s\<lparr>permits := b\<rparr>) = open_files s" "open_files (s\<lparr>next_seq := n\<rparr>) = open_files s"
    "scan_over (s\<lparr>permits := b\<rparr>) = scan_over s" "scan_over (s\<lparr>next_seq := n\<rparr>) = scan_over s"
    by (simp_all add: inv_views)
  then have "cancel_inv (s\<lparr>permits := b\<rparr>) = cancel_inv s" "cancel_inv (s\<lparr>next_seq := n\<rparr>) = cancel_inv s"
    "scan_inv caps (s\<lparr>permits := b\<rparr>) = scan_inv caps s" "scan_inv caps (s\<lparr>next_seq := n\<rparr>) = scan_inv caps s"
    "count_inv (s\<lparr>permits := b\<rparr>) = count_inv s" "count_inv (s\<lparr>next_seq := n\<rparr>) = count_inv s"
    "log_inv (s\<lparr>permits := b\<rparr>) = log_inv s" "log_inv (s\<lparr>next_seq := n\<rparr>) = log_inv s"
    "end_inv caps (s\<lparr>permits := b\<rparr>) = end_inv caps s" "end_inv caps (s\<lparr>next_seq := n\<rparr>) = end_inv caps s"
    by (simp_all add: cancel_inv_def scan_inv_def count_inv_def log_inv_def end_inv_def)
  then show "job_inv caps s \<Longrightarrow> job_inv caps (s\<lparr>permits := b\<rparr>)" "job_inv caps s \<Longrightarrow> job_inv caps (s\<lparr>next_seq := n\<rparr>)"
    by (simp_all add: job_inv_def)
qed

interpretation job: invariant_system job_init "job_step caps" "job_inv caps" for caps
proof (unfold_locales, goal_cases)
  case (1 s)
  then show ?case by (rule job_inv_init)
next
  case (2 s t)
  from 2(2) obtain ev where "job_event_step caps ev s = Some t" by cases
  with 2(1) show ?case
    by (cases ev) (auto simp: job_event_step_def intro: coord_step_inv coord_recv_inv op_step_inv worker_step_inv
          control_step_inv outside_inv)
qed

section \<open>What a finished job means\<close>

lemma no_live_tasks:
  assumes "live_tasks s = 0"
  shows "rd_queue s = []" "w \<in> set (workers s) \<Longrightarrow> \<not> has_task w" "filter unsettled (workers s) = []"
proof -
  show "rd_queue s = []" "w \<in> set (workers s) \<Longrightarrow> \<not> has_task w"
    using assms by (auto simp: live_tasks_def filter_empty_conv)
  have "unsettled w \<Longrightarrow> has_task w" for w by (auto simp: task_views split: worker.splits)
  then show "filter unsettled (workers s) = []"
    using assms by (auto simp: live_tasks_def filter_empty_conv)
qed

text \<open>
  C2. A job that is \<open>Completed\<close> is complete, in every interleaving of its coordinator, scan
  operations, workers and commands: the scan has covered every directory it found, no task
  is queued or with a worker, and each discovered file is counted exactly once, as
  completed, failed or skipped (next to what the scan itself failed on or skipped).
\<close>

theorem completed_job_is_settled:
  assumes "reachable job_init (job_step caps) s" "ready_bound caps" "j_state (sys_job s) = JobCompleted"
  shows "scan_over s \<and> rd_queue s = [] \<and> list_all (\<lambda>w. \<not> has_task w) (workers s) \<and> \<not> j_cancel (sys_job s) \<and>
    j_completed_files (sys_job s) + j_failed_files (sys_job s) + j_skipped (sys_job s) =
      j_discovered_files (sys_job s) + dir_failures s + scan_skips s"
proof -
  have inv: "job_inv caps s" by (rule job.inv_reachable [OF assms(1)])
  with assms(2,3) have live: "live_tasks s = 0" and sd: "j_scan_done (sys_job s)"
    by (simp_all add: job_inv_def end_inv_def)
  from inv assms(3) have nc: "\<not> j_cancel (sys_job s)" by (auto simp: job_inv_def cancel_inv_def)
  with inv sd have over: "scan_over s" by (auto simp: job_inv_def scan_inv_def scan_ended_def)
  then have "open_files s = 0"
    using no_live_tasks [OF live] by (simp add: open_files_def held_files_def scan_over_def)
  with inv nc have "tally (sys_job s) = j_discovered_files (sys_job s) + dir_failures s + scan_skips s"
    by (simp add: job_inv_def count_inv_def)
  with over nc no_live_tasks [OF live] show ?thesis by (simp add: tally_def list_all_iff)
qed

text \<open>What the tasks other than the coordinator leave alone.\<close>

definition same_scan :: "job_sys \<Rightarrow> job_sys \<Rightarrow> bool" where
  "same_scan s t \<longleftrightarrow>
     c_pc t = c_pc s \<and> frontier t = frontier s \<and> c_held t = c_held s \<and> page t = page s \<and> ops t = ops s \<and>
     in_flight t = in_flight s \<and> handed t = handed s \<and> cancel_at t = cancel_at s \<and> length (workers t) = length (workers s)"

lemma worker_frame:
  assumes "worker_step caps k ev s = Some t"
  shows "same_scan s t"
  using assms
  by (cases ev)
    (auto simp: worker_step_def worker_go_def worker_woken_def watch_step_def same_scan_def set_worker_def Let_def
      split: if_splits worker.splits list.splits exec_pc.splits option.splits prod.splits)

lemma control_frame:
  assumes "control_step c s = Some t"
  shows "same_scan s (t\<lparr>cancel_at := cancel_at s\<rparr>)" "workers t = workers s"
  using assms
  by (cases c; auto simp: control_step_def same_scan_def split: cancel_pc.splits sum.splits)+

text \<open>A terminal state is final.\<close>

lemma terminal_worker:
  assumes inv: "job_terminal (j_state (sys_job s))" and step: "worker_step caps k ev s = Some t"
  shows "j_state (sys_job t) = j_state (sys_job s)"
proof -
  have chk: "wj (check_terminal w) = wj w" if "job_terminal (j_state (wj w))" for w
    using that by (simp add: check_terminal_def Let_def)
  show ?thesis
  proof (cases ev)
    case (Exec e)
    with step obtain f x x' b w where "workers s ! k = WExec f x"
      "exec_step (job_flow (cap_failed caps) f) e x (permits s, jw s) = Some (x', b, w)"
      "t = set_worker k (WExec f x') (s\<lparr>permits := b, jw := w\<rparr>)"
      by (auto simp: worker_step_def split: worker.splits option.splits if_splits)
    with exec_job(1) show ?thesis by (fastforce simp: same_control_def set_worker_def)
  next
    case (Probed p x e)
    have rf: "j_state (record_failure a b c j) = j_state j" for a b c j by (simp add: record_failure_def Let_def)
    from Probed step show ?thesis
      by (auto simp: worker_step_def start_task_def set_worker_def rf Let_def split: if_splits worker.splits option.splits sum.splits prod.splits)
  next
    case Go
    with step inv show ?thesis
      by (auto simp: worker_step_def worker_go_def set_worker_def Let_def chk refresh_phase_state(2)
          split: if_splits worker.splits list.splits exec_pc.splits)
  next
    case Woken
    with step show ?thesis
      by (auto simp: worker_step_def worker_woken_def set_worker_def split: if_splits worker.splits)
  next
    case Watch
    with step show ?thesis
      by (auto simp: worker_step_def watch_step_def set_worker_def split: if_splits worker.splits option.splits prod.splits)
  qed
qed

lemma terminal_coord:
  assumes "job_terminal (j_state (sys_job s))" "coord_step caps millis s = Some t"
  shows "j_state (sys_job t) = j_state (sys_job s)"
proof -
  have "j_state (sys_job (place_dir caps i s)) = j_state (sys_job s)" for i
    by (cases caps i s rule: place_dir_cases) (simp_all add: skip_one_def)
  moreover have "j_state (sys_job (place_file caps millis i s)) = j_state (sys_job s)" for i
    by (cases caps millis i s rule: place_file_cases) simp_all
  moreover have "check_terminal (jw s) = jw s" using assms(1) by (simp add: check_terminal_def Let_def)
  ultimately show ?thesis
    using assms
    by (auto simp: coord_step_def place_next_def launch_def refresh_phase_state(2) split: coord_pc.splits if_splits prod.splits)
qed

lemma terminal_final:
  assumes "job_step caps s t" "job_terminal (j_state (sys_job s))" "job_inv caps s"
  shows "j_state (sys_job t) = j_state (sys_job s)"
proof -
  from assms(1) obtain ev where ev: "job_event_step caps ev s = Some t" by cases
  have rf: "j_state (record_failure a b c j) = j_state j" for a b c j by (simp add: record_failure_def Let_def)
  show ?thesis
  proof (cases ev)
    case (Coord m)
    with ev terminal_coord assms(2) show ?thesis by (simp add: job_event_step_def)
  next
    case Receive
    with ev show ?thesis
      by (auto simp: job_event_step_def coord_recv_def take_msg_def rf Let_def split: coord_pc.splits list.splits if_splits ScanMsg.splits)
  next
    case (Op k a)
    with ev show ?thesis
      by (auto simp: job_event_step_def op_step_def split: if_splits scan_op.splits option.splits)
  next
    case (Work k e)
    with ev terminal_worker assms(2) show ?thesis by (simp add: job_event_step_def)
  next
    case (Control c)
    with ev assms(2) show ?thesis
      by (auto simp: job_event_step_def control_step_def set_pause_def unset_pause_def notify_waiters_def cancel_mark_def
          emit_job_terminal_def split: control.splits cancel_pc.splits if_splits)
  qed (use ev in \<open>auto simp: job_event_step_def\<close>)
qed

text \<open>
  A job reports its end exactly once: as long as it runs nothing is logged, a job that
  completed has logged one snapshot, and a canceled one does when its \<open>cancel\<close> returns. No
  job ends as \<open>Failed\<close>, and a terminal state is never left again.
\<close>

theorem job_reports_its_end_once:
  assumes "reachable job_init (job_step caps) s" "job_cb (jw s)"
  shows "length (job_log (jw s)) =
      (if j_state (sys_job s) = JobCompleted \<or> cancel_at s = CancelEnd then 1 else 0) \<and>
    j_state (sys_job s) \<noteq> JobFailed \<and>
    (job_step caps s t \<and> job_terminal (j_state (sys_job s)) \<longrightarrow> j_state (sys_job t) = j_state (sys_job s))"
proof -
  have inv: "job_inv caps s" by (rule job.inv_reachable [OF assms(1)])
  have "length (job_log (jw s)) = (if j_state (sys_job s) = JobCompleted \<or> cancel_at s = CancelEnd then 1 else 0)"
    using inv assms(2) by (cases "cancel_at s") (auto simp: job_inv_def log_inv_def cancel_inv_def end_inv_def job_terminal_def)
  with inv terminal_final [of caps s t] show ?thesis by (auto simp: job_inv_def end_inv_def)
qed

end
