(* ===== verification/Sftp_Tree.thy ===== *)
theory Sftp_Tree
  imports Sftp_Scan
begin

text \<open>
  The scan of a directory job against the tree it scans: which files it hands to the
  workers, whatever the order in which the listings answer.
\<close>

section \<open>The files of a tree\<close>

text \<open>
  \<open>ans\<close> is what a scan of a directory finds. The files below a directory are its own, and
  those below the sub-directories the limits on depth and path length let through.
\<close>

definition own_files :: "DirToScan \<Rightarrow> Lanes \<Rightarrow> (string \<times> string \<times> u64) multiset" where
  "own_files d l = mset (map (\<lambda>(nm, sz). (path_join (d_local d) nm, remote_join (d_remote d) nm, sz)) (l_files l))"

fun files_below :: "(DirToScan \<Rightarrow> ScanMsg) \<Rightarrow> nat \<Rightarrow> DirToScan \<Rightarrow> (string \<times> string \<times> u64) multiset" where
  "files_below ans 0 d = (case ans d of Listed _ l _ \<Rightarrow> own_files d l | DirFailed _ _ \<Rightarrow> {#})"
| "files_below ans (Suc k) d =
     (case ans d of
        Listed _ l _ \<Rightarrow> own_files d l +
          sum_list (map (\<lambda>nm. if too_long (child_of d nm) then {#} else files_below ans k (child_of d nm)) (l_dirs l))
      | DirFailed _ _ \<Rightarrow> {#})"

definition below :: "(DirToScan \<Rightarrow> ScanMsg) \<Rightarrow> SchedulerCaps \<Rightarrow> DirToScan \<Rightarrow> (string \<times> string \<times> u64) multiset" where
  "below ans caps d = files_below ans (max_depth caps - d_depth d) d"

definition dirs_below ::
  "(DirToScan \<Rightarrow> ScanMsg) \<Rightarrow> SchedulerCaps \<Rightarrow> DirToScan \<Rightarrow> string list \<Rightarrow> (string \<times> string \<times> u64) multiset" where
  "dirs_below ans caps p ds =
     sum_list (map (\<lambda>nm. if too_deep caps p \<or> too_long (child_of p nm) then {#} else below ans caps (child_of p nm)) ds)"

lemma below_unfold:
  assumes "d_depth d \<le> max_depth caps"
  shows "below ans caps d =
    (case ans d of Listed _ l _ \<Rightarrow> own_files d l + dirs_below ans caps d (l_dirs l) | DirFailed _ _ \<Rightarrow> {#})"
proof (cases "max_depth caps - d_depth d")
  case 0
  with assms have "too_deep caps d" by (simp add: too_deep_def)
  then have "dirs_below ans caps d ds = {#}" for ds by (simp add: dirs_below_def sum_list_0)
  with 0 show ?thesis by (simp add: below_def split: ScanMsg.splits)
next
  case (Suc k)
  then have "\<not> too_deep caps d" "max_depth caps - d_depth (child_of d nm) = k" for nm
    by (simp_all add: too_deep_def child_of_def)
  then have "dirs_below ans caps d ds =
      sum_list (map (\<lambda>nm. if too_long (child_of d nm) then {#} else files_below ans k (child_of d nm)) ds)" for ds
    by (simp add: dirs_below_def below_def cong: if_cong)
  with Suc show ?thesis by (simp add: below_def split: ScanMsg.splits)
qed

definition lanes_below where
  "lanes_below ans caps = (\<lambda>(p, l). own_files p l + dirs_below ans caps p (l_dirs l))"

fun msg_below where
  "msg_below ans caps (Listed p l _) = lanes_below ans caps (p, l)"
| "msg_below ans caps (DirFailed _ _) = {#}"

fun op_below where
  "op_below ans caps (OpScan d) = below ans caps d"
| "op_below ans caps (OpSend m) = msg_below ans caps m"
| "op_below ans caps OpSent = {#}"
| "op_below ans caps OpEnd = {#}"

text \<open>Everything the scan has handed out or still has to hand out.\<close>

definition whole :: "(DirToScan \<Rightarrow> ScanMsg) \<Rightarrow> SchedulerCaps \<Rightarrow> job_sys \<Rightarrow> (string \<times> string \<times> u64) multiset" where
  "whole ans caps s =
     mset (handed s) + sum_list (map (lanes_below ans caps) (c_held s)) + sum_list (map (below ans caps) (frontier s)) +
     sum_list (map (op_below ans caps) (ops s)) + sum_list (map (msg_below ans caps) (page s))"

fun op_depth_ok :: "SchedulerCaps \<Rightarrow> scan_op \<Rightarrow> bool" where
  "op_depth_ok caps (OpScan d) \<longleftrightarrow> d_depth d \<le> max_depth caps"
| "op_depth_ok caps _ \<longleftrightarrow> True"

definition depth_ok :: "SchedulerCaps \<Rightarrow> job_sys \<Rightarrow> bool" where
  "depth_ok caps s \<longleftrightarrow> list_all (\<lambda>d. d_depth d \<le> max_depth caps) (frontier s) \<and> list_all (op_depth_ok caps) (ops s)"

text \<open>A step in which every scan operation reports what \<open>ans\<close> says of its directory.\<close>

definition honest_event :: "(DirToScan \<Rightarrow> ScanMsg) \<Rightarrow> job_event \<Rightarrow> job_sys \<Rightarrow> bool" where
  "honest_event ans ev s \<longleftrightarrow>
     (case ev of
        Op k a \<Rightarrow> (case ops s ! k of OpScan d \<Rightarrow> scan_msg (j_direction (sys_job s)) d a = Some (ans d) | _ \<Rightarrow> True)
      | _ \<Rightarrow> True)"

inductive honest_step :: "(DirToScan \<Rightarrow> ScanMsg) \<Rightarrow> SchedulerCaps \<Rightarrow> job_sys \<Rightarrow> job_sys \<Rightarrow> bool"
  for ans :: "DirToScan \<Rightarrow> ScanMsg" and caps :: SchedulerCaps where
  honest: "job_event_step caps ev s = Some t \<Longrightarrow> honest_event ans ev s \<Longrightarrow> honest_step ans caps s t"

fun msg_parent :: "ScanMsg \<Rightarrow> DirToScan" where
  "msg_parent (Listed p _ _) = p"
| "msg_parent (DirFailed p _) = p"

lemma local_entries_parent: "msg_parent (local_entries d es l n) = d"
  by (induction d es l n rule: local_entries.induct) (auto split: file_type.splits)

lemma scan_msg_parent: "scan_msg dir d a = Some m \<Longrightarrow> msg_parent m = d"
  by (induction dir d a rule: scan_msg.induct)
    (auto simp: scan_remote_def scan_upload_def scan_local_dir_def local_entries_parent Let_def
      split: sum.splits prod.splits option.splits local_scan.splits)

section \<open>A scan hands out exactly the files of the tree\<close>

lemma whole_scan: "same_scan s t \<Longrightarrow> whole ans caps t = whole ans caps s \<and> (depth_ok caps t = depth_ok caps s)"
  by (simp add: same_scan_def whole_def depth_ok_def)

lemma lanes_upd:
  assumes "i < length (c_held s)" "c_held s ! i = (p, l)"
  shows "sum_list (map (lanes_below ans caps) ((c_held s)[i := (p, l')])) + lanes_below ans caps (p, l) =
    sum_list (map (lanes_below ans caps) (c_held s)) + lanes_below ans caps (p, l')"
  using sum_list_map_update [OF assms(1), of "lanes_below ans caps" "(p, l')"] assms(2) by simp

lemma cancel_add:
  fixes a :: "'a multiset"
  shows "a' + x = a + x' \<Longrightarrow> x = x' + y \<Longrightarrow> a' + y = a"
  by (metis add.assoc add.commute add_right_cancel)

lemma whole_place_dir:
  "whole ans caps (place_dir caps i s) = whole ans caps s" "depth_ok caps s \<Longrightarrow> depth_ok caps (place_dir caps i s)"
proof -
  show "whole ans caps (place_dir caps i s) = whole ans caps s"
  proof (cases caps i s rule: place_dir_cases)
    case (skip p l nm r)
    have "lanes_below ans caps (p, l) = lanes_below ans caps (p, l\<lparr>l_dirs := r\<rparr>) + {#}"
      using skip(3,5) by (auto simp: lanes_below_def own_files_def dirs_below_def)
    from cancel_add [OF lanes_upd [OF skip(1,2)] this] skip(4) show ?thesis
      by (simp add: whole_def skip_one_def)
  next
    case (child p l nm r)
    have "lanes_below ans caps (p, l) = lanes_below ans caps (p, l\<lparr>l_dirs := r\<rparr>) + below ans caps (child_of p nm)"
      using child(3,5,6) by (simp add: lanes_below_def own_files_def dirs_below_def)
    from cancel_add [OF lanes_upd [OF child(1,2)] this] child(4) show ?thesis
      by (simp add: whole_def ac_simps)
  qed (simp_all add: whole_def)
  show "depth_ok caps s \<Longrightarrow> depth_ok caps (place_dir caps i s)"
    by (cases caps i s rule: place_dir_cases) (auto simp: depth_ok_def skip_one_def too_deep_def child_of_def)
qed

lemma whole_place_file:
  assumes "i < length (c_held s)"
  shows "whole ans caps (place_file caps millis i s) = whole ans caps s"
proof (cases caps millis i s rule: place_file_cases)
  case (wait n)
  then show ?thesis by (simp add: whole_def)
next
  case (send p l nm sz r k)
  let ?f = "{#(path_join (d_local p) nm, remote_join (d_remote p) nm, sz)#}"
  have "lanes_below ans caps (p, l) = lanes_below ans caps (p, l\<lparr>l_files := r\<rparr>) + ?f"
    using send(2) by (simp add: lanes_below_def own_files_def)
  from cancel_add [OF lanes_upd [OF assms send(1)] this] show ?thesis
    unfolding send(10) by (simp add: whole_def ac_simps)
qed

lemma whole_place_next:
  assumes "i < length (c_held s)"
  shows "whole ans caps (place_next i s) = whole ans caps s"
proof -
  obtain p l where pl: "c_held s ! i = (p, l)" by fastforce
  have "sum_list (map (lanes_below ans caps) (take i (c_held s) @ drop (Suc i) (c_held s))) =
      sum_list (map (lanes_below ans caps) (c_held s))" if "l_files l = []" "l_dirs l = []"
    using sum_list_map_remove [OF assms, of "lanes_below ans caps"] pl that
    by (simp add: lanes_below_def own_files_def dirs_below_def del: map_append sum_list_append)
  with pl show ?thesis by (auto simp: place_next_def whole_def simp del: map_append sum_list_append)
qed

lemma whole_coord:
  assumes "coord_step caps millis s = Some t" "pos_ok (c_pc s) (length (c_held s))"
  shows "whole ans caps t = whole ans caps s" "depth_ok caps s \<Longrightarrow> depth_ok caps t"
proof -
  have launch: "whole ans caps (launch caps s) = whole ans caps s" "depth_ok caps s \<Longrightarrow> depth_ok caps (launch caps s)"
    by (cases "frontier s"; auto simp: launch_def whole_def depth_ok_def ac_simps)+
  have others: "whole ans caps (s\<lparr>c_pc := p\<rparr>) = whole ans caps s" "depth_ok caps (s\<lparr>c_pc := p\<rparr>) = depth_ok caps s"
    "whole ans caps (s\<lparr>jw := w\<rparr>) = whole ans caps s" "depth_ok caps (s\<lparr>jw := w\<rparr>) = depth_ok caps s"
    "whole ans caps (s\<lparr>c_pc := p, jw := w\<rparr>) = whole ans caps s" "depth_ok caps (s\<lparr>c_pc := p, jw := w\<rparr>) = depth_ok caps s"
    "whole ans caps (s\<lparr>jw := w, c_pc := p\<rparr>) = whole ans caps s" "depth_ok caps (s\<lparr>jw := w, c_pc := p\<rparr>) = depth_ok caps s"
    "whole ans caps (s\<lparr>rd_open := b, c_pc := p\<rparr>) = whole ans caps s" "depth_ok caps (s\<lparr>rd_open := b, c_pc := p\<rparr>) = depth_ok caps s" for p w b
    by (simp_all add: whole_def depth_ok_def)
  have files: "depth_ok caps s \<Longrightarrow> depth_ok caps (place_file caps millis i s)" for i
    by (cases caps millis i s rule: place_file_cases) (auto simp: depth_ok_def)
  have nxt: "depth_ok caps s \<Longrightarrow> depth_ok caps (place_next i s)" for i
    by (auto simp: place_next_def depth_ok_def split: prod.splits)
  show "whole ans caps t = whole ans caps s"
    using assms by (auto simp: coord_step_def pos_ok_def others launch whole_place_dir(1) whole_place_file whole_place_next split: coord_pc.splits if_splits)
  show "depth_ok caps s \<Longrightarrow> depth_ok caps t"
    using assms by (auto simp: coord_step_def others launch whole_place_dir(2) files nxt split: coord_pc.splits if_splits)
qed

lemma whole_recv:
  assumes "coord_recv caps s = Some t"
  shows "whole ans caps t = whole ans caps s" "depth_ok caps s \<Longrightarrow> depth_ok caps t"
proof -
  from assms obtain n m ms where s: "page s = m # ms" and t: "t = take_msg caps m (s\<lparr>page := ms, c_pc := CTop\<rparr>)"
    by (auto simp: coord_recv_def split: coord_pc.splits list.splits if_splits)
  show "whole ans caps t = whole ans caps s"
    unfolding t using s
    by (cases m) (auto simp: take_msg_def whole_def lanes_below_def own_files_def dirs_below_def Let_def ac_simps)
  show "depth_ok caps s \<Longrightarrow> depth_ok caps t"
    unfolding t by (cases m) (auto simp: take_msg_def depth_ok_def Let_def)
qed

lemma whole_op:
  assumes step: "op_step caps k a s = Some t" and hon: "honest_event ans (Op k a) s" and dep: "depth_ok caps s"
  shows "whole ans caps t = whole ans caps s \<and> depth_ok caps t"
proof -
  have k: "k < length (ops s)" using step by (auto simp: op_step_def split: if_splits)
  note upd = sum_list_map_update [OF k, of "op_below ans caps"]
  have dp: "op_depth_ok caps (ops s ! k)" using dep k by (simp add: depth_ok_def list_all_length)
  have ok: "list_all (op_depth_ok caps) ((ops s)[k := q])" if "op_depth_ok caps q" for q
    using dep that by (simp add: depth_ok_def list_all_iff) (metis insert_iff set_update_subset_insert subsetD)
  show ?thesis
  proof (cases "ops s ! k")
    case (OpScan d)
    with step hon k have m: "scan_msg (j_direction (sys_job s)) d a = Some (ans d)" and t: "t = s\<lparr>ops := (ops s)[k := OpSend (ans d)]\<rparr>"
      by (auto simp: op_step_def honest_event_def split: option.splits)
    from OpScan dp have "d_depth d \<le> max_depth caps" by simp
    then have "below ans caps d = msg_below ans caps (ans d)"
      using scan_msg_parent [OF m] by (cases "ans d") (auto simp: below_unfold lanes_below_def)
    with upd [of "OpSend (ans d)"] OpScan ok [of "OpSend (ans d)"] dep show ?thesis
      unfolding t by (simp add: whole_def depth_ok_def)
  next
    case (OpSend m)
    with step k have t: "t = s\<lparr>ops := (ops s)[k := OpSent], page := page s @ [m]\<rparr>"
      by (auto simp: op_step_def split: if_splits)
    have "sum_list (map (op_below ans caps) ((ops s)[k := OpSent])) + msg_below ans caps m =
        sum_list (map (op_below ans caps) (ops s))" using upd [of OpSent] OpSend by simp
    then show ?thesis using ok [of OpSent] dep unfolding t by (simp add: whole_def depth_ok_def ac_simps)
  next
    case OpSent
    with step k have t: "t = s\<lparr>ops := (ops s)[k := OpEnd], in_flight := in_flight s - 1\<rparr>" by (simp add: op_step_def)
    with upd [of OpEnd] OpSent ok [of OpEnd] dep show ?thesis by (simp add: whole_def depth_ok_def)
  next
    case OpEnd
    with step k show ?thesis by (simp add: op_step_def)
  qed
qed

definition scan_from :: "JobSpec \<Rightarrow> job_sys \<Rightarrow> bool" where
  "scan_from spec s \<longleftrightarrow> (\<exists>i fcb jcb b n. s = job_sys_new i spec fcb jcb b n)"

definition root_dir :: "JobRoot \<Rightarrow> DirToScan" where
  "root_dir r = \<lparr>d_local = root_local r, d_remote = root_remote r, d_depth = 0\<rparr>"

definition tree_files :: "(DirToScan \<Rightarrow> ScanMsg) \<Rightarrow> SchedulerCaps \<Rightarrow> JobSpec \<Rightarrow> (string \<times> string \<times> u64) multiset" where
  "tree_files ans caps spec = sum_list (map (\<lambda>r. below ans caps (root_dir r)) (spec_roots spec))"

definition tree_inv :: "(DirToScan \<Rightarrow> ScanMsg) \<Rightarrow> SchedulerCaps \<Rightarrow> JobSpec \<Rightarrow> job_sys \<Rightarrow> bool" where
  "tree_inv ans caps spec s \<longleftrightarrow> job_inv caps s \<and> depth_ok caps s \<and> whole ans caps s = tree_files ans caps spec"

lemma whole_event:
  assumes "job_event_step caps ev s = Some t" "honest_event ans ev s" "job_inv caps s" "depth_ok caps s"
  shows "whole ans caps t = whole ans caps s \<and> depth_ok caps t"
proof (cases ev)
  case (Coord m)
  from assms(3) have "pos_ok (c_pc s) (length (c_held s))" by (simp add: job_inv_def scan_inv_def)
  with Coord assms whole_coord show ?thesis by (simp add: job_event_step_def)
next
  case Receive
  with assms whole_recv show ?thesis by (simp add: job_event_step_def)
next
  case (Op k a)
  with assms whole_op show ?thesis by (simp add: job_event_step_def)
next
  case (Work k e)
  with assms worker_frame have "same_scan s t" by (simp add: job_event_step_def)
  with whole_scan assms(4) show ?thesis by blast
next
  case (Control c)
  with assms control_frame(1) have "same_scan s (t\<lparr>cancel_at := cancel_at s\<rparr>)" by (simp add: job_event_step_def)
  with whole_scan assms(4) show ?thesis by (fastforce simp: whole_def depth_ok_def)
qed (use assms in \<open>auto simp: job_event_step_def whole_def depth_ok_def\<close>)

interpretation scan: invariant_system "scan_from spec" "honest_step ans caps" "tree_inv ans caps spec" for spec ans caps
proof (unfold_locales, goal_cases)
  case (1 s)
  then have "job_init s" unfolding scan_from_def job_init_def by blast
  then have "job_inv caps s" by (rule job.inv_init)
  with 1 show ?case
    by (auto simp: scan_from_def job_sys_new_def tree_inv_def depth_ok_def whole_def tree_files_def root_dir_def list_all_iff comp_def)
next
  case (2 s t)
  from 2(2) obtain ev where ev: "job_event_step caps ev s = Some t" "honest_event ans ev s" by cases
  from 2(1) have inv: "job_inv caps s" "depth_ok caps s" "whole ans caps s = tree_files ans caps spec"
    by (simp_all add: tree_inv_def)
  have "job_inv caps t" by (rule job.inv_step [OF inv(1) j_event [OF ev(1)]])
  with whole_event [OF ev inv(1,2)] inv(3) show ?case by (simp add: tree_inv_def)
qed

text \<open>
  C3. A scan that ends without being canceled has handed to the workers exactly the files
  of the tree below the roots of the job, each once, whatever the order in which the
  directories are listed and the tasks run: those of every directory that could be listed
  and that the limits on depth and path length let through. Hypothesis: a directory is
  listed as \<open>ans\<close> says, so the tree does not change meanwhile.
\<close>

theorem scan_hands_out_the_tree:
  assumes "reachable (scan_from spec) (honest_step ans caps) s" "j_scan_done (sys_job s)" "\<not> j_cancel (sys_job s)"
  shows "mset (handed s) = tree_files ans caps spec"
proof -
  have inv: "tree_inv ans caps spec s" by (rule scan.inv_reachable [OF assms(1)])
  then have "job_inv caps s" by (simp add: tree_inv_def)
  with assms(2,3) have over: "scan_over s" "live_ops s = 0"
    by (auto simp: job_inv_def scan_inv_def scan_ended_def scan_over_def)
  then have "\<forall>q \<in> set (ops s). op_below ans caps q = {#}"
    by (auto simp: live_ops_def filter_empty_conv)
  then have "sum_list (map (op_below ans caps) (ops s)) = {#}" by (simp add: sum_list_0 cong: map_cong)
  with over inv show ?thesis by (simp add: tree_inv_def whole_def scan_over_def)
qed

end
