(* ===== verification/Sftp_Stall.thy ===== *)
theory Sftp_Stall
  imports Sftp_Tree
begin

text \<open>
  Where the directory scheduler stands still or misses a command: the four limits of the
  scan can block each other for ever, a worker can miss the wake-up of a resume, and a
  pause does not reach a transfer that runs. The hooks of a job are an \<open>exec_flow\<close>.
\<close>

section \<open>A scan that stands still\<close>

text \<open>
  The frontier is full, as many results are held as may be and each has a directory left to
  place, the channel is full, and every operation in flight waits to send.
\<close>

definition stuck :: "SchedulerCaps \<Rightarrow> job_sys \<Rightarrow> bool" where
  "stuck caps s \<longleftrightarrow>
     cap_frontier caps \<le> length (frontier s) \<and> cap_in_flight caps \<le> length (c_held s) \<and>
     list_all (\<lambda>(_, l). l_dirs l \<noteq> []) (c_held s) \<and> cap_in_flight caps \<le> length (page s) \<and>
     cap_in_flight caps \<le> in_flight s \<and> 0 < in_flight s \<and>
     list_all (\<lambda>q. case q of OpSend _ \<Rightarrow> True | OpEnd \<Rightarrow> True | _ \<Rightarrow> False) (ops s) \<and>
     \<not> scan_ended (c_pc s) \<and> cancel_at s = NoCancel"

inductive uncanceled_step :: "SchedulerCaps \<Rightarrow> job_sys \<Rightarrow> job_sys \<Rightarrow> bool" for caps :: SchedulerCaps where
  uncanceled: "job_event_step caps ev s = Some t \<Longrightarrow> ev \<noteq> Control Cancel \<Longrightarrow> uncanceled_step caps s t"

lemma stuck_coord:
  assumes st: "stuck caps s" and inv: "job_inv caps s" and step: "coord_step caps millis s = Some t"
  shows "stuck caps t"
proof -
  have nc: "\<not> j_cancel (sys_job s)" using inv st by (simp add: stuck_def job_inv_def cancel_inv_def)
  have dirs: "stuck caps (place_dir caps i s)" if "c_pc s = CDirs i" for i
  proof (cases "i < length (c_held s)")
    case True
    obtain p l where pl: "c_held s ! i = (p, l)" by fastforce
    with True st have "l_dirs l \<noteq> []" by (force simp: stuck_def list_all_length)
    with True pl st have "place_dir caps i s = s\<lparr>c_pc := CFiles i\<rparr>"
      by (auto simp: place_dir_def stuck_def split: list.splits)
    with st show ?thesis by (simp add: stuck_def scan_ended_def)
  next
    case False
    with st show ?thesis by (simp add: place_dir_def stuck_def scan_ended_def)
  qed
  have files: "stuck caps (place_file caps millis i s)" if "c_pc s = CFiles i" for i
  proof (cases caps millis i s rule: place_file_cases)
    case (wait n)
    with st show ?thesis by (simp add: stuck_def scan_ended_def)
  next
    case (send p l nm sz r k)
    from inv that have i: "i < length (c_held s)" by (simp add: job_inv_def scan_inv_def pos_ok_def)
    with send(1) st have "l_dirs l \<noteq> []" by (force simp: stuck_def list_all_length)
    then have "list_all (\<lambda>(_, l). l_dirs l \<noteq> []) ((c_held s)[i := (p, l\<lparr>l_files := r\<rparr>)])"
      using st i by (auto simp: stuck_def list_all_length nth_list_update)
    with st show ?thesis unfolding send(10) by (simp add: stuck_def scan_ended_def)
  qed
  have nxt: "stuck caps (place_next i s)" if "c_pc s = CNext i" for i
  proof -
    obtain p l where pl: "c_held s ! i = (p, l)" by fastforce
    from inv that have i: "i < length (c_held s)" by (simp add: job_inv_def scan_inv_def pos_ok_def)
    with pl st have "l_dirs l \<noteq> []" by (force simp: stuck_def list_all_length)
    with pl have "place_next i s = s\<lparr>c_pc := CDirs (Suc i)\<rparr>" by (simp add: place_next_def)
    with st show ?thesis by (simp add: stuck_def scan_ended_def)
  qed
  have "launch caps s = s\<lparr>c_pc := CTest\<rparr>" "\<not> scan_over s" using st by (auto simp: launch_def stuck_def scan_over_def)
  with step st nc dirs files nxt show ?thesis
    by (cases "c_pc s") (auto simp: coord_step_def stuck_def scan_ended_def)
qed

lemma stuck_step:
  assumes st: "stuck caps s" and inv: "job_inv caps s" and step: "uncanceled_step caps s t"
  shows "stuck caps t"
proof -
  from step obtain ev where ev: "job_event_step caps ev s = Some t" "ev \<noteq> Control Cancel" by cases
  have same: "same_scan s u \<Longrightarrow> stuck caps u" for u using st by (simp add: stuck_def same_scan_def)
  show ?thesis
  proof (cases ev)
    case (Coord m)
    with ev stuck_coord [OF st inv] show ?thesis by (simp add: job_event_step_def)
  next
    case Receive
    with ev st show ?thesis
      by (auto simp: job_event_step_def coord_recv_def stuck_def split: coord_pc.splits list.splits if_splits)
  next
    case (Op k a)
    with ev have "k < length (ops s)" by (auto simp: job_event_step_def op_step_def split: if_splits)
    with st have "case ops s ! k of OpSend _ \<Rightarrow> True | OpEnd \<Rightarrow> True | _ \<Rightarrow> False"
      by (simp add: stuck_def list_all_length)
    with Op ev st show ?thesis
      by (auto simp: job_event_step_def op_step_def stuck_def split: scan_op.splits if_splits)
  next
    case (Work k e)
    with ev worker_frame same show ?thesis by (simp add: job_event_step_def)
  next
    case (Control c)
    with ev st show ?thesis
      by (cases c) (auto simp: job_event_step_def control_step_def stuck_def)
  qed (use ev st in \<open>auto simp: job_event_step_def stuck_def\<close>)
qed

text \<open>
  C40. A scan can stand still for ever. A slot in flight is given back when its message is
  sent and not when it is received, so twice as many results can be under way as the
  channel holds; once the frontier is full and every held result waits for room in it,
  the coordinator takes no message, no operation can send its own, and no directory leaves
  the frontier. From then on nothing short of a cancel ends the scan or the job, whatever
  the tasks do.
\<close>

theorem scan_can_stall:
  assumes "reachable job_init (job_step caps) s" "stuck caps s" "(uncanceled_step caps)\<^sup>*\<^sup>* s t"
  shows "stuck caps t \<and> \<not> j_scan_done (sys_job t) \<and> \<not> job_terminal (j_state (sys_job t))"
proof -
  have "job_inv caps t \<and> stuck caps t"
    using assms(3)
  proof (induction rule: rtranclp_induct)
    case base
    with assms(2) job.inv_reachable [OF assms(1)] show ?case by simp
  next
    case (step u v)
    then have "job_step caps u v" by (auto elim: uncanceled_step.cases intro: j_event)
    with step stuck_step job.inv_step show ?case by blast
  qed
  then show ?thesis
    by (auto simp: job_inv_def scan_inv_def end_inv_def cancel_inv_def stuck_def scan_ended_def job_terminal_def)
qed

text \<open>With one slot and a frontier of one, a directory with four empty sub-directories is enough.\<close>

definition tiny_caps :: SchedulerCaps where
  "tiny_caps = \<lparr>cap_frontier = 1, cap_ready = 512, cap_in_flight = 1, max_depth = 64, cap_failed = 256\<rparr>"

definition raw_of :: "string \<Rightarrow> bool \<Rightarrow> u64 option \<Rightarrow> raw_entry" where
  "raw_of nm dir sz =
     \<lparr>raw_name = nm, raw_path = nm, raw_symlink = False, raw_dir = dir, raw_regular = (\<not> dir), raw_size = sz,
      raw_permissions = None, raw_mtime = None, raw_uid = None, raw_gid = None, raw_user = None, raw_group = None\<rparr>"

definition four_dirs :: scan_answer where
  "four_dirs = RemoteAnswer (Ok (Ok (map (\<lambda>nm. raw_of nm True None) [''a'', ''b'', ''c'', ''d''])))"

definition no_entries :: scan_answer where
  "no_entries = RemoteAnswer (Ok (Ok []))"

definition download_root :: JobSpec where
  "download_root = \<lparr>spec_direction = Download, spec_roots = [\<lparr>root_local = ''/l'', root_remote = ''/r''\<rparr>], spec_policy = Resume\<rparr>"

definition fresh_sys :: job_sys where
  "fresh_sys = job_sys_new ''job-1'' download_root True True (budget_new ''sftp.exec'' SFTP_EXEC) 1"

definition stall_run :: "job_event list" where
  "stall_run =
     replicate 5 (Coord 0) @ [Op 0 four_dirs, Op 0 four_dirs, Op 0 four_dirs, Receive] @
     replicate 9 (Coord 0) @ [Op 1 no_entries, Op 1 no_entries, Op 1 no_entries] @
     replicate 10 (Coord 0) @ [Op 2 no_entries] @ replicate 6 (Coord 0)"

lemma stall_run_stuck: "case job_run tiny_caps stall_run fresh_sys of None \<Rightarrow> False | Some s \<Rightarrow> stuck tiny_caps s"
  by code_simp

text \<open>A run from the start of a job reaches its end.\<close>

lemma job_run_reachable:
  assumes "job_run caps evs s = Some t" "job_init s"
  shows "reachable job_init (job_step caps) t"
proof -
  have "(job_step caps)\<^sup>*\<^sup>* s t" by (rule job_run_steps [OF assms(1)])
  then show ?thesis
    by (induction rule: rtranclp_induct) (auto intro: assms(2) reach_init reach_step)
qed

lemma fresh_sys_init: "job_init fresh_sys"
  unfolding job_init_def fresh_sys_def by blast

definition stalled :: job_sys where
  "stalled = the (job_run tiny_caps stall_run fresh_sys)"

lemma stalled_sys_run: "job_run tiny_caps stall_run fresh_sys = Some stalled" "stuck tiny_caps stalled"
  using stall_run_stuck by (auto simp: stalled_def split: option.splits)

theorem scan_can_stall_witness:
  "reachable job_init (job_step tiny_caps) stalled \<and> \<not> j_scan_done (sys_job stalled)"
proof -
  have r: "reachable job_init (job_step tiny_caps) stalled"
    by (rule job_run_reachable [OF stalled_sys_run(1) fresh_sys_init])
  with scan_can_stall [OF r stalled_sys_run(2), of stalled] show ?thesis by simp
qed

section \<open>Wake-ups\<close>

text \<open>Only \<open>resume\<close> and \<open>cancel\<close> wake the waiters of a job.\<close>

definition wakes :: "job_event \<Rightarrow> bool" where
  "wakes ev \<longleftrightarrow> ev \<in> {Control Unpause, Control Cancel}"

definition flags :: "JobInner \<Rightarrow> nat \<times> bool" where
  "flags j = (j_wake j, j_pause j)"

lemma flags_pieces [simp]:
  "flags (refresh_phase j) = flags j" "flags (wj (check_terminal w)) = flags (wj w)"
  "flags (record_failure p e c j) = flags j" "flags (j\<lparr>j_skipped := n\<rparr>) = flags j"
  "flags (j\<lparr>j_pending := m\<rparr>) = flags j" "flags (j\<lparr>j_scan_done := b\<rparr>) = flags j"
  by (simp_all add: flags_def record_failure_def Let_def)

lemma same_control_flags: "same_control j j' \<Longrightarrow> flags j' = flags j"
  by (simp add: same_control_def flags_def)

lemma quiet_worker:
  assumes "worker_step caps k ev s = Some t"
  shows "flags (sys_job t) = flags (sys_job s)" "i \<noteq> k \<Longrightarrow> workers t ! i = workers s ! i"
proof -
  show "i \<noteq> k \<Longrightarrow> workers t ! i = workers s ! i"
    using assms
    by (cases ev)
      (auto simp: worker_step_def worker_go_def worker_woken_def watch_step_def set_worker_def Let_def
        split: if_splits worker.splits list.splits exec_pc.splits option.splits prod.splits)
  show "flags (sys_job t) = flags (sys_job s)"
  proof (cases ev)
    case (Exec e)
    with assms obtain f x x' b w where
      "exec_step (job_flow (cap_failed caps) f) e x (permits s, jw s) = Some (x', b, w)" "jw t = w"
      by (auto simp: worker_step_def set_worker_def split: worker.splits option.splits if_splits)
    with exec_job(1) show ?thesis by (blast intro: same_control_flags)
  next
    case Go
    with assms show ?thesis
      by (auto simp: worker_step_def worker_go_def set_worker_def Let_def split: if_splits worker.splits list.splits exec_pc.splits)
  next
    case (Probed p x e)
    with assms show ?thesis
      by (auto simp: worker_step_def start_task_def set_worker_def Let_def
          split: if_splits worker.splits option.splits sum.splits prod.splits)
  next
    case Woken
    with assms show ?thesis by (auto simp: worker_step_def worker_woken_def set_worker_def split: if_splits worker.splits)
  next
    case Watch
    with assms show ?thesis
      by (auto simp: worker_step_def watch_step_def set_worker_def split: if_splits worker.splits option.splits prod.splits)
  qed
qed

lemma quiet_coord:
  assumes "coord_step caps millis s = Some t"
  shows "flags (sys_job t) = flags (sys_job s) \<and> workers t = workers s"
proof -
  have "flags (sys_job (place_dir caps i s)) = flags (sys_job s) \<and> workers (place_dir caps i s) = workers s" for i
    by (cases caps i s rule: place_dir_cases) (simp_all add: skip_one_def)
  moreover have "flags (sys_job (place_file caps millis i s)) = flags (sys_job s) \<and> workers (place_file caps millis i s) = workers s" for i
    by (cases caps millis i s rule: place_file_cases) simp_all
  ultimately show ?thesis
    using assms by (auto simp: coord_step_def place_next_def launch_def split: coord_pc.splits if_splits prod.splits)
qed

lemma quiet_event:
  assumes "job_event_step caps ev s = Some t" "\<not> wakes ev"
  shows "j_wake (sys_job t) = j_wake (sys_job s)" "j_pause (sys_job s) \<Longrightarrow> j_pause (sys_job t)"
    "\<forall>e. ev \<noteq> Work k e \<Longrightarrow> workers t ! k = workers s ! k"
proof -
  have *: "j_wake (sys_job t) = j_wake (sys_job s) \<and> (j_pause (sys_job s) \<longrightarrow> j_pause (sys_job t)) \<and>
    ((\<forall>e. ev \<noteq> Work k e) \<longrightarrow> workers t ! k = workers s ! k)"
  proof (cases ev)
    case (Coord m)
    with assms quiet_coord show ?thesis by (fastforce simp: job_event_step_def flags_def)
  next
    case Receive
    then obtain m u where "t = take_msg caps m u" "jw u = jw s" "workers u = workers s"
      using assms by (auto simp: job_event_step_def coord_recv_def split: coord_pc.splits list.splits if_splits)
    then have "flags (sys_job t) = flags (sys_job s)" "workers t = workers s"
      by (auto simp: take_msg_def flags_def record_failure_def Let_def split: ScanMsg.splits)
    then show ?thesis by (simp add: flags_def)
  next
    case (Op i a)
    with assms show ?thesis
      by (auto simp: job_event_step_def op_step_def split: if_splits scan_op.splits option.splits)
  next
    case (Work i e)
    with assms quiet_worker show ?thesis by (fastforce simp: job_event_step_def flags_def)
  next
    case (Control c)
    with assms show ?thesis
      by (cases c) (auto simp: job_event_step_def control_step_def wakes_def set_pause_def)
  qed (use assms in \<open>auto simp: job_event_step_def\<close>)
  then show "j_wake (sys_job t) = j_wake (sys_job s)" "j_pause (sys_job s) \<Longrightarrow> j_pause (sys_job t)"
    "\<forall>e. ev \<noteq> Work k e \<Longrightarrow> workers t ! k = workers s ! k" by blast+
qed

text \<open>Steps that wake nobody, and in which the transfer of worker \<open>k\<close> does not end.\<close>

inductive quiet_step :: "SchedulerCaps \<Rightarrow> nat \<Rightarrow> job_sys \<Rightarrow> job_sys \<Rightarrow> bool" for caps :: SchedulerCaps and k :: nat where
  quiet: "job_event_step caps ev s = Some t \<Longrightarrow> \<not> wakes ev \<Longrightarrow> \<forall>n r. ev \<noteq> Work k (Exec (Result n r)) \<Longrightarrow> quiet_step caps k s t"

definition waits :: "job_sys \<Rightarrow> worker \<Rightarrow> bool" where
  "waits s w \<longleftrightarrow>
     (case w of
        WPaused n \<Rightarrow> j_wake (sys_job s) \<le> n
      | WExec f x \<Rightarrow> x_pc x = XTransfer \<and> (case x_guard x of Some (_, Some n) \<Rightarrow> j_wake (sys_job s) \<le> n | _ \<Rightarrow> True)
      | _ \<Rightarrow> False)"

lemma waits_quiet:
  assumes "quiet_step caps k s t" "waits s (workers s ! k)"
  shows "workers t ! k = workers s ! k \<and> waits t (workers t ! k) \<and> (j_pause (sys_job s) \<longrightarrow> j_pause (sys_job t))"
proof -
  from assms(1) obtain ev where ev: "job_event_step caps ev s = Some t" "\<not> wakes ev" "\<forall>n r. ev \<noteq> Work k (Exec (Result n r))"
    by cases
  note q = quiet_event [OF ev(1,2)]
  have "workers t ! k = workers s ! k"
  proof (cases "\<exists>e. ev = Work k e")
    case False
    with q(3) show ?thesis by blast
  next
    case True
    then obtain e where e: "ev = Work k e" by blast
    with ev(1,3) assms(2) show ?thesis
      by (cases e)
        (auto simp: job_event_step_def worker_step_def worker_go_def worker_woken_def watch_step_def waits_def Let_def
          elim!: exec_step.elims split: if_splits worker.splits option.splits prod.splits exec_event.splits)
  qed
  with q assms(2) show ?thesis by (auto simp: waits_def split: worker.splits option.splits)
qed

lemma waits_run:
  assumes "(quiet_step caps k)\<^sup>*\<^sup>* s t" "waits s (workers s ! k)"
  shows "workers t ! k = workers s ! k \<and> (j_pause (sys_job s) \<longrightarrow> j_pause (sys_job t))"
proof -
  from assms have "workers t ! k = workers s ! k \<and> waits t (workers t ! k) \<and> (j_pause (sys_job s) \<longrightarrow> j_pause (sys_job t))"
  proof (induction rule: rtranclp_induct)
    case (step u v)
    then have "waits u (workers u ! k)" by blast
    from waits_quiet [OF step.hyps(2) this] step show ?case by metis
  qed simp
  then show ?thesis by blast
qed

text \<open>
  A resume can be lost. A worker that has read the pause flag but has not yet
  registered for the wake-up (\<open>WRegister\<close>) misses a resume at that moment: it then waits
  although the job is not paused, and does so whatever else happens, until somebody
  resumes or cancels the job once more.
\<close>

theorem resume_can_be_lost:
  assumes "k < length (workers s)" "workers s ! k = WRegister"
    "job_run caps [Control Unpause, Work k Go] s = Some u" "(quiet_step caps k)\<^sup>*\<^sup>* u t"
  shows "\<not> j_pause (sys_job u) \<and> workers u ! k = WPaused (j_wake (sys_job u)) \<and> workers t ! k = workers u ! k"
proof -
  let ?s = "upd_job unset_pause s"
  from assms(1-3) have u: "u = set_worker k (WPaused (j_wake (sys_job ?s))) ?s"
    by (simp add: job_event_step_def control_step_def worker_step_def worker_go_def Let_def)
  with assms(1) have w: "workers u ! k = WPaused (j_wake (sys_job u))" by (simp add: set_worker_def)
  then have "waits u (workers u ! k)" by (simp add: waits_def)
  with waits_run [OF assms(4)] w u show ?thesis by (simp add: unset_pause_def notify_waiters_def set_worker_def)
qed

definition registering :: job_sys where
  "registering = the (job_run tiny_caps [Work 0 Go, Control Pause, Work 0 Go] fresh_sys)"

theorem resume_can_be_lost_witness:
  "\<exists>u. job_run tiny_caps [Control Unpause, Work 0 Go] registering = Some u \<and>
     \<not> j_pause (sys_job u) \<and> workers u ! 0 = WPaused (j_wake (sys_job u))"
proof -
  have r: "0 < length (workers registering)" "workers registering ! 0 = WRegister"
    "job_run tiny_caps [Control Unpause, Work 0 Go] registering \<noteq> None" by code_simp+
  then obtain u where "job_run tiny_caps [Control Unpause, Work 0 Go] registering = Some u" by blast
  with resume_can_be_lost [OF r(1,2) this rtranclp.rtrancl_refl] show ?thesis by blast
qed

text \<open>
  A pause does not reach a transfer that runs: the task that passes the flags of the
  job on waits for a wake-up, and \<open>pause\<close> gives none. The job is paused, yet the transfer
  keeps its flag down and runs on, whatever happens, until it ends by itself or the job is
  resumed or canceled.
\<close>

theorem pause_misses_running_transfer:
  assumes "k < length (workers s)" "workers s ! k = WExec f x" "x_pc x = XTransfer"
    "x_guard x = Some (tr, Some (j_wake (sys_job s)))"
    "job_run caps [Control Pause] s = Some u" "(quiet_step caps k)\<^sup>*\<^sup>* u t"
  shows "j_pause (sys_job t) \<and> workers t ! k = WExec f x \<and> watch_step k u = None"
proof -
  from assms(5) have u: "u = upd_job set_pause s" by (simp add: job_event_step_def control_step_def)
  with assms have "waits u (workers u ! k)" "j_pause (sys_job u)" "workers u ! k = WExec f x"
    by (simp_all add: waits_def set_pause_def)
  with waits_run [OF assms(6)] show ?thesis using assms(3,4) u by (simp add: watch_step_def set_pause_def)
qed

text \<open>A job with one file, up to its transfer and up to its end.\<close>

definition one_file :: scan_answer where
  "one_file = RemoteAnswer (Ok (Ok [raw_of ''f'' False (Some 5)]))"

definition free_target :: work_event where
  "free_target = Probed (\<lambda>_. Ok False) (\<lambda>_. False) (\<lambda>_. [])"

definition to_transfer :: "job_event list" where
  "to_transfer =
     replicate 5 (Coord 0) @ [Op 0 one_file, Op 0 one_file, Op 0 one_file, Receive] @ replicate 4 (Coord 0) @
     replicate 5 (Work 0 Go) @ [Work 0 free_target] @ replicate 4 (Work 0 (Exec Advance))"

definition to_end :: "job_event list" where
  "to_end = to_transfer @ [Work 0 (Exec (Result 5 None))] @ replicate 2 (Work 0 Go) @ replicate 9 (Coord 0) @ replicate 2 (Work 0 Go)"

definition transferring :: job_sys where
  "transferring = the (job_run tiny_caps to_transfer fresh_sys)"

definition completed :: job_sys where
  "completed = the (job_run tiny_caps to_end fresh_sys)"

lemma runs_ok: "job_run tiny_caps to_transfer fresh_sys \<noteq> None" "job_run tiny_caps to_end fresh_sys \<noteq> None"
  by code_simp+

lemma completed_run: "job_run tiny_caps to_end fresh_sys = Some completed"
  using runs_ok by (simp add: completed_def)

lemma completed_state: "j_state (sys_job completed) = JobCompleted" "job_cb (jw completed)"
    "j_scan_done (sys_job completed)" "\<not> j_cancel (sys_job completed)"
  by code_simp+

lemma completed_reachable: "reachable job_init (job_step tiny_caps) completed"
  by (rule job_run_reachable [OF completed_run fresh_sys_init])

theorem pause_misses_running_transfer_witness:
  "\<exists>f x tr. workers transferring ! 0 = WExec f x \<and> x_pc x = XTransfer \<and> x_guard x = Some (tr, Some 0) \<and> \<not> t_pause tr \<and>
     (\<exists>u. job_run tiny_caps [Control Pause] transferring = Some u \<and> j_pause (sys_job u) \<and> workers u ! 0 = WExec f x)"
proof -
  have k: "0 < length (workers transferring)" "j_wake (sys_job transferring) = 0" by code_simp+
  have "case workers transferring ! 0 of
      WExec f x \<Rightarrow> x_pc x = XTransfer \<and> (case x_guard x of Some (tr, Some n) \<Rightarrow> n = 0 \<and> \<not> t_pause tr | _ \<Rightarrow> False)
    | _ \<Rightarrow> False" by code_simp
  then obtain f x tr where w: "workers transferring ! 0 = WExec f x" "x_pc x = XTransfer" "x_guard x = Some (tr, Some 0)"
    "\<not> t_pause tr" by (auto split: worker.splits option.splits)
  have p: "job_run tiny_caps [Control Pause] transferring = Some (upd_job set_pause transferring)"
    by (simp add: job_event_step_def control_step_def)
  have "x_guard x = Some (tr, Some (j_wake (sys_job transferring)))" using w(3) k(2) by simp
  from pause_misses_running_transfer [OF k(1) w(1,2) this p rtranclp.rtrancl_refl] w p show ?thesis by blast
qed

section \<open>Reports of the files\<close>

text \<open>The hooks of a job meet the contract of the executor: a file that ends is reported with its state.\<close>

definition reported :: "job_file \<Rightarrow> TransferState \<Rightarrow> jobw \<Rightarrow> bool" where
  "reported f st w \<longleftrightarrow> file_log w \<noteq> [] \<and> ft_state (last (file_log w)) = st \<and> ft_id (last (file_log w)) = k_id (f_task f)"

lemmas job_hooks =
  job_flow_def reported_def job_prepare_def worker_report_def emit_file_terminal_def guard_drop_def job_report_def

interpretation jf: exec_flow "job_flow cap f" file_cb "reported f" for cap f
  by unfold_locales (auto simp: job_hooks Let_def split: option.splits)

text \<open>
  Whatever happens while the executor runs a file of a job, once it returns a state the
  file's last report to the history carries the identifier of its task and that state.
\<close>

theorem job_file_is_reported:
  assumes "exec_run (job_flow cap f) evs exec_start (b, w) = Some (x, b', w')" "file_cb w" "x_pc x = XReturned st"
  shows "is_terminal st \<and> reported f st w'"
proof -
  have st: "\<forall>st. x_pc (exec_start :: job_guard exec) \<noteq> XReturned st" by (simp add: exec_start_def)
  from jf.run_settles [OF assms(1,2) st] returned_terminal [OF assms(1,3) st] assms(3) show ?thesis by simp
qed

definition sample_file :: job_file where
  "sample_file = \<lparr>f_idx = 0, f_task = \<lparr>k_id = ''tr-1'', k_local = ''/l/f'', k_remote = ''/r/f'', k_size = 5\<rparr>,
     f_local = ''/l/f'', f_remote = ''/r/f'', f_mode = Resume\<rparr>"

theorem job_file_is_reported_witness:
  "\<exists>x b w. exec_run (job_flow 256 sample_file) (attempt_succeeds 5) exec_start (budget_new ''x'' 1, jw fresh_sys) = Some (x, b, w) \<and>
     reported sample_file Done w"
proof -
  let ?r = "exec_run (job_flow 256 sample_file) (attempt_succeeds 5) exec_start (budget_new ''x'' 1, jw fresh_sys)"
  have "case ?r of None \<Rightarrow> False | Some (x, _) \<Rightarrow> x_pc x = XReturned Done" by code_simp
  then obtain x b w where r: "?r = Some (x, b, w)" "x_pc x = XReturned Done" by (auto split: option.splits)
  have "file_cb (jw fresh_sys)" by code_simp
  with job_file_is_reported [OF r(1) _ r(2)] r(1) show ?thesis by blast
qed

section \<open>Names from the server\<close>

text \<open>
  The names a server lists are used as they are: a file whose name is an absolute path
  is downloaded to that path, and one whose name starts with \<open>../\<close> to a place outside the
  directory, wherever the user put the download.
\<close>

theorem listed_name_escapes_target:
  assumes "raw_regular r" "\<not> raw_symlink r" "\<not> raw_dir r" "raw_name r \<notin> {''.'', ''..''}"
  shows "\<exists>l. scan_msg Download d (RemoteAnswer (Ok (Ok [r]))) = Some (Listed d l 0) \<and>
    own_files d l = {#(path_join (d_local d) (raw_name r), remote_join (d_remote d) (raw_name r),
                       case raw_size r of Some n \<Rightarrow> n | None \<Rightarrow> 0)#} \<and>
    (starts_with (raw_name r) ''/'' \<longrightarrow> path_join (d_local d) (raw_name r) = raw_name r) \<and>
    (d_local d \<noteq> [] \<and> last (d_local d) \<noteq> CHR ''/'' \<and> starts_with (raw_name r) ''../'' \<longrightarrow>
       path_join (d_local d) (raw_name r) = d_local d @ ''/'' @ raw_name r)"
proof -
  have "client_list [r] = [from_raw r]" "e_kind (from_raw r) = EFile" "e_name (from_raw r) = raw_name r"
    "e_size (from_raw r) = (case raw_size r of Some n \<Rightarrow> n | None \<Rightarrow> 0)"
    using assms by (simp_all add: client_list_def from_raw_def)
  moreover have "\<not> starts_with nm ''/''" if "starts_with nm ''../''" for nm
    using that by (cases nm) (auto simp: starts_with_def)
  ultimately show ?thesis
    by (auto simp: scan_remote_def own_files_def path_join_def Let_def)
qed

theorem listed_name_escapes_target_witness:
  "path_join ''/home/me/dl'' ''/etc/cron.d/x'' = ''/etc/cron.d/x''"
  using listed_name_escapes_target [of "raw_of ''/etc/cron.d/x'' False None" "\<lparr>d_local = ''/home/me/dl'', d_remote = ''/srv'', d_depth = 0\<rparr>"]
  by (auto simp: starts_with_def raw_of_def)

section \<open>Witnesses of the accounting\<close>

theorem completed_job_is_settled_witness:
  "scan_over completed \<and> j_completed_files (sys_job completed) + j_failed_files (sys_job completed) +
     j_skipped (sys_job completed) = j_discovered_files (sys_job completed) + dir_failures completed + scan_skips completed"
proof -
  have "ready_bound tiny_caps" by (simp add: ready_bound_def tiny_caps_def WORKERS_def)
  from completed_job_is_settled [OF completed_reachable this completed_state(1)] show ?thesis by blast
qed

theorem job_reports_its_end_once_witness: "length (job_log (jw completed)) = 1"
  using job_reports_its_end_once [OF completed_reachable completed_state(2), of completed] completed_state(1) by simp

fun honest_run :: "(DirToScan \<Rightarrow> ScanMsg) \<Rightarrow> SchedulerCaps \<Rightarrow> job_event list \<Rightarrow> job_sys \<Rightarrow> bool" where
  "honest_run ans caps [] s \<longleftrightarrow> True"
| "honest_run ans caps (ev # evs) s \<longleftrightarrow>
     honest_event ans ev s \<and> (case job_event_step caps ev s of None \<Rightarrow> False | Some t \<Rightarrow> honest_run ans caps evs t)"

lemma honest_run_reachable:
  "honest_run ans caps evs s \<Longrightarrow> job_run caps evs s = Some t \<Longrightarrow> reachable I (honest_step ans caps) s \<Longrightarrow>
     reachable I (honest_step ans caps) t"
proof (induction evs arbitrary: s)
  case (Cons ev evs)
  then obtain u where u: "job_event_step caps ev s = Some u" "honest_run ans caps evs u" "honest_event ans ev s"
    "job_run caps evs u = Some t" by (auto split: option.splits)
  with Cons.prems(3) have "reachable I (honest_step ans caps) u" by (blast intro: reach_step honest)
  with u Cons.IH show ?case by blast
qed simp

definition one_file_tree :: "DirToScan \<Rightarrow> ScanMsg" where
  "one_file_tree d = scan_remote d (Ok (Ok [raw_of ''f'' False (Some 5)]))"

theorem scan_hands_out_the_tree_witness:
  "mset (handed completed) = tree_files one_file_tree tiny_caps download_root \<and> handed completed = [(''/l/f'', ''/r/f'', 5)]"
proof -
  have start: "reachable (scan_from download_root) (honest_step one_file_tree tiny_caps) fresh_sys"
    unfolding scan_from_def fresh_sys_def by (rule reach_init) blast
  have "honest_run one_file_tree tiny_caps to_end fresh_sys" by code_simp
  from scan_hands_out_the_tree [OF honest_run_reachable [OF this completed_run start] completed_state(3,4)]
  have "mset (handed completed) = tree_files one_file_tree tiny_caps download_root" .
  moreover have "handed completed = [(''/l/f'', ''/r/f'', 5)]" by code_simp
  ultimately show ?thesis by blast
qed

end
