(* ===== verification/Transfer_Ledger.thy ===== *)
theory Transfer_Ledger
  imports Sftp_Job
begin

text \<open>
  The history of transfers: \<^verbatim>\<open>src/crates/core-store/src/transfer.rs\<close>, the statements on the
  table \<open>transfers\<close>, and \<^verbatim>\<open>src/crates/app/src/transfer_ledger.rs\<close>, the one writer of that
  table. Producers put mutations into a bounded queue, a single consumer takes them out and
  writes consecutive upserts in batches.

  SQLite is an argument: for each call whether it fails, what \<open>datetime('now')\<close> is, and how
  \<open>ORDER BY updated_at DESC\<close> orders rows. The table is a list of rows. An acknowledgement is
  an entry of a log, under the number of the call that waits for it. The two reads that
  bypass the queue do not change anything and are functions of the table.
\<close>

section \<open>The table\<close>

record TransferRecord =
  tr_id :: string
  tr_session_id :: string
  tr_direction :: string
  tr_local :: string
  tr_remote :: string
  tr_bytes_done :: u64
  tr_bytes_total :: u64
  tr_state :: string
  tr_error :: "string option"
  tr_updated_at :: string

record sqlite =
  db_fail :: "nat \<Rightarrow> string option"
  db_now :: "nat \<Rightarrow> string"
  db_newest_first :: "TransferRecord list \<Rightarrow> TransferRecord list"

record TransferRepo =
  rows :: "TransferRecord list"
  calls :: nat

text \<open>One statement: the call may fail and then changes nothing.\<close>

definition statement ::
  "sqlite \<Rightarrow> (string \<Rightarrow> TransferRecord list \<Rightarrow> 'a \<times> TransferRecord list) \<Rightarrow> TransferRepo \<Rightarrow> (string, 'a) result \<times> TransferRepo" where
  "statement db f s =
     (let s' = s\<lparr>calls := calls s + 1\<rparr>
      in case db_fail db (calls s) of
           Some e \<Rightarrow> (Err e, s')
         | None \<Rightarrow> (let (a, t) = f (db_now db (calls s)) (rows s) in (Ok a, s'\<lparr>rows := t\<rparr>)))"

definition overwrite_row :: "string \<Rightarrow> TransferRecord \<Rightarrow> TransferRecord \<Rightarrow> TransferRecord" where
  "overwrite_row now r x =
     x\<lparr>tr_bytes_done := tr_bytes_done r, tr_bytes_total := tr_bytes_total r, tr_state := tr_state r,
       tr_error := tr_error r, tr_updated_at := now\<rparr>"

definition upsert_row :: "string \<Rightarrow> TransferRecord \<Rightarrow> TransferRecord list \<Rightarrow> TransferRecord list" where
  "upsert_row now r t =
     (if tr_id r \<in> set (map tr_id t)
      then map (\<lambda>x. if tr_id x = tr_id r then overwrite_row now r x else x) t
      else t @ [r\<lparr>tr_updated_at := now\<rparr>])"

definition repo_upsert :: "sqlite \<Rightarrow> TransferRecord \<Rightarrow> TransferRepo \<Rightarrow> (string, unit) result \<times> TransferRepo" where
  "repo_upsert db r = statement db (\<lambda>now t. ((), upsert_row now r t))"

definition for_session :: "sqlite \<Rightarrow> string \<Rightarrow> TransferRepo \<Rightarrow> (string, TransferRecord list) result \<times> TransferRepo" where
  "for_session db sid =
     statement db (\<lambda>_ t. (take 200 (db_newest_first db (filter (\<lambda>r. tr_session_id r = sid) t)), t))"

definition repo_get :: "sqlite \<Rightarrow> string \<Rightarrow> TransferRepo \<Rightarrow> (string, TransferRecord option) result \<times> TransferRepo" where
  "repo_get db i = statement db (\<lambda>_ t. (find (\<lambda>r. tr_id r = i) t, t))"

definition repo_delete :: "sqlite \<Rightarrow> string \<Rightarrow> TransferRepo \<Rightarrow> (string, unit) result \<times> TransferRepo" where
  "repo_delete db i = statement db (\<lambda>_ t. ((), filter (\<lambda>r. tr_id r \<noteq> i) t))"

definition clear_settled :: "sqlite \<Rightarrow> string \<Rightarrow> TransferRepo \<Rightarrow> (string, nat) result \<times> TransferRepo" where
  "clear_settled db sid =
     statement db (\<lambda>_ t. let hit = (\<lambda>r. tr_session_id r = sid \<and> tr_state r \<in> {''done'', ''canceled''})
                         in (length (filter hit t), filter (\<lambda>r. \<not> hit r) t))"

definition recent :: "sqlite \<Rightarrow> nat \<Rightarrow> TransferRepo \<Rightarrow> (string, TransferRecord list) result \<times> TransferRepo" where
  "recent db limit = statement db (\<lambda>_ t. (take limit (db_newest_first db t), t))"

definition repo_clear_all :: "sqlite \<Rightarrow> TransferRepo \<Rightarrow> (string, nat) result \<times> TransferRepo" where
  "repo_clear_all db = statement db (\<lambda>_ t. (length t, []))"

section \<open>What is recorded\<close>

definition settled :: "TransferState \<Rightarrow> bool" where
  "settled s \<longleftrightarrow> s \<in> {Paused, Done, Failed, Canceled}"

record TerminalEntry =
  e_session_id :: string
  e_id :: string
  e_direction :: TransferDirection
  e_local :: string
  e_remote :: string
  e_bytes_done :: u64
  e_bytes_total :: u64
  e_state :: TransferState
  e_error :: "string option"

definition from_info :: "string \<Rightarrow> TransferInfo \<Rightarrow> TerminalEntry option" where
  "from_info sid info =
     (if settled (ti_state info)
      then Some \<lparr>e_session_id = sid, e_id = ti_id info, e_direction = ti_direction info, e_local = ti_local info,
                 e_remote = ti_remote info, e_bytes_done = ti_bytes_done info, e_bytes_total = ti_bytes_total info,
                 e_state = ti_state info, e_error = ti_error info\<rparr>
      else None)"

definition from_file_terminal :: "string \<Rightarrow> FileTerminal \<Rightarrow> TerminalEntry option" where
  "from_file_terminal sid f =
     (if settled (ft_state f)
      then Some \<lparr>e_session_id = sid, e_id = ft_id f, e_direction = ft_direction f, e_local = ft_local f,
                 e_remote = ft_remote f, e_bytes_done = ft_bytes_done f, e_bytes_total = ft_bytes_total f,
                 e_state = ft_state f, e_error = ft_error f\<rparr>
      else None)"

definition into_record :: "TerminalEntry \<Rightarrow> TransferRecord" where
  "into_record e =
     \<lparr>tr_id = e_id e, tr_session_id = e_session_id e,
      tr_direction = (case e_direction e of Upload \<Rightarrow> ''upload'' | Download \<Rightarrow> ''download''),
      tr_local = e_local e, tr_remote = e_remote e, tr_bytes_done = e_bytes_done e, tr_bytes_total = e_bytes_total e,
      tr_state = state_str (e_state e), tr_error = e_error e, tr_updated_at = ''''\<rparr>"

datatype ClearScope = ScopeDone | ScopeFailed

fun scope_states :: "ClearScope \<Rightarrow> string list" where
  "scope_states ScopeDone = [''done'']"
| "scope_states ScopeFailed = [''failed'', ''canceled'']"

section \<open>Mutations\<close>

datatype Mutation =
    Upsert TransferRecord
  | Remove string nat
  | ClearSession string "string list" nat
  | ClearAll nat
  | Resumable string string nat

datatype reply =
    RowReply "(string, TransferRecord option) result"
  | RowsReply "(string, TransferRecord list) result"
  | CountReply "(string, nat) result"

type_synonym played = "TransferRepo \<times> (nat \<times> reply) list"

fun delete_hits ::
  "sqlite \<Rightarrow> string list \<Rightarrow> TransferRecord list \<Rightarrow> TransferRecord list \<Rightarrow> TransferRepo \<Rightarrow> (string, TransferRecord list) result \<times> TransferRepo" where
  "delete_hits db states [] hit s = (Ok hit, s)"
| "delete_hits db states (r # rs) hit s =
     (if tr_state r \<in> set states
      then (case repo_delete db (tr_id r) s of
              (Inl e, s') \<Rightarrow> (Err e, s')
            | (Inr _, s') \<Rightarrow> delete_hits db states rs (hit @ [r]) s')
      else delete_hits db states rs hit s)"

fun exec_mutation :: "sqlite \<Rightarrow> Mutation \<Rightarrow> played \<Rightarrow> played" where
  "exec_mutation db (Upsert r) (s, acks) = (snd (repo_upsert db r s), acks)"
| "exec_mutation db (Remove i k) (s, acks) =
     (case repo_get db i s of
        (Inl e, s1) \<Rightarrow> (s1, acks @ [(k, RowReply (Err e))])
      | (Inr None, s1) \<Rightarrow> (s1, acks @ [(k, RowReply (Ok None))])
      | (Inr (Some row), s1) \<Rightarrow>
          (case repo_delete db i s1 of
             (Inl e, s2) \<Rightarrow> (s2, acks @ [(k, RowReply (Err e))])
           | (Inr _, s2) \<Rightarrow> (s2, acks @ [(k, RowReply (Ok (Some row)))])))"
| "exec_mutation db (ClearSession sid states k) (s, acks) =
     (case for_session db sid s of
        (Inl e, s1) \<Rightarrow> (s1, acks @ [(k, RowsReply (Err e))])
      | (Inr rs, s1) \<Rightarrow> (let (res, s2) = delete_hits db states rs [] s1 in (s2, acks @ [(k, RowsReply res)])))"
| "exec_mutation db (ClearAll k) (s, acks) =
     (let (res, s1) = repo_clear_all db s in (s1, acks @ [(k, CountReply res)]))"
| "exec_mutation db (Resumable i sid k) (s, acks) =
     (case repo_get db i s of
        (Inl e, s1) \<Rightarrow> (s1, acks @ [(k, RowReply (Err e))])
      | (Inr row, s1) \<Rightarrow>
          (s1, acks @ [(k, RowReply (Ok (case row of None \<Rightarrow> None
             | Some r \<Rightarrow> if tr_session_id r = sid \<and> tr_state r = ''paused'' then Some r else None)))]))"

section \<open>The ledger\<close>

definition QUEUE_CAP :: nat where "QUEUE_CAP = 4096"
definition BATCH :: nat where "BATCH = 500"

text \<open>\<open>lg_n\<close> is the number of messages of the batch under way, \<open>0\<close> while the consumer waits in \<open>recv\<close>.\<close>

record TransferLedger =
  lg_queue :: "Mutation list"
  lg_dropped :: u64
  lg_upserts :: "TransferRecord list"
  lg_n :: nat
  lg_played :: played

definition ledger_start :: "TransferRepo \<Rightarrow> TransferLedger" where
  "ledger_start s = \<lparr>lg_queue = [], lg_dropped = 0, lg_upserts = [], lg_n = 0, lg_played = (s, [])\<rparr>"

definition on_terminal :: "TerminalEntry \<Rightarrow> TransferLedger \<Rightarrow> TransferLedger" where
  "on_terminal e l =
     (if \<not> settled (e_state e) then l
      else if length (lg_queue l) < QUEUE_CAP then l\<lparr>lg_queue := lg_queue l @ [Upsert (into_record e)]\<rparr>
      else l\<lparr>lg_dropped := lg_dropped l + 1\<rparr>)"

text \<open>\<open>remove\<close>, \<open>clear_session\<close>, \<open>clear_all\<close> and \<open>resumable\<close> wait for room in the queue.\<close>

definition send_reliable :: "Mutation \<Rightarrow> TransferLedger \<Rightarrow> TransferLedger option" where
  "send_reliable m l =
     (if length (lg_queue l) < QUEUE_CAP then Some (l\<lparr>lg_queue := lg_queue l @ [m]\<rparr>) else None)"

datatype request = ReqRemove string | ReqClear string ClearScope | ReqClearAll | ReqResumable string string

fun request_mutation :: "request \<Rightarrow> nat \<Rightarrow> Mutation" where
  "request_mutation (ReqRemove i) k = Remove i k"
| "request_mutation (ReqClear sid sc) k = ClearSession sid (scope_states sc) k"
| "request_mutation ReqClearAll k = ClearAll k"
| "request_mutation (ReqResumable sid i) k = Resumable i sid k"

fun flush :: "sqlite \<Rightarrow> TransferRecord list \<Rightarrow> played \<Rightarrow> played" where
  "flush db [] p = p"
| "flush db (r # rs) (s, acks) = flush db rs (snd (repo_upsert db r s), acks)"

text \<open>One message taken by \<open>recv\<close> or \<open>try_recv\<close>, and the end of a batch, which \<open>try_recv\<close> may
  report although a message is on its way.\<close>

definition consume_take :: "sqlite \<Rightarrow> TransferLedger \<Rightarrow> TransferLedger option" where
  "consume_take db l =
     (if lg_n l \<ge> BATCH then None
      else case lg_queue l of
             [] \<Rightarrow> None
           | m # ms \<Rightarrow>
               (let l = l\<lparr>lg_queue := ms, lg_n := lg_n l + 1\<rparr>
                in case m of
                     Upsert r \<Rightarrow> Some (l\<lparr>lg_upserts := lg_upserts l @ [r]\<rparr>)
                   | _ \<Rightarrow> Some (l\<lparr>lg_upserts := [], lg_played := exec_mutation db m (flush db (lg_upserts l) (lg_played l))\<rparr>)))"

definition consume_end :: "sqlite \<Rightarrow> TransferLedger \<Rightarrow> TransferLedger option" where
  "consume_end db l =
     (if lg_n l = 0 then None
      else Some (l\<lparr>lg_n := 0, lg_upserts := [], lg_played := flush db (lg_upserts l) (lg_played l)\<rparr>))"

datatype ledger_event = Report TerminalEntry | Request request nat | TakeOne | EndBatch

fun ledger_step :: "sqlite \<Rightarrow> ledger_event \<Rightarrow> TransferLedger \<Rightarrow> TransferLedger option" where
  "ledger_step db (Report e) l = Some (on_terminal e l)"
| "ledger_step db (Request q k) l = send_reliable (request_mutation q k) l"
| "ledger_step db TakeOne l = consume_take db l"
| "ledger_step db EndBatch l = consume_end db l"

fun ledger_run :: "sqlite \<Rightarrow> ledger_event list \<Rightarrow> TransferLedger \<Rightarrow> TransferLedger option" where
  "ledger_run db [] l = Some l"
| "ledger_run db (ev # evs) l = (case ledger_step db ev l of None \<Rightarrow> None | Some l' \<Rightarrow> ledger_run db evs l')"

text \<open>The reads that do not go through the queue.\<close>

definition session_rows :: "sqlite \<Rightarrow> string \<Rightarrow> TransferLedger \<Rightarrow> (string, TransferRecord list) result" where
  "session_rows db sid l = fst (for_session db sid (fst (lg_played l)))"

definition history :: "sqlite \<Rightarrow> nat \<Rightarrow> TransferLedger \<Rightarrow> (string, TransferRecord list) result" where
  "history db limit l = fst (recent db limit (fst (lg_played l)))"

section \<open>The specification: one mutation after the other\<close>

text \<open>What was put into the queue, in order; and the same mutations played without a queue.\<close>

fun admitted :: "ledger_event \<Rightarrow> TransferLedger \<Rightarrow> Mutation list" where
  "admitted (Report e) l =
     (if settled (e_state e) \<and> length (lg_queue l) < QUEUE_CAP then [Upsert (into_record e)] else [])"
| "admitted (Request q k) l = [request_mutation q k]"
| "admitted _ l = []"

fun all_admitted :: "sqlite \<Rightarrow> ledger_event list \<Rightarrow> TransferLedger \<Rightarrow> Mutation list" where
  "all_admitted db [] l = []"
| "all_admitted db (ev # evs) l =
     admitted ev l @ (case ledger_step db ev l of None \<Rightarrow> [] | Some l' \<Rightarrow> all_admitted db evs l')"

definition play :: "sqlite \<Rightarrow> Mutation list \<Rightarrow> played \<Rightarrow> played" where
  "play db ms p = fold (exec_mutation db) ms p"

definition pending :: "TransferLedger \<Rightarrow> Mutation list" where
  "pending l = map Upsert (lg_upserts l) @ lg_queue l"

section \<open>The ledger is its specification\<close>

lemma play_simps [simp]:
  "play db [] p = p" "play db (m # ms) p = play db ms (exec_mutation db m p)"
  "play db (ms @ ns) p = play db ns (play db ms p)"
  by (simp_all add: play_def)

lemma flush_play: "flush db rs p = play db (map Upsert rs) p"
  by (induction db rs p rule: flush.induct) simp_all

lemma ledger_step_play:
  assumes "ledger_step db ev l = Some l'"
  shows "play db (pending l') (lg_played l') = play db (pending l @ admitted ev l) (lg_played l)"
proof (cases ev)
  case TakeOne
  with assms obtain m ms where q: "lg_queue l = m # ms" by (auto simp: consume_take_def split: if_splits list.splits)
  show ?thesis
    using assms TakeOne q
    by (cases m) (auto simp: consume_take_def pending_def flush_play Let_def split: if_splits)
qed (use assms in \<open>auto simp: on_terminal_def send_reliable_def consume_end_def pending_def flush_play split: if_splits\<close>)

lemma ledger_run_play:
  "ledger_run db evs l = Some l' \<Longrightarrow>
     play db (pending l') (lg_played l') = play db (pending l @ all_admitted db evs l) (lg_played l)"
proof (induction evs arbitrary: l)
  case (Cons ev evs)
  then obtain l1 where l1: "ledger_step db ev l = Some l1" "ledger_run db evs l1 = Some l'" by (auto split: option.splits)
  with Cons.IH [OF l1(2)] ledger_step_play [OF l1(1)] show ?case by simp
qed simp

lemma pending_start [simp]: "pending (ledger_start s) = []" "lg_played (ledger_start s) = (s, [])"
  by (simp_all add: pending_def ledger_start_def)

text \<open>Between batches nothing waits outside the queue.\<close>

lemma upserts_in_batch:
  assumes "ledger_step db ev l = Some l'" "lg_n l = 0 \<longrightarrow> lg_upserts l = []"
  shows "lg_n l' = 0 \<longrightarrow> lg_upserts l' = []"
  using assms
  by (cases ev)
    (auto simp: on_terminal_def send_reliable_def consume_take_def consume_end_def Let_def split: if_splits list.splits Mutation.splits)

lemma upserts_in_batch_run:
  "ledger_run db evs l = Some l' \<Longrightarrow> (lg_n l = 0 \<longrightarrow> lg_upserts l = []) \<Longrightarrow> lg_n l' = 0 \<longrightarrow> lg_upserts l' = []"
proof (induction evs arbitrary: l)
  case (Cons ev evs)
  then obtain l1 where l1: "ledger_step db ev l = Some l1" "ledger_run db evs l1 = Some l'" by (auto split: option.splits)
  from Cons.IH [OF l1(2)] upserts_in_batch [OF l1(1)] Cons.prems show ?case by blast
qed simp

lemma ledger_idle:
  assumes "ledger_run db evs (ledger_start s) = Some l" "lg_n l = 0" "lg_queue l = []"
  shows "lg_played l = play db (all_admitted db evs (ledger_start s)) (s, [])"
proof -
  have "lg_upserts l = []" using upserts_in_batch_run [OF assms(1)] assms(2) by (simp add: ledger_start_def)
  with assms(3) have "pending l = []" by (simp add: pending_def)
  with ledger_run_play [OF assms(1)] show ?thesis by simp
qed

text \<open>
  C9. Batching does not show. However producers and consumer interleave, wherever the
  batches end and whichever calls of SQLite fail, the table and the answers so far,
  completed by what is still in the batch and in the queue, are those of playing the
  accepted mutations one after the other; when the consumer is idle they are exactly that.
\<close>

theorem ledger_plays_in_order:
  assumes "ledger_run db evs (ledger_start s) = Some l"
  shows "play db (pending l) (lg_played l) = play db (all_admitted db evs (ledger_start s)) (s, []) \<and>
    (lg_n l = 0 \<and> lg_queue l = [] \<longrightarrow> lg_played l = play db (all_admitted db evs (ledger_start s)) (s, []))"
  using ledger_run_play [OF assms] ledger_idle [OF assms] by simp

definition quiet_db :: sqlite where
  "quiet_db = \<lparr>db_fail = (\<lambda>_. None), db_now = (\<lambda>_. ''now''), db_newest_first = rev\<rparr>"

definition sample_entry :: "string \<Rightarrow> TransferState \<Rightarrow> TerminalEntry" where
  "sample_entry i st =
     \<lparr>e_session_id = ''s'', e_id = i, e_direction = Download, e_local = ''l'', e_remote = ''r'', e_bytes_done = 1,
      e_bytes_total = 2, e_state = st, e_error = None\<rparr>"

definition empty_repo :: TransferRepo where
  "empty_repo = \<lparr>rows = [], calls = 0\<rparr>"

abbreviation sample_events :: "ledger_event list" where
  "sample_events \<equiv> [Report (sample_entry ''a'' Paused), Report (sample_entry ''b'' Running), Request (ReqRemove ''a'') 7, TakeOne, TakeOne, EndBatch]"

lemmas ledger_defs =
  ledger_start_def on_terminal_def sample_entry_def settled_def QUEUE_CAP_def BATCH_def send_reliable_def consume_take_def
  consume_end_def into_record_def repo_upsert_def statement_def quiet_db_def upsert_row_def repo_get_def repo_delete_def
  empty_repo_def Let_def

theorem ledger_plays_in_order_witness:
  "\<exists>l. ledger_run quiet_db sample_events (ledger_start empty_repo) = Some l \<and>
     lg_played l = play quiet_db [Upsert (into_record (sample_entry ''a'' Paused)), Remove ''a'' 7] (empty_repo, []) \<and>
     rows (fst (lg_played l)) = []"
proof -
  have run: "\<exists>l. ledger_run quiet_db sample_events (ledger_start empty_repo) = Some l \<and> lg_n l = 0 \<and> lg_queue l = [] \<and> rows (fst (lg_played l)) = []"
    by (simp add: ledger_defs)
  have adm: "all_admitted quiet_db sample_events (ledger_start empty_repo) = [Upsert (into_record (sample_entry ''a'' Paused)), Remove ''a'' 7]"
    by (simp add: ledger_defs)
  from run obtain l where l: "ledger_run quiet_db sample_events (ledger_start empty_repo) = Some l" "lg_n l = 0" "lg_queue l = []"
    "rows (fst (lg_played l)) = []" by blast
  from ledger_plays_in_order [OF l(1)] l adm show ?thesis by auto
qed

section \<open>Rows\<close>

text \<open>What any statement does to the table: keep it, drop rows, or one upsert.\<close>

lemma statement_rows:
  assumes "statement db f s = (res, s')"
  shows "rows s' = rows s \<or> rows s' = snd (f (db_now db (calls s)) (rows s))"
  using assms by (auto simp: statement_def Let_def split: option.splits prod.splits)

lemma delete_hits_rows:
  "delete_hits db states rs hit s = (res, s') \<Longrightarrow> \<exists>P. rows s' = filter P (rows s)"
proof (induction rs arbitrary: hit s)
  case Nil
  then show ?case by (intro exI [of _ "\<lambda>_. True"]) simp
next
  case (Cons r rs)
  show ?case
  proof (cases "tr_state r \<in> set states")
    case True
    obtain d s1 where d: "repo_delete db (tr_id r) s = (d, s1)" by fastforce
    then have s1: "rows s1 = rows s \<or> rows s1 = filter (\<lambda>x. tr_id x \<noteq> tr_id r) (rows s)"
      unfolding repo_delete_def by (auto dest!: statement_rows)
    then obtain Q where "rows s1 = filter Q (rows s)" using filter_True [of "rows s" "\<lambda>_. True"] by metis
    moreover have "\<exists>P. rows s' = filter P (rows s1)"
    proof (cases d)
      case (Inl e)
      with Cons.prems True d have "rows s' = filter (\<lambda>_. True) (rows s1)" by simp
      then show ?thesis by blast
    next
      case (Inr u)
      with Cons True d show ?thesis by simp
    qed
    ultimately show ?thesis by (metis filter_filter)
  next
    case False
    with Cons show ?thesis by simp
  qed
qed

lemma exec_rows:
  assumes "exec_mutation db m (s, acks) = (s', acks')"
  shows "(\<exists>P. rows s' = filter P (rows s)) \<or> (\<exists>r now. m = Upsert r \<and> rows s' = upsert_row now r (rows s))"
proof -
  have same: "\<exists>P. xs = filter P xs" for xs :: "TransferRecord list" by (rule exI [of _ "\<lambda>_. True"]) simp
  have none: "\<exists>P. [] = filter P xs" for xs :: "TransferRecord list" by (rule exI [of _ "\<lambda>_. False"]) simp
  show ?thesis
  proof (cases m)
    case (Upsert r)
    with assms have "repo_upsert db r s = (fst (repo_upsert db r s), s')" by (simp add: prod_eq_iff)
    with Upsert same show ?thesis unfolding repo_upsert_def by (auto dest!: statement_rows)
  next
    case (ClearSession sid states k)
    obtain res s1 where q: "for_session db sid s = (res, s1)" by fastforce
    then have s1: "rows s1 = rows s" unfolding for_session_def by (auto dest!: statement_rows)
    show ?thesis
    proof (cases res)
      case (Inl e)
      with assms ClearSession q s1 same [of "rows s"] show ?thesis by simp
    next
      case (Inr rs)
      with assms ClearSession q delete_hits_rows [of db states rs "[]" s1] s1 show ?thesis by (auto split: prod.splits)
    qed
  qed (use assms same none in \<open>auto simp: repo_get_def repo_delete_def repo_clear_all_def dest!: statement_rows
        split: prod.splits sum.splits option.splits\<close>)
qed

text \<open>The well-formed table: identifiers are unique and every row has come to rest.\<close>

definition resting :: "TransferRecord \<Rightarrow> bool" where
  "resting r \<longleftrightarrow> tr_state r \<in> {''paused'', ''done'', ''failed'', ''canceled''}"

definition table_ok :: "TransferRecord list \<Rightarrow> bool" where
  "table_ok t \<longleftrightarrow> distinct (map tr_id t) \<and> list_all resting t"

fun resting_mutation :: "Mutation \<Rightarrow> bool" where
  "resting_mutation (Upsert r) = resting r"
| "resting_mutation _ = True"

lemma tr_id_overwrite [simp]: "tr_id (overwrite_row now r x) = tr_id x"
  by (simp add: overwrite_row_def)

lemma table_ok_upsert: "table_ok t \<Longrightarrow> resting r \<Longrightarrow> table_ok (upsert_row now r t)"
  by (auto simp: table_ok_def upsert_row_def resting_def overwrite_row_def list_all_iff comp_def if_distrib cong: if_cong)

lemma table_ok_filter: "table_ok t \<Longrightarrow> table_ok (filter P t)"
  by (auto simp: table_ok_def list_all_iff distinct_map_filter)

lemma table_ok_exec:
  assumes "table_ok (rows (fst p))" "resting_mutation m"
  shows "table_ok (rows (fst (exec_mutation db m p)))"
proof -
  obtain s acks s' acks' where p: "p = (s, acks)" "exec_mutation db m p = (s', acks')" by (metis prod.exhaust)
  with exec_rows [of db m s acks s' acks'] assms show ?thesis
    by (auto intro: table_ok_filter table_ok_upsert)
qed

lemma table_ok_play:
  "table_ok (rows (fst p)) \<Longrightarrow> list_all resting_mutation ms \<Longrightarrow> table_ok (rows (fst (play db ms p)))"
  by (induction ms arbitrary: p) (simp_all add: table_ok_exec)

definition ledger_ok :: "TransferLedger \<Rightarrow> bool" where
  "ledger_ok l \<longleftrightarrow> table_ok (rows (fst (lg_played l))) \<and> list_all resting_mutation (pending l) \<and> length (lg_queue l) \<le> QUEUE_CAP"

lemma resting_record: "settled (e_state e) \<Longrightarrow> resting (into_record e)"
  by (auto simp: settled_def resting_def into_record_def)

lemma resting_request [simp]: "resting_mutation (request_mutation q k)"
  by (cases q) simp_all

lemma resting_upserts: "list_all resting_mutation (map Upsert rs) = list_all resting rs"
  by (simp add: list_all_iff)

lemma ledger_ok_step:
  assumes "ledger_ok l" "ledger_step db ev l = Some l'"
  shows "ledger_ok l'"
proof (cases ev)
  case TakeOne
  with assms(2) obtain m ms where q: "lg_queue l = m # ms" by (auto simp: consume_take_def split: if_splits list.splits)
  have up: "list_all resting_mutation (map Upsert (lg_upserts l))" "resting_mutation m" "list_all resting_mutation ms"
    using assms(1) q by (auto simp: ledger_ok_def pending_def)
  have "table_ok (rows (fst (exec_mutation db m (flush db (lg_upserts l) (lg_played l)))))"
    using assms(1) up by (simp add: ledger_ok_def flush_play table_ok_exec table_ok_play)
  with assms TakeOne q up show ?thesis
    by (cases m) (auto simp: consume_take_def ledger_ok_def pending_def Let_def split: if_splits)
next
  case EndBatch
  with assms show ?thesis
    by (auto simp: consume_end_def ledger_ok_def pending_def flush_play resting_upserts table_ok_play split: if_splits)
qed (use assms in \<open>auto simp: on_terminal_def send_reliable_def ledger_ok_def pending_def resting_record split: if_splits\<close>)

text \<open>
  The table only ever holds transfers that have come to rest: whatever is reported,
  requested and interrupted, every row is paused, done, failed or canceled, no identifier
  has two rows, and the queue stays within its capacity.
\<close>

theorem history_rows_rest:
  assumes "ledger_run db evs (ledger_start s) = Some l" "table_ok (rows s)"
  shows "distinct (map tr_id (rows (fst (lg_played l)))) \<and>
    list_all (\<lambda>r. tr_state r \<in> set (map state_str [Paused, Done, Failed, Canceled])) (rows (fst (lg_played l))) \<and>
    length (lg_queue l) \<le> 4096"
proof -
  have "ledger_ok l' " if "ledger_run db evs l0 = Some l'" "ledger_ok l0" for evs l0 l'
    using that by (induction evs arbitrary: l0) (auto split: option.splits intro: ledger_ok_step)
  moreover have "ledger_ok (ledger_start s)" using assms(2) by (simp add: ledger_ok_def) (simp add: ledger_start_def)
  ultimately have "ledger_ok l" using assms(1) by blast
  then show ?thesis by (auto simp: ledger_ok_def table_ok_def resting_def [abs_def] QUEUE_CAP_def)
qed

theorem history_rows_rest_witness:
  "\<exists>l. ledger_run quiet_db sample_events (ledger_start empty_repo) = Some l \<and> distinct (map tr_id (rows (fst (lg_played l))))"
proof -
  have "\<exists>l. ledger_run quiet_db sample_events (ledger_start empty_repo) = Some l" by (simp add: ledger_defs)
  then obtain l where l: "ledger_run quiet_db sample_events (ledger_start empty_repo) = Some l" by blast
  have "table_ok (rows empty_repo)" by (simp add: table_ok_def empty_repo_def)
  with history_rows_rest [OF l] l show ?thesis by blast
qed

section \<open>Removing\<close>

definition has_row :: "string \<Rightarrow> TransferRepo \<Rightarrow> bool" where
  "has_row i s \<longleftrightarrow> i \<in> set (map tr_id (rows s))"

fun upserts_id :: "string \<Rightarrow> Mutation \<Rightarrow> bool" where
  "upserts_id i (Upsert r) = (tr_id r = i)"
| "upserts_id i _ = False"

lemma exec_absent:
  assumes "\<not> has_row i (fst p)" "\<not> upserts_id i m"
  shows "\<not> has_row i (fst (exec_mutation db m p))"
proof -
  obtain s acks s' acks' where p: "p = (s, acks)" "exec_mutation db m p = (s', acks')" by (metis prod.exhaust)
  with exec_rows [of db m s acks s' acks'] assms show ?thesis
    by (auto simp: has_row_def upsert_row_def split: if_splits)
qed

lemma play_absent:
  "\<not> has_row i (fst p) \<Longrightarrow> \<not> list_ex (upserts_id i) ms \<Longrightarrow> \<not> has_row i (fst (play db ms p))"
  by (induction ms arbitrary: p) (auto simp: exec_absent)

lemma remove_exec:
  assumes "db_fail db = (\<lambda>_. None)"
  shows "\<not> has_row i (fst (exec_mutation db (Remove i k) p))"
    "snd (exec_mutation db (Remove i k) p) = snd p @ [(k, RowReply (Ok (find (\<lambda>r. tr_id r = i) (rows (fst p)))))]"
proof -
  have "find (\<lambda>r. tr_id r = i) t = None \<Longrightarrow> i \<notin> tr_id ` set t" for t by (auto simp: find_None_iff)
  with assms show "\<not> has_row i (fst (exec_mutation db (Remove i k) p))"
    by (cases p) (auto simp: has_row_def repo_get_def repo_delete_def statement_def split: option.splits)
  from assms show "snd (exec_mutation db (Remove i k) p) = snd p @ [(k, RowReply (Ok (find (\<lambda>r. tr_id r = i) (rows (fst p)))))]"
    by (cases p) (auto simp: repo_get_def repo_delete_def statement_def split: option.splits)
qed

lemma find_upsert_same:
  "\<exists>x. find (\<lambda>x. tr_id x = tr_id r) (upsert_row now r t) = Some x \<and> tr_state x = tr_state r \<and> tr_bytes_done x = tr_bytes_done r"
proof (cases "tr_id r \<in> set (map tr_id t)")
  case True
  then have "\<exists>x. find (\<lambda>x. tr_id x = tr_id r) (map (\<lambda>x. if tr_id x = tr_id r then overwrite_row now r x else x) t) = Some x \<and>
      tr_state x = tr_state r \<and> tr_bytes_done x = tr_bytes_done r"
    by (induction t) (auto simp: overwrite_row_def)
  with True show ?thesis by (simp add: upsert_row_def)
next
  case False
  then show ?thesis by (induction t) (auto simp: upsert_row_def)
qed

lemma find_upsert_other:
  "tr_id r \<noteq> i \<Longrightarrow> find (\<lambda>x. tr_id x = i) (upsert_row now r t) = find (\<lambda>x. tr_id x = i) t"
proof -
  assume "tr_id r \<noteq> i"
  then have "find (\<lambda>x. tr_id x = i) (map (\<lambda>x. if tr_id x = tr_id r then overwrite_row now r x else x) t) = find (\<lambda>x. tr_id x = i) t"
    "find (\<lambda>x. tr_id x = i) (t @ [r\<lparr>tr_updated_at := now\<rparr>]) = find (\<lambda>x. tr_id x = i) t"
    by (induction t) auto
  then show ?thesis by (simp add: upsert_row_def)
qed

lemma play_others:
  assumes "db_fail db = (\<lambda>_. None)" "list_all (\<lambda>m. \<exists>r. m = Upsert r \<and> tr_id r \<noteq> i) ms"
  shows "find (\<lambda>x. tr_id x = i) (rows (fst (play db ms p))) = find (\<lambda>x. tr_id x = i) (rows (fst p))"
  using assms(2)
proof (induction ms arbitrary: p)
  case (Cons m ms)
  then obtain r where r: "m = Upsert r" "tr_id r \<noteq> i" by auto
  have "find (\<lambda>x. tr_id x = i) (rows (fst (exec_mutation db m p))) = find (\<lambda>x. tr_id x = i) (rows (fst p))"
    using assms(1) r by (cases p) (simp add: repo_upsert_def statement_def find_upsert_other)
  with Cons show ?case by simp
qed simp

text \<open>
  A removed transfer does not come back. When the calls of SQLite succeed, a removal
  queued behind a report of the same transfer, with only reports of other transfers in
  between, answers with the row of that report; and unless a later report names the
  transfer again, the row is gone once the consumer is idle, however the batches fell.
\<close>

theorem removed_row_stays_removed:
  assumes "ledger_run db evs (ledger_start s) = Some l" "lg_n l = 0" "lg_queue l = []" "db_fail db = (\<lambda>_. None)"
    and "all_admitted db evs (ledger_start s) = pre @ Upsert r # mid @ Remove (tr_id r) k # post"
    and "list_all (\<lambda>m. case m of Upsert r' \<Rightarrow> tr_id r' \<noteq> tr_id r | _ \<Rightarrow> False) mid"
    and "list_all (\<lambda>m. case m of Upsert r' \<Rightarrow> tr_id r' \<noteq> tr_id r | _ \<Rightarrow> True) post"
  shows "tr_id r \<notin> set (map tr_id (rows (fst (lg_played l)))) \<and>
    (\<exists>row. (k, RowReply (Ok (Some row))) \<in> set (snd (lg_played l)) \<and> tr_state row = tr_state r \<and> tr_bytes_done row = tr_bytes_done r)"
proof -
  define p0 where "p0 = play db (pre @ [Upsert r]) (s, [])"
  define p1 where "p1 = play db mid p0"
  define p2 where "p2 = exec_mutation db (Remove (tr_id r) k) p1"
  have final: "lg_played l = play db post p2"
    using ledger_idle [OF assms(1-3)] assms(5) by (simp add: p0_def p1_def p2_def)
  have mid: "list_all (\<lambda>m. \<exists>r'. m = Upsert r' \<and> tr_id r' \<noteq> tr_id r) mid"
    using assms(6) by (induction mid) (auto split: Mutation.splits)
  have post: "\<not> list_ex (upserts_id (tr_id r)) post"
    using assms(7) by (auto simp: list_all_iff list_ex_iff elim!: upserts_id.elims split: Mutation.splits)
  have "\<exists>x. find (\<lambda>x. tr_id x = tr_id r) (rows (fst p0)) = Some x \<and> tr_state x = tr_state r \<and> tr_bytes_done x = tr_bytes_done r"
    using assms(4) find_upsert_same
    by (cases "play db pre (s, [])") (auto simp: p0_def repo_upsert_def statement_def)
  then obtain x where x: "find (\<lambda>x. tr_id x = tr_id r) (rows (fst p1)) = Some x" "tr_state x = tr_state r" "tr_bytes_done x = tr_bytes_done r"
    using play_others [OF assms(4) mid, of p0] by (auto simp: p1_def)
  have acks: "\<exists>more. snd (play db ms p) = snd p @ more" for ms p
  proof (induction ms arbitrary: p)
    case (Cons m ms)
    have "\<exists>more. snd (exec_mutation db m p) = snd p @ more"
      by (cases p; cases m) (auto split: prod.splits sum.splits option.splits)
    with Cons.IH [of "exec_mutation db m p"] show ?case by auto
  qed simp
  obtain more where "snd (lg_played l) = snd p2 @ more" using acks [of post p2] final by auto
  then have "(k, RowReply (Ok (Some x))) \<in> set (snd (lg_played l))"
    using remove_exec(2) [OF assms(4), of "tr_id r" k p1] x(1) by (simp add: p2_def)
  moreover have "\<not> has_row (tr_id r) (fst (lg_played l))"
    unfolding final by (intro play_absent post) (simp add: p2_def remove_exec(1) [OF assms(4)])
  ultimately show ?thesis using x(2,3) by (auto simp: has_row_def)
qed

theorem removed_row_stays_removed_witness:
  "\<exists>l. ledger_run quiet_db sample_events (ledger_start empty_repo) = Some l \<and> ''a'' \<notin> set (map tr_id (rows (fst (lg_played l)))) \<and>
     (\<exists>row. (7, RowReply (Ok (Some row))) \<in> set (snd (lg_played l)) \<and> tr_state row = ''paused'')"
proof -
  have "\<exists>l. ledger_run quiet_db sample_events (ledger_start empty_repo) = Some l \<and> lg_n l = 0 \<and> lg_queue l = []"
    by (simp add: ledger_defs)
  then obtain l where l: "ledger_run quiet_db sample_events (ledger_start empty_repo) = Some l" "lg_n l = 0" "lg_queue l = []" by blast
  have adm: "all_admitted quiet_db sample_events (ledger_start empty_repo) =
      [] @ Upsert (into_record (sample_entry ''a'' Paused)) # [] @ Remove (tr_id (into_record (sample_entry ''a'' Paused))) 7 # []"
    by (simp add: ledger_defs)
  have ok: "db_fail quiet_db = (\<lambda>_. None)" by (simp add: quiet_db_def)
  have r: "tr_id (into_record (sample_entry ''a'' Paused)) = ''a''" "tr_state (into_record (sample_entry ''a'' Paused)) = ''paused''"
    by (simp_all add: into_record_def sample_entry_def)
  from removed_row_stays_removed [OF l ok adm] l(1) r show ?thesis by auto
qed

section \<open>Clearing a session\<close>

lemma count_delete:
  assumes "distinct (map tr_id t)"
  shows "length (filter P t) \<le> Suc (length (filter P (filter (\<lambda>r. tr_id r \<noteq> i) t)))"
  using assms
proof (induction t)
  case (Cons x t)
  show ?case
  proof (cases "tr_id x = i")
    case True
    with Cons.prems have "filter (\<lambda>r. tr_id r \<noteq> i) t = t" by (auto simp: filter_id_conv) (metis imageI)
    with True show ?thesis by simp
  next
    case False
    with Cons show ?thesis by simp
  qed
qed simp

lemma delete_hits_count:
  "delete_hits db states rs hit s = (res, s') \<Longrightarrow> distinct (map tr_id (rows s)) \<Longrightarrow>
     length (filter P (rows s)) \<le> length (filter P (rows s')) + length rs"
proof (induction rs arbitrary: hit s)
  case (Cons r rs)
  show ?case
  proof (cases "tr_state r \<in> set states")
    case True
    obtain d s1 where d: "repo_delete db (tr_id r) s = (d, s1)" by fastforce
    then have s1: "rows s1 = rows s \<or> rows s1 = filter (\<lambda>x. tr_id x \<noteq> tr_id r) (rows s)"
      unfolding repo_delete_def by (auto dest!: statement_rows)
    have cnt: "length (filter P (rows s)) \<le> Suc (length (filter P (rows s1)))"
      using s1 count_delete [OF Cons.prems(2), of P "tr_id r"] by auto
    have dis: "distinct (map tr_id (rows s1))" using s1 Cons.prems(2) by (auto simp: distinct_map_filter)
    show ?thesis
    proof (cases d)
      case (Inl e)
      with Cons.prems(1) True d cnt show ?thesis by simp
    next
      case (Inr u)
      with Cons.prems(1) True d have "delete_hits db states rs (hit @ [r]) s1 = (res, s')" by simp
      from Cons.IH [OF this dis] cnt show ?thesis by simp
    qed
  next
    case False
    with Cons.prems have "delete_hits db states rs hit s = (res, s')" by simp
    from Cons.IH [OF this Cons.prems(2)] show ?thesis by simp
  qed
qed simp

text \<open>
  Clearing a session is not complete. The rows to delete are looked for among the 200
  newest rows of the session only, so that of more than 200 rows that should go at least
  the excess stays, whatever order SQLite returns them in, and the answer does not say so.
\<close>

theorem clear_session_leaves_rows:
  assumes "distinct (map tr_id (rows s))"
    and "200 + n \<le> length (filter (\<lambda>r. tr_session_id r = sid \<and> tr_state r \<in> set (scope_states sc)) (rows s))"
    and "exec_mutation db (request_mutation (ReqClear sid sc) k) (s, acks) = (s', acks')"
  shows "n \<le> length (filter (\<lambda>r. tr_session_id r = sid \<and> tr_state r \<in> set (scope_states sc)) (rows s'))"
proof -
  let ?P = "\<lambda>r. tr_session_id r = sid \<and> tr_state r \<in> set (scope_states sc)"
  obtain res s1 where q: "for_session db sid s = (res, s1)" by fastforce
  then have s1: "rows s1 = rows s" unfolding for_session_def by (auto dest!: statement_rows)
  show ?thesis
  proof (cases res)
    case (Inl e)
    with assms q s1 show ?thesis by simp
  next
    case (Inr rs)
    with q have "length rs \<le> 200" by (auto simp: for_session_def statement_def Let_def split: option.splits)
    moreover obtain out where "delete_hits db (scope_states sc) rs [] s1 = (out, s')"
      using assms(3) q Inr by (auto split: prod.splits)
    then have "length (filter ?P (rows s1)) \<le> length (filter ?P (rows s')) + length rs"
      using assms(1) s1 by (intro delete_hits_count) simp_all
    ultimately show ?thesis using assms(2) unfolding s1 by linarith
  qed
qed

definition many_rows :: TransferRepo where
  "many_rows = \<lparr>rows = map (\<lambda>j. (into_record (sample_entry (show_nat j) Done))) [0..<201], calls = 0\<rparr>"

theorem clear_session_leaves_rows_witness:
  "1 \<le> length (filter (\<lambda>r. tr_session_id r = ''s'' \<and> tr_state r \<in> set (scope_states ScopeDone))
     (rows (fst (exec_mutation quiet_db (request_mutation (ReqClear ''s'' ScopeDone) 0) (many_rows, [])))))"
proof -
  have dis: "distinct (map tr_id (rows many_rows))"
    by (auto simp: many_rows_def into_record_def sample_entry_def distinct_map inj_on_def show_nat_inject comp_def)
  have "filter (\<lambda>r. tr_session_id r = ''s'' \<and> tr_state r \<in> set (scope_states ScopeDone)) (rows many_rows) = rows many_rows"
    by (auto simp: many_rows_def into_record_def sample_entry_def intro!: filter_True)
  then have cnt: "200 + 1 \<le> length (filter (\<lambda>r. tr_session_id r = ''s'' \<and> tr_state r \<in> set (scope_states ScopeDone)) (rows many_rows))"
    by (simp add: many_rows_def)
  obtain s' acks' where "exec_mutation quiet_db (request_mutation (ReqClear ''s'' ScopeDone) 0) (many_rows, []) = (s', acks')" by fastforce
  from clear_session_leaves_rows [OF dis cnt this] this show ?thesis by simp
qed

end
