(* ===== verification/Transfer_Events.thy ===== *)
theory Transfer_Events
  imports Rust_Text "HOL-Library.AList"
begin

text \<open>
  The stream of transfer events: \<open>transfer_subscribe\<close> and its frames
  (\<^verbatim>\<open>src/crates/app/src/sftp.rs\<close>), with the side of the front end that applies them
  (\<^verbatim>\<open>src/app/ui/src/state/transfer-store.ts\<close>).

  The back end compares the transfers and jobs of a session with what it sent last, twice a
  second, and sends the differences, numbered per entity. What exists at a tick is the
  argument of the tick. A payload stands for its JSON text, which is also its fingerprint;
  \<open>len\<close> gives the length of the text of an event. The order in which a \<open>HashMap\<close> lists what is
  gone is that of the list here; the events of different entities commute. One subscription is
  looked at, so generations do not appear, and neither does the one-off merge with the history;
  a payload names the entity its key names.
\<close>

section \<open>Events and frames\<close>

datatype kind = KTransfer | KJob

fun key_of :: "kind \<Rightarrow> string \<Rightarrow> string" where
  "key_of KTransfer i = ''t:'' @ i"
| "key_of KJob i = ''j:'' @ i"

definition kind_of :: "string \<Rightarrow> kind" where
  "kind_of key = (if starts_with key ''j:'' then KJob else KTransfer)"

lemma key_of_simps [simp]: "kind_of (key_of kd i) = kd" "drop 2 (key_of kd i) = i"
  by (cases kd; simp add: kind_of_def starts_with_def)+

lemma key_of_inject [simp]: "key_of kd i = key_of kd' i' \<longleftrightarrow> kd = kd' \<and> i = i'"
  by (metis key_of_simps)

text \<open>An upsert carries the whole entity, a removal nothing.\<close>

record 'p TransferEvent =
  ev_id :: string
  ev_kind :: kind
  ev_seq :: nat
  ev_payload :: "'p option"

definition MAX_EVENTS_PER_FRAME :: nat where
  "MAX_EVENTS_PER_FRAME = 256"

definition MAX_FRAME_BYTES :: nat where
  "MAX_FRAME_BYTES = 256 * 1024"

definition HEARTBEAT_TICKS :: nat where
  "HEARTBEAT_TICKS = 10"

fun chunk_loop :: "('e \<Rightarrow> nat) \<Rightarrow> 'e list \<Rightarrow> nat \<Rightarrow> 'e list \<Rightarrow> 'e list list" where
  "chunk_loop len cur bytes [] = (if cur = [] then [] else [cur])"
| "chunk_loop len cur bytes (e # es) =
     (let n = len e + 1
      in if cur \<noteq> [] \<and> (length cur \<ge> MAX_EVENTS_PER_FRAME \<or> bytes + n > MAX_FRAME_BYTES)
         then cur # chunk_loop len [e] (64 + n) es
         else chunk_loop len (cur @ [e]) (bytes + n) es)"

definition chunk_frames :: "('e \<Rightarrow> nat) \<Rightarrow> 'e list \<Rightarrow> 'e list list" where
  "chunk_frames len es = chunk_loop len [] 64 es"

definition snapshot_frames :: "('e \<Rightarrow> nat) \<Rightarrow> 'e list \<Rightarrow> 'e list list" where
  "snapshot_frames len es = (let fs = chunk_frames len es in if fs = [] then [[]] else fs)"

text \<open>The JSON text of a frame around the texts of its events.\<close>

fun comma_join :: "string list \<Rightarrow> string" where
  "comma_join [] = []"
| "comma_join [x] = x"
| "comma_join (x # y # zs) = x @ '','' @ comma_join (y # zs)"

definition quoted :: "string \<Rightarrow> string" where
  "quoted w = [CHR 34] @ w @ [CHR 34]"

definition frame_json :: "string \<Rightarrow> string \<Rightarrow> string list \<Rightarrow> string" where
  "frame_json ty generation texts =
     ''{'' @ quoted ''events'' @ '':['' @ comma_join texts @ ''],'' @ quoted ''generation'' @ '':'' @ generation @
     '','' @ quoted ''type'' @ '':'' @ quoted ty @ ''}''"

section \<open>The back end\<close>

record 'p subscription =
  sb_seqs :: "string \<Rightarrow> nat"
  sb_prev :: "(string \<times> 'p) list"
  sb_idle :: nat

type_synonym 'p entities = "(string \<times> kind \<times> 'p) list"

definition next_seq :: "string \<Rightarrow> 'p subscription \<Rightarrow> 'p subscription" where
  "next_seq key s = s\<lparr>sb_seqs := (sb_seqs s)(key := sb_seqs s key + 1)\<rparr>"

text \<open>The loop over what exists now.\<close>

fun diff_upserts :: "'p entities \<Rightarrow> 'p subscription \<Rightarrow> 'p TransferEvent list \<times> 'p subscription" where
  "diff_upserts [] s = ([], s)"
| "diff_upserts ((key, kd, p) # cur) s =
     (if map_of (sb_prev s) key = Some p then diff_upserts cur s
      else let s = next_seq key (s\<lparr>sb_prev := AList.update key p (sb_prev s)\<rparr>);
               (es, s') = diff_upserts cur s
           in (\<lparr>ev_id = key, ev_kind = kd, ev_seq = sb_seqs s key, ev_payload = Some p\<rparr> # es, s'))"

text \<open>The loop over what is gone.\<close>

fun diff_removes :: "string list \<Rightarrow> 'p subscription \<Rightarrow> 'p TransferEvent list \<times> 'p subscription" where
  "diff_removes [] s = ([], s)"
| "diff_removes (key # gone) s =
     (let s = next_seq key (s\<lparr>sb_prev := AList.delete key (sb_prev s)\<rparr>);
          (es, s') = diff_removes gone s
      in (\<lparr>ev_id = key, ev_kind = kind_of key, ev_seq = sb_seqs s key, ev_payload = None\<rparr> # es, s'))"

definition gone_keys :: "'p entities \<Rightarrow> 'p subscription \<Rightarrow> string list" where
  "gone_keys cur s = filter (\<lambda>k. k \<notin> fst ` set cur) (map fst (sb_prev s))"

datatype 'p frame =
    Snapshot "'p TransferEvent list"
  | Events "'p TransferEvent list"
  | Heartbeat

definition tick_batch :: "'p entities \<Rightarrow> 'p subscription \<Rightarrow> 'p TransferEvent list \<times> 'p subscription" where
  "tick_batch cur s =
     (let (ups, s) = diff_upserts cur s;
          (rms, s) = diff_removes (gone_keys cur s) s
      in (ups @ rms, s))"

definition tick :: "('p TransferEvent \<Rightarrow> nat) \<Rightarrow> 'p entities \<Rightarrow> 'p subscription \<Rightarrow> 'p frame list \<times> 'p subscription" where
  "tick len cur s =
     (let (batch, s) = tick_batch cur s
      in if batch = [] then
           if sb_idle s + 1 \<ge> HEARTBEAT_TICKS then ([Heartbeat], s\<lparr>sb_idle := 0\<rparr>)
           else ([], s\<lparr>sb_idle := sb_idle s + 1\<rparr>)
         else (map Events (chunk_frames len batch), s\<lparr>sb_idle := 0\<rparr>))"

definition subscription_new :: "'p subscription" where
  "subscription_new = \<lparr>sb_seqs = (\<lambda>_. 0), sb_prev = [], sb_idle = 0\<rparr>"

text \<open>The first frames: everything there is, each with its first number.\<close>

fun snapshot_events :: "'p entities \<Rightarrow> 'p subscription \<Rightarrow> 'p TransferEvent list \<times> 'p subscription" where
  "snapshot_events [] s = ([], s)"
| "snapshot_events ((key, kd, p) # cur) s =
     (let s = next_seq key (s\<lparr>sb_prev := AList.update key p (sb_prev s)\<rparr>);
          (es, s') = snapshot_events cur s
      in (\<lparr>ev_id = key, ev_kind = kd, ev_seq = sb_seqs s key, ev_payload = Some p\<rparr> # es, s'))"

definition subscribe_start :: "('p TransferEvent \<Rightarrow> nat) \<Rightarrow> 'p entities \<Rightarrow> 'p frame list \<times> 'p subscription" where
  "subscribe_start len cur =
     (let (es, s) = snapshot_events cur subscription_new in (map Snapshot (snapshot_frames len es), s))"

text \<open>The whole subscription: what is found first, then what each tick finds.\<close>

fun tick_loop :: "('p TransferEvent \<Rightarrow> nat) \<Rightarrow> 'p entities list \<Rightarrow> 'p subscription \<Rightarrow> 'p frame list \<times> 'p subscription" where
  "tick_loop len [] s = ([], s)"
| "tick_loop len (cur # curs) s =
     (let (fs, s) = tick len cur s; (gs, s) = tick_loop len curs s in (fs @ gs, s))"

definition transfer_subscribe :: "('p TransferEvent \<Rightarrow> nat) \<Rightarrow> 'p entities \<Rightarrow> 'p entities list \<Rightarrow> 'p frame list \<times> 'p subscription" where
  "transfer_subscribe len first curs =
     (let (fs, s) = subscribe_start len first; (gs, s) = tick_loop len curs s in (fs @ gs, s))"

section \<open>The front end\<close>

record 'p ui =
  ui_seqs :: "string \<Rightarrow> nat"
  ui_transfers :: "(string \<times> 'p) list"
  ui_jobs :: "(string \<times> 'p) list"

datatype 'p applied = Applied "'p ui" | Gap

definition items :: "kind \<Rightarrow> 'p ui \<Rightarrow> (string \<times> 'p) list" where
  "items kd u = (case kd of KTransfer \<Rightarrow> ui_transfers u | KJob \<Rightarrow> ui_jobs u)"

definition set_items :: "kind \<Rightarrow> (string \<times> 'p) list \<Rightarrow> 'p ui \<Rightarrow> 'p ui" where
  "set_items kd xs u = (case kd of KTransfer \<Rightarrow> u\<lparr>ui_transfers := xs\<rparr> | KJob \<Rightarrow> u\<lparr>ui_jobs := xs\<rparr>)"

definition apply_event :: "'p TransferEvent \<Rightarrow> 'p ui \<Rightarrow> 'p ui" where
  "apply_event e u =
     (let u = u\<lparr>ui_seqs := (ui_seqs u)(ev_id e := ev_seq e)\<rparr>; i = drop 2 (ev_id e); xs = items (ev_kind e) u
      in set_items (ev_kind e) (case ev_payload e of None \<Rightarrow> AList.delete i xs | Some p \<Rightarrow> AList.update i p xs) u)"

fun applyTransferEvents :: "'p TransferEvent list \<Rightarrow> 'p ui \<Rightarrow> 'p applied" where
  "applyTransferEvents [] u = Applied u"
| "applyTransferEvents (e # es) u =
     (let last = ui_seqs u (ev_id e)
      in if ev_seq e \<le> last then applyTransferEvents es u
         else if ev_seq e > last + 1 then Gap
         else applyTransferEvents es (apply_event e u))"

text \<open>The newest \<open>cap\<close> entities that have ended are kept, and all others.\<close>

fun trim_from_end :: "('p \<Rightarrow> bool) \<Rightarrow> nat \<Rightarrow> (string \<times> 'p) list \<Rightarrow> (string \<times> 'p) list" where
  "trim_from_end ended budget [] = []"
| "trim_from_end ended budget (x # xs) =
     (if ended (snd x) then if budget = 0 then trim_from_end ended 0 xs else x # trim_from_end ended (budget - 1) xs
      else x # trim_from_end ended budget xs)"

definition trimTerminal :: "('p \<Rightarrow> bool) \<Rightarrow> nat \<Rightarrow> (string \<times> 'p) list \<Rightarrow> (string \<times> 'p) list" where
  "trimTerminal ended cap xs = rev (trim_from_end ended cap (rev xs))"

definition MAX_TERMINAL_TRANSFERS :: nat where
  "MAX_TERMINAL_TRANSFERS = 200"

definition MAX_TERMINAL_JOBS :: nat where
  "MAX_TERMINAL_JOBS = 50"

definition trim_ui :: "(kind \<Rightarrow> 'p \<Rightarrow> bool) \<Rightarrow> 'p ui \<Rightarrow> 'p ui" where
  "trim_ui ended u =
     u\<lparr>ui_transfers := trimTerminal (ended KTransfer) MAX_TERMINAL_TRANSFERS (ui_transfers u),
       ui_jobs := trimTerminal (ended KJob) MAX_TERMINAL_JOBS (ui_jobs u)\<rparr>"

text \<open>A snapshot replaces everything.\<close>

definition load_snapshot :: "'p TransferEvent list \<Rightarrow> 'p ui" where
  "load_snapshot es =
     \<lparr>ui_seqs = (\<lambda>k. case map_of (rev (map (\<lambda>e. (ev_id e, ev_seq e)) es)) k of None \<Rightarrow> 0 | Some n \<Rightarrow> n),
      ui_transfers = List.map_filter (\<lambda>e. if ev_kind e = KTransfer then map_option (Pair (drop 2 (ev_id e))) (ev_payload e) else None) es,
      ui_jobs = List.map_filter (\<lambda>e. if ev_kind e = KJob then map_option (Pair (drop 2 (ev_id e))) (ev_payload e) else None) es\<rparr>"

definition on_frame :: "(kind \<Rightarrow> 'p \<Rightarrow> bool) \<Rightarrow> 'p frame \<Rightarrow> 'p ui \<Rightarrow> 'p applied" where
  "on_frame ended f u =
     (case f of
        Heartbeat \<Rightarrow> Applied u
      | Snapshot es \<Rightarrow> Applied (load_snapshot es)
      | Events es \<Rightarrow> (case applyTransferEvents es u of Gap \<Rightarrow> Gap | Applied u' \<Rightarrow> Applied (trim_ui ended u')))"

fun on_frames :: "(kind \<Rightarrow> 'p \<Rightarrow> bool) \<Rightarrow> 'p frame list \<Rightarrow> 'p ui \<Rightarrow> 'p applied" where
  "on_frames ended [] u = Applied u"
| "on_frames ended (f # fs) u = (case on_frame ended f u of Gap \<Rightarrow> Gap | Applied u' \<Rightarrow> on_frames ended fs u')"

section \<open>Chunks\<close>

lemma concat_chunk_loop: "concat (chunk_loop len cur bytes es) = cur @ es"
  by (induction len cur bytes es rule: chunk_loop.induct) (auto simp: Let_def)

lemma chunk_loop_bounds:
  assumes "f \<in> set (chunk_loop len cur bytes es)"
    and "bytes = 64 + (\<Sum>e\<leftarrow>cur. len e + 1)" "length cur \<le> 256" "length cur \<le> 1 \<or> bytes \<le> 262144"
  shows "f \<noteq> [] \<and> length f \<le> 256 \<and> (length f = 1 \<or> 64 + (\<Sum>e\<leftarrow>f. len e + 1) \<le> 262144)"
  using assms
proof (induction len cur bytes es rule: chunk_loop.induct)
  case (1 len cur bytes)
  then show ?case by (cases cur) (auto split: if_splits)
next
  case (2 len cur bytes e es)
  let ?n = "len e + 1"
  show ?case
  proof (cases "cur \<noteq> [] \<and> (length cur \<ge> MAX_EVENTS_PER_FRAME \<or> bytes + ?n > MAX_FRAME_BYTES)")
    case True
    then have "f = cur \<or> f \<in> set (chunk_loop len [e] (64 + ?n) es)" using "2.prems"(1) by (auto simp: Let_def)
    then show ?thesis
    proof
      assume "f = cur"
      then show ?thesis using "2.prems" True by (cases cur) auto
    next
      assume "f \<in> set (chunk_loop len [e] (64 + ?n) es)"
      then show ?thesis using "2.IH"(1) [OF refl True] by simp
    qed
  next
    case False
    then have "f \<in> set (chunk_loop len (cur @ [e]) (bytes + ?n) es)" using "2.prems"(1) by (auto simp: Let_def)
    moreover have "length (cur @ [e]) \<le> 256" "length (cur @ [e]) \<le> 1 \<or> bytes + ?n \<le> 262144"
      using False "2.prems"(3) by (auto simp: MAX_EVENTS_PER_FRAME_def MAX_FRAME_BYTES_def)
    ultimately show ?thesis using "2.IH"(2) [OF refl False] "2.prems"(2) by simp
  qed
qed

lemma length_comma_join: "xs \<noteq> [] \<Longrightarrow> length (comma_join xs) + 1 = (\<Sum>x\<leftarrow>xs. length x + 1)"
  by (induction xs rule: comma_join.induct) auto

text \<open>The frames hold the events in their order, none is empty, none has more than 256 events,
  and the JSON text of a frame is at most 256 KiB long, whatever its generation, unless it
  holds a single event.\<close>

theorem frames_are_bounded:
  assumes "length ty \<le> 8" "length generation \<le> 20"
  shows "concat (chunk_frames (\<lambda>e. length (enc e)) es) = es \<and>
    (\<forall>f \<in> set (chunk_frames (\<lambda>e. length (enc e)) es).
      f \<noteq> [] \<and> length f \<le> MAX_EVENTS_PER_FRAME \<and>
      (length f = 1 \<or> length (frame_json ty generation (map enc f)) \<le> MAX_FRAME_BYTES))"
proof (intro conjI ballI)
  show "concat (chunk_frames (\<lambda>e. length (enc e)) es) = es"
    by (simp add: chunk_frames_def concat_chunk_loop)
  fix f
  assume "f \<in> set (chunk_frames (\<lambda>e. length (enc e)) es)"
  then have *: "f \<noteq> [] \<and> length f \<le> 256 \<and> (length f = 1 \<or> 64 + (\<Sum>e\<leftarrow>f. length (enc e) + 1) \<le> 262144)"
    unfolding chunk_frames_def by (rule chunk_loop_bounds) simp_all
  then show "f \<noteq> []" "length f \<le> MAX_EVENTS_PER_FRAME" by (simp_all add: MAX_EVENTS_PER_FRAME_def)
  have "length (comma_join (map enc f)) + 1 = (\<Sum>e\<leftarrow>f. length (enc e) + 1)"
    using * length_comma_join [of "map enc f"] by (simp add: comp_def)
  then have "length (frame_json ty generation (map enc f)) \<le> 64 + (\<Sum>e\<leftarrow>f. length (enc e) + 1)"
    using assms by (simp add: frame_json_def quoted_def)
  then show "length f = 1 \<or> length (frame_json ty generation (map enc f)) \<le> MAX_FRAME_BYTES"
    using * by (auto simp: MAX_FRAME_BYTES_def)
qed

lemma frames_are_bounded_witness:
  "length (frame_json ''events'' ''7'' [''{}'', ''{}'']) \<le> MAX_FRAME_BYTES"
  using frames_are_bounded [of "''events''" "''7''" "\<lambda>e. ''{}''" "[1::nat, 2]"]
  by (simp add: chunk_frames_def MAX_EVENTS_PER_FRAME_def MAX_FRAME_BYTES_def)

section \<open>What is sent\<close>

definition is_key :: "kind \<Rightarrow> string \<Rightarrow> bool" where
  "is_key kd k \<longleftrightarrow> k = key_of kd (drop 2 k)"

lemma is_key_key_of [simp]: "is_key kd (key_of kd' i) \<longleftrightarrow> kd = kd'"
  unfolding is_key_def by auto

lemma is_key_kind_of: "is_key kd k \<Longrightarrow> is_key (kind_of k) k"
  unfolding is_key_def by (metis key_of_simps(1))

definition entities_ok :: "'p entities \<Rightarrow> bool" where
  "entities_ok cur \<longleftrightarrow> distinct (map fst cur) \<and> list_all (\<lambda>(k, kd, p). is_key kd k) cur"

definition content :: "'p entities \<Rightarrow> string \<Rightarrow> 'p option" where
  "content cur = map_of (map (\<lambda>(k, kd, p). (k, p)) cur)"

definition after_event :: "'p TransferEvent \<Rightarrow> 'p subscription \<Rightarrow> 'p subscription" where
  "after_event e s =
     s\<lparr>sb_prev := (case ev_payload e of None \<Rightarrow> AList.delete (ev_id e) (sb_prev s) | Some p \<Rightarrow> AList.update (ev_id e) p (sb_prev s)),
       sb_seqs := (sb_seqs s)(ev_id e := ev_seq e)\<rparr>"

fun emits :: "'p TransferEvent list \<Rightarrow> 'p subscription \<Rightarrow> 'p subscription \<Rightarrow> bool" where
  "emits [] s s' \<longleftrightarrow> s' = s"
| "emits (e # es) s s' \<longleftrightarrow> ev_seq e = sb_seqs s (ev_id e) + 1 \<and> is_key (ev_kind e) (ev_id e) \<and>
     emits es (after_event e s) s'"

lemma emits_append [simp]: "emits (es @ fs) s s' \<longleftrightarrow> (\<exists>m. emits es s m \<and> emits fs m s')"
  by (induction es arbitrary: s) auto

definition keys_ok :: "'p subscription \<Rightarrow> bool" where
  "keys_ok s \<longleftrightarrow> list_all (\<lambda>k. \<exists>kd. is_key kd k) (map fst (sb_prev s))"

lemma emits_diff_upserts:
  "list_all (\<lambda>(k, kd, p). is_key kd k) cur \<Longrightarrow> emits (fst (diff_upserts cur s)) s (snd (diff_upserts cur s))"
  by (induction cur s rule: diff_upserts.induct) (auto simp: Let_def split_beta next_seq_def after_event_def)

lemma emits_snapshot_events:
  "list_all (\<lambda>(k, kd, p). is_key kd k) cur \<Longrightarrow> emits (fst (snapshot_events cur s)) s (snd (snapshot_events cur s))"
  by (induction cur s rule: snapshot_events.induct) (auto simp: Let_def split_beta next_seq_def after_event_def)

lemma emits_diff_removes:
  "list_all (\<lambda>k. \<exists>kd. is_key kd k) gone \<Longrightarrow> emits (fst (diff_removes gone s)) s (snd (diff_removes gone s))"
  by (induction gone s rule: diff_removes.induct)
    (auto simp: Let_def split_beta next_seq_def after_event_def intro: is_key_kind_of)

lemma diff_upserts_keys:
  "list_all (\<lambda>(k, kd, p). is_key kd k) cur \<Longrightarrow> keys_ok s \<Longrightarrow> keys_ok (snd (diff_upserts cur s))"
proof (induction cur s rule: diff_upserts.induct)
  case (2 key kd p cur s)
  then show ?case
    by (auto simp: Let_def split_beta next_seq_def keys_ok_def list_all_iff dom_update)
qed simp

lemma snapshot_events_keys:
  "list_all (\<lambda>(k, kd, p). is_key kd k) cur \<Longrightarrow> keys_ok s \<Longrightarrow> keys_ok (snd (snapshot_events cur s))"
proof (induction cur s rule: snapshot_events.induct)
  case (2 key kd p cur s)
  then show ?case
    by (auto simp: Let_def split_beta next_seq_def keys_ok_def list_all_iff dom_update)
qed simp

lemma diff_removes_keys: "keys_ok s \<Longrightarrow> keys_ok (snd (diff_removes gone s))"
  by (induction gone s rule: diff_removes.induct)
    (auto simp: Let_def split_beta next_seq_def keys_ok_def list_all_iff AList.delete_keys)

lemma emits_tick_batch:
  assumes "entities_ok cur" "keys_ok s"
  shows "emits (fst (tick_batch cur s)) s (snd (tick_batch cur s))" "keys_ok (snd (tick_batch cur s))"
proof -
  obtain ups s1 where 1: "diff_upserts cur s = (ups, s1)" by fastforce
  obtain rms s2 where 2: "diff_removes (gone_keys cur s1) s1 = (rms, s2)" by fastforce
  have ok: "list_all (\<lambda>(k, kd, p). is_key kd k) cur" using assms(1) by (simp add: entities_ok_def)
  have "keys_ok s1" using diff_upserts_keys [OF ok assms(2)] 1 by simp
  then have "list_all (\<lambda>k. \<exists>kd. is_key kd k) (gone_keys cur s1)"
    by (auto simp: gone_keys_def keys_ok_def list_all_iff)
  then show "emits (fst (tick_batch cur s)) s (snd (tick_batch cur s))"
    using emits_diff_upserts [OF ok, of s] emits_diff_removes [of "gone_keys cur s1" s1] 1 2
    by (auto simp: tick_batch_def)
  show "keys_ok (snd (tick_batch cur s))"
    using diff_removes_keys [OF \<open>keys_ok s1\<close>, of "gone_keys cur s1"] 1 2 by (simp add: tick_batch_def)
qed

lemma diff_upserts_content:
  "map_of (sb_prev (snd (diff_upserts cur s))) = map_of (sb_prev s) ++ content (rev cur)"
proof (induction cur s rule: diff_upserts.induct)
  case (2 key kd p cur s)
  then show ?case
    by (auto simp: Let_def split_beta next_seq_def content_def update_conv' map_add_def fun_eq_iff split: option.splits)
qed (simp add: content_def)

lemma snapshot_events_content:
  "map_of (sb_prev (snd (snapshot_events cur s))) = map_of (sb_prev s) ++ content (rev cur)"
proof (induction cur s rule: snapshot_events.induct)
  case (2 key kd p cur s)
  then show ?case
    by (auto simp: Let_def split_beta next_seq_def content_def update_conv' map_add_def fun_eq_iff split: option.splits)
qed (simp add: content_def)

lemma diff_removes_content:
  "map_of (sb_prev (snd (diff_removes gone s))) = map_of (sb_prev s) |` (- set gone)"
  by (induction gone s rule: diff_removes.induct)
    (auto simp: Let_def split_beta next_seq_def delete_conv' restrict_map_def fun_eq_iff)

lemma map_of_rev_distinct: "distinct (map fst xs) \<Longrightarrow> map_of (rev xs) = map_of xs"
  by (rule map_of_inject_set [THEN iffD2]) (simp_all add: rev_map [symmetric])

lemma content_rev: "entities_ok cur \<Longrightarrow> content (rev cur) = content cur"
  unfolding content_def entities_ok_def rev_map [symmetric]
  by (rule map_of_rev_distinct) (simp add: comp_def split_beta)

lemma tick_batch_content:
  assumes "entities_ok cur"
  shows "map_of (sb_prev (snd (tick_batch cur s))) = content cur"
proof
  fix k
  obtain ups s1 where 1: "diff_upserts cur s = (ups, s1)" by fastforce
  obtain rms s2 where 2: "diff_removes (gone_keys cur s1) s1 = (rms, s2)" by fastforce
  have s1: "map_of (sb_prev s1) = map_of (sb_prev s) ++ content cur"
    using diff_upserts_content [of cur s] 1 content_rev [OF assms] by simp
  have dom: "content cur k = None \<longleftrightarrow> k \<notin> fst ` set cur"
    by (simp add: content_def map_of_eq_None_iff image_image split_beta)
  have "map_of (sb_prev s2) k = (if k \<in> set (gone_keys cur s1) then None else map_of (sb_prev s1) k)"
    using diff_removes_content [of "gone_keys cur s1" s1] 2 by (simp add: restrict_map_def)
  also have "\<dots> = content cur k"
  proof (cases "k \<in> fst ` set cur")
    case True
    then show ?thesis using s1 dom by (auto simp: gone_keys_def map_add_def)
  next
    case False
    have "map_of (sb_prev s1) k = None" if "k \<notin> set (map fst (sb_prev s1))"
      using that by (simp add: map_of_eq_None_iff)
    then show ?thesis using False dom by (auto simp: gone_keys_def)
  qed
  finally show "map_of (sb_prev (snd (tick_batch cur s))) k = content cur k"
    using 1 2 by (simp add: tick_batch_def)
qed

section \<open>What the front end shows\<close>

definition shows_up :: "(kind \<Rightarrow> 'p \<Rightarrow> bool) \<Rightarrow> (string \<Rightarrow> 'p option) \<Rightarrow> 'p ui \<Rightarrow> bool" where
  "shows_up ended there u \<longleftrightarrow> (\<forall>kd i. map_of (items kd u) i = there (key_of kd i) \<or>
     map_of (items kd u) i = None \<and> (\<exists>p. there (key_of kd i) = Some p \<and> ended kd p))"

definition mirrors :: "(kind \<Rightarrow> 'p \<Rightarrow> bool) \<Rightarrow> 'p subscription \<Rightarrow> 'p ui \<Rightarrow> bool" where
  "mirrors ended s u \<longleftrightarrow> ui_seqs u = sb_seqs s \<and> (\<forall>kd. distinct (map fst (items kd u))) \<and>
     shows_up ended (map_of (sb_prev s)) u"

lemma items_simps [simp]:
  "items kd (u\<lparr>ui_seqs := f\<rparr>) = items kd u"
  "items kd (set_items kd' xs u) = (if kd = kd' then xs else items kd u)"
  "ui_seqs (set_items kd xs u) = ui_seqs u"
  by (cases kd; cases kd'; simp add: items_def set_items_def)+

lemma mirrors_apply_event:
  assumes m: "mirrors ended s u" and k: "is_key (ev_kind e) (ev_id e)"
  shows "mirrors ended (after_event e s) (apply_event e u)"
proof -
  obtain i where i: "ev_id e = key_of (ev_kind e) i" using k by (auto simp: is_key_def)
  show ?thesis
    using m i unfolding mirrors_def shows_up_def
    by (auto simp: apply_event_def after_event_def Let_def update_conv' delete_conv' restrict_map_def
        intro: distinct_update distinct_delete split: option.splits)
qed

lemma mirrors_apply_events:
  "emits es s s' \<Longrightarrow> mirrors ended s u \<Longrightarrow> \<exists>u'. applyTransferEvents es u = Applied u' \<and> mirrors ended s' u'"
proof (induction es arbitrary: s u)
  case (Cons e es)
  then have "mirrors ended (after_event e s) (apply_event e u)" by (intro mirrors_apply_event) auto
  moreover have "ev_seq e = ui_seqs u (ev_id e) + 1" using Cons.prems by (simp add: mirrors_def)
  ultimately show ?case using Cons.IH [of "after_event e s" "apply_event e u"] Cons.prems(1) by (simp add: Let_def)
qed simp

lemma set_trim_from_end: "set (trim_from_end ended b xs) \<subseteq> set xs"
  by (induction ended b xs rule: trim_from_end.induct) auto

lemma distinct_trim_from_end: "distinct (map fst xs) \<Longrightarrow> distinct (map fst (trim_from_end ended b xs))"
proof (induction ended b xs rule: trim_from_end.induct)
  case (2 ended budget x xs)
  have "fst x \<notin> fst ` set (trim_from_end ended b xs)" for b
    using "2.prems" set_trim_from_end [of ended b xs] by auto
  then show ?case using 2 by auto
qed simp

lemma trim_from_end_keeps: "x \<in> set xs \<Longrightarrow> \<not> ended (snd x) \<Longrightarrow> x \<in> set (trim_from_end ended b xs)"
  by (induction ended b xs rule: trim_from_end.induct) auto

lemma map_of_trimTerminal:
  assumes "distinct (map fst xs)"
  shows "map_of (trimTerminal ended cap xs) i = map_of xs i \<or>
     map_of (trimTerminal ended cap xs) i = None \<and> (\<exists>p. map_of xs i = Some p \<and> ended p)"
proof -
  let ?ys = "trimTerminal ended cap xs"
  have d: "distinct (map fst ?ys)"
    using distinct_trim_from_end [of "rev xs" ended cap] assms by (simp add: trimTerminal_def rev_map [symmetric])
  have sub: "set ?ys \<subseteq> set xs" using set_trim_from_end [of ended cap "rev xs"] by (simp add: trimTerminal_def)
  have keep: "(i, p) \<in> set xs \<Longrightarrow> \<not> ended p \<Longrightarrow> (i, p) \<in> set ?ys" for p
    using trim_from_end_keeps [of "(i, p)" "rev xs" ended cap] by (simp add: trimTerminal_def)
  show ?thesis
  proof (cases "map_of ?ys i")
    case None
    then have none: "(i, p) \<notin> set ?ys" for p using d by (metis map_of_is_SomeI option.distinct(1))
    then have "ended p" if "map_of xs i = Some p" for p using that keep map_of_SomeD by metis
    then show ?thesis using None by (cases "map_of xs i") auto
  next
    case (Some p)
    then show ?thesis using sub assms d by (metis in_mono map_of_SomeD map_of_is_SomeI)
  qed
qed

lemma mirrors_trim_ui:
  assumes "mirrors ended s u"
  shows "mirrors ended s (trim_ui ended u)"
proof -
  have it: "items kd (trim_ui ended u) =
      trimTerminal (ended kd) (case kd of KTransfer \<Rightarrow> MAX_TERMINAL_TRANSFERS | KJob \<Rightarrow> MAX_TERMINAL_JOBS) (items kd u)" for kd
    by (cases kd) (simp_all add: items_def trim_ui_def)
  have d: "distinct (map fst (items kd u))" for kd using assms by (simp add: mirrors_def)
  have "distinct (map fst (items kd (trim_ui ended u)))" for kd
    using distinct_trim_from_end [of "rev (items kd u)"] d [of kd]
    by (simp add: it trimTerminal_def rev_map [symmetric])
  moreover have "shows_up ended (map_of (sb_prev s)) (trim_ui ended u)"
    using assms map_of_trimTerminal [OF d] unfolding mirrors_def shows_up_def it by metis
  moreover have "ui_seqs (trim_ui ended u) = ui_seqs u" by (simp add: trim_ui_def)
  ultimately show ?thesis using assms by (simp add: mirrors_def)
qed

lemma mirrors_events_frames:
  "emits (concat fs) s s' \<Longrightarrow> mirrors ended s u \<Longrightarrow>
   \<exists>u'. on_frames ended (map Events fs) u = Applied u' \<and> mirrors ended s' u'"
proof (induction fs arbitrary: s u)
  case (Cons f fs)
  then obtain m where m: "emits f s m" "emits (concat fs) m s'" by auto
  then obtain u1 where "applyTransferEvents f u = Applied u1" "mirrors ended m u1"
    using mirrors_apply_events Cons.prems(2) by blast
  then show ?case using Cons.IH [OF m(2) mirrors_trim_ui] by (simp add: on_frame_def)
qed simp

lemma mirrors_tick:
  assumes "entities_ok cur" "keys_ok s" "mirrors ended s u"
  shows "\<exists>u'. on_frames ended (fst (tick len cur s)) u = Applied u' \<and> mirrors ended (snd (tick len cur s)) u'"
    and "keys_ok (snd (tick len cur s))" and "map_of (sb_prev (snd (tick len cur s))) = content cur"
proof -
  obtain batch s1 where b: "tick_batch cur s = (batch, s1)" by fastforce
  have e: "emits batch s s1" and k: "keys_ok s1" using emits_tick_batch [OF assms(1,2)] b by simp_all
  have idle: "mirrors ended (s1\<lparr>sb_idle := n\<rparr>) u' \<longleftrightarrow> mirrors ended s1 u'" for n u' by (simp add: mirrors_def)
  have "\<exists>u'. on_frames ended (map Events (chunk_frames len batch)) u = Applied u' \<and> mirrors ended s1 u'"
    using mirrors_events_frames [of "chunk_frames len batch" s s1 ended u] e assms(3)
    by (simp add: chunk_frames_def concat_chunk_loop)
  then show "\<exists>u'. on_frames ended (fst (tick len cur s)) u = Applied u' \<and> mirrors ended (snd (tick len cur s)) u'"
    using b e assms(3) by (auto simp: tick_def idle on_frame_def)
  show "keys_ok (snd (tick len cur s))" using b k by (simp add: tick_def keys_ok_def)
  show "map_of (sb_prev (snd (tick len cur s))) = content cur"
    using b tick_batch_content [OF assms(1), of s] by (simp add: tick_def)
qed

lemma on_frames_append:
  "on_frames ended (fs @ gs) u = (case on_frames ended fs u of Gap \<Rightarrow> Gap | Applied u' \<Rightarrow> on_frames ended gs u')"
  by (induction fs arbitrary: u) (auto split: applied.split)

lemma mirrors_tick_loop:
  assumes "list_all entities_ok curs" "keys_ok s" "mirrors ended s u" "map_of (sb_prev s) = content first"
  shows "\<exists>u'. on_frames ended (fst (tick_loop len curs s)) u = Applied u' \<and>
    shows_up ended (content (last (first # curs))) u'"
  using assms
proof (induction curs arbitrary: s u first)
  case Nil
  then show ?case by (simp add: mirrors_def)
next
  case (Cons cur curs)
  then have cur: "entities_ok cur" and curs: "list_all entities_ok curs" by simp_all
  obtain fs s1 where t: "tick len cur s = (fs, s1)" by fastforce
  note step = mirrors_tick [OF cur Cons.prems(2,3), of len, unfolded t, simplified]
  then obtain u1 where u1: "on_frames ended fs u = Applied u1" "mirrors ended s1 u1" by blast
  show ?case using Cons.IH [OF curs step(2) u1(2) step(3)] u1(1)
    by (simp add: t split_beta Let_def on_frames_append)
qed

lemma subscribe_start_split:
  "snapshot_events cur subscription_new = (es, s) \<Longrightarrow>
   subscribe_start len cur = (map Snapshot (snapshot_frames len es), s) \<and> concat (snapshot_frames len es) = es"
  by (auto simp: subscribe_start_def snapshot_frames_def Let_def chunk_frames_def concat_chunk_loop)
    (metis concat.simps(1) concat_chunk_loop append_Nil)

lemma snapshot_events_eq:
  "distinct (map fst cur) \<Longrightarrow> \<forall>k \<in> fst ` set cur. sb_seqs s k = 0 \<Longrightarrow>
   fst (snapshot_events cur s) = map (\<lambda>(k, kd, p). \<lparr>ev_id = k, ev_kind = kd, ev_seq = 1, ev_payload = Some p\<rparr>) cur \<and>
   sb_seqs (snd (snapshot_events cur s)) = (\<lambda>k. if k \<in> fst ` set cur then 1 else sb_seqs s k)"
proof (induction cur s rule: snapshot_events.induct)
  case (2 key kd p cur s)
  let ?s = "next_seq key (s\<lparr>sb_prev := AList.update key p (sb_prev s)\<rparr>)"
  have "distinct (map fst cur)" "\<forall>k \<in> fst ` set cur. sb_seqs ?s k = 0"
    using "2.prems" by (auto simp: next_seq_def)
  from "2.IH" [OF refl this] show ?case
    using "2.prems" by (auto simp: Let_def split_beta next_seq_def fun_eq_iff)
qed simp

lemma map_of_map_filter_snapshot:
  assumes "\<forall>(k, kd', p) \<in> set cur. is_key kd' k" 
  shows "map_of (List.map_filter (\<lambda>e. if ev_kind e = kd then map_option (Pair (drop 2 (ev_id e))) (ev_payload e) else None)
      (map (\<lambda>(k, kd, p). \<lparr>ev_id = k, ev_kind = kd, ev_seq = 1, ev_payload = Some p\<rparr>) cur)) i = content cur (key_of kd i)"
  using assms
proof (induction cur)
  case (Cons x cur)
  obtain k kd' p where x: "x = (k, kd', p)" by (cases x)
  then obtain j where k: "k = key_of kd' j" using Cons.prems by (auto simp: is_key_def)
  show ?case using Cons by (auto simp: x k content_def List.map_filter_simps)
qed (simp add: content_def List.map_filter_simps)

lemma items_load_snapshot:
  "items kd (load_snapshot es) =
   List.map_filter (\<lambda>e. if ev_kind e = kd then map_option (Pair (drop 2 (ev_id e))) (ev_payload e) else None) es"
  by (cases kd) (simp_all add: items_def load_snapshot_def)

lemma items_load_snapshot_keys:
  "\<forall>e \<in> set es. is_key (ev_kind e) (ev_id e) \<Longrightarrow> key_of kd ` fst ` set (items kd (load_snapshot es)) \<subseteq> ev_id ` set es"
  by (auto simp: items_load_snapshot List.map_filter_def is_key_def image_iff split: if_splits)

lemma distinct_items_load_snapshot:
  assumes "distinct (map ev_id es)" "\<forall>e \<in> set es. is_key (ev_kind e) (ev_id e)"
  shows "distinct (map fst (items kd (load_snapshot es)))"
proof -
  let ?f = "\<lambda>e. if ev_kind e = kd then map_option (Pair (drop 2 (ev_id e))) (ev_payload e) else None"
  show ?thesis using assms unfolding items_load_snapshot
  proof (induction es)
    case (Cons e es)
    have "drop 2 (ev_id e) \<notin> fst ` set (List.map_filter ?f es)" if "ev_kind e = kd"
      using items_load_snapshot_keys [of es kd, unfolded items_load_snapshot] Cons.prems that
      by (auto simp: is_key_def)
    then show ?case using Cons by (auto simp: List.map_filter_simps split: option.splits)
  qed (simp add: List.map_filter_simps)
qed

lemma mirrors_load_snapshot:
  assumes "entities_ok cur" "snapshot_events cur subscription_new = (es, s)"
  shows "mirrors ended s (load_snapshot es)" "keys_ok s" "map_of (sb_prev s) = content cur"
proof -
  have d: "distinct (map fst cur)" and k: "\<forall>(k, kd, p) \<in> set cur. is_key kd k"
    using assms(1) by (auto simp: entities_ok_def list_all_iff)
  have es: "es = map (\<lambda>(k, kd, p). \<lparr>ev_id = k, ev_kind = kd, ev_seq = 1, ev_payload = Some p\<rparr>) cur"
    and seqs: "sb_seqs s = (\<lambda>k. if k \<in> fst ` set cur then 1 else 0)"
    using snapshot_events_eq [OF d, of subscription_new] assms(2)
    by (simp_all add: subscription_new_def cong: if_cong)
  show c: "map_of (sb_prev s) = content cur"
    using snapshot_events_content [of cur subscription_new] assms(2) content_rev [OF assms(1)]
    by (simp add: subscription_new_def)
  show "keys_ok s"
    using snapshot_events_keys [of cur subscription_new] assms
    by (simp add: entities_ok_def keys_ok_def subscription_new_def)
  have "ui_seqs (load_snapshot es) = sb_seqs s"
  proof
    fix x
    have "map_of (rev (map (\<lambda>e. (ev_id e, ev_seq e)) es)) x = map_of (map (\<lambda>e. (ev_id e, ev_seq e)) es) x"
      using d by (subst map_of_rev_distinct) (simp_all add: es comp_def split_beta)
    also have "\<dots> = (if x \<in> fst ` set cur then Some 1 else None)" unfolding es by (induction cur) auto
    finally show "ui_seqs (load_snapshot es) x = sb_seqs s x" by (simp add: load_snapshot_def seqs)
  qed
  moreover have "distinct (map fst (items kd (load_snapshot es)))" for kd
    by (rule distinct_items_load_snapshot) (use d k in \<open>auto simp: es comp_def split_beta\<close>)
  moreover have "map_of (items kd (load_snapshot es)) i = content cur (key_of kd i)" for kd i
    unfolding items_load_snapshot es by (rule map_of_map_filter_snapshot [OF k])
  ultimately show "mirrors ended s (load_snapshot es)" by (simp add: mirrors_def shows_up_def c)
qed

text \<open>When the first snapshot fits one frame, the front end can apply every frame of the
  subscription without a gap, and afterwards shows every transfer and job that the last tick
  found, with the content found, and no other; only entities that have ended may be missing,
  cut off by the bound on those.\<close>

theorem front_end_mirrors:
  assumes "entities_ok first" "list_all entities_ok curs" "length (fst (subscribe_start len first)) = 1"
  shows "\<exists>u. on_frames ended (fst (transfer_subscribe len first curs)) u0 = Applied u \<and>
    (\<forall>kd i. map_of (items kd u) i = content (last (first # curs)) (key_of kd i) \<or>
      map_of (items kd u) i = None \<and> (\<exists>p. content (last (first # curs)) (key_of kd i) = Some p \<and> ended kd p))"
proof -
  obtain es s where e: "snapshot_events first subscription_new = (es, s)" by fastforce
  note st = subscribe_start_split [OF e, of len]
  then obtain f where "snapshot_frames len es = [f]" using assms(3) by (auto simp: length_Suc_conv)
  then have fst_start: "subscribe_start len first = ([Snapshot es], s)" using st by auto
  from mirrors_tick_loop [OF assms(2) mirrors_load_snapshot(2,1,3) [OF assms(1) e], of ended len]
  show ?thesis by (auto simp: transfer_subscribe_def fst_start split_beta Let_def on_frame_def shows_up_def)
qed

lemma front_end_mirrors_witness:
  "\<exists>u. on_frames (\<lambda>_ p. p = ''done'')
     (fst (transfer_subscribe (\<lambda>_. 100) [(''t:1'', KTransfer, ''queued'')] [[(''t:1'', KTransfer, ''running''), (''j:2'', KJob, ''scanning'')]]))
     \<lparr>ui_seqs = \<lambda>_. 0, ui_transfers = [], ui_jobs = []\<rparr> = Applied u \<and> map_of (ui_jobs u) ''2'' = Some ''scanning''"
proof -
  let ?e = "\<lambda>_ p. p = ''done''" and ?u0 = "\<lparr>ui_seqs = \<lambda>_. 0, ui_transfers = [], ui_jobs = []\<rparr>"
  let ?first = "[(''t:1'', KTransfer, ''queued'')]" and ?cur = "[(''t:1'', KTransfer, ''running''), (''j:2'', KJob, ''scanning'')]"
  have "entities_ok ?first" "list_all entities_ok [?cur]" "length (fst (subscribe_start (\<lambda>_. 100) ?first)) = 1"
    by (simp_all add: entities_ok_def is_key_def subscribe_start_def next_seq_def subscription_new_def
        snapshot_frames_def chunk_frames_def)
  from front_end_mirrors [OF this, of ?e ?u0] obtain u where
    u: "on_frames ?e (fst (transfer_subscribe (\<lambda>_. 100) ?first [?cur])) ?u0 = Applied u"
    and all: "\<forall>kd i. map_of (items kd u) i = content (last [?first, ?cur]) (key_of kd i) \<or>
      map_of (items kd u) i = None \<and> (\<exists>p. content (last [?first, ?cur]) (key_of kd i) = Some p \<and> ?e kd p)"
    by blast
  have "map_of (ui_jobs u) ''2'' = Some ''scanning''"
    using all [rule_format, of KJob "''2''"] by (simp add: content_def items_def)
  with u show ?thesis by blast
qed

lemma on_snapshot_frames:
  "fs \<noteq> [] \<Longrightarrow> on_frames ended (map Snapshot fs) u = Applied (load_snapshot (last fs))"
  by (induction fs arbitrary: u) (auto simp: on_frame_def)

lemma hd_chunk_loop:
  "\<exists>f fs. chunk_loop len (e # cur) bytes es = (e # f) # fs"
  by (induction es arbitrary: cur bytes) (auto simp: Let_def)

lemma two_chunks:
  assumes "length (chunk_loop len cur bytes es) < 2" "length cur \<le> MAX_EVENTS_PER_FRAME"
  shows "length cur + length es \<le> MAX_EVENTS_PER_FRAME"
  using assms
proof (induction len cur bytes es rule: chunk_loop.induct)
  case (2 len cur bytes e es)
  show ?case
  proof (cases "cur \<noteq> [] \<and> (length cur \<ge> MAX_EVENTS_PER_FRAME \<or> bytes + (len e + 1) > MAX_FRAME_BYTES)")
    case True
    then have "chunk_loop len [e] (64 + (len e + 1)) es = []" using "2.prems"(1) by (auto simp: Let_def)
    then show ?thesis using hd_chunk_loop [of len e "[]" "64 + (len e + 1)" es] by auto
  next
    case False
    then have "length (cur @ [e]) \<le> MAX_EVENTS_PER_FRAME"
      using "2.prems"(2) by (cases cur) (auto simp: MAX_EVENTS_PER_FRAME_def)
    then show ?thesis using "2.IH"(2) [OF refl False] False "2.prems"(1) by (auto simp: Let_def)
  qed
qed simp

lemma chunk_frames_Cons: "\<exists>f fs. chunk_frames len (e # es) = (e # f) # fs"
  using hd_chunk_loop [of len e "[]" "64 + (len e + 1)" es] by (simp add: chunk_frames_def)

lemma long_snapshot:
  assumes "entities_ok ((k, kd, p) # cur)" "length (fst (subscribe_start len ((k, kd, p) # cur))) \<ge> 2"
  obtains fs s where "subscribe_start len ((k, kd, p) # cur) = (map Snapshot fs, s)" "fs \<noteq> []"
    "sb_seqs s k = 1" "map_of (sb_prev s) k = Some p" "k \<notin> ev_id ` set (last fs)"
    "\<forall>e \<in> set (last fs). is_key (ev_kind e) (ev_id e)"
proof -
  let ?ev = "\<lambda>(k, kd, p). \<lparr>ev_id = k, ev_kind = kd, ev_seq = 1, ev_payload = Some p\<rparr>"
  let ?all = "(k, kd, p) # cur"
  obtain es s where e: "snapshot_events ?all subscription_new = (es, s)" by fastforce
  have d: "distinct (map fst ?all)" and ks: "\<forall>(k, kd, p) \<in> set ?all. is_key kd k"
    using assms(1) by (auto simp: entities_ok_def list_all_iff)
  have es: "es = map ?ev ?all" and s: "sb_seqs s k = 1"
    using snapshot_events_eq [OF d, of subscription_new] e by (simp_all add: subscription_new_def)
  let ?fs = "snapshot_frames len es"
  have st: "subscribe_start len ?all = (map Snapshot ?fs, s)" "concat ?fs = es"
    using subscribe_start_split [OF e, of len] by simp_all
  obtain f fs where f: "?fs = (?ev (k, kd, p) # f) # fs"
    using chunk_frames_Cons [of len "?ev (k, kd, p)" "map ?ev cur"] by (auto simp: snapshot_frames_def es)
  then have "fs \<noteq> []" using assms(2) st(1) by auto
  then have l: "last ?fs = last fs" "set (last fs) \<subseteq> set (concat fs)" using f by (auto intro: last_in_set)
  have "f @ concat fs = map ?ev cur" using st(2) f es by simp
  then have sub: "set (last fs) \<subseteq> ?ev ` set cur" using l(2) by (metis le_sup_iff list.set_map set_append subset_trans sup_ge2)
  show thesis
  proof (rule that [of ?fs s])
    show "subscribe_start len ?all = (map Snapshot ?fs, s)" "?fs \<noteq> []" "sb_seqs s k = 1" using st(1) f s by simp_all
    show "map_of (sb_prev s) k = Some p" using mirrors_load_snapshot(3) [OF assms(1) e] by (simp add: content_def)
    show "k \<notin> ev_id ` set (last ?fs)" using sub d unfolding l(1) by (fastforce simp: image_iff)
    show "\<forall>e \<in> set (last ?fs). is_key (ev_kind e) (ev_id e)" using sub ks unfolding l(1) by fastforce
  qed
qed

lemma tick_first_changed:
  assumes "map_of (sb_prev s) k = Some p" "p \<noteq> p'" "sb_seqs s k = 1"
  shows "\<exists>es fs. fst (tick len ((k, kd, p') # cur) s) =
    Events (\<lparr>ev_id = k, ev_kind = kd, ev_seq = 2, ev_payload = Some p'\<rparr> # es) # fs"
proof -
  have "\<exists>es. fst (tick_batch ((k, kd, p') # cur) s) = \<lparr>ev_id = k, ev_kind = kd, ev_seq = 2, ev_payload = Some p'\<rparr> # es"
    using assms by (auto simp: tick_batch_def Let_def split_beta next_seq_def)
  then obtain es s' where
    "tick_batch ((k, kd, p') # cur) s = (\<lparr>ev_id = k, ev_kind = kd, ev_seq = 2, ev_payload = Some p'\<rparr> # es, s')"
    by (metis prod.collapse)
  then show ?thesis
    using chunk_frames_Cons [of len "\<lparr>ev_id = k, ev_kind = kd, ev_seq = 2, ev_payload = Some p'\<rparr>" es]
    by (auto simp: tick_def)
qed

lemma more_than_a_frame:
  assumes "entities_ok cur" "length cur > MAX_EVENTS_PER_FRAME"
  shows "length (fst (subscribe_start len cur)) \<ge> 2"
proof -
  obtain es s where e: "snapshot_events cur subscription_new = (es, s)" by fastforce
  have "length es = length cur"
    using snapshot_events_eq [of cur subscription_new] assms(1) e by (simp add: entities_ok_def subscription_new_def)
  then have "\<not> length (chunk_loop len [] 64 es) < 2" using two_chunks [of len "[]" 64 es] assms(2) by auto
  then show ?thesis
    using subscribe_start_split [OF e, of len] by (auto simp: snapshot_frames_def Let_def chunk_frames_def)
qed

text \<open>A snapshot of several frames leaves the front end with the last of them only, since each
  frame replaces what is there: the first entity is not shown, and as soon as it changes the
  front end finds a gap and asks for a new subscription, which starts the same way.\<close>

theorem long_snapshot_ends_in_gap:
  assumes "entities_ok ((k, kd, p) # cur)" "length (fst (subscribe_start len ((k, kd, p) # cur))) \<ge> 2" "p \<noteq> p'"
  shows "(\<exists>u. on_frames ended (fst (transfer_subscribe len ((k, kd, p) # cur) [])) u0 = Applied u \<and>
      map_of (items kd u) (drop 2 k) = None) \<and>
    on_frames ended (fst (transfer_subscribe len ((k, kd, p) # cur) [(k, kd, p') # cur'])) u0 = Gap"
proof -
  obtain fs s where st: "subscribe_start len ((k, kd, p) # cur) = (map Snapshot fs, s)" "fs \<noteq> []"
    and s: "sb_seqs s k = 1" "map_of (sb_prev s) k = Some p"
    and l: "k \<notin> ev_id ` set (last fs)" "\<forall>e \<in> set (last fs). is_key (ev_kind e) (ev_id e)"
    using long_snapshot [OF assms(1,2)] .
  have k: "key_of kd (drop 2 k) = k" using assms(1) by (simp add: entities_ok_def is_key_def)
  let ?u = "load_snapshot (last fs)"
  have "drop 2 k \<notin> fst ` set (items kd ?u)"
    using items_load_snapshot_keys [OF l(2), of kd] l(1) k by (metis image_eqI in_mono)
  then have "map_of (items kd ?u) (drop 2 k) = None" by (simp add: map_of_eq_None_iff)
  moreover have seq: "ui_seqs ?u k = 0"
  proof -
    have "map_of (rev (map (\<lambda>e. (ev_id e, ev_seq e)) (last fs))) k = None"
      using l(1) by (auto simp: map_of_eq_None_iff)
    then show ?thesis by (simp add: load_snapshot_def)
  qed
  obtain es gs where "fst (tick len ((k, kd, p') # cur') s) =
      Events (\<lparr>ev_id = k, ev_kind = kd, ev_seq = 2, ev_payload = Some p'\<rparr> # es) # gs"
    using tick_first_changed [OF s(2) assms(3) s(1), of len kd cur'] by blast
  ultimately show ?thesis
    using seq on_snapshot_frames [OF st(2), of ended u0]
    by (auto simp: transfer_subscribe_def st(1) split_beta Let_def on_frames_append on_frame_def)
qed

lemma long_snapshot_ends_in_gap_witness:
  "on_frames (\<lambda>_ _. False)
     (fst (transfer_subscribe (\<lambda>_. 100)
       ((''t:'', KTransfer, 0) # map (\<lambda>n. (''t:'' @ replicate n CHR ''x'', KTransfer, n)) [1..<257]) [[(''t:'', KTransfer, 1::nat)]]))
     \<lparr>ui_seqs = \<lambda>_. 0, ui_transfers = [], ui_jobs = []\<rparr> = Gap"
proof -
  let ?cur = "map (\<lambda>n::nat. (''t:'' @ replicate n CHR ''x'', KTransfer, n)) [1..<257]"
  have inj: "inj (\<lambda>n. replicate n CHR ''x'')" by (rule injI) (metis length_replicate)
  have ok: "entities_ok ((''t:'', KTransfer, 0) # ?cur)"
    by (auto simp: entities_ok_def is_key_def list_all_iff comp_def distinct_map inj_on_def dest: injD [OF inj])
  moreover have "length (fst (subscribe_start (\<lambda>_. 100) ((''t:'', KTransfer, 0::nat) # ?cur))) \<ge> 2"
    by (rule more_than_a_frame [OF ok]) (simp add: MAX_EVENTS_PER_FRAME_def)
  ultimately show ?thesis
    using long_snapshot_ends_in_gap [of "''t:''" KTransfer 0 ?cur "\<lambda>_. 100" 1 "\<lambda>_ _. False"
        "\<lparr>ui_seqs = \<lambda>_. 0, ui_transfers = [], ui_jobs = []\<rparr>" "[]"]
    by simp
qed

end
