(* ===== verification/Sftp_Context.thy ===== *)
theory Sftp_Context
  imports Transfer_Ledger Sftp_Slot
begin

text \<open>
  The SFTP contexts of the sessions (\<^verbatim>\<open>src/crates/app/src/sftp.rs\<close>): one context per session
  holds a connection, its two subsystems, the transfer queue and the directory jobs. Leases keep
  a context alive, the sweep closes what is idle, and the callback of the queue keeps the leases
  and the ledger in step with the transfers. Contexts are shared, so the slots hold indices into
  an arena. Times are milliseconds; the order of the map is that of the list.
\<close>

section \<open>Contexts and leases\<close>

text \<open>\<open>cx_leases\<close> is the entry of the map of leases for its only kind, \<open>Edit\<close>.\<close>

record 'c SftpCtx =
  cx_closed :: bool
  cx_metadata :: "'c SubsystemSlot"
  cx_data :: "'c SubsystemSlot"
  cx_queue :: TransferQueue
  cx_jobs :: DirectoryJobScheduler
  cx_leases :: "u32 option"
  cx_transfer_leases :: "string list"
  cx_last_used :: u64

record 'c SftpManagerState =
  ctxs :: "(string \<times> nat SubsystemSlot) list"
  arena :: "nat \<Rightarrow> 'c SftpCtx"

definition touch :: "u64 \<Rightarrow> 'c SftpCtx \<Rightarrow> 'c SftpCtx" where
  "touch now c = c\<lparr>cx_last_used := now\<rparr>"

definition lease :: "u64 \<Rightarrow> 'c SftpCtx \<Rightarrow> 'c SftpCtx" where
  "lease now c = touch now (c\<lparr>cx_leases := Some ((case cx_leases c of None \<Rightarrow> 0 | Some n \<Rightarrow> n) + 1)\<rparr>)"

definition release_lease :: "'c SftpCtx \<Rightarrow> 'c SftpCtx" where
  "release_lease c = c\<lparr>cx_leases := map_option (\<lambda>n. saturating_sub n 1) (cx_leases c)\<rparr>"

definition lease_transfer :: "u64 \<Rightarrow> string \<Rightarrow> 'c SftpCtx \<Rightarrow> 'c SftpCtx" where
  "lease_transfer now i c = touch now (c\<lparr>cx_transfer_leases := List.insert i (cx_transfer_leases c)\<rparr>)"

definition release_transfer :: "string \<Rightarrow> 'c SftpCtx \<Rightarrow> 'c SftpCtx" where
  "release_transfer i c = c\<lparr>cx_transfer_leases := removeAll i (cx_transfer_leases c)\<rparr>"

definition lease_count :: "'c SftpCtx \<Rightarrow> nat" where
  "lease_count c = (case cx_leases c of None \<Rightarrow> 0 | Some n \<Rightarrow> unat n) + length (cx_transfer_leases c)"

definition idle_ms :: "u64 \<Rightarrow> 'c SftpCtx \<Rightarrow> u64" where
  "idle_ms now c = saturating_sub now (cx_last_used c)"

definition active_transfers :: "'c SftpCtx \<Rightarrow> nat" where
  "active_transfers c =
     length (filter (\<lambda>t. ti_state t \<in> {Queued, Running}) (transfer_list (cx_queue c))) +
     length (filter (\<lambda>j. sn_state j \<notin> {JobCompleted, JobFailed, JobCanceled}) (job_list (cx_jobs c)))"

section \<open>The map of slots\<close>

definition drop_ctx :: "string \<Rightarrow> 'c SftpManagerState \<Rightarrow> 'c SftpManagerState" where
  "drop_ctx sid m = m\<lparr>ctxs := map_remove sid (ctxs m)\<rparr>"

definition set_slot :: "string \<Rightarrow> nat SubsystemSlot \<Rightarrow> 'c SftpManagerState \<Rightarrow> 'c SftpManagerState" where
  "set_slot sid sl m = m\<lparr>ctxs := map (\<lambda>(k, s). (k, if k = sid then sl else s)) (ctxs m)\<rparr>"

definition peek_ctx :: "string \<Rightarrow> 'c SftpManagerState \<Rightarrow> nat option \<times> 'c SftpManagerState" where
  "peek_ctx sid m =
     (case map_of (ctxs m) sid of
        None \<Rightarrow> (None, m)
      | Some sl \<Rightarrow>
          (case ready_client sl of
             None \<Rightarrow> (None, m)
           | Some c \<Rightarrow> if cx_closed (arena m c) then (None, set_slot sid (invalidate sl) m) else (Some c, m)))"

definition new_ctx_slot :: "nat SubsystemSlot" where
  "new_ctx_slot = set_retry_backoff 2000 slot_new"

text \<open>\<open>ensure_ctx\<close> up to the wait for the slot, and what it does with the context it gets.\<close>

definition ensure_ctx_start :: "nat \<Rightarrow> string \<Rightarrow> 'c SftpManagerState \<Rightarrow> nat ensured \<times> 'c SftpManagerState" where
  "ensure_ctx_start now sid m =
     (let m = (if sid \<in> fst ` set (ctxs m) then m else m\<lparr>ctxs := ctxs m @ [(sid, new_ctx_slot)]\<rparr>);
          sl = the (map_of (ctxs m) sid);
          sl = (case ready_client sl of Some c \<Rightarrow> if cx_closed (arena m c) then invalidate sl else sl | None \<Rightarrow> sl);
          (r, sl) = (case get_fast sl of Some c \<Rightarrow> (Got c, sl) | None \<Rightarrow> ensure now sl)
      in (r, set_slot sid sl m))"

definition ensure_ctx_end :: "u64 \<Rightarrow> nat \<Rightarrow> 'c SftpManagerState \<Rightarrow> 'c SftpManagerState" where
  "ensure_ctx_end now c m =
     m\<lparr>arena := (arena m)(c := (touch now (arena m c))\<lparr>cx_queue := set_progress_callback (cx_queue (arena m c))\<rparr>)\<rparr>"

section \<open>The sweep\<close>

datatype SweepAction = Keep | InvalidateSubsys | Reclaim

definition SUBSYS_IDLE_TTL_MS :: u64 where "SUBSYS_IDLE_TTL_MS = 5 * 60 * 1000"
definition CTX_IDLE_TTL_MS :: u64 where "CTX_IDLE_TTL_MS = 10 * 60 * 1000"
definition MAX_CTX_SLOTS :: nat where "MAX_CTX_SLOTS = 32"

definition sweep_decision :: "nat \<Rightarrow> nat \<Rightarrow> u64 \<Rightarrow> SweepAction" where
  "sweep_decision leases active idle =
     (if leases > 0 \<or> active > 0 then Keep
      else if idle \<ge> CTX_IDLE_TTL_MS then Reclaim
      else if idle \<ge> SUBSYS_IDLE_TTL_MS then InvalidateSubsys
      else Keep)"

text \<open>The loop over the map: the sessions to reclaim, the candidates with their idle time, the
  contexts whose subsystems are closed.\<close>

fun sweep_scan ::
  "u64 \<Rightarrow> (nat \<Rightarrow> 'c SftpCtx) \<Rightarrow> (string \<times> nat SubsystemSlot) list \<Rightarrow> string list \<times> (string \<times> u64) list \<times> nat list" where
  "sweep_scan now h [] = ([], [], [])"
| "sweep_scan now h ((sid, sl) # xs) =
     (let (victims, lru, subsys) = sweep_scan now h xs
      in case ready_client sl of
           None \<Rightarrow> (victims, lru, subsys)
         | Some c \<Rightarrow>
             (let leases = lease_count (h c); active = active_transfers (h c); idle = idle_ms now (h c);
                  act = sweep_decision leases active idle
              in (if act = Reclaim then sid # victims else victims,
                  if leases = 0 \<and> active = 0 then (sid, idle) # lru else lru,
                  if act = InvalidateSubsys then c # subsys else subsys)))"

definition lru_order :: "(string \<times> u64) list \<Rightarrow> (string \<times> u64) list" where
  "lru_order = sort_key (\<lambda>e. - int (unat (snd e)))"

fun add_victims :: "(string \<times> u64) list \<Rightarrow> string list \<Rightarrow> string list" where
  "add_victims [] victims = victims"
| "add_victims ((sid, _) # xs) victims =
     add_victims xs (if sid \<in> set victims then victims else victims @ [sid])"

definition all_victims :: "nat \<Rightarrow> string list \<Rightarrow> (string \<times> u64) list \<Rightarrow> string list" where
  "all_victims n victims lru =
     (let remaining = n - length victims
      in if remaining > MAX_CTX_SLOTS then add_victims (take (remaining - MAX_CTX_SLOTS) (lru_order lru)) victims
         else victims)"

definition close_subsys :: "'c SftpCtx \<Rightarrow> 'c SftpCtx" where
  "close_subsys c = c\<lparr>cx_metadata := invalidate (cx_metadata c), cx_data := invalidate (cx_data c)\<rparr>"

definition sweep :: "u64 \<Rightarrow> 'c SftpManagerState \<Rightarrow> 'c SftpManagerState" where
  "sweep now m =
     (let (victims, lru, subsys) = sweep_scan now (arena m) (ctxs m);
          victims = all_victims (length (ctxs m)) victims lru
      in m\<lparr>ctxs := filter (\<lambda>(sid, _). sid \<notin> set victims) (ctxs m),
           arena := fold (\<lambda>c h. h(c := close_subsys (h c))) subsys (arena m)\<rparr>)"

section \<open>The callback of the transfers\<close>

text \<open>\<open>alive\<close> tells whether the context still exists when the callback runs.\<close>

definition transfer_lifecycle ::
  "bool \<Rightarrow> u64 \<Rightarrow> string \<Rightarrow> TransferInfo \<Rightarrow> 'c SftpCtx \<times> TransferLedger \<Rightarrow> 'c SftpCtx \<times> TransferLedger" where
  "transfer_lifecycle alive now sid info = (\<lambda>(c, l).
     (if \<not> alive then c
      else if ti_state info \<in> {Queued, Running} then lease_transfer now (ti_id info) c
      else release_transfer (ti_id info) c,
      case from_info sid info of None \<Rightarrow> l | Some e \<Rightarrow> on_terminal e l))"

section \<open>The watch on an edited file\<close>

text \<open>One round of the loop finds a modification time, what reading the file gives and whether
  the upload succeeds; the result is what reaches the server.\<close>

record watch_round =
  wr_mtime :: "nat option"
  wr_read :: "string option"
  wr_upload_ok :: bool

fun edit_watch :: "nat option \<Rightarrow> watch_round list \<Rightarrow> string list" where
  "edit_watch last_mtime [] = []"
| "edit_watch last_mtime (r # rs) =
     (case wr_mtime r of
        None \<Rightarrow> []
      | Some t \<Rightarrow>
          if Some t \<noteq> last_mtime
          then (case wr_read r of
                  None \<Rightarrow> edit_watch (Some t) rs
                | Some d \<Rightarrow> (if wr_upload_ok r then [d] else []) @ edit_watch (Some t) rs)
          else edit_watch last_mtime rs)"

section \<open>What the sweep takes\<close>

definition evictable :: "(nat \<Rightarrow> 'c SftpCtx) \<Rightarrow> string \<times> nat SubsystemSlot \<Rightarrow> bool" where
  "evictable h e \<longleftrightarrow> (case ready_client (snd e) of None \<Rightarrow> False
     | Some c \<Rightarrow> lease_count (h c) = 0 \<and> active_transfers (h c) = 0)"

definition idle_of :: "u64 \<Rightarrow> (nat \<Rightarrow> 'c SftpCtx) \<Rightarrow> string \<times> nat SubsystemSlot \<Rightarrow> u64" where
  "idle_of now h e = (case ready_client (snd e) of None \<Rightarrow> 0 | Some c \<Rightarrow> idle_ms now (h c))"

definition expired :: "u64 \<Rightarrow> (nat \<Rightarrow> 'c SftpCtx) \<Rightarrow> string \<times> nat SubsystemSlot \<Rightarrow> bool" where
  "expired now h e \<longleftrightarrow> evictable h e \<and> CTX_IDLE_TTL_MS \<le> idle_of now h e"

lemma sweep_scan_eq:
  "fst (sweep_scan now h xs) = map fst (filter (expired now h) xs)"
  "fst (snd (sweep_scan now h xs)) = map (\<lambda>e. (fst e, idle_of now h e)) (filter (evictable h) xs)"
  by (induction now h xs rule: sweep_scan.induct)
    (auto simp: Let_def split_beta expired_def evictable_def idle_of_def sweep_decision_def split: option.splits)

lemma sweep_scan_subsys:
  "c \<in> set (snd (snd (sweep_scan now h xs))) \<Longrightarrow> lease_count (h c) = 0 \<and> active_transfers (h c) = 0"
  by (induction now h xs rule: sweep_scan.induct)
    (auto simp: Let_def split_beta sweep_decision_def split: option.splits if_splits)

lemma fold_close_other: "c \<notin> set cs \<Longrightarrow> fold (\<lambda>c h. h(c := close_subsys (h c))) cs h c = h c"
  by (induction cs arbitrary: h) auto

lemma set_add_victims: "set (add_victims xs vs) = fst ` set xs \<union> set vs"
  by (induction xs vs rule: add_victims.induct) auto

text \<open>C27. A sweep removes the context of a session only when it is ready, has no lease and no active
  transfer or job, and is idle for ten minutes or there are more than 32 of them; a context
  with a lease or an active transfer keeps its connection and its subsystems.\<close>

theorem sweep_spares_busy:
  assumes "(sid, sl) \<in> set (ctxs m)" "distinct (map fst (ctxs m))"
  shows "((sid, sl) \<in> set (ctxs (sweep now m)) \<or>
      (\<exists>c. ready_client sl = Some c \<and> lease_count (arena m c) = 0 \<and> active_transfers (arena m c) = 0 \<and>
        (CTX_IDLE_TTL_MS \<le> idle_ms now (arena m c) \<or> length (ctxs m) > MAX_CTX_SLOTS))) \<and>
    (lease_count (arena m c) > 0 \<or> active_transfers (arena m c) > 0 \<longrightarrow> arena (sweep now m) c = arena m c)"
proof
  obtain vs lru sub where sc: "sweep_scan now (arena m) (ctxs m) = (vs, lru, sub)" by (metis prod_cases3)
  have vs: "vs = map fst (filter (expired now (arena m)) (ctxs m))"
    and lru: "lru = map (\<lambda>e. (fst e, idle_of now (arena m) e)) (filter (evictable (arena m)) (ctxs m))"
    using sweep_scan_eq [of now "arena m" "ctxs m"] sc by simp_all
  let ?all = "all_victims (length (ctxs m)) vs lru"
  have one: "e = (sid, sl)" if "e \<in> set (ctxs m)" "fst e = sid" for e
    using that assms by (metis eq_key_imp_eq_value prod.collapse)
  show "(sid, sl) \<in> set (ctxs (sweep now m)) \<or>
      (\<exists>c. ready_client sl = Some c \<and> lease_count (arena m c) = 0 \<and> active_transfers (arena m c) = 0 \<and>
        (CTX_IDLE_TTL_MS \<le> idle_ms now (arena m c) \<or> length (ctxs m) > MAX_CTX_SLOTS))"
  proof (cases "sid \<in> set ?all")
    case False
    then show ?thesis using assms(1) by (simp add: sweep_def sc)
  next
    case True
    then have "sid \<in> set vs \<or> sid \<in> fst ` set lru \<and> length (ctxs m) > MAX_CTX_SLOTS"
      by (auto simp: all_victims_def Let_def set_add_victims lru_order_def split: if_splits dest!: in_set_takeD)
    then have "expired now (arena m) (sid, sl) \<or> evictable (arena m) (sid, sl) \<and> length (ctxs m) > MAX_CTX_SLOTS"
      using one by (auto simp: vs lru)
    then show ?thesis by (auto simp: expired_def evictable_def idle_of_def split: option.splits)
  qed
  show "lease_count (arena m c) > 0 \<or> active_transfers (arena m c) > 0 \<longrightarrow> arena (sweep now m) c = arena m c"
    using sweep_scan_subsys [of c now "arena m" "ctxs m"] sc by (auto simp: sweep_def intro!: fold_close_other)
qed

text \<open>How many contexts a sweep leaves. The candidates of the second pass include the contexts
  already taken for their age, which come first in the order of idleness.\<close>

lemma takeWhile_eq_filter_sorted:
  "sorted_wrt (\<lambda>x y. P y \<longrightarrow> P x) xs \<Longrightarrow> filter P xs = takeWhile P xs \<and> filter (\<lambda>x. \<not> P x) xs = dropWhile P xs"
proof (induction xs)
  case (Cons x xs)
  then show ?case by (cases "P x") (auto simp: filter_empty_conv filter_id_conv)
qed simp

lemma length_filter_take:
  assumes "sorted_wrt (\<lambda>x y. P y \<longrightarrow> P x) xs"
  shows "length (filter (\<lambda>x. \<not> P x) (take k xs)) = min (length xs - length (filter P xs)) (k - length (filter P xs))"
proof -
  define as bs where "as = filter P xs" "bs = filter (\<lambda>x. \<not> P x) xs"
  then have xs: "xs = as @ bs" using takeWhile_eq_filter_sorted [OF assms] by simp
  have "\<forall>x \<in> set (take k as). P x" "\<forall>x \<in> set (take (k - length as) bs). \<not> P x"
    by (auto simp: as_bs_def dest: in_set_takeD)
  then have "filter (\<lambda>x. \<not> P x) (take k xs) = take (k - length as) bs"
    by (simp add: xs filter_True)
  then show ?thesis using xs as_bs_def(1) by (metis add_diff_cancel_left' length_append length_take min.commute)
qed

lemma length_add_victims:
  "distinct (map fst xs) \<Longrightarrow> length (add_victims xs vs) = length vs + length (filter (\<lambda>e. fst e \<notin> set vs) xs)"
proof (induction xs vs rule: add_victims.induct)
  case (2 sid u xs vs)
  have "filter (\<lambda>e. fst e \<notin> set (vs @ [sid])) xs = filter (\<lambda>e. fst e \<notin> set vs) xs"
    using "2.prems" by (intro filter_cong) auto
  then show ?case using 2 by simp
qed simp

lemma distinct_add_victims: "distinct vs \<Longrightarrow> distinct (add_victims xs vs)"
  by (induction xs vs rule: add_victims.induct) auto

lemma length_filter_keys:
  assumes "distinct (map fst xs)" "distinct vs" "set vs \<subseteq> fst ` set xs"
  shows "length (filter (\<lambda>(k, _). k \<notin> set vs) xs) = length xs - length vs"
proof -
  have "length (filter (\<lambda>(k, _). k \<notin> set vs) xs) = card (fst ` set xs - set vs)"
  proof -
    have "distinct (map fst (filter (\<lambda>(k, _). k \<notin> set vs) xs))" using assms(1) by (rule distinct_map_filter)
    then have "length (filter (\<lambda>(k, _). k \<notin> set vs) xs) = card (fst ` set (filter (\<lambda>(k, _). k \<notin> set vs) xs))"
      by (metis distinct_card length_map list.set_map)
    moreover have "fst ` set (filter (\<lambda>(k, _). k \<notin> set vs) xs) = fst ` set xs - set vs" by force
    ultimately show ?thesis by simp
  qed
  also have "\<dots> = card (fst ` set xs) - card (set vs)" using assms(3) by (simp add: card_Diff_subset)
  also have "\<dots> = length xs - length vs" using assms(1,2) by (metis distinct_card length_map list.set_map)
  finally show ?thesis .
qed

lemma lru_order_sorted: "sorted_wrt (\<lambda>x y. a \<le> snd y \<longrightarrow> a \<le> snd x) (lru_order xs)"
proof -
  have "sorted_wrt (\<lambda>x y. - int (unat (snd x)) \<le> - int (unat (snd y))) (lru_order xs)"
    using sorted_sort_key [of "\<lambda>e. - int (unat (snd e))" xs] by (simp add: lru_order_def sorted_map)
  then show ?thesis by (rule sorted_wrt_mono_rel [rotated]) (auto simp: word_le_def)
qed

lemma length_all_victims:
  assumes d: "distinct (map fst xs)"
    and vs: "vs = map fst (filter (expired now h) xs)"
    and lru: "lru = map (\<lambda>e. (fst e, idle_of now h e)) (filter (evictable h) xs)"
  shows "length (all_victims (length xs) vs lru) = length vs +
    min (length lru - length vs) (length xs - length vs - MAX_CTX_SLOTS - length vs)"
proof -
  let ?P = "\<lambda>e :: string \<times> u64. CTX_IDLE_TTL_MS \<le> snd e"
  let ?L = "lru_order lru" and ?k = "length xs - length vs - MAX_CTX_SLOTS"
  have set_L: "set ?L = set lru" and len_L: "length ?L = length lru" by (simp_all add: lru_order_def)
  have P_lru: "map fst (filter ?P lru) = vs" unfolding vs lru
    by (simp add: filter_map comp_def expired_def [abs_def])
  have "length (filter ?P ?L) = length (filter ?P lru)"
    by (simp add: lru_order_def filter_sort)
  then have len_P: "length (filter ?P ?L) = length vs" using P_lru by (metis length_map)
  have dl: "distinct (map fst lru)" using d by (simp add: lru comp_def distinct_map_filter)
  then have dL: "distinct (map fst ?L)" using set_L len_L by (metis card_distinct distinct_card length_map list.set_map)
  have in_vs: "fst e \<in> set vs \<longleftrightarrow> ?P e" if "e \<in> set lru" for e
  proof -
    have "e' = e" if "e' \<in> set lru" "fst e' = fst e" for e'
      using that \<open>e \<in> set lru\<close> dl by (metis eq_key_imp_eq_value prod.collapse)
    then show ?thesis using \<open>e \<in> set lru\<close> by (auto simp: P_lru [symmetric])
  qed
  have "filter (\<lambda>e. fst e \<notin> set vs) (take ?k ?L) = filter (\<lambda>e. \<not> ?P e) (take ?k ?L)"
    using in_vs set_L by (intro filter_cong) (auto dest: in_set_takeD)
  then have "length (add_victims (take ?k ?L) vs) = length vs + min (length lru - length vs) (?k - length vs)"
    using length_add_victims [of "take ?k ?L" vs] dL length_filter_take [of ?P ?L ?k, OF lru_order_sorted]
    by (simp add: take_map [symmetric] len_P len_L)
  then show ?thesis by (simp add: all_victims_def Let_def)
qed

text \<open>A sweep of \<open>n\<close> contexts, \<open>v\<close> of them expired and \<open>e\<close> evictable, leaves \<open>n - v\<close> less what the
  second pass adds; that pass counts the expired ones again, so with \<open>v\<close> of them the bound of 32
  may be missed by up to \<open>v\<close>. With none expired the bound holds as far as there are evictable contexts.\<close>

theorem sweep_size:
  assumes "distinct (map fst (ctxs m))"
    and "n = length (ctxs m)" "v = length (filter (expired now (arena m)) (ctxs m))"
    and "e = length (filter (evictable (arena m)) (ctxs m))"
  shows "length (ctxs (sweep now m)) = n - (v + min (e - v) (n - v - MAX_CTX_SLOTS - v))"
proof -
  obtain vs lru sub where sc: "sweep_scan now (arena m) (ctxs m) = (vs, lru, sub)" by (metis prod_cases3)
  have vs: "vs = map fst (filter (expired now (arena m)) (ctxs m))"
    and lru: "lru = map (\<lambda>e. (fst e, idle_of now (arena m) e)) (filter (evictable (arena m)) (ctxs m))"
    using sweep_scan_eq [of now "arena m" "ctxs m"] sc by simp_all
  let ?all = "all_victims (length (ctxs m)) vs lru"
  have "distinct vs" using assms(1) by (simp add: vs distinct_map_filter)
  then have "distinct ?all" by (simp add: all_victims_def Let_def distinct_add_victims)
  moreover have "set ?all \<subseteq> fst ` set (ctxs m)"
    by (auto simp: all_victims_def Let_def set_add_victims lru_order_def vs lru split: if_splits dest!: in_set_takeD)
  ultimately have "length (ctxs (sweep now m)) = length (ctxs m) - length ?all"
    using length_filter_keys [OF assms(1)] by (simp add: sweep_def sc)
  then show ?thesis
    using length_all_victims [OF assms(1) vs lru] assms(2-4) by (simp add: vs lru)
qed

section \<open>Leases follow the transfers\<close>

definition last_info :: "string \<Rightarrow> TransferInfo list \<Rightarrow> TransferInfo option" where
  "last_info i infos = find (\<lambda>t. ti_id t = i) (rev infos)"

text \<open>After any number of reports of the queue a transfer has its lease exactly when its last
  report said queued or running, and the ledger was given exactly the reports that settle a
  transfer, in their order.\<close>

theorem leases_follow_reports:
  "(let (c', l') = fold (\<lambda>(now, info). transfer_lifecycle True now sid info) reports (c, l) in
     (i \<in> set (cx_transfer_leases c') \<longleftrightarrow>
        (case last_info i (map snd reports) of
           None \<Rightarrow> i \<in> set (cx_transfer_leases c)
         | Some info \<Rightarrow> ti_state info \<in> {Queued, Running})) \<and>
     l' = fold on_terminal (List.map_filter (from_info sid) (map snd reports)) l)"
proof (induction reports rule: rev_induct)
  case Nil
  then show ?case by (simp add: last_info_def List.map_filter_simps)
next
  case (snoc r reports)
  obtain now info where r: "r = (now, info)" by (cases r)
  obtain c' l' where f: "fold (\<lambda>(now, info). transfer_lifecycle True now sid info) reports (c, l) = (c', l')" by fastforce
  show ?case
    using snoc by (auto simp: f r last_info_def transfer_lifecycle_def lease_transfer_def release_transfer_def touch_def
        List.map_filter_def split: option.splits if_splits)
qed

section \<open>Lost saves\<close>

text \<open>A save of the editor that cannot be read or uploaded in the round that notices it is not
  tried again, however often the file could be read later: only a further change is.\<close>

theorem failed_save_is_not_retried:
  assumes "wr_mtime r = Some t" "last_mtime \<noteq> Some t" "wr_read r = None \<or> \<not> wr_upload_ok r"
    and "list_all (\<lambda>r. wr_mtime r = Some t) rs"
  shows "edit_watch last_mtime (r # rs @ rs') = edit_watch (Some t) rs'"
proof -
  have "edit_watch (Some t) (rs @ rs') = edit_watch (Some t) rs'" using assms(4) by (induction rs) auto
  then show ?thesis using assms(1-3) by (auto split: option.splits)
qed

lemma failed_save_is_not_retried_witness:
  "edit_watch (Some 1) [\<lparr>wr_mtime = Some 2, wr_read = None, wr_upload_ok = True\<rparr>,
     \<lparr>wr_mtime = Some 2, wr_read = Some ''new'', wr_upload_ok = True\<rparr>] = []"
  using failed_save_is_not_retried [of "\<lparr>wr_mtime = Some 2, wr_read = None, wr_upload_ok = True\<rparr>" 2 "Some 1"
      "[\<lparr>wr_mtime = Some 2, wr_read = Some ''new'', wr_upload_ok = True\<rparr>]" "[]"]
  by simp

section \<open>Examples\<close>

definition sample_ctx :: "u64 \<Rightarrow> nat SftpCtx" where
  "sample_ctx used =
     \<lparr>cx_closed = False, cx_metadata = slot_new, cx_data = slot_new, cx_queue = queue_new, cx_jobs = sched_new,
      cx_leases = None, cx_transfer_leases = [], cx_last_used = used\<rparr>"

text \<open>Thirty-four contexts, the first unused since the start, the others used just now.\<close>

definition crowded :: "nat SftpManagerState" where
  "crowded =
     \<lparr>ctxs = map (\<lambda>i. (replicate i CHR ''x'', slot_new\<lparr>sl_state := Ready 1 i\<rparr>)) [0..<34],
      arena = (\<lambda>i. sample_ctx (if i = 0 then 0 else 600000))\<rparr>"

lemma crowded_evictable: "evictable (arena crowded) (k, slot_new\<lparr>sl_state := Ready 1 i\<rparr>)"
  by (simp add: crowded_def evictable_def ready_client_def lease_count_def active_transfers_def sample_ctx_def
      transfer_list_def queue_new_def job_list_def sched_new_def sched_with_caps_def)

lemma crowded_expired: "expired 600000 (arena crowded) (k, slot_new\<lparr>sl_state := Ready 1 i\<rparr>) \<longleftrightarrow> i = 0"
  using crowded_evictable [of k i]
  by (simp add: expired_def idle_of_def ready_client_def idle_ms_def crowded_def sample_ctx_def saturating_sub_def CTX_IDLE_TTL_MS_def)

lemma crowded_keys: "distinct (map fst (ctxs crowded))"
  by (auto simp: crowded_def comp_def distinct_map inj_on_def)

lemma sweep_size_witness: "length (ctxs (sweep 600000 crowded)) = 33"
proof -
  have "filter (\<lambda>i. i = 0) [0..<34::nat] = [0]" by (simp add: upt_conv_Cons)
  then have "length (filter (expired 600000 (arena crowded)) (ctxs crowded)) = 1"
    by (simp add: crowded_def [THEN arg_cong, of ctxs] filter_map comp_def crowded_expired del: upt_conv_Cons)
  moreover have "length (filter (evictable (arena crowded)) (ctxs crowded)) = 34"
    by (simp add: crowded_def [THEN arg_cong, of ctxs] filter_map comp_def crowded_evictable)
  moreover have "length (ctxs crowded) = 34" by (simp add: crowded_def)
  ultimately show ?thesis
    using sweep_size [OF crowded_keys refl refl refl, of 600000] by (simp add: MAX_CTX_SLOTS_def)
qed

lemma sweep_spares_busy_witness:
  "([], slot_new) \<in> set (ctxs (sweep 600000 \<lparr>ctxs = [([], slot_new)], arena = (\<lambda>i::nat. sample_ctx 0)\<rparr>))"
  using sweep_spares_busy [of "[]" slot_new "\<lparr>ctxs = [([], slot_new)], arena = (\<lambda>i::nat. sample_ctx 0)\<rparr>" 600000 0]
  by (simp add: slot_new_def ready_client_def)

end
