(* ===== verification/Transfer_Panel.thy ===== *)
theory Transfer_Panel
  imports Transfer_Events Sftp_Context
begin

text \<open>
  What a subscription finds at a tick (\<open>collect\<close> in \<open>transfer_subscribe\<close>,
  \<^verbatim>\<open>src/crates/app/src/sftp.rs\<close>): the transfers and jobs of the context of the session, if it has
  one. The identifiers of a queue are unique in every interleaving, which is what the protocol
  of the events relies on. The payloads, with the rates in them, are arguments.
\<close>

section \<open>The entities of a session\<close>

definition collect_entities ::
  "(TransferInfo \<Rightarrow> 'p) \<Rightarrow> (JobSnapshot \<Rightarrow> 'p) \<Rightarrow> string \<Rightarrow> 'c SftpManagerState \<Rightarrow> 'p entities" where
  "collect_entities view job_view sid m =
     (case fst (peek_ctx sid m) of
        None \<Rightarrow> []
      | Some c \<Rightarrow>
          map (\<lambda>t. (''t:'' @ ti_id t, KTransfer, view t)) (transfer_list (cx_queue (arena m c))) @
          map (\<lambda>j. (''j:'' @ sn_id j, KJob, job_view j)) (job_list (cx_jobs (arena m c))))"

section \<open>Identifiers are unique\<close>

definition keyed :: "TransferQueue \<Rightarrow> bool" where
  "keyed q \<longleftrightarrow> distinct (map fst (transfers q)) \<and>
     (\<forall>(i, a) \<in> set (transfers q). a < length (inners q) \<and> ti_id (t_info (inners q ! a)) = i)"

definition ids :: "TransferQueue \<Rightarrow> string list" where
  "ids q = map (\<lambda>t. ti_id (t_info t)) (inners q)"

lemma keyed_ids: "keyed q \<longleftrightarrow> distinct (map fst (transfers q)) \<and> (\<forall>(i, a) \<in> set (transfers q). a < length (ids q) \<and> ids q ! a = i)"
  unfolding keyed_def ids_def by fastforce

lemma keyed_same:
  assumes "keyed q" "ids q' = ids q" "distinct (map fst (transfers q'))" "set (transfers q') \<subseteq> set (transfers q)"
  shows "keyed q'"
  using assms unfolding keyed_ids by auto

lemma ids_upd: "ti_id (t_info (f (inners q ! a))) = ti_id (t_info (inners q ! a)) \<Longrightarrow> ids (upd a f q) = ids q"
  by (cases "a < length (inners q)") (simp_all add: ids_def upd_def map_update list_update_same_conv list_update_beyond)

lemma ids_simps [simp]: "ids (emit a q) = ids q" "ids (q\<lparr>transfers := m\<rparr>) = ids q" "ids (apply_delta d q) = ids q"
  by (cases d; simp add: ids_def emit_def)+

lemma ids_fold: "(\<And>e q. ids (f e q) = ids q) \<Longrightarrow> ids (fold f es q) = ids q"
  by (induction es arbitrary: q) auto

lemma inner_ids [simp]:
  "ti_id (t_info (set_state st t)) = ti_id (t_info t)" "ti_id (t_info (resume_inner t)) = ti_id (t_info t)"
  "ti_id (t_info (retry_inner t)) = ti_id (t_info t)" "ti_id (t_info (report_info r t)) = ti_id (t_info t)"
  by (simp_all add: set_state_def resume_inner_def retry_inner_def report_info_def split: AttemptEnd.split)

lemma hook_ids:
  "ti_id (t_info (fst (repay_swap t))) = ti_id (t_info t)" "ti_id (t_info (fst (pause_edge_cas t))) = ti_id (t_info t)"
  "ti_id (t_info (fst (gate_cas t))) = ti_id (t_info t)"
  "prioritize_inner i t = Ok r \<Longrightarrow> ti_id (t_info (fst r)) = ti_id (t_info t)"
  by (auto simp: repay_swap_def pause_edge_cas_def gate_cas_def cas_priority_def prioritize_inner_def split: TransferState.splits)

lemma ids_commands:
  "ids (snd (pause i q)) = ids q" "ids (snd (resume i q)) = ids q" "ids (snd (cancel i q)) = ids q"
  "ids (snd (remove i q)) = ids q" "ids (snd (clear_where P q)) = ids q" "ids (prepare a q) = ids q"
  "ids (pause_all q) = ids q" "ids (resume_all q) = ids q"
  "r_kind r = AttRetry \<Longrightarrow> ids (report r a q) = ids q" "retry i q = (Ok a, q') \<Longrightarrow> ids q' = ids q"
  by (auto simp: pause_def resume_def cancel_def remove_def clear_where_def prepare_def with_transfer_def Let_def ids_upd
      pause_all_def resume_all_def report_def retry_def intro!: ids_fold split: option.splits if_splits)

lemma distinct_commands:
  assumes "distinct (map fst (transfers q))"
  shows "distinct (map fst (transfers (snd (pause i q))))" "distinct (map fst (transfers (snd (resume i q))))"
    "distinct (map fst (transfers (snd (cancel i q))))" "distinct (map fst (transfers (snd (remove i q))))"
    "distinct (map fst (transfers (snd (clear_where P q))))" "distinct (map fst (transfers (prepare a q)))"
    "r_kind r = AttRetry \<Longrightarrow> distinct (map fst (transfers (report r a q)))"
    "retry i q = (Ok a, q') \<Longrightarrow> distinct (map fst (transfers q'))"
  using assms
  by (auto simp: pause_def resume_def cancel_def remove_def clear_where_def prepare_def with_transfer_def Let_def
      report_def retry_def map_remove_def distinct_map_filter split: option.splits if_splits)

lemma keyed_commands:
  assumes "keyed q"
  shows "keyed (snd (pause i q))" "keyed (snd (resume i q))" "keyed (snd (cancel i q))" "keyed (snd (remove i q))"
    "keyed (snd (clear_where P q))" "keyed (prepare a q)" "r_kind r = AttRetry \<Longrightarrow> keyed (report r a q)"
    "retry i q = (Ok a, q') \<Longrightarrow> keyed q'"
proof -
  have d: "distinct (map fst (transfers q))" using assms by (simp add: keyed_def)
  show "keyed (snd (pause i q))" "keyed (snd (resume i q))" "keyed (snd (cancel i q))" "keyed (snd (remove i q))"
    "keyed (snd (clear_where P q))" "keyed (prepare a q)" "r_kind r = AttRetry \<Longrightarrow> keyed (report r a q)"
    "retry i q = (Ok a, q') \<Longrightarrow> keyed q'"
    by (rule keyed_same [OF assms ids_commands(1) distinct_commands(1) [OF d] transfers_commands(1)]
        keyed_same [OF assms ids_commands(2) distinct_commands(2) [OF d] transfers_commands(2)]
        keyed_same [OF assms ids_commands(3) distinct_commands(3) [OF d] transfers_commands(3)]
        keyed_same [OF assms ids_commands(4) distinct_commands(4) [OF d] transfers_commands(4)]
        keyed_same [OF assms ids_commands(5) distinct_commands(5) [OF d] transfers_commands(5)]
        keyed_same [OF assms ids_commands(6) distinct_commands(6) [OF d] transfers_commands(6)]
        keyed_same [OF assms ids_commands(9) distinct_commands(7) [OF d] transfers_commands(7)]
        keyed_same [OF assms ids_commands(10) distinct_commands(8) [OF d] transfers_commands(8)]; assumption)+
qed

lemma keyed_register:
  assumes "keyed q" "register millis dir local remote bytes oe q = ((i, a), q')"
  shows "keyed q'"
proof -
  have q: "inners q' = inners q @ [fresh_inner i dir local remote bytes oe]" "transfers q' = map_insert i a (transfers q)"
    "a = length (inners q)" using assms(2) by (auto simp: register_def Let_def)
  show ?thesis using assms(1) q
    by (auto simp: keyed_def map_insert_def fresh_inner_def nth_append distinct_map_filter)
qed

lemma keyed_mark: "keyed q \<Longrightarrow> ti_id (t_info (fst r)) = ti_id (t_info (inners q ! a)) \<Longrightarrow> keyed (upd a (\<lambda>_. fst r) q)"
  by (rule keyed_same [of q]) (auto simp: ids_upd keyed_def)

interpretation queue_keys: invariant_system queue_init "queue_step guarded" "\<lambda>s. keyed (queue s)" for guarded
proof (unfold_locales, goal_cases)
  case (1 s)
  then show ?case by (simp add: queue_init_def queue_new_def keyed_def)
next
  case (2 s t)
  from 2(2,1) show ?case
  proof (induction rule: queue_step.induct)
    case (q_register millis dir local remote bytes oe s i a q)
    then show ?case using keyed_register by simp
  next
    case (q_prioritize s i a r)
    then show ?case by (simp add: keyed_mark hook_ids(4))
  next
    case (q_settle s ds d ds')
    then show ?case by (cases d) (simp_all add: keyed_def)
  next
    case (q_pause_all s)
    then show ?case by (simp add: keyed_ids transfers_all ids_commands)
  next
    case (q_resume_all s)
    then show ?case by (simp add: keyed_ids transfers_all ids_commands)
  qed (auto simp: keyed_def [THEN iffD1, THEN conjunct1] ids_upd hook_ids keyed_commands intro!: keyed_mark intro: keyed_same)
qed

text \<open>What a tick finds has unique keys of the right shape, and gives for each transfer what
  the queue gives.\<close>

definition jobs_keyed :: "DirectoryJobScheduler \<Rightarrow> bool" where
  "jobs_keyed s \<longleftrightarrow> distinct (map sn_id (job_list s))"

definition queue_sane :: "TransferQueue \<Rightarrow> bool" where
  "queue_sane q \<longleftrightarrow> (\<exists>s guarded. reachable queue_init (queue_step guarded) s \<and> queue s = q)"

lemma queue_sane_keyed: "queue_sane q \<Longrightarrow> keyed q"
  unfolding queue_sane_def using queue_keys.inv_reachable by blast

lemma listed_ids: "keyed q \<Longrightarrow> map ti_id (transfer_list q) = map fst (transfers q)"
  unfolding keyed_def transfer_list_def by (auto simp: Sftp_Transfer.snapshot_def)

definition session_sane :: "string \<Rightarrow> 'c SftpManagerState \<Rightarrow> bool" where
  "session_sane sid m \<longleftrightarrow> (case fst (peek_ctx sid m) of None \<Rightarrow> True
     | Some c \<Rightarrow> queue_sane (cx_queue (arena m c)) \<and> jobs_keyed (cx_jobs (arena m c)))"

lemma collect_ok:
  assumes "session_sane sid m"
  shows "entities_ok (collect_entities view job_view sid m)"
proof (cases "fst (peek_ctx sid m)")
  case (Some c)
  let ?q = "cx_queue (arena m c)" and ?s = "cx_jobs (arena m c)"
  have q: "keyed ?q" and s: "jobs_keyed ?s" using assms Some queue_sane_keyed by (simp_all add: session_sane_def)
  have "distinct (map ti_id (transfer_list ?q))" using listed_ids [OF q] q by (simp add: keyed_def)
  then have "distinct (map (\<lambda>t. ''t:'' @ ti_id t) (transfer_list ?q))" by (simp add: distinct_map inj_on_def)
  moreover have "distinct (map (\<lambda>j. ''j:'' @ sn_id j) (job_list ?s))" using s by (simp add: jobs_keyed_def distinct_map inj_on_def)
  ultimately show ?thesis by (auto simp: collect_entities_def Some entities_ok_def comp_def list_all_iff is_key_def)
qed (simp add: collect_entities_def entities_ok_def)

lemma content_collect:
  assumes "fst (peek_ctx sid m) = Some c" "keyed (cx_queue (arena m c))"
  shows "content (collect_entities view job_view sid m) (key_of KTransfer i) = map_option view (transfer_get i (cx_queue (arena m c)))"
proof -
  let ?q = "cx_queue (arena m c)"
  have "map_of (map (\<lambda>t. (''t:'' @ ti_id t, view t)) (transfer_list ?q)) (''t:'' @ i) = map_option view (transfer_get i ?q)"
  proof -
    have "map_of (map (\<lambda>x. (''t:'' @ ti_id (Sftp_Transfer.snapshot (inners ?q ! snd x)), view (Sftp_Transfer.snapshot (inners ?q ! snd x)))) xs) (''t:'' @ i)
        = map_option (\<lambda>a. view (Sftp_Transfer.snapshot (inners ?q ! a))) (map_of xs i)"
      if "\<forall>x \<in> set xs. ti_id (t_info (inners ?q ! snd x)) = fst x" for xs
      using that by (induction xs) (auto simp: Sftp_Transfer.snapshot_def)
    from this [of "transfers ?q"] show ?thesis using assms(2)
      by (simp add: keyed_def transfer_list_def transfer_get_def comp_def split_beta option.map_comp)
  qed
  moreover have "map_of (map (\<lambda>j. (''j:'' @ sn_id j, job_view j)) js) (''t:'' @ i) = None" for js
    by (auto simp: map_of_eq_None_iff)
  ultimately show ?thesis
    by (simp add: collect_entities_def assms(1) content_def comp_def map_add_def split: option.splits)
qed

section \<open>Example\<close>

definition panel_queue :: TransferQueue where
  "panel_queue = snd (register 0 Download ''/l'' ''/r'' 5 Resume queue_new)"

definition panel_state :: "nat SftpManagerState" where
  "panel_state =
     \<lparr>ctxs = [(''s'', slot_new\<lparr>sl_state := Ready 1 0\<rparr>)], arena = (\<lambda>_. (sample_ctx 0)\<lparr>cx_queue := panel_queue\<rparr>)\<rparr>"

lemma panel_peek: "fst (peek_ctx ''s'' panel_state) = Some 0"
  by (simp add: peek_ctx_def panel_state_def ready_client_def sample_ctx_def)

lemma panel_queue_sane: "queue_sane panel_queue"
proof -
  let ?s = "\<lparr>queue = queue_new, in_flight = [], tasks = []\<rparr>"
  have "reachable queue_init (queue_step True) ?s" by (rule reachable.intros(1)) (simp add: queue_init_def)
  moreover obtain i a where "register 0 Download ''/l'' ''/r'' 5 Resume (queue ?s) = ((i, a), panel_queue)"
    by (simp add: panel_queue_def register_def Let_def)
  from q_register [OF this, of True] have "queue_step True ?s (?s\<lparr>queue := panel_queue, tasks := tasks ?s @ [(a, TRun)]\<rparr>)" .
  ultimately have "reachable queue_init (queue_step True) (?s\<lparr>queue := panel_queue, tasks := tasks ?s @ [(a, TRun)]\<rparr>)"
    by (rule reachable.intros(2))
  then show ?thesis unfolding queue_sane_def
    by (intro exI [of _ "?s\<lparr>queue := panel_queue, tasks := tasks ?s @ [(a, TRun)]\<rparr>"] exI [of _ True]) simp
qed

lemma panel_sane: "session_sane ''s'' panel_state"
  using panel_queue_sane panel_peek
  by (simp add: session_sane_def panel_state_def sample_ctx_def jobs_keyed_def job_list_def sched_new_def sched_with_caps_def)

end
