(* ===== verification/Sftp_Commands.thy ===== *)
theory Sftp_Commands
  imports Transfer_Ledger "HOL-Library.Sublist"
begin

text \<open>
  The transfer commands of \<^verbatim>\<open>src/crates/app/src/sftp.rs\<close>: upload and download of one path, the
  list of live and recorded transfers, resuming a stored transfer, removing and clearing. They
  join the queue, the directory jobs, the ledger and the local files of one session; a command
  is one step, since each waits for the answer of the ledger. What the server, the local file
  system and the data subsystem answer are arguments. Audit records are left out.
\<close>

section \<open>State\<close>

text \<open>\<open>w_files\<close> gives what exists at each local path, with its size.\<close>

record world =
  w_queue :: TransferQueue
  w_jobs :: DirectoryJobScheduler
  w_ledger :: TransferLedger
  w_files :: "string \<Rightarrow> u64 option"

datatype cmd_error =
    QueueError SftpError
  | StoreError string
  | UnknownPolicy string
  | UnknownFilter string
  | UnknownDirection string
  | Unreadable string
  | RemoteError string
  | LocalChanged u64 u64
  | RemoteChanged u64 u64
  | NotResumable string
  | NoSuchRecord string

text \<open>A request to the ledger that waits for its answer: everything sent before is played first.\<close>

definition ledger_settle :: "sqlite \<Rightarrow> TransferLedger \<Rightarrow> TransferRepo" where
  "ledger_settle db l = fst (play db (pending l) (lg_played l))"

definition ledger_call :: "sqlite \<Rightarrow> request \<Rightarrow> TransferLedger \<Rightarrow> reply \<times> TransferLedger" where
  "ledger_call db q l =
     (let p = exec_mutation db (request_mutation q 0) (play db (pending l) (lg_played l))
      in (snd (last (snd p)), l\<lparr>lg_queue := [], lg_upserts := [], lg_n := 0, lg_played := p\<rparr>))"

fun row_reply :: "reply \<Rightarrow> (string, TransferRecord option) result" where
  "row_reply (RowReply r) = r"
| "row_reply (RowsReply r) = Ok None"
| "row_reply (CountReply r) = Ok None"

fun rows_reply :: "reply \<Rightarrow> (string, TransferRecord list) result" where
  "rows_reply (RowsReply r) = r"
| "rows_reply (RowReply r) = Ok []"
| "rows_reply (CountReply r) = Ok []"

section \<open>Uploads and downloads\<close>

definition parse_on_exists :: "string option \<Rightarrow> (cmd_error, OnExists) result" where
  "parse_on_exists raw =
     (case raw of
        None \<Rightarrow> Ok Resume
      | Some w \<Rightarrow> if w = ''resume'' then Ok Resume else if w = ''overwrite'' then Ok Overwrite
                  else if w = ''skip'' then Ok Skip else if w = ''rename'' then Ok Rename else Err (UnknownPolicy w))"

datatype started = JobStarted string | Transfers "string list" nat

text \<open>What is there at the local path: a directory or a file with its size.\<close>

datatype local_meta = LocalDir | LocalFile u64

record remote_stat =
  rs_name :: string
  rs_dir :: bool
  rs_size :: u64

definition enqueue ::
  "nat \<Rightarrow> TransferDirection \<Rightarrow> string \<Rightarrow> string \<Rightarrow> u64 \<Rightarrow> OnExists \<Rightarrow> world \<Rightarrow> string \<times> world" where
  "enqueue millis dir local remote bytes mode w =
     (let ((i, _), q) = register millis dir local remote bytes mode (w_queue w) in (i, w\<lparr>w_queue := q\<rparr>))"

definition submit_job :: "nat \<Rightarrow> JobSpec \<Rightarrow> world \<Rightarrow> string \<times> world" where
  "submit_job millis spec w = (let (i, s) = submit millis spec (w_jobs w) in (i, w\<lparr>w_jobs := s\<rparr>))"

text \<open>A failed \<open>mkdir\<close> counts as done when its message has \<open>Failure\<close> in it.\<close>

definition sftp_upload ::
  "(cmd_error, local_meta) result \<Rightarrow> string option \<Rightarrow> (string, unit) result \<Rightarrow> (string \<Rightarrow> (string, unit) result) \<Rightarrow>
   (string \<Rightarrow> (SftpError, bool) result) \<Rightarrow> nat \<Rightarrow> string \<Rightarrow> string \<Rightarrow> string option \<Rightarrow> world \<Rightarrow> (cmd_error, started) result \<times> world" where
  "sftp_upload meta file_name slot mkdir probe millis local remote on_exists w =
     (case parse_on_exists on_exists of
        Inl e \<Rightarrow> (Err e, w)
      | Inr policy \<Rightarrow>
          (case meta of
             Inl e \<Rightarrow> (Err e, w)
           | Inr m \<Rightarrow>
               (let base_name = (case file_name of None \<Rightarrow> ''unnamed'' | Some n \<Rightarrow> n); target = remote @ ''/'' @ base_name
                in case m of
                     LocalDir \<Rightarrow>
                       (case slot of
                          Inl e \<Rightarrow> (Err (RemoteError e), w)
                        | Inr _ \<Rightarrow>
                            (case mkdir target of
                               Inl e \<Rightarrow>
                                 if \<not> sublist ''Failure'' e then (Err (RemoteError e), w)
                                 else (let (i, w) = submit_job millis \<lparr>spec_direction = Upload,
                                         spec_roots = [\<lparr>root_local = local, root_remote = target\<rparr>], spec_policy = policy\<rparr> w
                                       in (Ok (JobStarted i), w))
                             | Inr _ \<Rightarrow>
                                 (let (i, w) = submit_job millis \<lparr>spec_direction = Upload,
                                    spec_roots = [\<lparr>root_local = local, root_remote = target\<rparr>], spec_policy = policy\<rparr> w
                                  in (Ok (JobStarted i), w))))
                   | LocalFile len \<Rightarrow>
                       (case resolve_remote probe target policy of
                          Inl e \<Rightarrow> (Err (QueueError e), w)
                        | Inr None \<Rightarrow> (Ok (Transfers [] 1), w)
                        | Inr (Some (path, mode)) \<Rightarrow>
                            (let (i, w) = enqueue millis Upload local path len mode w in (Ok (Transfers [i] 0), w))))))"

text \<open>\<open>create_dir\<close> is what \<open>create_dir_all\<close> answers.\<close>

definition sftp_download ::
  "(string, remote_stat) result \<Rightarrow> (string \<Rightarrow> (string, unit) result) \<Rightarrow> nat \<Rightarrow> string \<Rightarrow> string \<Rightarrow> string option \<Rightarrow>
   world \<Rightarrow> (cmd_error, started) result \<times> world" where
  "sftp_download stat create_dir millis remote local on_exists w =
     (case parse_on_exists on_exists of
        Inl e \<Rightarrow> (Err e, w)
      | Inr policy \<Rightarrow>
          (case stat of
             Inl e \<Rightarrow> (Err (RemoteError e), w)
           | Inr st \<Rightarrow>
               (let target = path_join local (rs_name st)
                in if rs_dir st then
                     (case create_dir target of
                        Inl e \<Rightarrow> (Err (Unreadable e), w)
                      | Inr _ \<Rightarrow>
                          (let (i, w) = submit_job millis \<lparr>spec_direction = Download,
                             spec_roots = [\<lparr>root_local = target, root_remote = remote\<rparr>], spec_policy = policy\<rparr> w
                           in (Ok (JobStarted i), w)))
                   else
                     (case create_dir local of
                        Inl e \<Rightarrow> (Err (Unreadable e), w)
                      | Inr _ \<Rightarrow>
                          (case resolve_local (\<lambda>p. w_files w p \<noteq> None) target policy of
                             Inl e \<Rightarrow> (Err (QueueError e), w)
                           | Inr None \<Rightarrow> (Ok (Transfers [] 1), w)
                           | Inr (Some (path, mode)) \<Rightarrow>
                               (let (i, w) = enqueue millis Download path remote (rs_size st) mode w
                                in (Ok (Transfers [i] 0), w)))))))"

section \<open>The list of transfers\<close>

datatype transfer_view = Live TransferInfo | FromRecord TransferRecord

fun view_id :: "transfer_view \<Rightarrow> string" where
  "view_id (Live t) = ti_id t"
| "view_id (FromRecord r) = tr_id r"

definition transfer_list_command :: "sqlite \<Rightarrow> string \<Rightarrow> world \<Rightarrow> (cmd_error, transfer_view list) result" where
  "transfer_list_command db sid w =
     (let live = transfer_list (w_queue w)
      in case session_rows db sid (w_ledger w) of
           Inl e \<Rightarrow> Err (StoreError e)
         | Inr hist \<Rightarrow>
             Ok (map Live live @ map FromRecord (filter (\<lambda>h. tr_id h \<notin> set (map ti_id live)) hist)))"

section \<open>Resuming\<close>

definition resume_from_stored ::
  "sqlite \<Rightarrow> (string, unit) result \<Rightarrow> (string \<Rightarrow> (string, u64) result) \<Rightarrow> nat \<Rightarrow> string \<Rightarrow> string \<Rightarrow> world \<Rightarrow> (cmd_error, unit) result \<times> world" where
  "resume_from_stored db slot stat millis sid i w =
     (let (rep, l) = ledger_call db (ReqResumable sid i) (w_ledger w);
          w = w\<lparr>w_ledger := l\<rparr>;
          replaced = (\<lambda>w. (Ok (), w\<lparr>w_ledger := snd (ledger_call db (ReqRemove i) (w_ledger w))\<rparr>))
      in case row_reply rep of
           Inl e \<Rightarrow> (Err (StoreError e), w)
         | Inr None \<Rightarrow> (Err (NotResumable i), w)
         | Inr (Some row) \<Rightarrow>
             (case slot of
                Inl e \<Rightarrow> (Err (RemoteError e), w)
              | Inr _ \<Rightarrow>
                  if tr_direction row = ''upload'' then
                    (case w_files w (tr_local row) of
                       None \<Rightarrow> (Err (Unreadable (tr_local row)), w)
                     | Some n \<Rightarrow>
                         if n \<noteq> tr_bytes_total row then (Err (LocalChanged n (tr_bytes_total row)), w)
                         else (case stat (tr_remote row) of
                                 Inr s \<Rightarrow>
                                   if s > tr_bytes_done row then (Err (RemoteChanged s (tr_bytes_done row)), w)
                                   else replaced (snd (enqueue millis Upload (tr_local row) (tr_remote row) (tr_bytes_total row) Resume w))
                               | Inl _ \<Rightarrow> replaced (snd (enqueue millis Upload (tr_local row) (tr_remote row) (tr_bytes_total row) Resume w))))
                  else if tr_direction row = ''download'' then
                    (case stat (tr_remote row) of
                       Inl e \<Rightarrow> (Err (RemoteError e), w)
                     | Inr s \<Rightarrow>
                         if s \<noteq> tr_bytes_total row then (Err (RemoteChanged s (tr_bytes_total row)), w)
                         else replaced (snd (enqueue millis Download (tr_local row) (tr_remote row) (tr_bytes_total row) Resume w)))
                  else (Err (UnknownDirection (tr_direction row)), w)))"

definition transfer_resume ::
  "sqlite \<Rightarrow> (string, unit) result \<Rightarrow> (string \<Rightarrow> (string, u64) result) \<Rightarrow> nat \<Rightarrow> string \<Rightarrow> string \<Rightarrow> world \<Rightarrow> (cmd_error, unit) result \<times> world" where
  "transfer_resume db slot stat millis sid i w =
     (case resume i (w_queue w) of
        (Inr _, q) \<Rightarrow> (Ok (), w\<lparr>w_queue := q\<rparr>)
      | (Inl _, _) \<Rightarrow> resume_from_stored db slot stat millis sid i w)"

section \<open>Removing\<close>

text \<open>\<open>can p\<close> tells whether the file system lets \<open>p\<close> be removed; a failure is only logged.\<close>

definition remove_partial_file :: "(string \<Rightarrow> bool) \<Rightarrow> string \<Rightarrow> world \<Rightarrow> world" where
  "remove_partial_file can p w = (if can p then w\<lparr>w_files := (w_files w)(p := None)\<rparr> else w)"

definition remove_record :: "sqlite \<Rightarrow> (string \<Rightarrow> bool) \<Rightarrow> bool \<Rightarrow> string \<Rightarrow> world \<Rightarrow> (cmd_error, unit) result \<times> world" where
  "remove_record db can was_live i w =
     (let (rep, l) = ledger_call db (ReqRemove i) (w_ledger w); w = w\<lparr>w_ledger := l\<rparr>
      in case row_reply rep of
           Inl e \<Rightarrow> (Err (StoreError e), w)
         | Inr (Some r) \<Rightarrow>
             (Ok (), if \<not> was_live \<and> tr_direction r = ''download'' \<and> tr_state r \<noteq> ''done''
                     then remove_partial_file can (tr_local r) w else w)
         | Inr None \<Rightarrow> if \<not> was_live then (Err (NoSuchRecord i), w) else (Ok (), w))"

definition transfer_remove :: "sqlite \<Rightarrow> (string \<Rightarrow> bool) \<Rightarrow> string \<Rightarrow> world \<Rightarrow> (cmd_error, unit) result \<times> world" where
  "transfer_remove db can i w =
     (case transfer_get i (w_queue w) of
        None \<Rightarrow> remove_record db can False i w
      | Some t \<Rightarrow>
          (case remove i (w_queue w) of
             (Inl e, _) \<Rightarrow> (Err (QueueError e), w)
           | (Inr _, q) \<Rightarrow>
               (let w = w\<lparr>w_queue := q\<rparr>;
                    w = (if ti_direction t = Download \<and> ti_state t \<noteq> Done then remove_partial_file can (ti_local t) w else w)
                in remove_record db can True i w)))"

definition clear_filter :: "string \<Rightarrow> ((TransferState \<Rightarrow> bool) \<times> ClearScope) option" where
  "clear_filter f =
     (if f = ''done'' then Some (\<lambda>s. s = Done, ScopeDone)
      else if f = ''failed'' then Some (\<lambda>s. s \<in> {Failed, Canceled}, ScopeFailed)
      else None)"

definition transfer_clear :: "sqlite \<Rightarrow> (string \<Rightarrow> bool) \<Rightarrow> string \<Rightarrow> string \<Rightarrow> world \<Rightarrow> (cmd_error, nat) result \<times> world" where
  "transfer_clear db can sid filt w =
     (case clear_filter filt of
        None \<Rightarrow> (Err (UnknownFilter filt), w)
      | Some (pred, scope) \<Rightarrow>
          (let (removed, q) = clear_where pred (w_queue w);
               w = w\<lparr>w_queue := q\<rparr>;
               w = fold (\<lambda>t. remove_partial_file can (ti_local t))
                     (filter (\<lambda>t. ti_direction t = Download \<and> ti_state t \<noteq> Done) removed) w;
               (rep, l) = ledger_call db (ReqClear sid scope) (w_ledger w);
               w = w\<lparr>w_ledger := l\<rparr>
           in case rows_reply rep of
                Inl e \<Rightarrow> (Err (StoreError e), w)
              | Inr rs \<Rightarrow>
                  (let others = filter (\<lambda>r. tr_id r \<notin> set (map ti_id removed)) rs
                   in (Ok (length removed + length others),
                       fold (\<lambda>r. remove_partial_file can (tr_local r))
                         (filter (\<lambda>r. tr_direction r = ''download'' \<and> tr_state r \<noteq> ''done'') others) w))))"

section \<open>Answers of the ledger\<close>

lemma w_remove_partial_file [simp]:
  "w_queue (remove_partial_file can p w) = w_queue w" "w_ledger (remove_partial_file can p w) = w_ledger w"
  "w_files (remove_partial_file can p w) x = (if x = p \<and> can p then None else w_files w x)"
  by (simp_all add: remove_partial_file_def)

lemma w_fold_remove_partial:
  "w_queue (fold (\<lambda>t. remove_partial_file can (f t)) ts w) = w_queue w"
  "w_ledger (fold (\<lambda>t. remove_partial_file can (f t)) ts w) = w_ledger w"
  "w_files (fold (\<lambda>t. remove_partial_file can (f t)) ts w) x = w_files w x \<or> x \<in> f ` set ts"
  by (induction ts arbitrary: w) (auto split: if_splits)

lemma pending_call [simp]: "pending (snd (ledger_call db q l)) = []"
  by (simp add: ledger_call_def pending_def Let_def)

lemma ledger_settle_call:
  "ledger_settle db (snd (ledger_call db q l)) = fst (exec_mutation db (request_mutation q 0) (play db (pending l) (lg_played l)))"
  by (simp add: ledger_settle_def ledger_call_def pending_def Let_def)

lemma find_row: "find (\<lambda>r. tr_id r = i) t = Some r \<Longrightarrow> r \<in> set t \<and> tr_id r = i"
  by (auto simp: find_Some_iff)

text \<open>Whatever the calls of SQLite answer, a row in a reply was in the table.\<close>

lemma remove_call_row:
  assumes "row_reply (fst (ledger_call db (ReqRemove i) l)) = Ok (Some r)"
  shows "r \<in> set (rows (ledger_settle db l)) \<and> tr_id r = i"
proof -
  obtain s acks where p: "play db (pending l) (lg_played l) = (s, acks)" by fastforce
  show ?thesis using assms
    by (auto simp: ledger_call_def ledger_settle_def p Let_def repo_get_def repo_delete_def statement_def dest!: find_row
        split: prod.splits sum.splits option.splits if_splits)
qed

lemma resumable_call_row:
  assumes "row_reply (fst (ledger_call db (ReqResumable sid i) l)) = Ok (Some r)"
  shows "r \<in> set (rows (ledger_settle db l)) \<and> tr_id r = i \<and> tr_session_id r = sid \<and> tr_state r = ''paused''"
proof -
  obtain s acks where p: "play db (pending l) (lg_played l) = (s, acks)" by fastforce
  show ?thesis using assms
    by (auto simp: ledger_call_def ledger_settle_def p Let_def repo_get_def statement_def dest!: find_row
        split: prod.splits sum.splits option.splits if_splits)
qed

lemma delete_hits_subset:
  "delete_hits db states rs hit s = (Inr out, s') \<Longrightarrow> set out \<subseteq> set hit \<union> set rs"
proof (induction rs arbitrary: hit s)
  case (Cons r rs)
  then show ?case by (fastforce split: if_splits prod.splits sum.splits)
qed simp

lemma clear_call_rows:
  assumes "rows_reply (fst (ledger_call db (ReqClear sid sc) l)) = Ok rs" "\<And>t. set (db_newest_first db t) \<subseteq> set t"
  shows "set rs \<subseteq> set (rows (ledger_settle db l))"
proof -
  obtain s acks where p: "play db (pending l) (lg_played l) = (s, acks)" by fastforce
  obtain res s1 where f: "for_session db sid s = (res, s1)" by fastforce
  obtain out where out: "res = Inr out" "set out \<subseteq> set (rows s)" if "\<exists>out. res = Inr out"
    using f assms(2) [of "filter (\<lambda>r. tr_session_id r = sid) (rows s)"]
    by (fastforce simp: for_session_def statement_def Let_def split: option.splits dest!: in_set_takeD)
  show ?thesis
  proof (cases res)
    case (Inl e)
    then show ?thesis using assms(1) by (simp add: ledger_call_def p f Let_def)
  next
    case (Inr rs0)
    obtain res2 s2 where d: "delete_hits db (scope_states sc) rs0 [] s1 = (res2, s2)" by fastforce
    then have "res2 = Inr rs" using assms(1) Inr by (simp add: ledger_call_def p f Let_def)
    then show ?thesis using delete_hits_subset d Inr out by (force simp: ledger_settle_def p)
  qed
qed

section \<open>Removal\<close>

text \<open>A removal that succeeds is final while SQLite answers: the transfer is neither in the
  queue nor in the table, whatever the ledger had queued.\<close>

theorem removal_is_final:
  assumes "db_fail db = (\<lambda>_. None)" "transfer_remove db can i w = (Ok (), w')"
  shows "map_of (transfers (w_queue w')) i = None \<and> i \<notin> tr_id ` set (rows (ledger_settle db (w_ledger w')))"
proof -
  have rec: "w_queue w2 = w_queue w1 \<and> i \<notin> tr_id ` set (rows (ledger_settle db (w_ledger w2)))"
    if "remove_record db can was_live i w1 = (Ok (), w2)" for was_live w1 w2
  proof -
    obtain rep l where c: "ledger_call db (ReqRemove i) (w_ledger w1) = (rep, l)" by fastforce
    have "i \<notin> tr_id ` set (rows (ledger_settle db l))"
      using ledger_settle_call [of db "ReqRemove i" "w_ledger w1"] remove_exec(1) [OF assms(1), of i 0] c
      by (simp add: has_row_def)
    moreover have "w_queue w2 = w_queue w1 \<and> w_ledger w2 = l"
      using that c by (auto simp: remove_record_def Let_def split: sum.splits option.splits if_splits)
    ultimately show ?thesis by simp
  qed
  show ?thesis
  proof (cases "map_of (transfers (w_queue w)) i")
    case None
    then show ?thesis using assms(2) rec by (auto simp: transfer_remove_def transfer_get_def)
  next
    case (Some a)
    let ?q = "(w_queue w)\<lparr>transfers := map_remove i (transfers (w_queue w))\<rparr>"
    have gone: "map_of (map_remove i (transfers (w_queue w))) i = None"
      by (auto simp: map_remove_def map_of_eq_None_iff)
    from assms(2) Some obtain w1 where "remove_record db can True i w1 = (Ok (), w')" "w_queue w1 = ?q"
      by (auto simp: transfer_remove_def transfer_get_def remove_def Let_def split: if_splits)
    then show ?thesis using rec gone by simp
  qed
qed

lemma remove_record_files:
  "w_files (snd (remove_record db can was_live i w)) p = w_files w p \<or>
   (\<exists>r \<in> set (rows (ledger_settle db (w_ledger w))). tr_direction r = ''download'' \<and> tr_state r \<noteq> ''done'' \<and> tr_local r = p)"
proof -
  obtain rep l where c: "ledger_call db (ReqRemove i) (w_ledger w) = (rep, l)" by fastforce
  show ?thesis using remove_call_row [of db i "w_ledger w"] c
    by (auto simp: remove_record_def Let_def split: sum.splits option.splits if_splits)
qed

lemma transfer_get_listed: "transfer_get i q = Some t \<Longrightarrow> t \<in> set (transfer_list q)"
  by (auto simp: transfer_get_def transfer_list_def dest!: map_of_SomeD intro!: image_eqI [rotated])

text \<open>Removing and clearing touch no local file but the target of a download that is not done,
  live or recorded; so never the source of an upload, and never a finished download.\<close>

theorem removal_spares_files:
  assumes "\<And>t. set (db_newest_first db t) \<subseteq> set t"
    and "\<forall>t \<in> set (transfer_list (w_queue w)). \<not> (ti_direction t = Download \<and> ti_state t \<noteq> Done \<and> ti_local t = p)"
    and "\<forall>r \<in> set (rows (ledger_settle db (w_ledger w))). \<not> (tr_direction r = ''download'' \<and> tr_state r \<noteq> ''done'' \<and> tr_local r = p)"
  shows "w_files (snd (transfer_remove db can i w)) p = w_files w p \<and>
    w_files (snd (transfer_clear db can sid filt w)) p = w_files w p"
proof
  have "w_ledger w1 = w_ledger w \<Longrightarrow> w_files (snd (remove_record db can b i w1)) p = w_files w1 p" for b w1
    using remove_record_files [of db can b i w1 p] assms(3) by auto
  then show "w_files (snd (transfer_remove db can i w)) p = w_files w p"
    using assms(2) transfer_get_listed [of i "w_queue w"]
    by (auto simp: transfer_remove_def Let_def split: option.splits prod.splits sum.splits)
  show "w_files (snd (transfer_clear db can sid filt w)) p = w_files w p"
  proof (cases "clear_filter filt")
    case None
    then show ?thesis by (simp add: transfer_clear_def)
  next
    case (Some ps)
    obtain pred scope where ps: "ps = (pred, scope)" by fastforce
    obtain removed q where cw: "clear_where pred (w_queue w) = (removed, q)" by fastforce
    have removed: "set removed \<subseteq> set (transfer_list (w_queue w))"
      using cw by (auto simp: clear_where_def transfer_list_def Let_def)
    let ?w1 = "fold (\<lambda>t. remove_partial_file can (ti_local t))
      (filter (\<lambda>t. ti_direction t = Download \<and> ti_state t \<noteq> Done) removed) (w\<lparr>w_queue := q\<rparr>)"
    have w1: "w_files ?w1 p = w_files w p" "w_ledger ?w1 = w_ledger w"
      using w_fold_remove_partial(3) [of can ti_local _ "w\<lparr>w_queue := q\<rparr>" p] removed assms(2)
      by (fastforce simp: w_fold_remove_partial(2))+
    obtain rep l where c: "ledger_call db (ReqClear sid scope) (w_ledger w) = (rep, l)" by fastforce
    show ?thesis
    proof (cases "rows_reply rep")
      case (Inl e)
      then show ?thesis using w1 by (simp add: transfer_clear_def Some ps cw c Let_def)
    next
      case (Inr rs)
      then have rs: "set rs \<subseteq> set (rows (ledger_settle db (w_ledger w)))"
        using clear_call_rows [of db sid scope "w_ledger w" rs] assms(1) c by simp
      let ?others = "filter (\<lambda>r. tr_direction r = ''download'' \<and> tr_state r \<noteq> ''done'') (filter (\<lambda>r. tr_id r \<notin> set (map ti_id removed)) rs)"
      have "w_files (fold (\<lambda>r. remove_partial_file can (tr_local r)) ?others (?w1\<lparr>w_ledger := l\<rparr>)) p = w_files ?w1 p"
        using w_fold_remove_partial(3) [of can tr_local ?others "?w1\<lparr>w_ledger := l\<rparr>" p] rs assms(3) by auto
      then show ?thesis using w1 Inr by (simp add: transfer_clear_def Some ps cw c Let_def)
    qed
  qed
qed

lemma remove_record_keeps_none:
  "w_files w p = None \<Longrightarrow> w_files (snd (remove_record db can was_live i w)) p = None"
  by (auto simp: remove_record_def Let_def split: prod.splits sum.splits option.splits)

lemma transfer_remove_partial:
  assumes "transfer_get i (w_queue w) = Some t" "ti_direction t = Download" "is_terminal (ti_state t)" "ti_state t \<noteq> Done" "can (ti_local t)"
  shows "w_files (snd (transfer_remove db can i w)) (ti_local t) = None"
proof -
  obtain a where a: "map_of (transfers (w_queue w)) i = Some a" "t = Sftp_Transfer.snapshot (inners (w_queue w) ! a)"
    using assms(1) by (auto simp: transfer_get_def)
  then have st: "ti_state t = state_of (inners (w_queue w) ! a)" by (simp add: Sftp_Transfer.snapshot_def)
  show ?thesis
    using assms a st
    by (simp add: transfer_remove_def remove_def Let_def) (intro remove_record_keeps_none, simp)
qed

lemma repay_priority_info:
  "t_info (inners (repay_priority a q) ! b) = t_info (inners q ! b) \<and> transfers (repay_priority a q) = transfers q \<and>
   length (inners (repay_priority a q)) = length (inners q)"
proof -
  have "inners (fold apply_delta ds q) = inners q \<and> transfers (fold apply_delta ds q) = transfers q" for ds q
  proof (induction ds arbitrary: q)
    case (Cons d ds)
    then show ?case by (cases d) simp_all
  qed simp
  then show ?thesis
    by (cases "b = a"; cases "a < length (inners q)")
      (auto simp: repay_priority_def run_hook_def repay_swap_def upd_def Let_def split_beta list_update_beyond not_less)
qed

lemma get_canceled:
  assumes "map_of (transfers q) i = Some a" "a < length (inners q)"
  shows "\<exists>t. transfer_get i (cancel_terminal a (snd (cancel i q))) = Some t \<and> ti_state t = Canceled \<and>
    ti_direction t = ti_direction (t_info (inners q ! a)) \<and> ti_local t = ti_local (t_info (inners q ! a))"
proof -
  let ?q = "upd a (set_state Canceled) (snd (cancel i q))"
  have "t_info (inners (cancel_terminal a (snd (cancel i q))) ! a) = t_info (inners ?q ! a)"
    using repay_priority_info [of a ?q a] by (simp add: cancel_terminal_def emit_def)
  moreover have "t_info (inners ?q ! a) = (t_info (inners q ! a))\<lparr>ti_state := Canceled\<rparr>"
    using assms by (simp add: cancel_def with_transfer_def upd_def set_state_def)
  moreover have "transfers (cancel_terminal a (snd (cancel i q))) = transfers q"
    using repay_priority_info [of a ?q a] assms(1) by (simp add: cancel_terminal_def emit_def cancel_def with_transfer_def upd_def)
  ultimately show ?thesis using assms(1) by (simp add: transfer_get_def Sftp_Transfer.snapshot_def)
qed

text \<open>A download with the default policy onto an existing file leaves the file alone until it
  runs; cancelled before that and removed from the list, it takes the file with it.\<close>

theorem removal_deletes_untouched_file:
  assumes "\<not> rs_dir st" "p = path_join local (rs_name st)" "w_files w p = Some n" "can p"
    and "sftp_download (Ok st) (\<lambda>_. Ok ()) millis remote local None w = (Ok (Transfers [i] 0), w1)"
    and "map_of (transfers (w_queue w1)) i = Some a"
  shows "w_files w1 p = Some n \<and>
    w_files (snd (transfer_remove db can i (w1\<lparr>w_queue := cancel_terminal a (snd (cancel i (w_queue w1)))\<rparr>))) p = None"
proof -
  have res: "resolve_local (\<lambda>p. w_files w p \<noteq> None) p Resume = Ok (Some (p, Resume))"
    using assms(3) by (simp add: resolve_local_def)
  have w1: "w_files w1 = w_files w" "a = length (inners (w_queue w))"
    "inners (w_queue w1) = inners (w_queue w) @ [fresh_inner i Download p remote (rs_size st) Resume]"
    using assms(1,2,5,6) res
    by (auto simp: sftp_download_def parse_on_exists_def enqueue_def register_def Let_def map_insert_def)
  then obtain t where t: "transfer_get i (cancel_terminal a (snd (cancel i (w_queue w1)))) = Some t" "ti_state t = Canceled"
    "ti_direction t = Download" "ti_local t = p"
    using get_canceled [OF assms(6)] by (auto simp: fresh_inner_def)
  then show ?thesis
    using transfer_remove_partial [of i "w1\<lparr>w_queue := cancel_terminal a (snd (cancel i (w_queue w1)))\<rparr>" t can db] assms(3,4) w1(1)
    by (simp add: is_terminal_def)
qed

section \<open>Resuming a stored transfer\<close>


section \<open>Examples\<close>

definition sample_world :: world where
  "sample_world =
     \<lparr>w_queue = queue_new, w_jobs = sched_new,
      w_ledger = ledger_start \<lparr>rows = [into_record (sample_entry ''a'' Paused)], calls = 0\<rparr>,
      w_files = [''/d/f'' \<mapsto> 5]\<rparr>"

lemmas call_defs =
  ledger_call_def ledger_settle_def ledger_start_def pending_def into_record_def sample_entry_def
  repo_get_def repo_delete_def statement_def quiet_db_def queue_new_def Let_def

lemma removal_is_final_witness:
  "\<exists>w'. transfer_remove quiet_db (\<lambda>_. True) ''a'' sample_world = (Ok (), w') \<and>
     ''a'' \<notin> tr_id ` set (rows (ledger_settle quiet_db (w_ledger w')))"
proof -
  have "\<exists>w'. transfer_remove quiet_db (\<lambda>_. True) ''a'' sample_world = (Ok (), w')"
    by (simp add: transfer_remove_def transfer_get_def remove_record_def sample_world_def call_defs)
  then obtain w' where "transfer_remove quiet_db (\<lambda>_. True) ''a'' sample_world = (Ok (), w')" ..
  with removal_is_final [OF _ this] show ?thesis by (auto simp: quiet_db_def)
qed

lemma removal_spares_files_witness:
  "w_files (snd (transfer_clear quiet_db (\<lambda>_. True) ''s'' ''failed'' sample_world)) ''/d/f'' = Some 5"
  using removal_spares_files [of quiet_db sample_world "''/d/f''" "\<lambda>_. True" "''a''" "''s''" "''failed''"]
  by (simp add: sample_world_def transfer_list_def call_defs)

lemma removal_deletes_untouched_file_witness:
  "\<exists>w1 a i. sftp_download (Ok \<lparr>rs_name = ''f'', rs_dir = False, rs_size = 9\<rparr>) (\<lambda>_. Ok ()) 0 ''/r/f'' ''/d'' None sample_world =
       (Ok (Transfers [i] 0), w1) \<and> w_files w1 ''/d/f'' = Some 5 \<and>
     w_files (snd (transfer_remove quiet_db (\<lambda>_. True) i (w1\<lparr>w_queue := cancel_terminal a (snd (cancel i (w_queue w1)))\<rparr>))) ''/d/f'' = None"
proof -
  let ?st = "\<lparr>rs_name = ''f'', rs_dir = False, rs_size = 9\<rparr>"
  have "\<exists>w1 a i. sftp_download (Ok ?st) (\<lambda>_. Ok ()) 0 ''/r/f'' ''/d'' None sample_world = (Ok (Transfers [i] 0), w1) \<and>
      map_of (transfers (w_queue w1)) i = Some a"
    by (simp add: sftp_download_def parse_on_exists_def path_join_def starts_with_def resolve_local_def sample_world_def
        enqueue_def register_def Let_def map_insert_def)
  then obtain w1 a i where run: "sftp_download (Ok ?st) (\<lambda>_. Ok ()) 0 ''/r/f'' ''/d'' None sample_world = (Ok (Transfers [i] 0), w1)"
    and a: "map_of (transfers (w_queue w1)) i = Some a" by blast
  have "\<not> rs_dir ?st" "''/d/f'' = path_join ''/d'' (rs_name ?st)" "w_files sample_world ''/d/f'' = Some 5"
    by (simp_all add: path_join_def starts_with_def sample_world_def)
  from removal_deletes_untouched_file [OF this _ run a, of "\<lambda>_. True" quiet_db] run show ?thesis by blast
qed


end
