(* ===== verification/Shell_Integration.thy ===== *)
theory Shell_Integration
  imports Rust_Text "HOL-Library.Sublist"
begin

text \<open>
  The switch for directory reports of the remote shell: the text functions of
  \<^verbatim>\<open>src/crates/core-sftp/src/shellint.rs\<close> and the commands of \<^verbatim>\<open>src/crates/app/src/sftp.rs\<close>
  that apply them to the start-up files of the account. The comments of the block and of the
  script, which are Chinese, are rendered in ASCII. \<open>sv_fail\<close> tells which
  calls of the server fail, and \<open>lossy\<close> is \<open>String::from_utf8_lossy\<close>.
\<close>

section \<open>Text\<close>

definition MARK_BEGIN :: string where
  "MARK_BEGIN = ''# >>> myssh osc7 >>>''"

definition MARK_END :: string where
  "MARK_END = ''# <<< myssh osc7 <<<''"

definition BLOCK_LINES :: "string list" where \<open>
  BLOCK_LINES =
    [MARK_BEGIN,
     ''# mySSH directory reports (for SFTP following the terminal); remove with the switch of the SFTP panel'',
     ''[ -f "$HOME/.myssh/osc7.sh" ] && . "$HOME/.myssh/osc7.sh"'',
     MARK_END]\<close>

definition BLOCK :: string where
  "BLOCK = join nl BLOCK_LINES"

text \<open>Twice in the script the sequence that is printed: \<open>ESC ] 7 ; file://host/path BEL\<close>, quoted for the shell.\<close>

definition osc7_format :: string where
  "osc7_format = [CHR 39, CHR 92] @ ''033]7;file://%s%s'' @ [CHR 92] @ ''007'' @ [CHR 39]"

definition SCRIPT :: string where \<open>
  SCRIPT = concat (map (\<lambda>l. l @ nl)
    [''# mySSH OSC 7 hook (managed by mySSH; delete this file to disable)'',
     ''if [ -n "$BASH_VERSION" ]; then'',
     ''  __myssh_osc7() { printf '' @ osc7_format @ '' "$HOSTNAME" "$PWD"; }'',
     ''  case ";${PROMPT_COMMAND:-};" in'',
     ''    *";__myssh_osc7;"*) ;;'',
     ''    *) PROMPT_COMMAND="__myssh_osc7${PROMPT_COMMAND:+;$PROMPT_COMMAND}" ;;'',
     ''  esac'',
     ''elif [ -n "$ZSH_VERSION" ]; then'',
     ''  autoload -Uz add-zsh-hook'',
     ''  __myssh_osc7() { printf '' @ osc7_format @ '' "$HOST" "$PWD"; }'',
     ''  add-zsh-hook precmd __myssh_osc7'',
     ''fi''])\<close>

definition SCRIPT_REL :: string where
  "SCRIPT_REL = ''.myssh/osc7.sh''"

definition has_integration :: "string \<Rightarrow> bool" where
  "has_integration content \<longleftrightarrow> sublist MARK_BEGIN content"

definition add_integration :: "string \<Rightarrow> string" where
  "add_integration content =
     (if has_integration content then content
      else let out = content;
               out = (if out \<noteq> [] \<and> \<not> ends_with out nl then out @ nl else out);
               out = (if out \<noteq> [] then out @ nl else out)
           in out @ BLOCK @ nl)"

fun remove_loop :: "string list \<Rightarrow> bool \<Rightarrow> bool \<Rightarrow> string list \<Rightarrow> string list \<times> bool" where
  "remove_loop [] inside removed_any out = (out, removed_any)"
| "remove_loop (l # ls) inside removed_any out =
     (if trim l = MARK_BEGIN
      then remove_loop ls True True (if out \<noteq> [] \<and> trim (last out) = [] then butlast out else out)
      else if inside then remove_loop ls (trim l \<noteq> MARK_END) removed_any out
      else remove_loop ls inside removed_any (out @ [l]))"

definition remove_integration :: "string \<Rightarrow> string" where
  "remove_integration content =
     (let (out, removed_any) = remove_loop (str_lines content) False False []
      in if \<not> removed_any then content
         else let s = join nl out in if ends_with content nl \<and> s \<noteq> [] then s @ nl else s)"

section \<open>The start-up files\<close>

record remote =
  rm_files :: "string \<Rightarrow> string option"
  rm_dirs :: "string set"

record server =
  sv_fail :: "string \<Rightarrow> string \<Rightarrow> string option"
  sv_lossy :: "string \<Rightarrow> string"

definition lstat_ok :: "server \<Rightarrow> string \<Rightarrow> remote \<Rightarrow> bool" where
  "lstat_ok sv p r \<longleftrightarrow> (rm_files r p \<noteq> None \<or> p \<in> rm_dirs r) \<and> sv_fail sv ''lstat'' p = None"

definition read_rc_file :: "server \<Rightarrow> string \<Rightarrow> remote \<Rightarrow> (string, string option) result" where
  "read_rc_file sv p r =
     (if \<not> lstat_ok sv p r then Ok None
      else case sv_fail sv ''read'' p of
             Some e \<Rightarrow> Err e
           | None \<Rightarrow>
               (case rm_files r p of
                  None \<Rightarrow> Err ''not a file''
                | Some c \<Rightarrow> Ok (Some (sv_lossy sv (take (1024 * 1024) c)))))"

definition overwrite :: "server \<Rightarrow> string \<Rightarrow> string \<Rightarrow> remote \<Rightarrow> (string, unit) result \<times> remote" where
  "overwrite sv p c r =
     (case sv_fail sv ''write'' p of
        Some e \<Rightarrow> (Err e, r)
      | None \<Rightarrow> (Ok (), r\<lparr>rm_files := (rm_files r)(p := Some c)\<rparr>))"

definition shell_integration_status :: "server \<Rightarrow> string \<Rightarrow> remote \<Rightarrow> (string, bool) result" where
  "shell_integration_status sv home r =
     (case read_rc_file sv (home @ ''/.bashrc'') r of
        Inl e \<Rightarrow> Err e
      | Inr bash \<Rightarrow>
          (case read_rc_file sv (home @ ''/.zshrc'') r of
             Inl e \<Rightarrow> Err e
           | Inr zsh \<Rightarrow>
               Ok ((case bash of None \<Rightarrow> False | Some c \<Rightarrow> has_integration c) \<or>
                   (case zsh of None \<Rightarrow> False | Some c \<Rightarrow> has_integration c))))"

text \<open>The loop over the start-up files.\<close>

fun set_rc :: "server \<Rightarrow> bool \<Rightarrow> string list \<Rightarrow> string list \<Rightarrow> remote \<Rightarrow> (string, string list) result \<times> remote" where
  "set_rc sv enable [] touched r = (Ok touched, r)"
| "set_rc sv enable (p # ps) touched r =
     (case read_rc_file sv p r of
        Inl e \<Rightarrow> (Err e, r)
      | Inr c \<Rightarrow>
          (let content = (case c of None \<Rightarrow> [] | Some c \<Rightarrow> c);
               new = (if enable then add_integration content else remove_integration content)
           in if new \<noteq> content then
                (case overwrite sv p new r of
                   (Inl e, r) \<Rightarrow> (Err e, r)
                 | (Inr _, r) \<Rightarrow> set_rc sv enable ps (touched @ [p]) r)
              else set_rc sv enable ps touched r))"

definition make_dir :: "server \<Rightarrow> string \<Rightarrow> remote \<Rightarrow> (string, unit) result \<times> remote" where
  "make_dir sv d r =
     (if lstat_ok sv d r then (Ok (), r)
      else case sv_fail sv ''mkdir'' d of
             Some e \<Rightarrow> (Err e, r)
           | None \<Rightarrow> (Ok (), r\<lparr>rm_dirs := insert d (rm_dirs r)\<rparr>))"

text \<open>The script: written, or removed with its directory when the server lets it go.\<close>

definition set_script :: "server \<Rightarrow> bool \<Rightarrow> string \<Rightarrow> string list \<Rightarrow> remote \<Rightarrow> (string, string list) result \<times> remote" where
  "set_script sv enable home touched r =
     (let script = home @ ''/'' @ SCRIPT_REL; dir = home @ ''/.myssh''
      in if enable then
           (case make_dir sv dir r of
              (Inl e, r) \<Rightarrow> (Err e, r)
            | (Inr _, r) \<Rightarrow>
                (case overwrite sv script SCRIPT r of
                   (Inl e, r) \<Rightarrow> (Err e, r)
                 | (Inr _, r) \<Rightarrow> (Ok (touched @ [script]), r)))
         else if lstat_ok sv script r then
           (case sv_fail sv ''remove'' script of
              Some e \<Rightarrow> (Err e, r)
            | None \<Rightarrow>
                (let r = r\<lparr>rm_files := (rm_files r)(script := None)\<rparr>;
                     r = (if sv_fail sv ''rmdir'' dir = None then r\<lparr>rm_dirs := rm_dirs r - {dir}\<rparr> else r)
                 in (Ok (touched @ [script]), r)))
         else (Ok touched, r))"

definition shell_integration_set :: "server \<Rightarrow> bool \<Rightarrow> string \<Rightarrow> remote \<Rightarrow> (string, string list) result \<times> remote" where
  "shell_integration_set sv enable home r =
     (let targets = (home @ ''/.bashrc'') # (if lstat_ok sv (home @ ''/.zshrc'') r then [home @ ''/.zshrc''] else [])
      in case set_rc sv enable targets [] r of
           (Inl e, r) \<Rightarrow> (Err e, r)
         | (Inr touched, r) \<Rightarrow> set_script sv enable home touched r)"

section \<open>Lines\<close>

lemma join_snoc: "join nl (ls @ [l]) = unlines ls @ l"
proof (induction ls)
  case (Cons a ls)
  then show ?case by (cases ls) auto
qed simp

text \<open>A text without carriage returns before line feeds that ends with a line feed is its lines.\<close>

lemma unlines_exist:
  assumes "c = [] \<or> last c = CHR 0x0A" "\<not> sublist [CHR 0x0D, CHR 0x0A] c"
  shows "\<exists>ls. c = unlines ls \<and> list_all plain_line ls"
proof -
  let ?ps = "split_on (CHR 0x0A) c"
  have j: "join nl ?ps = c" by (rule join_split_on)
  have no: "CHR 0x0A \<notin> set p" if "p \<in> set ?ps" for p using that split_on_no_sep by blast
  have c: "c = unlines (butlast ?ps) @ last ?ps" using j join_snoc [of "butlast ?ps" "last ?ps"] by simp
  have "last ?ps = []"
  proof (rule ccontr)
    assume "last ?ps \<noteq> []"
    then have "last c = last (last ?ps)" using c by (metis last_appendR)
    moreover have "last (last ?ps) \<in> set (last ?ps)" using \<open>last ?ps \<noteq> []\<close> by simp
    ultimately show False using assms(1) no [of "last ?ps"] c \<open>last ?ps \<noteq> []\<close> by (metis append_is_Nil_conv last_in_set split_on_not_Nil)
  qed
  moreover have "plain_line p" if p: "p \<in> set (butlast ?ps)" for p
  proof -
    obtain xs ys where "butlast ?ps = xs @ p # ys" using p by (meson split_list)
    then have cp: "c = unlines xs @ p @ nl @ unlines ys" using c \<open>last ?ps = []\<close> by simp
    have "\<not> ends_with p [CHR 0x0D]"
    proof
      assume "ends_with p [CHR 0x0D]"
      then obtain q where "p = q @ [CHR 0x0D]" unfolding ends_with_def by (metis append_take_drop_id)
      then have "c = (unlines xs @ q) @ [CHR 0x0D, CHR 0x0A] @ unlines ys" using cp by simp
      then show False using assms(2) unfolding sublist_def by blast
    qed
    then show ?thesis using no p by (auto simp: plain_line_def dest: in_set_butlastD)
  qed
  ultimately show ?thesis using c by (intro exI [of _ "butlast ?ps"]) (simp add: list_all_iff)
qed

section \<open>Switching off undoes switching on\<close>

lemma marker_line: "trim l = MARK_BEGIN \<Longrightarrow> sublist MARK_BEGIN l"
proof -
  assume t: "trim l = MARK_BEGIN"
  have "l = takeWhile is_ws l @ trim l @ rev (takeWhile is_ws (rev (dropWhile is_ws l)))"
    unfolding trim_def by (metis rev_append rev_rev_ident takeWhile_dropWhile_id)
  then show ?thesis using t unfolding sublist_def by metis
qed

lemma no_marker_line:
  assumes "\<not> has_integration (unlines ls)" "l \<in> set ls"
  shows "trim l \<noteq> MARK_BEGIN"
proof
  assume "trim l = MARK_BEGIN"
  then have "sublist MARK_BEGIN l" by (rule marker_line)
  moreover obtain xs ys where "ls = xs @ l # ys" using assms(2) by (meson split_list)
  then have "unlines ls = unlines xs @ l @ nl @ unlines ys" by simp
  then have "sublist l (unlines ls)" unfolding sublist_def by metis
  ultimately have "sublist MARK_BEGIN (unlines ls)" by (rule sublist_order.order_trans)
  then show False using assms(1) by (simp add: has_integration_def)
qed

lemma remove_loop_plain:
  "\<forall>l \<in> set ls. trim l \<noteq> MARK_BEGIN \<Longrightarrow> remove_loop (ls @ ms) False a out = remove_loop ms False a (out @ ls)"
  by (induction ls arbitrary: out) auto

lemma block_lines: "list_all plain_line BLOCK_LINES" "BLOCK @ nl = unlines BLOCK_LINES"
  by (simp_all add: BLOCK_LINES_def BLOCK_def plain_line_def MARK_BEGIN_def MARK_END_def ends_with_def)

lemma remove_loop_block:
  "remove_loop BLOCK_LINES False a out = (if out \<noteq> [] \<and> trim (last out) = [] then butlast out else out, True)"
  by (simp add: BLOCK_LINES_def MARK_BEGIN_def MARK_END_def trim_def is_ws_def)

lemma ends_with_unlines: "ls \<noteq> [] \<Longrightarrow> ends_with (unlines ls) nl"
  by (cases ls rule: rev_cases) (simp_all add: ends_with_def)

definition gap :: "string list \<Rightarrow> string list" where
  "gap ls = (if ls = [] then [] else [[]])"

lemma add_unlines:
  assumes "\<not> has_integration (unlines ls)"
  shows "add_integration (unlines ls) = unlines (ls @ gap ls @ BLOCK_LINES)"
  using assms ends_with_unlines [of ls] block_lines(2)
  by (cases ls) (auto simp: add_integration_def gap_def)

text \<open>Switching the integration off after switching it on gives the start-up file back, for every
  text with line feeds only that ends with one, unless it is a single empty line.\<close>

theorem remove_undoes_add:
  assumes "\<not> has_integration c" "c = [] \<or> last c = CHR 0x0A" "\<not> sublist [CHR 0x0D, CHR 0x0A] c" "c \<noteq> nl"
  shows "remove_integration (add_integration c) = c"
proof -
  obtain ls where c: "c = unlines ls" and pl: "list_all plain_line ls" using unlines_exist [OF assms(2,3)] by blast
  have no: "\<forall>l \<in> set ls. trim l \<noteq> MARK_BEGIN" using no_marker_line assms(1) unfolding c by blast
  let ?all = "ls @ gap ls @ BLOCK_LINES"
  have "list_all plain_line ?all" using pl block_lines(1) by (simp add: gap_def plain_line_def ends_with_def)
  then have l: "str_lines (unlines ?all) = ?all" by (rule lines_unlines)
  have "remove_loop (gap ls @ BLOCK_LINES) False False ls = (ls, True)"
  proof (cases ls)
    case (Cons x xs)
    have "trim [] = []" "[] \<noteq> MARK_BEGIN" by (simp_all add: trim_def MARK_BEGIN_def)
    then show ?thesis using Cons by (simp add: gap_def remove_loop_block)
  qed (simp add: gap_def remove_loop_block)
  then have r: "remove_loop ?all False False [] = (ls, True)" using remove_loop_plain [OF no, of "gap ls @ BLOCK_LINES" False "[]"] by simp
  have e: "ends_with (unlines ?all) nl" using ends_with_unlines [of ?all] by (simp add: BLOCK_LINES_def)
  have j: "join nl ls @ nl = unlines ls" if "ls \<noteq> []"
    using that by (cases ls rule: rev_cases) (simp_all add: join_snoc)
  have "remove_integration (unlines ?all) = unlines ls"
  proof (cases "ls = []")
    case False
    then have "join nl ls \<noteq> []" using j assms(4) c by (metis append_Nil)
    then show ?thesis using j False by (simp add: remove_integration_def l r e del: concat_append map_append)
  next
    case True
    then show ?thesis unfolding remove_integration_def l r by (simp add: Let_def)
  qed
  then show ?thesis using add_unlines assms(1) c by simp
qed

lemma remove_undoes_add_witness: "remove_integration (add_integration (''export A=1'' @ nl)) = ''export A=1'' @ nl"
  by (rule remove_undoes_add) code_simp+

text \<open>A file that mentions the marker inside a longer line counts as switched on, and neither
  switching it on nor switching it off changes it.\<close>

theorem mention_is_stuck:
  assumes "has_integration c" "\<forall>l \<in> set (str_lines c). trim l \<noteq> MARK_BEGIN"
  shows "add_integration c = c \<and> remove_integration c = c"
proof -
  have "remove_loop (str_lines c) False False [] = (str_lines c, False)"
    using remove_loop_plain [OF assms(2), of "[]" False "[]"] by simp
  then show ?thesis using assms(1) by (simp add: add_integration_def remove_integration_def)
qed

lemma mention_is_stuck_witness:
  "has_integration (''see '' @ MARK_BEGIN @ nl) \<and> remove_integration (''see '' @ MARK_BEGIN @ nl) = ''see '' @ MARK_BEGIN @ nl"
proof -
  have "has_integration (''see '' @ MARK_BEGIN @ nl)" by code_simp
  moreover have "\<forall>l \<in> set (str_lines (''see '' @ MARK_BEGIN @ nl)). trim l \<noteq> MARK_BEGIN" by code_simp
  ultimately show ?thesis using mention_is_stuck by blast
qed

section \<open>On the server\<close>

definition rc_ok :: "server \<Rightarrow> string \<Rightarrow> bool" where
  "rc_ok sv c \<longleftrightarrow> \<not> has_integration c \<and> (c = [] \<or> last c = CHR 0x0A) \<and> \<not> sublist [CHR 0x0D, CHR 0x0A] c \<and> c \<noteq> nl \<and>
     length (add_integration c) \<le> 1048576 \<and> sv_lossy sv c = c \<and> sv_lossy sv (add_integration c) = add_integration c"

lemma length_add_integration: "\<not> has_integration c \<Longrightarrow> length c < length (add_integration c)"
  by (simp add: add_integration_def Let_def)

lemma has_add_integration [simp]: "has_integration (add_integration c)"
proof (cases "has_integration c")
  case False
  have "sublist MARK_BEGIN (xs @ BLOCK @ nl)" for xs
    unfolding sublist_def BLOCK_def BLOCK_LINES_def by (rule exI [of _ xs], rule exI) simp
  then show ?thesis using False by (auto simp: add_integration_def has_integration_def Let_def)
qed (simp add: add_integration_def)

lemma set_rc_file:
  assumes "sv_fail sv = (\<lambda>_ _. None)" "rm_files r p = Some c" "length c \<le> 1048576" "sv_lossy sv c = c"
    and "new = (if enable then add_integration c else remove_integration c)" "new \<noteq> c"
  shows "set_rc sv enable (p # ps) touched r = set_rc sv enable ps (touched @ [p]) (r\<lparr>rm_files := (rm_files r)(p \<mapsto> new)\<rparr>)"
  using assms by (simp add: read_rc_file_def lstat_ok_def overwrite_def)

lemma rc_ok_facts:
  assumes "rc_ok sv c"
  shows "length c \<le> 1048576" "sv_lossy sv c = c" "add_integration c \<noteq> c" "length (add_integration c) \<le> 1048576"
    "sv_lossy sv (add_integration c) = add_integration c" "remove_integration (add_integration c) = c" "\<not> has_integration c"
  using assms length_add_integration [of c] remove_undoes_add [of c] by (auto simp: rc_ok_def)

lemma switch_rc:
  assumes "sv_fail sv = (\<lambda>_ _. None)" "rm_files r p = Some c" "rc_ok sv c"
  shows "set_rc sv True (p # ps) t r = set_rc sv True ps (t @ [p]) (r\<lparr>rm_files := (rm_files r)(p \<mapsto> add_integration c)\<rparr>)"
    and "rm_files r' p = Some (add_integration c) \<Longrightarrow>
      set_rc sv False (p # ps) t r' = set_rc sv False ps (t @ [p]) (r'\<lparr>rm_files := (rm_files r')(p \<mapsto> c)\<rparr>)"
  using assms(1,2) rc_ok_facts [OF assms(3)] set_rc_file by (simp_all add: set_rc_file)

lemma set_script_quiet:
  assumes "sv_fail sv = (\<lambda>_ _. None)"
  shows "rm_files (snd (set_script sv True home t r)) = (rm_files r)(home @ ''/'' @ SCRIPT_REL \<mapsto> SCRIPT)"
    and "rm_files (snd (set_script sv False home t r)) = (rm_files r)(home @ ''/'' @ SCRIPT_REL := None)"
    and "rm_dirs (snd (set_script sv en home t r)) \<subseteq> insert (home @ ''/.myssh'') (rm_dirs r)"
  using assms by (auto simp: set_script_def make_dir_def overwrite_def Let_def lstat_ok_def fun_eq_iff)

lemma switch_targets:
  assumes q: "sv_fail sv = (\<lambda>_ _. None)" and b: "rm_files r (home @ ''/.bashrc'') = Some c" "rc_ok sv c"
    and z: "home @ ''/.zshrc'' \<notin> rm_dirs r" "\<And>d. rm_files r (home @ ''/.zshrc'') = Some d \<Longrightarrow> rc_ok sv d"
  defines "add \<equiv> \<lambda>p. map_option (if p \<in> {home @ ''/.bashrc'', home @ ''/.zshrc''} then add_integration else id) (rm_files r p)"
  shows "rm_files (snd (shell_integration_set sv True home r)) = add(home @ ''/'' @ SCRIPT_REL \<mapsto> SCRIPT)"
    and "rm_dirs (snd (shell_integration_set sv True home r)) \<subseteq> insert (home @ ''/.myssh'') (rm_dirs r)"
proof -
  let ?b = "home @ ''/.bashrc''" and ?z = "home @ ''/.zshrc''" and ?ts = "\<lambda>z. if z then [home @ ''/.zshrc''] else []"
  let ?r = "r\<lparr>rm_files := (rm_files r)(?b \<mapsto> add_integration c)\<rparr>"
  have "\<exists>t. set_rc sv True (?b # ?ts (lstat_ok sv ?z r)) [] r = (Ok t, r\<lparr>rm_files := add\<rparr>)"
  proof (cases "rm_files r ?z")
    case None
    then have "add = (rm_files r)(?b \<mapsto> add_integration c)" using b(1) by (auto simp: add_def fun_eq_iff option.map_id)
    then show ?thesis using None z(1) switch_rc(1) [OF q b] by (simp add: lstat_ok_def)
  next
    case (Some d)
    have "set_rc sv True (?b # [?z]) [] r = (Ok [?b, ?z], ?r\<lparr>rm_files := (rm_files ?r)(?z \<mapsto> add_integration d)\<rparr>)"
      using switch_rc(1) [OF q b, of "[?z]" "[]"] switch_rc(1) [OF q _ z(2) [OF Some], of ?r ?z "[]" "[?b]"] Some by simp
    moreover have "add = (rm_files ?r)(?z \<mapsto> add_integration d)"
      using Some b(1) by (auto simp: add_def fun_eq_iff option.map_id)
    ultimately show ?thesis using Some q by (simp add: lstat_ok_def)
  qed
  then obtain t where "shell_integration_set sv True home r = set_script sv True home t (r\<lparr>rm_files := add\<rparr>)"
    by (auto simp: shell_integration_set_def Let_def)
  then show "rm_files (snd (shell_integration_set sv True home r)) = add(home @ ''/'' @ SCRIPT_REL \<mapsto> SCRIPT)"
    "rm_dirs (snd (shell_integration_set sv True home r)) \<subseteq> insert (home @ ''/.myssh'') (rm_dirs r)"
    using set_script_quiet(1) [OF q, of home t "r\<lparr>rm_files := add\<rparr>"] set_script_quiet(3) [OF q, of True home t "r\<lparr>rm_files := add\<rparr>"]
    by simp_all
qed


definition quiet_server :: server where
  "quiet_server = \<lparr>sv_fail = (\<lambda>_ _. None), sv_lossy = id\<rparr>"

definition sample_home :: remote where
  "sample_home = \<lparr>rm_files = [''/h/.bashrc'' \<mapsto> ''export A=1'' @ nl], rm_dirs = {}\<rparr>"

lemma sample_rc_ok: "rc_ok quiet_server (''export A=1'' @ nl)"
proof -
  have "\<not> has_integration (''export A=1'' @ nl)" "\<not> sublist [CHR 0x0D, CHR 0x0A] (''export A=1'' @ nl)" by code_simp+
  moreover from this have "length (add_integration (''export A=1'' @ nl)) \<le> 1048576"
    by (simp add: add_integration_def BLOCK_def BLOCK_LINES_def MARK_BEGIN_def MARK_END_def ends_with_def)
  ultimately show ?thesis by (simp add: rc_ok_def quiet_server_def)
qed


text \<open>A start-up file of more than 1 MiB is read up to there and written back without the rest.\<close>

theorem long_rc_loses_tail:
  assumes "sv_fail sv = (\<lambda>_ _. None)" "rm_files r (home @ ''/.bashrc'') = Some c" "length c > 1024 * 1024"
    and "sv_lossy sv (take (1024 * 1024) c) = take (1024 * 1024) c" "\<not> has_integration (take (1024 * 1024) c)"
    and "rm_files r (home @ ''/.zshrc'') = None" "home @ ''/.zshrc'' \<notin> rm_dirs r"
  shows "rm_files (snd (shell_integration_set sv True home r)) (home @ ''/.bashrc'') =
    Some (add_integration (take (1024 * 1024) c))"
proof -
  let ?b = "home @ ''/.bashrc''"
  have "add_integration (take 1048576 c) \<noteq> take 1048576 c"
    using length_add_integration [of "take 1048576 c"] assms(5) by auto
  then have "set_rc sv True [?b] [] r = (Ok [?b], r\<lparr>rm_files := (rm_files r)(?b \<mapsto> add_integration (take 1048576 c))\<rparr>)"
    using assms by (simp add: read_rc_file_def lstat_ok_def overwrite_def)
  then show ?thesis
    using assms(6,7) set_script_quiet(1) [OF assms(1)]
    by (simp add: shell_integration_set_def lstat_ok_def SCRIPT_REL_def)
qed

definition long_rc :: string where
  "long_rc = replicate (1024 * 1024 + 1) CHR ''x''"

lemma take_long_rc: "take (1024 * 1024) long_rc = replicate (1024 * 1024) CHR ''x''"
  unfolding long_rc_def take_replicate by (rule arg_cong [of _ _ "\<lambda>n. replicate n CHR ''x''"]) simp

lemma long_rc_loses_tail_witness:
  "rm_files (snd (shell_integration_set quiet_server True ''/h'' \<lparr>rm_files = [''/h/.bashrc'' \<mapsto> long_rc], rm_dirs = {}\<rparr>)) ''/h/.bashrc'' =
     Some (add_integration (replicate (1024 * 1024) CHR ''x''))"
proof -
  have "\<not> sublist MARK_BEGIN (replicate n CHR ''x'')" for n
  proof
    assume "sublist MARK_BEGIN (replicate n CHR ''x'')"
    then have "set MARK_BEGIN \<subseteq> set (replicate n CHR ''x'')" by (rule set_mono_sublist)
    then have "set MARK_BEGIN \<subseteq> {CHR ''x''}" by auto
    then show False by (simp add: MARK_BEGIN_def)
  qed
  then have "\<not> has_integration (take (1024 * 1024) long_rc)" unfolding take_long_rc has_integration_def by blast
  moreover have "length long_rc > 1024 * 1024" unfolding long_rc_def length_replicate by simp
  ultimately show ?thesis
    using long_rc_loses_tail [of quiet_server "\<lparr>rm_files = [''/h/.bashrc'' \<mapsto> long_rc], rm_dirs = {}\<rparr>" "''/h''" long_rc]
    unfolding take_long_rc by (simp add: quiet_server_def)
qed

end
