(* ===== verification/Tunnel_Socks.thy ===== *)
theory Tunnel_Socks
  imports Rust_Text
begin

text \<open>
  The SOCKS5 handshake of dynamic tunnels, \<open>socks5_handshake\<close> in
  \<^verbatim>\<open>src/crates/core-tunnel/src/manager.rs\<close>, over the bytes the client sends before it closes
  its side. A read past them is the i/o error of \<open>read_exact\<close>; \<open>wr\<close> says whether the reply to
  the greeting can be written. \<open>lossy\<close> is \<open>String::from_utf8_lossy\<close>. The texts of IPv4 and
  IPv6 addresses are those of the standard library.
\<close>

section \<open>Addresses as text\<close>

definition show_v4 :: "u8 list \<Rightarrow> string" where
  "show_v4 a = join ''.'' (map (\<lambda>b. show_nat (unat b)) a)"

definition hex_digit :: "nat \<Rightarrow> char" where
  "hex_digit n = char_of (if n < 10 then 48 + n else 87 + n)"

fun show_hex :: "nat \<Rightarrow> string" where
  "show_hex n = (if n < 16 then [hex_digit n] else show_hex (n div 16) @ [hex_digit (n mod 16)])"

declare show_hex.simps [simp del]

definition be16 :: "u8 \<Rightarrow> u8 \<Rightarrow> u16" where
  "be16 hi lo = push_bit 8 (ucast hi) OR ucast lo"

fun segments :: "u8 list \<Rightarrow> u16 list" where
  "segments (hi # lo # bs) = be16 hi lo # segments bs"
| "segments _ = []"

text \<open>The first longest run of zero segments, as its start and length.\<close>

fun zero_span :: "nat \<Rightarrow> nat \<times> nat \<Rightarrow> nat \<times> nat \<Rightarrow> u16 list \<Rightarrow> nat \<times> nat" where
  "zero_span i best cur [] = best"
| "zero_span i best cur (s # ss) =
     (if s = 0
      then let cur = (if snd cur = 0 then (i, 1) else (fst cur, snd cur + 1));
               best = (if snd cur > snd best then cur else best)
           in zero_span (Suc i) best cur ss
      else zero_span (Suc i) best (0, 0) ss)"

definition show_segments :: "u16 list \<Rightarrow> string" where
  "show_segments ss = join '':'' (map (\<lambda>s. show_hex (unat s)) ss)"

definition show_v6 :: "u8 list \<Rightarrow> string" where
  "show_v6 a =
     (let ss = segments a; (i, n) = zero_span 0 (0, 0) (0, 0) ss
      in if take 5 ss = [0, 0, 0, 0, 0] \<and> ss ! 5 = 0xFFFF then ''::ffff:'' @ show_v4 (drop 12 a)
         else if n > 1 then show_segments (take i ss) @ ''::'' @ show_segments (drop (i + n) ss)
         else show_segments ss)"

section \<open>The handshake\<close>

text \<open>\<open>None\<close> is the i/o error of a read.\<close>

definition read_exact :: "nat \<Rightarrow> u8 list \<Rightarrow> (u8 list \<times> u8 list) option" where
  "read_exact n inp = (if n \<le> length inp then Some (take n inp, drop n inp) else None)"

definition read_u8 :: "u8 list \<Rightarrow> (u8 \<times> u8 list) option" where
  "read_u8 inp = (case inp of [] \<Rightarrow> None | b # bs \<Rightarrow> Some (b, bs))"

definition read_u16 :: "u8 list \<Rightarrow> (u16 \<times> u8 list) option" where
  "read_u16 inp = (case inp of hi # lo # bs \<Rightarrow> Some (be16 hi lo, bs) | _ \<Rightarrow> None)"

datatype handshake = IoError | Refused | Target string u16

definition read_host :: "(u8 list \<Rightarrow> string) \<Rightarrow> u8 \<Rightarrow> u8 list \<Rightarrow> (string option \<times> u8 list) option" where
  "read_host lossy atyp inp =
     (if atyp = 1 then map_option (\<lambda>(a, r). (Some (show_v4 a), r)) (read_exact 4 inp)
      else if atyp = 3
      then (case read_u8 inp of None \<Rightarrow> None
            | Some (len, r) \<Rightarrow> map_option (\<lambda>(d, r). (Some (lossy d), r)) (read_exact (unat len) r))
      else if atyp = 4 then map_option (\<lambda>(a, r). (Some (show_v6 a), r)) (read_exact 16 inp)
      else Some (None, inp))"

definition read_request :: "(u8 list \<Rightarrow> string) \<Rightarrow> u8 list \<Rightarrow> handshake \<times> u8 list" where
  "read_request lossy inp =
     (case read_exact 4 inp of
        None \<Rightarrow> (IoError, inp)
      | Some (head, r) \<Rightarrow>
          if head ! 0 \<noteq> 5 \<or> head ! 1 \<noteq> 1 then (Refused, r)
          else (case read_host lossy (head ! 3) r of
                  None \<Rightarrow> (IoError, r)
                | Some (None, r) \<Rightarrow> (Refused, r)
                | Some (Some host, r) \<Rightarrow>
                    (case read_u16 r of None \<Rightarrow> (IoError, r) | Some (port, r) \<Rightarrow> (Target host port, r))))"

text \<open>The outcome, what was written to the client, and what is left of its bytes.\<close>

definition socks5_handshake :: "(u8 list \<Rightarrow> string) \<Rightarrow> bool \<Rightarrow> u8 list \<Rightarrow> handshake \<times> u8 list \<times> u8 list" where
  "socks5_handshake lossy wr inp =
     (case read_u8 inp of
        None \<Rightarrow> (IoError, [], inp)
      | Some (ver, r) \<Rightarrow>
          if ver \<noteq> 5 then (Refused, [], r)
          else (case read_u8 r of
                  None \<Rightarrow> (IoError, [], r)
                | Some (n, r) \<Rightarrow>
                    (case read_exact (unat n) r of
                       None \<Rightarrow> (IoError, [], r)
                     | Some (methods, r) \<Rightarrow>
                         if \<not> wr then (IoError, [], r)
                         else let (h, r) = read_request lossy r in (h, [5, 0], r))))"

section \<open>What a client sends\<close>

text \<open>The wire format of RFC 1928, against which the parser is checked.\<close>

datatype address = V4 "u8 list" | Domain "u8 list" | V6 "u8 list"

fun wire_address :: "address \<Rightarrow> u8 list" where
  "wire_address (V4 a) = 1 # a"
| "wire_address (Domain d) = 3 # of_nat (length d) # d"
| "wire_address (V6 a) = 4 # a"

fun address_ok :: "address \<Rightarrow> bool" where
  "address_ok (V4 a) \<longleftrightarrow> length a = 4"
| "address_ok (Domain d) \<longleftrightarrow> length d < 256"
| "address_ok (V6 a) \<longleftrightarrow> length a = 16"

fun address_text :: "(u8 list \<Rightarrow> string) \<Rightarrow> address \<Rightarrow> string" where
  "address_text lossy (V4 a) = show_v4 a"
| "address_text lossy (Domain d) = lossy d"
| "address_text lossy (V6 a) = show_v6 a"

definition wire_port :: "u16 \<Rightarrow> u8 list" where
  "wire_port p = [ucast (drop_bit 8 p), ucast p]"

definition client_bytes :: "u8 list \<Rightarrow> address \<Rightarrow> u16 \<Rightarrow> u8 list" where
  "client_bytes methods a p = [5, of_nat (length methods)] @ methods @ [5, 1, 0] @ wire_address a @ wire_port p"

lemma be16_wire: "be16 (ucast (drop_bit 8 p)) (ucast p) = (p :: u16)"
  by (rule bit_word_eqI) (auto simp: be16_def bit_simps)

lemma read_port: "read_u16 (wire_port p @ r) = Some (p, r)"
  by (simp add: read_u16_def wire_port_def be16_wire)

lemma unat_octet: "n < 256 \<Longrightarrow> unat (of_nat n :: u8) = n"
  by (simp add: unat_of_nat take_bit_eq_mod)

lemma read_wire_host:
  assumes "address_ok a"
  obtains t r' where "wire_address a = t # r'" "read_host lossy t (r' @ r) = Some (Some (address_text lossy a), r)"
  using assms by (cases a) (auto simp: read_host_def read_exact_def read_u8_def unat_octet)

text \<open>
  C35. A well-formed SOCKS5 greeting and \<open>CONNECT\<close> request is read back exactly: the
  handshake answers \<open>05 00\<close>, yields the address and the port the client asked for, and
  leaves every byte that follows to the relay. Any list of methods is accepted, also one
  that does not offer the method the answer selects.
\<close>

theorem socks5_roundtrip:
  assumes "length methods < 256" "address_ok a"
  shows "socks5_handshake lossy True (client_bytes methods a p @ rest) =
    (Target (address_text lossy a) p, [5, 0], rest)"
proof -
  obtain t r' where t: "wire_address a = t # r'"
    and h: "read_host lossy t (r' @ wire_port p @ rest) = Some (Some (address_text lossy a), wire_port p @ rest)"
    using read_wire_host [OF assms(2)] by metis
  have "read_request lossy ([5, 1, 0] @ wire_address a @ wire_port p @ rest) = (Target (address_text lossy a) p, rest)"
    using h by (simp add: read_request_def read_exact_def t read_port)
  then show ?thesis
    using assms(1) by (simp add: socks5_handshake_def client_bytes_def read_u8_def read_exact_def unat_octet)
qed

theorem socks5_roundtrip_witness:
  "socks5_handshake (map (\<lambda>b. char_of (unat b))) True (client_bytes [2] (V4 [10, 0, 0, 1]) 8080 @ [7]) = (Target ''10.0.0.1'' 8080, [5, 0], [7])"
proof -
  have "show_v4 [10, 0, 0, 1] = ''10.0.0.1''" by code_simp
  with socks5_roundtrip [of "[2]" "V4 [10, 0, 0, 1]" "map (\<lambda>b. char_of (unat b))" 8080 "[7]"] show ?thesis by simp
qed

text \<open>The parser looks at a prefix of its input only: more bytes do not change a decision.\<close>

lemma read_exact_more: "read_exact n inp = Some (x, r) \<Longrightarrow> read_exact n (inp @ more) = Some (x, r @ more)"
  by (auto simp: read_exact_def split: if_splits)

lemma read_u8_more: "read_u8 inp = Some (x, r) \<Longrightarrow> read_u8 (inp @ more) = Some (x, r @ more)"
  by (auto simp: read_u8_def split: list.splits)

lemma read_u16_more: "read_u16 inp = Some (x, r) \<Longrightarrow> read_u16 (inp @ more) = Some (x, r @ more)"
  by (auto simp: read_u16_def split: list.splits)

lemma read_host_more:
  assumes "read_host lossy t inp = Some (x, r)"
  shows "read_host lossy t (inp @ more) = Some (x, r @ more)"
proof -
  consider "t = 1" | "t = 3" | "t = 4" | "t \<notin> {1, 3, 4}" by blast
  then show ?thesis
  proof cases
    case 1
    with assms obtain a where "read_exact 4 inp = Some (a, r)" "x = Some (show_v4 a)" by (auto simp: read_host_def)
    with 1 read_exact_more [of 4 inp a r more] show ?thesis by (simp add: read_host_def)
  next
    case 2
    with assms obtain len r' d where "read_u8 inp = Some (len, r')" "read_exact (unat len) r' = Some (d, r)" "x = Some (lossy d)"
      by (auto simp: read_host_def split: option.splits)
    with 2 read_u8_more [of inp len r' more] read_exact_more [of "unat len" r' d r more] show ?thesis by (simp add: read_host_def)
  next
    case 3
    with assms obtain a where "read_exact 16 inp = Some (a, r)" "x = Some (show_v6 a)" by (auto simp: read_host_def)
    with 3 read_exact_more [of 16 inp a r more] show ?thesis by (simp add: read_host_def)
  next
    case 4
    with assms show ?thesis by (simp add: read_host_def)
  qed
qed

lemma read_request_more:
  assumes "read_request lossy inp = (h, r)" "h \<noteq> IoError"
  shows "read_request lossy (inp @ more) = (h, r @ more)"
proof -
  from assms obtain head r1 where head: "read_exact 4 inp = Some (head, r1)"
    by (auto simp: read_request_def split: option.splits)
  note head' = read_exact_more [OF head, of more]
  show ?thesis
  proof (cases "head ! 0 \<noteq> 5 \<or> head ! 1 \<noteq> 1")
    case True
    with assms head head' show ?thesis by (auto simp: read_request_def)
  next
    case False
    with assms head obtain x r2 where host: "read_host lossy (head ! 3) r1 = Some (x, r2)"
      by (auto simp: read_request_def split: option.splits)
    note host' = read_host_more [OF host, of more]
    show ?thesis
    proof (cases x)
      case None
      with False assms head head' host host' show ?thesis by (auto simp: read_request_def)
    next
      case (Some nm)
      with False assms head host obtain port where "read_u16 r2 = Some (port, r)" "h = Target nm port"
        by (auto simp: read_request_def split: option.splits)
      with Some False head' host' read_u16_more [of r2 port r more] show ?thesis by (auto simp: read_request_def)
    qed
  qed
qed

text \<open>
  A handshake that is decided stays decided: bytes the client sends later change
  neither the outcome nor the answer, and all of them go to the relay. So a client that is
  cut off in the middle gets no connection to a shortened target.
\<close>

theorem socks5_prefix_decides:
  assumes "socks5_handshake lossy wr inp = (h, out, r)" "h \<noteq> IoError"
  shows "socks5_handshake lossy wr (inp @ more) = (h, out, r @ more)"
proof -
  from assms obtain ver r1 where ver: "read_u8 inp = Some (ver, r1)"
    by (auto simp: socks5_handshake_def split: option.splits)
  note ver' = read_u8_more [OF ver, of more]
  show ?thesis
  proof (cases "ver = 5")
    case False
    with assms ver ver' show ?thesis by (auto simp: socks5_handshake_def)
  next
    case True
    with assms ver obtain n r2 m r3 where n: "read_u8 r1 = Some (n, r2)" "read_exact (unat n) r2 = Some (m, r3)" and wr: wr
      by (auto simp: socks5_handshake_def split: option.splits if_splits)
    with True assms ver have req: "read_request lossy r3 = (h, r)" "out = [5, 0]"
      by (auto simp: socks5_handshake_def split: prod.splits)
    from True wr ver' read_u8_more [OF n(1), of more] read_exact_more [OF n(2), of more]
      read_request_more [OF req(1) assms(2), of more] req(2)
    show ?thesis by (simp add: socks5_handshake_def)
  qed
qed

theorem socks5_prefix_decides_witness:
  "socks5_handshake (map (\<lambda>b. char_of (unat b))) True ([5, 1, 0, 5, 2, 0, 1] @ [9]) = (Refused, [5, 0], [9])"
  using socks5_prefix_decides [of "map (\<lambda>b. char_of (unat b))" True "[5, 1, 0, 5, 2, 0, 1]" Refused "[5, 0]" "[]" "[9]"]
  by (simp add: socks5_handshake_def read_u8_def read_exact_def read_request_def)

end
