(* ===== verification/Tunnel_Relay.thy ===== *)
theory Tunnel_Relay
  imports Prelude
begin

text \<open>
  The relay between a TCP connection and an SSH channel, \<open>relay\<close> in
  \<^verbatim>\<open>src/crates/core-tunnel/src/manager.rs\<close>: two pumps, one for each direction, and the
  half-close protocol that ends them. A pump reads into its buffer and writes the buffer out,
  in as many pieces as the other side takes, before it reads again; what a read returns and
  what a write takes is part of the event.
\<close>

section \<open>One direction\<close>

definition RELAY_BUF :: nat where "RELAY_BUF = 32 * 1024"

datatype HalfEnd = EndEof | EndWriteFailed | EndFatal

record pump =
  pm_end :: "HalfEnd option"
  pm_buf :: "u8 list"
  pm_chunk :: nat
  pm_sent :: "u8 list"
  pm_eof :: bool
  pm_bytes :: u64

definition pump_new :: pump where
  "pump_new = \<lparr>pm_end = None, pm_buf = [], pm_chunk = 0, pm_sent = [], pm_eof = False, pm_bytes = 0\<rparr>"

text \<open>\<open>Wrote k\<close> is a write within \<open>write_all\<close> that took \<open>k\<close> bytes.\<close>

datatype pump_event = Read "u8 list" | Wrote nat | WriteError | Eof | ReadError

definition pump_step :: "pump_event \<Rightarrow> pump \<Rightarrow> pump option" where
  "pump_step ev p =
     (if pm_end p \<noteq> None then None
      else if pm_buf p = []
      then (case ev of
              Eof \<Rightarrow> Some (p\<lparr>pm_eof := True, pm_end := Some EndEof\<rparr>)
            | ReadError \<Rightarrow> Some (p\<lparr>pm_end := Some EndFatal\<rparr>)
            | Read bs \<Rightarrow> if bs = [] \<or> length bs > RELAY_BUF then None else Some (p\<lparr>pm_buf := bs, pm_chunk := length bs\<rparr>)
            | _ \<Rightarrow> None)
      else (case ev of
              WriteError \<Rightarrow> Some (p\<lparr>pm_end := Some EndWriteFailed\<rparr>)
            | Wrote k \<Rightarrow>
                if k = 0 \<or> k > length (pm_buf p) then None
                else let q = p\<lparr>pm_sent := pm_sent p @ take k (pm_buf p), pm_buf := drop k (pm_buf p)\<rparr>
                     in Some (if pm_buf q = [] then q\<lparr>pm_bytes := pm_bytes q + of_nat (pm_chunk q)\<rparr> else q)
            | _ \<Rightarrow> None))"

section \<open>Both directions\<close>

datatype relay_phase = Both | Draining | Closed

record relay_st =
  up :: pump
  down :: pump
  rl_phase :: relay_phase

definition relay_new :: relay_st where
  "relay_new = \<lparr>up = pump_new, down = pump_new, rl_phase = Both\<rparr>"

datatype relay_event = Up pump_event | Down pump_event | DrainTimeout

text \<open>The first direction to end closes both after a read error, else the other one may go on; the second closes.\<close>

definition after_end :: "HalfEnd option \<Rightarrow> relay_phase \<Rightarrow> relay_phase" where
  "after_end e ph =
     (case e of
        None \<Rightarrow> ph
      | Some h \<Rightarrow> if ph = Both \<and> h \<noteq> EndFatal then Draining else Closed)"

definition relay_step :: "relay_event \<Rightarrow> relay_st \<Rightarrow> relay_st option" where
  "relay_step ev r =
     (if rl_phase r = Closed then None
      else case ev of
             Up e \<Rightarrow> map_option (\<lambda>p. r\<lparr>up := p, rl_phase := after_end (pm_end p) (rl_phase r)\<rparr>) (pump_step e (up r))
           | Down e \<Rightarrow> map_option (\<lambda>p. r\<lparr>down := p, rl_phase := after_end (pm_end p) (rl_phase r)\<rparr>) (pump_step e (down r))
           | DrainTimeout \<Rightarrow> if rl_phase r = Draining then Some (r\<lparr>rl_phase := Closed\<rparr>) else None)"

fun relay :: "relay_event list \<Rightarrow> relay_st \<Rightarrow> relay_st option" where
  "relay [] r = Some r"
| "relay (ev # evs) r = (case relay_step ev r of None \<Rightarrow> None | Some r' \<Rightarrow> relay evs r')"

section \<open>What was read\<close>

fun read_of :: "pump_event \<Rightarrow> u8 list" where
  "read_of (Read bs) = bs"
| "read_of _ = []"

fun up_read :: "relay_event list \<Rightarrow> u8 list" where
  "up_read [] = []"
| "up_read (Up e # evs) = read_of e @ up_read evs"
| "up_read (_ # evs) = up_read evs"

fun down_read :: "relay_event list \<Rightarrow> u8 list" where
  "down_read [] = []"
| "down_read (Down e # evs) = read_of e @ down_read evs"
| "down_read (_ # evs) = down_read evs"

text \<open>How a pump stands to what it has read: all but its buffer is passed on.\<close>

definition pump_ok :: "u8 list \<Rightarrow> pump \<Rightarrow> bool" where
  "pump_ok rd p \<longleftrightarrow>
     rd = pm_sent p @ pm_buf p \<and> length (pm_buf p) \<le> RELAY_BUF \<and>
     pm_bytes p + (if pm_buf p = [] then 0 else of_nat (pm_chunk p)) = of_nat (length rd) \<and>
     (pm_end p = None \<or> (pm_buf p = [] \<longleftrightarrow> pm_end p \<noteq> Some EndWriteFailed)) \<and>
     (pm_eof p \<longleftrightarrow> pm_end p = Some EndEof)"

lemma pump_ok_step:
  assumes "pump_ok rd p" "pump_step ev p = Some p'"
  shows "pump_ok (rd @ read_of ev) p'"
proof (cases ev)
  case (Wrote k)
  with assms(2) have live: "pm_end p = None" "pm_buf p \<noteq> []" "k \<noteq> 0" "k \<le> length (pm_buf p)"
    by (auto simp: pump_step_def split: if_splits)
  show ?thesis
  proof (cases "k = length (pm_buf p)")
    case True
    with Wrote live assms(2) have "p' = p\<lparr>pm_sent := pm_sent p @ pm_buf p, pm_buf := [], pm_bytes := pm_bytes p + of_nat (pm_chunk p)\<rparr>"
      by (simp add: pump_step_def)
    with Wrote live assms(1) show ?thesis by (auto simp: pump_ok_def)
  next
    case False
    with Wrote live assms(2) have "p' = p\<lparr>pm_sent := pm_sent p @ take k (pm_buf p), pm_buf := drop k (pm_buf p)\<rparr>"
      by (simp add: pump_step_def)
    with Wrote live assms(1) False show ?thesis by (auto simp: pump_ok_def simp flip: of_nat_add)
  qed
qed (use assms in \<open>auto simp: pump_step_def pump_ok_def split: if_splits\<close>)

lemma pump_okD:
  assumes "pump_ok rd p"
  shows "rd = pm_sent p @ pm_buf p" "length (pm_buf p) \<le> 32768" "pm_buf p = [] \<longrightarrow> pm_bytes p = of_nat (length rd)"
    "pm_eof p \<longrightarrow> pm_sent p = rd"
  using assms by (auto simp: pump_ok_def RELAY_BUF_def)

definition relay_ok :: "u8 list \<Rightarrow> u8 list \<Rightarrow> relay_st \<Rightarrow> bool" where
  "relay_ok u d r \<longleftrightarrow>
     pump_ok u (up r) \<and> pump_ok d (down r) \<and>
     (rl_phase r = Both \<longleftrightarrow> pm_end (up r) = None \<and> pm_end (down r) = None) \<and>
     (rl_phase r = Draining \<longrightarrow>
        (pm_end (up r) = None) \<noteq> (pm_end (down r) = None) \<and> pm_end (up r) \<noteq> Some EndFatal \<and> pm_end (down r) \<noteq> Some EndFatal)"

lemma relay_ok_step:
  assumes "relay_ok u d r" "relay_step ev r = Some r'"
  shows "relay_ok (u @ up_read [ev]) (d @ down_read [ev]) r'"
proof (cases ev)
  case (Up e)
  with assms(2) obtain p where p: "pump_step e (up r) = Some p"
    and r': "r' = r\<lparr>up := p, rl_phase := after_end (pm_end p) (rl_phase r)\<rparr>" "rl_phase r \<noteq> Closed"
    by (auto simp: relay_step_def split: if_splits)
  from p have "pm_end (up r) = None" by (auto simp: pump_step_def split: if_splits)
  with assms(1) pump_ok_step [OF _ p, of u] Up r' show ?thesis
    by (cases "rl_phase r") (auto simp: relay_ok_def after_end_def split: option.splits)
next
  case (Down e)
  with assms(2) obtain p where p: "pump_step e (down r) = Some p"
    and r': "r' = r\<lparr>down := p, rl_phase := after_end (pm_end p) (rl_phase r)\<rparr>" "rl_phase r \<noteq> Closed"
    by (auto simp: relay_step_def split: if_splits)
  from p have "pm_end (down r) = None" by (auto simp: pump_step_def split: if_splits)
  with assms(1) pump_ok_step [OF _ p, of d] Down r' show ?thesis
    by (cases "rl_phase r") (auto simp: relay_ok_def after_end_def split: option.splits)
next
  case DrainTimeout
  with assms show ?thesis by (auto simp: relay_step_def relay_ok_def split: if_splits)
qed

lemma relay_ok_run:
  "relay evs r = Some r' \<Longrightarrow> relay_ok u d r \<Longrightarrow> relay_ok (u @ up_read evs) (d @ down_read evs) r'"
proof (induction evs arbitrary: r u d)
  case (Cons ev evs)
  then obtain r1 where r1: "relay_step ev r = Some r1" "relay evs r1 = Some r'" by (auto split: option.splits)
  have "up_read (ev # evs) = up_read [ev] @ up_read evs" "down_read (ev # evs) = down_read [ev] @ down_read evs"
    by (cases ev; simp)+
  with Cons.IH [OF r1(2) relay_ok_step [OF Cons.prems(2) r1(1)]] show ?case by simp
qed simp

lemma relay_ok_new: "relay_ok [] [] relay_new"
  by (simp add: relay_ok_def relay_new_def pump_ok_def pump_new_def)

text \<open>
  C32. However the two directions interleave and however their writes are split, each one
  passes on what it read, in order and without a gap: at every moment all of it but the
  buffer of at most 32 KiB it is writing, so that it never reads ahead of a slow other side.
  The end of one side is passed on only after everything read from it, and the counters
  count the buffers written out. A read error on one side closes the relay; the end of one
  side leaves the other one open until it ends or the drain time is over.
\<close>

theorem relay_passes_bytes_on:
  assumes "relay evs relay_new = Some r"
  shows "up_read evs = pm_sent (up r) @ pm_buf (up r) \<and> down_read evs = pm_sent (down r) @ pm_buf (down r) \<and>
    length (pm_buf (up r)) \<le> 32768 \<and> length (pm_buf (down r)) \<le> 32768 \<and>
    (pm_buf (up r) = [] \<longrightarrow> pm_bytes (up r) = of_nat (length (up_read evs))) \<and>
    (pm_buf (down r) = [] \<longrightarrow> pm_bytes (down r) = of_nat (length (down_read evs))) \<and>
    (pm_eof (up r) \<longrightarrow> pm_sent (up r) = up_read evs) \<and> (pm_eof (down r) \<longrightarrow> pm_sent (down r) = down_read evs) \<and>
    (pm_end (up r) = Some EndFatal \<or> pm_end (down r) = Some EndFatal \<longrightarrow> rl_phase r = Closed) \<and>
    (pm_end (up r) = Some EndEof \<and> rl_phase r \<noteq> Closed \<longrightarrow> pm_end (down r) = None)"
proof -
  have ok: "relay_ok (up_read evs) (down_read evs) r" using relay_ok_run [OF assms relay_ok_new] by simp
  from ok have u: "pump_ok (up_read evs) (up r)" and d: "pump_ok (down_read evs) (down r)" by (simp_all add: relay_ok_def)
  moreover have "pm_end (up r) = Some EndFatal \<or> pm_end (down r) = Some EndFatal \<longrightarrow> rl_phase r = Closed"
    "pm_end (up r) = Some EndEof \<and> rl_phase r \<noteq> Closed \<longrightarrow> pm_end (down r) = None"
    using ok by (cases "rl_phase r"; auto simp: relay_ok_def)+
  ultimately show ?thesis by (intro conjI pump_okD) blast+
qed

theorem relay_passes_bytes_on_witness:
  "\<exists>r. relay [Up (Read [1, 2]), Up (Wrote 1), Up (Wrote 1), Up Eof, Down (Read [3]), Down (Wrote 1), Down Eof] relay_new = Some r \<and>
     pm_sent (up r) = [1, 2] \<and> pm_bytes (down r) = 1 \<and> rl_phase r = Closed"
proof -
  let ?evs = "[Up (Read [1, 2]), Up (Wrote 1), Up (Wrote 1), Up Eof, Down (Read [3]), Down (Wrote 1), Down Eof]"
  obtain r where r: "relay ?evs relay_new = Some r" "pm_eof (up r)" "pm_buf (down r) = []" "rl_phase r = Closed"
    by (simp add: relay_step_def pump_step_def relay_new_def pump_new_def RELAY_BUF_def after_end_def Let_def)
  have "pm_eof (up r) \<longrightarrow> pm_sent (up r) = up_read ?evs" "pm_buf (down r) = [] \<longrightarrow> pm_bytes (down r) = of_nat (length (down_read ?evs))"
    using relay_passes_bytes_on [OF r(1)] by blast+
  with r have "pm_sent (up r) = [1, 2]" "pm_bytes (down r) = 1" by simp_all
  with r show ?thesis by blast
qed

end
