(* ===== verification/Tunnel_Group.thy ===== *)
theory Tunnel_Group
  imports Ssh_Error
begin

text \<open>
  The tunnel manager of \<^verbatim>\<open>src/crates/core-tunnel/src/manager.rs\<close>: the registry of tunnels,
  the groups of tunnels that share one connection with their leases, the supervisor that
  keeps a group connected, and the task that mirrors the state of the group to a tunnel.

  Entries and groups are shared between tasks, so the manager keeps all of them in lists
  and refers to them by position. A \<open>watch\<close> channel is its value with a version that every
  send increases; a receiver remembers the version it has seen. \<open>Notify::notify_one\<close> stores
  one permit. Whether a socket can be bound, what a connection attempt answers and when a
  tunnel task ends are part of the events. The number of tunnels stays below \<open>2 ^ 32\<close>.
\<close>

section \<open>Tunnels\<close>

datatype TunnelError =
    Listen string string | NotFound string | TooManyConns nat | QueueBudgetExceeded u64
  | TargetUnreachable string string | TunnelSsh SshError

datatype DisconnectPolicy = Queue | FailFast

datatype TunnelKind = Local string u16 | Remote string u16 | DynamicSocks5 string u16

fun kind_label :: "TunnelKind \<Rightarrow> string" where
  "kind_label (Local _ _) = ''local''"
| "kind_label (Remote _ _) = ''remote''"
| "kind_label (DynamicSocks5 _ _) = ''dynamic''"

fun kind_bind :: "TunnelKind \<Rightarrow> string \<times> u16" where
  "kind_bind (Local h p) = (h, p)"
| "kind_bind (Remote h p) = (h, p)"
| "kind_bind (DynamicSocks5 h p) = (h, p)"

definition show_addr :: "string \<times> u16 \<Rightarrow> string" where
  "show_addr = (\<lambda>(h, p). h @ '':'' @ show_nat (unat p))"

text \<open>Times are milliseconds.\<close>

record TunnelSpec =
  ts_kind :: TunnelKind
  ts_target :: "(string \<times> u16) option"
  ts_max_conns :: u64
  ts_on_disconnect :: DisconnectPolicy
  ts_stop_grace_timeout :: nat
  ts_half_close_drain_timeout :: nat
  ts_session_id :: string

datatype TunnelStatus = Starting | Listening | Reconnecting | Stopped | Failed

record TunnelStats =
  active_conns :: u64
  total_conns :: u64
  bytes_up :: u64
  bytes_down :: u64
  errors :: u64
  rejected_conns :: u64
  reconnects :: u32

definition stats_new :: TunnelStats where
  "stats_new = \<lparr>active_conns = 0, total_conns = 0, bytes_up = 0, bytes_down = 0, errors = 0, rejected_conns = 0, reconnects = 0\<rparr>"

record TunnelEntry =
  te_status :: TunnelStatus
  te_stats :: TunnelStats
  te_last_error :: "string option"
  te_shutdown :: bool
  te_stop_started :: bool
  te_stopped :: bool
  te_stop_deadline :: nat
  te_kind_label :: string
  te_bind :: string
  te_target :: "string option"
  te_session_id :: string
  te_mirror_seen :: "nat option"

text \<open>\<open>actual\<close> is the address the listening socket got.\<close>

definition entry_new :: "TunnelSpec \<Rightarrow> string option \<Rightarrow> TunnelEntry" where
  "entry_new spec actual =
     \<lparr>te_status = Starting, te_stats = stats_new, te_last_error = None, te_shutdown = False, te_stop_started = False,
      te_stopped = False, te_stop_deadline = ts_stop_grace_timeout spec + 30000, te_kind_label = kind_label (ts_kind spec),
      te_bind = (case actual of Some a \<Rightarrow> a | None \<Rightarrow> show_addr (kind_bind (ts_kind spec))),
      te_target = map_option show_addr (ts_target spec), te_session_id = ts_session_id spec, te_mirror_seen = None\<rparr>"

record TunnelInfo =
  tn_id :: string
  tn_kind :: string
  tn_bind :: string
  tn_target :: "string option"
  tn_status :: TunnelStatus
  tn_stats :: TunnelStats
  tn_last_error :: "string option"
  tn_session_id :: string

definition tunnel_info :: "string \<Rightarrow> TunnelEntry \<Rightarrow> TunnelInfo" where
  "tunnel_info i e =
     \<lparr>tn_id = i, tn_kind = te_kind_label e, tn_bind = te_bind e, tn_target = te_target e, tn_status = te_status e,
      tn_stats = te_stats e, tn_last_error = te_last_error e, tn_session_id = te_session_id e\<rparr>"

section \<open>The supervisor of a group\<close>

datatype Slot = SlotConnecting | SlotConnected nat

datatype sup_pc = SupTop | SupConnect | SupAlive nat | SupBackoff nat | SupEnd

record TunnelGroup =
  g_key :: string
  g_slot :: Slot
  g_version :: nat
  g_receivers :: nat
  g_permit :: bool
  g_status :: TunnelStatus
  g_reconnects :: u32
  g_last_error :: "string option"
  g_leases :: nat
  g_shutdown :: bool
  g_sup :: sup_pc
  g_attempt :: u32

definition group_new :: "string \<Rightarrow> TunnelGroup" where
  "group_new key =
     \<lparr>g_key = key, g_slot = SlotConnecting, g_version = 0, g_receivers = 0, g_permit = False, g_status = Starting, g_reconnects = 0,
      g_last_error = None, g_leases = 1, g_shutdown = False, g_sup = SupTop, g_attempt = 0\<rparr>"

text \<open>\<open>send\<close> of a watch channel changes nothing while nobody has subscribed to it.\<close>

definition send_slot :: "Slot \<Rightarrow> TunnelGroup \<Rightarrow> TunnelGroup" where
  "send_slot v g = (if g_receivers g = 0 then g else g\<lparr>g_slot := v, g_version := g_version g + 1\<rparr>)"

definition notify_one :: "TunnelGroup \<Rightarrow> TunnelGroup" where
  "notify_one g = g\<lparr>g_permit := True\<rparr>"

text \<open>The back-off before jitter, in seconds.\<close>

definition backoff_cap :: "u32 \<Rightarrow> nat" where
  "backoff_cap attempt = min (2 ^ min (unat attempt) 5) 30"

datatype sup_event =
    Proceed | ConnectOk nat | ConnectErr SshError | Poll bool | Notified | Elapsed | ShutdownSeen

definition conn_lost :: "TunnelGroup \<Rightarrow> TunnelGroup" where
  "conn_lost g = (send_slot SlotConnecting (g\<lparr>g_reconnects := g_reconnects g + 1, g_status := Reconnecting\<rparr>))\<lparr>g_sup := SupTop\<rparr>"

definition connect_result :: "sup_event \<Rightarrow> TunnelGroup \<Rightarrow> TunnelGroup option" where
  "connect_result ev g =
     (case ev of
        ConnectOk c \<Rightarrow>
          Some ((send_slot (SlotConnected c) (g\<lparr>g_attempt := 0, g_status := Listening, g_last_error := None\<rparr>))\<lparr>g_sup := SupAlive c\<rparr>)
      | ConnectErr e \<Rightarrow>
          if reconnect_class e \<noteq> Retryable then Some (g\<lparr>g_status := Failed, g_last_error := Some (ssh_str e), g_sup := SupEnd\<rparr>)
          else let n = g_attempt g + 1
               in Some (g\<lparr>g_attempt := n, g_last_error := Some (ssh_str e), g_sup := SupBackoff (backoff_cap n)\<rparr>)
      | _ \<Rightarrow> None)"

definition supervise_step :: "sup_event \<Rightarrow> TunnelGroup \<Rightarrow> TunnelGroup option" where
  "supervise_step ev g =
     (case g_sup g of
        SupTop \<Rightarrow> if ev = Proceed then Some (g\<lparr>g_sup := (if g_shutdown g then SupEnd else SupConnect)\<rparr>) else None
      | SupConnect \<Rightarrow> connect_result ev g
      | SupAlive c \<Rightarrow>
          (case ev of
             Poll closed \<Rightarrow> Some (if closed then conn_lost g else g)
           | Notified \<Rightarrow> if g_permit g then Some (conn_lost (g\<lparr>g_permit := False\<rparr>)) else None
           | ShutdownSeen \<Rightarrow> if g_shutdown g then Some (g\<lparr>g_sup := SupEnd\<rparr>) else None
           | _ \<Rightarrow> None)
      | SupBackoff n \<Rightarrow>
          (case ev of
             Elapsed \<Rightarrow> Some (g\<lparr>g_sup := SupTop\<rparr>)
           | ShutdownSeen \<Rightarrow> if g_shutdown g then Some (g\<lparr>g_sup := SupEnd\<rparr>) else None
           | _ \<Rightarrow> None)
      | SupEnd \<Rightarrow> None)"

text \<open>The mirror of a tunnel subscribes to the slot of its group, which counts as having seen its value, and acts when the slot has changed since.\<close>

definition subscribe :: "TunnelGroup \<Rightarrow> TunnelEntry \<Rightarrow> TunnelEntry" where
  "subscribe g e = e\<lparr>te_mirror_seen := Some (g_version g)\<rparr>"

definition slot_changed :: "TunnelGroup \<Rightarrow> TunnelEntry \<Rightarrow> bool" where
  "slot_changed g e \<longleftrightarrow> (case te_mirror_seen e of None \<Rightarrow> False | Some v \<Rightarrow> v < g_version g)"

definition mirror_step :: "TunnelGroup \<Rightarrow> TunnelEntry \<Rightarrow> TunnelEntry option" where
  "mirror_step g e =
     (if te_shutdown e \<or> \<not> slot_changed g e then None
      else let e = subscribe g e;
               e = (case g_status g of
                      Listening \<Rightarrow> if te_status e \<in> {Starting, Reconnecting} then e\<lparr>te_status := Listening\<rparr> else e
                    | Reconnecting \<Rightarrow> e\<lparr>te_status := Reconnecting\<rparr>
                    | Failed \<Rightarrow> e\<lparr>te_status := Failed, te_last_error := g_last_error g\<rparr>
                    | _ \<Rightarrow> e)
           in Some (e\<lparr>te_stats := (te_stats e)\<lparr>reconnects := g_reconnects g\<rparr>\<rparr>))"

text \<open>\<open>remote_loop\<close> once the server has registered the forwarding; the slot may have changed since.\<close>

definition remote_listening :: "TunnelGroup \<Rightarrow> TunnelEntry \<Rightarrow> TunnelEntry option" where
  "remote_listening g e =
     (if te_kind_label e = ''remote'' \<and> te_mirror_seen e \<noteq> None
      then Some (e\<lparr>te_status := Listening\<rparr>) else None)"

section \<open>The manager\<close>

text \<open>A call of \<open>start\<close> between its accesses, a tunnel task, and a call of \<open>stop\<close>.\<close>

datatype start_pc = Checked | Spawned nat | StartDone "(TunnelError, unit) result"

record start_call =
  sc_id :: string
  sc_spec :: TunnelSpec
  sc_key :: string
  sc_pc :: start_pc

datatype task_pc = TaskRunning | TaskSignalled | TaskReleased

record tunnel_task =
  tk_entry :: nat
  tk_group :: nat
  tk_pc :: task_pc

datatype stop_pc = StopWaits nat | StopRemoves nat | StopDone

record TunnelManager =
  tm_entries :: "TunnelEntry list"
  tm_groups :: "TunnelGroup list"
  tm_tunnels :: "(string \<times> nat) list"
  tm_registry :: "(string \<times> nat) list"
  tm_starts :: "start_call list"
  tm_tasks :: "tunnel_task list"
  tm_stops :: "(string \<times> stop_pc) list"

definition manager_new :: TunnelManager where
  "manager_new =
     \<lparr>tm_entries = [], tm_groups = [], tm_tunnels = [], tm_registry = [], tm_starts = [], tm_tasks = [], tm_stops = []\<rparr>"

definition acquire_group :: "string \<Rightarrow> TunnelManager \<Rightarrow> nat \<times> TunnelManager" where
  "acquire_group key m =
     (case map_of (tm_registry m) key of
        Some a \<Rightarrow> (a, m\<lparr>tm_groups := (tm_groups m)[a := (tm_groups m ! a)\<lparr>g_leases := g_leases (tm_groups m ! a) + 1\<rparr>]\<rparr>)
      | None \<Rightarrow>
          (length (tm_groups m),
           m\<lparr>tm_groups := tm_groups m @ [group_new key], tm_registry := (key, length (tm_groups m)) # tm_registry m\<rparr>))"

definition release_group :: "nat \<Rightarrow> TunnelManager \<Rightarrow> TunnelManager" where
  "release_group a m =
     (let g = tm_groups m ! a; g' = g\<lparr>g_leases := g_leases g - 1\<rparr>
      in if g_leases g = 1
         then m\<lparr>tm_groups := (tm_groups m)[a := g'\<lparr>g_shutdown := True\<rparr>],
                tm_registry := filter (\<lambda>(k, _). k \<noteq> g_key g) (tm_registry m)\<rparr>
         else m\<lparr>tm_groups := (tm_groups m)[a := g']\<rparr>)"

text \<open>\<open>start\<close>: the test for the identifier, then the socket, the group, the task, and the insertion.\<close>

definition start_check :: "string \<Rightarrow> TunnelSpec \<Rightarrow> string \<Rightarrow> TunnelManager \<Rightarrow> TunnelManager" where
  "start_check i spec key m =
     m\<lparr>tm_starts := tm_starts m @
        [\<lparr>sc_id = i, sc_spec = spec, sc_key = key,
          sc_pc = (if map_of (tm_tunnels m) i \<noteq> None then StartDone (Err (Listen i ''id in use'')) else Checked)\<rparr>]\<rparr>"

definition start_spawn :: "nat \<Rightarrow> (TunnelError, string option) result \<Rightarrow> TunnelManager \<Rightarrow> TunnelManager option" where
  "start_spawn k bound m =
     (if k < length (tm_starts m) \<and> sc_pc (tm_starts m ! k) = Checked
      then let c = tm_starts m ! k
           in case bound of
                Inl e \<Rightarrow> Some (m\<lparr>tm_starts := (tm_starts m)[k := c\<lparr>sc_pc := StartDone (Err e)\<rparr>]\<rparr>)
              | Inr actual \<Rightarrow>
                  let (a, m) = acquire_group (sc_key c) m; n = length (tm_entries m)
                  in Some (m\<lparr>tm_entries := tm_entries m @ [entry_new (sc_spec c) actual],
                            tm_tasks := tm_tasks m @ [\<lparr>tk_entry = n, tk_group = a, tk_pc = TaskRunning\<rparr>],
                            tm_starts := (tm_starts m)[k := c\<lparr>sc_pc := Spawned n\<rparr>]\<rparr>)
      else None)"

definition start_insert :: "nat \<Rightarrow> TunnelManager \<Rightarrow> TunnelManager option" where
  "start_insert k m =
     (if k < length (tm_starts m)
      then let c = tm_starts m ! k
           in case sc_pc c of
                Spawned n \<Rightarrow> Some (m\<lparr>tm_tunnels := (sc_id c, n) # filter (\<lambda>(i, _). i \<noteq> sc_id c) (tm_tunnels m),
                                    tm_starts := (tm_starts m)[k := c\<lparr>sc_pc := StartDone (Ok ())\<rparr>]\<rparr>)
              | _ \<Rightarrow> None
      else None)"

text \<open>The task of a tunnel when \<open>run_tunnel\<close> returns, and its return of the lease.\<close>

definition task_result :: "string option \<Rightarrow> TunnelEntry \<Rightarrow> TunnelEntry" where
  "task_result err e =
     (case err of
        None \<Rightarrow> e
      | Some msg \<Rightarrow> if te_stop_started e then e else e\<lparr>te_status := Failed, te_last_error := Some msg\<rparr>)\<lparr>te_stopped := True\<rparr>"

text \<open>The receivers of the slot, those of the mirror and of the connections, come and go with the task.\<close>

definition task_subscribe :: "nat \<Rightarrow> TunnelManager \<Rightarrow> TunnelManager option" where
  "task_subscribe t m =
     (if t < length (tm_tasks m) \<and> tk_pc (tm_tasks m ! t) = TaskRunning \<and> te_mirror_seen (tm_entries m ! tk_entry (tm_tasks m ! t)) = None
      then let k = tm_tasks m ! t; a = tk_group k; g = tm_groups m ! a
           in Some (m\<lparr>tm_entries := (tm_entries m)[tk_entry k := subscribe g (tm_entries m ! tk_entry k)],
                     tm_groups := (tm_groups m)[a := g\<lparr>g_receivers := g_receivers g + 1\<rparr>]\<rparr>)
      else None)"

definition task_end :: "nat \<Rightarrow> string option \<Rightarrow> TunnelManager \<Rightarrow> TunnelManager option" where
  "task_end t err m =
     (if t < length (tm_tasks m) \<and> tk_pc (tm_tasks m ! t) = TaskRunning
      then let k = tm_tasks m ! t; n = tk_entry k; a = tk_group k; g = tm_groups m ! a
           in Some (m\<lparr>tm_entries := (tm_entries m)[n := (task_result err (tm_entries m ! n))\<lparr>te_shutdown := True\<rparr>],
                     tm_groups := (tm_groups m)[a := g\<lparr>g_receivers := g_receivers g - of_bool (te_mirror_seen (tm_entries m ! n) \<noteq> None)\<rparr>],
                     tm_tasks := (tm_tasks m)[t := k\<lparr>tk_pc := TaskSignalled\<rparr>]\<rparr>)
      else None)"

definition task_release :: "nat \<Rightarrow> TunnelManager \<Rightarrow> TunnelManager option" where
  "task_release t m =
     (if t < length (tm_tasks m) \<and> tk_pc (tm_tasks m ! t) = TaskSignalled
      then Some ((release_group (tk_group (tm_tasks m ! t)) m)\<lparr>tm_tasks := (tm_tasks m)[t := (tm_tasks m ! t)\<lparr>tk_pc := TaskReleased\<rparr>]\<rparr>)
      else None)"

text \<open>\<open>stop\<close>: request the end once, wait for the task or the deadline, and remove the entry of the identifier.\<close>

definition stop_request :: "string \<Rightarrow> TunnelManager \<Rightarrow> (TunnelError, TunnelManager) result" where
  "stop_request i m =
     (case map_of (tm_tunnels m) i of
        None \<Rightarrow> Err (NotFound i)
      | Some n \<Rightarrow>
          (let e = tm_entries m ! n; e' = (if te_stop_started e then e else e\<lparr>te_shutdown := True\<rparr>)
           in Ok (m\<lparr>tm_entries := (tm_entries m)[n := e'\<lparr>te_stop_started := True\<rparr>],
                   tm_stops := tm_stops m @ [(i, StopWaits n)]\<rparr>)))"

definition stop_wait :: "nat \<Rightarrow> bool \<Rightarrow> TunnelManager \<Rightarrow> TunnelManager option" where
  "stop_wait k deadline m =
     (if k < length (tm_stops m)
      then case tm_stops m ! k of
             (i, StopWaits n) \<Rightarrow>
               if te_stopped (tm_entries m ! n) \<or> deadline
               then Some (m\<lparr>tm_entries := (tm_entries m)[n := (tm_entries m ! n)\<lparr>te_status := Stopped\<rparr>],
                           tm_stops := (tm_stops m)[k := (i, StopRemoves n)]\<rparr>)
               else None
           | _ \<Rightarrow> None
      else None)"

definition stop_remove :: "nat \<Rightarrow> TunnelManager \<Rightarrow> TunnelManager option" where
  "stop_remove k m =
     (if k < length (tm_stops m)
      then case tm_stops m ! k of
             (i, StopRemoves n) \<Rightarrow> Some (m\<lparr>tm_tunnels := filter (\<lambda>(j, _). j \<noteq> i) (tm_tunnels m),
                                          tm_stops := (tm_stops m)[k := (i, StopDone)]\<rparr>)
           | _ \<Rightarrow> None
      else None)"

definition tunnel_list :: "TunnelManager \<Rightarrow> TunnelInfo list" where
  "tunnel_list m = map (\<lambda>(i, n). tunnel_info i (tm_entries m ! n)) (tm_tunnels m)"

definition tunnel_stats :: "string \<Rightarrow> TunnelManager \<Rightarrow> TunnelStats option" where
  "tunnel_stats i m = map_option (\<lambda>n. te_stats (tm_entries m ! n)) (map_of (tm_tunnels m) i)"

subsection \<open>The whole system\<close>

datatype tm_event =
    StartCheck string TunnelSpec string | StartSpawn nat "(TunnelError, string option) result" | StartInsert nat
  | Subscribe nat | Mirror nat | RemoteListening nat | TaskEnd nat "string option" | TaskRelease nat
  | StopRequest string | StopWait nat bool | StopRemove nat | Supervise nat sup_event | NotifyOne nat

definition on_task :: "(TunnelGroup \<Rightarrow> TunnelEntry \<Rightarrow> TunnelEntry option) \<Rightarrow> nat \<Rightarrow> TunnelManager \<Rightarrow> TunnelManager option" where
  "on_task f t m =
     (if t < length (tm_tasks m) \<and> tk_pc (tm_tasks m ! t) = TaskRunning
      then let k = tm_tasks m ! t
           in map_option (\<lambda>e. m\<lparr>tm_entries := (tm_entries m)[tk_entry k := e]\<rparr>)
                (f (tm_groups m ! tk_group k) (tm_entries m ! tk_entry k))
      else None)"

definition on_group :: "(TunnelGroup \<Rightarrow> TunnelGroup option) \<Rightarrow> nat \<Rightarrow> TunnelManager \<Rightarrow> TunnelManager option" where
  "on_group f a m =
     (if a < length (tm_groups m) then map_option (\<lambda>g. m\<lparr>tm_groups := (tm_groups m)[a := g]\<rparr>) (f (tm_groups m ! a)) else None)"

fun tm_step :: "tm_event \<Rightarrow> TunnelManager \<Rightarrow> TunnelManager option" where
  "tm_step (StartCheck i spec key) m = Some (start_check i spec key m)"
| "tm_step (StartSpawn k bound) m = start_spawn k bound m"
| "tm_step (StartInsert k) m = start_insert k m"
| "tm_step (Subscribe t) m = task_subscribe t m"
| "tm_step (Mirror t) m = on_task mirror_step t m"
| "tm_step (RemoteListening t) m = on_task remote_listening t m"
| "tm_step (TaskEnd t err) m = task_end t err m"
| "tm_step (TaskRelease t) m = task_release t m"
| "tm_step (StopRequest i) m = (case stop_request i m of Inl _ \<Rightarrow> None | Inr m' \<Rightarrow> Some m')"
| "tm_step (StopWait k d) m = stop_wait k d m"
| "tm_step (StopRemove k) m = stop_remove k m"
| "tm_step (Supervise a ev) m = on_group (supervise_step ev) a m"
| "tm_step (NotifyOne a) m = on_group (\<lambda>g. Some (notify_one g)) a m"

inductive manager_step :: "TunnelManager \<Rightarrow> TunnelManager \<Rightarrow> bool" where
  tm_event: "tm_step ev m = Some m' \<Longrightarrow> manager_step m m'"

definition manager_init :: "TunnelManager \<Rightarrow> bool" where
  "manager_init m \<longleftrightarrow> m = manager_new"

fun tm_run :: "tm_event list \<Rightarrow> TunnelManager \<Rightarrow> TunnelManager option" where
  "tm_run [] m = Some m"
| "tm_run (ev # evs) m = (case tm_step ev m of None \<Rightarrow> None | Some m' \<Rightarrow> tm_run evs m')"

section \<open>Leases\<close>

definition leased :: "nat \<Rightarrow> tunnel_task \<Rightarrow> bool" where
  "leased a k \<longleftrightarrow> tk_group k = a \<and> tk_pc k \<noteq> TaskReleased"

definition lessees :: "tunnel_task list \<Rightarrow> nat \<Rightarrow> nat" where
  "lessees ts a = length (filter (leased a) ts)"

definition group_ok :: "TunnelManager \<Rightarrow> nat \<Rightarrow> bool" where
  "group_ok m a \<longleftrightarrow>
     g_leases (tm_groups m ! a) = lessees (tm_tasks m) a \<and>
     (map_of (tm_registry m) (g_key (tm_groups m ! a)) = Some a \<longleftrightarrow> 0 < g_leases (tm_groups m ! a)) \<and>
     (g_shutdown (tm_groups m ! a) \<longleftrightarrow> g_leases (tm_groups m ! a) = 0)"

definition manager_inv :: "TunnelManager \<Rightarrow> bool" where
  "manager_inv m \<longleftrightarrow>
     (\<forall>a < length (tm_groups m). group_ok m a) \<and>
     (\<forall>key a. map_of (tm_registry m) key = Some a \<longrightarrow> a < length (tm_groups m) \<and> g_key (tm_groups m ! a) = key) \<and>
     (\<forall>k \<in> set (tm_tasks m). tk_group k < length (tm_groups m))"

text \<open>What a group's own tasks leave alone, and steps that touch neither groups nor tasks.\<close>

definition same_lease :: "TunnelGroup \<Rightarrow> TunnelGroup \<Rightarrow> bool" where
  "same_lease g g' \<longleftrightarrow> g_key g' = g_key g \<and> g_leases g' = g_leases g \<and> g_shutdown g' = g_shutdown g"

lemma supervise_lease: "supervise_step ev g = Some g' \<Longrightarrow> same_lease g g'"
  by (auto simp: supervise_step_def connect_result_def conn_lost_def send_slot_def same_lease_def Let_def
      split: sup_pc.splits sup_event.splits if_splits)

lemma manager_inv_cong:
  assumes "manager_inv m" "tm_registry m' = tm_registry m" "length (tm_groups m') = length (tm_groups m)"
    "\<And>a. a < length (tm_groups m) \<Longrightarrow> same_lease (tm_groups m ! a) (tm_groups m' ! a)"
    "length (tm_tasks m') = length (tm_tasks m)"
    "\<And>t. t < length (tm_tasks m) \<Longrightarrow> tk_group (tm_tasks m' ! t) = tk_group (tm_tasks m ! t)"
    "\<And>t. t < length (tm_tasks m) \<Longrightarrow> (tk_pc (tm_tasks m' ! t) = TaskReleased) = (tk_pc (tm_tasks m ! t) = TaskReleased)"
  shows "manager_inv m'"
proof -
  have "map (leased a) (tm_tasks m') = map (leased a) (tm_tasks m)" for a
    using assms(5-7) by (intro nth_equalityI) (auto simp: leased_def)
  then have cnt: "lessees (tm_tasks m') a = lessees (tm_tasks m) a" for a
    unfolding lessees_def by (metis length_map filter_map comp_id id_comp)
  have "tk_group k < length (tm_groups m')" if "k \<in> set (tm_tasks m')" for k
    using that assms(1,3,5,6) by (fastforce simp: manager_inv_def in_set_conv_nth)
  then show ?thesis
    using assms(1-4) cnt by (auto simp: manager_inv_def group_ok_def same_lease_def)
qed

lemma same_lease_refl [simp]: "same_lease g g"
  by (simp add: same_lease_def)

lemma acquire_inv:
  assumes inv: "manager_inv m" and acq: "acquire_group key m = (a, m1)"
    and m2: "tm_groups m2 = tm_groups m1" "tm_registry m2 = tm_registry m1"
      "tm_tasks m2 = tm_tasks m @ [k]" "tk_group k = a" "tk_pc k = TaskRunning"
  shows "manager_inv m2"
proof (cases "map_of (tm_registry m) key")
  case None
  then have a: "a = length (tm_groups m)" and m1: "tm_groups m1 = tm_groups m @ [group_new key]"
    "tm_registry m1 = (key, a) # tm_registry m" using acq by (auto simp: acquire_group_def)
  have none: "lessees (tm_tasks m2) a = 1"
    using inv a m2 by (auto simp: manager_inv_def leased_def lessees_def filter_empty_conv)
  have "group_ok m2 b" if "b < length (tm_groups m2)" for b
  proof (cases "b = a")
    case True
    with a m1 m2 none show ?thesis by (simp add: group_ok_def group_new_def)
  next
    case False
    with that a m1 m2 have b: "b < length (tm_groups m)" by simp
    then have ok: "group_ok m b" using inv by (simp add: manager_inv_def)
    have "g_leases (tm_groups m ! b) = 0" if "g_key (tm_groups m ! b) = key"
      using ok None that by (metis group_ok_def neq0_conv option.distinct(1))
    moreover have "tm_groups m2 ! b = tm_groups m ! b" using b m1 m2 by (simp add: nth_append)
    moreover have "lessees (tm_tasks m2) b = lessees (tm_tasks m) b"
      using False m2 by (simp add: lessees_def leased_def)
    ultimately show ?thesis using ok m1 m2 False by (auto simp: group_ok_def)
  qed
  moreover have "b < length (tm_groups m2) \<and> g_key (tm_groups m2 ! b) = key'" if "map_of (tm_registry m2) key' = Some b" for key' b
    using inv that a m1 m2 by (auto simp: manager_inv_def nth_append group_new_def less_Suc_eq split: if_splits)
  moreover have "tk_group k' < length (tm_groups m2)" if "k' \<in> set (tm_tasks m2)" for k'
    using inv that a m1 m2 by (auto simp: manager_inv_def less_Suc_eq)
  ultimately show ?thesis by (simp add: manager_inv_def)
next
  case (Some b)
  then have a: "a = b" and m1: "tm_registry m1 = tm_registry m"
    "tm_groups m1 = (tm_groups m)[a := (tm_groups m ! a)\<lparr>g_leases := g_leases (tm_groups m ! a) + 1\<rparr>]"
    using acq by (auto simp: acquire_group_def)
  from inv Some a have al: "a < length (tm_groups m)" "g_key (tm_groups m ! a) = key" by (auto simp: manager_inv_def)
  have ok: "group_ok m c" if "c < length (tm_groups m)" for c using inv that by (simp add: manager_inv_def)
  have cnt: "lessees (tm_tasks m2) c = lessees (tm_tasks m) c + (if c = a then 1 else 0)" for c
    using m2 by (simp add: lessees_def leased_def)
  have "group_ok m2 c" if "c < length (tm_groups m2)" for c
  proof (cases "c = a")
    case True
    with ok [OF al(1)] al a m1 m2 cnt Some show ?thesis by (simp add: group_ok_def)
  next
    case False
    with that ok [of c] al m1 m2 cnt show ?thesis by (simp add: group_ok_def)
  qed
  with inv al a m1 m2 show ?thesis
    by (auto simp: manager_inv_def nth_list_update)
qed

lemma release_inv:
  assumes inv: "manager_inv m" and t: "t < length (tm_tasks m)" "tk_pc (tm_tasks m ! t) = TaskSignalled"
  shows "manager_inv ((release_group (tk_group (tm_tasks m ! t)) m)
    \<lparr>tm_tasks := (tm_tasks m)[t := (tm_tasks m ! t)\<lparr>tk_pc := TaskReleased\<rparr>]\<rparr>)"
proof -
  let ?a = "tk_group (tm_tasks m ! t)" and ?k = "(tm_tasks m ! t)\<lparr>tk_pc := TaskReleased\<rparr>"
  let ?ts = "(tm_tasks m)[t := ?k]" and ?g = "tm_groups m ! tk_group (tm_tasks m ! t)"
  have a: "?a < length (tm_groups m)" using inv t(1) by (simp add: manager_inv_def)
  have cnt: "lessees ?ts b + (if b = ?a then 1 else 0) = lessees (tm_tasks m) b" for b
    using length_filter_update [OF t(1), of "leased b" ?k] t(2) by (auto simp: leased_def lessees_def split: if_splits)
  have ok: "group_ok m b" if "b < length (tm_groups m)" for b using inv that by (simp add: manager_inv_def)
  have pos: "0 < g_leases ?g" using ok [OF a] cnt [of ?a] by (simp add: group_ok_def)
  then have reg: "map_of (tm_registry m) (g_key ?g) = Some ?a" using ok [OF a] by (simp add: group_ok_def)
  have filt: "map_of (filter (\<lambda>(k, _). k \<noteq> x) xs) y = (if y = x then None else map_of xs y)" for x y and xs :: "(string \<times> nat) list"
    by (induction xs) auto
  have tg: "k \<in> set ?ts \<Longrightarrow> tk_group k < length (tm_groups m)" for k
    using inv t(1) a by (auto simp: manager_inv_def dest!: set_update_subset_insert [THEN subsetD])
  show ?thesis
  proof (cases "g_leases ?g = 1")
    case True
    let ?m = "(release_group ?a m)\<lparr>tm_tasks := ?ts\<rparr>"
    have m': "tm_groups ?m = (tm_groups m)[?a := ?g\<lparr>g_leases := 0, g_shutdown := True\<rparr>]"
      "tm_registry ?m = filter (\<lambda>(k, _). k \<noteq> g_key ?g) (tm_registry m)" "tm_tasks ?m = ?ts"
      using True by (simp_all add: release_group_def Let_def)
    have "group_ok ?m b" if "b < length (tm_groups m)" for b
    proof (cases "b = ?a")
      case True
      have "lessees ?ts ?a = 0"
        using cnt [of ?a] ok [OF a] \<open>g_leases ?g = 1\<close> by (simp add: group_ok_def)
      with True a show ?thesis unfolding group_ok_def m' filt by simp
    next
      case False
      then have "g_key (tm_groups m ! b) = g_key ?g \<Longrightarrow> g_leases (tm_groups m ! b) = 0"
        using ok [OF that] reg by (auto simp: group_ok_def)
      with False cnt [of b] ok [OF that] show ?thesis unfolding group_ok_def m' filt by auto
    qed
    with inv tg a show ?thesis unfolding manager_inv_def m' filt by (auto simp: nth_list_update)
  next
    case False
    let ?m = "(release_group ?a m)\<lparr>tm_tasks := ?ts\<rparr>"
    have m': "tm_groups ?m = (tm_groups m)[?a := ?g\<lparr>g_leases := g_leases ?g - 1\<rparr>]"
      "tm_registry ?m = tm_registry m" "tm_tasks ?m = ?ts"
      using False by (simp_all add: release_group_def Let_def)
    have "group_ok ?m b" if "b < length (tm_groups m)" for b
      using cnt [of b] ok [OF that] pos False a that unfolding group_ok_def m' by (cases "b = ?a") auto
    with inv tg a show ?thesis unfolding manager_inv_def m' by (auto simp: nth_list_update)
  qed
qed

lemma on_task_fields:
  "on_task f t m = Some m' \<Longrightarrow> tm_groups m' = tm_groups m \<and> tm_registry m' = tm_registry m \<and> tm_tasks m' = tm_tasks m"
  by (auto simp: on_task_def Let_def split: if_splits)

lemma manager_step_inv:
  assumes "manager_inv m" "tm_step ev m = Some m'"
  shows "manager_inv m'"
proof (cases ev)
  case (StartSpawn k bound)
  with assms(2) have k: "k < length (tm_starts m)" "sc_pc (tm_starts m ! k) = Checked"
    and st: "start_spawn k bound m = Some m'" by (auto simp: start_spawn_def split: if_splits)
  show ?thesis
  proof (cases bound)
    case (Inl e)
    with st k have "m' = m\<lparr>tm_starts := (tm_starts m)[k := (tm_starts m ! k)\<lparr>sc_pc := StartDone (Err e)\<rparr>]\<rparr>"
      by (simp add: start_spawn_def)
    with assms(1) show ?thesis by (simp add: manager_inv_def group_ok_def)
  next
    case (Inr actual)
    obtain a m1 where acq: "acquire_group (sc_key (tm_starts m ! k)) m = (a, m1)" by fastforce
    then have "tm_tasks m1 = tm_tasks m" by (auto simp: acquire_group_def split: option.splits)
    with st k Inr acq show ?thesis
      by (intro acquire_inv [OF assms(1) acq, of m' "\<lparr>tk_entry = length (tm_entries m1), tk_group = a, tk_pc = TaskRunning\<rparr>"])
        (auto simp: start_spawn_def Let_def)
  qed
next
  case (TaskRelease t)
  with assms release_inv show ?thesis by (auto simp: task_release_def split: if_splits)
next
  case (TaskEnd t err)
  with assms(2) have "task_end t err m = Some m'" by simp
  then show ?thesis
    by (intro manager_inv_cong [OF assms(1)])
      (auto simp: task_end_def Let_def nth_list_update_at same_lease_def split: if_splits)
next
  case (Supervise a e)
  with assms(2) obtain g where "a < length (tm_groups m)" "supervise_step e (tm_groups m ! a) = Some g"
    "m' = m\<lparr>tm_groups := (tm_groups m)[a := g]\<rparr>" by (auto simp: on_group_def split: if_splits)
  with supervise_lease show ?thesis
    by (intro manager_inv_cong [OF assms(1)]) (auto simp: nth_list_update)
next
  case (NotifyOne a)
  with assms(2) have "m' = m\<lparr>tm_groups := (tm_groups m)[a := notify_one (tm_groups m ! a)]\<rparr>" "a < length (tm_groups m)"
    by (auto simp: on_group_def split: if_splits)
  then show ?thesis
    by (intro manager_inv_cong [OF assms(1)]) (auto simp: nth_list_update notify_one_def same_lease_def)
next
  case (Subscribe t)
  with assms(2) have "task_subscribe t m = Some m'" by simp
  then show ?thesis
    by (intro manager_inv_cong [OF assms(1)])
      (auto simp: task_subscribe_def Let_def nth_list_update_at same_lease_def split: if_splits)
next
  case (RemoteListening t)
  with assms on_task_fields show ?thesis by (fastforce intro: manager_inv_cong [OF assms(1)])
next
  case (Mirror t)
  with assms on_task_fields show ?thesis by (fastforce intro: manager_inv_cong [OF assms(1)])
qed (use assms in \<open>auto intro!: manager_inv_cong [OF assms(1)]
      simp: start_check_def start_insert_def stop_request_def stop_wait_def stop_remove_def Let_def
      split: if_splits option.splits start_pc.splits prod.splits stop_pc.splits\<close>)

interpretation manager: invariant_system manager_init manager_step manager_inv
proof (unfold_locales, goal_cases)
  case (1 m)
  then show ?case by (simp add: manager_init_def manager_new_def manager_inv_def)
next
  case (2 m m')
  from 2(2) manager_step_inv [OF 2(1)] show ?case by (auto elim: manager_step.cases)
qed

text \<open>
  C7. The leases of a group are exactly the tunnels that use it, in every interleaving of
  starts, stops and ending tunnels: a group is registered under its key and its supervisor
  is allowed to run precisely while a tunnel leases it, and tunnels with the same key share
  one group, hence one connection.
\<close>

theorem group_leases_exact:
  assumes "reachable manager_init manager_step m" "a < length (tm_groups m)"
  shows "g_leases (tm_groups m ! a) = length (filter (\<lambda>k. tk_group k = a \<and> tk_pc k \<noteq> TaskReleased) (tm_tasks m)) \<and>
    (map_of (tm_registry m) (g_key (tm_groups m ! a)) = Some a \<longleftrightarrow> 0 < g_leases (tm_groups m ! a)) \<and>
    (g_shutdown (tm_groups m ! a) \<longleftrightarrow> g_leases (tm_groups m ! a) = 0) \<and>
    (b < length (tm_groups m) \<and> g_key (tm_groups m ! b) = g_key (tm_groups m ! a) \<and>
       0 < g_leases (tm_groups m ! a) \<and> 0 < g_leases (tm_groups m ! b) \<longrightarrow> a = b)"
proof -
  have inv: "manager_inv m" by (rule manager.inv_reachable [OF assms(1)])
  then have "group_ok m a" "b < length (tm_groups m) \<Longrightarrow> group_ok m b" using assms(2) by (simp_all add: manager_inv_def)
  then show ?thesis by (auto simp: group_ok_def lessees_def leased_def [abs_def])
qed

definition sample_spec :: TunnelSpec where
  "sample_spec =
     \<lparr>ts_kind = Remote ''::'' 80, ts_target = Some (''h'', 22), ts_max_conns = 8, ts_on_disconnect = Queue,
      ts_stop_grace_timeout = 5, ts_half_close_drain_timeout = 60, ts_session_id = ''s''\<rparr>"

lemma tm_run_reachable:
  "tm_run evs m = Some m' \<Longrightarrow> reachable manager_init manager_step m \<Longrightarrow> reachable manager_init manager_step m'"
proof (induction evs arbitrary: m)
  case (Cons ev evs)
  then obtain m1 where "tm_step ev m = Some m1" "tm_run evs m1 = Some m'" by (auto split: option.splits)
  with Cons show ?case by (blast intro: reach_step tm_event)
qed simp

definition two_tunnels :: TunnelManager where
  "two_tunnels = the (tm_run [StartCheck ''a'' sample_spec ''k'', StartSpawn 0 (Ok None), StartInsert 0,
     StartCheck ''b'' sample_spec ''k'', StartSpawn 1 (Ok None), StartInsert 1] manager_new)"

theorem group_leases_exact_witness:
  "g_leases (tm_groups two_tunnels ! 0) = length (filter (\<lambda>k. tk_group k = 0 \<and> tk_pc k \<noteq> TaskReleased) (tm_tasks two_tunnels)) \<and>
   g_leases (tm_groups two_tunnels ! 0) = 2"
proof -
  have init: "reachable manager_init manager_step manager_new" by (rule reach_init) (simp add: manager_init_def)
  let ?evs = "[StartCheck ''a'' sample_spec ''k'', StartSpawn 0 (Ok None), StartInsert 0,
     StartCheck ''b'' sample_spec ''k'', StartSpawn 1 (Ok None), StartInsert 1]"
  have step: "tm_run ?evs manager_new = Some two_tunnels \<and> tm_groups two_tunnels \<noteq> [] \<and> g_leases (tm_groups two_tunnels ! 0) = 2"
    by (simp add: two_tunnels_def manager_new_def start_check_def start_spawn_def start_insert_def acquire_group_def group_new_def Let_def)
  then have "reachable manager_init manager_step two_tunnels" by (blast intro: tm_run_reachable init)
  moreover have "0 < length (tm_groups two_tunnels)" using step by simp
  ultimately show ?thesis using group_leases_exact [of two_tunnels 0] step by blast
qed

section \<open>The supervisor and the mirror\<close>

text \<open>
  The supervisor of a group gives up only when it is told to or when the error is not
  one of the network: after a retryable error it waits between 2 and 30 seconds (before
  jitter) and tries again, however often it failed.
\<close>

theorem supervisor_keeps_trying:
  assumes "supervise_step ev g = Some g'"
  shows "(g_sup g' = SupEnd \<longrightarrow> g_shutdown g \<or> (\<exists>e. ev = ConnectErr e \<and> reconnect_class e \<noteq> Retryable)) \<and>
    (ev = ConnectErr e \<and> reconnect_class e = Retryable \<and> unat (g_attempt g) < 2 ^ 32 - 1 \<longrightarrow>
       (\<exists>n. g_sup g' = SupBackoff n \<and> 2 \<le> n \<and> n \<le> 30 \<and> (unat (g_attempt g) \<ge> 4 \<longrightarrow> n = 30)) \<and>
       supervise_step Elapsed g' = Some (g'\<lparr>g_sup := SupTop\<rparr>))"
proof (intro conjI impI)
  assume "g_sup g' = SupEnd"
  with assms show "g_shutdown g \<or> (\<exists>e. ev = ConnectErr e \<and> reconnect_class e \<noteq> Retryable)"
    by (auto simp: supervise_step_def connect_result_def conn_lost_def send_slot_def Let_def
        split: sup_pc.splits sup_event.splits if_splits)
next
  assume ev: "ev = ConnectErr e \<and> reconnect_class e = Retryable \<and> unat (g_attempt g) < 2 ^ 32 - 1"
  then have n: "unat (g_attempt g + 1) = Suc (unat (g_attempt g))"
    by (simp add: unat_word_ariths)
  from ev assms have g': "g' = g\<lparr>g_attempt := g_attempt g + 1, g_last_error := Some (ssh_str e), g_sup := SupBackoff (backoff_cap (g_attempt g + 1))\<rparr>"
    by (auto simp: supervise_step_def connect_result_def Let_def split: sup_pc.splits)
  have two: "(2 :: nat) \<le> 2 ^ k" if "1 \<le> k" for k :: nat using that by (cases k) simp_all
  have "2 \<le> backoff_cap (g_attempt g + 1)" "backoff_cap (g_attempt g + 1) \<le> 30"
    using n two [of "min (Suc (unat (g_attempt g))) 5"] by (simp_all add: backoff_cap_def)
  moreover have "backoff_cap (g_attempt g + 1) = 30" if "unat (g_attempt g) \<ge> 4"
    using n that by (simp add: backoff_cap_def min_def)
  ultimately show "\<exists>n. g_sup g' = SupBackoff n \<and> 2 \<le> n \<and> n \<le> 30 \<and> (unat (g_attempt g) \<ge> 4 \<longrightarrow> n = 30)" using g' by auto
  show "supervise_step Elapsed g' = Some (g'\<lparr>g_sup := SupTop\<rparr>)" using g' by (simp add: supervise_step_def)
qed

definition connecting :: TunnelGroup where
  "connecting = (group_new ''k'')\<lparr>g_sup := SupConnect, g_receivers := 1\<rparr>"

theorem supervisor_keeps_trying_witness:
  "\<exists>g' n. supervise_step (ConnectErr (Connect ''h'' ''refused'')) connecting = Some g' \<and> g_sup g' = SupBackoff n \<and> 2 \<le> n \<and> n \<le> 30"
proof -
  obtain g' where g': "supervise_step (ConnectErr (Connect ''h'' ''refused'')) connecting = Some g'"
    by (simp add: supervise_step_def connect_result_def connecting_def Let_def)
  have "unat (g_attempt connecting) < 2 ^ 32 - 1" "reconnect_class (Connect ''h'' ''refused'') = Retryable"
    by (simp_all add: connecting_def group_new_def)
  with supervisor_keeps_trying [OF g', of "Connect ''h'' ''refused''"] g' show ?thesis by blast
qed

text \<open>
  A tunnel sees of its group only what happens between two changes of the slot. When
  the connection fails for good (authentication or host key), the group is \<open>Failed\<close> and its
  supervisor is gone, but the slot does not change, so the tunnel keeps its old state and
  shows no error. And a tunnel that joins a group which is already connected stays
  \<open>Starting\<close> as far as its mirror is concerned, since subscribing counts as having seen the
  slot. A connection that stands before any tunnel has subscribed never gets into the slot.
\<close>

theorem mirror_misses_failure_and_connection:
  assumes "te_mirror_seen e = Some (g_version g)"
  shows "(g_sup g = SupConnect \<and> reconnect_class e1 \<noteq> Retryable \<longrightarrow>
      (\<exists>g'. supervise_step (ConnectErr e1) g = Some g' \<and> g_status g' = Failed \<and> mirror_step g' e = None \<and>
         (\<forall>ev. supervise_step ev g' = None) \<and> mirror_step (notify_one g') e = None)) \<and>
    (g_sup g = SupAlive c \<longrightarrow>
      mirror_step g (subscribe g e') = None \<and>
      (\<forall>ev g'. supervise_step ev g = Some g' \<and> mirror_step g' (subscribe g e') \<noteq> None \<longrightarrow> g_status g' = Reconnecting)) \<and>
    (g_sup g = SupConnect \<and> g_receivers g = 0 \<longrightarrow>
      (\<exists>g'. supervise_step (ConnectOk c) g = Some g' \<and> g_status g' = Listening \<and> g_sup g' = SupAlive c \<and> g_slot g' = g_slot g))"
proof (intro conjI impI)
  assume "g_sup g = SupConnect \<and> reconnect_class e1 \<noteq> Retryable"
  with assms show "\<exists>g'. supervise_step (ConnectErr e1) g = Some g' \<and> g_status g' = Failed \<and> mirror_step g' e = None \<and>
         (\<forall>ev. supervise_step ev g' = None) \<and> mirror_step (notify_one g') e = None"
    by (simp add: supervise_step_def connect_result_def mirror_step_def slot_changed_def notify_one_def)
next
  show "mirror_step g (subscribe g e') = None" by (simp add: mirror_step_def slot_changed_def subscribe_def)
next
  assume a: "g_sup g = SupAlive c"
  show "\<forall>ev g'. supervise_step ev g = Some g' \<and> mirror_step g' (subscribe g e') \<noteq> None \<longrightarrow> g_status g' = Reconnecting"
  proof (intro allI impI)
    fix ev g' assume "supervise_step ev g = Some g' \<and> mirror_step g' (subscribe g e') \<noteq> None"
    with a show "g_status g' = Reconnecting"
      by (auto simp: supervise_step_def conn_lost_def send_slot_def mirror_step_def slot_changed_def subscribe_def
          split: sup_event.splits if_splits)
  qed
next
  assume "g_sup g = SupConnect \<and> g_receivers g = 0"
  then show "\<exists>g'. supervise_step (ConnectOk c) g = Some g' \<and> g_status g' = Listening \<and> g_sup g' = SupAlive c \<and> g_slot g' = g_slot g"
    by (simp add: supervise_step_def connect_result_def send_slot_def)
qed

theorem mirror_misses_failure_and_connection_witness:
  "\<exists>g'. supervise_step (ConnectErr (AuthFailedError ''u'' ''h'' ''password'')) connecting = Some g' \<and> g_status g' = Failed \<and>
     mirror_step g' (subscribe connecting (entry_new sample_spec None)) = None"
proof -
  have "te_mirror_seen (subscribe connecting (entry_new sample_spec None)) = Some (g_version connecting)"
    by (simp add: subscribe_def)
  from mirror_misses_failure_and_connection [OF this, of "AuthFailedError ''u'' ''h'' ''password''"] show ?thesis
    by (auto simp: connecting_def)
qed

text \<open>
  A failure that is reported late costs a good connection. A handler that still holds
  the dead connection notifies the supervisor while it is already reconnecting; the permit
  is kept, and the first thing the supervisor does with the new connection is to give it up,
  without having looked at it.
\<close>

theorem late_notify_drops_new_connection:
  assumes "g_sup g = SupConnect" "0 < g_receivers g"
  shows "\<exists>g1 g2. supervise_step (ConnectOk c) (notify_one g) = Some g1 \<and> g_slot g1 = SlotConnected c \<and>
    supervise_step Notified g1 = Some g2 \<and> g_slot g2 = SlotConnecting \<and> g_status g2 = Reconnecting \<and>
    g_reconnects g2 = g_reconnects g + 1"
  using assms by (simp add: supervise_step_def connect_result_def conn_lost_def send_slot_def notify_one_def)

theorem late_notify_drops_new_connection_witness:
  "\<exists>g1 g2. supervise_step (ConnectOk 7) (notify_one connecting) = Some g1 \<and> supervise_step Notified g1 = Some g2 \<and>
     g_slot g2 = SlotConnecting"
  using late_notify_drops_new_connection [of connecting 7] by (auto simp: connecting_def)

section \<open>Two starts with one identifier\<close>

lemma acquire_frame:
  assumes "acquire_group key m = (a, m1)"
  shows "tm_entries m1 = tm_entries m" "tm_tasks m1 = tm_tasks m" "tm_starts m1 = tm_starts m" "tm_tunnels m1 = tm_tunnels m"
  using assms by (auto simp: acquire_group_def split: option.splits)

lemma tm_run_append: "tm_run (xs @ ys) m = (case tm_run xs m of None \<Rightarrow> None | Some m' \<Rightarrow> tm_run ys m')"
  by (induction xs arbitrary: m) (auto split: option.splits)

text \<open>
  The test for a free identifier and the insertion are not one step. Two calls of
  \<open>start\<close> with the same identifier that overlap both succeed; the entry of the second
  replaces that of the first in the registry, whose tunnel goes on running with no
  identifier left to stop it by.
\<close>

theorem overlapping_starts_orphan_a_tunnel:
  assumes "tm_starts m = []" "map_of (tm_tunnels m) i = None" "list_all (\<lambda>(_, n). n < length (tm_entries m)) (tm_tunnels m)"
  shows "\<exists>m'. tm_run [StartCheck i spec key, StartCheck i spec key, StartSpawn 0 (Ok None), StartInsert 0,
        StartSpawn 1 (Ok None), StartInsert 1] m = Some m' \<and>
      sc_pc (tm_starts m' ! 0) = StartDone (Ok ()) \<and> sc_pc (tm_starts m' ! 1) = StartDone (Ok ()) \<and>
      map_of (tm_tunnels m') i = Some (Suc (length (tm_entries m))) \<and>
      (\<forall>(j, n) \<in> set (tm_tunnels m'). n \<noteq> length (tm_entries m)) \<and>
      \<lparr>tk_entry = length (tm_entries m), tk_group = fst (acquire_group key m), tk_pc = TaskRunning\<rparr> \<in> set (tm_tasks m')"
proof -
  let ?c = "\<lambda>pc. \<lparr>sc_id = i, sc_spec = spec, sc_key = key, sc_pc = pc\<rparr>" and ?n = "length (tm_entries m)"
  let ?m0 = "m\<lparr>tm_starts := [?c Checked, ?c Checked]\<rparr>"
  obtain a m1 where a: "acquire_group key ?m0 = (a, m1)" by fastforce
  note f1 = acquire_frame [OF a]
  let ?m2 = "m1\<lparr>tm_entries := tm_entries m @ [entry_new spec None], tm_tasks := tm_tasks m @ [\<lparr>tk_entry = ?n, tk_group = a, tk_pc = TaskRunning\<rparr>],
      tm_starts := [?c (StartDone (Ok ())), ?c Checked], tm_tunnels := (i, ?n) # filter (\<lambda>(j, _). j \<noteq> i) (tm_tunnels m)\<rparr>"
  obtain b m3 where b: "acquire_group key ?m2 = (b, m3)" by fastforce
  note f3 = acquire_frame [OF b]
  have "fst (acquire_group key m) = a" using a by (auto simp: acquire_group_def split: option.splits)
  have r1: "tm_run [StartCheck i spec key, StartCheck i spec key, StartSpawn 0 (Ok None), StartInsert 0] m = Some ?m2"
    using assms(1,2) a f1 by (simp add: start_check_def start_spawn_def start_insert_def Let_def)
  have r2: "tm_run [StartSpawn 1 (Ok None), StartInsert 1] ?m2 =
      Some (m3\<lparr>tm_entries := tm_entries ?m2 @ [entry_new spec None], tm_tasks := tm_tasks ?m2 @ [\<lparr>tk_entry = Suc ?n, tk_group = b, tk_pc = TaskRunning\<rparr>],
        tm_starts := [?c (StartDone (Ok ())), ?c (StartDone (Ok ()))], tm_tunnels := (i, Suc ?n) # filter (\<lambda>(j, _). j \<noteq> i) (tm_tunnels m)\<rparr>)"
    (is "_ = Some ?m4") using b f3 f1 by (simp add: start_spawn_def start_insert_def Let_def)
  have "[StartCheck i spec key, StartCheck i spec key, StartSpawn 0 (Ok None), StartInsert 0, StartSpawn 1 (Ok None), StartInsert 1] =
      [StartCheck i spec key, StartCheck i spec key, StartSpawn 0 (Ok None), StartInsert 0] @ [StartSpawn 1 (Ok None), StartInsert 1]" by simp
  then have run: "tm_run [StartCheck i spec key, StartCheck i spec key, StartSpawn 0 (Ok None), StartInsert 0,
        StartSpawn 1 (Ok None), StartInsert 1] m = Some ?m4"
    using r1 r2 by (simp only: tm_run_append option.case)
  have "\<forall>(j, n) \<in> set (tm_tunnels ?m4). n \<noteq> ?n" using assms(3) by (auto simp: list_all_iff)
  with run \<open>fst (acquire_group key m) = a\<close> show ?thesis
    using f1 f3 by (intro exI [of _ ?m4] conjI) simp_all
qed

theorem overlapping_starts_orphan_a_tunnel_witness:
  "\<exists>m'. tm_run [StartCheck ''t'' sample_spec ''k'', StartCheck ''t'' sample_spec ''k'', StartSpawn 0 (Ok None), StartInsert 0,
        StartSpawn 1 (Ok None), StartInsert 1] manager_new = Some m' \<and> map_of (tm_tunnels m') ''t'' = Some 1"
proof -
  have m: "tm_starts manager_new = []" "map_of (tm_tunnels manager_new) ''t'' = None"
    "list_all (\<lambda>(_, n). n < length (tm_entries manager_new)) (tm_tunnels manager_new)" "length (tm_entries manager_new) = 0"
    by (simp_all add: manager_new_def)
  obtain m' where "tm_run [StartCheck ''t'' sample_spec ''k'', StartCheck ''t'' sample_spec ''k'', StartSpawn 0 (Ok None), StartInsert 0,
      StartSpawn 1 (Ok None), StartInsert 1] manager_new = Some m'" "map_of (tm_tunnels m') ''t'' = Some (Suc (length (tm_entries manager_new)))"
    using overlapping_starts_orphan_a_tunnel [OF m(1,2,3), of sample_spec "''k''"] by blast
  then show ?thesis unfolding m(4) One_nat_def by blast
qed

end
