(* ===== verification/Tunnel_Conn.thy ===== *)
theory Tunnel_Conn
  imports Tunnel_Group
begin

text \<open>
  The connections of one tunnel, \<^verbatim>\<open>src/crates/core-tunnel/src/manager.rs\<close>: \<open>accept_loop\<close> and
  \<open>remote_loop\<close> take them in under the limits, \<open>handle_socks5\<close>, \<open>handle_local\<close> and the
  request of \<open>remote_loop\<close> carry them to a relay, and \<open>run_tunnel\<close> ends what is left when
  the tunnel stops.

  A connection is its place in its handler. The permits it holds belong to that place, as
  they are dropped with the variables that hold them; the semaphores count what is left.
  The answers of the network, of the group's channel budget and of the SSH connection are
  part of the events.
\<close>

section \<open>A connection\<close>

datatype RelayResult = Completed | Failed_relay

datatype conn =
    Handshake | WantRelay | Replying | WantChannel | Opening nat | Relaying
  | RemoteWant | RemoteConnect | RemoteRelay
  | Ended RelayResult | Aborted bool

text \<open>\<open>Aborted c\<close> remembers whether the connection was counted as active.\<close>

fun holds_handshake :: "conn \<Rightarrow> bool" where
  "holds_handshake Handshake = True"
| "holds_handshake _ = False"

definition holds_relay :: "conn \<Rightarrow> bool" where
  "holds_relay c \<longleftrightarrow> c \<notin> {Handshake, WantRelay, Ended Completed, Ended Failed_relay, Aborted True, Aborted False}"

definition counted :: "conn \<Rightarrow> bool" where
  "counted c \<longleftrightarrow> c \<notin> {RemoteWant, Ended Completed, Ended Failed_relay, Aborted True, Aborted False}"

fun live :: "conn \<Rightarrow> bool" where
  "live (Ended _) = False"
| "live (Aborted _) = False"
| "live _ = True"

record conn_sys =
  cs_stats :: TunnelStats
  cs_relay :: nat
  cs_handshake :: nat
  cs_conns :: "conn list"
  cs_notified :: nat

definition SOCKS_HANDSHAKE_CONCURRENCY :: nat where "SOCKS_HANDSHAKE_CONCURRENCY = 64"

definition conn_sys_new :: "nat \<Rightarrow> conn_sys" where
  "conn_sys_new max_conns =
     \<lparr>cs_stats = stats_new, cs_relay = max_conns, cs_handshake = SOCKS_HANDSHAKE_CONCURRENCY, cs_conns = [], cs_notified = 0\<rparr>"

abbreviation count_error :: "TunnelStats \<Rightarrow> TunnelStats" where
  "count_error st \<equiv> st\<lparr>errors := errors st + 1\<rparr>"

abbreviation count_rejected :: "TunnelStats \<Rightarrow> TunnelStats" where
  "count_rejected st \<equiv> st\<lparr>rejected_conns := rejected_conns st + 1\<rparr>"

abbreviation count_active :: "TunnelStats \<Rightarrow> TunnelStats" where
  "count_active st \<equiv> st\<lparr>active_conns := active_conns st + 1, total_conns := total_conns st + 1\<rparr>"

abbreviation uncount :: "TunnelStats \<Rightarrow> TunnelStats" where
  "uncount st \<equiv> st\<lparr>active_conns := active_conns st - 1\<rparr>"

section \<open>Taking connections in\<close>

text \<open>A new local or SOCKS5 connection: a permit or a rejection; a local tunnel without a target is an error.\<close>

definition accept_conn :: "bool \<Rightarrow> bool \<Rightarrow> conn_sys \<Rightarrow> conn_sys" where
  "accept_conn is_socks has_target s =
     (if (if is_socks then cs_handshake s else cs_relay s) = 0 then s\<lparr>cs_stats := count_rejected (cs_stats s)\<rparr>
      else let st = count_active (cs_stats s)
           in if is_socks
              then s\<lparr>cs_stats := st, cs_handshake := cs_handshake s - 1, cs_conns := cs_conns s @ [Handshake]\<rparr>
              else if has_target
              then s\<lparr>cs_stats := st, cs_relay := cs_relay s - 1, cs_conns := cs_conns s @ [WantChannel]\<rparr>
              else s\<lparr>cs_stats := uncount (count_error st)\<rparr>)"

text \<open>A channel the server forwards to a remote tunnel.\<close>

definition accept_remote :: "conn_sys \<Rightarrow> conn_sys" where
  "accept_remote s =
     (if cs_relay s = 0 then s\<lparr>cs_stats := count_rejected (cs_stats s)\<rparr>
      else s\<lparr>cs_relay := cs_relay s - 1, cs_conns := cs_conns s @ [RemoteWant]\<rparr>)"

section \<open>Carrying a connection to its relay\<close>

datatype conn_event = Good | Bad | NoTransport

text \<open>
  The handlers, place by place: \<open>Good\<close> is the answer the code goes on with, \<open>Bad\<close> the other
  one, \<open>NoTransport\<close> that no SSH connection is to be had. \<open>spare\<close> says whether a relay permit
  is left. The result is the new place, the statistics, and whether the supervisor is
  notified.
\<close>

definition handle_socks5 :: "conn_event \<Rightarrow> bool \<Rightarrow> conn \<Rightarrow> TunnelStats \<Rightarrow> (conn \<times> TunnelStats \<times> bool) option" where
  "handle_socks5 ev spare c st =
     (case (c, ev) of
        (Handshake, Good) \<Rightarrow> Some (WantRelay, st, False)
      | (Handshake, Bad) \<Rightarrow> Some (Ended Failed_relay, uncount (count_error st), False)
      | (WantRelay, Good) \<Rightarrow>
          if spare then Some (Replying, st, False) else Some (Ended Failed_relay, uncount (count_rejected st), False)
      | (Replying, Good) \<Rightarrow> Some (WantChannel, st, False)
      | (Replying, Bad) \<Rightarrow> Some (Ended Failed_relay, uncount (count_error st), False)
      | _ \<Rightarrow> None)"

definition handle_local :: "conn_event \<Rightarrow> conn \<Rightarrow> TunnelStats \<Rightarrow> (conn \<times> TunnelStats \<times> bool) option" where
  "handle_local ev c st =
     (case (c, ev) of
        (WantChannel, Good) \<Rightarrow> Some (Opening 0, st, False)
      | (WantChannel, Bad) \<Rightarrow> Some (Ended Failed_relay, uncount (count_rejected st), False)
      | (Opening n, NoTransport) \<Rightarrow> Some (Ended Failed_relay, uncount (count_error st), False)
      | (Opening n, Good) \<Rightarrow> Some (Relaying, st, False)
      | (Opening n, Bad) \<Rightarrow>
          if n = 0 then Some (Opening 1, st, True) else Some (Ended Failed_relay, uncount (count_error st), False)
      | (Relaying, Good) \<Rightarrow> Some (Ended Completed, uncount st, False)
      | _ \<Rightarrow> None)"

definition handle_remote :: "conn_event \<Rightarrow> conn \<Rightarrow> TunnelStats \<Rightarrow> (conn \<times> TunnelStats \<times> bool) option" where
  "handle_remote ev c st =
     (case (c, ev) of
        (RemoteWant, Good) \<Rightarrow> Some (RemoteConnect, count_active st, False)
      | (RemoteWant, Bad) \<Rightarrow> Some (Ended Failed_relay, count_rejected st, False)
      | (RemoteConnect, Good) \<Rightarrow> Some (RemoteRelay, st, False)
      | (RemoteConnect, Bad) \<Rightarrow> Some (Ended Failed_relay, uncount (count_error st), False)
      | (RemoteRelay, Good) \<Rightarrow> Some (Ended Completed, uncount st, False)
      | _ \<Rightarrow> None)"

definition handle :: "conn_event \<Rightarrow> bool \<Rightarrow> conn \<Rightarrow> TunnelStats \<Rightarrow> (conn \<times> TunnelStats \<times> bool) option" where
  "handle ev spare c st =
     (case handle_socks5 ev spare c st of
        Some r \<Rightarrow> Some r
      | None \<Rightarrow> (case handle_local ev c st of Some r \<Rightarrow> Some r | None \<Rightarrow> handle_remote ev c st))"

text \<open>A permit comes back, or is taken, as the place of the connection changes.\<close>

definition give_take :: "bool \<Rightarrow> bool \<Rightarrow> nat \<Rightarrow> nat" where
  "give_take old new n = (if old \<and> \<not> new then n + 1 else if new \<and> \<not> old then n - 1 else n)"

definition move_conn :: "nat \<Rightarrow> conn \<Rightarrow> conn_sys \<Rightarrow> conn_sys" where
  "move_conn k c s =
     s\<lparr>cs_conns := (cs_conns s)[k := c],
       cs_relay := give_take (holds_relay (cs_conns s ! k)) (holds_relay c) (cs_relay s),
       cs_handshake := give_take (holds_handshake (cs_conns s ! k)) (holds_handshake c) (cs_handshake s)\<rparr>"

definition conn_step :: "nat \<Rightarrow> conn_event \<Rightarrow> conn_sys \<Rightarrow> conn_sys option" where
  "conn_step k ev s =
     (if k < length (cs_conns s)
      then case handle ev (0 < cs_relay s) (cs_conns s ! k) (cs_stats s) of
             None \<Rightarrow> None
           | Some (c, st, nt) \<Rightarrow> Some ((move_conn k c s)\<lparr>cs_stats := st, cs_notified := cs_notified s + of_bool nt\<rparr>)
      else None)"

text \<open>The forced end of \<open>run_tunnel\<close>: the task of the connection is dropped where it stands.\<close>

definition abort_conn :: "nat \<Rightarrow> conn_sys \<Rightarrow> conn_sys option" where
  "abort_conn k s =
     (if k < length (cs_conns s) \<and> live (cs_conns s ! k)
      then Some (move_conn k (Aborted (counted (cs_conns s ! k))) s) else None)"

inductive tunnel_step :: "conn_sys \<Rightarrow> conn_sys \<Rightarrow> bool" where
  t_accept: "tunnel_step s (accept_conn is_socks has_target s)"
| t_remote: "tunnel_step s (accept_remote s)"
| t_conn: "conn_step k ev s = Some t \<Longrightarrow> tunnel_step s t"
| t_abort: "abort_conn k s = Some t \<Longrightarrow> tunnel_step s t"

definition tunnel_init :: "nat \<Rightarrow> conn_sys \<Rightarrow> bool" where
  "tunnel_init n s \<longleftrightarrow> s = conn_sys_new n"

section \<open>Limits and counters\<close>

definition conn_count :: "(conn \<Rightarrow> bool) \<Rightarrow> conn_sys \<Rightarrow> nat" where
  "conn_count P s = length (filter P (cs_conns s))"

definition on_books :: "conn \<Rightarrow> bool" where
  "on_books c \<longleftrightarrow> counted c \<or> c = Aborted True"

definition conn_inv :: "nat \<Rightarrow> conn_sys \<Rightarrow> bool" where
  "conn_inv n s \<longleftrightarrow>
     cs_relay s + conn_count holds_relay s = n \<and>
     cs_handshake s + conn_count holds_handshake s = SOCKS_HANDSHAKE_CONCURRENCY \<and>
     active_conns (cs_stats s) = of_nat (conn_count on_books s)"

lemma conn_count_update:
  assumes "k < length (cs_conns s)" "cs_conns t = (cs_conns s)[k := c]"
  shows "conn_count P t + of_bool (P (cs_conns s ! k)) = conn_count P s + of_bool (P c)"
  using length_filter_update [OF assms(1), of P c] assms(2) by (simp add: conn_count_def split: if_splits)

lemma move_conn_inv:
  assumes inv: "conn_inv n s" and k: "k < length (cs_conns s)"
    and relay: "holds_relay c \<Longrightarrow> \<not> holds_relay (cs_conns s ! k) \<Longrightarrow> 0 < cs_relay s"
    and hs: "holds_handshake c \<Longrightarrow> holds_handshake (cs_conns s ! k)"
    and act: "active_conns st + of_bool (on_books (cs_conns s ! k)) = active_conns (cs_stats s) + of_bool (on_books c)"
  shows "conn_inv n ((move_conn k c s)\<lparr>cs_stats := st, cs_notified := m\<rparr>)"
proof -
  let ?t = "(move_conn k c s)\<lparr>cs_stats := st, cs_notified := m\<rparr>"
  have upd: "cs_conns ?t = (cs_conns s)[k := c]" by (simp add: move_conn_def)
  note cnt = conn_count_update [OF k upd]
  have "cs_relay ?t + conn_count holds_relay ?t = n"
    using cnt [of holds_relay] inv relay
    by (auto simp: move_conn_def give_take_def conn_inv_def split: if_splits)
  moreover have "cs_handshake ?t + conn_count holds_handshake ?t = SOCKS_HANDSHAKE_CONCURRENCY"
    using cnt [of holds_handshake] inv hs
    by (auto simp: move_conn_def give_take_def conn_inv_def split: if_splits)
  moreover have words: "of_nat (conn_count on_books ?t) + of_bool (on_books (cs_conns s ! k)) = (of_nat (conn_count on_books s) + of_bool (on_books c) :: u64)"
    using cnt [of on_books] by (metis of_nat_add of_nat_of_bool)
  have "active_conns (cs_stats s) = of_nat (conn_count on_books s)" using inv by (simp add: conn_inv_def)
  with act words have "active_conns st + of_bool (on_books (cs_conns s ! k)) = of_nat (conn_count on_books ?t) + of_bool (on_books (cs_conns s ! k))"
    by simp
  then have "active_conns st = of_nat (conn_count on_books ?t)" by (rule add_right_imp_eq)
  ultimately show ?thesis by (simp add: conn_inv_def)
qed

lemmas handlers = handle_def handle_socks5_def handle_local_def handle_remote_def

lemma handle_moves:
  assumes "handle ev spare c st = Some (c', st', nt)"
  shows "holds_relay c' \<Longrightarrow> \<not> holds_relay c \<Longrightarrow> spare" "holds_handshake c' \<Longrightarrow> holds_handshake c"
    "active_conns st' + of_bool (on_books c) = active_conns st + of_bool (on_books c')" "live c"
  using assms
  by (cases c; cases ev; auto simp: handlers on_books_def holds_relay_def counted_def split: if_splits)+

lemma conn_step_inv:
  assumes "conn_inv n s" "conn_step k ev s = Some t"
  shows "conn_inv n t"
proof -
  from assms(2) obtain c st nt where k: "k < length (cs_conns s)"
    and h: "handle ev (0 < cs_relay s) (cs_conns s ! k) (cs_stats s) = Some (c, st, nt)"
    and t: "t = (move_conn k c s)\<lparr>cs_stats := st, cs_notified := cs_notified s + of_bool nt\<rparr>"
    by (auto simp: conn_step_def split: if_splits option.splits prod.splits)
  show ?thesis unfolding t by (rule move_conn_inv [OF assms(1) k]) (use handle_moves [OF h] in auto)
qed

lemma abort_inv:
  assumes "conn_inv n s" "abort_conn k s = Some t"
  shows "conn_inv n t"
proof -
  from assms(2) have k: "k < length (cs_conns s)" and t: "t = move_conn k (Aborted (counted (cs_conns s ! k))) s"
    and l: "live (cs_conns s ! k)" by (auto simp: abort_conn_def split: if_splits)
  have "t = (move_conn k (Aborted (counted (cs_conns s ! k))) s)\<lparr>cs_stats := cs_stats s, cs_notified := cs_notified s\<rparr>"
    unfolding t by (simp add: move_conn_def)
  moreover have "conn_inv n \<dots>"
    by (rule move_conn_inv [OF assms(1) k]) (use l in \<open>cases "cs_conns s ! k"; auto simp: on_books_def holds_relay_def counted_def\<close>)+
  ultimately show ?thesis by simp
qed

interpretation tunnel: invariant_system "tunnel_init n" tunnel_step "conn_inv n" for n
proof (unfold_locales, goal_cases)
  case (1 s)
  then show ?case by (simp add: tunnel_init_def conn_sys_new_def conn_inv_def conn_count_def stats_new_def)
next
  case (2 s t)
  from 2(2,1) show ?case
  proof (induction rule: tunnel_step.induct)
    case (t_accept s is_socks has_target)
    then show ?case by (auto simp: accept_conn_def conn_inv_def conn_count_def on_books_def holds_relay_def counted_def Let_def)
  next
    case (t_remote s)
    then show ?case by (auto simp: accept_remote_def conn_inv_def conn_count_def on_books_def holds_relay_def counted_def)
  next
    case (t_conn k ev s t)
    then show ?case by (blast intro: conn_step_inv)
  next
    case (t_abort k s t)
    then show ?case by (blast intro: abort_inv)
  qed
qed

lemma length_filter_disjoint:
  "(\<And>x. Q x \<Longrightarrow> \<not> P x) \<Longrightarrow> length (filter (\<lambda>x. P x \<or> Q x) xs) = length (filter P xs) + length (filter Q xs)"
  by (induction xs) auto


definition busy_tunnel :: conn_sys where
  "busy_tunnel = accept_conn False True (accept_conn True True (conn_sys_new 2))"

lemma busy_tunnel_reachable: "reachable (tunnel_init 2) tunnel_step busy_tunnel"
proof -
  have "reachable (tunnel_init 2) tunnel_step (conn_sys_new 2)" by (rule reach_init) (simp add: tunnel_init_def)
  then show ?thesis unfolding busy_tunnel_def by (blast intro: reach_step t_accept)
qed


text \<open>An aborted connection stays aborted.\<close>

lemma aborted_stays:
  assumes "tunnel_step s t" "k < length (cs_conns s)" "cs_conns s ! k = Aborted b"
  shows "k < length (cs_conns t) \<and> cs_conns t ! k = Aborted b"
  using assms
proof (induction rule: tunnel_step.induct)
  case (t_conn i ev s t)
  then obtain c st nt where "i < length (cs_conns s)" "handle ev (0 < cs_relay s) (cs_conns s ! i) (cs_stats s) = Some (c, st, nt)"
    "cs_conns t = (cs_conns s)[i := c]"
    by (auto simp: conn_step_def move_conn_def split: if_splits option.splits prod.splits)
  with handle_moves(4) t_conn.prems show ?case by (cases "i = k") fastforce+
next
  case (t_abort i s t)
  then have "live (cs_conns s ! i)" "cs_conns t = (cs_conns s)[i := Aborted (counted (cs_conns s ! i))]"
    by (auto simp: abort_conn_def move_conn_def split: if_splits)
  with t_abort.prems show ?case by (cases "i = k") auto
qed (auto simp: accept_conn_def accept_remote_def nth_append Let_def)

text \<open>
  The forced end of a tunnel leaves its counter behind. A connection that is aborted is
  dropped before the handler takes it off the counter of active connections, so that the
  counter never returns to zero, although \<open>run_tunnel\<close> and \<open>stop\<close> expect it to: it is still
  positive when every connection has ended.
\<close>

theorem abort_leaves_active_count:
  assumes "reachable (tunnel_init n) tunnel_step s" "k < length (cs_conns s)" "counted (cs_conns s ! k)"
    "abort_conn k s = Some u" "tunnel_step\<^sup>*\<^sup>* u t" "length (cs_conns t) < 2 ^ 64"
  shows "active_conns (cs_stats t) \<noteq> 0"
proof -
  have u: "k < length (cs_conns u)" "cs_conns u ! k = Aborted True"
    using assms(2-4) by (auto simp: abort_conn_def move_conn_def split: if_splits)
  have ru: "reachable (tunnel_init n) tunnel_step u" using assms(1,4) by (blast intro: reach_step t_abort)
  from assms(5) have t: "k < length (cs_conns t) \<and> cs_conns t ! k = Aborted True \<and> reachable (tunnel_init n) tunnel_step t"
  proof (induction rule: rtranclp_induct)
    case base
    with u ru show ?case by simp
  next
    case (step x y)
    with aborted_stays [of x y k True] show ?case by (blast intro: reach_step)
  qed
  then have "conn_inv n t" by (blast intro: tunnel.inv_reachable)
  moreover have "Aborted True \<in> set (filter on_books (cs_conns t))" using t by (auto simp: on_books_def in_set_conv_nth)
  then have "0 < conn_count on_books t" unfolding conn_count_def by (cases "filter on_books (cs_conns t)") auto
  moreover have "conn_count on_books t < 2 ^ 64" using assms(6) by (simp add: conn_count_def le_less_trans [OF length_filter_le])
  ultimately show ?thesis by (auto simp: conn_inv_def word_of_nat_eq_0_iff dest: dvd_imp_le)
qed

theorem abort_leaves_active_count_witness:
  "\<exists>u. abort_conn 0 busy_tunnel = Some u \<and> active_conns (cs_stats u) \<noteq> 0"
proof -
  have k: "0 < length (cs_conns busy_tunnel)" "counted (cs_conns busy_tunnel ! 0)" "live (cs_conns busy_tunnel ! 0)"
    "length (cs_conns busy_tunnel) = 2" by code_simp+
  then have a: "abort_conn 0 busy_tunnel = Some (move_conn 0 (Aborted True) busy_tunnel)" by (simp add: abort_conn_def)
  have "length (cs_conns (move_conn 0 (Aborted True) busy_tunnel)) < 2 ^ 64" using k(4) by (simp add: move_conn_def)
  from abort_leaves_active_count [OF busy_tunnel_reachable k(1,2) a rtranclp.rtrancl_refl this] a show ?thesis by blast
qed

end
