(* ===== verification/Background_Connect.thy ===== *)
theory Background_Connect
  imports Ssh_Connect Tunnel_Group
begin

text \<open>
  Connections in the background under the supervisor of a tunnel group: how the errors of
  \<open>background\<close> (\<^verbatim>\<open>src/crates/app/src/connect.rs\<close>) are classed, and what the supervisor of
  \<^verbatim>\<open>src/crates/core-tunnel/src/manager.rs\<close> does about them.
\<close>

text \<open>
  When the first host shows a key the known hosts do not trust, the supervisor of a group
  that connects in the background backs off and is then as ready to connect again as before,
  however often it happens, although the class of a rejected key says that it stops at once.
\<close>

theorem rejected_key_is_retried:
  assumes "lg_handshake l = HsKey key a" "evaluate lib (jh_host h) (jh_port h) key kh \<noteq> Ok Trusted"
    and "jump_chain_from (to_jump_chain spec) @ [target_of (background_options spec profile)] = h # hs"
    and "reject_background_ki spec = Ok ()"
    and "g_sup g = SupConnect" "\<not> g_shutdown g"
  shows "\<exists>e g1 g2 g3. background lib spec profile (l # legs) kh = (Err e, kh) \<and> reconnect_class e = Retryable \<and>
           supervise_step (ConnectErr e) g = Some g1 \<and> g_sup g1 = SupBackoff (backoff_cap (g_attempt g + 1)) \<and>
           supervise_step Elapsed g1 = Some g2 \<and> supervise_step Proceed g2 = Some g3 \<and>
           g_sup g3 = SupConnect \<and> \<not> g_shutdown g3 \<and> g_status g3 = g_status g"
proof -
  let ?e = "Connect (host_port (jh_host h) (jh_port h)) ''Unknown server key''"
  have hs: "handshake lib background_host_key_check h (lg_handshake l) kh = (Err ?e, kh)"
    using assms(1,2) by (simp add: handshake_def Let_def background_key)
  have "background lib spec profile (l # legs) kh = (Err ?e, kh)"
    using assms(3,4) hs
    by (cases "to_jump_chain spec")
       (auto simp: background_def ssh_connect_def background_options_def enter_host_def jump_chain_from_def)
  then show ?thesis
    using assms(5,6) by (simp add: supervise_step_def connect_result_def Let_def)
qed

theorem rejected_key_is_retried_witness:
  "let lib = \<lparr>rk_check = (\<lambda>f h p k. KhKnown (f = Some k)), rk_first_key = (\<lambda>_ _ _. None),
               rk_learn = (\<lambda>_ _ _ k. Ok k), rk_fingerprint = id, rk_algorithm = id\<rparr>;
       kh = \<lparr>kh_file = None, kh_read_error = None, kh_write_error = None\<rparr>;
       l = \<lparr>lg_handshake = HsKey ''k'' KexDone, lg_auth = AuthBroken ''reset'', lg_channel = ChOpened\<rparr>;
       spec = plain_spec [];
       g = (group_new ''s'')\<lparr>g_sup := SupConnect\<rparr>
   in \<exists>e g1 g2 g3. background lib spec Throughput [l] kh = (Err e, kh) \<and> reconnect_class e = Retryable \<and>
        supervise_step (ConnectErr e) g = Some g1 \<and> supervise_step Elapsed g1 = Some g2 \<and>
        supervise_step Proceed g2 = Some g3 \<and> g_sup g3 = SupConnect"
proof -
  let ?lib = "\<lparr>rk_check = (\<lambda>f h p k. KhKnown (f = Some k)), rk_first_key = (\<lambda>_ _ _. None),
               rk_learn = (\<lambda>_ _ _ k. Ok k), rk_fingerprint = id, rk_algorithm = id\<rparr>"
  let ?kh = "\<lparr>kh_file = None, kh_read_error = None, kh_write_error = None\<rparr>"
  let ?l = "\<lparr>lg_handshake = HsKey ''k'' KexDone, lg_auth = AuthBroken ''reset'', lg_channel = ChOpened\<rparr>"
  let ?spec = "plain_spec []"
  let ?g = "(group_new ''s'')\<lparr>g_sup := SupConnect\<rparr>"
  show ?thesis
    using rejected_key_is_retried [of ?l "''k''" KexDone ?lib "target_of (background_options ?spec Throughput)" ?kh ?spec Throughput "[]" ?g "[]"]
    by (fastforce simp: Let_def evaluate_def reject_background_ki_def group_new_def target_of_def background_options_def
        jump_chain_from_def plain_spec_def)
qed

text \<open>
  A connection that breaks while the login runs is classed as a failed login, whatever the
  method: the supervisor of the group ends for good with the group failed, although the
  credentials were never judged.
\<close>

theorem broken_login_is_permanent:
  assumes "lg_handshake l = HsKey key KexDone" "evaluate lib (jh_host h) (jh_port h) key kh = Ok Trusted"
    and "lg_auth l = AuthBroken m"
    and "jump_chain_from (to_jump_chain spec) @ [target_of (background_options spec profile)] = h # hs"
    and "reject_background_ki spec = Ok ()" "g_sup g = SupConnect"
  shows "\<exists>e g1. background lib spec profile (l # legs) kh = (Err e, kh) \<and>
           supervise_step (ConnectErr e) g = Some g1 \<and> g_status g1 = Failed \<and> (\<forall>ev. supervise_step ev g1 = None)"
proof -
  have hs: "handshake lib background_host_key_check h (lg_handshake l) kh = (Ok (), kh)"
    using assms(1,2) by (simp add: handshake_def Let_def background_key)
  have "\<exists>e. authenticate False h (lg_auth l) = Err e"
    using assms(3) by (auto simp: authenticate_def Let_def split: AuthMethod.splits)
  then obtain e where e: "authenticate False h (lg_auth l) = Err e" by blast
  then have "reconnect_class e = AuthFailed" by (rule authenticate_class)
  moreover have "background lib spec profile (l # legs) kh = (Err e, kh)"
    using assms(4,5) hs e
    by (cases "to_jump_chain spec")
       (auto simp: background_def ssh_connect_def background_options_def enter_host_def jump_chain_from_def)
  ultimately show ?thesis
    using assms(6) by (simp add: supervise_step_def connect_result_def)
qed

theorem broken_login_is_permanent_witness:
  "let lib = \<lparr>rk_check = (\<lambda>f h p k. KhKnown (f = Some k)), rk_first_key = (\<lambda>_ _ _. None),
               rk_learn = (\<lambda>_ _ _ k. Ok k), rk_fingerprint = id, rk_algorithm = id\<rparr>;
       kh = \<lparr>kh_file = Some ''k'', kh_read_error = None, kh_write_error = None\<rparr>;
       l = \<lparr>lg_handshake = HsKey ''k'' KexDone, lg_auth = AuthBroken ''reset'', lg_channel = ChOpened\<rparr>;
       spec = plain_spec [];
       g = (group_new ''s'')\<lparr>g_sup := SupConnect\<rparr>
   in \<exists>e g1. background lib spec Throughput [l] kh = (Err e, kh) \<and>
        supervise_step (ConnectErr e) g = Some g1 \<and> g_status g1 = Failed \<and> supervise_step Elapsed g1 = None"
proof -
  let ?lib = "\<lparr>rk_check = (\<lambda>f h p k. KhKnown (f = Some k)), rk_first_key = (\<lambda>_ _ _. None),
               rk_learn = (\<lambda>_ _ _ k. Ok k), rk_fingerprint = id, rk_algorithm = id\<rparr>"
  let ?kh = "\<lparr>kh_file = Some ''k'', kh_read_error = None, kh_write_error = None\<rparr>"
  let ?l = "\<lparr>lg_handshake = HsKey ''k'' KexDone, lg_auth = AuthBroken ''reset'', lg_channel = ChOpened\<rparr>"
  let ?spec = "plain_spec []"
  let ?g = "(group_new ''s'')\<lparr>g_sup := SupConnect\<rparr>"
  show ?thesis
    using broken_login_is_permanent [of ?l "''k''" ?lib "target_of (background_options ?spec Throughput)" ?kh "''reset''" ?spec Throughput "[]" ?g "[]"]
    by (fastforce simp: Let_def evaluate_def reject_background_ki_def group_new_def target_of_def background_options_def
        jump_chain_from_def plain_spec_def)
qed

end
