(* ===== verification/Session_Store.thy ===== *)
theory Session_Store
  imports Ssh_Connect "HOL-Library.Sublist"
begin

text \<open>
  The stored sessions, \<^verbatim>\<open>src/crates/core-store/src/session.rs\<close>: the records, the statements
  on their table, and the groups, which exist only as the paths of their members. The way
  from a session to a connection, with its jump hosts and secrets, is that of
  \<^verbatim>\<open>src/crates/app/src/sessions.rs\<close>.

  The table is a list of records. The current time is an argument; a failed call of SQLite
  changes nothing and is not modelled further. \<open>substr\<close> counts characters from one, and the
  JSON columns are the lists they encode. Deleting a session also deletes its credentials
  (\<open>ON DELETE CASCADE\<close>). The vault, the key files and the decoding of secrets are arguments.
\<close>

section \<open>Records\<close>

datatype StoreError =
    StoreOpen string string | Migration string | VaultLocked | BadMasterPassword | Crypto string
  | StoreNotFound string | StoreQuery string | Corrupt string | Validation string

datatype AuthType = AtPassword | AtPublicKey | AtKeyboardInteractive | AtAgent

fun auth_type_str :: "AuthType \<Rightarrow> string" where
  "auth_type_str AtPassword = ''password''"
| "auth_type_str AtPublicKey = ''publickey''"
| "auth_type_str AtKeyboardInteractive = ''keyboard-interactive''"
| "auth_type_str AtAgent = ''agent''"

definition auth_type_parse :: "string \<Rightarrow> (StoreError, AuthType) result" where
  "auth_type_parse s =
     (if s = ''password'' then Ok AtPassword
      else if s = ''publickey'' then Ok AtPublicKey
      else if s = ''keyboard-interactive'' then Ok AtKeyboardInteractive
      else if s = ''agent'' then Ok AtAgent
      else Err (Corrupt (''auth_type: '' @ s)))"

datatype SessionKind = KindSsh | KindLocal

fun kind_str :: "SessionKind \<Rightarrow> string" where
  "kind_str KindSsh = ''ssh''"
| "kind_str KindLocal = ''local''"

definition kind_parse :: "string \<Rightarrow> (StoreError, SessionKind) result" where
  "kind_parse s =
     (if s = ''ssh'' then Ok KindSsh else if s = ''local'' then Ok KindLocal else Err (Corrupt (''kind: '' @ s)))"

lemma parse_str [simp]: "auth_type_parse (auth_type_str a) = Ok a" "kind_parse (kind_str k) = Ok k"
  by (cases a; simp add: auth_type_parse_def) (cases k; simp add: kind_parse_def)

record SessionRecord =
  sr_id :: string
  sr_name :: string
  sr_kind :: SessionKind
  sr_host :: string
  sr_port :: u16
  sr_user :: string
  sr_auth_type :: AuthType
  sr_key_path :: "string option"
  sr_shell :: "string option"
  sr_workdir :: "string option"
  sr_jump_chain :: "string list"
  sr_group_path :: string
  sr_color :: "string option"
  sr_encoding :: string
  sr_su_user :: "string option"
  sr_login_macro :: "string option"
  sr_mcp_perms :: "(string \<times> bool) list"
  sr_tags :: "string list"
  sr_command :: "string option"
  sr_created_at :: string
  sr_updated_at :: string

datatype CredentialKind = CkPassword | CkKeyPassphrase | CkSuPassword

record store =
  st_sessions :: "SessionRecord list"
  st_creds :: "(string \<times> CredentialKind \<times> u8 list) list"

section \<open>Statements\<close>

definition session_get :: "store \<Rightarrow> string \<Rightarrow> (StoreError, SessionRecord) result" where
  "session_get st i =
     (case find (\<lambda>r. sr_id r = i) (st_sessions st) of
        None \<Rightarrow> Err (StoreNotFound (''session '' @ i))
      | Some r \<Rightarrow> Ok r)"

text \<open>An update keeps the time of creation.\<close>

definition session_upsert :: "string \<Rightarrow> SessionRecord \<Rightarrow> store \<Rightarrow> (StoreError, SessionRecord) result \<times> store" where
  "session_upsert now rec st =
     (let rows = st_sessions st;
          rows = (if list_ex (\<lambda>r. sr_id r = sr_id rec) rows
                  then map (\<lambda>r. if sr_id r = sr_id rec then rec\<lparr>sr_created_at := sr_created_at r, sr_updated_at := now\<rparr> else r) rows
                  else rows @ [rec\<lparr>sr_created_at := now, sr_updated_at := now\<rparr>]);
          st = st\<lparr>st_sessions := rows\<rparr>
      in (session_get st (sr_id rec), st))"

text \<open>The rows that leave take their credentials along.\<close>

definition delete_rows :: "(SessionRecord \<Rightarrow> bool) \<Rightarrow> store \<Rightarrow> store" where
  "delete_rows P st =
     (let gone = map sr_id (filter P (st_sessions st))
      in \<lparr>st_sessions = filter (\<lambda>r. \<not> P r) (st_sessions st),
          st_creds = filter (\<lambda>c. fst c \<notin> set gone) (st_creds st)\<rparr>)"

definition session_delete :: "string \<Rightarrow> store \<Rightarrow> (StoreError, unit) result \<times> store" where
  "session_delete i st =
     (if list_ex (\<lambda>r. sr_id r = i) (st_sessions st) then (Ok (), delete_rows (\<lambda>r. sr_id r = i) st)
      else (Err (StoreNotFound (''session '' @ i)), st))"

section \<open>Groups\<close>

definition valid_path :: "string \<Rightarrow> bool" where
  "valid_path p \<longleftrightarrow> p = [] \<or> list_all (\<lambda>seg. seg \<noteq> [] \<and> trim seg = seg) (split_on CHR ''/'' p)"

definition validate_group_path :: "string \<Rightarrow> (StoreError, unit) result" where
  "validate_group_path p = (if valid_path p then Ok () else Err (Validation p))"

definition substr :: "string \<Rightarrow> nat \<Rightarrow> string" where
  "substr s i = drop (i - 1) s"

definition substr_n :: "string \<Rightarrow> nat \<Rightarrow> nat \<Rightarrow> string" where
  "substr_n s i n = take n (drop (i - 1) s)"

definition below :: "string \<Rightarrow> string \<Rightarrow> bool" where
  "below path p \<longleftrightarrow> substr_n p 1 (length path) = path \<and> substr_n p (length path + 1) 1 = ''/''"

definition in_group :: "string \<Rightarrow> string \<Rightarrow> bool" where
  "in_group path p \<longleftrightarrow> p = path \<or> below path p"

definition rename_path :: "string \<Rightarrow> string \<Rightarrow> string \<Rightarrow> string" where
  "rename_path old new p = (if new = [] then substr p (length old + 2) else new @ substr p (length old + 1))"

text \<open>\<open>UPDATE sessions SET group_path = f(group_path), updated_at = now WHERE P(group_path)\<close>\<close>

definition update_paths :: "string \<Rightarrow> (string \<Rightarrow> bool) \<Rightarrow> (string \<Rightarrow> string) \<Rightarrow> store \<Rightarrow> nat \<times> store" where
  "update_paths now P f st =
     (length (filter (\<lambda>r. P (sr_group_path r)) (st_sessions st)),
      st\<lparr>st_sessions := map (\<lambda>r. if P (sr_group_path r) then r\<lparr>sr_group_path := f (sr_group_path r), sr_updated_at := now\<rparr> else r)
                            (st_sessions st)\<rparr>)"

definition group_rename :: "string \<Rightarrow> string \<Rightarrow> string \<Rightarrow> store \<Rightarrow> (StoreError, nat) result \<times> store" where
  "group_rename now old new st =
     (case validate_group_path old of
        Inl e \<Rightarrow> (Err e, st)
      | Inr _ \<Rightarrow>
          (case validate_group_path new of
             Inl e \<Rightarrow> (Err e, st)
           | Inr _ \<Rightarrow>
               if old = [] then (Err (Validation ''root''), st)
               else if old = new then (Ok 0, st)
               else if starts_with new old \<and> length old < length new \<and> new ! length old = CHR ''/'' then (Err (Validation new), st)
               else let (n, st) = update_paths now (in_group old) (rename_path old new) st in (Ok n, st)))"

text \<open>\<open>rsplit_once('/')\<close>, or the root.\<close>

definition parent_path :: "string \<Rightarrow> string" where
  "parent_path path = (case rsplit_at (\<lambda>c. c = CHR ''/'') path of None \<Rightarrow> [] | Some (p, _) \<Rightarrow> butlast p)"

definition lift_path :: "string \<Rightarrow> string \<Rightarrow> string" where
  "lift_path path p =
     (let parent = parent_path path; rest = substr p (length path + 2)
      in if parent = [] then rest else parent @ ''/'' @ rest)"

definition group_delete :: "string \<Rightarrow> string \<Rightarrow> bool \<Rightarrow> store \<Rightarrow> (StoreError, nat) result \<times> store" where
  "group_delete now path with_sessions st =
     (case validate_group_path path of
        Inl e \<Rightarrow> (Err e, st)
      | Inr _ \<Rightarrow>
          if path = [] then (Err (Validation ''root''), st)
          else if with_sessions then
            (Ok (length (filter (\<lambda>r. in_group path (sr_group_path r)) (st_sessions st))),
             delete_rows (\<lambda>r. in_group path (sr_group_path r)) st)
          else let (direct, st) = update_paths now (\<lambda>p. p = path) (\<lambda>_. []) st;
                   (children, st) = update_paths now (below path) (lift_path path) st
               in (Ok (direct + children), st))"

definition group_session_ids :: "string \<Rightarrow> store \<Rightarrow> (StoreError, string list) result" where
  "group_session_ids path st =
     (case validate_group_path path of
        Inl e \<Rightarrow> Err e
      | Inr _ \<Rightarrow> Ok (map sr_id (filter (\<lambda>r. in_group path (sr_group_path r)) (st_sessions st))))"

fun move_rows :: "string \<Rightarrow> string \<Rightarrow> string list \<Rightarrow> store \<Rightarrow> nat \<times> store" where
  "move_rows now g [] st = (0, st)"
| "move_rows now g (i # ids) st =
     (let n = length (filter (\<lambda>r. sr_id r = i) (st_sessions st));
          st = st\<lparr>st_sessions := map (\<lambda>r. if sr_id r = i then r\<lparr>sr_group_path := g, sr_updated_at := now\<rparr> else r) (st_sessions st)\<rparr>;
          (k, st) = move_rows now g ids st
      in (n + k, st))"

definition move_to_group :: "string \<Rightarrow> string list \<Rightarrow> string \<Rightarrow> store \<Rightarrow> (StoreError, nat) result \<times> store" where
  "move_to_group now ids g st =
     (case validate_group_path g of
        Inl e \<Rightarrow> (Err e, st)
      | Inr _ \<Rightarrow> (let (n, st) = move_rows now g ids st in (Ok n, st)))"

section \<open>Groups as a tree\<close>

text \<open>The tree the paths stand for: a path is the list of its segments, the root the empty list.\<close>

definition segs :: "string \<Rightarrow> string list" where
  "segs p = (if p = [] then [] else split_on CHR ''/'' p)"

lemma split_on_append: "split_on c (p @ c # s) = split_on c p @ split_on c s"
proof (induction p)
  case (Cons x p)
  obtain q qs where "split_on c p = q # qs" by (cases "split_on c p") auto
  with Cons show ?case by auto
qed simp

lemma below_iff: "below path p \<longleftrightarrow> (\<exists>r. p = path @ CHR ''/'' # r)"
proof
  assume b: "below path p"
  then have t: "take (length path) p = path" "take 1 (drop (length path) p) = ''/''"
    by (simp_all add: below_def substr_n_def)
  then obtain r where "drop (length path) p = CHR ''/'' # r" by (cases "drop (length path) p") auto
  then show "\<exists>r. p = path @ CHR ''/'' # r" using t(1) by (metis append_take_drop_id)
qed (auto simp: below_def substr_n_def)

lemma join_append: "xs \<noteq> [] \<Longrightarrow> ys \<noteq> [] \<Longrightarrow> join [c] (xs @ ys) = join [c] xs @ c # join [c] ys"
  by (induction "[c]" xs rule: join.induct) (auto simp: neq_Nil_conv)

lemma segs_join: "p \<noteq> [] \<Longrightarrow> join ''/'' (segs p) = p"
  by (simp add: segs_def join_split_on)

lemma segs_Nil [simp]: "segs [] = []"
  by (simp add: segs_def)

lemma segs_eq_Nil_iff [simp]: "segs p = [] \<longleftrightarrow> p = []"
  by (simp add: segs_def)

lemma segs_inject: "segs p = segs q \<longleftrightarrow> p = q"
  by (metis segs_eq_Nil_iff segs_join)

lemma segs_below: "path \<noteq> [] \<Longrightarrow> segs (path @ CHR ''/'' # r) = segs path @ split_on CHR ''/'' r"
  by (simp add: segs_def split_on_append)

text \<open>The test on characters is the test on segments.\<close>

lemma in_group_iff:
  assumes "path \<noteq> []"
  shows "in_group path p \<longleftrightarrow> prefix (segs path) (segs p)"
proof
  assume "in_group path p"
  then show "prefix (segs path) (segs p)"
    using assms by (auto simp: in_group_def below_iff segs_below)
next
  assume "prefix (segs path) (segs p)"
  then obtain ys where ys: "segs p = segs path @ ys" by (auto simp: prefix_def)
  then have p: "p \<noteq> []" using assms by (metis Nil_is_append_conv segs_eq_Nil_iff)
  show "in_group path p"
  proof (cases "ys = []")
    case True
    then show ?thesis using ys by (simp add: segs_inject in_group_def)
  next
    case False
    then have "p = path @ CHR ''/'' # join ''/'' ys"
      using ys assms p segs_join by (metis join_append segs_eq_Nil_iff)
    then show ?thesis by (auto simp: in_group_def below_iff)
  qed
qed

lemma valid_path_segs: "valid_path p \<longleftrightarrow> list_all (\<lambda>seg. seg \<noteq> [] \<and> trim seg = seg) (segs p)"
  by (simp add: valid_path_def segs_def)

definition tree_rename :: "string list \<Rightarrow> string list \<Rightarrow> string list \<Rightarrow> string list" where
  "tree_rename old new p = (if prefix old p then new @ drop (length old) p else p)"

definition tree_lift :: "string list \<Rightarrow> string list \<Rightarrow> string list" where
  "tree_lift g p = (if p = g then [] else if prefix g p then butlast g @ drop (length g) p else p)"

lemma below_rest:
  assumes "valid_path p" "below path p" "path \<noteq> []"
  obtains r where "p = path @ CHR ''/'' # r" "r \<noteq> []" "segs p = segs path @ segs r"
proof -
  obtain r where r: "p = path @ CHR ''/'' # r" using assms(2) below_iff by blast
  then have "segs p = segs path @ split_on CHR ''/'' r" using assms(3) segs_below by blast
  moreover from this have "r \<noteq> []" using assms(1) by (auto simp: valid_path_segs)
  ultimately show ?thesis using that r by (simp add: segs_def)
qed

lemma segs_slash: "p \<noteq> [] \<Longrightarrow> r \<noteq> [] \<Longrightarrow> segs (p @ CHR ''/'' # r) = segs p @ segs r"
  by (simp add: segs_def split_on_append)

lemma segs_rename_path:
  assumes "valid_path p" "in_group old p" "old \<noteq> []"
  shows "segs (rename_path old new p) = segs new @ drop (length (segs old)) (segs p)"
proof (cases "p = old")
  case True
  then show ?thesis by (simp add: rename_path_def substr_def)
next
  case False
  then obtain r where "p = old @ CHR ''/'' # r" "r \<noteq> []" "segs p = segs old @ segs r"
    using assms below_rest by (metis in_group_def)
  then show ?thesis by (auto simp: rename_path_def substr_def segs_slash)
qed

lemma segs_parent_path:
  assumes "valid_path path" "path \<noteq> []"
  shows "segs (parent_path path) = butlast (segs path)"
proof (cases "rsplit_at (\<lambda>c. c = CHR ''/'') path")
  case None
  then have "CHR ''/'' \<notin> set path" by (auto simp: rsplit_at_def split: if_splits)
  then show ?thesis using assms None by (simp add: parent_path_def segs_def split_on_sepless)
next
  case (Some ab)
  then obtain a b where ab: "rsplit_at (\<lambda>c. c = CHR ''/'') path = Some (a, b)" by (cases ab) auto
  from rsplit_at_Some [OF ab] have a: "path = a @ b" "a \<noteq> []" "last a = CHR ''/''" "CHR ''/'' \<notin> set b" by auto
  then have path: "path = butlast a @ CHR ''/'' # b" by (metis append_Cons append_Nil append_assoc append_butlast_last_id)
  then have split: "segs path = split_on CHR ''/'' (butlast a) @ [b]"
    using assms(2) a(4) by (simp add: segs_def split_on_append split_on_sepless)
  then have "butlast a \<noteq> []" using assms(1) by (auto simp: valid_path_segs)
  then show ?thesis using ab split by (simp add: parent_path_def segs_def)
qed

lemma segs_lift_path:
  assumes "valid_path p" "valid_path path" "below path p" "path \<noteq> []"
  shows "segs (lift_path path p) = butlast (segs path) @ drop (length (segs path)) (segs p)"
proof -
  obtain r where r: "p = path @ CHR ''/'' # r" "r \<noteq> []" "segs p = segs path @ segs r"
    using assms below_rest by blast
  then show ?thesis
    using segs_parent_path [OF assms(2,4)]
    by (auto simp: lift_path_def substr_def Let_def segs_slash)
qed

lemma tree_rename_same: "tree_rename g g p = p"
  by (auto simp: tree_rename_def prefix_def)

abbreviation paths :: "store \<Rightarrow> string list list" where
  "paths st \<equiv> map (segs \<circ> sr_group_path) (st_sessions st)"

definition valid_store :: "store \<Rightarrow> bool" where
  "valid_store st \<longleftrightarrow> list_all (\<lambda>r. valid_path (sr_group_path r)) (st_sessions st)"

text \<open>What the statements on paths leave alone.\<close>

definition apart_from_path :: "SessionRecord \<Rightarrow> SessionRecord" where
  "apart_from_path r = r\<lparr>sr_group_path := [], sr_updated_at := []\<rparr>"

lemma valid_store_paths: "valid_store st \<longleftrightarrow> list_all (list_all (\<lambda>seg. seg \<noteq> [] \<and> trim seg = seg)) (paths st)"
  by (simp add: valid_store_def list_all_iff valid_path_segs)

lemma list_all_drop: "list_all P xs \<Longrightarrow> list_all P (drop n xs)"
  by (auto simp: list_all_iff dest: in_set_dropD)

lemma list_all_tree:
  assumes "list_all P p"
  shows "list_all P new \<Longrightarrow> list_all P (tree_rename old new p)"
    and "list_all P g \<Longrightarrow> list_all P (tree_lift g p)"
  using assms by (auto simp: tree_rename_def tree_lift_def list_all_drop) (auto simp: list_all_iff dest: in_set_butlastD in_set_dropD)

lemma update_paths_rest:
  "update_paths now P f st = (n, st') \<Longrightarrow>
     map apart_from_path (st_sessions st') = map apart_from_path (st_sessions st) \<and> st_creds st' = st_creds st"
  by (auto simp: update_paths_def apart_from_path_def)

lemma update_paths_tree:
  assumes "update_paths now P f st = (n, st')"
    and "\<And>r. r \<in> set (st_sessions st) \<Longrightarrow>
           segs (if P (sr_group_path r) then f (sr_group_path r) else sr_group_path r) = g (segs (sr_group_path r))"
  shows "paths st' = map g (paths st)"
proof -
  have "st_sessions st' = map (\<lambda>r. if P (sr_group_path r) then r\<lparr>sr_group_path := f (sr_group_path r), sr_updated_at := now\<rparr> else r)
      (st_sessions st)"
    using assms(1) by (auto simp: update_paths_def)
  then show ?thesis using assms(2) by (simp add: if_distrib cong: map_cong if_cong)
qed

lemma valid_store_tree:
  assumes "paths st' = map g (paths st)" "valid_store st"
    and "\<And>p. list_all (\<lambda>seg. seg \<noteq> [] \<and> trim seg = seg) p \<Longrightarrow> list_all (\<lambda>seg. seg \<noteq> [] \<and> trim seg = seg) (g p)"
  shows "valid_store st'"
  using assms unfolding valid_store_paths by (simp add: list_all_iff [of "list_all _"])

text \<open>
  C20. Renaming or moving a group, seen on the tree the paths stand for: exactly the sessions in
  the group and below it move, the rest of their path is kept, nothing else changes, and
  their number is returned. With valid paths before, all paths are valid afterwards.
\<close>

theorem group_rename_on_tree:
  assumes "group_rename now old new st = (Ok n, st')" "valid_store st"
  shows "paths st' = map (tree_rename (segs old) (segs new)) (paths st) \<and> valid_store st' \<and>
         map apart_from_path (st_sessions st') = map apart_from_path (st_sessions st) \<and> st_creds st' = st_creds st \<and>
         (old \<noteq> new \<longrightarrow> n = length (filter (prefix (segs old)) (paths st)))"
proof (cases "old = new")
  case True
  then show ?thesis
    using assms by (auto simp: group_rename_def tree_rename_same comp_def split: sum.splits if_splits)
next
  case False
  from assms(1) False have ok: "old \<noteq> []" "valid_path new"
    and st': "update_paths now (in_group old) (rename_path old new) st = (n, st')"
    by (auto simp: group_rename_def validate_group_path_def split: sum.splits if_splits prod.splits)
  have "paths st' = map (tree_rename (segs old) (segs new)) (paths st)"
    using assms(2) ok segs_rename_path
    by (intro update_paths_tree [OF st']) (auto simp: valid_store_def list_all_iff tree_rename_def in_group_iff)
  moreover from this have "valid_store st'"
    using assms(2) ok(2) by (auto intro: valid_store_tree list_all_tree(1) simp: valid_path_segs)
  moreover have "n = length (filter (prefix (segs old)) (paths st))"
    using st' ok(1) by (auto simp: update_paths_def filter_map comp_def in_group_iff)
  ultimately show ?thesis using update_paths_rest [OF st'] by simp
qed

text \<open>Two updates, of the members of a group and of what is below it, make one step on the tree.\<close>

lemma lift_step:
  assumes "valid_path p" "valid_path path" "path \<noteq> []"
  shows "(let q = (if p = path then [] else p) in segs (if below path q then lift_path path q else q)) = tree_lift (segs path) (segs p)"
proof (cases "p = path")
  case True
  moreover have "\<not> below path []" by (simp add: below_iff)
  ultimately show ?thesis by (simp add: tree_lift_def)
next
  case False
  then have "below path p \<longleftrightarrow> prefix (segs path) (segs p)"
    using assms(3) in_group_iff by (auto simp: in_group_def)
  with False show ?thesis
    using assms segs_lift_path by (auto simp: tree_lift_def segs_inject)
qed

text \<open>
  Deleting a group but not its sessions, on the tree: its members go to the root, the groups
  below it move up to its parent, and everything else stays. Deleting it with its sessions
  removes exactly the sessions whose identifiers \<open>group_session_ids\<close> lists beforehand, and
  their credentials.
\<close>

theorem group_delete_on_tree:
  assumes "valid_store st" "valid_path path" "path \<noteq> []"
  shows "(\<exists>n st'. group_delete now path False st = (Ok n, st') \<and> paths st' = map (tree_lift (segs path)) (paths st) \<and>
                  valid_store st' \<and> map apart_from_path (st_sessions st') = map apart_from_path (st_sessions st) \<and>
                  st_creds st' = st_creds st) \<and>
         (\<exists>ids st'. group_session_ids path st = Ok ids \<and> group_delete now path True st = (Ok (length ids), st') \<and>
                  st_sessions st' = filter (\<lambda>r. \<not> prefix (segs path) (segs (sr_group_path r))) (st_sessions st) \<and>
                  st_creds st' = filter (\<lambda>c. fst c \<notin> set ids) (st_creds st))"
proof
  obtain n1 st1 where s1: "update_paths now (\<lambda>p. p = path) (\<lambda>_. []) st = (n1, st1)" by fastforce
  obtain n2 st2 where s2: "update_paths now (below path) (lift_path path) st1 = (n2, st2)" by fastforce
  have ss: "st_sessions st1 = map (\<lambda>r. if sr_group_path r = path then r\<lparr>sr_group_path := [], sr_updated_at := now\<rparr> else r) (st_sessions st)"
    using s1 by (auto simp: update_paths_def)
  have two: "st_sessions st2 = map (\<lambda>r. if below path (sr_group_path r) then r\<lparr>sr_group_path := lift_path path (sr_group_path r), sr_updated_at := now\<rparr> else r)
      (st_sessions st1)"
    using s2 by (auto simp: update_paths_def)
  have step: "segs (sr_group_path (let r' = (if sr_group_path r = path then r\<lparr>sr_group_path := [], sr_updated_at := now\<rparr> else r)
      in if below path (sr_group_path r') then r'\<lparr>sr_group_path := lift_path path (sr_group_path r'), sr_updated_at := now\<rparr> else r')) =
      tree_lift (segs path) (segs (sr_group_path r))" if "r \<in> set (st_sessions st)" for r
    using lift_step [of "sr_group_path r" path] that assms by (auto simp: valid_store_def list_all_iff Let_def split: if_splits)
  have paths: "paths st2 = map (tree_lift (segs path)) (paths st)"
    using step unfolding two ss by (simp add: Let_def)
  moreover from this have "valid_store st2"
    using assms by (auto intro: valid_store_tree list_all_tree(2) simp: valid_path_segs)
  moreover have "group_delete now path False st = (Ok (n1 + n2), st2)"
    using assms s1 s2 by (simp add: group_delete_def validate_group_path_def)
  ultimately show "\<exists>n st'. group_delete now path False st = (Ok n, st') \<and> paths st' = map (tree_lift (segs path)) (paths st) \<and>
                  valid_store st' \<and> map apart_from_path (st_sessions st') = map apart_from_path (st_sessions st) \<and>
                  st_creds st' = st_creds st"
    using update_paths_rest [OF s1] update_paths_rest [OF s2] by auto
  show "\<exists>ids st'. group_session_ids path st = Ok ids \<and> group_delete now path True st = (Ok (length ids), st') \<and>
                  st_sessions st' = filter (\<lambda>r. \<not> prefix (segs path) (segs (sr_group_path r))) (st_sessions st) \<and>
                  st_creds st' = filter (\<lambda>c. fst c \<notin> set ids) (st_creds st)"
    using assms(2,3) by (simp add: group_session_ids_def group_delete_def validate_group_path_def delete_rows_def in_group_iff)
qed

definition sample_session :: "string \<Rightarrow> string \<Rightarrow> string list \<Rightarrow> SessionRecord" where
  "sample_session i g jumps =
     \<lparr>sr_id = i, sr_name = i, sr_kind = KindSsh, sr_host = i, sr_port = 22, sr_user = ''u'', sr_auth_type = AtAgent,
      sr_key_path = None, sr_shell = None, sr_workdir = None, sr_jump_chain = jumps, sr_group_path = g, sr_color = None,
      sr_encoding = ''utf-8'', sr_su_user = None, sr_login_macro = None, sr_mcp_perms = [], sr_tags = [], sr_command = None,
      sr_created_at = [], sr_updated_at = []\<rparr>"

definition sample_store :: store where
  "sample_store = \<lparr>st_sessions = [sample_session ''1'' ''a/b'' [], sample_session ''2'' ''a/b/c'' [], sample_session ''3'' ''a/bc'' []],
                   st_creds = [(''2'', CkPassword, [1])]\<rparr>"

theorem group_rename_on_tree_witness:
  "valid_store sample_store \<and>
   (let (r, st) = group_rename [] ''a/b'' ''x'' sample_store
    in r = Ok 2 \<and> map sr_group_path (st_sessions st) = [''x'', ''x/c'', ''a/bc''] \<and>
       paths st = map (tree_rename (segs ''a/b'') (segs ''x'')) (paths sample_store))"
proof -
  have v: "valid_store sample_store" by code_simp
  define st where "st = snd (group_rename [] ''a/b'' ''x'' sample_store)"
  have "fst (group_rename [] ''a/b'' ''x'' sample_store) = Ok 2" by code_simp
  then have r: "group_rename [] ''a/b'' ''x'' sample_store = (Ok 2, st)" by (simp add: st_def prod_eq_iff)
  have "map sr_group_path (st_sessions st) = [''x'', ''x/c'', ''a/bc'']" unfolding st_def by code_simp
  with v r group_rename_on_tree [OF r v] show ?thesis by simp
qed

theorem group_delete_on_tree_witness:
  "\<exists>n st' ids st''. group_delete [] ''a/b'' False sample_store = (Ok n, st') \<and>
     paths st' = map (tree_lift (segs ''a/b'')) (paths sample_store) \<and>
     group_session_ids ''a/b'' sample_store = Ok ids \<and> group_delete [] ''a/b'' True sample_store = (Ok (length ids), st'') \<and>
     map sr_group_path (st_sessions (snd (group_delete [] ''a/b'' False sample_store))) = [[], ''a/c'', ''a/bc'']"
proof -
  have v: "valid_store sample_store" by code_simp
  have p: "valid_path ''a/b''" by code_simp
  have "map sr_group_path (st_sessions (snd (group_delete [] ''a/b'' False sample_store))) = [[], ''a/c'', ''a/bc'']" by code_simp
  then show ?thesis using group_delete_on_tree [OF v p, of "[]"] by auto
qed

end
