(* ===== verification/Session_Resolve.thy ===== *)
theory Session_Resolve
  imports Session_Store "HOL-Library.Multiset"
begin

text \<open>
  From a stored session to the parameters of a connection,
  \<^verbatim>\<open>src/crates/app/src/sessions.rs\<close>: \<open>resolve_spec_inner\<close> with its jump hosts, the secrets of
  a session, the target of a terminal, and the connection test.

  The recursion of \<open>resolve_spec_inner\<close> has fuel, and \<open>None\<close> says that it ran out; the set of
  visited sessions, which all calls share, limits the depth, so that nine levels are always
  enough. The vault (what it decrypts), the decoding of UTF-8 and the files of keys are
  arguments. A set of identifiers is the list of them.
\<close>

record secrets =
  sx_cred :: "string \<Rightarrow> CredentialKind \<Rightarrow> u8 list option"
  sx_utf8 :: "u8 list \<Rightarrow> string option"
  sx_key_file :: "string \<Rightarrow> (string, string) result"

fun store_error_str :: "StoreError \<Rightarrow> string" where
  "store_error_str (StoreOpen p r) = ''E7001 '' @ p @ '': '' @ r"
| "store_error_str (Migration e) = ''E7002 '' @ e"
| "store_error_str VaultLocked = ''E7003''"
| "store_error_str BadMasterPassword = ''E7004''"
| "store_error_str (Crypto e) = ''E7005 '' @ e"
| "store_error_str (StoreNotFound e) = ''E7006 '' @ e"
| "store_error_str (StoreQuery e) = ''E7007 '' @ e"
| "store_error_str (Corrupt e) = ''E7008 '' @ e"
| "store_error_str (Validation e) = ''E7009 '' @ e"

section \<open>Secrets\<close>

text \<open>A credential that is optional: missing is fine, unreadable text is not.\<close>

definition optional_cred :: "secrets \<Rightarrow> string \<Rightarrow> CredentialKind \<Rightarrow> string \<Rightarrow> (string, string option) result" where
  "optional_cred sx i k msg =
     (case sx_cred sx i k of
        None \<Rightarrow> Ok None
      | Some b \<Rightarrow> (case sx_utf8 sx b of None \<Rightarrow> Err msg | Some t \<Rightarrow> Ok (Some t)))"

definition resolve_auth :: "secrets \<Rightarrow> SessionRecord \<Rightarrow> (string, AuthSpec) result" where
  "resolve_auth sx rec =
     (case sr_auth_type rec of
        AtPassword \<Rightarrow>
          (case sx_cred sx (sr_id rec) CkPassword of
             None \<Rightarrow> Err (''no password stored for '' @ sr_id rec)
           | Some b \<Rightarrow> (case sx_utf8 sx b of None \<Rightarrow> Err ''credential is not UTF-8'' | Some t \<Rightarrow> Ok (AsPassword t)))
      | AtPublicKey \<Rightarrow>
          (case sr_key_path rec of
             None \<Rightarrow> Err (''no keyPath for '' @ sr_id rec)
           | Some p \<Rightarrow>
               (case sx_key_file sx p of
                  Inl e \<Rightarrow> Err e
                | Inr pem \<Rightarrow>
                    (case optional_cred sx (sr_id rec) CkKeyPassphrase ''credential is not UTF-8'' of
                       Inl e \<Rightarrow> Err e
                     | Inr pp \<Rightarrow> Ok (AsPublicKey pem pp))))
      | AtKeyboardInteractive \<Rightarrow> Ok AsKeyboardInteractive
      | AtAgent \<Rightarrow> Ok AsAgent)"

definition su_user_of :: "SessionRecord \<Rightarrow> string option" where
  "su_user_of rec =
     (case sr_su_user rec of None \<Rightarrow> None | Some u \<Rightarrow> if trim u = [] then None else Some (trim u))"

definition resolve_su :: "secrets \<Rightarrow> SessionRecord \<Rightarrow> (string, string option) result" where
  "resolve_su sx rec =
     (case su_user_of rec of
        None \<Rightarrow> Ok None
      | Some _ \<Rightarrow> optional_cred sx (sr_id rec) CkSuPassword ''su password is not UTF-8'')"

section \<open>Jump hosts\<close>

definition MAX_JUMP_DEPTH :: nat where
  "MAX_JUMP_DEPTH = 8"

definition hop_spec :: "TermOpenSpec \<Rightarrow> JumpHopSpec" where
  "hop_spec hop = \<lparr>js_host = to_host hop, js_port = to_port hop, js_user = to_user hop, js_auth = to_auth hop\<rparr>"

text \<open>The loop over the hops of a session; the visited set goes through all of them.\<close>

fun resolve_hops ::
  "(string \<Rightarrow> string list \<Rightarrow> (string, TermOpenSpec) result option \<times> string list) \<Rightarrow>
   string list \<Rightarrow> string list \<Rightarrow> (string, JumpHopSpec list) result option \<times> string list" where
  "resolve_hops res [] visited = (Some (Ok []), visited)"
| "resolve_hops res (h # hs) visited =
     (case res h visited of
        (None, visited) \<Rightarrow> (None, visited)
      | (Some (Inl e), visited) \<Rightarrow> (Some (Err e), visited)
      | (Some (Inr hop), visited) \<Rightarrow>
          (case resolve_hops res hs visited of
             (Some (Inr rest), visited) \<Rightarrow> (Some (Ok (to_jump_chain hop @ hop_spec hop # rest)), visited)
           | r \<Rightarrow> r))"

fun resolve_spec_inner ::
  "nat \<Rightarrow> secrets \<Rightarrow> store \<Rightarrow> string \<Rightarrow> string list \<Rightarrow> (string, TermOpenSpec) result option \<times> string list" where
  "resolve_spec_inner 0 sx st i visited = (None, visited)"
| "resolve_spec_inner (Suc n) sx st i visited =
     (if i \<in> set visited then (Some (Err (''cycle in the jump chain: '' @ i)), visited)
      else if length (i # visited) > MAX_JUMP_DEPTH then (Some (Err ''more jumps than the limit''), i # visited)
      else case session_get st i of
             Inl e \<Rightarrow> (Some (Err (store_error_str e)), i # visited)
           | Inr rec \<Rightarrow>
               if sr_kind rec = KindLocal then (Some (Err (''local session '' @ sr_name rec)), i # visited)
               else (case resolve_auth sx rec of
                       Inl e \<Rightarrow> (Some (Err e), i # visited)
                     | Inr auth \<Rightarrow>
                         (case resolve_hops (resolve_spec_inner n sx st) (sr_jump_chain rec) (i # visited) of
                            (None, visited) \<Rightarrow> (None, visited)
                          | (Some (Inl e), visited) \<Rightarrow> (Some (Err e), visited)
                          | (Some (Inr chain), visited) \<Rightarrow>
                              (case resolve_su sx rec of
                                 Inl e \<Rightarrow> (Some (Err e), visited)
                               | Inr su \<Rightarrow>
                                   (Some (Ok \<lparr>to_host = sr_host rec, to_port = sr_port rec, to_user = sr_user rec, to_auth = auth,
                                              to_jump_chain = chain, to_term = None, to_command = sr_command rec,
                                              to_encoding = sr_encoding rec, to_su_user = su_user_of rec, to_su_password = su,
                                              to_login_macro = sr_login_macro rec\<rparr>), visited)))))"

definition resolve_session_spec :: "secrets \<Rightarrow> store \<Rightarrow> string \<Rightarrow> (string, TermOpenSpec) result option" where
  "resolve_session_spec sx st i = fst (resolve_spec_inner (MAX_JUMP_DEPTH + 1) sx st i [])"

record LocalShellSpec =
  ls_shell :: "string option"
  ls_workdir :: "string option"
  ls_command :: "string option"
  ls_login_macro :: "string option"

datatype ResolvedTarget = TargetSsh TermOpenSpec | TargetLocal LocalShellSpec

definition resolve_session_target :: "secrets \<Rightarrow> store \<Rightarrow> string \<Rightarrow> (string, ResolvedTarget) result option" where
  "resolve_session_target sx st i =
     (case session_get st i of
        Inl e \<Rightarrow> Some (Err (store_error_str e))
      | Inr rec \<Rightarrow>
          if sr_kind rec = KindLocal
          then Some (Ok (TargetLocal \<lparr>ls_shell = sr_shell rec, ls_workdir = sr_workdir rec, ls_command = sr_command rec,
                                      ls_login_macro = sr_login_macro rec\<rparr>))
          else map_option (\<lambda>r. case r of Inl e \<Rightarrow> Err e | Inr spec \<Rightarrow> Ok (TargetSsh spec))
                 (fst (resolve_spec_inner (MAX_JUMP_DEPTH + 1) sx st i [])))"

text \<open>The chain of a connection test: the hops of the request, from an empty visited set.\<close>

definition test_connect_chain :: "secrets \<Rightarrow> store \<Rightarrow> string list \<Rightarrow> (string, JumpHopSpec list) result option" where
  "test_connect_chain sx st hops = fst (resolve_hops (resolve_spec_inner (MAX_JUMP_DEPTH + 1) sx st) hops [])"

text \<open>The prompter of a connection test: a new host once, a changed key never.\<close>

fun test_prompter :: "HostKeyPrompt \<Rightarrow> HostKeyDecision" where
  "test_prompter (PromptUnknown _ _ _ _) = AcceptOnce"
| "test_prompter (PromptChanged _ _ _ _ _) = Reject"

section \<open>Nine levels are enough\<close>

definition visits :: "(string, 'a) result option \<times> string list \<Rightarrow> string list \<Rightarrow> bool" where
  "visits r visited \<longleftrightarrow> distinct (snd r) \<and> (\<exists>new. snd r = new @ visited)"

lemma resolve_hops_invariant:
  assumes "\<And>h v. distinct v \<Longrightarrow> k \<le> length v \<Longrightarrow> visits (res h v) v \<and> fst (res h v) \<noteq> None"
    and "distinct visited" "k \<le> length visited"
  shows "visits (resolve_hops res hs visited) visited \<and> fst (resolve_hops res hs visited) \<noteq> None"
  using assms(2,3)
proof (induction hs arbitrary: visited)
  case Nil
  then show ?case by (simp add: visits_def)
next
  case (Cons h hs)
  obtain r v where rv: "res h visited = (r, v)" by fastforce
  with assms(1) [OF Cons.prems, of h] obtain new where v: "distinct v" "v = new @ visited" "r \<noteq> None"
    by (auto simp: visits_def)
  then have "k \<le> length v" using Cons.prems(2) by simp
  with Cons.IH [OF v(1)] rv v show ?case
    by (auto simp: visits_def split: sum.splits prod.splits option.splits)
qed

lemma resolve_spec_inner_invariant:
  assumes "distinct visited" "9 \<le> n + length visited" "0 < n"
  shows "visits (resolve_spec_inner n sx st i visited) visited \<and> fst (resolve_spec_inner n sx st i visited) \<noteq> None"
  using assms
proof (induction n arbitrary: i visited)
  case (Suc n)
  show ?case
  proof (cases "i \<in> set visited \<or> length visited \<ge> 8")
    case True
    then show ?thesis using Suc.prems by (auto simp: visits_def MAX_JUMP_DEPTH_def)
  next
    case False
    then have n: "0 < n" using Suc.prems(2) by simp
    have IH: "visits (resolve_spec_inner n sx st h v) v \<and> fst (resolve_spec_inner n sx st h v) \<noteq> None"
      if "distinct v" "length (i # visited) \<le> length v" for h v
      using Suc.IH [of v h] that Suc.prems(2) n by simp
    have d: "distinct (i # visited)" using Suc.prems False by simp
    show ?thesis
    proof (cases "session_get st i")
      case (Inl e)
      then show ?thesis using False d by (simp add: visits_def MAX_JUMP_DEPTH_def)
    next
      case (Inr rec)
      obtain r v where rv: "resolve_hops (resolve_spec_inner n sx st) (sr_jump_chain rec) (i # visited) = (r, v)" by fastforce
      with resolve_hops_invariant [of "length (i # visited)" "resolve_spec_inner n sx st" "i # visited", OF IH d order_refl, of "sr_jump_chain rec"]
      obtain new where "distinct v" "v = new @ i # visited" "r \<noteq> None" by (auto simp: visits_def)
      with Inr rv False d show ?thesis
        by (auto simp: visits_def MAX_JUMP_DEPTH_def split: sum.splits option.splits)
    qed
  qed
qed simp

section \<open>The chain of a session\<close>

text \<open>The hops of a session in the order in which they are passed, those of a hop before it.\<close>

fun expand :: "nat \<Rightarrow> store \<Rightarrow> string \<Rightarrow> string list" where
  "expand 0 st i = []"
| "expand (Suc n) st i =
     (case session_get st i of
        Inl _ \<Rightarrow> []
      | Inr rec \<Rightarrow> concat (map (\<lambda>h. expand n st h @ [h]) (sr_jump_chain rec)))"

text \<open>A hop carries what its session stores.\<close>

definition hop_of :: "secrets \<Rightarrow> store \<Rightarrow> JumpHopSpec \<Rightarrow> string \<Rightarrow> bool" where
  "hop_of sx st h i \<longleftrightarrow>
     (case session_get st i of
        Inl _ \<Rightarrow> False
      | Inr rec \<Rightarrow> sr_kind rec = KindSsh \<and> js_host h = sr_host rec \<and> js_port h = sr_port rec \<and> js_user h = sr_user rec \<and>
                   resolve_auth sx rec = Ok (js_auth h))"

definition resolved :: "secrets \<Rightarrow> store \<Rightarrow> JumpHopSpec list \<Rightarrow> string list \<Rightarrow> string list \<Rightarrow> string list \<Rightarrow> bool" where
  "resolved sx st chain ids visited v \<longleftrightarrow>
     list_all2 (hop_of sx st) chain ids \<and> mset v = mset (ids @ visited) \<and> (visited \<noteq> v \<longrightarrow> length v \<le> MAX_JUMP_DEPTH)"

lemma list_all2_snoc [simp]: "list_all2 P (xs @ [x]) (ys @ [y]) \<longleftrightarrow> list_all2 P xs ys \<and> P x y"
  using list_all2_rev [of P "xs @ [x]" "ys @ [y]"] list_all2_rev [of P xs ys] by auto

lemma resolve_hops_resolved:
  assumes "\<And>h v hop v'. res h v = (Some (Ok hop), v') \<Longrightarrow>
             resolved sx st (to_jump_chain hop @ [hop_spec hop]) (ex h @ [h]) v v'"
    and "resolve_hops res hs visited = (Some (Ok chain), v)"
  shows "resolved sx st chain (concat (map (\<lambda>h. ex h @ [h]) hs)) visited v"
  using assms(2)
proof (induction hs arbitrary: visited chain)
  case Nil
  then show ?case by (simp add: resolved_def)
next
  case (Cons h hs)
  then obtain hop v1 rest where h: "res h visited = (Some (Ok hop), v1)"
    and r: "resolve_hops res hs v1 = (Some (Ok rest), v)" and c: "chain = to_jump_chain hop @ hop_spec hop # rest"
    by (auto split: prod.splits option.splits sum.splits)
  have "list_all2 (hop_of sx st) ((to_jump_chain hop @ [hop_spec hop]) @ rest) ((ex h @ [h]) @ concat (map (\<lambda>h. ex h @ [h]) hs))"
    using assms(1) [OF h] Cons.IH [OF r] unfolding resolved_def by (intro list_all2_appendI) auto
  with assms(1) [OF h] Cons.IH [OF r] show ?case
    unfolding c resolved_def by auto
qed

lemma resolve_spec_inner_resolved:
  assumes "resolve_spec_inner n sx st i visited = (Some (Ok spec), v)"
  shows "resolved sx st (to_jump_chain spec @ [hop_spec spec]) (expand n st i @ [i]) visited v"
  using assms
proof (induction n arbitrary: i visited spec v)
  case (Suc n)
  from Suc.prems obtain rec auth chain su where i: "i \<notin> set visited" "length visited < 8" "session_get st i = Ok rec"
    "sr_kind rec = KindSsh" "resolve_auth sx rec = Ok auth"
    and hops: "resolve_hops (resolve_spec_inner n sx st) (sr_jump_chain rec) (i # visited) = (Some (Ok chain), v)"
    and spec: "to_jump_chain spec = chain" "hop_spec spec = \<lparr>js_host = sr_host rec, js_port = sr_port rec, js_user = sr_user rec, js_auth = auth\<rparr>"
    by (cases "sr_kind (projr (session_get st i))")
       (auto simp: MAX_JUMP_DEPTH_def hop_spec_def split: if_splits sum.splits prod.splits option.splits)
  have "resolved sx st chain (concat (map (\<lambda>h. expand n st h @ [h]) (sr_jump_chain rec))) (i # visited) v"
    by (rule resolve_hops_resolved [OF Suc.IH hops])
  then show ?case
    using i spec by (auto simp: resolved_def hop_of_def MAX_JUMP_DEPTH_def)
qed simp

text \<open>
  C26. Resolving a session always ends, nine levels deep at most. When it succeeds, the jump chain
  is the flattened chain of the stored sessions, nearest first and the hops of a hop before
  it, each hop with the address, user and credentials stored for it; it has at most seven
  hops, no session twice, and none that is local.
\<close>

theorem jump_chain_is_flattened:
  "\<exists>r. resolve_session_spec sx st i = Some r \<and>
     (\<forall>spec. r = Ok spec \<longrightarrow>
        list_all2 (hop_of sx st) (to_jump_chain spec) (expand 9 st i) \<and> distinct (expand 9 st i @ [i]) \<and>
        length (to_jump_chain spec) \<le> 7)"
proof -
  obtain r v where rv: "resolve_spec_inner 9 sx st i [] = (r, v)" by fastforce
  with resolve_spec_inner_invariant [of "[]" 9 sx st i] have "r \<noteq> None" and v: "distinct v" by (auto simp: visits_def)
  then obtain r' where r': "r = Some r'" by blast
  have "list_all2 (hop_of sx st) (to_jump_chain spec) (expand 9 st i) \<and> distinct (expand 9 st i @ [i]) \<and> length (to_jump_chain spec) \<le> 7"
    if "r' = Ok spec" for spec
  proof -
    have "resolved sx st (to_jump_chain spec @ [hop_spec spec]) (expand 9 st i @ [i]) [] v"
      using resolve_spec_inner_resolved rv r' that by simp
    then have l: "list_all2 (hop_of sx st) (to_jump_chain spec) (expand 9 st i)" and m: "mset v = mset (expand 9 st i @ [i])" and "length v \<le> 8"
      by (auto simp: resolved_def MAX_JUMP_DEPTH_def)
    moreover have "length v = Suc (length (expand 9 st i))" using mset_eq_length [OF m] by simp
    moreover have "distinct (expand 9 st i @ [i])" using mset_eq_imp_distinct_iff [OF m] v by simp
    ultimately show ?thesis using list_all2_lengthD [OF l] by simp
  qed
  then show ?thesis using rv r' by (auto simp: resolve_session_spec_def MAX_JUMP_DEPTH_def)
qed

definition agent_secrets :: secrets where
  "agent_secrets = \<lparr>sx_cred = (\<lambda>_ _. None), sx_utf8 = (\<lambda>_. None), sx_key_file = (\<lambda>p. Err p)\<rparr>"

text \<open>A session behind two jump hosts, the nearer of which is itself behind a third.\<close>

definition chained_store :: store where
  "chained_store = \<lparr>st_sessions = [sample_session ''t'' [] [''a'', ''b''], sample_session ''a'' [] [''c''], sample_session ''b'' [] [],
                                  sample_session ''c'' [] []], st_creds = []\<rparr>"

theorem jump_chain_is_flattened_witness:
  "\<exists>spec. resolve_session_spec agent_secrets chained_store ''t'' = Some (Ok spec) \<and>
     list_all2 (hop_of agent_secrets chained_store) (to_jump_chain spec) (expand 9 chained_store ''t'') \<and>
     expand 9 chained_store ''t'' = [''c'', ''a'', ''b'']"
proof -
  have e: "expand 9 chained_store ''t'' = [''c'', ''a'', ''b'']" by code_simp
  have "case resolve_session_spec agent_secrets chained_store ''t'' of Some (Inr _) \<Rightarrow> True | _ \<Rightarrow> False" by code_simp
  then obtain spec where r: "resolve_session_spec agent_secrets chained_store ''t'' = Some (Ok spec)"
    by (auto split: option.splits sum.splits)
  with jump_chain_is_flattened [of agent_secrets chained_store "''t''"] e show ?thesis by auto
qed

section \<open>The limit\<close>

text \<open>A session that resolves and needs no jump host.\<close>

definition simple_hop :: "secrets \<Rightarrow> store \<Rightarrow> string \<Rightarrow> bool" where
  "simple_hop sx st h \<longleftrightarrow>
     (case session_get st h of
        Inl _ \<Rightarrow> False
      | Inr rec \<Rightarrow> sr_kind rec = KindSsh \<and> sr_jump_chain rec = [] \<and>
                   (\<exists>auth su. resolve_auth sx rec = Ok auth \<and> resolve_su sx rec = Ok su))"

lemma simple_hop_resolves:
  assumes "simple_hop sx st h" "h \<notin> set visited" "length visited < 8"
  shows "\<exists>hop. resolve_spec_inner (Suc n) sx st h visited = (Some (Ok hop), h # visited) \<and> to_jump_chain hop = []"
  using assms by (auto simp: simple_hop_def MAX_JUMP_DEPTH_def split: sum.splits)

lemma simple_hops_resolve:
  assumes "list_all (simple_hop sx st) hs" "distinct hs" "set hs \<inter> set visited = {}" "length hs + length visited \<le> 8"
  shows "\<exists>chain. resolve_hops (resolve_spec_inner (Suc n) sx st) hs visited = (Some (Ok chain), rev hs @ visited) \<and> length chain = length hs"
  using assms
proof (induction hs arbitrary: visited)
  case (Cons h hs)
  then obtain hop where h: "resolve_spec_inner (Suc n) sx st h visited = (Some (Ok hop), h # visited)" "to_jump_chain hop = []"
    using simple_hop_resolves [of sx st h visited n] by (auto simp del: resolve_spec_inner.simps)
  obtain chain where "resolve_hops (resolve_spec_inner (Suc n) sx st) hs (h # visited) = (Some (Ok chain), rev hs @ h # visited)"
    "length chain = length hs"
    using Cons.IH [of "h # visited"] Cons.prems by (auto simp del: resolve_spec_inner.simps)
  with h show ?case by (simp del: resolve_spec_inner.simps)
qed simp

lemma resolve_hops_append:
  assumes "resolve_hops res hs visited = (Some (Ok chain), v)" "res h v = (Some (Err e), v')"
  shows "resolve_hops res (hs @ [h]) visited = (Some (Err e), v')"
  using assms(1)
proof (induction hs arbitrary: visited chain)
  case Nil
  then show ?case using assms(2) by simp
next
  case (Cons k hs)
  then show ?case by (auto split: prod.splits option.splits sum.splits)
qed

text \<open>
  The limit is announced as eight jumps, but the session itself counts as one: a session
  with eight resolvable jump hosts cannot be opened, while the connection test of the same
  chain resolves all eight of them.
\<close>

theorem eight_jumps_are_refused:
  assumes "session_get st i = Ok rec" "sr_kind rec = KindSsh" "resolve_auth sx rec = Ok auth"
    and "sr_jump_chain rec = hops" "length hops = 8" "distinct (i # hops)" "list_all (simple_hop sx st) hops"
  shows "resolve_session_spec sx st i = Some (Err ''more jumps than the limit'') \<and>
         (\<exists>chain. test_connect_chain sx st hops = Some (Ok chain) \<and> length chain = 8)"
proof
  obtain front h where hops: "hops = front @ [h]" using assms(5) by (cases hops rule: rev_cases) auto
  obtain chain where c: "resolve_hops (resolve_spec_inner 8 sx st) front [i] = (Some (Ok chain), rev front @ [i])"
    using simple_hops_resolve [of sx st front "[i]" 7] assms(5-7) hops by (auto simp del: resolve_spec_inner.simps)
  have "resolve_spec_inner (Suc 7) sx st h (rev front @ [i]) = (Some (Err ''more jumps than the limit''), h # rev front @ [i])"
    unfolding resolve_spec_inner.simps(2) using assms(5,6) hops by (auto simp: MAX_JUMP_DEPTH_def)
  from resolve_hops_append [OF c, of h] this hops
  have "resolve_hops (resolve_spec_inner 8 sx st) hops [i] = (Some (Err ''more jumps than the limit''), h # rev front @ [i])"
    by simp
  then show "resolve_session_spec sx st i = Some (Err ''more jumps than the limit'')"
    using assms(1-4,6) resolve_spec_inner.simps(2) [of 8 sx st i "[]"] by (simp add: resolve_session_spec_def MAX_JUMP_DEPTH_def)
  show "\<exists>chain. test_connect_chain sx st hops = Some (Ok chain) \<and> length chain = 8"
    using simple_hops_resolve [of sx st hops "[]" 8] assms(5-7) by (auto simp: test_connect_chain_def MAX_JUMP_DEPTH_def simp del: resolve_spec_inner.simps)
qed

definition eight_store :: store where
  "eight_store = \<lparr>st_sessions = sample_session ''t'' [] (map (\<lambda>c. [c]) ''12345678'') # map (\<lambda>c. sample_session [c] [] []) ''12345678'',
                  st_creds = []\<rparr>"

theorem eight_jumps_are_refused_witness:
  "resolve_session_spec agent_secrets eight_store ''t'' = Some (Err ''more jumps than the limit'') \<and>
   (\<exists>chain. test_connect_chain agent_secrets eight_store (map (\<lambda>c. [c]) ''12345678'') = Some (Ok chain) \<and> length chain = 8)"
proof (rule eight_jumps_are_refused)
  show "session_get eight_store ''t'' = Ok (sample_session ''t'' [] (map (\<lambda>c. [c]) ''12345678''))"
    by (simp add: session_get_def eight_store_def sample_session_def)
qed (simp_all add: session_get_def eight_store_def sample_session_def simple_hop_def resolve_auth_def resolve_su_def su_user_of_def)

end
