(* ===== verification/Mcp_Server.thy ===== *)
theory Mcp_Server
  imports Policy_Classifier Policy_Rate
begin

text \<open>
  The MCP server, \<^verbatim>\<open>src/crates/app/src/mcp.rs\<close>: its settings, the permissions of its tools,
  the JSON-RPC endpoint, and \<open>ssh_exec\<close>, which puts a command through the rate limiter and
  the classifier before it runs it.

  A request is a function of the server's state and of an environment: what the store knows
  of a session, how a session resolves, the clock, how a command run ends, and what
  serde\_json makes of a text. What a request does to the outside is its list of effects;
  the terminal tools are modelled in \<open>Mcp_Terminal\<close>, and of the SFTP tools only the
  dispatch is. Tool schemas are left out of \<open>tools/list\<close>, and message texts are rendered in
  ASCII.
\<close>

section \<open>JSON\<close>

text \<open>A number is what \<open>as_u64\<close> reads of it.\<close>

datatype Value =
  VNull | VBool bool | VNumber "u64 option" | VString string | VArray "Value list" | VObject "(string \<times> Value) list"

fun json_get :: "Value \<Rightarrow> string \<Rightarrow> Value option" where
  "json_get (VObject kvs) k = map_of kvs k"
| "json_get _ k = None"

fun as_str :: "Value \<Rightarrow> string option" where
  "as_str (VString s) = Some s"
| "as_str _ = None"

fun as_u64 :: "Value \<Rightarrow> u64 option" where
  "as_u64 (VNumber n) = n"
| "as_u64 _ = None"

fun is_object :: "Value \<Rightarrow> bool" where
  "is_object (VObject _) = True"
| "is_object _ = False"

definition get_str :: "Value \<Rightarrow> string \<Rightarrow> string option" where
  "get_str v k = Option.bind (json_get v k) as_str"

definition get_u64 :: "Value \<Rightarrow> string \<Rightarrow> u64 option" where
  "get_u64 v k = Option.bind (json_get v k) as_u64"

section \<open>Settings\<close>

definition DEFAULT_PORT :: u16 where "DEFAULT_PORT = 17345"
definition DEFAULT_TIMEOUT_MS :: u64 where "DEFAULT_TIMEOUT_MS = 30000"
definition MAX_TIMEOUT_MS :: u64 where "MAX_TIMEOUT_MS = 120000"
definition OUTPUT_CAP :: nat where "OUTPUT_CAP = 64 * 1024"
definition DEFAULT_RATE_PER_MINUTE :: u32 where "DEFAULT_RATE_PER_MINUTE = 60"

record McpPerms =
  mp_list_sessions :: bool
  mp_ssh_exec :: bool
  mp_sftp_read :: bool
  mp_sftp_write :: bool
  mp_sftp_transfer :: bool

definition perms_default :: McpPerms where
  "perms_default =
     \<lparr>mp_list_sessions = True, mp_ssh_exec = True, mp_sftp_read = True, mp_sftp_write = True, mp_sftp_transfer = True\<rparr>"

text \<open>\<open>from_str\<close> is serde\_json's parser.\<close>

definition parse_bool_setting :: "(string \<Rightarrow> Value option) \<Rightarrow> string option \<Rightarrow> bool" where
  "parse_bool_setting from_str raw =
     (case raw of
        None \<Rightarrow> False
      | Some t \<Rightarrow>
          (case from_str t of
             Some (VBool b) \<Rightarrow> b
           | Some (VString s) \<Rightarrow> s = ''true''
           | _ \<Rightarrow> trim t = ''true''))"

definition parse_allow_setting :: "(string \<Rightarrow> Value option) \<Rightarrow> string option \<Rightarrow> bool" where
  "parse_allow_setting from_str raw = (case raw of None \<Rightarrow> True | Some t \<Rightarrow> parse_bool_setting from_str (Some t))"

definition number_setting :: "(string \<Rightarrow> Value option) \<Rightarrow> string \<Rightarrow> u64 option" where
  "number_setting from_str t =
     (case from_str t of
        Some (VNumber n) \<Rightarrow> n
      | Some (VString s) \<Rightarrow> parse_uint (trim s)
      | _ \<Rightarrow> parse_uint (trim t))"

definition parse_port_setting :: "(string \<Rightarrow> Value option) \<Rightarrow> string option \<Rightarrow> u16" where
  "parse_port_setting from_str raw =
     (case raw of
        None \<Rightarrow> DEFAULT_PORT
      | Some t \<Rightarrow>
          (case number_setting from_str t of
             Some v \<Rightarrow> if 1 \<le> v \<and> v \<le> 65535 then ucast v else DEFAULT_PORT
           | None \<Rightarrow> DEFAULT_PORT))"

definition parse_rate_setting :: "(string \<Rightarrow> Value option) \<Rightarrow> string option \<Rightarrow> u32" where
  "parse_rate_setting from_str raw =
     (case raw of
        None \<Rightarrow> DEFAULT_RATE_PER_MINUTE
      | Some t \<Rightarrow>
          (case number_setting from_str t of
             Some v \<Rightarrow> if 1 \<le> v \<and> v \<le> 3600 then ucast v else DEFAULT_RATE_PER_MINUTE
           | None \<Rightarrow> DEFAULT_RATE_PER_MINUTE))"

definition parse_token_setting :: "(string \<Rightarrow> Value option) \<Rightarrow> string option \<Rightarrow> string option" where
  "parse_token_setting from_str raw =
     (case raw of
        None \<Rightarrow> None
      | Some t \<Rightarrow>
          (let token = (case from_str t of Some (VString s) \<Rightarrow> s | _ \<Rightarrow> trim t)
           in if token = [] then None else Some token))"

record McpConfig =
  mc_enabled :: bool
  mc_port :: u16
  mc_token :: "string option"
  mc_perms :: McpPerms
  mc_rate_per_minute :: u32

text \<open>\<open>settings\<close> is the key-value table of the store, an error of which ends the reading.\<close>

definition read_mcp_config ::
  "(string \<Rightarrow> Value option) \<Rightarrow> (string \<Rightarrow> (string, string option) result) \<Rightarrow> (string, McpConfig) result" where
  "read_mcp_config from_str settings =
     (let keys = [''mcp.enabled'', ''mcp.port'', ''mcp.token'', ''mcp.allow.list_sessions'', ''mcp.allow.ssh_exec'',
                  ''mcp.allow.sftp_read'', ''mcp.allow.sftp_write'', ''mcp.allow.sftp_transfer'', ''mcp.rate_limit_per_minute''];
          val = (\<lambda>k. case settings k of Inr v \<Rightarrow> v | Inl _ \<Rightarrow> None)
      in case find (\<lambda>k. isl (settings k)) keys of
           Some k \<Rightarrow> Err (projl (settings k))
         | None \<Rightarrow>
             Ok \<lparr>mc_enabled = parse_bool_setting from_str (val ''mcp.enabled''),
                 mc_port = parse_port_setting from_str (val ''mcp.port''),
                 mc_token = parse_token_setting from_str (val ''mcp.token''),
                 mc_perms = \<lparr>mp_list_sessions = parse_allow_setting from_str (val ''mcp.allow.list_sessions''),
                   mp_ssh_exec = parse_allow_setting from_str (val ''mcp.allow.ssh_exec''),
                   mp_sftp_read = parse_allow_setting from_str (val ''mcp.allow.sftp_read''),
                   mp_sftp_write = parse_allow_setting from_str (val ''mcp.allow.sftp_write''),
                   mp_sftp_transfer = parse_allow_setting from_str (val ''mcp.allow.sftp_transfer'')\<rparr>,
                 mc_rate_per_minute = parse_rate_setting from_str (val ''mcp.rate_limit_per_minute'')\<rparr>)"

text \<open>\<open>random\<close> are the 32 bytes of the generator. The second component is what is stored as \<open>mcp.token\<close>.\<close>

definition hex_byte :: "u8 \<Rightarrow> string" where
  "hex_byte b =
     (let d = (\<lambda>n. char_of (if n < 10 then 48 + n else 87 + n)) in [d (unat b div 16), d (unat b mod 16)])"

definition gen_token :: "u8 list \<Rightarrow> string" where
  "gen_token random = concat (map hex_byte random)"

definition ensure_token :: "u8 list \<Rightarrow> string option \<Rightarrow> string \<times> Value option" where
  "ensure_token random token =
     (let generated = (gen_token random, Some (VString (gen_token random)))
      in case token of Some t \<Rightarrow> if t \<noteq> [] then (t, None) else generated | None \<Rightarrow> generated)"

section \<open>Permissions\<close>

definition tool_group_key :: "string \<Rightarrow> string option" where
  "tool_group_key name =
     (if name = ''list_sessions'' then Some ''list_sessions''
      else if name = ''ssh_exec'' then Some ''ssh_exec''
      else if name \<in> {''terminal_open'', ''terminal_send'', ''terminal_read'', ''terminal_close''} then Some ''ssh_exec''
      else if name \<in> {''sftp_home'', ''sftp_list'', ''sftp_stat'', ''sftp_read''} then Some ''sftp_read''
      else if name \<in> {''sftp_write'', ''sftp_mkdir'', ''sftp_delete'', ''sftp_rename'', ''sftp_chmod''} then Some ''sftp_write''
      else if name \<in> {''sftp_upload'', ''sftp_download'', ''sftp_transfer_list''} then Some ''sftp_transfer''
      else None)"

definition allows :: "McpPerms \<Rightarrow> string \<Rightarrow> bool" where
  "allows p name =
     (case tool_group_key name of
        None \<Rightarrow> True
      | Some k \<Rightarrow>
          if k = ''list_sessions'' then mp_list_sessions p
          else if k = ''ssh_exec'' then mp_ssh_exec p
          else if k = ''sftp_read'' then mp_sftp_read p
          else if k = ''sftp_write'' then mp_sftp_write p
          else if k = ''sftp_transfer'' then mp_sftp_transfer p
          else True)"

text \<open>\<open>sessions sid\<close> are the overrides of a stored session, \<open>None\<close> when it cannot be read.\<close>

definition tool_allowed :: "McpPerms \<Rightarrow> (string \<Rightarrow> (string \<rightharpoonup> bool) option) \<Rightarrow> string \<Rightarrow> Value \<Rightarrow> bool" where
  "tool_allowed p sessions name args =
     (case (tool_group_key name, get_str args ''session_id'') of
        (Some key, Some sid) \<Rightarrow>
          (case sessions sid of
             Some ov \<Rightarrow> (case ov key of Some b \<Rightarrow> b | None \<Rightarrow> allows p name)
           | None \<Rightarrow> allows p name)
      | _ \<Rightarrow> allows p name)"

definition TOOLS :: "string list" where
  "TOOLS =
     [''list_sessions'', ''ssh_exec'', ''terminal_open'', ''terminal_send'', ''terminal_read'', ''terminal_close'',
      ''sftp_home'', ''sftp_list'', ''sftp_stat'', ''sftp_read'', ''sftp_write'', ''sftp_mkdir'', ''sftp_delete'',
      ''sftp_rename'', ''sftp_chmod'', ''sftp_upload'', ''sftp_download'', ''sftp_transfer_list'']"

definition tools_list :: "McpPerms \<Rightarrow> Value" where
  "tools_list p = VObject [(''tools'', VArray (map (\<lambda>n. VObject [(''name'', VString n)]) (filter (allows p) TOOLS)))]"

section \<open>Output of a command\<close>

datatype ChannelMsg = Data "u8 list" | ExtendedData "u8 list" | ExitStatus u32 | MsgEof | MsgClose | MsgOther

text \<open>A buffer with its truncation flag, which both streams share.\<close>

definition push_capped :: "u8 list \<Rightarrow> u8 list \<Rightarrow> bool \<Rightarrow> u8 list \<times> bool" where
  "push_capped buf data truncated =
     (let room = OUTPUT_CAP - length buf
      in if length data \<le> room then (buf @ data, truncated) else (buf @ take room data, True))"

record run_body =
  rb_stdout :: "u8 list"
  rb_stderr :: "u8 list"
  rb_truncated :: bool
  rb_exit :: "u32 option"

definition body_new :: run_body where
  "body_new = \<lparr>rb_stdout = [], rb_stderr = [], rb_truncated = False, rb_exit = None\<rparr>"

fun collect :: "ChannelMsg list \<Rightarrow> run_body \<Rightarrow> run_body" where
  "collect [] b = b"
| "collect (Data d # ms) b =
     (let (buf, t) = push_capped (rb_stdout b) d (rb_truncated b) in collect ms (b\<lparr>rb_stdout := buf, rb_truncated := t\<rparr>))"
| "collect (ExtendedData d # ms) b =
     (let (buf, t) = push_capped (rb_stderr b) d (rb_truncated b) in collect ms (b\<lparr>rb_stderr := buf, rb_truncated := t\<rparr>))"
| "collect (ExitStatus c # ms) b = collect ms (b\<lparr>rb_exit := Some c\<rparr>)"
| "collect (MsgEof # ms) b = b"
| "collect (MsgClose # ms) b = b"
| "collect (MsgOther # ms) b = collect ms b"

text \<open>\<open>ssh_exec_inner\<close>: the channel and the request may fail, else the messages are collected.\<close>

definition ssh_exec_inner :: "(string, ChannelMsg list) result \<Rightarrow> (string, run_body) result" where
  "ssh_exec_inner ch = (case ch of Inl e \<Rightarrow> Err e | Inr ms \<Rightarrow> Ok (collect ms body_new))"

section \<open>Tools\<close>

record audit =
  au_session :: string
  au_action :: string
  au_detail :: Value

record ServerState =
  sv_token :: string
  sv_perms :: McpPerms
  sv_policy :: PolicyEngine
  sv_rate :: RateLimiter
  sv_audit :: "audit list"

datatype target = SshTarget | LocalTarget

text \<open>\<open>env_run\<close> is how the run of a command ends, \<open>None\<close> at the time limit.\<close>

record env =
  env_from_str :: "string \<Rightarrow> Value option"
  env_pretty :: "Value \<Rightarrow> string"
  env_lossy :: "u8 list \<Rightarrow> string"
  env_sessions :: "string \<Rightarrow> (string \<rightharpoonup> bool) option"
  env_target :: "string \<Rightarrow> (string, target) result"
  env_clock :: clock
  env_run :: "string \<Rightarrow> string \<Rightarrow> (string, ChannelMsg list) result option"
  env_elapsed :: u64
  env_list :: "(string, string) result"
  env_terminal :: "string \<Rightarrow> Value \<Rightarrow> (string, string) result"
  env_sftp :: "string \<Rightarrow> Value \<Rightarrow> (string, string) result"

datatype effect = RunCommand string string | ListSessions | TerminalTool string Value | SftpTool string Value

definition ok_content :: "string \<Rightarrow> Value" where
  "ok_content t = VObject [(''content'', VArray [VObject [(''type'', VString ''text''), (''text'', VString t)]])]"

definition err_content :: "string \<Rightarrow> Value" where
  "err_content t =
     VObject [(''content'', VArray [VObject [(''type'', VString ''text''), (''text'', VString t)]]), (''isError'', VBool True)]"

definition content_of :: "(string, string) result \<Rightarrow> Value" where
  "content_of r = (case r of Inr t \<Rightarrow> ok_content t | Inl e \<Rightarrow> err_content e)"

definition mcp_audit :: "string \<Rightarrow> string \<Rightarrow> Value \<Rightarrow> ServerState \<Rightarrow> ServerState" where
  "mcp_audit sid action detail st =
     st\<lparr>sv_audit := sv_audit st @ [\<lparr>au_session = sid, au_action = action, au_detail = detail\<rparr>]\<rparr>"

definition exit_value :: "u32 option \<Rightarrow> Value" where
  "exit_value c = (case c of None \<Rightarrow> VNull | Some n \<Rightarrow> VNumber (Some (ucast n)))"

definition body_json :: "env \<Rightarrow> run_body \<Rightarrow> Value" where
  "body_json en b =
     VObject [(''exitCode'', exit_value (rb_exit b)), (''stdout'', VString (env_lossy en (rb_stdout b))),
       (''stderr'', VString (env_lossy en (rb_stderr b))), (''truncated'', VBool (rb_truncated b)),
       (''durationMs'', VNumber (Some (env_elapsed en)))]"

definition deny_reason :: "Verdict \<Rightarrow> string option" where
  "deny_reason v =
     (case v of
        Allow \<Rightarrow> None
      | Deny \<Rightarrow> Some ''outside the read-only whitelist''
      | RequireConfirmation \<Rightarrow> Some ''needs confirmation'')"

definition exec_audit :: "string \<Rightarrow> string \<Rightarrow> (string \<times> Value) list \<Rightarrow> string \<Rightarrow> ServerState \<Rightarrow> ServerState" where
  "exec_audit sid command extra outcome st =
     mcp_audit sid ''mcp_ssh_exec'' (VObject ([(''command'', VString command), (''result'', VString outcome)] @ extra)) st"

text \<open>The run of an accepted command: its audit entry and its answer.\<close>

definition exec_run :: "env \<Rightarrow> u64 \<Rightarrow> string \<Rightarrow> string \<Rightarrow> ServerState \<Rightarrow> (string, string) result \<times> ServerState" where
  "exec_run en timeout_ms sid command st =
     (let audit = (\<lambda>flag detail. exec_audit sid command [(''durationMs'', VNumber (Some (env_elapsed en))), (''detail'', detail)] flag st)
      in case env_run en sid command of
           None \<Rightarrow> (Err ''timeout'', audit ''timeout'' (VObject [(''timeoutMs'', VNumber (Some timeout_ms))]))
         | Some ch \<Rightarrow>
             (case ssh_exec_inner ch of
                Inl e \<Rightarrow> (Err e, audit ''error'' (VObject [(''error'', VString e)]))
              | Inr b \<Rightarrow>
                  (Ok (env_pretty en (body_json en b)),
                   audit ''ok'' (VObject [(''exitCode'', exit_value (rb_exit b)), (''truncated'', VBool (rb_truncated b))]))))"

definition clamp_timeout :: "u64 option \<Rightarrow> u64" where
  "clamp_timeout t =
     (let v = (case t of Some v \<Rightarrow> v | None \<Rightarrow> DEFAULT_TIMEOUT_MS) in min (max 1 v) MAX_TIMEOUT_MS)"

definition ssh_exec_tool ::
  "env \<Rightarrow> Value \<Rightarrow> ServerState \<Rightarrow> (string, string) result \<times> effect list \<times> ServerState" where
  "ssh_exec_tool en args st =
     (case get_str args ''session_id'' of
        None \<Rightarrow> (Err ''missing session_id'', [], st)
      | Some sid \<Rightarrow>
          (case get_str args ''command'' of
             None \<Rightarrow> (Err ''missing command'', [], st)
           | Some command \<Rightarrow>
               if command = [] then (Err ''missing command'', [], st)
               else
                 (let timeout_ms = clamp_timeout (get_u64 args ''timeout_ms'');
                      (rate, checked) = check (sv_rate st) sid (env_clock en);
                      st = st\<lparr>sv_rate := rate\<rparr>
                  in case checked of
                       Inl _ \<Rightarrow> (Err ''rate limit'', [], exec_audit sid command [] ''rate_limited'' st)
                     | Inr _ \<Rightarrow>
                         (case deny_reason (classify (sv_policy st) command Readonly False) of
                            Some reason \<Rightarrow>
                              (Err reason, [], exec_audit sid command [(''reason'', VString reason)] ''rejected'' st)
                          | None \<Rightarrow>
                              (case env_target en sid of
                                 Inl e \<Rightarrow> (Err e, [], st)
                               | Inr LocalTarget \<Rightarrow> (Err ''local session'', [], st)
                               | Inr SshTarget \<Rightarrow>
                                   (let (r, st) = exec_run en timeout_ms sid command st
                                    in (r, [RunCommand sid command], st)))))))"

definition call_tool :: "env \<Rightarrow> string \<Rightarrow> Value \<Rightarrow> ServerState \<Rightarrow> Value \<times> effect list \<times> ServerState" where
  "call_tool en name args st =
     (if \<not> tool_allowed (sv_perms st) (env_sessions en) name args then (err_content (''disabled: '' @ name), [], st)
      else if name = ''list_sessions'' then (content_of (env_list en), [ListSessions], st)
      else if name = ''ssh_exec'' then (let (r, effs, st) = ssh_exec_tool en args st in (content_of r, effs, st))
      else if starts_with name ''terminal_'' then (content_of (env_terminal en name args), [TerminalTool name args], st)
      else if starts_with name ''sftp_'' then (content_of (env_sftp en name args), [SftpTool name args], st)
      else (err_content (''unknown tool: '' @ name), [], st))"

section \<open>The endpoint\<close>

datatype Outcome = Accepted | Result Value | RpcError int string

definition dispatch :: "env \<Rightarrow> string \<Rightarrow> Value \<Rightarrow> ServerState \<Rightarrow> Outcome \<times> effect list \<times> ServerState" where
  "dispatch en method req st =
     (if method = ''initialize''
      then (Result (VObject [(''protocolVersion'', VString ''2025-03-26''),
              (''serverInfo'', VObject [(''name'', VString ''myssh'')]), (''capabilities'', VObject [(''tools'', VObject [])])]), [], st)
      else if method = ''notifications/initialized'' then (Accepted, [], st)
      else if method = ''ping'' then (Result (VObject []), [], st)
      else if method = ''tools/list'' then (Result (tools_list (sv_perms st)), [], st)
      else if method = ''tools/call''
      then (let params = (case json_get req ''params'' of Some v \<Rightarrow> v | None \<Rightarrow> VNull)
            in case get_str params ''name'' of
                 None \<Rightarrow> (RpcError (-32602) ''missing params.name'', [], st)
               | Some name \<Rightarrow>
                   (let args = (case json_get params ''arguments'' of Some v \<Rightarrow> v | None \<Rightarrow> VObject []);
                        (v, effs, st) = call_tool en name args st
                    in (Result v, effs, st)))
      else if starts_with method ''notifications/'' then (Accepted, [], st)
      else (RpcError (-32601) (''unknown method: '' @ method), [], st))"

record Response =
  rs_status :: nat
  rs_body :: "Value option"
  rs_session :: "string option"

definition rpc_error :: "Value \<Rightarrow> int \<Rightarrow> string \<Rightarrow> Value" where
  "rpc_error i code message =
     VObject [(''jsonrpc'', VString ''2.0''), (''id'', i),
       (''error'', VObject [(''code'', VNumber (if 0 \<le> code then Some (of_int code) else None)), (''message'', VString message)])]"

record headers =
  hd_authorization :: "string option"
  hd_session :: "string option"

definition respond :: "nat \<Rightarrow> Value option \<Rightarrow> headers \<Rightarrow> Response" where
  "respond status v hs = \<lparr>rs_status = status, rs_body = v, rs_session = hd_session hs\<rparr>"

definition authorized :: "string \<Rightarrow> headers \<Rightarrow> bool" where
  "authorized token hs \<longleftrightarrow>
     token = [] \<or> (case hd_authorization hs of None \<Rightarrow> False | Some v \<Rightarrow> starts_with v ''Bearer '' \<and> drop 7 v = token)"

definition mcp_post :: "env \<Rightarrow> headers \<Rightarrow> string \<Rightarrow> ServerState \<Rightarrow> Response \<times> effect list \<times> ServerState" where
  "mcp_post en hs body st =
     (if \<not> authorized (sv_token st) hs then (respond 401 (Some (rpc_error VNull (-32001) ''unauthorized'')) hs, [], st)
      else case env_from_str en body of
             None \<Rightarrow> (respond 200 (Some (rpc_error VNull (-32700) ''parse error'')) hs, [], st)
           | Some req \<Rightarrow>
               (let i = (case json_get req ''id'' of Some v \<Rightarrow> v | None \<Rightarrow> VNull);
                    notification = (json_get req ''id'' = None)
                in case get_str req ''method'' of
                     None \<Rightarrow> (respond 200 (Some (rpc_error i (-32600) ''invalid request'')) hs, [], st)
                   | Some method \<Rightarrow>
                       (let (out, effs, st) = dispatch en method req st
                        in ((case out of
                               Accepted \<Rightarrow> respond 202 None hs
                             | Result v \<Rightarrow>
                                 if notification then respond 202 None hs
                                 else respond 200 (Some (VObject [(''jsonrpc'', VString ''2.0''), (''id'', i), (''result'', v)])) hs
                             | RpcError code msg \<Rightarrow>
                                 if notification then respond 202 None hs else respond 200 (Some (rpc_error i code msg)) hs),
                            effs, st))))"

section \<open>The manager\<close>

record McpInner =
  mi_running :: bool
  mi_port :: u16
  mi_token :: string

text \<open>\<open>start\<close> stops a running server first; \<open>bind\<close> says whether the port can be bound.\<close>

definition mgr_stop :: "McpInner \<Rightarrow> McpInner" where
  "mgr_stop m = m\<lparr>mi_port := 0, mi_running := False\<rparr>"

definition server_new :: "string \<Rightarrow> McpPerms \<Rightarrow> u32 \<Rightarrow> ServerState" where
  "server_new token p rate =
     \<lparr>sv_token = token, sv_perms = p, sv_policy = engine_new, sv_rate = rate_new rate, sv_audit = []\<rparr>"

definition mgr_start ::
  "(u16 \<Rightarrow> bool) \<Rightarrow> u16 \<Rightarrow> string \<Rightarrow> McpPerms \<Rightarrow> u32 \<Rightarrow> McpInner \<Rightarrow> (string, ServerState) result \<times> McpInner" where
  "mgr_start bind port token p rate m =
     (let m = mgr_stop m
      in if bind port
         then (Ok (server_new token p rate), m\<lparr>mi_running := True, mi_port := port, mi_token := token\<rparr>)
         else (Err ''bind failed'', m))"

text \<open>\<open>None\<close>: nothing was started because the settings say so or cannot be read.\<close>

definition boot_from_settings ::
  "(string \<Rightarrow> Value option) \<Rightarrow> u8 list \<Rightarrow> (u16 \<Rightarrow> bool) \<Rightarrow> (string \<Rightarrow> (string, string option) result) \<Rightarrow> McpInner \<Rightarrow> ServerState option \<times> McpInner" where
  "boot_from_settings from_str random bind settings m =
     (case read_mcp_config from_str settings of
        Inl _ \<Rightarrow> (None, m)
      | Inr cfg \<Rightarrow>
          if \<not> mc_enabled cfg then (None, m)
          else (case mgr_start bind (mc_port cfg) (fst (ensure_token random (mc_token cfg))) (mc_perms cfg) (mc_rate_per_minute cfg) m of
                  (Inl _, m) \<Rightarrow> (None, m)
                | (Inr sv, m) \<Rightarrow> (Some sv, m)))"

definition restart_from_settings ::
  "(string \<Rightarrow> Value option) \<Rightarrow> u8 list \<Rightarrow> (u16 \<Rightarrow> bool) \<Rightarrow> (string \<Rightarrow> (string, string option) result) \<Rightarrow> McpInner \<Rightarrow> (string, ServerState option) result \<times> McpInner" where
  "restart_from_settings from_str random bind settings m =
     (let m = mgr_stop m
      in case read_mcp_config from_str settings of
           Inl e \<Rightarrow> (Err e, m)
         | Inr cfg \<Rightarrow>
             if \<not> mc_enabled cfg then (Ok None, m)
             else (let token = fst (ensure_token random (mc_token cfg))
                   in case mgr_start bind (mc_port cfg) token (mc_perms cfg) (mc_rate_per_minute cfg) (m\<lparr>mi_token := token\<rparr>) of
                        (Inl e, m) \<Rightarrow> (Err e, m)
                      | (Inr sv, m) \<Rightarrow> (Ok (Some sv), m)))"

section \<open>The gate in front of a command\<close>

lemma exec_audit_fields [simp]:
  "sv_token (exec_audit sid c x r st) = sv_token st" "sv_perms (exec_audit sid c x r st) = sv_perms st"
  "sv_policy (exec_audit sid c x r st) = sv_policy st" "sv_rate (exec_audit sid c x r st) = sv_rate st"
  by (simp_all add: exec_audit_def mcp_audit_def)

lemma exec_run_fields:
  assumes "exec_run en ms sid c st = (r, st')"
  shows "sv_rate st' = sv_rate st"
    "\<exists>d. sv_audit st' = sv_audit st @ [\<lparr>au_session = sid, au_action = ''mcp_ssh_exec'', au_detail = d\<rparr>] \<and> get_str d ''command'' = Some c"
  using assms
  by (auto simp: exec_run_def exec_audit_def mcp_audit_def get_str_def Let_def split: option.splits sum.splits)

text \<open>What \<open>ssh_exec\<close> does: nothing, one failed check, or one run behind a check that passed.\<close>

lemma ssh_exec_cases:
  assumes "ssh_exec_tool en args st = (r, effs, st')"
  obtains (stopped) "effs = []" "sv_rate st' = sv_rate st" "sv_audit st' = sv_audit st"
    | (refused) sid where "effs = []" "get_str args ''session_id'' = Some sid" "sv_rate st' = fst (check (sv_rate st) sid (env_clock en))"
    | (ran) sid c d where "effs = [RunCommand sid c]" "get_str args ''session_id'' = Some sid" "sv_rate st' = fst (check (sv_rate st) sid (env_clock en))"
        "snd (check (sv_rate st) sid (env_clock en)) = Ok ()" "classify (sv_policy st) c Readonly False = Allow"
        "env_target en sid = Ok SshTarget"
        "sv_audit st' = sv_audit st @ [\<lparr>au_session = sid, au_action = ''mcp_ssh_exec'', au_detail = d\<rparr>]" "get_str d ''command'' = Some c"
proof (cases "get_str args ''session_id'' = None \<or> get_str args ''command'' = None \<or> get_str args ''command'' = Some []")
  case True
  with assms have "effs = []" "st' = st" by (auto simp: ssh_exec_tool_def split: option.splits)
  then show thesis by (intro stopped) simp_all
next
  case False
  then obtain sid c where a: "get_str args ''session_id'' = Some sid" "get_str args ''command'' = Some c" "c \<noteq> []" by auto
  obtain rate res where ch: "check (sv_rate st) sid (env_clock en) = (rate, res)" by fastforce
  let ?st = "st\<lparr>sv_rate := rate\<rparr>"
  show thesis
  proof (cases "res = Ok () \<and> classify (sv_policy st) c Readonly False = Allow \<and> env_target en sid = Ok SshTarget")
    case True
    obtain r' st1 where run: "exec_run en (clamp_timeout (get_u64 args ''timeout_ms'')) sid c ?st = (r', st1)" by fastforce
    with assms a ch True have st': "st' = st1" "effs = [RunCommand sid c]"
      by (auto simp: ssh_exec_tool_def deny_reason_def Let_def)
    from exec_run_fields [OF run] obtain d where "sv_rate st1 = rate"
      "sv_audit st1 = sv_audit st @ [\<lparr>au_session = sid, au_action = ''mcp_ssh_exec'', au_detail = d\<rparr>]" "get_str d ''command'' = Some c" by auto
    with True st' a ch show thesis by (intro ran [of sid c d]) simp_all
  next
    case nope: False
    with assms a ch have "effs = [] \<and> sv_rate st' = rate"
      by (auto simp: ssh_exec_tool_def deny_reason_def Let_def split: sum.splits Verdict.splits target.splits)
    with a ch show thesis by (intro refused [of sid]) simp_all
  qed
qed

lemma call_tool_cases:
  assumes "call_tool en name args st = (v, effs, st')"
  obtains (exec) r where "name = ''ssh_exec''" "tool_allowed (sv_perms st) (env_sessions en) ''ssh_exec'' args" "ssh_exec_tool en args st = (r, effs, st')"
    | (other) "st' = st" "\<And>sid c. RunCommand sid c \<notin> set effs"
  using assms by (auto simp: call_tool_def split: if_splits prod.splits)

lemma mcp_post_cases:
  assumes "mcp_post en hs body st = (resp, effs, st')"
  obtains (exec) args r where "authorized (sv_token st) hs" "tool_allowed (sv_perms st) (env_sessions en) ''ssh_exec'' args"
      "ssh_exec_tool en args st = (r, effs, st')"
    | (other) "st' = st" "\<And>sid c. RunCommand sid c \<notin> set effs"
proof (cases "authorized (sv_token st) hs \<and> (\<exists>req. env_from_str en body = Some req \<and> get_str req ''method'' = Some ''tools/call'' \<and>
    (\<exists>params name. json_get req ''params'' = Some params \<and> get_str params ''name'' = Some name))")
  case True
  then obtain req params name where req: "authorized (sv_token st) hs" "env_from_str en body = Some req"
    "get_str req ''method'' = Some ''tools/call''" "json_get req ''params'' = Some params" "get_str params ''name'' = Some name" by blast
  let ?args = "case json_get params ''arguments'' of Some v \<Rightarrow> v | None \<Rightarrow> VObject []"
  obtain v effs1 st1 where call: "call_tool en name ?args st = (v, effs1, st1)" by (metis prod.exhaust)
  with assms req have eq: "effs1 = effs" "st1 = st'" by (auto simp: mcp_post_def dispatch_def Let_def split: if_splits)
  from call [unfolded eq] show thesis
    by (cases rule: call_tool_cases) (auto intro: exec other req(1))
next
  case False
  with assms have "st' = st \<and> effs = []"
    by (auto simp: mcp_post_def dispatch_def get_str_def Let_def split: if_splits option.splits prod.splits)
  then show thesis by (intro other) auto
qed


definition exec_args :: "string \<Rightarrow> string \<Rightarrow> Value" where
  "exec_args sid c = VObject [(''session_id'', VString sid), (''command'', VString c)]"

definition exec_request :: "string \<Rightarrow> string \<Rightarrow> Value" where
  "exec_request sid c =
     VObject [(''id'', VNumber (Some 1)), (''method'', VString ''tools/call''),
       (''params'', VObject [(''name'', VString ''ssh_exec''), (''arguments'', exec_args sid c)])]"

text \<open>An environment in which every text parses as one request and every command prints a line.\<close>

definition sample_env :: "Value \<Rightarrow> env" where
  "sample_env req =
     \<lparr>env_from_str = (\<lambda>_. Some req), env_pretty = (\<lambda>_. ''{}''), env_lossy = map (\<lambda>b. char_of (unat b)),
      env_sessions = (\<lambda>_. None), env_target = (\<lambda>_. Ok SshTarget),
      env_clock = \<lparr>t_insert = 0, t_elapsed = 0, t_restart = 0\<rparr>, env_run = (\<lambda>_ _. Some (Ok [Data [97], ExitStatus 0, MsgClose])),
      env_elapsed = 5, env_list = Ok ''[]'', env_terminal = (\<lambda>_ _. Ok ''{}''), env_sftp = (\<lambda>_ _. Ok ''{}'')\<rparr>"

definition sample_server :: ServerState where
  "sample_server = server_new ''secret'' perms_default 2"

definition bearer :: "string \<Rightarrow> headers" where
  "bearer token = \<lparr>hd_authorization = Some (''Bearer '' @ token), hd_session = None\<rparr>"

lemma ls_allowed: "classify engine_new ''ls'' Readonly False = Allow"
  by code_simp

lemma sample_post:
  "fst (snd (mcp_post (sample_env (exec_request ''s'' ''ls'')) (bearer ''secret'') ''body'' sample_server)) = [RunCommand ''s'' ''ls'']"
  using ls_allowed
  by (simp add: mcp_post_def sample_env_def exec_request_def exec_args_def bearer_def sample_server_def server_new_def authorized_def
      starts_with_def get_str_def get_u64_def dispatch_def call_tool_def tool_allowed_def tool_group_key_def allows_def perms_default_def
      ssh_exec_tool_def check_def rate_new_def window_length_def deny_reason_def case_prod_unfold Let_def)


section \<open>Many requests\<close>

fun mcp_serve :: "(env \<times> headers \<times> string) list \<Rightarrow> ServerState \<Rightarrow> effect list \<times> ServerState" where
  "mcp_serve [] st = ([], st)"
| "mcp_serve ((en, hs, body) # reqs) st =
     (let (_, effs, st) = mcp_post en hs body st; (more_effs, st) = mcp_serve reqs st in (effs @ more_effs, st))"

fun runs_of :: "string \<Rightarrow> effect \<Rightarrow> bool" where
  "runs_of sid (RunCommand s _) = (s = sid)"
| "runs_of sid _ = False"

abbreviation clock_within :: "nat \<Rightarrow> clock \<Rightarrow> bool" where
  "clock_within T t \<equiv> T \<le> t_insert t \<and> t_elapsed t < T + window_length \<and> T \<le> t_restart t"

text \<open>A request spends a call of the session for every command it runs there.\<close>

lemma post_spends:
  assumes "mcp_post en hs body st = (resp, effs, st')" "fresh_since T sid (sv_rate st)" "clock_within T (env_clock en)"
  shows "fresh_since T sid (sv_rate st') \<and>
    length (filter (runs_of sid) effs) + left_in_window sid (sv_rate st') \<le> left_in_window sid (sv_rate st)"
  using assms(1)
proof (cases rule: mcp_post_cases)
  case (exec args r)
  from exec(3) show ?thesis
  proof (cases rule: ssh_exec_cases)
    case stopped
    with assms(2) show ?thesis by simp
  next
    case (refused s)
    with assms(2,3) check_fresh [of T sid "sv_rate st" "env_clock en"]
    show ?thesis by (cases "s = sid") (auto simp: left_check_other)
  next
    case (ran s c d)
    with assms(2,3) check_fresh [of T sid "sv_rate st" "env_clock en"]
    show ?thesis by (cases "s = sid") (auto simp: left_check_other)
  qed
next
  case other
  then have none: "\<And>e. e \<in> set effs \<Longrightarrow> \<not> runs_of sid e" by (metis runs_of.elims(2))
  with other assms(2) show ?thesis by (simp add: filter_False)
qed

lemma serve_spends:
  "fresh_since T sid (sv_rate st) \<Longrightarrow> list_all (\<lambda>(en, _, _). clock_within T (env_clock en)) reqs \<Longrightarrow>
     length (filter (runs_of sid) (fst (mcp_serve reqs st))) \<le> left_in_window sid (sv_rate st)"
proof (induction reqs arbitrary: st)
  case (Cons q reqs)
  obtain en hs body where q: "q = (en, hs, body)" by (metis prod.exhaust)
  obtain resp effs st1 where p: "mcp_post en hs body st = (resp, effs, st1)" by (metis prod.exhaust)
  from Cons.prems q post_spends [OF p, of T sid] have s: "fresh_since T sid (sv_rate st1)"
    "length (filter (runs_of sid) effs) + left_in_window sid (sv_rate st1) \<le> left_in_window sid (sv_rate st)" by auto
  from Cons.IH [OF s(1)] Cons.prems q have "length (filter (runs_of sid) (fst (mcp_serve reqs st1))) \<le> left_in_window sid (sv_rate st1)" by simp
  with s(2) q p show ?case by (simp add: case_prod_unfold Let_def)
qed simp

text \<open>
  An agent gets its quota and no more: of any requests a freshly started server
  answers within one window, whatever tools they call and however they are refused, at
  most \<open>per_minute\<close> run a command on a given session.
\<close>

theorem mcp_commands_within_rate:
  assumes "list_all (\<lambda>(en, _, _). clock_within T (env_clock en)) reqs"
  shows "length (filter (\<lambda>e. case e of RunCommand s _ \<Rightarrow> s = sid | _ \<Rightarrow> False) (fst (mcp_serve reqs (server_new token p n)))) \<le> unat n"
proof -
  have f: "(\<lambda>e. case e of RunCommand s _ \<Rightarrow> s = sid | _ \<Rightarrow> False) = runs_of sid"
    by (rule ext) (auto split: effect.splits)
  have "fresh_since T sid (sv_rate (server_new token p n))" "left_in_window sid (sv_rate (server_new token p n)) = unat n"
    by (simp_all add: server_new_def rate_new_def fresh_since_def left_in_window_def)
  with serve_spends [OF _ assms] f show ?thesis by metis
qed

theorem mcp_commands_within_rate_witness:
  "length (filter (\<lambda>e. case e of RunCommand s _ \<Rightarrow> s = ''s'' | _ \<Rightarrow> False)
     (fst (mcp_serve (replicate 3 (sample_env (exec_request ''s'' ''ls''), bearer ''secret'', ''body'')) (server_new ''secret'' perms_default 2)))) \<le> 2"
proof -
  have "list_all (\<lambda>(en, _, _). clock_within 0 (env_clock en)) (replicate 3 (sample_env (exec_request ''s'' ''ls''), bearer ''secret'', ''body''))"
    by (simp add: sample_env_def window_length_def list_all_iff)
  from mcp_commands_within_rate [OF this, of "''s''" "''secret''" perms_default 2] show ?thesis by simp
qed

section \<open>What comes back\<close>

text \<open>The messages before the end of the output, and the two streams in them.\<close>

definition before_end :: "ChannelMsg list \<Rightarrow> ChannelMsg list" where
  "before_end ms = takeWhile (\<lambda>m. m \<noteq> MsgEof \<and> m \<noteq> MsgClose) ms"

fun out_bytes :: "ChannelMsg list \<Rightarrow> u8 list" where
  "out_bytes [] = []"
| "out_bytes (Data d # ms) = d @ out_bytes ms"
| "out_bytes (_ # ms) = out_bytes ms"

fun err_bytes :: "ChannelMsg list \<Rightarrow> u8 list" where
  "err_bytes [] = []"
| "err_bytes (ExtendedData d # ms) = d @ err_bytes ms"
| "err_bytes (_ # ms) = err_bytes ms"

fun last_status :: "ChannelMsg list \<Rightarrow> u32 option \<Rightarrow> u32 option" where
  "last_status [] c = c"
| "last_status (ExitStatus n # ms) c = last_status ms (Some n)"
| "last_status (_ # ms) c = last_status ms c"

lemma take_take_append: "take n (take n xs @ ys) = take n (xs @ ys)"
  by (cases "n \<le> length xs") simp_all

lemma push_capped_spec:
  "length buf \<le> OUTPUT_CAP \<Longrightarrow>
     push_capped buf d t = (take OUTPUT_CAP (buf @ d), t \<or> OUTPUT_CAP < length buf + length d)"
  by (auto simp: push_capped_def Let_def)

lemma collect_spec:
  "length (rb_stdout b) \<le> OUTPUT_CAP \<Longrightarrow> length (rb_stderr b) \<le> OUTPUT_CAP \<Longrightarrow>
     collect ms b =
       \<lparr>rb_stdout = take OUTPUT_CAP (rb_stdout b @ out_bytes (before_end ms)),
        rb_stderr = take OUTPUT_CAP (rb_stderr b @ err_bytes (before_end ms)),
        rb_truncated = (rb_truncated b \<or> OUTPUT_CAP < length (rb_stdout b) + length (out_bytes (before_end ms)) \<or>
          OUTPUT_CAP < length (rb_stderr b) + length (err_bytes (before_end ms))),
        rb_exit = last_status (before_end ms) (rb_exit b)\<rparr>"
proof (induction ms arbitrary: b)
  case (Cons m ms)
  show ?case
  proof (cases m)
    case (Data d)
    let ?b = "b\<lparr>rb_stdout := take OUTPUT_CAP (rb_stdout b @ d), rb_truncated := rb_truncated b \<or> OUTPUT_CAP < length (rb_stdout b) + length d\<rparr>"
    have "collect (m # ms) b = collect ms ?b" using Data Cons.prems by (simp add: push_capped_spec)
    with Cons.IH [of ?b] Cons.prems Data show ?thesis by (auto simp: before_end_def take_take_append min_def simp del: take_append)
  next
    case (ExtendedData d)
    let ?b = "b\<lparr>rb_stderr := take OUTPUT_CAP (rb_stderr b @ d), rb_truncated := rb_truncated b \<or> OUTPUT_CAP < length (rb_stderr b) + length d\<rparr>"
    have "collect (m # ms) b = collect ms ?b" using ExtendedData Cons.prems by (simp add: push_capped_spec)
    with Cons.IH [of ?b] Cons.prems ExtendedData show ?thesis by (auto simp: before_end_def take_take_append min_def simp del: take_append)
  qed (use Cons in \<open>auto simp: before_end_def\<close>)
qed (simp add: before_end_def)

text \<open>
  The answer to a command holds the first 64 KiB of each stream, flags a cut exactly
  when one of them was longer, and carries the last exit status before the first end of
  file or close; a status the server sends after its end of file is not waited for.
\<close>

theorem exec_output_is_capped_prefix:
  "ssh_exec_inner (Ok ms) =
     Ok \<lparr>rb_stdout = take 65536 (out_bytes (before_end ms)), rb_stderr = take 65536 (err_bytes (before_end ms)),
         rb_truncated = (65536 < length (out_bytes (before_end ms)) \<or> 65536 < length (err_bytes (before_end ms))),
         rb_exit = last_status (before_end ms) None\<rparr>"
  using collect_spec [of body_new ms] by (simp add: ssh_exec_inner_def body_new_def OUTPUT_CAP_def)

section \<open>Settings\<close>

lemma gen_token_not_Nil: "random \<noteq> [] \<Longrightarrow> gen_token random \<noteq> []"
  by (cases random) (simp_all add: gen_token_def hex_byte_def Let_def)

lemma ensure_token_not_Nil: "random \<noteq> [] \<Longrightarrow> fst (ensure_token random token) \<noteq> []"
  by (auto simp: ensure_token_def gen_token_not_Nil Let_def split: option.splits)

lemma port_range: "1 \<le> unat (parse_port_setting from_str raw) \<and> unat (parse_port_setting from_str raw) \<le> 65535"
proof -
  have "unat (ucast v :: u16) = unat v" if "v \<le> 65535" for v :: u64
    using that by (simp add: word_le_nat_alt unsigned_ucast_eq take_bit_nat_eq_self)
  then show ?thesis
    by (auto simp: parse_port_setting_def DEFAULT_PORT_def word_le_nat_alt split: option.splits)
qed

lemma rate_range: "1 \<le> unat (parse_rate_setting from_str raw) \<and> unat (parse_rate_setting from_str raw) \<le> 3600"
proof -
  have "unat (ucast v :: u32) = unat v" if "v \<le> 3600" for v :: u64
    using that by (simp add: word_le_nat_alt unsigned_ucast_eq take_bit_nat_eq_self)
  then show ?thesis
    by (auto simp: parse_rate_setting_def DEFAULT_RATE_PER_MINUTE_def word_le_nat_alt split: option.splits)
qed

lemma read_config_ranges:
  assumes "read_mcp_config from_str settings = Ok cfg"
  shows "1 \<le> unat (mc_port cfg)" "1 \<le> unat (mc_rate_per_minute cfg)" "unat (mc_rate_per_minute cfg) \<le> 3600"
proof -
  from assms obtain raw1 raw2 where "mc_port cfg = parse_port_setting from_str raw1" "mc_rate_per_minute cfg = parse_rate_setting from_str raw2"
    by (auto simp: read_mcp_config_def Let_def split: option.splits)
  with port_range rate_range show "1 \<le> unat (mc_port cfg)" "1 \<le> unat (mc_rate_per_minute cfg)" "unat (mc_rate_per_minute cfg) \<le> 3600"
    by metis+
qed

text \<open>
  Whatever is stored in the settings, a server that is started at boot listens on a
  real port, has a rate between 1 and 3600 a minute, and has a token: an empty or missing
  one is replaced, so that a request without an authorization header never has an effect
  and is answered with 401.
\<close>

theorem booted_server_wants_token:
  assumes "boot_from_settings from_str random bind settings m = (Some sv, m')" "length random = 32"
  shows "sv_token sv \<noteq> [] \<and> mi_running m' \<and> 1 \<le> unat (mi_port m') \<and> mi_token m' = sv_token sv \<and>
    1 \<le> unat (per_minute (sv_rate sv)) \<and> unat (per_minute (sv_rate sv)) \<le> 3600 \<and>
    (\<forall>en hs body. hd_authorization hs = None \<longrightarrow>
       (\<exists>resp. mcp_post en hs body sv = (resp, [], sv) \<and> rs_status resp = 401))"
proof -
  obtain cfg where cfg: "read_mcp_config from_str settings = Ok cfg" and sv: "sv = server_new (fst (ensure_token random (mc_token cfg))) (mc_perms cfg) (mc_rate_per_minute cfg)"
    and m': "m' = (mgr_stop m)\<lparr>mi_running := True, mi_port := mc_port cfg, mi_token := sv_token sv\<rparr>"
    using assms(1) by (auto simp: boot_from_settings_def mgr_start_def server_new_def Let_def split: sum.splits if_splits)
  have "random \<noteq> []" using assms(2) by auto
  then have tok: "sv_token sv \<noteq> []" using sv ensure_token_not_Nil [of random "mc_token cfg"] by (simp add: server_new_def)
  then have "\<forall>en hs body. hd_authorization hs = None \<longrightarrow> (\<exists>resp. mcp_post en hs body sv = (resp, [], sv) \<and> rs_status resp = 401)"
    by (auto simp: mcp_post_def authorized_def respond_def)
  with tok m' sv read_config_ranges [OF cfg] show ?thesis by (simp add: server_new_def rate_new_def)
qed

definition sample_settings :: "string \<Rightarrow> (string, string option) result" where
  "sample_settings k = Ok (if k = ''mcp.enabled'' then Some ''true'' else if k = ''mcp.port'' then Some ''0'' else None)"

definition no_server :: McpInner where
  "no_server = \<lparr>mi_running = False, mi_port = 0, mi_token = []\<rparr>"

theorem booted_server_wants_token_witness:
  "\<exists>sv m'. boot_from_settings (\<lambda>_. None) (replicate 32 7) (\<lambda>_. True) sample_settings no_server = (Some sv, m') \<and> sv_token sv \<noteq> []"
proof -
  have enabled: "parse_bool_setting (\<lambda>_. None) (Some ''true'')" by code_simp
  then have "\<exists>sv m'. boot_from_settings (\<lambda>_. None) (replicate 32 7) (\<lambda>_. True) sample_settings no_server = (Some sv, m')"
    by (simp add: boot_from_settings_def read_mcp_config_def sample_settings_def mgr_start_def Let_def)
  then obtain sv m' where b: "boot_from_settings (\<lambda>_. None) (replicate 32 7) (\<lambda>_. True) sample_settings no_server = (Some sv, m')" by blast
  from booted_server_wants_token [OF b] b show ?thesis by auto
qed

section \<open>Where the documentation says more\<close>

text \<open>
  Not every attempt is audited. A command that passes the rate limiter and the
  classifier, but whose session is local or cannot be resolved, is answered with an error
  and leaves no trace in the audit log, although it has used up a call.
\<close>

theorem unresolved_attempt_not_audited:
  assumes "get_str args ''session_id'' = Some sid" "get_str args ''command'' = Some c" "c \<noteq> []"
    and "check (sv_rate st) sid (env_clock en) = (rate, Ok ())" "classify (sv_policy st) c Readonly False = Allow"
    and "env_target en sid \<noteq> Ok SshTarget"
  shows "\<exists>e. ssh_exec_tool en args st = (Err e, [], st\<lparr>sv_rate := rate\<rparr>) \<and> sv_audit (st\<lparr>sv_rate := rate\<rparr>) = sv_audit st"
  using assms
  by (cases "env_target en sid") (auto simp: ssh_exec_tool_def deny_reason_def Let_def split: target.splits)

theorem unresolved_attempt_not_audited_witness:
  "\<exists>e st'. ssh_exec_tool ((sample_env VNull)\<lparr>env_target := (\<lambda>_. Ok LocalTarget)\<rparr>) (exec_args ''s'' ''ls'') sample_server = (Err e, [], st') \<and>
     sv_audit st' = []"
proof -
  let ?en = "(sample_env VNull)\<lparr>env_target := (\<lambda>_. Ok LocalTarget)\<rparr>"
  obtain rate where r: "check (sv_rate sample_server) ''s'' (env_clock ?en) = (rate, Ok ())"
    by (simp add: check_def sample_server_def server_new_def rate_new_def sample_env_def window_length_def Let_def)
  have a: "get_str (exec_args ''s'' ''ls'') ''session_id'' = Some ''s''" "get_str (exec_args ''s'' ''ls'') ''command'' = Some ''ls''"
    "''ls'' \<noteq> []" "env_target ?en ''s'' \<noteq> Ok SshTarget" "classify (sv_policy sample_server) ''ls'' Readonly False = Allow" "sv_audit sample_server = []"
    using ls_allowed by (simp_all add: exec_args_def get_str_def sample_server_def server_new_def)
  from unresolved_attempt_not_audited [OF a(1-3) r a(5) a(4)] a(6) show ?thesis by auto
qed

text \<open>
  A session's override is only half applied to terminals. Where the group is off
  globally and on for one session, a terminal can be opened on that session, but the tools
  that use it name the terminal and not the session, fall back to the global permission and
  are refused: what was opened can be neither written, read nor closed.
\<close>

theorem override_opens_unusable_terminal:
  assumes "sessions sid = Some ov" "ov ''ssh_exec'' = Some True" "\<not> mp_ssh_exec p"
    and "get_str args ''session_id'' = Some sid" "get_str use_args ''session_id'' = None"
  shows "tool_allowed p sessions ''terminal_open'' args \<and>
    \<not> tool_allowed p sessions ''terminal_send'' use_args \<and> \<not> tool_allowed p sessions ''terminal_read'' use_args \<and>
    \<not> tool_allowed p sessions ''terminal_close'' use_args"
  using assms by (simp add: tool_allowed_def tool_group_key_def allows_def)

theorem override_opens_unusable_terminal_witness:
  "tool_allowed (perms_default\<lparr>mp_ssh_exec := False\<rparr>) (\<lambda>_. Some [''ssh_exec'' \<mapsto> True]) ''terminal_open'' (VObject [(''session_id'', VString ''s'')]) \<and>
   \<not> tool_allowed (perms_default\<lparr>mp_ssh_exec := False\<rparr>) (\<lambda>_. Some [''ssh_exec'' \<mapsto> True]) ''terminal_close'' (VObject [(''terminalId'', VString ''t'')])"
  using override_opens_unusable_terminal
      [of "\<lambda>_. Some [''ssh_exec'' \<mapsto> True]" "''s''" "[''ssh_exec'' \<mapsto> True]" "perms_default\<lparr>mp_ssh_exec := False\<rparr>"
        "VObject [(''session_id'', VString ''s'')]" "VObject [(''terminalId'', VString ''t'')]"]
  by (simp add: get_str_def)

end
