(* ===== verification/Mcp_Terminal.thy ===== *)
theory Mcp_Terminal
  imports Mcp_Server
begin

text \<open>
  The terminals an agent opens, \<^verbatim>\<open>src/crates/app/src/mcp_terminal.rs\<close>: the output buffer with
  its cursor, and the registry with \<open>terminal_open\<close>, \<open>terminal_send\<close>, \<open>terminal_read\<close>,
  \<open>terminal_close\<close> and \<open>close_all\<close>.

  Sessions are shared objects, so the registry maps identifiers to places in a list of
  sessions. Opening a terminal is two steps, the checks before the connection is made and
  the registration after it; how the connection ends, the identifier and what the shell
  prints are part of the events. A read answers with bytes; the code turns them into text
  with \<open>from_utf8_lossy\<close>.
\<close>

section \<open>The output buffer\<close>

definition TERM_BUF_CAP :: nat where "TERM_BUF_CAP = 1024 * 1024"
definition READ_WAIT_MAX :: u64 where "READ_WAIT_MAX = 600"

record TermBuf =
  tb_buf :: "u8 list"
  tb_total :: u64
  tb_truncated :: bool
  tb_closed :: bool

definition buf_new :: TermBuf where
  "buf_new = \<lparr>tb_buf = [], tb_total = 0, tb_truncated = False, tb_closed = False\<rparr>"

definition buf_append :: "u8 list \<Rightarrow> TermBuf \<Rightarrow> TermBuf" where
  "buf_append data b =
     (let b = b\<lparr>tb_total := tb_total b + of_nat (length data), tb_buf := tb_buf b @ data\<rparr>
      in if length (tb_buf b) > TERM_BUF_CAP
         then b\<lparr>tb_buf := drop (length (tb_buf b) - TERM_BUF_CAP) (tb_buf b), tb_truncated := True\<rparr>
         else b)"

definition buf_start :: "TermBuf \<Rightarrow> u64" where
  "buf_start b = tb_total b - of_nat (length (tb_buf b))"

record read_reply =
  rr_data :: "u8 list"
  rr_next :: u64
  rr_closed :: bool
  rr_truncated :: bool

definition snapshot :: "u64 \<Rightarrow> TermBuf \<Rightarrow> read_reply" where
  "snapshot offset b =
     (let start = buf_start b; from = max offset start; data = drop (unat (from - start)) (tb_buf b)
      in \<lparr>rr_data = data, rr_next = from + of_nat (length data), rr_closed = tb_closed b,
          rr_truncated = (tb_truncated b \<and> offset < start)\<rparr>)"

text \<open>The loop of \<open>terminal_read\<close> over what it sees of the buffer at each poll, and whether the time is up.\<close>

fun poll :: "u64 \<Rightarrow> (TermBuf \<times> bool) list \<Rightarrow> read_reply option" where
  "poll offset [] = None"
| "poll offset ((b, due) # rest) =
     (if offset < tb_total b \<or> tb_closed b \<or> due then Some (snapshot offset b) else poll offset rest)"

section \<open>The registry\<close>

record McpTermSession =
  ms_session_id :: string
  ms_shared :: TermBuf
  ms_reading :: bool
  ms_conn_closed :: bool
  ms_written :: "u8 list"

record McpTerminalState =
  mt_sessions :: "McpTermSession list"
  mt_terms :: "(string \<times> nat) list"
  mt_opening :: "string list"
  mt_audit :: "audit list"

definition terms_new :: McpTerminalState where
  "terms_new = \<lparr>mt_sessions = [], mt_terms = [], mt_opening = [], mt_audit = []\<rparr>"

abbreviation upd_session :: "nat \<Rightarrow> (McpTermSession \<Rightarrow> McpTermSession) \<Rightarrow> McpTerminalState \<Rightarrow> McpTerminalState" where
  "upd_session a f s \<equiv> s\<lparr>mt_sessions := (mt_sessions s)[a := f (mt_sessions s ! a)]\<rparr>"

definition shut :: "McpTermSession \<Rightarrow> McpTermSession" where
  "shut t = t\<lparr>ms_reading := False, ms_shared := (ms_shared t)\<lparr>tb_closed := True\<rparr>\<rparr>"

definition close_all :: "McpTerminalState \<Rightarrow> McpTerminalState" where
  "close_all s =
     s\<lparr>mt_terms := [], mt_sessions := fold (\<lambda>(_, a) ts. ts[a := shut (ts ! a)]) (mt_terms s) (mt_sessions s)\<rparr>"

definition req_term_id :: "Value \<Rightarrow> string \<Rightarrow> (string, string) result" where
  "req_term_id args tool =
     (case get_str args ''terminalId'' of
        Some i \<Rightarrow> if i \<noteq> [] then Ok i else Err (tool @ '': missing terminalId'')
      | None \<Rightarrow> Err (tool @ '': missing terminalId''))"

definition term_audit :: "string \<Rightarrow> string \<Rightarrow> string \<Rightarrow> McpTerminalState \<Rightarrow> McpTerminalState" where
  "term_audit sid action i s =
     s\<lparr>mt_audit := mt_audit s @ [\<lparr>au_session = sid, au_action = action, au_detail = VObject [(''terminalId'', VString i)]\<rparr>]\<rparr>"

text \<open>\<open>ki\<close> says that the session can only log in with a dialogue.\<close>

definition open_check :: "(string \<Rightarrow> (string, target) result) \<Rightarrow> (string \<Rightarrow> bool) \<Rightarrow> Value \<Rightarrow> McpTerminalState \<Rightarrow> (string, McpTerminalState) result" where
  "open_check resolve ki args s =
     (case get_str args ''session_id'' of
        None \<Rightarrow> Err ''terminal_open: missing session_id''
      | Some sid \<Rightarrow>
          if sid = [] then Err ''terminal_open: missing session_id''
          else case resolve sid of
                 Inl e \<Rightarrow> Err e
               | Inr LocalTarget \<Rightarrow> Err ''local session''
               | Inr SshTarget \<Rightarrow> if ki sid then Err ''keyboard-interactive'' else Ok (s\<lparr>mt_opening := mt_opening s @ [sid]\<rparr>))"

definition open_register :: "nat \<Rightarrow> (string, string) result \<Rightarrow> McpTerminalState \<Rightarrow> ((string, string) result \<times> McpTerminalState) option" where
  "open_register k outcome s =
     (if k < length (mt_opening s)
      then let sid = mt_opening s ! k; s = s\<lparr>mt_opening := take k (mt_opening s) @ drop (Suc k) (mt_opening s)\<rparr>
           in case outcome of
                Inl e \<Rightarrow> Some (Err e, s)
              | Inr i \<Rightarrow>
                  Some (Ok i, term_audit sid ''mcp_terminal_open'' i
                    (s\<lparr>mt_sessions := mt_sessions s @ [\<lparr>ms_session_id = sid, ms_shared = buf_new, ms_reading = True, ms_conn_closed = False, ms_written = []\<rparr>],
                       mt_terms := (i, length (mt_sessions s)) # filter (\<lambda>(j, _). j \<noteq> i) (mt_terms s)\<rparr>))
      else None)"

definition get_bool :: "Value \<Rightarrow> string \<Rightarrow> bool" where
  "get_bool v k = (case json_get v k of Some (VBool b) \<Rightarrow> b | _ \<Rightarrow> False)"

definition terminal_send :: "Value \<Rightarrow> (string, unit) result \<Rightarrow> McpTerminalState \<Rightarrow> (string, unit) result \<times> McpTerminalState" where
  "terminal_send args wrote s =
     (case req_term_id args ''terminal_send'' of
        Inl e \<Rightarrow> (Err e, s)
      | Inr i \<Rightarrow>
          (case get_str args ''data'' of
             None \<Rightarrow> (Err ''terminal_send: missing data'', s)
           | Some data \<Rightarrow>
               (case map_of (mt_terms s) i of
                  None \<Rightarrow> (Err (i @ '' does not exist''), s)
                | Some a \<Rightarrow>
                    if tb_closed (ms_shared (mt_sessions s ! a)) then (Err (i @ '' is closed''), s)
                    else (case wrote of
                            Inl e \<Rightarrow> (Err e, s)
                          | Inr _ \<Rightarrow>
                              (Ok (), upd_session a (\<lambda>t. t\<lparr>ms_written := ms_written t @ ascii_bytes data @
                                 (if get_bool args ''append_newline'' then [10] else [])\<rparr>) s)))))"

text \<open>\<open>None\<close> while the read waits for the next poll.\<close>

definition terminal_read :: "Value \<Rightarrow> (McpTerminalState \<times> bool) list \<Rightarrow> McpTerminalState \<Rightarrow> (string, read_reply) result option" where
  "terminal_read args polls s =
     (case req_term_id args ''terminal_read'' of
        Inl e \<Rightarrow> Some (Err e)
      | Inr i \<Rightarrow>
          (case get_u64 args ''offset'' of
             None \<Rightarrow> Some (Err ''terminal_read: missing offset'')
           | Some offset \<Rightarrow>
               (case map_of (mt_terms s) i of
                  None \<Rightarrow> Some (Err (i @ '' does not exist''))
                | Some a \<Rightarrow> map_option Inr (poll offset (map (\<lambda>(s', due). (ms_shared (mt_sessions s' ! a), due)) polls)))))"

definition terminal_close :: "Value \<Rightarrow> McpTerminalState \<Rightarrow> (string, unit) result \<times> McpTerminalState" where
  "terminal_close args s =
     (case req_term_id args ''terminal_close'' of
        Inl e \<Rightarrow> (Err e, s)
      | Inr i \<Rightarrow>
          (case map_of (mt_terms s) i of
             None \<Rightarrow> (Err (i @ '' does not exist''), s)
           | Some a \<Rightarrow>
               (Ok (), term_audit (ms_session_id (mt_sessions s ! a)) ''mcp_terminal_close'' i
                  (upd_session a shut (s\<lparr>mt_terms := filter (\<lambda>(j, _). j \<noteq> i) (mt_terms s)\<rparr>)))))"

text \<open>The reading task of a session: data, and the end of the channel.\<close>

definition reader_data :: "nat \<Rightarrow> u8 list \<Rightarrow> McpTerminalState \<Rightarrow> McpTerminalState option" where
  "reader_data a data s =
     (if a < length (mt_sessions s) \<and> ms_reading (mt_sessions s ! a)
      then Some (upd_session a (\<lambda>t. t\<lparr>ms_shared := buf_append data (ms_shared t)\<rparr>) s) else None)"

definition reader_end :: "nat \<Rightarrow> McpTerminalState \<Rightarrow> McpTerminalState option" where
  "reader_end a s =
     (if a < length (mt_sessions s) \<and> ms_reading (mt_sessions s ! a) then Some (upd_session a shut s) else None)"

section \<open>Reading by cursor\<close>

text \<open>The buffer holds the newest bytes of everything that was printed.\<close>

definition holds :: "u8 list \<Rightarrow> TermBuf \<Rightarrow> bool" where
  "holds out b \<longleftrightarrow>
     tb_total b = of_nat (length out) \<and> tb_buf b = drop (length out - TERM_BUF_CAP) out \<and>
     (tb_truncated b \<longleftrightarrow> TERM_BUF_CAP < length out)"

lemma holds_new: "holds [] buf_new"
  by (simp add: holds_def buf_new_def)

lemma holds_append:
  assumes "holds out b"
  shows "holds (out @ data) (buf_append data b)"
proof -
  have buf: "tb_buf b @ data = drop (length out - TERM_BUF_CAP) (out @ data)"
    using assms by (simp add: holds_def)
  show ?thesis
  proof (cases "length (tb_buf b @ data) > TERM_BUF_CAP")
    case True
    have "drop (length (tb_buf b @ data) - TERM_BUF_CAP) (tb_buf b @ data) = drop (length (out @ data) - TERM_BUF_CAP) (out @ data)"
      using True unfolding buf by (simp add: drop_drop [symmetric] del: drop_drop drop_append) (simp del: drop_append)
    moreover have "TERM_BUF_CAP < length (out @ data)" using True unfolding buf by simp
    ultimately show ?thesis using True assms by (simp add: holds_def buf_append_def Let_def)
  next
    case False
    then have "length out \<le> TERM_BUF_CAP \<or> data = []" unfolding buf by (cases data) auto
    then show ?thesis
    proof
      assume "data = []"
      with assms False show ?thesis by (simp add: holds_def buf_append_def Let_def)
    next
      assume "length out \<le> TERM_BUF_CAP"
      with assms False show ?thesis by (auto simp: holds_def buf_append_def Let_def)
    qed
  qed
qed

lemma snapshot_holds:
  assumes "holds out b" "length out < 2 ^ 64" "unat offset \<le> length out"
  shows "snapshot offset b =
    \<lparr>rr_data = drop (max (unat offset) (length out - TERM_BUF_CAP)) out, rr_next = of_nat (length out), rr_closed = tb_closed b,
     rr_truncated = (unat offset < length out - TERM_BUF_CAP)\<rparr>"
proof -
  let ?n = "length out" and ?s = "length out - TERM_BUF_CAP"
  have tot: "unat (of_nat ?n :: u64) = ?n" using assms(2) by (simp add: unsigned_of_nat take_bit_nat_eq_self)
  have st: "buf_start b = of_nat ?s" using assms(1) by (auto simp: buf_start_def holds_def of_nat_diff)
  have us: "unat (of_nat ?s :: u64) = ?s" using assms(2) by (simp add: unsigned_of_nat take_bit_nat_eq_self)
  let ?from = "max offset (of_nat ?s)"
  have uf: "unat ?from = max (unat offset) ?s" using us by (auto simp: max_def word_le_nat_alt)
  have sub: "unat (?from - of_nat ?s) = max (unat offset) ?s - ?s" using uf us by (simp add: unat_sub word_le_nat_alt)
  have data: "drop (unat (?from - of_nat ?s)) (tb_buf b) = drop (max (unat offset) ?s) out"
    using assms(1) unfolding sub by (auto simp: holds_def max_def)
  have le: "max (unat offset) ?s \<le> ?n" using assms(3) by simp
  have "?from = of_nat (max (unat offset) ?s)" by (simp flip: uf)
  then have "?from + of_nat (length (drop (max (unat offset) ?s) out)) = of_nat ?n"
    using le by (simp flip: of_nat_add)
  moreover have "tb_truncated b \<and> offset < of_nat ?s \<longleftrightarrow> unat offset < ?s"
    using assms(1) us by (auto simp: holds_def word_less_nat_alt)
  ultimately show ?thesis using data st unfolding snapshot_def Let_def by simp
qed

text \<open>A client that reads with the cursor the last read returned, between outputs of the shell.\<close>

datatype client_event = Prints "u8 list" | Reads

record client =
  cl_buf :: TermBuf
  cl_cursor :: u64
  cl_got :: "u8 list"
  cl_cut :: bool

definition client_new :: client where
  "client_new = \<lparr>cl_buf = buf_new, cl_cursor = 0, cl_got = [], cl_cut = False\<rparr>"

fun client_step :: "client_event \<Rightarrow> client \<Rightarrow> client" where
  "client_step (Prints d) c = c\<lparr>cl_buf := buf_append d (cl_buf c)\<rparr>"
| "client_step Reads c =
     (let r = snapshot (cl_cursor c) (cl_buf c)
      in c\<lparr>cl_cursor := rr_next r, cl_got := cl_got c @ rr_data r, cl_cut := cl_cut c \<or> rr_truncated r\<rparr>)"

fun printed :: "client_event list \<Rightarrow> u8 list" where
  "printed [] = []"
| "printed (Prints d # evs) = d @ printed evs"
| "printed (Reads # evs) = printed evs"

definition client_ok :: "u8 list \<Rightarrow> client \<Rightarrow> bool" where
  "client_ok out c \<longleftrightarrow>
     holds out (cl_buf c) \<and> unat (cl_cursor c) \<le> length out \<and>
     (\<not> cl_cut c \<longrightarrow> cl_got c = take (unat (cl_cursor c)) out) \<and> (cl_cut c \<longrightarrow> TERM_BUF_CAP < length out)"

lemma client_reads:
  assumes "client_ok out c" "length out < 2 ^ 64"
  shows "client_ok out (client_step Reads c) \<and> unat (cl_cursor (client_step Reads c)) = length out"
proof -
  let ?k = "unat (cl_cursor c)"
  have n: "unat (of_nat (length out) :: u64) = length out" using assms(2) by (simp add: unsigned_of_nat take_bit_nat_eq_self)
  note snap = snapshot_holds [OF _ assms(2), of "cl_buf c" "cl_cursor c"]
  have "take ?k out @ drop (max ?k (length out - TERM_BUF_CAP)) out = out" if "\<not> ?k < length out - TERM_BUF_CAP"
    using that by (simp add: max_def)
  with assms snap n show ?thesis by (auto simp: client_ok_def Let_def)
qed

lemma client_ok_run:
  "client_ok out c \<Longrightarrow> length (out @ printed evs) < 2 ^ 64 \<Longrightarrow> client_ok (out @ printed evs) (fold client_step evs c)"
proof (induction evs arbitrary: out c)
  case (Cons ev evs)
  show ?case
  proof (cases ev)
    case (Prints d)
    have "client_ok (out @ d) (client_step ev c)"
      using Cons.prems(1) Prints by (auto simp: client_ok_def holds_append)
    from Cons.IH [OF this] Cons.prems(2) Prints show ?thesis by simp
  next
    case Reads
    with Cons client_reads [of out c] show ?thesis by simp
  qed
qed simp



section \<open>Who owns a terminal\<close>

datatype term_event =
    OpenCheck "string \<Rightarrow> (string, target) result" "string \<Rightarrow> bool" Value
  | OpenRegister nat "(string, string) result"
  | Send Value "(string, unit) result"
  | Close Value
  | CloseAll
  | ReaderData nat "u8 list"
  | ReaderEnd nat

text \<open>Identifiers are 16 random bytes; one that is already in the table is not drawn again.\<close>

fun term_step :: "term_event \<Rightarrow> McpTerminalState \<Rightarrow> McpTerminalState option" where
  "term_step (OpenCheck resolve ki args) s = (case open_check resolve ki args s of Inl _ \<Rightarrow> Some s | Inr s' \<Rightarrow> Some s')"
| "term_step (OpenRegister k outcome) s =
     (if (case outcome of Inr i \<Rightarrow> map_of (mt_terms s) i = None | Inl _ \<Rightarrow> True) then map_option snd (open_register k outcome s) else None)"
| "term_step (Send args wrote) s = Some (snd (terminal_send args wrote s))"
| "term_step (Close args) s = Some (snd (terminal_close args s))"
| "term_step CloseAll s = Some (close_all s)"
| "term_step (ReaderData a d) s = reader_data a d s"
| "term_step (ReaderEnd a) s = reader_end a s"

inductive terms_step :: "McpTerminalState \<Rightarrow> McpTerminalState \<Rightarrow> bool" where
  term_event: "term_step ev s = Some s' \<Longrightarrow> terms_step s s'"

definition terms_init :: "McpTerminalState \<Rightarrow> bool" where
  "terms_init s \<longleftrightarrow> s = terms_new"

definition terms_inv :: "McpTerminalState \<Rightarrow> bool" where
  "terms_inv s \<longleftrightarrow>
     distinct (map fst (mt_terms s)) \<and>
     (\<forall>i a. (i, a) \<in> set (mt_terms s) \<longrightarrow> a < length (mt_sessions s)) \<and>
     (\<forall>a < length (mt_sessions s). ms_reading (mt_sessions s ! a) \<longrightarrow> (\<exists>i. (i, a) \<in> set (mt_terms s)))"

text \<open>Steps that keep the table and start no reading task.\<close>

lemma terms_inv_same:
  assumes "terms_inv s" "mt_terms s' = mt_terms s" "length (mt_sessions s') = length (mt_sessions s)"
    "\<And>a. a < length (mt_sessions s) \<Longrightarrow> ms_reading (mt_sessions s' ! a) \<Longrightarrow> ms_reading (mt_sessions s ! a)"
  shows "terms_inv s'"
  using assms unfolding terms_inv_def by metis

abbreviation shut_each :: "(string \<times> nat) list \<Rightarrow> McpTermSession list \<Rightarrow> McpTermSession list" where
  "shut_each \<equiv> fold (\<lambda>(_, a) ts. ts[a := shut (ts ! a)])"

lemma length_shut_each [simp]: "length (shut_each terms ts) = length ts"
  by (induction terms arbitrary: ts) (simp_all add: case_prod_unfold)

lemma shut_each_reading:
  "b < length ts \<Longrightarrow> ms_reading (shut_each terms ts ! b) \<Longrightarrow> ms_reading (ts ! b) \<and> b \<notin> snd ` set terms"
proof (induction terms arbitrary: ts)
  case (Cons t terms)
  obtain i a where t: "t = (i, a)" by fastforce
  let ?ts = "ts[a := shut (ts ! a)]"
  from Cons.IH [of ?ts] Cons.prems t have "ms_reading (?ts ! b)" "b \<notin> snd ` set terms" by simp_all
  with Cons.prems t show ?case by (cases "a = b") (auto simp: shut_def)
qed simp

lemma terms_step_inv:
  assumes "terms_inv s" "term_step ev s = Some s'"
  shows "terms_inv s'"
proof (cases ev)
  case (OpenRegister k outcome)
  show ?thesis
  proof (cases outcome)
    case (Inl e)
    with OpenRegister assms show ?thesis
      by (auto simp: open_register_def Let_def split: if_splits intro!: terms_inv_same [OF assms(1)])
  next
    case (Inr i)
    with OpenRegister assms(2) have free: "map_of (mt_terms s) i = None" and
      s': "mt_terms s' = (i, length (mt_sessions s)) # filter (\<lambda>(j, _). j \<noteq> i) (mt_terms s)"
      "\<exists>t. mt_sessions s' = mt_sessions s @ [t]"
      by (auto simp: open_register_def term_audit_def Let_def split: if_splits)
    have "filter (\<lambda>(j, _). j \<noteq> i) (mt_terms s) = mt_terms s"
      using free by (auto simp: map_of_eq_None_iff filter_id_conv) (metis fst_conv image_eqI)
    with s' free assms(1) show ?thesis
      unfolding terms_inv_def by (auto simp: map_of_eq_None_iff nth_append less_Suc_eq)
  qed
next
  case (Close args)
  show ?thesis
  proof (cases "fst (terminal_close args s) = Ok ()")
    case True
    then obtain i a where i: "req_term_id args ''terminal_close'' = Ok i" "map_of (mt_terms s) i = Some a"
      by (auto simp: terminal_close_def split: sum.splits option.splits)
    have s': "s' = snd (terminal_close args s)" using Close assms(2) by simp
    have ia: "map_of (mt_terms s) i = Some a" "mt_terms s' = filter (\<lambda>(j, _). j \<noteq> i) (mt_terms s)"
      "mt_sessions s' = (mt_sessions s)[a := shut (mt_sessions s ! a)]"
      using i unfolding s' by (simp_all add: terminal_close_def term_audit_def)
    have keys: "distinct (map fst (mt_terms s))" using assms(1) by (simp add: terms_inv_def)
    have "\<exists>j. (j, b) \<in> set (mt_terms s')" if "b < length (mt_sessions s')" "ms_reading (mt_sessions s' ! b)" for b
    proof -
      have "b \<noteq> a" using that ia(3) by (auto simp: shut_def)
      moreover from this that ia(3) have "ms_reading (mt_sessions s ! b)" "b < length (mt_sessions s)" by simp_all
      then obtain j where j: "(j, b) \<in> set (mt_terms s)" using assms(1) by (auto simp: terms_inv_def)
      ultimately have "j \<noteq> i" using ia(1) map_of_is_SomeI [OF keys j] by auto
      with j ia(2) show ?thesis by auto
    qed
    moreover have "distinct (map fst (mt_terms s'))" using keys ia(2) by (simp add: distinct_map_filter)
    moreover have "\<forall>j b. (j, b) \<in> set (mt_terms s') \<longrightarrow> b < length (mt_sessions s')"
      using assms(1) ia(2,3) by (auto simp: terms_inv_def)
    ultimately show ?thesis by (simp add: terms_inv_def)
  next
    case False
    with Close assms show ?thesis by (auto simp: terminal_close_def split: sum.splits option.splits)
  qed
next
  case CloseAll
  with assms(2) have s': "s' = close_all s" by simp
  have "\<not> ms_reading (mt_sessions s' ! b)" if "b < length (mt_sessions s)" for b
    using shut_each_reading [OF that, of "mt_terms s"] assms(1) that s' by (force simp: close_all_def terms_inv_def)
  with s' show ?thesis by (simp add: terms_inv_def close_all_def)
qed (use assms in \<open>auto intro!: terms_inv_same [OF assms(1)]
      simp: open_check_def terminal_send_def reader_data_def reader_end_def nth_list_update_at shut_def Let_def
      split: sum.splits option.splits if_splits target.splits\<close>)

interpretation terms: invariant_system terms_init terms_step terms_inv
proof (unfold_locales, goal_cases)
  case (1 s)
  then show ?case by (simp add: terms_init_def terms_new_def terms_inv_def)
next
  case (2 s s')
  from 2(2) terms_step_inv [OF 2(1)] show ?case by (auto elim: terms_step.cases)
qed

text \<open>
  No terminal is orphaned while the server runs: in every interleaving of opening,
  using, closing and ending terminals, a session whose reading task still runs is in the
  table under its identifier, so that \<open>terminal_close\<close> finds it, and \<open>close_all\<close> ends every
  one of them and empties the table.
\<close>

theorem terminals_are_owned:
  assumes "reachable terms_init terms_step s" "a < length (mt_sessions s)"
  shows "(ms_reading (mt_sessions s ! a) \<longrightarrow> (\<exists>i. map_of (mt_terms s) i = Some a)) \<and>
    \<not> ms_reading (mt_sessions (close_all s) ! a) \<and> mt_terms (close_all s) = []"
proof -
  have inv: "terms_inv s" by (rule terms.inv_reachable [OF assms(1)])
  have "terms_inv (close_all s)" using terms_step_inv [OF inv, of CloseAll "close_all s"] by simp
  moreover have "length (mt_sessions (close_all s)) = length (mt_sessions s)" by (simp add: close_all_def)
  ultimately have "\<not> ms_reading (mt_sessions (close_all s) ! a)" using assms(2) by (auto simp: terms_inv_def close_all_def)
  with inv assms(2) show ?thesis by (auto simp: terms_inv_def close_all_def)
qed

definition ssh_args :: Value where
  "ssh_args = VObject [(''session_id'', VString ''s'')]"

fun terms_run :: "term_event list \<Rightarrow> McpTerminalState \<Rightarrow> McpTerminalState option" where
  "terms_run [] s = Some s"
| "terms_run (ev # evs) s = (case term_step ev s of None \<Rightarrow> None | Some s' \<Rightarrow> terms_run evs s')"

lemma terms_run_reachable:
  "terms_run evs s = Some s' \<Longrightarrow> reachable terms_init terms_step s \<Longrightarrow> reachable terms_init terms_step s'"
proof (induction evs arbitrary: s)
  case (Cons ev evs)
  then obtain s1 where "term_step ev s = Some s1" "terms_run evs s1 = Some s'" by (auto split: option.splits)
  with Cons show ?case by (blast intro: reach_step term_event)
qed simp

lemma terms_new_reachable: "reachable terms_init terms_step terms_new"
  by (rule reach_init) (simp add: terms_init_def)

lemmas terms_defs =
  terms_new_def open_check_def open_register_def term_audit_def close_all_def get_str_def ssh_args_def shut_def buf_new_def Let_def

theorem terminals_are_owned_witness:
  "\<exists>s i. terms_run [OpenCheck (\<lambda>_. Ok SshTarget) (\<lambda>_. False) ssh_args, OpenRegister 0 (Ok ''t1'')] terms_new = Some s \<and>
     map_of (mt_terms s) i = Some 0 \<and> \<not> ms_reading (mt_sessions (close_all s) ! 0)"
proof -
  have "\<exists>s. terms_run [OpenCheck (\<lambda>_. Ok SshTarget) (\<lambda>_. False) ssh_args, OpenRegister 0 (Ok ''t1'')] terms_new = Some s \<and>
      length (mt_sessions s) = 1 \<and> ms_reading (mt_sessions s ! 0)"
    by (simp add: terms_defs)
  then obtain s where s: "terms_run [OpenCheck (\<lambda>_. Ok SshTarget) (\<lambda>_. False) ssh_args, OpenRegister 0 (Ok ''t1'')] terms_new = Some s"
    "length (mt_sessions s) = 1" "ms_reading (mt_sessions s ! 0)" by blast
  have "0 < length (mt_sessions s)" using s(2) by (cases "mt_sessions s") auto
  from terminals_are_owned [OF terms_run_reachable [OF s(1) terms_new_reachable] this] s show ?thesis by blast
qed

text \<open>
  Stopping the server can leave a terminal behind. A \<open>terminal_open\<close> that is connecting
  while \<open>close_all\<close> runs registers its terminal afterwards: the server is stopped, the
  shell and its connection live on, and only another start and stop would end them.
\<close>

theorem open_survives_close_all:
  assumes "mt_opening s \<noteq> []" "mt_terms s = []"
  shows "\<exists>r s'. open_register 0 (Ok i) (close_all s) = Some (r, s') \<and> r = Ok i \<and>
    mt_terms s' = [(i, length (mt_sessions s))] \<and> ms_reading (mt_sessions s' ! length (mt_sessions s))"
  using assms by (simp add: open_register_def close_all_def term_audit_def nth_append Let_def)

theorem open_survives_close_all_witness:
  "\<exists>s r s'. terms_run [OpenCheck (\<lambda>_. Ok SshTarget) (\<lambda>_. False) ssh_args] terms_new = Some s \<and>
     open_register 0 (Ok ''t1'') (close_all s) = Some (r, s') \<and> mt_terms s' = [(''t1'', 0)]"
proof -
  have "\<exists>s. terms_run [OpenCheck (\<lambda>_. Ok SshTarget) (\<lambda>_. False) ssh_args] terms_new = Some s \<and> mt_opening s \<noteq> [] \<and> mt_terms s = [] \<and>
      length (mt_sessions s) = 0"
    by (simp add: terms_defs)
  then obtain s where s: "terms_run [OpenCheck (\<lambda>_. Ok SshTarget) (\<lambda>_. False) ssh_args] terms_new = Some s" "mt_opening s \<noteq> []"
    "mt_terms s = []" "length (mt_sessions s) = 0" by blast
  from open_survives_close_all [OF s(2,3), of "''t1''"] s(1,4) show ?thesis by metis
qed

end
