(* ===== verification/Mcp_Sftp.thy ===== *)
theory Mcp_Sftp
  imports Mcp_Server Sftp_Transfer
begin

text \<open>
  The SFTP tools of the MCP server (\<open>sftp_tool\<close> in \<^verbatim>\<open>src/crates/app/src/mcp.rs\<close>). A call gives its
  answer and what it did, in order: changes on the server, transfers put into the queue and
  entries of the audit log. The time limit of a call cuts this sequence anywhere. What the
  server, the local file system and the clock answer is in \<open>sftp_env\<close>.
\<close>

section \<open>Arguments and answers\<close>

definition SFTP_READ_DEFAULT_CAP :: u64 where "SFTP_READ_DEFAULT_CAP = 256 * 1024"
definition SFTP_IO_MAX :: u64 where "SFTP_IO_MAX = 1024 * 1024"
definition SFTP_OP_TIMEOUT_S :: nat where "SFTP_OP_TIMEOUT_S = 30"

datatype change =
    OverwriteFile string string
  | MakeDir string
  | RemoveRecursive string
  | RemoveDir string
  | RemoveFile string
  | RenamePath string string
  | ChangeMode string u32

datatype act = Changed change | Enqueued TransferDirection string string u64 | Audited audit

record sftp_env =
  se_ctx :: "string \<Rightarrow> (string, unit) result"
  se_home :: "(string, string) result"
  se_list :: "string \<Rightarrow> (string, Value list) result"
  se_lstat :: "string \<Rightarrow> (string, bool \<times> Value) result"
  se_stat :: "string \<Rightarrow> (string, bool \<times> u64) result"
  se_open_read :: "string \<Rightarrow> (string, u8 list) result"
  se_change :: "change \<Rightarrow> (string, unit) result"
  se_local :: "string \<Rightarrow> (string, bool \<times> u64) result"
  se_lossy :: "u8 list \<Rightarrow> string"
  se_len :: "string \<Rightarrow> nat"
  se_transfers :: "Value list"
  se_id :: string
  se_clock :: "nat \<Rightarrow> nat"
  se_poll :: "nat \<Rightarrow> TransferInfo option"
  se_view :: "TransferInfo \<Rightarrow> Value"

type_synonym tool_run = "(string, Value) result \<times> act list"

definition req_str :: "Value \<Rightarrow> string \<Rightarrow> string option" where
  "req_str args k = (case get_str args k of Some v \<Rightarrow> if v = [] then None else Some v | None \<Rightarrow> None)"

definition with_str :: "Value \<Rightarrow> string \<Rightarrow> (string \<Rightarrow> tool_run) \<Rightarrow> tool_run" where
  "with_str args k f = (case req_str args k of None \<Rightarrow> (Err (''missing '' @ k), []) | Some v \<Rightarrow> f v)"

definition sftp_ctx :: "sftp_env \<Rightarrow> Value \<Rightarrow> (string \<Rightarrow> tool_run) \<Rightarrow> tool_run" where
  "sftp_ctx en args f =
     with_str args ''session_id'' (\<lambda>sid. case se_ctx en sid of Inl e \<Rightarrow> (Err e, []) | Inr _ \<Rightarrow> f sid)"

definition audit_act :: "string \<Rightarrow> string \<Rightarrow> Value \<Rightarrow> act" where
  "audit_act sid action detail = Audited \<lparr>au_session = sid, au_action = action, au_detail = detail\<rparr>"

definition num :: "nat \<Rightarrow> Value" where
  "num n = VNumber (Some (of_nat n))"

text \<open>A change, the entry for it and the answer; a change that fails is not recorded.\<close>

definition change_tool :: "sftp_env \<Rightarrow> string \<Rightarrow> change \<Rightarrow> string \<Rightarrow> Value \<Rightarrow> Value \<Rightarrow> tool_run" where
  "change_tool en sid ch action detail answer =
     (case se_change en ch of Inl e \<Rightarrow> (Err e, []) | Inr _ \<Rightarrow> (Ok answer, [Changed ch, audit_act sid action detail]))"

text \<open>\<open>u32::from_str_radix\<close> with base eight.\<close>

definition from_octal :: "string \<Rightarrow> u32 option" where
  "from_octal s =
     (let d = (case s of c # cs \<Rightarrow> if c = CHR ''+'' then cs else s | [] \<Rightarrow> []);
          n = foldl (\<lambda>n c. 8 * n + (of_char c - 48)) (0::nat) d
      in if d = [] \<or> (\<exists>c \<in> set d. c \<notin> set ''01234567'') \<or> n \<ge> 2 ^ 32 then None else Some (of_nat n))"

section \<open>Waiting\<close>

definition wait_seconds :: "Value \<Rightarrow> nat" where
  "wait_seconds args = min (case get_u64 args ''wait_seconds'' of None \<Rightarrow> 0 | Some n \<Rightarrow> unat n) 600"

text \<open>The loop of \<open>wait_transfer\<close> with the number of the next poll; \<open>None\<close> when the polls allowed are used up.\<close>

fun wait_loop :: "sftp_env \<Rightarrow> nat \<Rightarrow> nat \<Rightarrow> nat \<Rightarrow> (string, TransferInfo) result option" where
  "wait_loop en 0 n deadline = None"
| "wait_loop en (Suc fuel) n deadline =
     (case se_poll en n of
        None \<Rightarrow> Some (Err (''no transfer '' @ se_id en))
      | Some t \<Rightarrow> if is_terminal (ti_state t) \<or> se_clock en n \<ge> deadline then Some (Ok t)
                  else wait_loop en fuel (n + 1) deadline)"

definition wait_transfer :: "sftp_env \<Rightarrow> Value \<Rightarrow> (string, Value) result" where
  "wait_transfer en args =
     (case wait_loop en 1201 0 (se_clock en 0 + 1000 * wait_seconds args) of
        None \<Rightarrow> Err ''not reached''
      | Some (Inl e) \<Rightarrow> Err e
      | Some (Inr t) \<Rightarrow> Ok (se_view en t))"

section \<open>The tools\<close>

definition sftp_read_tool :: "sftp_env \<Rightarrow> Value \<Rightarrow> tool_run" where
  "sftp_read_tool en args =
     sftp_ctx en args (\<lambda>_. with_str args ''path'' (\<lambda>path.
       let cap = unat (min (max 1 (case get_u64 args ''max_bytes'' of None \<Rightarrow> SFTP_READ_DEFAULT_CAP | Some n \<Rightarrow> n)) SFTP_IO_MAX)
       in case se_open_read en path of
            Inl e \<Rightarrow> (Err e, [])
          | Inr file_bytes \<Rightarrow>
              (let buf = take (cap + 1) file_bytes; truncated = length buf > cap; buf = take cap buf
               in (Ok (VObject [(''path'', VString path), (''bytes'', num (length buf)), (''truncated'', VBool truncated),
                     (''content'', VString (se_lossy en buf))]), []))))"

definition sftp_write_tool :: "sftp_env \<Rightarrow> Value \<Rightarrow> tool_run" where
  "sftp_write_tool en args =
     sftp_ctx en args (\<lambda>sid. with_str args ''path'' (\<lambda>path.
       case get_str args ''content'' of
         None \<Rightarrow> (Err ''missing content'', [])
       | Some content \<Rightarrow>
           if se_len en content > unat SFTP_IO_MAX then (Err ''content too long'', [])
           else (let v = VObject [(''path'', VString path), (''bytes'', num (se_len en content))]
                 in change_tool en sid (OverwriteFile path content) ''mcp_sftp_write'' v v)))"

definition sftp_delete_tool :: "sftp_env \<Rightarrow> Value \<Rightarrow> tool_run" where
  "sftp_delete_tool en args =
     sftp_ctx en args (\<lambda>sid. with_str args ''path'' (\<lambda>path.
       let recursive = (json_get args ''recursive'' = Some (VBool True))
       in case se_lstat en path of
            Inl e \<Rightarrow> (Err e, [])
          | Inr (is_dir, _) \<Rightarrow>
              change_tool en sid (if is_dir then if recursive then RemoveRecursive path else RemoveDir path else RemoveFile path)
                ''mcp_sftp_delete'' (VObject [(''path'', VString path), (''recursive'', VBool recursive)])
                (VObject [(''ok'', VBool True), (''path'', VString path)])))"

definition sftp_rename_tool :: "sftp_env \<Rightarrow> Value \<Rightarrow> tool_run" where
  "sftp_rename_tool en args =
     sftp_ctx en args (\<lambda>sid. with_str args ''from'' (\<lambda>src. with_str args ''to'' (\<lambda>dst.
       change_tool en sid (RenamePath src dst) ''mcp_sftp_rename'' (VObject [(''from'', VString src), (''to'', VString dst)])
         (VObject [(''ok'', VBool True), (''from'', VString src), (''to'', VString dst)]))))"

definition sftp_chmod_tool :: "sftp_env \<Rightarrow> Value \<Rightarrow> tool_run" where
  "sftp_chmod_tool en args =
     sftp_ctx en args (\<lambda>sid. with_str args ''path'' (\<lambda>path. with_str args ''mode'' (\<lambda>mode_raw.
       case from_octal mode_raw of
         None \<Rightarrow> (Err (''mode: '' @ mode_raw), [])
       | Some mode \<Rightarrow>
           change_tool en sid (ChangeMode path mode) ''mcp_sftp_chmod'' (VObject [(''path'', VString path), (''mode'', VString mode_raw)])
             (VObject [(''ok'', VBool True), (''path'', VString path), (''mode'', VString mode_raw)]))))"

definition enqueue_tool :: "sftp_env \<Rightarrow> Value \<Rightarrow> string \<Rightarrow> TransferDirection \<Rightarrow> string \<Rightarrow> string \<Rightarrow> u64 \<Rightarrow> string \<Rightarrow> tool_run" where
  "enqueue_tool en args sid dir local remote bytes action =
     (wait_transfer en args,
      [Enqueued dir local remote bytes,
       audit_act sid action (VObject [(''local'', VString local), (''remote'', VString remote), (''bytes'', VNumber (Some bytes)),
         (''transferId'', VString (se_id en))])])"

definition sftp_upload_tool :: "sftp_env \<Rightarrow> Value \<Rightarrow> tool_run" where
  "sftp_upload_tool en args =
     sftp_ctx en args (\<lambda>sid. with_str args ''local_path'' (\<lambda>local. with_str args ''remote_path'' (\<lambda>remote.
       case se_local en local of
         Inl e \<Rightarrow> (Err e, [])
       | Inr (is_file, len) \<Rightarrow>
           if \<not> is_file then (Err (''not a file: '' @ local), [])
           else enqueue_tool en args sid Upload local remote len ''mcp_sftp_upload'')))"

definition sftp_download_tool :: "sftp_env \<Rightarrow> Value \<Rightarrow> tool_run" where
  "sftp_download_tool en args =
     sftp_ctx en args (\<lambda>sid. with_str args ''remote_path'' (\<lambda>remote. with_str args ''local_path'' (\<lambda>local.
       case se_stat en remote of
         Inl e \<Rightarrow> (Err e, [])
       | Inr (is_dir, len) \<Rightarrow>
           if is_dir then (Err (''a directory: '' @ remote), [])
           else enqueue_tool en args sid Download local remote len ''mcp_sftp_download'')))"

definition sftp_tool_inner :: "sftp_env \<Rightarrow> string \<Rightarrow> Value \<Rightarrow> tool_run" where
  "sftp_tool_inner en name args =
     (if name = ''sftp_home'' then
        sftp_ctx en args (\<lambda>_. (map_sum id (\<lambda>p. VObject [(''path'', VString p)]) (se_home en), []))
      else if name = ''sftp_list'' then
        sftp_ctx en args (\<lambda>_. with_str args ''path'' (\<lambda>path.
          (map_sum id (\<lambda>xs. VObject [(''path'', VString path), (''entries'', VArray xs)]) (se_list en path), [])))
      else if name = ''sftp_stat'' then
        sftp_ctx en args (\<lambda>_. with_str args ''path'' (\<lambda>path. (map_sum id snd (se_lstat en path), [])))
      else if name = ''sftp_read'' then sftp_read_tool en args
      else if name = ''sftp_write'' then sftp_write_tool en args
      else if name = ''sftp_mkdir'' then
        sftp_ctx en args (\<lambda>sid. with_str args ''path'' (\<lambda>path.
          change_tool en sid (MakeDir path) ''mcp_sftp_mkdir'' (VObject [(''path'', VString path)])
            (VObject [(''ok'', VBool True), (''path'', VString path)])))
      else if name = ''sftp_delete'' then sftp_delete_tool en args
      else if name = ''sftp_rename'' then sftp_rename_tool en args
      else if name = ''sftp_chmod'' then sftp_chmod_tool en args
      else if name = ''sftp_upload'' then sftp_upload_tool en args
      else if name = ''sftp_download'' then sftp_download_tool en args
      else if name = ''sftp_transfer_list'' then
        sftp_ctx en args (\<lambda>_. (Ok (VObject [(''transfers'', VArray (se_transfers en))]), []))
      else (Err (''unknown tool: '' @ name), []))"

text \<open>The call under its time limit: it ends by itself, or is given up after some of its acts.\<close>

definition sftp_tool :: "sftp_env \<Rightarrow> string \<Rightarrow> Value \<Rightarrow> nat option \<Rightarrow> tool_run" where
  "sftp_tool en name args stop =
     (let (r, acts) = sftp_tool_inner en name args
      in case stop of
           None \<Rightarrow> (r, acts)
         | Some n \<Rightarrow> (Err (''SFTP time limit '' @ show_nat (SFTP_OP_TIMEOUT_S + wait_seconds args)), take n acts))"

section \<open>What a call changes\<close>

text \<open>The shape of what a call did: nothing, or one act and the entry for it.\<close>

definition audited_once :: "Value \<Rightarrow> string \<Rightarrow> tool_run \<Rightarrow> bool" where
  "audited_once args name r \<longleftrightarrow> snd r = [] \<or>
     (\<exists>a sid detail. req_str args ''session_id'' = Some sid \<and> snd r = [a, audit_act sid (''mcp_'' @ name) detail] \<and>
        (\<forall>au. a \<noteq> Audited au))"

lemma audited_once_ctx:
  assumes "\<And>sid. req_str args ''session_id'' = Some sid \<Longrightarrow> audited_once args name (f sid)"
  shows "audited_once args name (sftp_ctx en args f)"
  using assms by (auto simp: sftp_ctx_def with_str_def audited_once_def split: option.splits sum.splits)

lemma audited_once_str:
  assumes "\<And>v. audited_once args name (f v)"
  shows "audited_once args name (with_str args k f)"
  using assms by (auto simp: with_str_def audited_once_def split: option.splits)

lemma audited_once_change:
  "req_str args ''session_id'' = Some sid \<Longrightarrow> audited_once args name (change_tool en sid ch (''mcp_'' @ name) d v)"
  by (auto simp: change_tool_def audited_once_def split: sum.splits)

lemma audited_once_enqueue:
  "req_str args ''session_id'' = Some sid \<Longrightarrow> audited_once args name (enqueue_tool en args sid dir l rm n (''mcp_'' @ name))"
  by (auto simp: enqueue_tool_def audited_once_def)

lemma audited_once_none: "audited_once args name (r, [])"
  by (simp add: audited_once_def)

lemmas audited_once_intros = audited_once_ctx audited_once_str audited_once_none

lemma audited_once_tools:
  "audited_once args ''sftp_write'' (sftp_write_tool en args)"
  "audited_once args ''sftp_delete'' (sftp_delete_tool en args)"
  "audited_once args ''sftp_rename'' (sftp_rename_tool en args)"
  "audited_once args ''sftp_chmod'' (sftp_chmod_tool en args)"
  "audited_once args ''sftp_upload'' (sftp_upload_tool en args)"
  "audited_once args ''sftp_download'' (sftp_download_tool en args)"
  using audited_once_change [of args _ "''sftp_write''" en] audited_once_change [of args _ "''sftp_delete''" en]
    audited_once_change [of args _ "''sftp_rename''" en] audited_once_change [of args _ "''sftp_chmod''" en]
    audited_once_enqueue [of args _ "''sftp_upload''" en] audited_once_enqueue [of args _ "''sftp_download''" en]
  by (auto simp: sftp_write_tool_def sftp_delete_tool_def sftp_rename_tool_def sftp_chmod_tool_def sftp_upload_tool_def
      sftp_download_tool_def Let_def intro!: audited_once_intros split: option.split sum.split)

lemma sftp_ctx_acts: "(\<And>sid. snd (f sid) = []) \<Longrightarrow> snd (sftp_ctx en args f) = []"
  by (simp add: sftp_ctx_def with_str_def split: option.split sum.split)

lemma with_str_acts: "(\<And>v. snd (f v) = []) \<Longrightarrow> snd (with_str args k f) = []"
  by (simp add: with_str_def split: option.split)

lemma sftp_tool_inner_simps:
  "sftp_tool_inner en ''sftp_home'' args = sftp_ctx en args (\<lambda>_. (map_sum id (\<lambda>p. VObject [(''path'', VString p)]) (se_home en), []))"
  "sftp_tool_inner en ''sftp_list'' args = sftp_ctx en args (\<lambda>_. with_str args ''path'' (\<lambda>path.
     (map_sum id (\<lambda>xs. VObject [(''path'', VString path), (''entries'', VArray xs)]) (se_list en path), [])))"
  "sftp_tool_inner en ''sftp_stat'' args = sftp_ctx en args (\<lambda>_. with_str args ''path'' (\<lambda>path. (map_sum id snd (se_lstat en path), [])))"
  "sftp_tool_inner en ''sftp_transfer_list'' args = sftp_ctx en args (\<lambda>_. (Ok (VObject [(''transfers'', VArray (se_transfers en))]), []))"
  "sftp_tool_inner en ''sftp_mkdir'' args = sftp_ctx en args (\<lambda>sid. with_str args ''path'' (\<lambda>path.
     change_tool en sid (MakeDir path) ''mcp_sftp_mkdir'' (VObject [(''path'', VString path)])
       (VObject [(''ok'', VBool True), (''path'', VString path)])))"
  "sftp_tool_inner en ''sftp_read'' args = sftp_read_tool en args"
  "sftp_tool_inner en ''sftp_write'' args = sftp_write_tool en args"
  "sftp_tool_inner en ''sftp_delete'' args = sftp_delete_tool en args"
  "sftp_tool_inner en ''sftp_rename'' args = sftp_rename_tool en args"
  "sftp_tool_inner en ''sftp_chmod'' args = sftp_chmod_tool en args"
  "sftp_tool_inner en ''sftp_upload'' args = sftp_upload_tool en args"
  "sftp_tool_inner en ''sftp_download'' args = sftp_download_tool en args"
  unfolding sftp_tool_inner_def by simp_all

abbreviation reading :: "string list" where
  "reading \<equiv> [''sftp_home'', ''sftp_list'', ''sftp_stat'', ''sftp_read'', ''sftp_transfer_list'']"

abbreviation changing :: "string list" where
  "changing \<equiv> [''sftp_write'', ''sftp_mkdir'', ''sftp_delete'', ''sftp_rename'', ''sftp_chmod'', ''sftp_upload'', ''sftp_download'']"

lemma unknown_does_nothing: "name \<notin> set (reading @ changing) \<Longrightarrow> snd (sftp_tool_inner en name args) = []"
  unfolding sftp_tool_inner_def by simp

lemma read_does_nothing: "snd (sftp_read_tool en args) = []"
  unfolding sftp_read_tool_def by (intro sftp_ctx_acts with_str_acts) (simp add: Let_def split: sum.split)

lemma reading_does_nothing: "name \<in> set reading \<Longrightarrow> snd (sftp_tool_inner en name args) = []"
  unfolding list.set
  by (elim insertE emptyE; simp only: sftp_tool_inner_simps; (rule sftp_ctx_acts with_str_acts read_does_nothing | simp)+)

lemma inner_audited_once:
  assumes "name \<in> set changing"
  shows "audited_once args name (sftp_tool_inner en name args)"
proof -
  have "audited_once args ''sftp_mkdir'' (sftp_tool_inner en ''sftp_mkdir'' args)"
    using audited_once_change [of args _ "''sftp_mkdir''" en]
    unfolding sftp_tool_inner_simps by (intro audited_once_intros) simp
  then show ?thesis
    using assms audited_once_tools [of args en] unfolding list.set by (elim insertE emptyE) (simp_all only: sftp_tool_inner_simps)
qed

lemma changing_group:
  "name \<in> set changing \<Longrightarrow> tool_group_key name \<in> {Some ''sftp_write'', Some ''sftp_transfer''} \<and> name \<noteq> ''sftp_transfer_list''"
  unfolding list.set by (elim insertE emptyE) (simp_all add: tool_group_key_def)


text \<open>What \<open>sftp_read\<close> returns is the beginning of the file, at most the bytes asked for and at most
  1 MiB, and it says so exactly when there is more.\<close>

theorem read_is_capped_prefix:
  assumes "sftp_tool en ''sftp_read'' args None = (Ok v, acts)"
    and "cap = (case get_u64 args ''max_bytes'' of None \<Rightarrow> 262144 | Some n \<Rightarrow> max 1 (min 1048576 (unat n)))"
  shows "\<exists>path file_bytes. req_str args ''path'' = Some path \<and> se_open_read en path = Ok file_bytes \<and> acts = [] \<and>
    json_get v ''content'' = Some (VString (se_lossy en (take cap file_bytes))) \<and>
    json_get v ''truncated'' = Some (VBool (length file_bytes > cap))"
proof -
  have cap: "unat (min (max 1 (case get_u64 args ''max_bytes'' of None \<Rightarrow> SFTP_READ_DEFAULT_CAP | Some n \<Rightarrow> n)) SFTP_IO_MAX) = cap"
    unfolding assms(2) SFTP_READ_DEFAULT_CAP_def SFTP_IO_MAX_def
    by (auto simp: min_def max_def word_le_nat_alt unat_eq_0 split: option.split)
  show ?thesis using assms(1)
    by (auto simp: sftp_tool_def sftp_tool_inner_simps sftp_read_tool_def sftp_ctx_def with_str_def cap Let_def
        split: option.splits sum.splits)
qed

text \<open>Waiting for a transfer ends: with polls half a second apart, at most 1201 of them, and the
  answer is a transfer that has ended or one polled at or after the deadline.\<close>

theorem waiting_ends:
  assumes "\<And>n. se_clock en n \<ge> se_clock en 0 + 500 * n"
  shows "\<exists>r. wait_loop en 1201 0 (se_clock en 0 + 1000 * wait_seconds args) = Some r \<and>
    (\<forall>t. r = Ok t \<longrightarrow> (\<exists>n. se_poll en n = Some t \<and> (is_terminal (ti_state t) \<or> se_clock en n \<ge> se_clock en 0 + 1000 * wait_seconds args)))"
proof -
  let ?d = "se_clock en 0 + 1000 * wait_seconds args"
  have "\<exists>r. wait_loop en fuel n ?d = Some r \<and>
      (\<forall>t. r = Ok t \<longrightarrow> (\<exists>n. se_poll en n = Some t \<and> (is_terminal (ti_state t) \<or> se_clock en n \<ge> ?d)))"
    if "fuel > 0" "2 * wait_seconds args < n + fuel" for fuel n
    using that
  proof (induction fuel arbitrary: n)
    case (Suc fuel)
    show ?case
    proof (cases "fuel = 0")
      case True
      then have "se_clock en n \<ge> ?d" using Suc.prems assms [of n] by simp
      then show ?thesis by (auto split: option.split)
    next
      case False
      then show ?thesis using Suc.IH [of "n + 1"] Suc.prems by (auto split: option.split)
    qed
  qed simp
  moreover have "wait_seconds args \<le> 600" by (simp add: wait_seconds_def)
  ultimately show ?thesis by simp
qed

section \<open>Examples\<close>

definition sample_sftp :: sftp_env where
  "sample_sftp =
     \<lparr>se_ctx = (\<lambda>_. Ok ()), se_home = Ok ''/h'', se_list = (\<lambda>_. Ok []), se_lstat = (\<lambda>_. Ok (False, VNull)),
      se_stat = (\<lambda>_. Ok (False, 3)), se_open_read = (\<lambda>_. Ok [1, 2, 3]), se_change = (\<lambda>_. Ok ()), se_local = (\<lambda>_. Ok (True, 3)),
      se_lossy = (\<lambda>_. ''text''), se_len = length, se_transfers = [], se_id = ''tr-1'', se_clock = (\<lambda>n. 500 * n),
      se_poll = (\<lambda>_. Some (t_info (fresh_inner ''tr-1'' Upload ''l'' ''r'' 3 Overwrite))), se_view = (\<lambda>_. VNull)\<rparr>"

definition sample_args :: Value where
  "sample_args = VObject [(''session_id'', VString ''s''), (''path'', VString ''/d''), (''max_bytes'', VNumber (Some 2))]"

lemma sample_req: "req_str sample_args ''session_id'' = Some ''s''" "req_str sample_args ''path'' = Some ''/d''"
  by (simp_all add: req_str_def get_str_def sample_args_def)


lemma read_is_capped_prefix_witness:
  "\<exists>v. sftp_tool sample_sftp ''sftp_read'' sample_args None = (Ok v, []) \<and> json_get v ''truncated'' = Some (VBool True)"
proof -
  have "\<exists>v. sftp_tool sample_sftp ''sftp_read'' sample_args None = (Ok v, [])"
    by (simp add: sftp_tool_def sftp_tool_inner_simps sftp_read_tool_def sftp_ctx_def with_str_def sample_req Let_def)
      (simp add: sample_sftp_def)
  then obtain v where v: "sftp_tool sample_sftp ''sftp_read'' sample_args None = (Ok v, [])" ..
  have "get_u64 sample_args ''max_bytes'' = Some 2" by (simp add: get_u64_def sample_args_def)
  then have "json_get v ''truncated'' = Some (VBool True)"
    using read_is_capped_prefix [OF v refl] by (auto simp: sample_sftp_def)
  with v show ?thesis by blast
qed

lemma waiting_ends_witness: "\<exists>r. wait_loop sample_sftp 1201 0 (1000 * wait_seconds sample_args) = Some r"
proof -
  have "se_clock sample_sftp n \<ge> se_clock sample_sftp 0 + 500 * n" for n by (simp add: sample_sftp_def)
  from waiting_ends [OF this, of sample_args] show ?thesis by (auto simp: sample_sftp_def)
qed

end
