(* ===== verification/Audit_Log.thy ===== *)
theory Audit_Log
  imports Rust_Text "HOL-Library.List_Lexorder" "HOL-Library.Char_ord"
begin

text \<open>
  The audit log, \<^verbatim>\<open>src/crates/core-store/src/audit.rs\<close>: a table that rows are only appended
  to, a query that pages through it backwards with a cursor, and the removal of old rows.

  The table is the list of its rows in the order of their identifiers, which SQLite counts
  up (\<open>AUTOINCREMENT\<close>). The time of an insertion and the cut-off of the removal are
  arguments; a failed call of SQLite returns its error and changes nothing, and is not
  modelled further. Details are the stored JSON text.
\<close>

section \<open>The table\<close>

datatype Actor = Gui | Cli | Mcp

fun actor_str :: "Actor \<Rightarrow> string" where
  "actor_str Gui = ''gui''"
| "actor_str Cli = ''cli''"
| "actor_str Mcp = ''mcp''"

record AuditRecord =
  ar_id :: int
  ar_ts :: string
  ar_actor :: string
  ar_session_id :: "string option"
  ar_action :: string
  ar_detail :: string

record AuditRepo =
  ar_rows :: "AuditRecord list"
  ar_last :: int

definition audit_new :: AuditRepo where
  "audit_new = \<lparr>ar_rows = [], ar_last = 0\<rparr>"

definition audit_append :: "string \<Rightarrow> Actor \<Rightarrow> string option \<Rightarrow> string \<Rightarrow> string \<Rightarrow> AuditRepo \<Rightarrow> AuditRepo" where
  "audit_append now actor sid action detail s =
     s\<lparr>ar_rows := ar_rows s @ [\<lparr>ar_id = ar_last s + 1, ar_ts = now, ar_actor = actor_str actor, ar_session_id = sid,
         ar_action = action, ar_detail = detail\<rparr>],
       ar_last := ar_last s + 1\<rparr>"

definition page_limit :: "u32 \<Rightarrow> nat" where
  "page_limit limit = min (max 1 (unat limit)) 500"

definition select_desc :: "int option \<Rightarrow> nat \<Rightarrow> AuditRepo \<Rightarrow> AuditRecord list" where
  "select_desc cursor n s =
     take n (rev (case cursor of None \<Rightarrow> ar_rows s | Some c \<Rightarrow> filter (\<lambda>r. ar_id r < c) (ar_rows s)))"

definition audit_query :: "int option \<Rightarrow> u32 \<Rightarrow> AuditRepo \<Rightarrow> AuditRecord list \<times> int option" where
  "audit_query cursor limit s =
     (let n = page_limit limit; records = select_desc cursor (n + 1) s
      in if length records > n then (butlast records, Some (ar_id (last records))) else (records, None))"

definition prune_older_than :: "string \<Rightarrow> AuditRepo \<Rightarrow> nat \<times> AuditRepo" where
  "prune_older_than cutoff s =
     (length (filter (\<lambda>r. ar_ts r < cutoff) (ar_rows s)), s\<lparr>ar_rows := filter (\<lambda>r. \<not> ar_ts r < cutoff) (ar_rows s)\<rparr>)"

text \<open>All pages, by following the cursor; the recursion ends because the cursor goes down to identifiers that are there.\<close>

fun all_pages :: "nat \<Rightarrow> int option \<Rightarrow> u32 \<Rightarrow> AuditRepo \<Rightarrow> AuditRecord list" where
  "all_pages 0 cursor limit s = []"
| "all_pages (Suc fuel) cursor limit s =
     (let (page, next) = audit_query cursor limit s
      in page @ (case next of None \<Rightarrow> [] | Some c \<Rightarrow> all_pages fuel (Some c) limit s))"

section \<open>Identifiers\<close>

definition audit_ok :: "AuditRepo \<Rightarrow> bool" where
  "audit_ok s \<longleftrightarrow> sorted_wrt (<) (map ar_id (ar_rows s)) \<and> list_all (\<lambda>r. 0 < ar_id r \<and> ar_id r \<le> ar_last s) (ar_rows s) \<and> 0 \<le> ar_last s"

lemma audit_ok_new: "audit_ok audit_new"
  by (simp add: audit_ok_def audit_new_def)

lemma audit_ok_append: "audit_ok s \<Longrightarrow> audit_ok (audit_append now actor sid action detail s)"
  by (auto simp: audit_ok_def audit_append_def sorted_wrt_append list_all_iff)

lemma audit_ok_prune: "audit_ok s \<Longrightarrow> audit_ok (snd (prune_older_than cutoff s))"
  by (auto simp: audit_ok_def prune_older_than_def list_all_iff sorted_wrt_map sorted_wrt_filter)

text \<open>The rows below an identifier are those after it in descending order.\<close>

lemma below_desc:
  assumes "sorted_wrt (\<lambda>a b. ar_id b < ar_id a) (xs @ r # ys)"
  shows "filter (\<lambda>x. ar_id x < ar_id r) (xs @ r # ys) = ys"
proof -
  have "filter (\<lambda>x. ar_id x < ar_id r) xs = []" "filter (\<lambda>x. ar_id x < ar_id r) ys = ys"
    using assms by (auto simp: sorted_wrt_append filter_empty_conv filter_id_conv)
  then show ?thesis by simp
qed

definition descending :: "AuditRepo \<Rightarrow> AuditRecord list" where
  "descending s = rev (ar_rows s)"

lemma descending_sorted: "audit_ok s \<Longrightarrow> sorted_wrt (\<lambda>a b. ar_id b < ar_id a) (descending s)"
  by (simp add: audit_ok_def descending_def sorted_wrt_rev sorted_wrt_map)

lemma select_cursor:
  assumes "audit_ok s" "descending s = xs @ r # ys"
  shows "select_desc (Some (ar_id r)) n s = take n ys" "select_desc None n s = take n (descending s)"
proof -
  have "filter (\<lambda>x. ar_id x < ar_id r) (descending s) = ys"
    using below_desc descending_sorted [OF assms(1)] assms(2) by simp
  then show "select_desc (Some (ar_id r)) n s = take n ys"
    by (simp add: select_desc_def descending_def rev_filter)
qed (simp add: select_desc_def descending_def)

text \<open>The query on what is left behind a cursor, \<open>zs\<close> in descending order.\<close>

lemma query_rest:
  assumes "\<And>n. select_desc cursor n s = take n zs"
  shows "audit_query cursor limit s =
    (take (page_limit limit) zs,
     if page_limit limit < length zs then Some (ar_id (zs ! page_limit limit)) else None)"
proof (cases "page_limit limit < length zs")
  case True
  then have "take (Suc (page_limit limit)) zs = take (page_limit limit) zs @ [zs ! page_limit limit]"
    by (rule take_Suc_conv_app_nth)
  with True assms show ?thesis by (simp add: audit_query_def Let_def)
next
  case False
  with assms show ?thesis by (simp add: audit_query_def Let_def)
qed

section \<open>Paging\<close>

text \<open>A list without every \<open>(n + 1)\<close>-th element.\<close>

fun drop_every :: "nat \<Rightarrow> 'a list \<Rightarrow> 'a list" where
  "drop_every n xs = (if length xs \<le> n then xs else take n xs @ drop_every n (drop (Suc n) xs))"

declare drop_every.simps [simp del]

lemma page_limit_pos: "0 < page_limit limit" "page_limit limit \<le> 500"
  by (simp_all add: page_limit_def)

lemma all_pages_rest:
  "audit_ok s \<Longrightarrow> descending s = xs @ zs \<Longrightarrow> (\<And>n. select_desc cursor n s = take n zs) \<Longrightarrow> length zs < fuel \<Longrightarrow>
     all_pages fuel cursor limit s = drop_every (page_limit limit) zs"
proof (induction fuel arbitrary: xs zs cursor)
  case (Suc fuel)
  let ?n = "page_limit limit"
  note q = query_rest [of cursor s zs limit, OF Suc.prems(3)]
  show ?case
  proof (cases "?n < length zs")
    case False
    with q show ?thesis by (simp add: drop_every.simps)
  next
    case True
    let ?r = "zs ! ?n" and ?ys = "drop (Suc ?n) zs"
    have split: "zs = take ?n zs @ ?r # ?ys" using True by (simp add: id_take_nth_drop)
    then have d: "descending s = (xs @ take ?n zs) @ ?r # ?ys" using Suc.prems(2) by (metis append.assoc)
    have "all_pages fuel (Some (ar_id ?r)) limit s = drop_every ?n ?ys"
    proof (rule Suc.IH [OF Suc.prems(1)])
      show "descending s = ((xs @ take ?n zs) @ [?r]) @ ?ys" using d by simp
      show "select_desc (Some (ar_id ?r)) n s = take n ?ys" for n using select_cursor(1) [OF Suc.prems(1) d] .
      show "length ?ys < fuel" using Suc.prems(4) True by simp
    qed
    with q True show ?thesis by (simp add: drop_every.simps [of _ zs])
  qed
qed simp

lemma length_drop_every_less: "n < length xs \<Longrightarrow> length (drop_every n xs) < length xs"
proof (induction n xs rule: drop_every.induct)
  case (1 n xs)
  show ?case
  proof (cases "n < length (drop (Suc n) xs)")
    case True
    with 1 show ?thesis by (simp add: drop_every.simps [of n xs])
  next
    case False
    then have "drop_every n (drop (Suc n) xs) = drop (Suc n) xs" by (simp add: drop_every.simps)
    with 1 show ?thesis by (simp add: drop_every.simps [of n xs])
  qed
qed

text \<open>
  Paging through the audit log skips rows. The cursor of a page is the identifier of
  the first row that did not fit, and the next page starts below it: following the cursors
  to the end shows the log without every \<open>(limit + 1)\<close>-th row, so that a log longer than one
  page is never shown completely, and the row a cursor names is on no page.
\<close>

theorem audit_paging_skips_rows:
  assumes "audit_ok s"
  shows "all_pages (Suc (length (ar_rows s))) None limit s = drop_every (page_limit limit) (rev (ar_rows s)) \<and>
    (page_limit limit < length (ar_rows s) \<longrightarrow>
       length (all_pages (Suc (length (ar_rows s))) None limit s) < length (ar_rows s) \<and>
       (\<exists>r. r \<in> set (ar_rows s) \<and> snd (audit_query None limit s) = Some (ar_id r) \<and>
          r \<notin> set (fst (audit_query None limit s)) \<and> r \<notin> set (fst (audit_query (Some (ar_id r)) limit s))))"
proof -
  let ?zs = "rev (ar_rows s)" and ?n = "page_limit limit"
  have all: "select_desc None n s = take n ?zs" for n by (simp add: select_desc_def)
  have pages: "all_pages (Suc (length (ar_rows s))) None limit s = drop_every ?n ?zs"
    by (rule all_pages_rest [OF assms, of "[]"]) (simp_all add: descending_def all)
  show ?thesis
  proof (intro conjI impI pages)
    assume n: "?n < length (ar_rows s)"
    with pages length_drop_every_less [of ?n ?zs] show "length (all_pages (Suc (length (ar_rows s))) None limit s) < length (ar_rows s)"
      by simp
    let ?r = "?zs ! ?n"
    have q: "audit_query None limit s = (take ?n ?zs, Some (ar_id ?r))"
      using query_rest [of None s ?zs limit, OF all] n by simp
    have d: "descending s = take ?n ?zs @ ?r # drop (Suc ?n) ?zs" using n by (simp add: descending_def id_take_nth_drop [symmetric])
    have q2: "fst (audit_query (Some (ar_id ?r)) limit s) = take ?n (drop (Suc ?n) ?zs)"
      using query_rest [OF select_cursor(1) [OF assms d], of limit] by simp
    have sorted: "sorted_wrt (\<lambda>a b. ar_id b < ar_id a) (take ?n ?zs @ ?r # drop (Suc ?n) ?zs)"
      using descending_sorted [OF assms] d by simp
    then have "?r \<notin> set (take ?n ?zs)" "?r \<notin> set (drop (Suc ?n) ?zs)"
      unfolding sorted_wrt_append by (auto simp only: sorted_wrt.simps list.set_intros dest!: bspec less_irrefl [THEN notE])
    moreover have "?r \<in> set (ar_rows s)" using n by (metis length_rev nth_mem set_rev)
    ultimately show "\<exists>r. r \<in> set (ar_rows s) \<and> snd (audit_query None limit s) = Some (ar_id r) \<and>
        r \<notin> set (fst (audit_query None limit s)) \<and> r \<notin> set (fst (audit_query (Some (ar_id r)) limit s))"
      using q q2 by (intro exI [of _ ?r]) (auto dest: in_set_takeD)
  qed
qed

definition five_rows :: AuditRepo where
  "five_rows = fold (\<lambda>k s. audit_append ''t'' Gui None ''term_input'' [k] s) ''01234'' audit_new"

theorem audit_paging_skips_rows_witness:
  "map ar_detail (all_pages 6 None 2 five_rows) = [''4'', ''3'', ''1'', ''0'']"
proof -
  have rows: "map ar_detail (rev (ar_rows five_rows)) = [''4'', ''3'', ''2'', ''1'', ''0'']" "length (ar_rows five_rows) = 5"
    by (simp_all add: five_rows_def audit_append_def audit_new_def)
  have ok: "audit_ok five_rows" by (simp add: five_rows_def audit_ok_append audit_ok_new)
  have n: "page_limit 2 = 2" by (simp add: page_limit_def)
  have map_drop_every: "map f (drop_every m xs) = drop_every m (map f xs)" for f m and xs :: "AuditRecord list"
    by (induction m xs rule: drop_every.induct) (subst (1 2) drop_every.simps, simp add: take_map drop_map)
  have "all_pages (Suc (length (ar_rows five_rows))) None 2 five_rows = drop_every (page_limit 2) (rev (ar_rows five_rows))"
    using audit_paging_skips_rows [OF ok, of 2] by blast
  then have "map ar_detail (all_pages 6 None 2 five_rows) = drop_every 2 [''4'', ''3'', ''2'', ''1'', ''0'']"
    using rows n by (simp add: map_drop_every)
  then show ?thesis by (simp add: drop_every.simps)
qed

end
