(* ===== verification/Tunnel_Commands.thy ===== *)
theory Tunnel_Commands
  imports Tunnel_Group Session_Resolve Audit_Log
begin

text \<open>
  The stored tunnels and the commands on them: \<^verbatim>\<open>src/crates/core-store/src/tunnel.rs\<close> and
  \<^verbatim>\<open>src/crates/app/src/tunnels.rs\<close>. A command works on the store and on the tunnel manager of
  theory \<open>Tunnel_Group\<close>, whose steps it performs in order.

  The calls of one command are not interleaved with another command. The tasks of the tunnels
  run on while a \<open>stop\<close> waits: \<open>en_tasks\<close> lists the steps they take. The sockets, the hasher, the
  JSON writer, the secrets and the time of the store are arguments, constant for one command; a
  failed call of SQLite is not modelled further, except for the foreign key of a definition. The
  rates that \<open>tunnel_list\<close> adds to the figures of the manager are floating-point numbers and are
  left out.
\<close>

section \<open>Stored definitions\<close>

record TunnelRecord =
  td_id :: string
  td_session_id :: string
  td_kind :: string
  td_name :: string
  td_bind_host :: string
  td_bind_port :: u16
  td_target_host :: "string option"
  td_target_port :: "u16 option"
  td_autostart :: bool
  td_with_session :: bool
  td_created_at :: string

record tunnel_db =
  db_store :: store
  db_tunnels :: "TunnelRecord list"
  db_audit :: AuditRepo

definition validate_tunnel :: "TunnelRecord \<Rightarrow> (StoreError, unit) result" where
  "validate_tunnel rec =
     (if trim (td_id rec) = [] then Err (Validation ''empty tunnel id'')
      else if td_kind rec \<notin> {''local'', ''remote'', ''dynamic''} then Err (Validation (''unknown tunnel kind '' @ td_kind rec))
      else if trim (td_bind_host rec) = [] then Err (Validation ''empty bind address'')
      else if td_bind_port rec = 0 then Err (Validation ''bind port must be 1-65535'')
      else if td_kind rec \<noteq> ''dynamic'' then
        (case (td_target_host rec, td_target_port rec) of
           (Some h, Some p) \<Rightarrow> if trim h \<noteq> [] \<and> p > 0 then Ok () else Err (Validation ''target needed'')
         | _ \<Rightarrow> Err (Validation ''target needed''))
      else Ok ())"

text \<open>The foreign key refuses a row whose session does not exist; an update keeps the time of creation.\<close>

definition tunnel_upsert_row :: "string \<Rightarrow> TunnelRecord \<Rightarrow> tunnel_db \<Rightarrow> (StoreError, unit) result \<times> tunnel_db" where
  "tunnel_upsert_row now rec db =
     (if \<not> list_ex (\<lambda>r. sr_id r = td_session_id rec) (st_sessions (db_store db))
      then (Err (StoreQuery ''FOREIGN KEY constraint failed''), db)
      else if list_ex (\<lambda>r. td_id r = td_id rec) (db_tunnels db)
      then (Ok (), db\<lparr>db_tunnels := map (\<lambda>r. if td_id r = td_id rec then rec\<lparr>td_created_at := td_created_at r\<rparr> else r) (db_tunnels db)\<rparr>)
      else (Ok (), db\<lparr>db_tunnels := db_tunnels db @ [rec\<lparr>td_created_at := now\<rparr>]\<rparr>))"

definition tunnel_upsert :: "string \<Rightarrow> TunnelRecord \<Rightarrow> tunnel_db \<Rightarrow> (StoreError, unit) result \<times> tunnel_db" where
  "tunnel_upsert now rec db =
     (case validate_tunnel rec of
        Inl e \<Rightarrow> (Err e, db)
      | Inr _ \<Rightarrow> tunnel_upsert_row now rec db)"

definition tunnel_rows :: "tunnel_db \<Rightarrow> TunnelRecord list" where
  "tunnel_rows db = sort_key td_created_at (db_tunnels db)"

definition tunnels_for_session :: "string \<Rightarrow> tunnel_db \<Rightarrow> TunnelRecord list" where
  "tunnels_for_session sid db = filter (\<lambda>r. td_session_id r = sid) (db_tunnels db)"

definition tunnel_delete_row :: "string \<Rightarrow> tunnel_db \<Rightarrow> (StoreError, unit) result \<times> tunnel_db" where
  "tunnel_delete_row i db =
     (if list_ex (\<lambda>r. td_id r = i) (db_tunnels db)
      then (Ok (), db\<lparr>db_tunnels := filter (\<lambda>r. td_id r \<noteq> i) (db_tunnels db)\<rparr>)
      else (Err (StoreNotFound (''tunnel '' @ i)), db))"

section \<open>Calls of the manager\<close>

record tunnel_env =
  en_secrets :: secrets
  en_hash :: "(string \<times> u16 \<times> string \<times> nat) list \<Rightarrow> u64"
  en_sock :: "string \<times> u16 \<Rightarrow> (TunnelError, string option) result"
  en_tasks :: "string \<Rightarrow> tm_event list"
  en_now :: string
  en_json :: "(string \<times> string) list \<Rightarrow> string"

fun tunnel_error_str :: "TunnelError \<Rightarrow> string" where
  "tunnel_error_str (Listen b r) = ''E4001 '' @ b @ '': '' @ r"
| "tunnel_error_str (NotFound i) = ''E4002 '' @ i"
| "tunnel_error_str (TooManyConns n) = ''E4003 '' @ show_nat n"
| "tunnel_error_str (QueueBudgetExceeded n) = ''E4004 '' @ show_nat (unat n)"
| "tunnel_error_str (TargetUnreachable t r) = ''E4005 '' @ t @ '': '' @ r"
| "tunnel_error_str (TunnelSsh e) = ''E4006 '' @ ssh_str e"

text \<open>A remote tunnel opens no socket here.\<close>

definition bind_of :: "(string \<times> u16 \<Rightarrow> (TunnelError, string option) result) \<Rightarrow> TunnelKind \<Rightarrow> (TunnelError, string option) result" where
  "bind_of sock kind = (case kind of Remote _ _ \<Rightarrow> Ok None | _ \<Rightarrow> sock (kind_bind kind))"

text \<open>\<open>TunnelManager::start\<close> as one call; the steps after the first are always enabled.\<close>

definition mgr_start ::
  "(string \<times> u16 \<Rightarrow> (TunnelError, string option) result) \<Rightarrow> string \<Rightarrow> TunnelSpec \<Rightarrow> string \<Rightarrow> TunnelManager \<Rightarrow>
   (TunnelError, unit) result \<times> TunnelManager" where
  "mgr_start sock i spec key m =
     (let k = length (tm_starts m); m = start_check i spec key m
      in case sc_pc (tm_starts m ! k) of
           StartDone r \<Rightarrow> (r, m)
         | _ \<Rightarrow>
             (let m = the (start_spawn k (bind_of sock (ts_kind spec)) m)
              in case sc_pc (tm_starts m ! k) of
                   StartDone r \<Rightarrow> (r, m)
                 | _ \<Rightarrow> (Ok (), the (start_insert k m))))"

text \<open>The steps of the tasks of tunnels and groups; a step that is not enabled does nothing.\<close>

fun task_event :: "tm_event \<Rightarrow> bool" where
  "task_event (Subscribe _) = True"
| "task_event (Mirror _) = True"
| "task_event (RemoteListening _) = True"
| "task_event (TaskEnd _ _) = True"
| "task_event (TaskRelease _) = True"
| "task_event (Supervise _ _) = True"
| "task_event (NotifyOne _) = True"
| "task_event _ = False"

definition task_step :: "tm_event \<Rightarrow> TunnelManager \<Rightarrow> TunnelManager" where
  "task_step ev m = (if task_event ev then case tm_step ev m of None \<Rightarrow> m | Some m' \<Rightarrow> m' else m)"

text \<open>\<open>TunnelManager::stop\<close> as one call: the wait ends with the task or at the deadline.\<close>

definition mgr_stop :: "tm_event list \<Rightarrow> string \<Rightarrow> TunnelManager \<Rightarrow> (TunnelError, unit) result \<times> TunnelManager" where
  "mgr_stop tasks i m =
     (case stop_request i m of
        Inl e \<Rightarrow> (Err e, m)
      | Inr m1 \<Rightarrow>
          (let k = length (tm_stops m); m2 = fold task_step tasks m1
           in (Ok (), the (stop_remove k (the (stop_wait k True m2))))))"

section \<open>Starting a tunnel\<close>

text \<open>The structure of a connection: \<open>discriminant\<close> for the way of authentication, and no secret.\<close>

fun auth_discriminant :: "AuthSpec \<Rightarrow> nat" where
  "auth_discriminant (AsPassword _) = 0"
| "auth_discriminant (AsPublicKey _ _) = 1"
| "auth_discriminant AsKeyboardInteractive = 2"
| "auth_discriminant AsAgent = 3"

definition hop_shape :: "JumpHopSpec \<Rightarrow> string \<times> u16 \<times> string \<times> nat" where
  "hop_shape h = (js_host h, js_port h, js_user h, auth_discriminant (js_auth h))"

definition spec_shape :: "TermOpenSpec \<Rightarrow> (string \<times> u16 \<times> string \<times> nat) list" where
  "spec_shape s =
     (to_host s, to_port s, to_user s, auth_discriminant (to_auth s)) # map hop_shape (to_jump_chain s)"

definition nibble :: "u64 \<Rightarrow> char" where
  "nibble d = ''0123456789abcdef'' ! unat (d AND 15)"

definition hex16 :: "u64 \<Rightarrow> string" where
  "hex16 h = map (\<lambda>k. nibble (drop_bit (4 * k) h)) (rev [0..<16])"

definition tunnel_group_key :: "tunnel_env \<Rightarrow> store \<Rightarrow> string \<Rightarrow> (string, string) result" where
  "tunnel_group_key env st sid =
     (case resolve_session_spec (en_secrets env) st sid of
        None \<Rightarrow> Err ''out of fuel''
      | Some (Inl e) \<Rightarrow> Err e
      | Some (Inr spec) \<Rightarrow> Ok (sid @ '':'' @ hex16 (en_hash env (spec_shape spec))))"

record tunnel_world =
  tw_db :: tunnel_db
  tw_mgr :: TunnelManager
  tw_seq :: u64

definition in_use :: "TunnelStatus \<Rightarrow> bool" where
  "in_use s \<longleftrightarrow> s \<in> {Starting, Listening, Reconnecting}"

definition already :: "string \<Rightarrow> TunnelManager \<Rightarrow> bool" where
  "already i m \<longleftrightarrow> list_ex (\<lambda>t. tn_id t = i \<and> in_use (tn_status t)) (tunnel_list m)"

definition parse_kind :: "string \<Rightarrow> string \<Rightarrow> u16 \<Rightarrow> (string, TunnelKind) result" where
  "parse_kind kind host port =
     (if kind = ''local'' then Ok (Local host port)
      else if kind = ''remote'' then Ok (Remote host port)
      else if kind = ''dynamic'' then Ok (DynamicSocks5 host port)
      else Err (''unknown tunnel kind '' @ kind))"

definition parse_target :: "string option \<Rightarrow> u16 option \<Rightarrow> (string \<times> u16) option" where
  "parse_target h p = (case (h, p) of (Some h, Some p) \<Rightarrow> Some (h, p) | _ \<Rightarrow> None)"

fun is_dynamic :: "TunnelKind \<Rightarrow> bool" where
  "is_dynamic (DynamicSocks5 _ _) = True"
| "is_dynamic _ = False"

definition tunnel_spec :: "TunnelKind \<Rightarrow> (string \<times> u16) option \<Rightarrow> bool \<Rightarrow> string \<Rightarrow> TunnelSpec" where
  "tunnel_spec kind target fail_fast sid =
     \<lparr>ts_kind = kind, ts_target = target, ts_max_conns = 500, ts_on_disconnect = (if fail_fast then FailFast else Queue),
      ts_stop_grace_timeout = 5000, ts_half_close_drain_timeout = 60000, ts_session_id = sid\<rparr>"

text \<open>A tunnel to be started: the arguments of \<open>start_tunnel\<close> after the manager and the store.\<close>

record start_request =
  rq_id :: string
  rq_session_id :: string
  rq_kind :: string
  rq_bind_host :: string
  rq_bind_port :: u16
  rq_target_host :: "string option"
  rq_target_port :: "u16 option"
  rq_fail_fast :: bool

definition start_tunnel :: "tunnel_env \<Rightarrow> start_request \<Rightarrow> tunnel_db \<Rightarrow> TunnelManager \<Rightarrow> (string, unit) result \<times> TunnelManager" where
  "start_tunnel env rq db m =
     (if already (rq_id rq) m then (Ok (), m)
      else case session_get (db_store db) (rq_session_id rq) of
        Inl e \<Rightarrow> (Err (store_error_str e), m)
      | Inr _ \<Rightarrow>
          (case parse_kind (rq_kind rq) (rq_bind_host rq) (rq_bind_port rq) of
             Inl e \<Rightarrow> (Err e, m)
           | Inr kind \<Rightarrow>
               (let target = parse_target (rq_target_host rq) (rq_target_port rq)
                in if \<not> is_dynamic kind \<and> target = None then (Err ''local/remote need targetHost+targetPort'', m)
                   else case tunnel_group_key env (db_store db) (rq_session_id rq) of
                     Inl e \<Rightarrow> (Err e, m)
                   | Inr key \<Rightarrow>
                       (case mgr_start (en_sock env) (rq_id rq) (tunnel_spec kind target (rq_fail_fast rq) (rq_session_id rq)) key m of
                          (Inl e, m) \<Rightarrow> (Err (tunnel_error_str e), m)
                        | (Inr _, m) \<Rightarrow> (Ok (), m)))))"

section \<open>Commands\<close>

record TunnelSpecWire =
  tx_session_id :: string
  tx_kind :: string
  tx_bind_host :: string
  tx_bind_port :: u16
  tx_target_host :: "string option"
  tx_target_port :: "u16 option"
  tx_fail_fast :: "bool option"

definition or_false :: "bool option \<Rightarrow> bool" where
  "or_false b = (case b of None \<Rightarrow> False | Some b \<Rightarrow> b)"

definition on_mgr :: "(TunnelManager \<Rightarrow> 'a \<times> TunnelManager) \<Rightarrow> tunnel_world \<Rightarrow> 'a \<times> tunnel_world" where
  "on_mgr f w = (case f (tw_mgr w) of (r, m) \<Rightarrow> (r, w\<lparr>tw_mgr := m\<rparr>))"

definition wire_request :: "string \<Rightarrow> TunnelSpecWire \<Rightarrow> start_request" where
  "wire_request i spec =
     \<lparr>rq_id = i, rq_session_id = tx_session_id spec, rq_kind = tx_kind spec, rq_bind_host = tx_bind_host spec,
      rq_bind_port = tx_bind_port spec, rq_target_host = tx_target_host spec, rq_target_port = tx_target_port spec,
      rq_fail_fast = or_false (tx_fail_fast spec)\<rparr>"

definition tunnel_start :: "tunnel_env \<Rightarrow> TunnelSpecWire \<Rightarrow> tunnel_world \<Rightarrow> (string, string) result \<times> tunnel_world" where
  "tunnel_start env spec w =
     (let i = ''tn-'' @ show_nat (unat (tw_seq w));
          w = w\<lparr>tw_seq := tw_seq w + 1\<rparr>
      in case on_mgr (start_tunnel env (wire_request i spec) (tw_db w)) w of
           (Inl e, w) \<Rightarrow> (Err e, w)
         | (Inr _, w) \<Rightarrow> (Ok i, w))"

text \<open>\<open>TunnelDefWire\<close>: a definition with the two fields that are not stored.\<close>

record TunnelDefWire =
  dw_rec :: TunnelRecord
  dw_fail_fast :: "bool option"
  dw_start :: bool

definition request_of :: "TunnelRecord \<Rightarrow> bool \<Rightarrow> start_request" where
  "request_of d fail_fast =
     \<lparr>rq_id = td_id d, rq_session_id = td_session_id d, rq_kind = td_kind d, rq_bind_host = td_bind_host d,
      rq_bind_port = td_bind_port d, rq_target_host = td_target_host d, rq_target_port = td_target_port d,
      rq_fail_fast = fail_fast\<rparr>"

definition audit :: "tunnel_env \<Rightarrow> string option \<Rightarrow> string \<Rightarrow> (string \<times> string) list \<Rightarrow> tunnel_db \<Rightarrow> tunnel_db" where
  "audit env sid action detail db =
     db\<lparr>db_audit := audit_append (en_now env) Gui sid action (en_json env detail) (db_audit db)\<rparr>"

definition tunnel_save :: "tunnel_env \<Rightarrow> TunnelDefWire \<Rightarrow> tunnel_world \<Rightarrow> (string, string) result \<times> tunnel_world" where
  "tunnel_save env def w =
     (let d = dw_rec def
      in case tunnel_upsert (en_now env) (d\<lparr>td_created_at := []\<rparr>) (tw_db w) of
           (Inl e, _) \<Rightarrow> (Err (store_error_str e), w)
         | (Inr _, db) \<Rightarrow>
             (let db = audit env (Some (td_session_id d)) ''tunnel_save'' [(''tunnelId'', td_id d), (''kind'', td_kind d)] db;
                  w = w\<lparr>tw_db := db\<rparr>
              in if dw_start def
                 then case on_mgr (start_tunnel env (request_of d (or_false (dw_fail_fast def))) db) w of
                        (Inl e, w) \<Rightarrow> (Err e, w)
                      | (Inr _, w) \<Rightarrow> (Ok (td_id d), w)
                 else (Ok (td_id d), w)))"

definition tunnel_delete :: "tunnel_env \<Rightarrow> string \<Rightarrow> tunnel_world \<Rightarrow> (string, unit) result \<times> tunnel_world" where
  "tunnel_delete env i w =
     (let w = snd (on_mgr (mgr_stop (en_tasks env i) i) w)
      in case tunnel_delete_row i (tw_db w) of
           (Inl e, _) \<Rightarrow> (Err (store_error_str e), w)
         | (Inr _, db) \<Rightarrow> (Ok (), w\<lparr>tw_db := audit env None ''tunnel_delete'' [(''tunnelId'', i)] db\<rparr>))"

definition tunnel_defs :: "tunnel_world \<Rightarrow> TunnelRecord list" where
  "tunnel_defs w = tunnel_rows (tw_db w)"

definition tunnel_stop :: "tunnel_env \<Rightarrow> string \<Rightarrow> tunnel_world \<Rightarrow> (string, unit) result \<times> tunnel_world" where
  "tunnel_stop env i w =
     (case on_mgr (mgr_stop (en_tasks env i) i) w of
        (Inl e, w) \<Rightarrow> (Err (tunnel_error_str e), w)
      | (Inr _, w) \<Rightarrow> (Ok (), w))"

subsection \<open>Many tunnels at once\<close>

definition autostart_tunnels :: "tunnel_env \<Rightarrow> tunnel_db \<Rightarrow> TunnelManager \<Rightarrow> TunnelManager" where
  "autostart_tunnels env db m =
     fold (\<lambda>d m. snd (start_tunnel env (request_of d False) db m)) (filter td_autostart (tunnel_rows db)) m"

record SessionTunnelResult =
  tr_tunnel :: string
  tr_tunnel_name :: string
  tr_tunnel_bind :: string
  tr_tunnel_ok :: bool
  tr_tunnel_error :: "string option"

definition tunnel_result :: "TunnelRecord \<Rightarrow> (string, unit) result \<Rightarrow> TunnelManager \<Rightarrow> SessionTunnelResult" where
  "tunnel_result d r m =
     (let a = already (td_id d) m
      in \<lparr>tr_tunnel = td_id d, tr_tunnel_name = td_name d, tr_tunnel_bind = show_addr (td_bind_host d, td_bind_port d),
          tr_tunnel_ok = (r = Ok () \<or> a),
          tr_tunnel_error = (if a then None else case r of Inl e \<Rightarrow> Some e | Inr _ \<Rightarrow> None)\<rparr>)"

fun start_all :: "tunnel_env \<Rightarrow> tunnel_db \<Rightarrow> TunnelRecord list \<Rightarrow> TunnelManager \<Rightarrow> SessionTunnelResult list \<times> TunnelManager" where
  "start_all env db [] m = ([], m)"
| "start_all env db (d # ds) m =
     (case start_tunnel env (request_of d False) db m of
        (r, m) \<Rightarrow> (case start_all env db ds m of (rs, m') \<Rightarrow> (tunnel_result d r m # rs, m')))"

text \<open>The frame that goes to the front end, if there is one.\<close>

definition start_session_tunnels ::
  "tunnel_env \<Rightarrow> string \<Rightarrow> tunnel_db \<Rightarrow> TunnelManager \<Rightarrow> (string \<times> SessionTunnelResult list) option \<times> TunnelManager" where
  "start_session_tunnels env sid db m =
     (case start_all env db (filter td_with_session (tunnels_for_session sid db)) m of
        (rs, m) \<Rightarrow> (if rs = [] then None else Some (sid, rs), m))"

definition stop_session_tunnels :: "tunnel_env \<Rightarrow> string \<Rightarrow> tunnel_db \<Rightarrow> TunnelManager \<Rightarrow> TunnelManager" where
  "stop_session_tunnels env sid db m =
     fold (\<lambda>d m. snd (mgr_stop (en_tasks env (td_id d)) (td_id d) m)) (filter td_with_session (tunnels_for_session sid db)) m"

definition restart_one :: "tunnel_env \<Rightarrow> string \<Rightarrow> tunnel_db \<Rightarrow> TunnelRecord \<Rightarrow> TunnelManager \<Rightarrow> TunnelManager" where
  "restart_one env sid db d m =
     (let (r, m) = mgr_stop (en_tasks env (td_id d)) (td_id d) m
      in case r of
           Inr _ \<Rightarrow> snd (start_tunnel env ((request_of d False)\<lparr>rq_session_id := sid\<rparr>) db m)
         | Inl (NotFound _) \<Rightarrow> snd (start_tunnel env ((request_of d False)\<lparr>rq_session_id := sid\<rparr>) db m)
         | Inl _ \<Rightarrow> m)"

definition restart_session_tunnels :: "tunnel_env \<Rightarrow> string \<Rightarrow> tunnel_db \<Rightarrow> TunnelManager \<Rightarrow> TunnelManager" where
  "restart_session_tunnels env sid db m =
     (let running = map tn_id (filter (\<lambda>t. in_use (tn_status t)) (tunnel_list m))
      in fold (restart_one env sid db) (filter (\<lambda>d. td_id d \<in> set running) (tunnels_for_session sid db)) m)"

definition stop_tunnels_of_session :: "tunnel_env \<Rightarrow> string \<Rightarrow> TunnelManager \<Rightarrow> TunnelManager" where
  "stop_tunnels_of_session env sid m =
     fold (\<lambda>i m. snd (mgr_stop (en_tasks env i) i m))
       (map tn_id (filter (\<lambda>t. tn_session_id t = sid) (tunnel_list m))) m"

subsection \<open>Ports\<close>

text \<open>\<open>free\<close> says which addresses of this machine can be bound.\<close>

definition suggest_free_port :: "(string \<Rightarrow> u16 \<Rightarrow> bool) \<Rightarrow> string \<Rightarrow> u16 \<Rightarrow> u16 option" where
  "suggest_free_port free host port =
     find_map (\<lambda>off. case checked_add port off of None \<Rightarrow> None | Some p \<Rightarrow> if free host p then Some p else None)
       (map of_nat [1..<101])"

datatype PortCheck = PortSelf | PortHeld string "u16 option" | PortAvailable | PortTaken "u16 option"

definition tunnel_check_port ::
  "(string \<Rightarrow> u16 \<Rightarrow> bool) \<Rightarrow> string \<Rightarrow> u16 \<Rightarrow> string option \<Rightarrow> TunnelManager \<Rightarrow> (string, PortCheck) result" where
  "tunnel_check_port free host port exclude m =
     (if port = 0 then Err (store_error_str (Validation ''port must be 1-65535''))
      else case find (\<lambda>t. tn_bind t = show_addr (host, port)) (tunnel_list m) of
             Some holder \<Rightarrow>
               if exclude = Some (tn_id holder) then Ok PortSelf
               else Ok (PortHeld (tn_id holder) (suggest_free_port free host port))
           | None \<Rightarrow> if free host port then Ok PortAvailable else Ok (PortTaken (suggest_free_port free host port)))"

section \<open>What the manager lists\<close>

text \<open>The tunnels with the sessions they belong to, and when the registry is well formed.\<close>

definition owners :: "TunnelManager \<Rightarrow> (string \<times> string) list" where
  "owners m = map (\<lambda>t. (tn_id t, tn_session_id t)) (tunnel_list m)"

definition registry_ok :: "TunnelManager \<Rightarrow> bool" where
  "registry_ok m \<longleftrightarrow> distinct (map fst (tm_tunnels m)) \<and> (\<forall>n \<in> snd ` set (tm_tunnels m). n < length (tm_entries m))"

lemma owners_eq: "owners m = map (\<lambda>(i, n). (i, te_session_id (tm_entries m ! n))) (tm_tunnels m)"
  by (auto simp: owners_def tunnel_list_def tunnel_info_def)

lemma fst_owners: "map fst (owners m) = map fst (tm_tunnels m)"
  by (simp add: owners_eq case_prod_unfold comp_def)

lemma fst_set_owners: "i \<in> fst ` set (owners m) \<longleftrightarrow> map_of (tm_tunnels m) i \<noteq> None"
  by (metis fst_owners list.set_map map_of_eq_None_iff)

lemma map_update_same: "f x = f (xs ! i) \<Longrightarrow> map f (xs[i := x]) = map f xs"
  by (cases "i < length xs") (simp_all add: map_update list_update_same_conv list_update_beyond)

text \<open>Entries change, their sessions and the registry do not.\<close>

definition same_registry :: "TunnelManager \<Rightarrow> TunnelManager \<Rightarrow> bool" where
  "same_registry m m' \<longleftrightarrow>
     tm_tunnels m' = tm_tunnels m \<and> tm_stops m' = tm_stops m \<and> map te_session_id (tm_entries m') = map te_session_id (tm_entries m)"

lemma same_sessions_nth:
  "map te_session_id es' = map te_session_id es \<Longrightarrow> n < length es \<Longrightarrow> te_session_id (es' ! n) = te_session_id (es ! n)"
  by (metis length_map nth_map)

lemma owners_cong:
  assumes "registry_ok m" "tm_tunnels m' = tm_tunnels m" "map te_session_id (tm_entries m') = map te_session_id (tm_entries m)"
  shows "owners m' = owners m" "registry_ok m'"
proof -
  have len: "length (tm_entries m') = length (tm_entries m)" using assms(3) by (metis length_map)
  then show "registry_ok m'" using assms(1,2) by (simp add: registry_ok_def)
  show "owners m' = owners m"
    using assms by (auto simp: owners_eq registry_ok_def image_iff intro!: same_sessions_nth)
qed

lemma mirror_session: "mirror_step g e = Some e' \<Longrightarrow> te_session_id e' = te_session_id e"
  by (auto simp: mirror_step_def subscribe_def Let_def split: if_splits TunnelStatus.splits)

lemma remote_session: "remote_listening g e = Some e' \<Longrightarrow> te_session_id e' = te_session_id e"
  by (auto simp: remote_listening_def split: if_splits)

lemma on_task_same:
  assumes "\<And>g e e'. f g e = Some e' \<Longrightarrow> te_session_id e' = te_session_id e" "on_task f t m = Some m'"
  shows "same_registry m m'"
  using assms by (auto simp: on_task_def same_registry_def Let_def split: if_splits intro!: map_update_same)

lemma task_result_session: "te_session_id (task_result err e) = te_session_id e"
  by (auto simp: task_result_def split: option.splits)

lemma task_step_same: "same_registry m (task_step ev m)"
proof (cases "task_event ev")
  case True
  have "same_registry m m'" if "tm_step ev m = Some m'" for m'
    using that True
  proof (cases ev)
    case (Mirror t)
    with that show ?thesis by (auto intro: on_task_same [OF mirror_session])
  next
    case (RemoteListening t)
    with that show ?thesis by (auto intro: on_task_same [OF remote_session])
  qed (auto simp: same_registry_def task_subscribe_def subscribe_def task_end_def task_result_session task_release_def
      release_group_def on_group_def Let_def split: if_splits intro!: map_update_same)
  then show ?thesis by (auto simp: task_step_def same_registry_def split: option.split)
qed (simp add: task_step_def same_registry_def)

lemma tasks_same: "same_registry m (fold task_step evs m)"
proof (induction evs arbitrary: m)
  case (Cons ev evs)
  from Cons.IH [of "task_step ev m"] task_step_same [of m ev] show ?case by (simp add: same_registry_def)
qed (simp add: same_registry_def)

subsection \<open>Stopping\<close>

lemma mgr_stop_steps:
  assumes "map_of (tm_tunnels m) i = Some n"
  obtains m' where "mgr_stop evs i m = (Ok (), m')" "tm_tunnels m' = filter (\<lambda>(j, _). j \<noteq> i) (tm_tunnels m)"
    "map te_session_id (tm_entries m') = map te_session_id (tm_entries m)"
proof -
  let ?e = "tm_entries m ! n"
  define m1 where "m1 = m\<lparr>tm_entries := (tm_entries m)[n := (if te_stop_started ?e then ?e else ?e\<lparr>te_shutdown := True\<rparr>)\<lparr>te_stop_started := True\<rparr>],
    tm_stops := tm_stops m @ [(i, StopWaits n)]\<rparr>"
  define m2 where "m2 = fold task_step evs m1"
  have m1: "stop_request i m = Ok m1" using assms by (simp add: stop_request_def m1_def Let_def)
  have "map te_session_id (tm_entries m1) = map te_session_id (tm_entries m)"
    by (simp add: m1_def map_update_same)
  with tasks_same [of m1 evs] have m2: "tm_tunnels m2 = tm_tunnels m" "tm_stops m2 = tm_stops m @ [(i, StopWaits n)]"
    "map te_session_id (tm_entries m2) = map te_session_id (tm_entries m)"
    by (simp_all add: same_registry_def m2_def m1_def)
  define m3 where "m3 = m2\<lparr>tm_entries := (tm_entries m2)[n := (tm_entries m2 ! n)\<lparr>te_status := Stopped\<rparr>],
    tm_stops := tm_stops m @ [(i, StopRemoves n)]\<rparr>"
  have m3: "stop_wait (length (tm_stops m)) True m2 = Some m3"
    using m2(2) by (simp add: stop_wait_def m3_def nth_append)
  define m4 where "m4 = m3\<lparr>tm_tunnels := filter (\<lambda>(j, _). j \<noteq> i) (tm_tunnels m3), tm_stops := tm_stops m @ [(i, StopDone)]\<rparr>"
  have m4: "stop_remove (length (tm_stops m)) m3 = Some m4"
    by (simp add: stop_remove_def m3_def m4_def nth_append)
  show ?thesis
  proof (rule that)
    show "mgr_stop evs i m = (Ok (), m4)" using m1 m3 m4 by (simp add: mgr_stop_def m2_def Let_def)
    show "tm_tunnels m4 = filter (\<lambda>(j, _). j \<noteq> i) (tm_tunnels m)" using m2 by (simp add: m4_def m3_def)
    show "map te_session_id (tm_entries m4) = map te_session_id (tm_entries m)"
      using m2 by (simp add: m4_def m3_def map_update_same)
  qed
qed

lemma filter_keys_id: "map_of xs i = None \<Longrightarrow> filter (\<lambda>(j, _). j \<noteq> i) xs = xs"
  by (induction xs) (auto split: if_splits)

lemma mgr_stop_same:
  "tm_tunnels (snd (mgr_stop evs i m)) = filter (\<lambda>(j, _). j \<noteq> i) (tm_tunnels m) \<and>
   map te_session_id (tm_entries (snd (mgr_stop evs i m))) = map te_session_id (tm_entries m)"
proof (cases "map_of (tm_tunnels m) i")
  case None
  then show ?thesis by (simp add: mgr_stop_def stop_request_def filter_keys_id)
next
  case (Some n)
  then show ?thesis by (rule mgr_stop_steps [where evs = evs]) simp
qed

lemma distinct_map_fst_filter: "distinct (map fst xs) \<Longrightarrow> distinct (map fst (filter P xs))"
  by (induction xs) auto

lemma mgr_stop_owners:
  assumes "registry_ok m"
  shows "owners (snd (mgr_stop evs i m)) = filter (\<lambda>x. fst x \<noteq> i) (owners m) \<and> registry_ok (snd (mgr_stop evs i m))"
proof -
  let ?m = "snd (mgr_stop evs i m)"
  have len: "length (tm_entries ?m) = length (tm_entries m)" using mgr_stop_same by (metis length_map)
  have "owners ?m = filter (\<lambda>x. fst x \<noteq> i) (map (\<lambda>(i, n). (i, te_session_id (tm_entries m ! n))) (tm_tunnels m))"
    using assms mgr_stop_same [of evs i m]
    by (auto simp: owners_eq registry_ok_def filter_map comp_def case_prod_unfold intro!: same_sessions_nth)
  moreover have "registry_ok ?m"
    using assms mgr_stop_same [of evs i m] len by (auto simp: registry_ok_def distinct_map_fst_filter)
  ultimately show ?thesis by (simp add: owners_eq)
qed

text \<open>A registry whose calls of \<open>stop\<close> remove what they name, and a series of such calls.\<close>

locale stop_registry =
  fixes ok :: "'m \<Rightarrow> bool" and listed :: "'m \<Rightarrow> ('i \<times> 'v) list" and stop :: "'i \<Rightarrow> 'm \<Rightarrow> 'm"
  assumes stop_listed: "ok m \<Longrightarrow> listed (stop i m) = filter (\<lambda>x. fst x \<noteq> i) (listed m)"
    and stop_ok: "ok m \<Longrightarrow> ok (stop i m)"
begin

lemma stop_all: "ok m \<Longrightarrow> listed (fold stop is m) = filter (\<lambda>x. fst x \<notin> set is) (listed m) \<and> ok (fold stop is m)"
  by (induction "is" arbitrary: m) (auto simp: stop_listed stop_ok conj_commute)

lemma stop_owned:
  assumes "ok m" "distinct (map fst (listed m))"
  shows "listed (fold stop (map fst (filter (\<lambda>x. P (snd x)) (listed m))) m) = filter (\<lambda>x. \<not> P (snd x)) (listed m)"
proof -
  have "fst x \<in> fst ` set (filter (\<lambda>x. P (snd x)) (listed m)) \<longleftrightarrow> P (snd x)" if "x \<in> set (listed m)" for x
  proof -
    obtain i v where "x = (i, v)" by (cases x)
    with that assms(2) show ?thesis by (auto simp: image_iff dest: eq_key_imp_eq_value)
  qed
  with stop_all [OF assms(1)] show ?thesis by (auto intro!: filter_cong)
qed

end

interpretation tunnel_stops: stop_registry registry_ok owners "\<lambda>i m. snd (mgr_stop (en_tasks env i) i m)" for env
  by unfold_locales (simp_all add: mgr_stop_owners)

lemma registry_ok_distinct: "registry_ok m \<Longrightarrow> distinct (map fst (owners m))"
  by (simp add: fst_owners registry_ok_def)

subsection \<open>Starting\<close>

lemma acquire_group_same:
  "acquire_group key m = (a, m') \<Longrightarrow> tm_entries m' = tm_entries m \<and> tm_tunnels m' = tm_tunnels m \<and> tm_starts m' = tm_starts m"
  by (auto simp: acquire_group_def split: option.splits)

text \<open>A call of \<open>start\<close> refuses an identifier in the table, passes on the error of the socket, or adds the tunnel.\<close>

lemma mgr_start_in_use:
  assumes "map_of (tm_tunnels m) i \<noteq> None"
  shows "\<exists>m'. mgr_start sock i spec key m = (Err (Listen i ''id in use''), m') \<and> tm_tunnels m' = tm_tunnels m \<and> tm_entries m' = tm_entries m"
  using assms by (simp add: mgr_start_def start_check_def nth_append)

lemma mgr_start_no_socket:
  assumes "map_of (tm_tunnels m) i = None" "bind_of sock (ts_kind spec) = Err e"
  shows "\<exists>m'. mgr_start sock i spec key m = (Err e, m') \<and> tm_tunnels m' = tm_tunnels m \<and> tm_entries m' = tm_entries m"
  using assms by (simp add: mgr_start_def start_check_def start_spawn_def nth_append)

lemma mgr_start_adds:
  assumes "map_of (tm_tunnels m) i = None" "bind_of sock (ts_kind spec) = Ok actual"
  shows "\<exists>m'. mgr_start sock i spec key m = (Ok (), m') \<and> tm_tunnels m' = (i, length (tm_entries m)) # tm_tunnels m \<and>
    tm_entries m' = tm_entries m @ [entry_new spec actual]"
proof -
  define m1 where "m1 = start_check i spec key m"
  obtain a m2 where acq: "acquire_group key m1 = (a, m2)" by fastforce
  note same = acquire_group_same [OF acq]
  from assms show ?thesis
    using acq same
    by (simp add: mgr_start_def m1_def [symmetric])
      (simp add: m1_def start_check_def start_spawn_def start_insert_def nth_append filter_keys_id Let_def)
qed

text \<open>The three outcomes of \<open>start_tunnel\<close>, as the manager lists them.\<close>

lemma already_listed: "already i m \<Longrightarrow> i \<in> fst ` set (owners m)"
  by (auto simp: already_def owners_def list_ex_iff image_image)

lemma start_tunnel_outcome:
  assumes "start_tunnel env rq db m = (r, m')"
  shows "r = Ok () \<and> m' = m \<and> already (rq_id rq) m \<or>
    (\<exists>e. r = Err e \<and> tm_tunnels m' = tm_tunnels m \<and> tm_entries m' = tm_entries m) \<or>
    (\<exists>spec actual rec. r = Ok () \<and> session_get (db_store db) (rq_session_id rq) = Ok rec \<and> map_of (tm_tunnels m) (rq_id rq) = None \<and>
       tm_tunnels m' = (rq_id rq, length (tm_entries m)) # tm_tunnels m \<and> tm_entries m' = tm_entries m @ [entry_new spec actual] \<and>
       ts_session_id spec = rq_session_id rq \<and> ts_on_disconnect spec = (if rq_fail_fast rq then FailFast else Queue))"
proof -
  consider (skip) "already (rq_id rq) m" | (err) e where "r = Err e" "m' = m"
    | (start) rec kind target key where "session_get (db_store db) (rq_session_id rq) = Ok rec"
        "(case mgr_start (en_sock env) (rq_id rq) (tunnel_spec kind target (rq_fail_fast rq) (rq_session_id rq)) key m of
            (Inl e, m) \<Rightarrow> (Err (tunnel_error_str e), m) | (Inr _, m) \<Rightarrow> (Ok (), m)) = (r, m')"
    using assms by (auto simp: start_tunnel_def Let_def split: if_splits sum.splits)
  then show ?thesis
  proof cases
    case skip
    with assms show ?thesis by (simp add: start_tunnel_def)
  next
    case start
    let ?spec = "tunnel_spec kind target (rq_fail_fast rq) (rq_session_id rq)"
    consider "map_of (tm_tunnels m) (rq_id rq) \<noteq> None"
      | e where "map_of (tm_tunnels m) (rq_id rq) = None" "bind_of (en_sock env) (ts_kind ?spec) = Err e"
      | actual where "map_of (tm_tunnels m) (rq_id rq) = None" "bind_of (en_sock env) (ts_kind ?spec) = Ok actual"
      by (cases "bind_of (en_sock env) (ts_kind ?spec)") auto
    then show ?thesis
    proof cases
      case 1
      from mgr_start_in_use [OF 1, of "en_sock env" ?spec key] start assms show ?thesis by auto
    next
      case 2
      from mgr_start_no_socket [OF 2, of key] start assms show ?thesis by auto
    next
      case 3
      from mgr_start_adds [OF 3, of key] start assms 3(1)
      have "r = Ok () \<and> session_get (db_store db) (rq_session_id rq) = Ok rec \<and> map_of (tm_tunnels m) (rq_id rq) = None \<and>
        tm_tunnels m' = (rq_id rq, length (tm_entries m)) # tm_tunnels m \<and> tm_entries m' = tm_entries m @ [entry_new ?spec actual]"
        by auto
      then show ?thesis by (intro disjI2) (rule exI [of _ ?spec], auto simp: tunnel_spec_def)
    qed
  qed auto
qed

lemma start_tunnel_owners:
  assumes "registry_ok m" "start_tunnel env rq db m = (r, m')"
  shows "registry_ok m' \<and> (owners m' = owners m \<or>
    owners m' = (rq_id rq, rq_session_id rq) # owners m \<and> (\<exists>rec. session_get (db_store db) (rq_session_id rq) = Ok rec))"
  using start_tunnel_outcome [OF assms(2)]
proof (elim disjE exE conjE)
  fix spec actual rec
  assume a: "map_of (tm_tunnels m) (rq_id rq) = None" "tm_tunnels m' = (rq_id rq, length (tm_entries m)) # tm_tunnels m"
    "tm_entries m' = tm_entries m @ [entry_new spec actual]" "ts_session_id spec = rq_session_id rq"
    "session_get (db_store db) (rq_session_id rq) = Ok rec"
  have "owners m' = (rq_id rq, rq_session_id rq) # owners m"
    using assms(1) a by (auto simp: owners_eq registry_ok_def entry_new_def nth_append image_iff)
  moreover have "registry_ok m'" using assms(1) a by (auto simp: registry_ok_def map_of_eq_None_iff less_Suc_eq)
  ultimately show ?thesis using a(5) by simp
qed (use assms(1) in \<open>auto simp: owners_eq registry_ok_def\<close>)

lemma start_tunnel_keeps: "map_of (tm_tunnels m) i = Some n \<Longrightarrow> map_of (tm_tunnels (snd (start_tunnel env rq db m))) i = Some n"
  using start_tunnel_outcome [of env rq db m "fst (start_tunnel env rq db m)" "snd (start_tunnel env rq db m)"] by auto

section \<open>Failed tunnels\<close>

lemma map_of_filter_keys: "map_of (filter (\<lambda>(j, _). j \<noteq> i) xs) k = (if k = i then None else map_of xs k)"
  by (induction xs) auto

lemma restart_one_keeps:
  assumes "td_id d \<noteq> i" "map_of (tm_tunnels m) i = Some n"
  shows "map_of (tm_tunnels (restart_one env sid db d m)) i = Some n"
proof -
  obtain r m1 where stop: "mgr_stop (en_tasks env (td_id d)) (td_id d) m = (r, m1)" by fastforce
  have "map_of (tm_tunnels m1) i = Some n"
    using mgr_stop_same [of "en_tasks env (td_id d)" "td_id d" m] assms stop by (simp add: map_of_filter_keys)
  then show ?thesis
    by (auto simp: restart_one_def stop start_tunnel_keeps split: sum.split TunnelError.split)
qed

lemma restart_fold_keeps:
  "i \<notin> td_id ` set ds \<Longrightarrow> map_of (tm_tunnels m) i = Some n \<Longrightarrow> map_of (tm_tunnels (fold (restart_one env sid db) ds m)) i = Some n"
  by (induction ds arbitrary: m) (auto simp: restart_one_keeps)

lemma in_use_listed:
  assumes "registry_ok m" "map_of (tm_tunnels m) i = Some n" "t \<in> set (tunnel_list m)" "tn_id t = i"
  shows "tn_status t = te_status (tm_entries m ! n)"
proof -
  from assms(3) obtain j k where t: "(j, k) \<in> set (tm_tunnels m)" "t = tunnel_info j (tm_entries m ! k)"
    by (auto simp: tunnel_list_def)
  with assms(1) have "map_of (tm_tunnels m) j = Some k" by (simp add: registry_ok_def)
  with assms(2,4) t(2) have "k = n" by (simp add: tunnel_info_def)
  with t show ?thesis by (simp add: tunnel_info_def)
qed

text \<open>
  A tunnel that has failed stays in the table of the manager, and nothing but a stop gets it
  running again: saving its definition with the order to start it stores the definition and
  answers with an error, and the restart after a change of its session passes it over.
\<close>

theorem failed_tunnel_stays:
  assumes "registry_ok (tw_mgr w)" "map_of (tm_tunnels (tw_mgr w)) i = Some n" "te_status (tm_entries (tw_mgr w) ! n) = Failed"
    and "td_id (dw_rec def) = i" "dw_start def"
  shows "(\<exists>e. fst (tunnel_save env def w) = Err e) \<and>
    tm_tunnels (tw_mgr (snd (tunnel_save env def w))) = tm_tunnels (tw_mgr w) \<and>
    map_of (tm_tunnels (restart_session_tunnels env sid (tw_db w) (tw_mgr w))) i = Some n"
proof -
  let ?m = "tw_mgr w"
  have failed: "\<not> in_use (tn_status t)" if "t \<in> set (tunnel_list ?m)" "tn_id t = i" for t
    using in_use_listed [OF assms(1,2) that] assms(3) by (simp add: in_use_def)
  have start: "\<exists>e m'. start_tunnel env (request_of (dw_rec def) b) db ?m = (Err e, m') \<and> tm_tunnels m' = tm_tunnels ?m" for b db
  proof -
    obtain r m' where run: "start_tunnel env (request_of (dw_rec def) b) db ?m = (r, m')" by fastforce
    from start_tunnel_outcome [OF run] failed assms(2,4) run show ?thesis
      by (auto simp: already_def list_ex_iff request_of_def)
  qed
  have save: "(\<exists>e. fst (tunnel_save env def w) = Err e) \<and> tm_tunnels (tw_mgr (snd (tunnel_save env def w))) = tm_tunnels ?m"
  proof (cases "tunnel_upsert (en_now env) (dw_rec def\<lparr>td_created_at := []\<rparr>) (tw_db w)")
    case (Pair r db)
    with assms(5) start [of "or_false (dw_fail_fast def)"
        "audit env (Some (td_session_id (dw_rec def))) ''tunnel_save'' [(''tunnelId'', td_id (dw_rec def)), (''kind'', td_kind (dw_rec def))] db"]
    show ?thesis by (cases r) (auto simp: tunnel_save_def on_mgr_def Let_def)
  qed
  have "map_of (tm_tunnels (restart_session_tunnels env sid (tw_db w) ?m)) i = Some n"
    unfolding restart_session_tunnels_def Let_def
    by (rule restart_fold_keeps) (use failed assms(2) in auto)
  with save show ?thesis by simp
qed

section \<open>Stopping the tunnels of a session\<close>

lemma fst_filter_owners:
  "map tn_id (filter (\<lambda>t. tn_session_id t = sid) (tunnel_list m)) = map fst (filter (\<lambda>x. snd x = sid) (owners m))"
  by (simp add: owners_def filter_map comp_def)

lemma stop_tunnels_of_session_owners:
  assumes "registry_ok m"
  shows "owners (stop_tunnels_of_session env sid m) = filter (\<lambda>x. snd x \<noteq> sid) (owners m) \<and>
    registry_ok (stop_tunnels_of_session env sid m)"
  using tunnel_stops.stop_owned [OF assms registry_ok_distinct [OF assms], of env "\<lambda>s. s = sid"]
    tunnel_stops.stop_all [OF assms, of env]
  by (simp add: stop_tunnels_of_session_def fst_filter_owners)

text \<open>
  When the last terminal of a session closes, exactly the tunnels whose stored definition
  belongs to that session and follows it are stopped; every other tunnel stays in the table.
\<close>

theorem closing_stops_followers:
  assumes "registry_ok m"
  shows "owners (stop_session_tunnels env sid db m) =
    filter (\<lambda>x. \<not> list_ex (\<lambda>d. td_id d = fst x \<and> td_session_id d = sid \<and> td_with_session d) (db_tunnels db)) (owners m)"
proof -
  let ?ids = "map td_id (filter td_with_session (tunnels_for_session sid db))"
  have "stop_session_tunnels env sid db m = fold (\<lambda>i m. snd (mgr_stop (en_tasks env i) i m)) ?ids m"
    by (simp add: stop_session_tunnels_def fold_map comp_def)
  then have "owners (stop_session_tunnels env sid db m) = filter (\<lambda>x. fst x \<notin> set ?ids) (owners m)"
    using tunnel_stops.stop_all [OF assms, of env ?ids] by simp
  also have "\<dots> = filter (\<lambda>x. \<not> list_ex (\<lambda>d. td_id d = fst x \<and> td_session_id d = sid \<and> td_with_session d) (db_tunnels db)) (owners m)"
    by (intro filter_cong) (auto simp: tunnels_for_session_def list_ex_iff)
  finally show ?thesis .
qed

section \<open>Groups and secrets\<close>

lemma resolve_auth_shape:
  "resolve_auth sx rec = Ok a \<Longrightarrow> resolve_auth sx' rec = Ok a' \<Longrightarrow> auth_discriminant a = auth_discriminant a'"
  by (auto simp: resolve_auth_def split: AuthType.splits option.splits sum.splits)

lemma spec_shape_hop:
  "spec_shape s = spec_shape s' \<longleftrightarrow>
     hop_shape (hop_spec s) = hop_shape (hop_spec s') \<and> map hop_shape (to_jump_chain s) = map hop_shape (to_jump_chain s')"
  by (auto simp: spec_shape_def hop_shape_def hop_spec_def)

lemma resolve_hops_shape:
  assumes "\<And>h v s s' v1 v2. f h v = (Some (Ok s), v1) \<Longrightarrow> f' h v = (Some (Ok s'), v2) \<Longrightarrow> spec_shape s = spec_shape s' \<and> v1 = v2"
  shows "resolve_hops f hs v = (Some (Ok c), v1) \<Longrightarrow> resolve_hops f' hs v = (Some (Ok c'), v2) \<Longrightarrow>
    map hop_shape c = map hop_shape c' \<and> v1 = v2"
proof (induction hs arbitrary: v c c' v1 v2)
  case (Cons h hs)
  from Cons.prems(1) obtain s u rest where f: "f h v = (Some (Ok s), u)" "resolve_hops f hs u = (Some (Ok rest), v1)"
    "c = to_jump_chain s @ hop_spec s # rest" by (auto split: prod.splits option.splits sum.splits)
  from Cons.prems(2) obtain s' u' rest' where f': "f' h v = (Some (Ok s'), u')" "resolve_hops f' hs u' = (Some (Ok rest'), v2)"
    "c' = to_jump_chain s' @ hop_spec s' # rest'" by (auto split: prod.splits option.splits sum.splits)
  from assms [OF f(1) f'(1)] have s: "spec_shape s = spec_shape s'" "u' = u" by simp_all
  with f' have "resolve_hops f' hs u = (Some (Ok rest'), v2)" by simp
  from Cons.IH [OF f(2) this] s f(3) f'(3) show ?case by (simp add: spec_shape_hop)
qed simp

lemma resolve_spec_inner_shape:
  "resolve_spec_inner n sx st i v = (Some (Ok s), v1) \<Longrightarrow> resolve_spec_inner n sx' st i v = (Some (Ok s'), v2) \<Longrightarrow>
   spec_shape s = spec_shape s' \<and> v1 = v2"
proof (induction n arbitrary: i v s s' v1 v2)
  case (Suc n)
  from Suc.prems(1) obtain rec a c where r: "session_get st i = Ok rec" "resolve_auth sx rec = Ok a"
    "resolve_hops (resolve_spec_inner n sx st) (sr_jump_chain rec) (i # v) = (Some (Ok c), v1)"
    "to_host s = sr_host rec" "to_port s = sr_port rec" "to_user s = sr_user rec" "to_auth s = a" "to_jump_chain s = c"
    by (auto split: if_splits sum.splits prod.splits option.splits)
  from Suc.prems(2) r(1) obtain a' c' where r': "resolve_auth sx' rec = Ok a'"
    "resolve_hops (resolve_spec_inner n sx' st) (sr_jump_chain rec) (i # v) = (Some (Ok c'), v2)"
    "to_host s' = sr_host rec" "to_port s' = sr_port rec" "to_user s' = sr_user rec" "to_auth s' = a'" "to_jump_chain s' = c'"
    by (auto split: if_splits sum.splits prod.splits option.splits)
  have "map hop_shape c = map hop_shape c' \<and> v1 = v2"
    by (rule resolve_hops_shape [OF _ r(3) r'(2)]) (rule Suc.IH)
  with resolve_auth_shape [OF r(2) r'(1)] r r' show ?case by (simp add: spec_shape_def)
qed simp

lemma group_key_resolves:
  assumes "tunnel_group_key env st sid = Ok k"
  obtains s v where "resolve_spec_inner (MAX_JUMP_DEPTH + 1) (en_secrets env) st sid [] = (Some (Ok s), v)"
    "k = sid @ '':'' @ hex16 (en_hash env (spec_shape s))"
proof (cases "resolve_spec_inner (MAX_JUMP_DEPTH + 1) (en_secrets env) st sid []")
  case (Pair r v)
  then have "resolve_session_spec (en_secrets env) st sid = r" by (simp only: resolve_session_spec_def fst_conv)
  with assms Pair that show ?thesis
    by (auto simp: tunnel_group_key_def simp del: resolve_spec_inner.simps split: option.splits sum.splits)
qed

text \<open>
  C23. The key of a group of tunnels says nothing about secrets: whatever the vault, the key files
  and the passphrases hold, a session that resolves gets the same key, so new credentials never
  split a group. The jump hosts, of any depth, are covered.
\<close>

theorem group_key_ignores_secrets:
  assumes "tunnel_group_key env st sid = Ok k" "tunnel_group_key (env\<lparr>en_secrets := sx\<rparr>) st sid = Ok k'"
  shows "k' = k"
proof -
  obtain s v1 where s: "resolve_spec_inner (MAX_JUMP_DEPTH + 1) (en_secrets env) st sid [] = (Some (Ok s), v1)"
    "k = sid @ '':'' @ hex16 (en_hash env (spec_shape s))" by (rule group_key_resolves [OF assms(1)])
  obtain s' v2 where s': "resolve_spec_inner (MAX_JUMP_DEPTH + 1) sx st sid [] = (Some (Ok s'), v2)"
    "k' = sid @ '':'' @ hex16 (en_hash env (spec_shape s'))"
    by (rule group_key_resolves [OF assms(2)]) (simp del: resolve_spec_inner.simps)
  from resolve_spec_inner_shape [OF s(1) s'(1)] s(2) s'(2) show ?thesis by simp
qed

section \<open>Free ports\<close>

lemma suggest_from:
  fixes port :: u16
  assumes "k \<le> 101"
  shows "find_map (\<lambda>off. case checked_add port off of None \<Rightarrow> None | Some p \<Rightarrow> if free host p then Some p else None) (map of_nat [k..<101]) =
    map_option of_nat (find (\<lambda>n. free host (of_nat n)) [unat port + k ..< min 65536 (unat port + 101)])"
  using assms
proof (induction k rule: inc_induct)
  case (step k)
  then have k: "unat (of_nat k :: u16) = k" by (simp add: unat_of_nat)
  have left: "[k..<101] = k # [Suc k..<101]" using step by (simp add: upt_conv_Cons)
  show ?case
  proof (cases "unat port + k < 65536")
    case True
    then have "[unat port + k ..< min 65536 (unat port + 101)] = (unat port + k) # [unat port + Suc k ..< min 65536 (unat port + 101)]"
      using step by (simp add: upt_conv_Cons)
    with True k left step.IH show ?thesis by (simp add: checked_add_def)
  next
    case False
    with k left step.IH show ?thesis by (simp add: checked_add_def)
  qed
qed simp

text \<open>
  The suggested port is the first one above the wanted port that can be bound, among the next
  hundred that exist: the sum never wraps around past 65535.
\<close>

theorem suggested_port_is_next_free:
  "suggest_free_port free host port =
     map_option of_nat (find (\<lambda>n. free host (of_nat n)) [unat port + 1 ..< min 65536 (unat port + 101)])"
  unfolding suggest_free_port_def by (rule suggest_from) simp

text \<open>
  The check of a port looks for the address among all tunnels of the manager. A remote tunnel
  listens on the server and holds no port here, yet its address makes the same port of this
  machine count as taken, although it can be bound.
\<close>

theorem remote_tunnel_blocks_port:
  assumes "port \<noteq> 0" "free host port" "t \<in> set (tunnel_list m)" "tn_kind t = ''remote''" "tn_bind t = show_addr (host, port)"
    and "list_all (\<lambda>u. tn_bind u = show_addr (host, port) \<longrightarrow> tn_id u = tn_id t) (tunnel_list m)" "exclude \<noteq> Some (tn_id t)"
  shows "tunnel_check_port free host port exclude m = Ok (PortHeld (tn_id t) (suggest_free_port free host port))"
proof (cases "find (\<lambda>t. tn_bind t = show_addr (host, port)) (tunnel_list m)")
  case None
  with assms(3,5) show ?thesis by (auto simp: find_None_iff)
next
  case (Some u)
  then have "u \<in> set (tunnel_list m)" "tn_bind u = show_addr (host, port)" by (auto simp: find_Some_iff)
  with assms(6) have "tn_id u = tn_id t" by (simp add: list_all_iff)
  with Some assms(1,7) show ?thesis by (simp add: tunnel_check_port_def)
qed

section \<open>Examples\<close>

definition sample_env :: tunnel_env where
  "sample_env =
     \<lparr>en_secrets = \<lparr>sx_cred = (\<lambda>_ _. Some [1]), sx_utf8 = (\<lambda>_. Some ''one''), sx_key_file = (\<lambda>_. Err ''none'')\<rparr>,
      en_hash = (\<lambda>xs. of_nat (length xs)), en_sock = (\<lambda>_. Ok None), en_tasks = (\<lambda>_. []), en_now = ''now'', en_json = (\<lambda>_. [])\<rparr>"

definition other_secrets :: secrets where
  "other_secrets = \<lparr>sx_cred = (\<lambda>_ _. Some [2]), sx_utf8 = (\<lambda>_. Some ''two''), sx_key_file = (\<lambda>_. Err ''none'')\<rparr>"

definition sample_def :: TunnelRecord where
  "sample_def =
     \<lparr>td_id = ''a'', td_session_id = ''s'', td_kind = ''local'', td_name = [], td_bind_host = ''::'', td_bind_port = 80,
      td_target_host = Some ''h'', td_target_port = Some 22, td_autostart = False, td_with_session = True, td_created_at = []\<rparr>"

definition password_store :: store where
  "password_store =
     \<lparr>st_sessions = [(sample_session ''s'' [] [''j''])\<lparr>sr_auth_type := AtPassword\<rparr>, (sample_session ''j'' [] [])\<lparr>sr_auth_type := AtPassword\<rparr>],
      st_creds = []\<rparr>"

definition sample_db :: tunnel_db where
  "sample_db = \<lparr>db_store = password_store, db_tunnels = [sample_def], db_audit = audit_new\<rparr>"

definition one_failed :: TunnelManager where
  "one_failed = the (tm_run [StartCheck ''a'' sample_spec ''k'', StartSpawn 0 (Ok None), StartInsert 0, TaskEnd 0 (Some ''lost'')] manager_new)"

lemma one_failed_fields:
  "tm_tunnels one_failed = [(''a'', 0)]" "length (tm_entries one_failed) = 1" "te_status (tm_entries one_failed ! 0) = Failed"
  "te_bind (tm_entries one_failed ! 0) = show_addr (''::'', 80)" "te_kind_label (tm_entries one_failed ! 0) = ''remote''"
  "te_session_id (tm_entries one_failed ! 0) = ''s''" "te_shutdown (tm_entries one_failed ! 0)"
  by (simp_all add: one_failed_def manager_new_def start_check_def start_spawn_def start_insert_def acquire_group_def task_end_def
      task_result_def entry_new_def sample_spec_def stats_new_def Let_def)

lemma one_failed_ok: "registry_ok one_failed"
  by (simp add: registry_ok_def one_failed_fields)

lemma failed_tunnel_stays_witness:
  "\<exists>e. fst (tunnel_save sample_env \<lparr>dw_rec = sample_def, dw_fail_fast = None, dw_start = True\<rparr>
     \<lparr>tw_db = sample_db, tw_mgr = one_failed, tw_seq = 1\<rparr>) = Err e"
  using failed_tunnel_stays [of "\<lparr>tw_db = sample_db, tw_mgr = one_failed, tw_seq = 1\<rparr>" "''a''" 0
      "\<lparr>dw_rec = sample_def, dw_fail_fast = None, dw_start = True\<rparr>" sample_env "''s''"]
  by (simp add: one_failed_ok one_failed_fields sample_def_def)

lemma closing_stops_followers_witness: "owners (stop_session_tunnels sample_env ''s'' sample_db one_failed) = []"
  using closing_stops_followers [OF one_failed_ok, of sample_env "''s''" sample_db]
  by (simp add: owners_eq one_failed_fields sample_db_def sample_def_def)

lemma group_key_ignores_secrets_witness:
  "tunnel_group_key sample_env password_store ''s'' = tunnel_group_key (sample_env\<lparr>en_secrets := other_secrets\<rparr>) password_store ''s'' \<and>
   resolve_session_spec (en_secrets sample_env) password_store ''s'' \<noteq> resolve_session_spec other_secrets password_store ''s''"
proof -
  have r: "resolve_session_spec \<lparr>sx_cred = (\<lambda>_ _. Some [b]), sx_utf8 = (\<lambda>_. Some p), sx_key_file = (\<lambda>_. Err ''none'')\<rparr> password_store ''s'' =
    Some (Ok \<lparr>to_host = ''s'', to_port = 22, to_user = ''u'', to_auth = AsPassword p,
       to_jump_chain = [\<lparr>js_host = ''j'', js_port = 22, js_user = ''u'', js_auth = AsPassword p\<rparr>], to_term = None, to_command = None,
       to_encoding = ''utf-8'', to_su_user = None, to_su_password = None, to_login_macro = None\<rparr>)" for b p
    by (simp add: resolve_session_spec_def MAX_JUMP_DEPTH_def eval_nat_numeral password_store_def sample_session_def session_get_def
        resolve_auth_def resolve_su_def su_user_of_def hop_spec_def)
  obtain k k' where k: "tunnel_group_key sample_env password_store ''s'' = Ok k"
    "tunnel_group_key (sample_env\<lparr>en_secrets := other_secrets\<rparr>) password_store ''s'' = Ok k'"
    by (simp add: tunnel_group_key_def sample_env_def other_secrets_def r)
  from group_key_ignores_secrets [OF k] k show ?thesis
    by (simp add: sample_env_def other_secrets_def r)
qed

lemma remote_tunnel_blocks_port_witness:
  "tunnel_check_port (\<lambda>_ _. True) ''::'' 80 None one_failed = Ok (PortHeld ''a'' (suggest_free_port (\<lambda>_ _. True) ''::'' 80))"
  using remote_tunnel_blocks_port [of 80 "\<lambda>_ _. True" "''::''" "tunnel_info ''a'' (tm_entries one_failed ! 0)" one_failed None]
  by (simp add: tunnel_list_def tunnel_info_def one_failed_fields)

end
