(* ===== verification/Exec_Context.thy ===== *)
theory Exec_Context
  imports Sftp_Context
begin

text \<open>
  The connections that carry commands (\<^verbatim>\<open>src/crates/app/src/exec.rs\<close>), one per session, with
  their quotas for the monitor and for MCP, and the subscriptions of the monitor
  (\<^verbatim>\<open>src/crates/app/src/monitor.rs\<close>). As for SFTP, a slot holds an index into an arena of
  contexts. A semaphore is the number of its free permits; the permits in use are the list
  \<open>xs_held\<close>. A wait for a permit is a step that is not enabled. Opening a connection and
  collecting a sample are events.
\<close>

section \<open>Contexts\<close>

definition MONITOR_PERMITS :: nat where "MONITOR_PERMITS = 2"
definition MCP_PERMITS :: nat where "MCP_PERMITS = 4"
definition EXEC_IDLE_TTL_MS :: u64 where "EXEC_IDLE_TTL_MS = 10 * 60 * 1000"

record ExecCtx =
  xc_closed :: bool
  xc_monitor_permits :: nat
  xc_mcp_permits :: nat
  xc_last_used :: u64

definition exec_touch :: "u64 \<Rightarrow> ExecCtx \<Rightarrow> ExecCtx" where
  "exec_touch now c = c\<lparr>xc_last_used := now\<rparr>"

definition exec_idle_ms :: "u64 \<Rightarrow> ExecCtx \<Rightarrow> u64" where
  "exec_idle_ms now c = saturating_sub now (xc_last_used c)"

definition build_exec_ctx :: "u64 \<Rightarrow> ExecCtx" where
  "build_exec_ctx now =
     \<lparr>xc_closed = False, xc_monitor_permits = MONITOR_PERMITS, xc_mcp_permits = MCP_PERMITS, xc_last_used = now\<rparr>"

datatype quota = QMonitor | QMcp

fun free_permits :: "quota \<Rightarrow> ExecCtx \<Rightarrow> nat" where
  "free_permits QMonitor c = xc_monitor_permits c"
| "free_permits QMcp c = xc_mcp_permits c"

fun set_permits :: "quota \<Rightarrow> nat \<Rightarrow> ExecCtx \<Rightarrow> ExecCtx" where
  "set_permits QMonitor n c = c\<lparr>xc_monitor_permits := n\<rparr>"
| "set_permits QMcp n c = c\<lparr>xc_mcp_permits := n\<rparr>"

fun quota_of :: "quota \<Rightarrow> nat" where
  "quota_of QMonitor = MONITOR_PERMITS"
| "quota_of QMcp = MCP_PERMITS"

section \<open>The manager\<close>

text \<open>\<open>xs_held\<close>: the permits in use, with their contexts.\<close>

record ExecManagerState =
  xs_ctxs :: "(string \<times> nat SubsystemSlot) list"
  xs_arena :: "ExecCtx list"
  xs_held :: "(nat \<times> quota) list"

definition exec_new :: ExecManagerState where
  "exec_new = \<lparr>xs_ctxs = [], xs_arena = [], xs_held = []\<rparr>"

definition exec_drop_ctx :: "string \<Rightarrow> ExecManagerState \<Rightarrow> ExecManagerState" where
  "exec_drop_ctx sid s = s\<lparr>xs_ctxs := map_remove sid (xs_ctxs s)\<rparr>"

definition new_exec_slot :: "nat SubsystemSlot" where
  "new_exec_slot = set_retry_backoff 2000 slot_new"

definition set_exec_slot :: "string \<Rightarrow> nat SubsystemSlot \<Rightarrow> ExecManagerState \<Rightarrow> ExecManagerState" where
  "set_exec_slot sid sl s = s\<lparr>xs_ctxs := map (\<lambda>(k, x). (k, if k = sid then sl else x)) (xs_ctxs s)\<rparr>"

text \<open>\<open>ensure_exec_ctx\<close> up to the wait for the slot, and once it has the context.\<close>

definition ensure_exec_start :: "nat \<Rightarrow> string \<Rightarrow> ExecManagerState \<Rightarrow> nat ensured \<times> ExecManagerState" where
  "ensure_exec_start now sid s =
     (let s = (if sid \<in> fst ` set (xs_ctxs s) then s else s\<lparr>xs_ctxs := xs_ctxs s @ [(sid, new_exec_slot)]\<rparr>);
          sl = the (map_of (xs_ctxs s) sid);
          sl = (case ready_client sl of Some c \<Rightarrow> if xc_closed (xs_arena s ! c) then invalidate sl else sl | None \<Rightarrow> sl);
          (r, sl) = (case get_fast sl of Some c \<Rightarrow> (Got c, sl) | None \<Rightarrow> ensure now sl)
      in (r, set_exec_slot sid sl s))"

definition ensure_exec_end :: "u64 \<Rightarrow> nat \<Rightarrow> ExecManagerState \<Rightarrow> ExecManagerState" where
  "ensure_exec_end now c s = s\<lparr>xs_arena := (xs_arena s)[c := exec_touch now (xs_arena s ! c)]\<rparr>"

text \<open>
  The slot of a session finishes: a new connection becomes a new context of the arena. The
  probe of an old context asks whether its connection is closed.
\<close>

definition exec_recover :: "u64 \<Rightarrow> nat \<Rightarrow> string \<Rightarrow> (string, unit) result \<Rightarrow> nat \<Rightarrow> ExecManagerState \<Rightarrow> ExecManagerState option" where
  "exec_recover now tick sid opened k s =
     (case map_of (xs_ctxs s) sid of
        None \<Rightarrow> None
      | Some sl \<Rightarrow>
          (if k < length (recoveries sl)
           then let (cell, old) = recoveries sl ! k;
                    new = length (xs_arena s);
                    probe = (case old of None \<Rightarrow> False | Some (_, c) \<Rightarrow> \<not> xc_closed (xs_arena s ! c));
                    r = recover_outcome old probe (case opened of Inl e \<Rightarrow> Err e | Inr _ \<Rightarrow> Ok new);
                    sl = (finish_recover tick cell r sl)\<lparr>recoveries := take k (recoveries sl) @ drop (Suc k) (recoveries sl)\<rparr>;
                    s = set_exec_slot sid sl s
                in Some (case r of Fresh _ \<Rightarrow> s\<lparr>xs_arena := xs_arena s @ [build_exec_ctx now]\<rparr> | _ \<Rightarrow> s)
           else None))"

text \<open>\<open>acquire_monitor\<close> and \<open>acquire_mcp\<close>: the call touches the context, then waits for a permit.\<close>

definition acquire :: "quota \<Rightarrow> nat \<Rightarrow> ExecManagerState \<Rightarrow> ExecManagerState option" where
  "acquire q c s =
     (if c < length (xs_arena s) \<and> 0 < free_permits q (xs_arena s ! c)
      then Some (s\<lparr>xs_arena := (xs_arena s)[c := set_permits q (free_permits q (xs_arena s ! c) - 1) (xs_arena s ! c)],
                   xs_held := (c, q) # xs_held s\<rparr>)
      else None)"

text \<open>The wait of MCP for a permit is limited; \<open>in_time\<close> says whether a permit came within it.\<close>

definition acquire_mcp :: "bool \<Rightarrow> nat \<Rightarrow> ExecManagerState \<Rightarrow> (string, unit) result \<times> ExecManagerState" where
  "acquire_mcp in_time c s =
     (if in_time then case acquire QMcp c s of Some s' \<Rightarrow> (Ok (), s') | None \<Rightarrow> (Err ''limit of MCP commands'', s)
      else (Err ''limit of MCP commands'', s))"

definition release_permit :: "nat \<Rightarrow> ExecManagerState \<Rightarrow> ExecManagerState option" where
  "release_permit k s =
     (if k < length (xs_held s)
      then let (c, q) = xs_held s ! k
           in Some (s\<lparr>xs_arena := (xs_arena s)[c := set_permits q (free_permits q (xs_arena s ! c) + 1) (xs_arena s ! c)],
                     xs_held := take k (xs_held s) @ drop (Suc k) (xs_held s)\<rparr>)
      else None)"

definition exec_sweep :: "u64 \<Rightarrow> ExecManagerState \<Rightarrow> ExecManagerState" where
  "exec_sweep now s =
     (let victims = map fst (filter (\<lambda>(sid, sl). case ready_client sl of None \<Rightarrow> False
             | Some c \<Rightarrow> exec_idle_ms now (xs_arena s ! c) \<ge> EXEC_IDLE_TTL_MS) (xs_ctxs s))
      in s\<lparr>xs_ctxs := filter (\<lambda>(sid, _). sid \<notin> set victims) (xs_ctxs s)\<rparr>)"

text \<open>A slot that was dropped while it was connecting still finishes for those who wait for it: \<open>XOrphan\<close>.\<close>

datatype exec_event =
    XEnsure nat string | XEnd u64 nat | XRecover u64 nat string "(string, unit) result" nat | XTouch u64 nat | XAcquire quota nat
  | XRelease nat | XSweep u64 | XDrop string | XClose nat | XOrphan u64

fun exec_step :: "exec_event \<Rightarrow> ExecManagerState \<Rightarrow> ExecManagerState option" where
  "exec_step (XEnsure now sid) s = Some (snd (ensure_exec_start now sid s))"
| "exec_step (XEnd now c) s = Some (ensure_exec_end now c s)"
| "exec_step (XRecover now tick sid opened k) s = exec_recover now tick sid opened k s"
| "exec_step (XTouch now c) s = Some (s\<lparr>xs_arena := (xs_arena s)[c := exec_touch now (xs_arena s ! c)]\<rparr>)"
| "exec_step (XAcquire q c) s = acquire q c s"
| "exec_step (XRelease k) s = release_permit k s"
| "exec_step (XSweep now) s = Some (exec_sweep now s)"
| "exec_step (XDrop sid) s = Some (exec_drop_ctx sid s)"
| "exec_step (XClose c) s = Some (s\<lparr>xs_arena := (xs_arena s)[c := (xs_arena s ! c)\<lparr>xc_closed := True\<rparr>]\<rparr>)"
| "exec_step (XOrphan now) s = Some (s\<lparr>xs_arena := xs_arena s @ [build_exec_ctx now]\<rparr>)"

inductive exec_moves :: "ExecManagerState \<Rightarrow> ExecManagerState \<Rightarrow> bool" where
  exec_event: "exec_step ev s = Some s' \<Longrightarrow> exec_moves s s'"

fun exec_run_events :: "exec_event list \<Rightarrow> ExecManagerState \<Rightarrow> ExecManagerState option" where
  "exec_run_events [] s = Some s"
| "exec_run_events (ev # evs) s = (case exec_step ev s of None \<Rightarrow> None | Some s' \<Rightarrow> exec_run_events evs s')"

section \<open>Quotas\<close>

definition in_hand :: "quota \<Rightarrow> nat \<Rightarrow> ExecManagerState \<Rightarrow> nat" where
  "in_hand q c s = count_list (xs_held s) (c, q)"

definition exec_inv :: "ExecManagerState \<Rightarrow> bool" where
  "exec_inv s \<longleftrightarrow>
     (\<forall>c < length (xs_arena s). \<forall>q. free_permits q (xs_arena s ! c) + in_hand q c s = quota_of q) \<and>
     (\<forall>x \<in> set (xs_held s). fst x < length (xs_arena s))"

lemma permits_set [simp]: "free_permits q (set_permits q' n c) = (if q = q' then n else free_permits q c)"
  by (cases q; cases q') simp_all

lemma permits_other [simp]: "free_permits q (exec_touch now c) = free_permits q c" "free_permits q (c\<lparr>xc_closed := b\<rparr>) = free_permits q c"
  "free_permits q (build_exec_ctx now) = quota_of q"
  by (cases q; simp add: exec_touch_def build_exec_ctx_def)+

lemma exec_inv_same:
  assumes "exec_inv s" "xs_held s' = xs_held s" "length (xs_arena s') = length (xs_arena s)"
    "\<And>c q. c < length (xs_arena s) \<Longrightarrow> free_permits q (xs_arena s' ! c) = free_permits q (xs_arena s ! c)"
  shows "exec_inv s'"
  using assms by (simp add: exec_inv_def in_hand_def)

lemma count_list_drop_nth: "k < length xs \<Longrightarrow> count_list (take k xs @ drop (Suc k) xs) x + of_bool (xs ! k = x) = count_list xs x"
  by (subst (3) id_take_nth_drop [of k xs]) simp_all

lemma exec_recover_arena:
  assumes "exec_recover now tick sid opened k s = Some s'"
  shows "xs_held s' = xs_held s \<and> (xs_arena s' = xs_arena s \<or> xs_arena s' = xs_arena s @ [build_exec_ctx now])"
  using assms by (auto simp: exec_recover_def set_exec_slot_def Let_def split: option.splits if_splits prod.splits recovered.splits)

lemma exec_inv_new:
  assumes "exec_inv s" "xs_held s' = xs_held s" "xs_arena s' = xs_arena s @ [build_exec_ctx now]"
  shows "exec_inv s'"
proof -
  have "in_hand q (length (xs_arena s)) s = 0" for q
    using assms(1) by (auto simp: exec_inv_def in_hand_def count_list_0_iff)
  with assms show ?thesis by (auto simp: exec_inv_def in_hand_def nth_append less_Suc_eq)
qed

lemma exec_step_inv:
  assumes inv: "exec_inv s" and st: "exec_step ev s = Some s'"
  shows "exec_inv s'"
proof (cases ev)
  case (XRecover now tick sid opened k)
  with st exec_recover_arena exec_inv_same [OF inv] exec_inv_new [OF inv] show ?thesis by (metis exec_step.simps(3))
next
  case (XAcquire q c)
  with st have c: "c < length (xs_arena s)" "0 < free_permits q (xs_arena s ! c)"
    "s' = s\<lparr>xs_arena := (xs_arena s)[c := set_permits q (free_permits q (xs_arena s ! c) - 1) (xs_arena s ! c)], xs_held := (c, q) # xs_held s\<rparr>"
    by (auto simp: acquire_def split: if_splits)
  have "free_permits r (xs_arena s' ! b) + in_hand r b s' = quota_of r" if "b < length (xs_arena s)" for b r
  proof -
    have "free_permits r (xs_arena s ! b) + in_hand r b s = quota_of r" using inv that by (simp add: exec_inv_def)
    with c that show ?thesis by (auto simp: in_hand_def nth_list_update)
  qed
  with c inv show ?thesis by (simp add: exec_inv_def)
next
  case (XRelease k)
  obtain c q where h: "xs_held s ! k = (c, q)" by fastforce
  with XRelease st have k: "k < length (xs_held s)"
    and s': "s' = s\<lparr>xs_arena := (xs_arena s)[c := set_permits q (free_permits q (xs_arena s ! c) + 1) (xs_arena s ! c)],
      xs_held := take k (xs_held s) @ drop (Suc k) (xs_held s)\<rparr>"
    by (auto simp: release_permit_def split: if_splits)
  have c: "c < length (xs_arena s)" using inv k h by (metis exec_inv_def fst_conv nth_mem)
  have cnt: "in_hand r b s' + of_bool (c = b \<and> q = r) = in_hand r b s" for r b
    using count_list_drop_nth [OF k, of "(b, r)"] h s' by (simp add: in_hand_def)
  have ok: "free_permits r (xs_arena s ! b) + in_hand r b s = quota_of r" if "b < length (xs_arena s)" for b r
    using inv that by (simp add: exec_inv_def)
  have "free_permits r (xs_arena s' ! b) + in_hand r b s' = quota_of r" if "b < length (xs_arena s)" for b r
    using ok [OF that, of r] cnt [of r b] c that s' by (auto simp: nth_list_update split: if_splits)
  moreover have "fst x < length (xs_arena s)" if "x \<in> set (xs_held s')" for x
    using that inv s' by (auto simp: exec_inv_def dest: in_set_takeD in_set_dropD)
  ultimately show ?thesis using s' by (simp add: exec_inv_def)
next
  case (XOrphan now)
  with st exec_inv_new [OF inv] show ?thesis by auto
next
  case (XEnsure now sid)
  have "xs_held s' = xs_held s \<and> xs_arena s' = xs_arena s"
    using st XEnsure by (auto simp: ensure_exec_start_def set_exec_slot_def Let_def split: prod.splits)
  then show ?thesis by (auto intro: exec_inv_same [OF inv])
qed (use st in \<open>auto intro!: exec_inv_same [OF inv] simp: ensure_exec_end_def exec_sweep_def exec_drop_ctx_def Let_def nth_list_update_at\<close>)

definition exec_init :: "ExecManagerState \<Rightarrow> bool" where
  "exec_init s \<longleftrightarrow> s = exec_new"

interpretation exec_system: invariant_system exec_init exec_moves exec_inv
proof (unfold_locales, goal_cases)
  case (1 s)
  then show ?case by (simp add: exec_init_def exec_new_def exec_inv_def)
next
  case (2 s s')
  from 2(2) exec_step_inv [OF 2(1)] show ?case by (auto elim: exec_moves.cases)
qed


section \<open>The sweep\<close>

lemma ensure_exec_fresh:
  assumes "sid \<notin> fst ` set (xs_ctxs s)"
  shows "fst (ensure_exec_start t sid s) = Waiting 0"
proof -
  have new: "map_of (xs_ctxs s @ [(sid, new_exec_slot)]) sid = Some new_exec_slot"
    using assms by (simp add: map_add_def map_of_eq_None_iff [THEN iffD2])
  have "ready_client new_exec_slot = None" "get_fast new_exec_slot = None" "fst (ensure t new_exec_slot) = Waiting 0"
    by (simp_all add: new_exec_slot_def set_retry_backoff_def slot_new_def ready_client_def get_fast_def ensure_def ensure_act_def)
  with assms new show ?thesis by (simp add: ensure_exec_start_def Let_def case_prod_unfold)
qed

lemma keys_gone: "k \<in> V \<Longrightarrow> k \<notin> fst ` set (filter (\<lambda>(i, _). i \<notin> V) xs)"
  by auto

text \<open>
  The sweep looks at the time of the last acquisition only. A context whose commands run for
  ten minutes is dropped with its permits in use, and the next command of the session opens a
  second connection with a quota of its own.
\<close>

theorem sweep_drops_busy_context:
  assumes "map_of (xs_ctxs s) sid = Some sl" "ready_client sl = Some c" "exec_idle_ms now (xs_arena s ! c) \<ge> EXEC_IDLE_TTL_MS"
  shows "map_of (xs_ctxs (exec_sweep now s)) sid = None \<and> xs_held (exec_sweep now s) = xs_held s \<and>
    fst (ensure_exec_start t sid (exec_sweep now s)) = Waiting 0"
proof -
  let ?P = "\<lambda>(sid, sl). case ready_client sl of None \<Rightarrow> False | Some c \<Rightarrow> exec_idle_ms now (xs_arena s ! c) \<ge> EXEC_IDLE_TTL_MS"
  have "(sid, sl) \<in> set (filter ?P (xs_ctxs s))" using assms by (auto dest: map_of_SomeD)
  then have "sid \<in> set (map fst (filter ?P (xs_ctxs s)))" by force
  from keys_gone [OF this, of "xs_ctxs s"] have gone: "sid \<notin> fst ` set (xs_ctxs (exec_sweep now s))"
    by (simp add: exec_sweep_def Let_def)
  then have "map_of (xs_ctxs (exec_sweep now s)) sid = None" by (simp add: map_of_eq_None_iff)
  moreover have "fst (ensure_exec_start t sid (exec_sweep now s)) = Waiting 0" using gone by (rule ensure_exec_fresh)
  ultimately show ?thesis by (simp add: exec_sweep_def Let_def)
qed

text \<open>
  An example: four commands run in the context of a session for ten minutes, the sweep drops
  it, and four more run in the next one.
\<close>

definition eight_commands :: "exec_event list" where
  "eight_commands =
     [XEnsure 0 ''s'', XRecover 0 0 ''s'' (Ok ()) 0, XEnd 0 0, XAcquire QMcp 0, XAcquire QMcp 0, XAcquire QMcp 0, XAcquire QMcp 0,
      XSweep 600000, XEnsure 600000 ''s'', XRecover 600000 600000 ''s'' (Ok ()) 0, XEnd 600000 1,
      XAcquire QMcp 1, XAcquire QMcp 1, XAcquire QMcp 1, XAcquire QMcp 1]"

lemmas exec_eval = exec_new_def ensure_exec_start_def new_exec_slot_def set_retry_backoff_def slot_new_def set_exec_slot_def
  ready_client_def get_fast_def ensure_def ensure_act_def exec_recover_def recover_outcome_def finish_recover_def build_exec_ctx_def
  ensure_exec_end_def exec_touch_def acquire_def exec_sweep_def exec_idle_ms_def EXEC_IDLE_TTL_MS_def MONITOR_PERMITS_def MCP_PERMITS_def
  saturating_sub_def Let_def

definition busy :: ExecManagerState where
  "busy = the (exec_run_events (take 7 eight_commands) exec_new)"

lemma busy_fields:
  "exec_run_events (take 7 eight_commands) exec_new = Some busy \<and> length (xs_held busy) = 4 \<and> length (xs_arena busy) = 1 \<and>
   xc_last_used (xs_arena busy ! 0) = 0 \<and> (\<exists>sl. map_of (xs_ctxs busy) ''s'' = Some sl \<and> ready_client sl = Some 0)"
  by (simp add: busy_def eight_commands_def exec_eval)

lemma exec_run_reachable:
  "exec_run_events evs s = Some s' \<Longrightarrow> reachable exec_init exec_moves s \<Longrightarrow> reachable exec_init exec_moves s'"
proof (induction evs arbitrary: s)
  case (Cons ev evs)
  then obtain s1 where "exec_step ev s = Some s1" "exec_run_events evs s1 = Some s'" by (auto split: option.splits)
  with Cons show ?case by (blast intro: reach_step exec_event)
qed simp

lemma busy_reachable: "reachable exec_init exec_moves busy"
  using busy_fields by (blast intro: exec_run_reachable reach_init [of exec_init exec_new, unfolded exec_init_def, OF refl, folded exec_init_def])


lemma sweep_drops_busy_context_witness:
  "map_of (xs_ctxs (exec_sweep 600000 busy)) ''s'' = None \<and> length (xs_held (exec_sweep 600000 busy)) = 4 \<and>
   length (xs_held (the (exec_run_events eight_commands exec_new))) = 8"
proof -
  from busy_fields obtain sl where sl: "map_of (xs_ctxs busy) ''s'' = Some sl" "ready_client sl = Some 0" by blast
  have "exec_idle_ms 600000 (xs_arena busy ! 0) \<ge> EXEC_IDLE_TTL_MS"
    using busy_fields by (simp add: exec_idle_ms_def EXEC_IDLE_TTL_MS_def saturating_sub_def)
  from sweep_drops_busy_context [OF sl this] have "map_of (xs_ctxs (exec_sweep 600000 busy)) ''s'' = None"
    "length (xs_held (exec_sweep 600000 busy)) = 4" using busy_fields by simp_all
  moreover have "length (xs_held (the (exec_run_events eight_commands exec_new))) = 8"
    by (simp add: eight_commands_def exec_eval)
  ultimately show ?thesis by simp
qed

section \<open>Subscriptions of the monitor\<close>

text \<open>
  A subscription is a task; the map holds the handles that can abort it. \<open>metrics_subscribe\<close> first
  ends the subscription of the session, waits for the context, and then starts its own; other
  calls may come in between.
\<close>

record mon_task =
  mt_session :: string
  mt_interval :: nat
  mt_alive :: bool

record MonitorState =
  mo_subs :: "(string \<times> nat) list"
  mo_tasks :: "mon_task list"

definition monitor_new :: MonitorState where
  "monitor_new = \<lparr>mo_subs = [], mo_tasks = []\<rparr>"

definition unsubscribe_inner :: "string \<Rightarrow> MonitorState \<Rightarrow> MonitorState" where
  "unsubscribe_inner sid s =
     (case map_of (mo_subs s) sid of
        None \<Rightarrow> s
      | Some k \<Rightarrow> s\<lparr>mo_subs := map_remove sid (mo_subs s), mo_tasks := (mo_tasks s)[k := (mo_tasks s ! k)\<lparr>mt_alive := False\<rparr>]\<rparr>)"

definition subscribe_end :: "string \<Rightarrow> u32 \<Rightarrow> MonitorState \<Rightarrow> MonitorState" where
  "subscribe_end sid interval s =
     s\<lparr>mo_subs := map_insert sid (length (mo_tasks s)) (mo_subs s),
       mo_tasks := mo_tasks s @ [\<lparr>mt_session = sid, mt_interval = unat (max interval 2000), mt_alive = True\<rparr>]\<rparr>"

text \<open>A call that no other one overlaps; \<open>ctx\<close> says whether the context could be had.\<close>

definition metrics_subscribe :: "bool \<Rightarrow> string \<Rightarrow> u32 \<Rightarrow> MonitorState \<Rightarrow> MonitorState" where
  "metrics_subscribe ctx sid interval s =
     (let s = unsubscribe_inner sid s in if ctx then subscribe_end sid interval s else s)"

text \<open>The loop of a task: the samples it sends, and whether it has ended.\<close>

datatype 'a round = Sampled 'a bool | SampleFailed bool string bool

datatype 'a MetricsEvent = MeSnapshot 'a | MeError string bool

fun monitor_loop :: "nat \<Rightarrow> 'a round list \<Rightarrow> 'a MetricsEvent list \<times> bool" where
  "monitor_loop errs [] = ([], False)"
| "monitor_loop errs (Sampled x sent # rs) =
     (if sent then (case monitor_loop 0 rs of (out, e) \<Rightarrow> (MeSnapshot x # out, e)) else ([], True))"
| "monitor_loop errs (SampleFailed fatal msg closed # rs) =
     (if fatal \<or> errs + 1 \<ge> 3 \<or> closed then ([MeError msg fatal], True)
      else case monitor_loop (errs + 1) rs of (out, e) \<Rightarrow> (MeError msg fatal # out, e))"

fun failed_round :: "'a round \<Rightarrow> bool" where
  "failed_round (Sampled _ _) = False"
| "failed_round (SampleFailed _ _ _) = True"

fun ends_loop :: "'a round \<Rightarrow> bool" where
  "ends_loop (Sampled _ sent) = (\<not> sent)"
| "ends_loop (SampleFailed fatal _ closed) = (fatal \<or> closed)"

fun three_in_a_row :: "bool list \<Rightarrow> bool" where
  "three_in_a_row (a # b # c # bs) = (a \<and> b \<and> c \<or> three_in_a_row (b # c # bs))"
| "three_in_a_row _ = False"

lemma three_in_a_row_False [simp]:
  "three_in_a_row (False # bs) = three_in_a_row bs" "three_in_a_row (True # False # bs) = three_in_a_row bs"
  by (cases bs; cases "tl bs"; simp)+

lemma monitor_loop_ends:
  "errs < 3 \<Longrightarrow> snd (monitor_loop errs rs) = (list_ex ends_loop rs \<or> three_in_a_row (replicate errs True @ map failed_round rs))"
proof (induction errs rs rule: monitor_loop.induct)
  case (1 errs)
  then have "errs \<in> {0, 1, 2}" by auto
  then show ?case by (auto simp: numeral_2_eq_2)
next
  case (2 errs x sent rs)
  then have "errs \<in> {0, 1, 2}" by auto
  with 2 show ?case by (auto simp: numeral_2_eq_2 split: prod.split)
next
  case (3 errs fatal msg closed rs)
  have rot: "replicate errs True @ True # bs = replicate (Suc errs) True @ bs" for bs by (simp add: replicate_app_Cons_same)
  from 3(2) have "errs = 2 \<or> Suc errs < 3" by auto
  then show ?case
  proof
    assume "errs = 2"
    then show ?thesis by (simp add: numeral_2_eq_2)
  next
    assume "Suc errs < 3"
    with 3(1) show ?thesis by (auto simp: rot split: prod.split)
  qed
qed

text \<open>
  A collector stops for three reasons only: the front end no longer listens, the failure is
  final (no \<open>/proc\<close>, or the connection has closed), or three rounds in a row have failed. Any
  sample that gets through starts the count anew.
\<close>

theorem monitor_gives_up_after_three:
  "snd (monitor_loop 0 rs) = (list_ex ends_loop rs \<or> three_in_a_row (map failed_round rs))"
  using monitor_loop_ends [of 0 rs] by simp

subsection \<open>Overlapping subscriptions\<close>

text \<open>The tasks that run are the ones the map can end.\<close>

definition subs_ok :: "MonitorState \<Rightarrow> bool" where
  "subs_ok s \<longleftrightarrow> distinct (map fst (mo_subs s)) \<and>
     (\<forall>k < length (mo_tasks s). mt_alive (mo_tasks s ! k) \<longrightarrow> map_of (mo_subs s) (mt_session (mo_tasks s ! k)) = Some k) \<and>
     (\<forall>sid k. map_of (mo_subs s) sid = Some k \<longrightarrow> k < length (mo_tasks s) \<and> mt_session (mo_tasks s ! k) = sid)"

lemma map_of_map_remove: "map_of (map_remove k m) j = (if j = k then None else map_of m j)"
  unfolding map_remove_def by (induction m) auto

lemma unsubscribe_ok:
  assumes "subs_ok s"
  shows "subs_ok (unsubscribe_inner sid s) \<and> map_of (mo_subs (unsubscribe_inner sid s)) sid = None"
proof (cases "map_of (mo_subs s) sid")
  case None
  with assms show ?thesis by (simp add: unsubscribe_inner_def)
next
  case (Some k)
  with assms have k: "k < length (mo_tasks s)" "mt_session (mo_tasks s ! k) = sid" by (auto simp: subs_ok_def)
  have "distinct (map fst (map_remove sid (mo_subs s)))"
    using assms by (auto simp: subs_ok_def map_remove_def intro: distinct_map_filter)
  with assms Some k show ?thesis
    by (auto simp: subs_ok_def unsubscribe_inner_def map_of_map_remove nth_list_update split: if_splits)
qed

lemma subscribe_end_ok:
  assumes "subs_ok s" "map_of (mo_subs s) sid = None"
  shows "subs_ok (subscribe_end sid interval s)"
proof -
  have keep: "filter (\<lambda>(k, _). k \<noteq> sid) (mo_subs s) = mo_subs s"
    using assms(2) by (auto simp: filter_id_conv map_of_eq_None_iff image_iff)
  let ?s = "subscribe_end sid interval s" and ?n = "length (mo_tasks s)"
  define t where "t = \<lparr>mt_session = sid, mt_interval = unat (max interval 2000), mt_alive = True\<rparr>"
  have m: "mo_subs ?s = (sid, ?n) # mo_subs s" and ts: "mo_tasks ?s = mo_tasks s @ [t]" and t: "mt_session t = sid"
    using keep by (simp_all add: subscribe_end_def map_insert_def t_def)
  have alive: "map_of (mo_subs s) (mt_session (mo_tasks s ! k)) = Some k" if "k < ?n" "mt_alive (mo_tasks s ! k)" for k
    using assms(1) that by (simp add: subs_ok_def)
  have reg: "k < ?n \<and> mt_session (mo_tasks s ! k) = i" if "map_of (mo_subs s) i = Some k" for i k
    using assms(1) that by (simp add: subs_ok_def)
  have "distinct (map fst (mo_subs ?s))" using assms by (auto simp: subs_ok_def m map_of_eq_None_iff)
  moreover have "map_of (mo_subs ?s) (mt_session (mo_tasks ?s ! k)) = Some k" if "k < length (mo_tasks ?s)" "mt_alive (mo_tasks ?s ! k)" for k
  proof (cases "k = ?n")
    case True
    then show ?thesis by (simp add: m ts t)
  next
    case False
    with that have "k < ?n" "mt_alive (mo_tasks s ! k)" by (auto simp: ts nth_append)
    with alive assms(2) show ?thesis by (auto simp: m ts nth_append)
  qed
  moreover have "k < length (mo_tasks ?s) \<and> mt_session (mo_tasks ?s ! k) = i" if "map_of (mo_subs ?s) i = Some k" for i k
    using that reg [of i k] t by (auto simp: m ts nth_append split: if_splits)
  ultimately show ?thesis unfolding subs_ok_def by blast
qed

lemma unsubscribe_keeps:
  assumes "k < length (mo_tasks s)" "k \<notin> snd ` set (mo_subs s)"
  shows "k < length (mo_tasks (unsubscribe_inner i s)) \<and> mo_tasks (unsubscribe_inner i s) ! k = mo_tasks s ! k \<and>
    k \<notin> snd ` set (mo_subs (unsubscribe_inner i s))"
proof (cases "map_of (mo_subs s) i")
  case (Some j)
  then have "j \<noteq> k" using assms by (force dest: map_of_SomeD)
  moreover have "set (map_remove i (mo_subs s)) \<subseteq> set (mo_subs s)" by (auto simp: map_remove_def)
  ultimately show ?thesis using Some assms by (auto simp: unsubscribe_inner_def)
qed (use assms in \<open>simp add: unsubscribe_inner_def\<close>)

text \<open>
  Subscribing ends the former subscription of a session, unless two calls overlap: when both
  have looked before either has started, the later start overwrites the handle of the earlier
  one, whose task then runs on whatever is unsubscribed.
\<close>

theorem overlapping_subscriptions_leak:
  assumes "subs_ok s"
  shows "subs_ok (metrics_subscribe ctx sid interval s) \<and>
    (let s2 = subscribe_end sid i2 (subscribe_end sid i1 (unsubscribe_inner sid (unsubscribe_inner sid s)));
         s3 = foldr unsubscribe_inner sids s2;
         k = length (mo_tasks s)
     in k < length (mo_tasks s3) \<and> mt_alive (mo_tasks s3 ! k) \<and> mt_session (mo_tasks s3 ! k) = sid)"
proof -
  have ok: "subs_ok (metrics_subscribe ctx sid interval s)"
    using unsubscribe_ok [OF assms] subscribe_end_ok by (simp add: metrics_subscribe_def Let_def)
  define s0 where "s0 = unsubscribe_inner sid (unsubscribe_inner sid s)"
  have s0: "subs_ok s0" "map_of (mo_subs s0) sid = None" "length (mo_tasks s0) = length (mo_tasks s)"
    using unsubscribe_ok unsubscribe_ok [OF assms]
    by (simp_all add: s0_def) (simp add: unsubscribe_inner_def split: option.split)
  let ?k = "length (mo_tasks s)"
  define s2 where "s2 = subscribe_end sid i2 (subscribe_end sid i1 s0)"
  have s2: "?k < length (mo_tasks s2)" "mt_alive (mo_tasks s2 ! ?k)" "mt_session (mo_tasks s2 ! ?k) = sid" "?k \<notin> snd ` set (mo_subs s2)"
  proof -
    have "b < length (mo_tasks s0)" if "(a, b) \<in> set (mo_subs s0)" for a b
      using s0(1) that by (metis map_of_is_SomeI subs_ok_def)
    with s0 show "?k \<notin> snd ` set (mo_subs s2)" by (fastforce simp: s2_def subscribe_end_def map_insert_def)
  qed (use s0 in \<open>simp_all add: s2_def subscribe_end_def nth_append\<close>)
  have "?k < length (mo_tasks (foldr unsubscribe_inner sids s2)) \<and> mo_tasks (foldr unsubscribe_inner sids s2) ! ?k = mo_tasks s2 ! ?k \<and>
    ?k \<notin> snd ` set (mo_subs (foldr unsubscribe_inner sids s2))"
  proof (induction sids)
    case (Cons i sids)
    with unsubscribe_keeps [of ?k "foldr unsubscribe_inner sids s2" i] show ?case by simp
  qed (use s2 in simp)
  with ok s2 show ?thesis by (simp add: Let_def s2_def s0_def)
qed

lemma overlapping_subscriptions_leak_witness:
  "mt_alive (mo_tasks (unsubscribe_inner ''s'' (subscribe_end ''s'' 0 (subscribe_end ''s'' 0
     (unsubscribe_inner ''s'' (unsubscribe_inner ''s'' monitor_new))))) ! 0)"
  using overlapping_subscriptions_leak [of monitor_new True "''s''" 0 0 0 "[''s'']"]
  by (simp add: subs_ok_def monitor_new_def Let_def)

end
