(* ===== verification/Monitor.thy ===== *)
theory Monitor
  imports Ssh_Error Complex_Main
begin

text \<open>
  The figures of a server (\<^verbatim>\<open>src/crates/core-monitor/src\<close>): one round runs a script that prints
  the files of \<open>/proc\<close> in sections, the parser reads them, and the collector turns the counters of
  two rounds into rates.

  The output is the text after \<open>from_utf8_lossy\<close>. Sums and differences of \<open>u64\<close> wrap around, as
  in a release build. \<open>f32\<close> numbers are only read and passed on, so their type and parser are
  arguments; a quotient the code computes in floating point is the exact quotient here, and time
  is in milliseconds.
\<close>

section \<open>Samples\<close>

record CpuTimes =
  cpu_user :: u64
  cpu_nice :: u64
  cpu_system :: u64
  cpu_idle :: u64
  cpu_iowait :: u64
  cpu_irq :: u64
  cpu_softirq :: u64
  cpu_steal :: u64

definition cpu_total :: "CpuTimes \<Rightarrow> u64" where
  "cpu_total t =
     cpu_user t + cpu_nice t + cpu_system t + cpu_idle t + cpu_iowait t + cpu_irq t + cpu_softirq t + cpu_steal t"

definition idle_all :: "CpuTimes \<Rightarrow> u64" where
  "idle_all t = cpu_idle t + cpu_iowait t"

record MemKb =
  mk_total :: u64
  mk_avail :: u64
  mk_swap_total :: u64
  mk_swap_free :: u64

record 'f LoadAvg =
  la_l1 :: 'f
  la_l5 :: 'f
  la_l15 :: 'f
  la_running :: u32
  la_total :: u32

record 'f ProcInfo =
  pr_pid :: u32
  pr_rss_kb :: u64
  pr_cpu_pct :: 'f
  pr_mem_pct :: 'f
  pr_comm :: string

record 'f RawSample =
  rw_cpu :: "CpuTimes option"
  rw_mem :: "MemKb option"
  rw_load :: "'f LoadAvg option"
  rw_disks :: "(string \<times> u64 \<times> u64) list"
  rw_nets :: "(string \<times> u64 \<times> u64) list"
  rw_procs :: "'f ProcInfo list"

definition raw_default :: "'f RawSample" where
  "raw_default = \<lparr>rw_cpu = None, rw_mem = None, rw_load = None, rw_disks = [], rw_nets = [], rw_procs = []\<rparr>"

section \<open>Sections\<close>

text \<open>\<open>split_inclusive('\n')\<close>, \<open>strip_prefix\<close>, \<open>strip_suffix\<close> and \<open>split_once\<close>.\<close>

fun split_inclusive :: "string \<Rightarrow> string list" where
  "split_inclusive [] = []"
| "split_inclusive (c # s) =
     (if c = CHR 0x0A then [c] # split_inclusive s
      else case split_inclusive s of [] \<Rightarrow> [[c]] | l # ls \<Rightarrow> (c # l) # ls)"

definition strip_prefix :: "string \<Rightarrow> string \<Rightarrow> string option" where
  "strip_prefix p s = (if starts_with s p then Some (drop (length p) s) else None)"

definition strip_suffix :: "string \<Rightarrow> string \<Rightarrow> string option" where
  "strip_suffix p s = (if ends_with s p then Some (take (length s - length p) s) else None)"

definition split_once :: "char \<Rightarrow> string \<Rightarrow> (string \<times> string) option" where
  "split_once c s =
     (if c \<in> set s then Some (takeWhile (\<lambda>x. x \<noteq> c) s, tl (dropWhile (\<lambda>x. x \<noteq> c) s)) else None)"

definition section_name :: "string \<Rightarrow> string option" where
  "section_name line = map_option trim (Option.bind (strip_prefix ''=='' (trim line)) (strip_suffix ''==''))"

text \<open>The marks: name, start of the body, start of the header.\<close>

fun find_marks :: "nat \<Rightarrow> string list \<Rightarrow> (string \<times> nat \<times> nat) list" where
  "find_marks pos [] = []"
| "find_marks pos (l # ls) =
     (case section_name l of
        None \<Rightarrow> find_marks (pos + length l) ls
      | Some n \<Rightarrow> (n, pos + length l, pos) # find_marks (pos + length l) ls)"

fun cut_sections :: "string \<Rightarrow> (string \<times> nat \<times> nat) list \<Rightarrow> (string \<times> string) list" where
  "cut_sections out [] = []"
| "cut_sections out ((n, start, _) # ms) =
     (let fin = (case ms of [] \<Rightarrow> length out | (_, _, h) # _ \<Rightarrow> h)
      in (n, take (fin - start) (drop start out)) # cut_sections out ms)"

definition split_sections :: "string \<Rightarrow> (string \<times> string) list" where
  "split_sections out = cut_sections out (find_marks 0 (split_inclusive out))"

section \<open>The parsers\<close>

definition field :: "nat \<Rightarrow> string list \<Rightarrow> string option" where
  "field k f = (if k < length f then Some (f ! k) else None)"

definition number :: "nat \<Rightarrow> string list \<Rightarrow> 'n::len word option" where
  "number k f = Option.bind (field k f) parse_uint"

definition or_zero :: "'n::len word option \<Rightarrow> 'n word" where
  "or_zero x = (case x of None \<Rightarrow> 0 | Some n \<Rightarrow> n)"

definition parse_cpu :: "string \<Rightarrow> CpuTimes option" where
  "parse_cpu body =
     (case find (\<lambda>l. starts_with l ''cpu '') (str_lines body) of
        None \<Rightarrow> None
      | Some line \<Rightarrow>
          (let f = split_whitespace line
           in case (number 1 f, number 2 f, number 3 f, number 4 f) of
                (Some u, Some n, Some s, Some i) \<Rightarrow>
                  Some \<lparr>cpu_user = u, cpu_nice = n, cpu_system = s, cpu_idle = i, cpu_iowait = or_zero (number 5 f),
                        cpu_irq = or_zero (number 6 f), cpu_softirq = or_zero (number 7 f), cpu_steal = or_zero (number 8 f)\<rparr>
              | _ \<Rightarrow> None))"

definition mem_get :: "string \<Rightarrow> string \<Rightarrow> u64 option" where
  "mem_get body key =
     find_map (\<lambda>l. Option.bind (strip_prefix key l) (\<lambda>rest. number 0 (split_whitespace rest))) (str_lines body)"

definition parse_meminfo :: "string \<Rightarrow> MemKb option" where
  "parse_meminfo body =
     (let get = mem_get body;
          approx = map_option (\<lambda>f. f + or_zero (get ''Buffers:'') + or_zero (get ''Cached:'')) (get ''MemFree:'')
      in case (get ''MemTotal:'', case get ''MemAvailable:'' of None \<Rightarrow> approx | Some a \<Rightarrow> Some a) of
           (Some t, Some a) \<Rightarrow>
             Some \<lparr>mk_total = t, mk_avail = a, mk_swap_total = or_zero (get ''SwapTotal:''), mk_swap_free = or_zero (get ''SwapFree:'')\<rparr>
         | _ \<Rightarrow> None)"

definition parse_loadavg :: "(string \<Rightarrow> 'f option) \<Rightarrow> string \<Rightarrow> 'f LoadAvg option" where
  "parse_loadavg f32 body =
     (case str_lines body of
        [] \<Rightarrow> None
      | line # _ \<Rightarrow>
          (let f = split_whitespace (trim line);
               (running, all) =
                 (case Option.bind (field 3 f) (split_once (CHR ''/'')) of
                    None \<Rightarrow> (0, 0)
                  | Some (r, t) \<Rightarrow> (case (parse_uint r, parse_uint t) of (Some r, Some t) \<Rightarrow> (r, t) | _ \<Rightarrow> (0, 0)))
           in case (Option.bind (field 0 f) f32, Option.bind (field 1 f) f32, Option.bind (field 2 f) f32) of
                (Some a, Some b, Some c) \<Rightarrow> Some \<lparr>la_l1 = a, la_l5 = b, la_l15 = c, la_running = running, la_total = all\<rparr>
              | _ \<Rightarrow> None))"

definition parse_disk_line :: "string \<Rightarrow> (string \<times> u64 \<times> u64) option" where
  "parse_disk_line l =
     (let f = split_whitespace l
      in if length f < 10 then None
         else if starts_with (f ! 2) ''loop'' \<or> starts_with (f ! 2) ''ram'' then None
         else case (parse_uint (f ! 5), parse_uint (f ! 9)) of (Some r, Some w) \<Rightarrow> Some (f ! 2, r, w) | _ \<Rightarrow> None)"

definition parse_diskstats :: "string \<Rightarrow> (string \<times> u64 \<times> u64) list" where
  "parse_diskstats body = List.map_filter parse_disk_line (str_lines body)"

definition parse_net_line :: "string \<Rightarrow> (string \<times> u64 \<times> u64) option" where
  "parse_net_line l =
     (case split_once (CHR '':'') l of
        None \<Rightarrow> None
      | Some (iface, rest) \<Rightarrow>
          (let f = split_whitespace rest
           in if trim iface = ''lo'' \<or> length f < 9 then None
              else case (parse_uint (f ! 0), parse_uint (f ! 8)) of (Some r, Some t) \<Rightarrow> Some (trim iface, r, t) | _ \<Rightarrow> None))"

definition parse_net_dev :: "string \<Rightarrow> (string \<times> u64 \<times> u64) list" where
  "parse_net_dev body = List.map_filter parse_net_line (drop 2 (str_lines body))"

definition parse_ps_line :: "(string \<Rightarrow> 'f option) \<Rightarrow> string \<Rightarrow> 'f ProcInfo option" where
  "parse_ps_line f32 l =
     (let f = split_whitespace l
      in if length f < 5 then None
         else case (parse_uint (f ! 0), parse_uint (f ! 1), f32 (f ! 2), f32 (f ! 3)) of
                (Some p, Some r, Some c, Some m) \<Rightarrow>
                  Some \<lparr>pr_pid = p, pr_rss_kb = r, pr_cpu_pct = c, pr_mem_pct = m, pr_comm = join '' '' (drop 4 f)\<rparr>
              | _ \<Rightarrow> None)"

definition parse_ps :: "(string \<Rightarrow> 'f option) \<Rightarrow> string \<Rightarrow> 'f ProcInfo list" where
  "parse_ps f32 body = List.map_filter (parse_ps_line f32) (str_lines body)"

definition parse_section :: "(string \<Rightarrow> 'f option) \<Rightarrow> string \<times> string \<Rightarrow> 'f RawSample \<Rightarrow> 'f RawSample" where
  "parse_section f32 = (\<lambda>(name, body) s.
     if name = ''STAT'' then s\<lparr>rw_cpu := parse_cpu body\<rparr>
     else if name = ''MEM'' then s\<lparr>rw_mem := parse_meminfo body\<rparr>
     else if name = ''LOAD'' then s\<lparr>rw_load := parse_loadavg f32 body\<rparr>
     else if name = ''DISK'' then s\<lparr>rw_disks := parse_diskstats body\<rparr>
     else if name = ''NET'' then s\<lparr>rw_nets := parse_net_dev body\<rparr>
     else if name = ''PS'' then s\<lparr>rw_procs := parse_ps f32 body\<rparr>
     else s)"

definition parse_round :: "(string \<Rightarrow> 'f option) \<Rightarrow> string \<Rightarrow> 'f RawSample" where
  "parse_round f32 out = fold (parse_section f32) (split_sections out) raw_default"

section \<open>The collector\<close>

definition SECTOR_BYTES :: u64 where "SECTOR_BYTES = 512"

datatype MonitorError = MonExec SshError | NoProcfs | MonParse string

type_synonym rates = "string \<times> (nat \<times> nat) option"

record 'f MetricsSnapshot =
  sn_ts_ms :: u64
  sn_interval_ms :: nat
  sn_cpu_busy_pct :: "rat option"
  sn_load :: "'f list"
  sn_procs_running :: u32
  sn_procs_total :: u32
  sn_mem_total_kb :: u64
  sn_mem_avail_kb :: u64
  sn_swap_total_kb :: u64
  sn_swap_free_kb :: u64
  sn_disks :: "rates list"
  sn_nets :: "rates list"
  sn_procs :: "'f ProcInfo list"

type_synonym 'f MetricsCollector = "('f RawSample \<times> nat) option"

text \<open>The busy share from two samples of the counters, in percent.\<close>

definition cpu_busy :: "CpuTimes option \<Rightarrow> CpuTimes option \<Rightarrow> rat option" where
  "cpu_busy a b =
     (case (a, b) of
        (Some a, Some b) \<Rightarrow>
          if cpu_total b > cpu_total a
          then Some (100 * (1 - of_nat (unat (idle_all b - idle_all a)) / of_nat (unat (cpu_total b - cpu_total a))))
          else None
      | _ \<Rightarrow> None)"

definition rate :: "u64 \<Rightarrow> nat \<Rightarrow> nat" where
  "rate delta dt = (unat delta * 1000) div dt"

text \<open>
  The rates of the devices against the last sample, where a later entry of a name counts; a
  counter that went back gives nothing. \<open>scale\<close> is the size of a unit.
\<close>

definition device_rates :: "u64 \<Rightarrow> nat option \<Rightarrow> (string \<times> u64 \<times> u64) list \<Rightarrow> (string \<times> u64 \<times> u64) list \<Rightarrow> rates list" where
  "device_rates scale dt prev now =
     map (\<lambda>(n, r, w). (n, case (map_of (rev prev) n, dt) of
         (Some (pr, pw), Some d) \<Rightarrow> Some (rate (saturating_sub r pr * scale) d, rate (saturating_sub w pw * scale) d)
       | _ \<Rightarrow> None)) now"

definition elapsed :: "'f MetricsCollector \<Rightarrow> nat \<Rightarrow> nat option" where
  "elapsed prev now = (case prev of None \<Rightarrow> None | Some (_, t) \<Rightarrow> if now - t > 50 then Some (now - t) else None)"

text \<open>\<open>zero\<close> is the number 0; \<open>now\<close> the monotonic clock and \<open>ts\<close> the time of day.\<close>

definition snapshot_of :: "'f \<Rightarrow> u64 \<Rightarrow> nat \<Rightarrow> 'f MetricsCollector \<Rightarrow> 'f RawSample \<Rightarrow> 'f MetricsSnapshot" where
  "snapshot_of zero ts now prev raw =
     (let dt = elapsed prev now;
          load = (case rw_load raw of Some l \<Rightarrow> l | None \<Rightarrow> \<lparr>la_l1 = zero, la_l5 = zero, la_l15 = zero, la_running = 0, la_total = 0\<rparr>);
          mem = (case rw_mem raw of Some m \<Rightarrow> m | None \<Rightarrow> \<lparr>mk_total = 0, mk_avail = 0, mk_swap_total = 0, mk_swap_free = 0\<rparr>)
      in \<lparr>sn_ts_ms = ts, sn_interval_ms = (case dt of None \<Rightarrow> 0 | Some d \<Rightarrow> d),
          sn_cpu_busy_pct = cpu_busy (Option.bind prev (\<lambda>(p, _). rw_cpu p)) (rw_cpu raw),
          sn_load = [la_l1 load, la_l5 load, la_l15 load], sn_procs_running = la_running load, sn_procs_total = la_total load,
          sn_mem_total_kb = mk_total mem, sn_mem_avail_kb = mk_avail mem, sn_swap_total_kb = mk_swap_total mem, sn_swap_free_kb = mk_swap_free mem,
          sn_disks = device_rates SECTOR_BYTES dt (case prev of None \<Rightarrow> [] | Some (p, _) \<Rightarrow> rw_disks p) (rw_disks raw),
          sn_nets = device_rates 1 dt (case prev of None \<Rightarrow> [] | Some (p, _) \<Rightarrow> rw_nets p) (rw_nets raw),
          sn_procs = rw_procs raw\<rparr>)"

definition metrics_collect ::
  "(string \<Rightarrow> 'f option) \<Rightarrow> 'f \<Rightarrow> u64 \<Rightarrow> nat \<Rightarrow> (SshError, string) result \<Rightarrow> 'f MetricsCollector \<Rightarrow>
   (MonitorError, 'f MetricsSnapshot) result \<times> 'f MetricsCollector" where
  "metrics_collect f32 zero ts now out prev =
     (case out of
        Inl e \<Rightarrow> (Err (MonExec e), prev)
      | Inr t \<Rightarrow>
          (let raw = parse_round f32 t
           in if rw_mem raw = None \<and> rw_load raw = None then (Err NoProcfs, prev)
              else (Ok (snapshot_of zero ts now prev raw), Some (raw, now))))"

section \<open>Cutting the output\<close>

text \<open>A section as its lines: everything up to the next header.\<close>

fun sections_of_lines :: "string list \<Rightarrow> (string \<times> string) list" where
  "sections_of_lines [] = []"
| "sections_of_lines (l # ls) =
     (case section_name l of
        None \<Rightarrow> sections_of_lines ls
      | Some n \<Rightarrow> (n, concat (takeWhile (\<lambda>l. section_name l = None) ls)) # sections_of_lines ls)"

lemma first_mark:
  "n = pos + length (concat ls) \<Longrightarrow> (case find_marks pos ls of [] \<Rightarrow> n | (_, _, h) # _ \<Rightarrow> h) =
     pos + length (concat (takeWhile (\<lambda>l. section_name l = None) ls))"
proof (induction ls arbitrary: pos n)
  case (Cons a ls)
  from Cons.IH [of n "pos + length a"] Cons.prems show ?case by (cases "section_name a") simp_all
qed simp

lemma cut_is_lines: "cut_sections (pre @ concat ls) (find_marks (length pre) ls) = sections_of_lines ls"
proof (induction ls arbitrary: pre)
  case (Cons l ls)
  from Cons.IH [of "pre @ l"] have IH: "cut_sections (pre @ l @ concat ls) (find_marks (length pre + length l) ls) = sections_of_lines ls"
    by simp
  have fin: "(case find_marks (length pre + length l) ls of [] \<Rightarrow> length (pre @ l @ concat ls) | (_, _, h) # _ \<Rightarrow> h) - (length pre + length l) =
      length (concat (takeWhile (\<lambda>l. section_name l = None) ls))"
    using first_mark [of "length (pre @ l @ concat ls)" "length pre + length l" ls] by simp
  have "concat ls = concat (takeWhile (\<lambda>l. section_name l = None) ls) @ concat (dropWhile (\<lambda>l. section_name l = None) ls)"
    by (metis concat_append takeWhile_dropWhile_id)
  then have "take (length (concat (takeWhile (\<lambda>l. section_name l = None) ls))) (concat ls) = concat (takeWhile (\<lambda>l. section_name l = None) ls)"
    by (metis append_eq_conv_conj)
  with IH fin show ?case by (simp add: Let_def split: option.split)
qed simp

lemma concat_split_inclusive: "concat (split_inclusive s) = s"
  by (induction s) (auto split: list.split)

lemma split_sections_lines: "split_sections out = sections_of_lines (split_inclusive out)"
  using cut_is_lines [of "[]" "split_inclusive out"] by (simp add: split_sections_def concat_split_inclusive)

text \<open>A body of complete lines, none of which is a header.\<close>

definition plain_body :: "string list \<Rightarrow> bool" where
  "plain_body ls \<longleftrightarrow> list_all (\<lambda>l. CHR 0x0A \<notin> set l \<and> section_name (l @ nl) = None) ls"

definition section_text :: "string \<times> string list \<Rightarrow> string" where
  "section_text = (\<lambda>(n, ls). ''=='' @ n @ ''=='' @ nl @ unlines ls)"

lemma split_inclusive_line: "CHR 0x0A \<notin> set l \<Longrightarrow> split_inclusive (l @ CHR 0x0A # s) = (l @ nl) # split_inclusive s"
  by (induction l) auto

lemma split_inclusive_unlines:
  "list_all (\<lambda>l. CHR 0x0A \<notin> set l) ls \<Longrightarrow> split_inclusive (unlines ls @ s) = map (\<lambda>l. l @ nl) ls @ split_inclusive s"
  by (induction ls) (simp_all add: split_inclusive_line)

lemma trim_ends: "\<not> is_ws a \<Longrightarrow> \<not> is_ws z \<Longrightarrow> trim (a # s @ [z]) = a # s @ [z]"
  by (simp add: trim_def)

lemma trim_nl: "trim (s @ nl) = trim s"
proof (cases "list_all is_ws s")
  case True
  then have "trim s = []" "trim (s @ nl) = []" by (auto simp: trim_eq_Nil_iff list_all_iff is_ws_def)
  then show ?thesis by simp
next
  case False
  then obtain x where "x \<in> set s" "\<not> is_ws x" by (auto simp: list_all_iff)
  then have "dropWhile is_ws (s @ nl) = dropWhile is_ws s @ nl" by (rule dropWhile_append1)
  moreover have "is_ws (CHR 0x0A)" by (simp add: is_ws_def)
  ultimately show ?thesis by (simp add: trim_def)
qed

lemma section_name_header: "trim n = n \<Longrightarrow> section_name (''=='' @ n @ ''=='' @ nl) = Some n"
proof -
  assume n: "trim n = n"
  have "trim ((''=='' @ n @ ''=='') @ nl) = ''=='' @ n @ ''==''"
    unfolding trim_nl using trim_ends [of "CHR ''=''" "CHR ''=''" "''='' @ n @ ''=''"] by (simp add: is_ws_def)
  with n show ?thesis by (simp add: section_name_def strip_prefix_def strip_suffix_def starts_with_def ends_with_def)
qed

lemma sections_of_lines_body:
  "list_all (\<lambda>l. section_name l = None) ls \<Longrightarrow> sections_of_lines (ls @ rest) = sections_of_lines rest"
  by (induction ls) auto

lemma split_sections_texts:
  assumes "list_all (\<lambda>(n, ls). trim n = n \<and> CHR 0x0A \<notin> set n \<and> plain_body ls) secs"
  shows "sections_of_lines (split_inclusive (concat (map section_text secs))) = map (\<lambda>(n, ls). (n, unlines ls)) secs \<and>
    (secs \<noteq> [] \<longrightarrow> section_name (hd (split_inclusive (concat (map section_text secs)))) \<noteq> None)"
  using assms
proof (induction secs)
  case (Cons x secs)
  obtain n ls where x: "x = (n, ls)" by fastforce
  let ?rest = "split_inclusive (concat (map section_text secs))"
  have n: "trim n = n" "CHR 0x0A \<notin> set n" and ls: "list_all (\<lambda>l. CHR 0x0A \<notin> set l) ls" "list_all (\<lambda>l. section_name l = None) (map (\<lambda>l. l @ nl) ls)"
    using Cons.prems by (auto simp: x plain_body_def list_all_iff)
  from Cons have IH: "sections_of_lines ?rest = map (\<lambda>(n, ls). (n, unlines ls)) secs" "secs \<noteq> [] \<Longrightarrow> section_name (hd ?rest) \<noteq> None" by auto
  have split: "split_inclusive (concat (map section_text (x # secs))) = (''=='' @ n @ ''=='' @ nl) # map (\<lambda>l. l @ nl) ls @ ?rest"
    using split_inclusive_line [of "''=='' @ n @ ''==''" "unlines ls @ concat (map section_text secs)"] n(2) split_inclusive_unlines [OF ls(1)]
    by (simp add: x section_text_def)
  have stop: "takeWhile (\<lambda>l. section_name l = None) ?rest = []"
    using IH(2) by (cases "secs = []"; cases ?rest) auto
  have "takeWhile (\<lambda>l. section_name l = None) (map (\<lambda>l. l @ nl) ls @ ?rest) = map (\<lambda>l. l @ nl) ls"
    using ls(2) stop by (subst takeWhile_append2) (auto simp: list_all_iff)
  with IH(1) sections_of_lines_body [OF ls(2)] section_name_header [OF n(1)] show ?case
    unfolding split by (simp add: x)
qed simp

text \<open>
  C36. The output of the script is cut where the script has put its headers: whatever the files hold,
  as long as no line of theirs looks like a header, each parser gets exactly the text of its
  own section.
\<close>

theorem round_reads_each_section:
  assumes "list_all plain_body [st, me, lo, di, ne, ps]"
  shows "parse_round f32 (concat (map section_text
      [(''STAT'', st), (''MEM'', me), (''LOAD'', lo), (''DISK'', di), (''NET'', ne), (''PS'', ps)])) =
    \<lparr>rw_cpu = parse_cpu (unlines st), rw_mem = parse_meminfo (unlines me), rw_load = parse_loadavg f32 (unlines lo),
     rw_disks = parse_diskstats (unlines di), rw_nets = parse_net_dev (unlines ne), rw_procs = parse_ps f32 (unlines ps)\<rparr>"
proof -
  let ?secs = "[(''STAT'', st), (''MEM'', me), (''LOAD'', lo), (''DISK'', di), (''NET'', ne), (''PS'', ps)]"
  have "split_sections (concat (map section_text ?secs)) = map (\<lambda>(n, ls). (n, unlines ls)) ?secs"
    unfolding split_sections_lines
    by (rule split_sections_texts [THEN conjunct1]) (use assms in \<open>simp add: trim_def is_ws_def\<close>)
  then show ?thesis unfolding parse_round_def by (simp only:) (simp add: parse_section_def raw_default_def)
qed

section \<open>The counters\<close>

text \<open>The lines as the kernel prints them.\<close>

definition cpu_line :: "CpuTimes \<Rightarrow> string" where
  "cpu_line t = ''cpu  '' @ join '' '' (map (\<lambda>n. show_nat (unat n))
     [cpu_user t, cpu_nice t, cpu_system t, cpu_idle t, cpu_iowait t, cpu_irq t, cpu_softirq t, cpu_steal t, 0, 0])"

lemma split_cpu_line:
  "split_whitespace (cpu_line t) = ''cpu'' # map (\<lambda>n. show_nat (unat n))
     [cpu_user t, cpu_nice t, cpu_system t, cpu_idle t, cpu_iowait t, cpu_irq t, cpu_softirq t, cpu_steal t, 0, 0]"
proof -
  let ?ws = "map (\<lambda>n. show_nat (unat n)) [cpu_user t, cpu_nice t, cpu_system t, cpu_idle t, cpu_iowait t, cpu_irq t, cpu_softirq t, cpu_steal t, 0, 0]"
  have ws: "is_ws (CHR '' '')" "\<not> is_ws (CHR ''c'')" "\<not> is_ws (CHR ''p'')" "\<not> is_ws (CHR ''u'')" by (simp_all add: is_ws_def)
  have "split_whitespace (join '' '' ?ws) = ?ws" by (rule split_whitespace_join) (simp add: list_all_iff show_nat_word del: upt_rec_numeral)
  moreover have "split_whitespace (cpu_line t) = ''cpu'' # split_whitespace (join '' '' ?ws)"
    using split_whitespace_Cons [of "''cpu''" "CHR '' ''" "CHR '' '' # join '' '' ?ws"] ws
    by (simp add: cpu_line_def split_whitespace_ws)
  ultimately show ?thesis by simp
qed

lemma cpu_line_plain: "plain_line (cpu_line t)" "starts_with (cpu_line t) ''cpu ''"
proof -
  have digits: "CHR 0x0A \<notin> set (show_nat n)" "CHR 0x0D \<notin> set (show_nat n)" for n
    using show_nat_word [of n] by (auto simp: is_ws_def)
  have "CHR 0x0A \<notin> set (cpu_line t)" "CHR 0x0D \<notin> set (cpu_line t)" by (simp_all add: cpu_line_def digits)
  moreover from this have "\<not> ends_with (cpu_line t) [CHR 0x0D]" by (metis ends_with_def in_set_dropD list.set_intros(1))
  ultimately show "plain_line (cpu_line t)" by (simp add: plain_line_def)
  show "starts_with (cpu_line t) ''cpu ''" by (simp add: cpu_line_def starts_with_def)
qed

lemma parse_cpu_line: "list_all plain_line ls \<Longrightarrow> parse_cpu (unlines (cpu_line t # ls)) = Some t"
  using lines_unlines [of "cpu_line t # ls"] cpu_line_plain [of t]
  by (simp add: parse_cpu_def split_cpu_line number_def field_def parse_show_nat or_zero_def nth_Cons' eval_nat_numeral)

text \<open>The sums, without wrap-around.\<close>

definition total_nat :: "CpuTimes \<Rightarrow> nat" where
  "total_nat t = unat (cpu_user t) + unat (cpu_nice t) + unat (cpu_system t) + unat (cpu_idle t) + unat (cpu_iowait t) +
     unat (cpu_irq t) + unat (cpu_softirq t) + unat (cpu_steal t)"

definition idle_nat :: "CpuTimes \<Rightarrow> nat" where
  "idle_nat t = unat (cpu_idle t) + unat (cpu_iowait t)"

lemma idle_le_total: "idle_nat t \<le> total_nat t"
  by (simp add: idle_nat_def total_nat_def)

lemma cpu_sums:
  assumes "total_nat t < 2 ^ 64"
  shows "unat (cpu_total t) = total_nat t" "unat (idle_all t) = idle_nat t"
  using assms by (simp_all add: cpu_total_def idle_all_def total_nat_def idle_nat_def unat_word_ariths)

lemma cpu_busy_Some:
  assumes "total_nat a < 2 ^ 64" "total_nat b < 2 ^ 64" "total_nat a < total_nat b"
  shows "cpu_busy (Some a) (Some b) =
    Some (100 * (1 - of_nat (unat (idle_all b - idle_all a)) / of_nat (total_nat b - total_nat a)))"
proof -
  have "cpu_total a < cpu_total b" using assms cpu_sums by (simp add: word_less_nat_alt)
  moreover from this have "unat (cpu_total b - cpu_total a) = total_nat b - total_nat a"
    using assms cpu_sums by (simp add: unat_sub order.strict_implies_order)
  ultimately show ?thesis by (simp add: cpu_busy_def)
qed

text \<open>
  Two rounds over the counters of a processor give its busy share: when neither the idle nor the
  busy time went back, the percentage is the busy part of the time that passed, between 0 and
  100.
\<close>

theorem busy_share:
  assumes "total_nat a < 2 ^ 64" "total_nat b < 2 ^ 64" "total_nat a < total_nat b" "idle_nat a \<le> idle_nat b"
    "total_nat a - idle_nat a \<le> total_nat b - idle_nat b"
  shows "\<exists>p. cpu_busy (Some a) (Some b) = Some p \<and> 0 \<le> p \<and> p \<le> 100 \<and>
    p * of_nat (total_nat b - total_nat a) = 100 * of_nat ((total_nat b - idle_nat b) - (total_nat a - idle_nat a))"
proof -
  define d where "d = total_nat b - total_nat a"
  define i where "i = idle_nat b - idle_nat a"
  have i: "unat (idle_all b - idle_all a) = i"
    using assms cpu_sums by (simp add: unat_sub word_le_nat_alt i_def)
  have d: "0 < d" "i \<le> d" "(total_nat b - idle_nat b) - (total_nat a - idle_nat a) = d - i"
    using assms idle_le_total [of a] idle_le_total [of b] by (auto simp: d_def i_def)
  let ?p = "100 * (1 - of_nat i / of_nat d) :: rat"
  have "cpu_busy (Some a) (Some b) = Some ?p" using cpu_busy_Some [OF assms(1-3)] by (simp add: i d_def)
  moreover have "0 \<le> ?p" "?p \<le> 100" using d by (simp_all add: field_simps)
  moreover have "?p * of_nat d = 100 * of_nat (d - i)" using d by (simp add: of_nat_diff field_simps)
  ultimately show ?thesis using d(3) by (simp add: d_def)
qed

text \<open>
  The kernel does not promise that the time spent waiting for I/O only grows. When it goes back
  by more than the idle time grows, the difference of the \<open>u64\<close> wraps around, and the share is
  far below zero (a debug build panics instead).
\<close>

theorem busy_share_below_zero:
  assumes "total_nat a < 2 ^ 64" "total_nat b < 2 ^ 64" "total_nat a < total_nat b" "idle_nat b < idle_nat a"
  shows "\<exists>p. cpu_busy (Some a) (Some b) = Some p \<and> p < 0"
proof -
  have lt: "idle_nat a < 2 ^ 64" "idle_nat b < 2 ^ 64" using assms idle_le_total [of a] idle_le_total [of b] by simp_all
  have "unat (idle_all b - idle_all a) = 2 ^ 64 + idle_nat b - idle_nat a"
    using assms lt cpu_sums by (simp add: unat_sub_if_size word_size)
  moreover have "total_nat b - total_nat a < 2 ^ 64 + idle_nat b - idle_nat a"
    using assms lt idle_le_total [of a] by linarith
  ultimately have "(of_nat (total_nat b - total_nat a) :: rat) < of_nat (unat (idle_all b - idle_all a))" "0 < total_nat b - total_nat a"
    using assms(3) by (simp_all del: of_nat_add)
  then have "1 < of_nat (unat (idle_all b - idle_all a)) / (of_nat (total_nat b - total_nat a) :: rat)" by (simp add: field_simps)
  with cpu_busy_Some [OF assms(1-3)] show ?thesis by auto
qed

text \<open>
  The first round after a start, and after a long series of failures, has nothing to compare
  with: it shows the load, the memory and the processes, but no share and no rate.
\<close>

theorem first_round_has_no_rates:
  assumes "metrics_collect f32 zero ts now (Ok t) None = (Ok sn, prev)"
  shows "sn_cpu_busy_pct sn = None \<and> sn_interval_ms sn = 0 \<and> list_all (\<lambda>x. snd x = None) (sn_disks sn @ sn_nets sn) \<and>
    map fst (sn_disks sn) = map fst (rw_disks (parse_round f32 t)) \<and> prev = Some (parse_round f32 t, now)"
  using assms
  by (auto simp: metrics_collect_def snapshot_of_def elapsed_def cpu_busy_def device_rates_def list_all_iff Let_def split: if_splits)

section \<open>Examples\<close>

definition cpu_before :: CpuTimes where
  "cpu_before = \<lparr>cpu_user = 50, cpu_nice = 0, cpu_system = 20, cpu_idle = 900, cpu_iowait = 30, cpu_irq = 0, cpu_softirq = 0, cpu_steal = 0\<rparr>"

definition cpu_after :: "u64 \<Rightarrow> CpuTimes" where
  "cpu_after w = cpu_before\<lparr>cpu_user := 75, cpu_idle := 925, cpu_iowait := w\<rparr>"

lemma busy_share_witness: "\<exists>p. cpu_busy (Some cpu_before) (Some (cpu_after 30)) = Some p \<and> 0 \<le> p \<and> p \<le> 100 \<and> p * 50 = 2500"
  using busy_share [of cpu_before "cpu_after 30"] by (simp add: total_nat_def idle_nat_def cpu_before_def cpu_after_def)

lemma busy_share_below_zero_witness: "\<exists>p. cpu_busy (Some cpu_before) (Some (cpu_after 4)) = Some p \<and> p < 0"
  using busy_share_below_zero [of cpu_before "cpu_after 4"] by (simp add: total_nat_def idle_nat_def cpu_before_def cpu_after_def)

lemma plain_word_body: "list_all (\<lambda>l. CHR 0x0A \<notin> set l \<and> \<not> is_ws (hd (l @ ''x'')) \<and> \<not> starts_with l ''='') ls \<Longrightarrow> plain_body ls"
proof -
  have "section_name (l @ nl) = None" if "\<not> is_ws (hd (l @ ''x''))" "\<not> starts_with l ''=''" for l
  proof (cases l)
    case Nil
    then show ?thesis by (simp add: section_name_def trim_nl) (simp add: trim_def strip_prefix_def starts_with_def)
  next
    case (Cons c cs)
    with that have "c \<noteq> CHR ''=''" "\<not> is_ws c" by (simp_all add: starts_with_def)
    then have "\<exists>r. trim (l @ nl) = c # r"
      unfolding trim_nl Cons by (simp add: trim_def) (metis append_Cons append_self_conv2 dropWhile_append3 rev.simps(2) rev_rev_ident)
    with \<open>c \<noteq> CHR ''=''\<close> show ?thesis by (auto simp: section_name_def strip_prefix_def starts_with_def)
  qed
  moreover assume "list_all (\<lambda>l. CHR 0x0A \<notin> set l \<and> \<not> is_ws (hd (l @ ''x'')) \<and> \<not> starts_with l ''='') ls"
  ultimately show ?thesis by (auto simp: plain_body_def list_all_iff)
qed

definition sample_round :: string where
  "sample_round = concat (map section_text
     [(''STAT'', [cpu_line cpu_before]), (''MEM'', []), (''LOAD'', [''x'']), (''DISK'', []), (''NET'', []), (''PS'', [])])"

lemma round_reads_each_section_witness:
  "rw_cpu (parse_round (\<lambda>_. None :: nat option) sample_round) = Some cpu_before"
proof -
  have "plain_body [cpu_line cpu_before]"
    by (rule plain_word_body) (use cpu_line_plain [of cpu_before] in \<open>simp add: plain_line_def starts_with_def cpu_line_def is_ws_def\<close>)
  moreover have "plain_body [''x'']" by (rule plain_word_body) (simp add: starts_with_def is_ws_def)
  moreover have "plain_body []" by (simp add: plain_body_def)
  ultimately show ?thesis
    using round_reads_each_section [of "[cpu_line cpu_before]" "[]" "[''x'']" "[]" "[]" "[]" "\<lambda>_. None :: nat option"]
      parse_cpu_line [of "[]" cpu_before]
    unfolding sample_round_def by (simp only: list.pred_inject) simp
qed

definition bare_round :: string where
  "bare_round = concat (map section_text [(''LOAD'', [''a a a''])])"

lemma first_round_has_no_rates_witness:
  "\<exists>sn prev. metrics_collect Some [] 0 7 (Ok bare_round) None = (Ok sn, prev) \<and> sn_interval_ms sn = 0 \<and> sn_cpu_busy_pct sn = None"
proof -
  have body: "plain_body [''a a a'']" by (rule plain_word_body) (simp add: starts_with_def is_ws_def)
  have "split_sections bare_round = [(''LOAD'', unlines [''a a a''])]"
    using split_sections_texts [of "[(''LOAD'', [''a a a''])]"] body
    by (simp add: split_sections_lines bare_round_def trim_def is_ws_def)
  moreover have "str_lines (unlines [''a a a'']) = [''a a a'']"
    by (rule lines_unlines) (simp add: plain_line_def ends_with_def)
  moreover have "split_whitespace ''a a a'' = [''a'', ''a'', ''a'']"
    using split_whitespace_join [of "[''a'', ''a'', ''a'']"] by (simp add: is_ws_def)
  moreover have "trim ''a a a'' = ''a a a''" by (simp add: trim_def is_ws_def)
  ultimately have "rw_load (parse_round Some bare_round) \<noteq> None"
    by (simp add: parse_round_def parse_section_def parse_loadavg_def field_def raw_default_def)
  then obtain sn prev where r: "metrics_collect Some [] 0 7 (Ok bare_round) None = (Ok sn, prev)"
    by (auto simp: metrics_collect_def Let_def)
  from first_round_has_no_rates [OF r] r show ?thesis by blast
qed

end
