(* ===== verification/Session_Events.thy ===== *)
theory Session_Events
  imports Tunnel_Commands Exec_Context
begin

text \<open>
  The commands on sessions (\<^verbatim>\<open>src/crates/app/src/sessions.rs\<close>) and what follows them
  (\<^verbatim>\<open>src/crates/app/src/lifecycle.rs\<close>): a command writes to the store and publishes an event, and
  three tasks, one each for tunnels, SFTP contexts and command connections, react to it.

  A receiver of the broadcast channel is the list of the events it has not read; the channel keeps
  64, so a receiver that lags finds only the last 64 (\<open>recv\<close>). A command is one step; the tasks
  run in between.
\<close>

section \<open>Events\<close>

datatype SessionChange = Upserted string | Deleting "string list" | Deleted "string list"

definition CAPACITY :: nat where "CAPACITY = 64"

definition recv :: "SessionChange list \<Rightarrow> (SessionChange \<times> SessionChange list) option" where
  "recv q = (case drop (length q - CAPACITY) q of [] \<Rightarrow> None | c # q' \<Rightarrow> Some (c, q'))"

record 'c app =
  ap_world :: tunnel_world
  ap_sftp :: "'c SftpManagerState"
  ap_exec :: ExecManagerState
  ap_tunnel_rx :: "SessionChange list"
  ap_sftp_rx :: "SessionChange list"
  ap_exec_rx :: "SessionChange list"

definition publish :: "SessionChange \<Rightarrow> 'c app \<Rightarrow> 'c app" where
  "publish c a =
     a\<lparr>ap_tunnel_rx := ap_tunnel_rx a @ [c], ap_sftp_rx := ap_sftp_rx a @ [c], ap_exec_rx := ap_exec_rx a @ [c]\<rparr>"

text \<open>What each task does with an event.\<close>

fun tunnels_on :: "tunnel_env \<Rightarrow> tunnel_db \<Rightarrow> SessionChange \<Rightarrow> TunnelManager \<Rightarrow> TunnelManager" where
  "tunnels_on env db (Upserted i) m = restart_session_tunnels env i db m"
| "tunnels_on env db (Deleting ids) m = fold (stop_tunnels_of_session env) ids m"
| "tunnels_on env db (Deleted ids) m = fold (stop_tunnels_of_session env) ids m"

fun sftp_on :: "SessionChange \<Rightarrow> 'c SftpManagerState \<Rightarrow> 'c SftpManagerState" where
  "sftp_on (Upserted i) m = drop_ctx i m"
| "sftp_on (Deleting _) m = m"
| "sftp_on (Deleted ids) m = fold drop_ctx ids m"

fun exec_on :: "SessionChange \<Rightarrow> ExecManagerState \<Rightarrow> ExecManagerState" where
  "exec_on (Upserted i) s = exec_drop_ctx i s"
| "exec_on (Deleting _) s = s"
| "exec_on (Deleted ids) s = fold exec_drop_ctx ids s"

abbreviation ap_mgr :: "'c app \<Rightarrow> TunnelManager" where
  "ap_mgr a \<equiv> tw_mgr (ap_world a)"

abbreviation ap_db :: "'c app \<Rightarrow> tunnel_db" where
  "ap_db a \<equiv> tw_db (ap_world a)"

definition tunnel_task :: "tunnel_env \<Rightarrow> 'c app \<Rightarrow> 'c app option" where
  "tunnel_task env a =
     (case recv (ap_tunnel_rx a) of
        None \<Rightarrow> None
      | Some (c, q) \<Rightarrow> Some (a\<lparr>ap_world := (ap_world a)\<lparr>tw_mgr := tunnels_on env (ap_db a) c (ap_mgr a)\<rparr>, ap_tunnel_rx := q\<rparr>))"

definition sftp_task :: "'c app \<Rightarrow> 'c app option" where
  "sftp_task a =
     (case recv (ap_sftp_rx a) of
        None \<Rightarrow> None
      | Some (c, q) \<Rightarrow> Some (a\<lparr>ap_sftp := sftp_on c (ap_sftp a), ap_sftp_rx := q\<rparr>))"

definition exec_task :: "'c app \<Rightarrow> 'c app option" where
  "exec_task a =
     (case recv (ap_exec_rx a) of
        None \<Rightarrow> None
      | Some (c, q) \<Rightarrow> Some (a\<lparr>ap_exec := exec_on c (ap_exec a), ap_exec_rx := q\<rparr>))"

section \<open>Commands\<close>

text \<open>The rows of other tables that refer to a session go with it (\<open>ON DELETE CASCADE\<close>).\<close>

definition has_session :: "store \<Rightarrow> string \<Rightarrow> bool" where
  "has_session st i \<longleftrightarrow> list_ex (\<lambda>r. sr_id r = i) (st_sessions st)"

definition set_store :: "store \<Rightarrow> tunnel_db \<Rightarrow> tunnel_db" where
  "set_store st db =
     db\<lparr>db_store := st,
        db_tunnels := filter (\<lambda>r. has_session (db_store db) (td_session_id r) \<longrightarrow> has_session st (td_session_id r)) (db_tunnels db)\<rparr>"

definition set_db :: "tunnel_db \<Rightarrow> 'c app \<Rightarrow> 'c app" where
  "set_db db a = a\<lparr>ap_world := (ap_world a)\<lparr>tw_db := db\<rparr>\<rparr>"

definition session_upsert_cmd :: "tunnel_env \<Rightarrow> SessionRecord \<Rightarrow> 'c app \<Rightarrow> (string, SessionRecord) result \<times> 'c app" where
  "session_upsert_cmd env rec a =
     (case session_upsert (en_now env) rec (db_store (ap_db a)) of
        (Inl e, st) \<Rightarrow> (Err (store_error_str e), set_db (set_store st (ap_db a)) a)
      | (Inr r, st) \<Rightarrow>
          (let db = audit env (Some (sr_id r)) ''session_upsert'' [(''name'', sr_name r), (''host'', sr_host r)] (set_store st (ap_db a))
           in (Ok r, publish (Upserted (sr_id r)) (set_db db a))))"

definition session_delete_cmd :: "tunnel_env \<Rightarrow> string \<Rightarrow> 'c app \<Rightarrow> (string, unit) result \<times> 'c app" where
  "session_delete_cmd env i a =
     (let a = publish (Deleting [i]) a
      in case session_delete i (db_store (ap_db a)) of
           (Inl e, _) \<Rightarrow> (Err (store_error_str e), a)
         | (Inr _, st) \<Rightarrow>
             (let a = publish (Deleted [i]) (set_db (set_store st (ap_db a)) a)
              in (Ok (), set_db (audit env (Some i) ''session_delete'' [] (ap_db a)) a)))"

definition group_rename_cmd :: "tunnel_env \<Rightarrow> string \<Rightarrow> string \<Rightarrow> 'c app \<Rightarrow> (string, nat) result \<times> 'c app" where
  "group_rename_cmd env old new a =
     (case group_rename (en_now env) old new (db_store (ap_db a)) of
        (Inl e, _) \<Rightarrow> (Err (store_error_str e), a)
      | (Inr n, st) \<Rightarrow>
          (Ok n, set_db (audit env None ''group_rename'' [(''oldPath'', old), (''newPath'', new), (''affected'', show_nat n)]
                   (set_store st (ap_db a))) a))"

definition group_delete_cmd :: "tunnel_env \<Rightarrow> string \<Rightarrow> bool \<Rightarrow> 'c app \<Rightarrow> (string, nat) result \<times> 'c app" where
  "group_delete_cmd env path with_sessions a =
     (case (if with_sessions then group_session_ids path (db_store (ap_db a)) else Ok []) of
        Inl e \<Rightarrow> (Err (store_error_str e), a)
      | Inr doomed \<Rightarrow>
          (let a = (if doomed \<noteq> [] then publish (Deleting doomed) a else a)
           in case group_delete (en_now env) path with_sessions (db_store (ap_db a)) of
                (Inl e, _) \<Rightarrow> (Err (store_error_str e), a)
              | (Inr n, st) \<Rightarrow>
                  (let a = set_db (set_store st (ap_db a)) a;
                       a = (if doomed \<noteq> [] then publish (Deleted doomed) a else a)
                   in (Ok n, set_db (audit env None ''group_delete''
                         [(''path'', path), (''withSessions'', if with_sessions then ''true'' else ''false''), (''affected'', show_nat n)] (ap_db a)) a))))"

definition session_move_cmd :: "tunnel_env \<Rightarrow> string list \<Rightarrow> string \<Rightarrow> 'c app \<Rightarrow> (string, nat) result \<times> 'c app" where
  "session_move_cmd env ids path a =
     (case move_to_group (en_now env) ids path (db_store (ap_db a)) of
        (Inl e, _) \<Rightarrow> (Err (store_error_str e), a)
      | (Inr n, st) \<Rightarrow>
          (Ok n, set_db (audit env None ''session_move''
                   [(''count'', show_nat (length ids)), (''groupPath'', path), (''moved'', show_nat n)] (set_store st (ap_db a))) a))"

section \<open>The whole application\<close>

definition on_world :: "(tunnel_world \<Rightarrow> tunnel_world) \<Rightarrow> 'c app \<Rightarrow> 'c app" where
  "on_world f a = a\<lparr>ap_world := f (ap_world a)\<rparr>"

definition set_mgr :: "TunnelManager \<Rightarrow> 'c app \<Rightarrow> 'c app" where
  "set_mgr m a = on_world (\<lambda>w. w\<lparr>tw_mgr := m\<rparr>) a"

text \<open>The commands, the tasks that receive events, and the steps of the other components in between.\<close>

inductive app_step :: "'c app \<Rightarrow> 'c app \<Rightarrow> bool" where
  as_upsert: "app_step a (snd (session_upsert_cmd env rec a))"
| as_delete: "app_step a (snd (session_delete_cmd env i a))"
| as_rename: "app_step a (snd (group_rename_cmd env old new a))"
| as_group_delete: "app_step a (snd (group_delete_cmd env path b a))"
| as_move: "app_step a (snd (session_move_cmd env ids path a))"
| as_tunnel_start: "app_step a (on_world (\<lambda>w. snd (tunnel_start env spec w)) a)"
| as_tunnel_save: "app_step a (on_world (\<lambda>w. snd (tunnel_save env def w)) a)"
| as_tunnel_delete: "app_step a (on_world (\<lambda>w. snd (tunnel_delete env i w)) a)"
| as_tunnel_stop: "app_step a (on_world (\<lambda>w. snd (tunnel_stop env i w)) a)"
| as_autostart: "app_step a (set_mgr (autostart_tunnels env (ap_db a) (ap_mgr a)) a)"
| as_term_open: "app_step a (set_mgr (snd (start_session_tunnels env i (ap_db a) (ap_mgr a))) a)"
| as_term_close: "app_step a (set_mgr (stop_session_tunnels env i (ap_db a) (ap_mgr a)) a)"
| as_tunnels_run: "app_step a (set_mgr (fold task_step evs (ap_mgr a)) a)"
| as_tunnel_task: "tunnel_task env a = Some a' \<Longrightarrow> app_step a a'"
| as_sftp_task: "sftp_task a = Some a' \<Longrightarrow> app_step a a'"
| as_exec_task: "exec_task a = Some a' \<Longrightarrow> app_step a a'"
| as_sftp_runs: "app_step a (a\<lparr>ap_sftp := s\<rparr>)"
| as_exec_runs: "app_step a (a\<lparr>ap_exec := x\<rparr>)"

inductive_cases app_stepE: "app_step a a'"

definition app_init :: "'c app \<Rightarrow> bool" where
  "app_init a \<longleftrightarrow>
     ap_db a = \<lparr>db_store = \<lparr>st_sessions = [], st_creds = []\<rparr>, db_tunnels = [], db_audit = audit_new\<rparr> \<and> ap_mgr a = manager_new \<and>
     ap_tunnel_rx a = [] \<and> ap_sftp_rx a = [] \<and> ap_exec_rx a = []"

section \<open>Definitions stay sound\<close>

text \<open>
  Every stored definition is valid and belongs to a stored session, and identifiers are unique.
\<close>

definition defs_ok :: "tunnel_db \<Rightarrow> bool" where
  "defs_ok db \<longleftrightarrow> distinct (map td_id (db_tunnels db)) \<and>
     (\<forall>r \<in> set (db_tunnels db). validate_tunnel r = Ok () \<and> has_session (db_store db) (td_session_id r))"

lemma validate_created [simp]: "validate_tunnel (r\<lparr>td_created_at := t\<rparr>) = validate_tunnel r"
  by (simp add: validate_tunnel_def)

lemma defs_ok_audit [simp]: "defs_ok (audit env sid action detail db) = defs_ok db"
  by (simp add: defs_ok_def audit_def)

lemma defs_ok_set_store: "defs_ok db \<Longrightarrow> defs_ok (set_store st db)"
  by (auto simp: defs_ok_def set_store_def distinct_map_filter)

lemma defs_ok_upsert:
  assumes "defs_ok db"
  shows "defs_ok (snd (tunnel_upsert now rec db))"
proof -
  have ids: "map (td_id \<circ> (\<lambda>r. if td_id r = td_id rec then rec\<lparr>td_created_at := td_created_at r\<rparr> else r)) rows = map td_id rows" for rows
    by (induction rows) auto
  from assms show ?thesis
    by (cases "validate_tunnel rec")
      (auto simp: tunnel_upsert_def tunnel_upsert_row_def defs_ok_def has_session_def list_ex_iff ids)
qed

lemma defs_ok_delete: "defs_ok db \<Longrightarrow> defs_ok (snd (tunnel_delete_row i db))"
  by (auto simp: tunnel_delete_row_def defs_ok_def distinct_map_filter)

text \<open>What the commands on tunnels do to the two halves of the world.\<close>

lemma on_mgr_parts: "on_mgr f w = (fst (f (tw_mgr w)), w\<lparr>tw_mgr := snd (f (tw_mgr w))\<rparr>)"
  by (simp add: on_mgr_def split: prod.split)

lemma tunnel_start_parts:
  "tw_db (snd (tunnel_start env spec w)) = tw_db w"
  "\<exists>rq. tw_mgr (snd (tunnel_start env spec w)) = snd (start_tunnel env rq (tw_db w) (tw_mgr w))"
  by (auto simp: tunnel_start_def on_mgr_parts Let_def split: sum.split)

lemma tunnel_stop_parts:
  "tw_db (snd (tunnel_stop env i w)) = tw_db w" "tw_mgr (snd (tunnel_stop env i w)) = snd (mgr_stop (en_tasks env i) i (tw_mgr w))"
  by (simp_all add: tunnel_stop_def on_mgr_parts split: sum.split)

lemma tunnel_delete_parts:
  "tw_db (snd (tunnel_delete env i w)) = tw_db w \<or>
   tw_db (snd (tunnel_delete env i w)) = audit env None ''tunnel_delete'' [(''tunnelId'', i)] (snd (tunnel_delete_row i (tw_db w)))"
  "tw_mgr (snd (tunnel_delete env i w)) = snd (mgr_stop (en_tasks env i) i (tw_mgr w))"
  by (auto simp: tunnel_delete_def on_mgr_parts Let_def split: prod.split sum.split)

lemma tunnel_upsert_store: "db_store (snd (tunnel_upsert now rec db)) = db_store db"
  by (auto simp: tunnel_upsert_def tunnel_upsert_row_def split: sum.split)

lemma tunnel_save_parts:
  obtains (same) "snd (tunnel_save env def w) = w"
    | (saved) sid action detail db where "db = audit env sid action detail (snd (tunnel_upsert (en_now env) ((dw_rec def)\<lparr>td_created_at := []\<rparr>) (tw_db w)))"
        "tw_db (snd (tunnel_save env def w)) = db"
        "tw_mgr (snd (tunnel_save env def w)) = tw_mgr w \<or>
         (\<exists>rq. tw_mgr (snd (tunnel_save env def w)) = snd (start_tunnel env rq db (tw_mgr w)))"
proof (cases "tunnel_upsert (en_now env) ((dw_rec def)\<lparr>td_created_at := []\<rparr>) (tw_db w)")
  case (Pair r db)
  show ?thesis
  proof (cases r)
    case (Inl e)
    with Pair show ?thesis by (intro same) (simp add: tunnel_save_def Let_def)
  next
    case (Inr u)
    with Pair show ?thesis
      by (intro saved [OF refl]) (auto simp: tunnel_save_def on_mgr_parts Let_def split: sum.split)
  qed
qed

lemma set_db_parts [simp]: "ap_db (set_db db a) = db" "ap_mgr (set_db db a) = ap_mgr a" "ap_tunnel_rx (set_db db a) = ap_tunnel_rx a"
  by (simp_all add: set_db_def)

lemma publish_parts [simp]:
  "ap_world (publish c a) = ap_world a" "ap_tunnel_rx (publish c a) = ap_tunnel_rx a @ [c]"
  "ap_sftp (publish c a) = ap_sftp a" "ap_exec (publish c a) = ap_exec a"
  by (simp_all add: publish_def)

lemma set_mgr_parts [simp]: "ap_db (set_mgr m a) = ap_db a" "ap_mgr (set_mgr m a) = m" "ap_tunnel_rx (set_mgr m a) = ap_tunnel_rx a"
  by (simp_all add: set_mgr_def on_world_def)

lemma on_world_parts [simp]: "ap_world (on_world f a) = f (ap_world a)" "ap_tunnel_rx (on_world f a) = ap_tunnel_rx a"
  by (simp_all add: on_world_def)

lemma tunnel_task_db: "tunnel_task env a = Some a' \<Longrightarrow> ap_db a' = ap_db a"
  by (auto simp: tunnel_task_def split: option.splits)

lemma other_tasks_world: "sftp_task a = Some a' \<Longrightarrow> ap_world a' = ap_world a \<and> ap_tunnel_rx a' = ap_tunnel_rx a"
  "exec_task a = Some a' \<Longrightarrow> ap_world a' = ap_world a \<and> ap_tunnel_rx a' = ap_tunnel_rx a"
  by (auto simp: sftp_task_def exec_task_def split: option.splits)

lemmas session_cmds = session_upsert_cmd_def session_delete_cmd_def group_rename_cmd_def group_delete_cmd_def session_move_cmd_def

lemma defs_ok_step:
  assumes "app_step a a'" "defs_ok (ap_db a)"
  shows "defs_ok (ap_db a')"
  using assms
proof (induction rule: app_step.induct)
  case (as_tunnel_save a env def)
  show ?case
  proof (cases rule: tunnel_save_parts [of env def "ap_world a"])
    case same
    with as_tunnel_save show ?thesis by simp
  next
    case (saved sid action detail db)
    with as_tunnel_save show ?thesis by (simp add: defs_ok_upsert)
  qed
next
  case (as_tunnel_delete a env i)
  with tunnel_delete_parts(1) [of env i "ap_world a"] show ?case by (auto simp: defs_ok_delete)
next
  case (as_tunnel_task env a a')
  then show ?case by (simp add: tunnel_task_db)
next
  case (as_sftp_task a a')
  then show ?case by (simp add: other_tasks_world)
next
  case (as_exec_task a a')
  then show ?case by (simp add: other_tasks_world)
qed (auto simp: session_cmds Let_def defs_ok_set_store tunnel_start_parts tunnel_stop_parts split: prod.split sum.split if_splits)

interpretation definitions: invariant_system app_init app_step "\<lambda>a. defs_ok (ap_db a)"
proof (unfold_locales, goal_cases)
  case (1 a)
  then show ?case by (simp add: app_init_def defs_ok_def)
qed (rule defs_ok_step)

text \<open>
  In every state the application can get to, whatever commands, events and tasks are interleaved,
  a stored tunnel is valid and belongs to a stored session: neither deleting sessions one by one
  or by group nor saving a tunnel leaves a definition that a later start would trip over.
\<close>

theorem definitions_stay_sound:
  assumes "reachable app_init app_step a" "r \<in> set (db_tunnels (ap_db a))"
  shows "validate_tunnel r = Ok () \<and> list_ex (\<lambda>s. sr_id s = td_session_id r) (st_sessions (db_store (ap_db a))) \<and>
    find (\<lambda>x. td_id x = td_id r) (db_tunnels (ap_db a)) = Some r"
proof -
  have ok: "defs_ok (ap_db a)" by (rule definitions.inv_reachable [OF assms(1)])
  then have "find (\<lambda>x. td_id x = td_id r) (db_tunnels (ap_db a)) = Some r"
  proof (cases "find (\<lambda>x. td_id x = td_id r) (db_tunnels (ap_db a))")
    case None
    with assms(2) show ?thesis by (auto simp: find_None_iff)
  next
    case (Some x)
    then have "x \<in> set (db_tunnels (ap_db a))" "td_id x = td_id r" by (auto simp: find_Some_iff)
    with ok assms(2) have "x = r" by (auto simp: defs_ok_def distinct_map inj_on_def)
    with Some show ?thesis by simp
  qed
  with ok assms(2) show ?thesis by (simp add: defs_ok_def has_session_def)
qed

section \<open>Tunnels follow their sessions\<close>

text \<open>A change of the manager that adds tunnels only for sessions of the store.\<close>

definition backed :: "store \<Rightarrow> TunnelManager \<Rightarrow> TunnelManager \<Rightarrow> bool" where
  "backed st m m' \<longleftrightarrow> (registry_ok m \<longrightarrow>
     registry_ok m' \<and> (\<forall>x \<in> set (owners m'). x \<in> set (owners m) \<or> has_session st (snd x)))"

lemma backed_refl [simp]: "backed st m m"
  by (simp add: backed_def)

lemma backed_trans: "backed st m m1 \<Longrightarrow> backed st m1 m2 \<Longrightarrow> backed st m m2"
  by (fastforce simp: backed_def)

lemma backed_fold: "(\<And>x m. backed st m (f x m)) \<Longrightarrow> backed st m (fold f xs m)"
  by (induction xs arbitrary: m) (auto intro: backed_trans)

lemma session_get_has: "session_get st i = Ok rec \<Longrightarrow> has_session st i"
  by (auto simp: session_get_def has_session_def find_Some_iff list_ex_iff split: option.splits)

lemma backed_start: "backed (db_store db) m (snd (start_tunnel env rq db m))"
proof -
  obtain r m' where run: "start_tunnel env rq db m = (r, m')" by fastforce
  show ?thesis unfolding backed_def
  proof
    assume "registry_ok m"
    from start_tunnel_owners [OF this run]
    show "registry_ok (snd (start_tunnel env rq db m)) \<and>
        (\<forall>x \<in> set (owners (snd (start_tunnel env rq db m))). x \<in> set (owners m) \<or> has_session (db_store db) (snd x))"
      by (auto simp: run dest: session_get_has)
  qed
qed

lemma backed_stop: "backed st m (snd (mgr_stop evs i m))"
  using mgr_stop_owners [of m evs i] by (auto simp: backed_def)

lemma backed_tasks: "backed st m (fold task_step evs m)"
  using tasks_same [of m evs] owners_cong [of m "fold task_step evs m"] by (simp add: backed_def same_registry_def)

lemma backed_stop_session: "backed st m (stop_tunnels_of_session env sid m)"
  using stop_tunnels_of_session_owners [of m env sid] by (auto simp: backed_def)

lemma backed_restart_one: "backed (db_store db) m (restart_one env sid db d m)"
proof -
  obtain r m1 where stop: "mgr_stop (en_tasks env (td_id d)) (td_id d) m = (r, m1)" by fastforce
  then have "backed (db_store db) m m1" using backed_stop [of "db_store db" m "en_tasks env (td_id d)" "td_id d"] by simp
  moreover have "restart_one env sid db d m = m1 \<or> (\<exists>rq. restart_one env sid db d m = snd (start_tunnel env rq db m1))"
    by (auto simp: restart_one_def stop split: sum.split TunnelError.split)
  ultimately show ?thesis using backed_start backed_trans by metis
qed

lemma backed_start_all: "backed (db_store db) m (snd (start_all env db ds m))"
proof (induction ds arbitrary: m)
  case (Cons d ds)
  obtain r m1 where run: "start_tunnel env (request_of d False) db m = (r, m1)" by fastforce
  have "snd (start_all env db (d # ds) m) = snd (start_all env db ds m1)" by (simp add: run split: prod.split)
  with Cons [of m1] backed_start [of db m env "request_of d False"] run show ?case by (auto intro: backed_trans)
qed simp

lemma backed_commands:
  "backed (db_store db) m (autostart_tunnels env db m)" "backed (db_store db) m (snd (start_session_tunnels env sid db m))"
  "backed st m (stop_session_tunnels env sid db m)" "backed (db_store db) m (tunnels_on env db c m)"
proof -
  show "backed (db_store db) m (autostart_tunnels env db m)"
    unfolding autostart_tunnels_def by (rule backed_fold) (rule backed_start)
  show "backed (db_store db) m (snd (start_session_tunnels env sid db m))"
    using backed_start_all [of db m env "filter td_with_session (tunnels_for_session sid db)"]
    by (simp add: start_session_tunnels_def split: prod.split) auto
  show "backed st m (stop_session_tunnels env sid db m)"
    unfolding stop_session_tunnels_def by (rule backed_fold) (rule backed_stop)
  show "backed (db_store db) m (tunnels_on env db c m)"
    by (cases c) (auto simp: restart_session_tunnels_def Let_def intro!: backed_fold backed_restart_one backed_stop_session)
qed

text \<open>A tunnel of a session that is gone has the event that stops it still to come.\<close>

definition doomed :: "SessionChange list \<Rightarrow> string \<Rightarrow> bool" where
  "doomed q i \<longleftrightarrow> (\<exists>ids. Deleted ids \<in> set q \<and> i \<in> set ids)"

definition owned :: "'c app \<Rightarrow> bool" where
  "owned a \<longleftrightarrow> registry_ok (ap_mgr a) \<and>
     (\<forall>x \<in> set (owners (ap_mgr a)). has_session (db_store (ap_db a)) (snd x) \<or> doomed (ap_tunnel_rx a) (snd x))"

lemma owned_backed:
  assumes "owned a" "backed (db_store (ap_db a)) (ap_mgr a) (ap_mgr a')"
    "\<And>i. has_session (db_store (ap_db a)) i \<Longrightarrow> has_session (db_store (ap_db a')) i \<or> doomed (ap_tunnel_rx a') i"
    "\<And>i. doomed (ap_tunnel_rx a) i \<Longrightarrow> doomed (ap_tunnel_rx a') i"
  shows "owned a'"
  using assms unfolding owned_def backed_def by blast

lemma fold_stop_owners:
  assumes "registry_ok m"
  shows "registry_ok (fold (stop_tunnels_of_session env) ids m) \<and>
    owners (fold (stop_tunnels_of_session env) ids m) = filter (\<lambda>x. snd x \<notin> set ids) (owners m)"
  using assms
proof (induction ids arbitrary: m)
  case (Cons i ids)
  with stop_tunnels_of_session_owners [OF Cons.prems, of env i] show ?case by (auto intro!: filter_cong simp: filter_filter)
qed simp

lemma recv_calm: "length q \<le> 64 \<Longrightarrow> recv q = Some (c, q') \<Longrightarrow> q = c # q'"
  by (auto simp: recv_def CAPACITY_def split: list.splits)

lemma owned_tunnel_task:
  assumes "owned a" "tunnel_task env a = Some a'" "length (ap_tunnel_rx a) \<le> 64"
  shows "owned a'"
proof -
  from assms(2) obtain c q where r: "recv (ap_tunnel_rx a) = Some (c, q)"
    and a': "ap_db a' = ap_db a" "ap_mgr a' = tunnels_on env (ap_db a) c (ap_mgr a)" "ap_tunnel_rx a' = q"
    by (auto simp: tunnel_task_def split: option.splits)
  have q: "ap_tunnel_rx a = c # q" by (rule recv_calm [OF assms(3) r])
  have b: "backed (db_store (ap_db a)) (ap_mgr a) (ap_mgr a')" using a' backed_commands(4) by simp
  have ok: "registry_ok (ap_mgr a)" using assms(1) by (simp add: owned_def)
  have "has_session (db_store (ap_db a)) (snd x) \<or> doomed q (snd x)" if "x \<in> set (owners (ap_mgr a'))" for x
  proof (cases c)
    case (Deleted ids)
    with that a'(2) fold_stop_owners [OF ok, of env ids] have "x \<in> set (owners (ap_mgr a))" "snd x \<notin> set ids" by auto
    with assms(1) Deleted q show ?thesis by (auto simp: owned_def doomed_def)
  qed (use assms(1) b ok q that in \<open>auto simp: owned_def doomed_def backed_def\<close>)
  with b ok a' show ?thesis by (simp add: owned_def backed_def)
qed

text \<open>Which sessions a statement on the table leaves.\<close>

lemma has_session_map:
  "(\<And>r. sr_id (f r) = sr_id r) \<Longrightarrow> has_session (st\<lparr>st_sessions := map f (st_sessions st)\<rparr>) j = has_session st j"
  by (simp add: has_session_def list_ex_iff)

lemma upsert_has:
  assumes "has_session st j"
  shows "has_session (snd (session_upsert now rec st)) j"
proof (cases "list_ex (\<lambda>r. sr_id r = sr_id rec) (st_sessions st)")
  case True
  then have "snd (session_upsert now rec st) = st\<lparr>st_sessions :=
      map (\<lambda>r. if sr_id r = sr_id rec then rec\<lparr>sr_created_at := sr_created_at r, sr_updated_at := now\<rparr> else r) (st_sessions st)\<rparr>"
    by (simp add: session_upsert_def Let_def)
  moreover have "has_session \<dots> j = has_session st j" by (rule has_session_map) simp
  ultimately show ?thesis using assms by simp
next
  case False
  then have "snd (session_upsert now rec st) = st\<lparr>st_sessions := st_sessions st @ [rec\<lparr>sr_created_at := now, sr_updated_at := now\<rparr>]\<rparr>"
    by (simp add: session_upsert_def Let_def)
  with assms show ?thesis by (simp add: has_session_def)
qed

lemma update_paths_has: "has_session (snd (update_paths now P f st)) j = has_session st j"
  unfolding update_paths_def snd_conv by (rule has_session_map) simp

lemma move_rows_has: "has_session (snd (move_rows now g ids st)) j = has_session st j"
proof (induction ids arbitrary: st)
  case (Cons i ids)
  let ?st = "st\<lparr>st_sessions := map (\<lambda>r. if sr_id r = i then r\<lparr>sr_group_path := g, sr_updated_at := now\<rparr> else r) (st_sessions st)\<rparr>"
  have "has_session ?st j = has_session st j" by (rule has_session_map) simp
  moreover have "snd (move_rows now g (i # ids) st) = snd (move_rows now g ids ?st)" by (simp add: Let_def split: prod.split)
  ultimately show ?case using Cons.IH by simp
qed simp

lemma delete_rows_has:
  "has_session st j \<Longrightarrow> has_session (delete_rows P st) j \<or> j \<in> set (map sr_id (filter P (st_sessions st)))"
  by (auto simp: delete_rows_def has_session_def list_ex_iff Let_def)

lemma group_rename_has: "has_session (snd (group_rename now old new st)) j = has_session st j"
  using update_paths_has [of now "in_group old" "rename_path old new" st j]
  by (auto simp: group_rename_def Let_def split: sum.split prod.split)

lemma group_delete_has:
  assumes "group_delete now path b st = (r, st')" "has_session st j"
  shows "has_session st' j \<or> (b \<and> (\<exists>ids. group_session_ids path st = Ok ids \<and> j \<in> set ids))"
proof (cases "r = Inr (projr r) \<and> b")
  case True
  then have "b" "st' = delete_rows (\<lambda>r. in_group path (sr_group_path r)) st" "validate_group_path path = Ok ()"
    using assms(1) by (auto simp: group_delete_def split: sum.splits if_splits)
  with delete_rows_has [OF assms(2), of "\<lambda>r. in_group path (sr_group_path r)"] show ?thesis
    by (simp add: group_session_ids_def)
next
  case False
  obtain n st1 where u: "update_paths now (\<lambda>p. p = path) (\<lambda>_. []) st = (n, st1)" by fastforce
  obtain k st2 where v: "update_paths now (below path) (lift_path path) st1 = (k, st2)" by fastforce
  have "st' = st \<or> st' = st2"
    using assms(1) False u v by (auto simp: group_delete_def Let_def split: sum.splits if_splits)
  moreover have "has_session st2 j"
    using assms(2) update_paths_has [of now "\<lambda>p. p = path" "\<lambda>_. []" st j] update_paths_has [of now "below path" "lift_path path" st1 j] u v by simp
  ultimately show ?thesis using assms(2) by blast
qed

lemma move_to_group_has: "has_session (snd (move_to_group now ids g st)) j = has_session st j"
  using move_rows_has [of now g ids st j] by (auto simp: move_to_group_def split: sum.split prod.split)

lemma set_store_store [simp]: "db_store (set_store st db) = st"
  by (simp add: set_store_def)

lemma audit_store [simp]: "db_store (audit env sid action detail db) = db_store db"
  by (simp add: audit_def)

lemma doomed_simps [simp]: "\<not> doomed [] i" "doomed (Deleted ids # q) i \<longleftrightarrow> i \<in> set ids \<or> doomed q i"
  "doomed (Deleting ids # q) i = doomed q i" "doomed (Upserted k # q) i = doomed q i" "doomed (q @ q') i \<longleftrightarrow> doomed q i \<or> doomed q' i"
  by (auto simp: doomed_def)

text \<open>A command that leaves the tunnels alone and publishes a deletion for every session it removes.\<close>

lemma owned_cmd:
  assumes "owned a" "ap_mgr a' = ap_mgr a" "ap_tunnel_rx a' = ap_tunnel_rx a @ q"
    "\<And>j. has_session (db_store (ap_db a)) j \<Longrightarrow> has_session (db_store (ap_db a')) j \<or> doomed q j"
  shows "owned a'"
  by (rule owned_backed [OF assms(1)]) (use assms(2-) in auto)

lemma owned_upsert:
  assumes "owned a"
  shows "owned (snd (session_upsert_cmd env rec a))"
proof -
  obtain r st where u: "session_upsert (en_now env) rec (db_store (ap_db a)) = (r, st)" by fastforce
  have st: "has_session st j" if "has_session (db_store (ap_db a)) j" for j using upsert_has [OF that, of "en_now env" rec] u by simp
  show ?thesis
  proof (cases r)
    case (Inl e)
    with u st show ?thesis by (intro owned_cmd [OF assms, of _ "[]"]) (auto simp: session_upsert_cmd_def)
  next
    case (Inr x)
    with u st show ?thesis by (intro owned_cmd [OF assms, of _ "[Upserted (sr_id x)]"]) (auto simp: session_upsert_cmd_def Let_def)
  qed
qed

lemma owned_delete:
  assumes "owned a"
  shows "owned (snd (session_delete_cmd env i a))"
proof (cases "list_ex (\<lambda>r. sr_id r = i) (st_sessions (db_store (ap_db a)))")
  case False
  then show ?thesis by (intro owned_cmd [OF assms, of _ "[Deleting [i]]"]) (auto simp: session_delete_cmd_def session_delete_def Let_def)
next
  case True
  then have "ap_mgr (snd (session_delete_cmd env i a)) = ap_mgr a" "ap_tunnel_rx (snd (session_delete_cmd env i a)) = ap_tunnel_rx a @ [Deleting [i], Deleted [i]]"
    and st: "db_store (ap_db (snd (session_delete_cmd env i a))) = delete_rows (\<lambda>r. sr_id r = i) (db_store (ap_db a))"
    by (simp_all add: session_delete_cmd_def session_delete_def Let_def)
  then show ?thesis
    by (intro owned_cmd [OF assms, of _ "[Deleting [i], Deleted [i]]"])
      (use delete_rows_has [of "db_store (ap_db a)" _ "\<lambda>r. sr_id r = i"] in \<open>auto simp: st\<close>)
qed

lemma owned_group_delete:
  assumes "owned a"
  shows "owned (snd (group_delete_cmd env path b a))"
proof -
  let ?st = "db_store (ap_db a)"
  obtain r st where del: "group_delete (en_now env) path b ?st = (r, st)" by fastforce
  consider e where "b" "group_session_ids path ?st = Err e"
    | ids where "(if b then group_session_ids path ?st else Ok []) = Ok ids"
    by (cases b; cases "group_session_ids path ?st") auto
  then show ?thesis
  proof cases
    case 1
    then show ?thesis by (intro owned_cmd [OF assms, of _ "[]"]) (auto simp: group_delete_cmd_def)
  next
    case 2
    have gone: "has_session st j \<or> j \<in> set ids" if "has_session ?st j" for j
      using group_delete_has [OF del that] 2 by (auto split: if_splits)
    let ?q = "if ids = [] then [] else [Deleting ids]" and ?q' = "if ids = [] then [] else [Deleted ids]"
    show ?thesis
    proof (cases r)
      case (Inl e)
      with 2 del show ?thesis by (intro owned_cmd [OF assms, of _ ?q]) (auto simp: group_delete_cmd_def Let_def)
    next
      case (Inr n)
      then have "ap_mgr (snd (group_delete_cmd env path b a)) = ap_mgr a" "db_store (ap_db (snd (group_delete_cmd env path b a))) = st"
        "ap_tunnel_rx (snd (group_delete_cmd env path b a)) = ap_tunnel_rx a @ ?q @ ?q'"
        using 2 del by (auto simp: group_delete_cmd_def Let_def)
      with gone show ?thesis by (intro owned_cmd [OF assms, of _ "?q @ ?q'"]) (auto split: if_splits)
    qed
  qed
qed

lemma owned_other_cmds:
  assumes "owned a"
  shows "owned (snd (group_rename_cmd env old new a))" "owned (snd (session_move_cmd env ids path a))"
proof -
  have "has_session (db_store (ap_db (snd (group_rename_cmd env old new a)))) j = has_session (db_store (ap_db a)) j" for j
    using group_rename_has [of "en_now env" old new "db_store (ap_db a)" j]
    by (auto simp: group_rename_cmd_def split: prod.split sum.split)
  then show "owned (snd (group_rename_cmd env old new a))"
    by (intro owned_cmd [OF assms, of _ "[]"]) (auto simp: group_rename_cmd_def split: prod.split sum.split)
  have "has_session (db_store (ap_db (snd (session_move_cmd env ids path a)))) j = has_session (db_store (ap_db a)) j" for j
    using move_to_group_has [of "en_now env" ids path "db_store (ap_db a)" j]
    by (auto simp: session_move_cmd_def split: prod.split sum.split)
  then show "owned (snd (session_move_cmd env ids path a))"
    by (intro owned_cmd [OF assms, of _ "[]"]) (auto simp: session_move_cmd_def split: prod.split sum.split)
qed

text \<open>Runs in which the task of the tunnels never has more than 64 events to read.\<close>

inductive calm_step :: "'c app \<Rightarrow> 'c app \<Rightarrow> bool" where
  "app_step a a' \<Longrightarrow> length (ap_tunnel_rx a) \<le> CAPACITY \<Longrightarrow> calm_step a a'"

lemma owned_world:
  assumes "owned a" "backed (db_store (ap_db a)) (ap_mgr a) (ap_mgr a')" "db_store (ap_db a') = db_store (ap_db a)"
    "ap_tunnel_rx a' = ap_tunnel_rx a"
  shows "owned a'"
  by (rule owned_backed [OF assms(1,2)]) (simp_all add: assms(3,4))

lemma owned_step:
  assumes "app_step a a'" "length (ap_tunnel_rx a) \<le> CAPACITY" "owned a"
  shows "owned a'"
  using assms
proof (induction rule: app_step.induct)
  case (as_tunnel_start a env spec)
  obtain rq where "tw_mgr (snd (tunnel_start env spec (ap_world a))) = snd (start_tunnel env rq (ap_db a) (ap_mgr a))"
    using tunnel_start_parts(2) by blast
  then show ?case by (intro owned_world [OF as_tunnel_start(2)]) (simp_all add: tunnel_start_parts(1) backed_start)
next
  case (as_tunnel_save a env def)
  show ?case
  proof (cases rule: tunnel_save_parts [of env def "ap_world a"])
    case same
    with as_tunnel_save show ?thesis by (simp add: owned_def)
  next
    case (saved sid action detail db)
    have store: "db_store db = db_store (ap_db a)" using saved(1) by (simp add: tunnel_upsert_store)
    with saved(3) backed_start have "backed (db_store (ap_db a)) (ap_mgr a) (tw_mgr (snd (tunnel_save env def (ap_world a))))"
      by (metis backed_refl)
    with saved(2) store show ?thesis by (intro owned_world [OF as_tunnel_save(2)]) simp_all
  qed
next
  case (as_tunnel_delete a env i)
  have "db_store (tw_db (snd (tunnel_delete env i (ap_world a)))) = db_store (ap_db a)"
    using tunnel_delete_parts(1) [of env i "ap_world a"] by (auto simp: tunnel_delete_row_def)
  then show ?case by (intro owned_world [OF as_tunnel_delete(2)]) (simp_all add: tunnel_delete_parts(2) backed_stop)
next
  case (as_tunnel_task env a a')
  then show ?case using owned_tunnel_task by (simp add: CAPACITY_def)
next
  case (as_sftp_task a a')
  with other_tasks_world(1) [OF as_sftp_task(1)] show ?case by (simp add: owned_def)
next
  case (as_exec_task a a')
  with other_tasks_world(2) [OF as_exec_task(1)] show ?case by (simp add: owned_def)
next
  case (as_tunnel_stop a env i)
  show ?case by (rule owned_world [OF as_tunnel_stop(2)]) (simp_all add: tunnel_stop_parts backed_stop)
next
  case (as_autostart a env)
  show ?case by (rule owned_world [OF as_autostart(2)]) (simp_all add: backed_commands)
next
  case (as_term_open a env i)
  show ?case by (rule owned_world [OF as_term_open(2)]) (simp_all add: backed_commands)
next
  case (as_term_close a env i)
  show ?case by (rule owned_world [OF as_term_close(2)]) (simp_all add: backed_commands)
next
  case (as_tunnels_run a evs)
  show ?case by (rule owned_world [OF as_tunnels_run(2)]) (simp_all add: backed_tasks)
next
  case (as_sftp_runs a s)
  then show ?case by (simp add: owned_def)
next
  case (as_exec_runs a x)
  then show ?case by (simp add: owned_def)
qed (simp_all add: owned_upsert owned_delete owned_group_delete owned_other_cmds)

interpretation ownership: invariant_system app_init calm_step owned
proof (unfold_locales, goal_cases)
  case (1 a)
  then show ?case by (simp add: app_init_def owned_def manager_new_def registry_ok_def owners_eq)
next
  case (2 a a')
  from 2(2) show ?case by (cases rule: calm_step.cases) (use 2(1) owned_step in blast)
qed


section \<open>Deleting a session\<close>

fun tunnel_drain :: "nat \<Rightarrow> tunnel_env \<Rightarrow> 'c app \<Rightarrow> 'c app" where
  "tunnel_drain 0 env a = a"
| "tunnel_drain (Suc n) env a = (case tunnel_task env a of None \<Rightarrow> a | Some a' \<Rightarrow> tunnel_drain n env a')"

fun sftp_drain :: "nat \<Rightarrow> 'c app \<Rightarrow> 'c app" where
  "sftp_drain 0 a = a"
| "sftp_drain (Suc n) a = (case sftp_task a of None \<Rightarrow> a | Some a' \<Rightarrow> sftp_drain n a')"

fun exec_drain :: "nat \<Rightarrow> 'c app \<Rightarrow> 'c app" where
  "exec_drain 0 a = a"
| "exec_drain (Suc n) a = (case exec_task a of None \<Rightarrow> a | Some a' \<Rightarrow> exec_drain n a')"

lemma drop_ctx_keys: "fst ` set (ctxs (drop_ctx i m)) = fst ` set (ctxs m) - {i}"
  by (force simp: drop_ctx_def map_remove_def)

lemma exec_drop_keys: "fst ` set (xs_ctxs (exec_drop_ctx i m)) = fst ` set (xs_ctxs m) - {i}"
  by (force simp: exec_drop_ctx_def map_remove_def)


lemma tunnel_drain_cong:
  assumes "tunnel_task env a = tunnel_task env b" "tunnel_task env a \<noteq> None" "0 < n"
  shows "tunnel_drain n env a = tunnel_drain n env b"
  using assms by (cases n) auto

text \<open>
  A receiver that lags is told how many events it has missed and goes on with the rest; nothing
  makes up for them. When 64 changes of other sessions follow a deletion before the task of the
  tunnels gets to run, the tunnels of the deleted session stay in the table.
\<close>

theorem lagging_task_keeps_tunnels:
  assumes "ap_tunnel_rx a = Deleting ids # Deleted ids # replicate 64 (Upserted j)" "tunnels_for_session j (ap_db a) = []"
  shows "ap_mgr (tunnel_drain 64 env a) = ap_mgr a \<and> ap_tunnel_rx (tunnel_drain 64 env a) = []"
proof -
  have calm: "ap_mgr (tunnel_drain n env b) = ap_mgr b \<and> ap_tunnel_rx (tunnel_drain n env b) = []"
    if "ap_tunnel_rx b = replicate n (Upserted j)" "n \<le> 64" "tunnels_for_session j (ap_db b) = []" for n b
    using that
  proof (induction n arbitrary: b)
    case (Suc n)
    let ?b = "b\<lparr>ap_world := (ap_world b)\<lparr>tw_mgr := ap_mgr b\<rparr>, ap_tunnel_rx := replicate n (Upserted j)\<rparr>"
    have "tunnel_task env b = Some ?b"
      using Suc.prems by (simp add: tunnel_task_def recv_def CAPACITY_def restart_session_tunnels_def)
    with Suc.IH [of ?b] Suc.prems show ?case by simp
  qed simp
  have "tunnel_task env a = tunnel_task env (a\<lparr>ap_tunnel_rx := replicate 64 (Upserted j)\<rparr>)"
    using assms(1) by (simp add: tunnel_task_def recv_def CAPACITY_def split: list.split)
  moreover have "tunnel_task env a \<noteq> None" using assms(1) by (simp add: tunnel_task_def recv_def CAPACITY_def split: list.split)
  ultimately have "tunnel_drain 64 env a = tunnel_drain 64 env (a\<lparr>ap_tunnel_rx := replicate 64 (Upserted j)\<rparr>)"
    by (intro tunnel_drain_cong) simp_all
  with calm [of "a\<lparr>ap_tunnel_rx := replicate 64 (Upserted j)\<rparr>" 64] assms(2) show ?thesis by simp
qed

text \<open>
  The event that announces a deletion goes out before the store has agreed. Deleting the root
  with its sessions is refused, but the sessions outside every group have been announced by then,
  and their tunnels are stopped although nothing was deleted.
\<close>

theorem refused_delete_stops_tunnels:
  assumes "ap_tunnel_rx a = []" "registry_ok (ap_mgr a)" "s \<in> set (st_sessions (db_store (ap_db a)))" "sr_group_path s = []"
  shows "(\<exists>e. fst (group_delete_cmd env [] True a) = Err e) \<and> ap_db (tunnel_drain 1 env (snd (group_delete_cmd env [] True a))) = ap_db a \<and>
    sr_id s \<notin> snd ` set (owners (ap_mgr (tunnel_drain 1 env (snd (group_delete_cmd env [] True a)))))"
proof -
  define ids where "ids = map sr_id (filter (\<lambda>r. in_group [] (sr_group_path r)) (st_sessions (db_store (ap_db a))))"
  have i: "sr_id s \<in> set ids" using assms(3,4) by (auto simp: ids_def in_group_def)
  then have ne: "ids \<noteq> []" by auto
  have root: "validate_group_path [] = Ok ()" by (simp add: validate_group_path_def valid_path_def)
  have g: "group_session_ids [] (db_store (ap_db a)) = Ok ids" by (simp add: group_session_ids_def root ids_def)
  have e: "group_delete_cmd env [] True a = (Err (store_error_str (Validation ''root'')), publish (Deleting ids) a)"
    using ne by (simp add: group_delete_cmd_def g group_delete_def root)
  have "tunnel_drain 1 env (publish (Deleting ids) a) =
      (publish (Deleting ids) a)\<lparr>ap_world := (ap_world a)\<lparr>tw_mgr := fold (stop_tunnels_of_session env) ids (ap_mgr a)\<rparr>, ap_tunnel_rx := []\<rparr>"
    using assms(1) by (simp add: tunnel_task_def recv_def CAPACITY_def)
  with e i fold_stop_owners [OF assms(2), of env ids] show ?thesis by auto
qed

section \<open>Examples\<close>

text \<open>Two sessions with a tunnel each, put there by the commands themselves.\<close>

definition blank :: "nat app" where
  "blank = \<lparr>ap_world = \<lparr>tw_db = \<lparr>db_store = \<lparr>st_sessions = [], st_creds = []\<rparr>, db_tunnels = [], db_audit = audit_new\<rparr>,
       tw_mgr = manager_new, tw_seq = 1\<rparr>, ap_sftp = \<lparr>ctxs = [], arena = (\<lambda>_. undefined)\<rparr>, ap_exec = exec_new,
     ap_tunnel_rx = [], ap_sftp_rx = [], ap_exec_rx = []\<rparr>"

definition one_tunnel :: "nat app" where
  "one_tunnel = on_world (\<lambda>w. snd (tunnel_save sample_env \<lparr>dw_rec = sample_def, dw_fail_fast = None, dw_start = True\<rparr> w))
     (snd (session_upsert_cmd sample_env (sample_session ''s'' [] []) blank))"

lemma one_tunnel_reachable: "reachable app_init calm_step one_tunnel"
proof -
  have "reachable app_init calm_step blank" by (rule reach_init) (simp add: app_init_def blank_def)
  then have "reachable app_init calm_step (snd (session_upsert_cmd sample_env (sample_session ''s'' [] []) blank))"
    by (rule reach_step) (intro calm_step.intros as_upsert, simp add: blank_def)
  then show ?thesis unfolding one_tunnel_def
    by (rule reach_step) (intro calm_step.intros as_tunnel_save,
        simp add: blank_def session_upsert_cmd_def session_upsert_def session_get_def sample_session_def CAPACITY_def Let_def)
qed

definition one_session :: store where
  "one_session = \<lparr>st_sessions = [(sample_session ''s'' [] [])\<lparr>sr_created_at := ''now'', sr_updated_at := ''now''\<rparr>], st_creds = []\<rparr>"

lemma one_session_resolves: "\<exists>spec. resolve_session_spec (en_secrets sample_env) one_session ''s'' = Some (Ok spec)"
  by (simp add: resolve_session_spec_def MAX_JUMP_DEPTH_def eval_nat_numeral one_session_def sample_session_def session_get_def
      resolve_auth_def resolve_su_def su_user_of_def)

lemma start_sample:
  assumes "db_store db = one_session"
  shows "\<exists>m. start_tunnel sample_env (request_of sample_def False) db manager_new = (Ok (), m) \<and> tm_tunnels m = [(''a'', 0)] \<and>
    length (tm_entries m) = 1 \<and> te_session_id (tm_entries m ! 0) = ''s''"
proof -
  obtain spec where spec: "resolve_session_spec (en_secrets sample_env) one_session ''s'' = Some (Ok spec)" using one_session_resolves by blast
  let ?sp = "tunnel_spec (Local ''::'' 80) (Some (''h'', 22)) False ''s''" and ?key = "''s'' @ '':'' @ hex16 (en_hash sample_env (spec_shape spec))"
  obtain m where m: "mgr_start (en_sock sample_env) ''a'' ?sp ?key manager_new = (Ok (), m)" "tm_tunnels m = [(''a'', 0)]"
    "tm_entries m = [entry_new ?sp None]"
    using mgr_start_adds [of manager_new "''a''" "en_sock sample_env" ?sp None ?key]
    by (auto simp: manager_new_def bind_of_def tunnel_spec_def sample_env_def)
  have "session_get one_session ''s'' = Ok ((sample_session ''s'' [] [])\<lparr>sr_created_at := ''now'', sr_updated_at := ''now''\<rparr>)"
    by (simp add: session_get_def one_session_def sample_session_def)
  with m spec assms show ?thesis
    by (simp add: start_tunnel_def request_of_def sample_def_def already_def tunnel_list_def manager_new_def parse_kind_def parse_target_def
        tunnel_group_key_def Let_def) (simp add: entry_new_def tunnel_spec_def)
qed

lemma one_tunnel_fields:
  "owners (ap_mgr one_tunnel) = [(''a'', ''s'')] \<and> db_store (ap_db one_tunnel) = one_session \<and>
   db_tunnels (ap_db one_tunnel) = [sample_def\<lparr>td_created_at := ''now''\<rparr>] \<and> ap_tunnel_rx one_tunnel = [Upserted ''s'']"
proof -
  define b where "b = snd (session_upsert_cmd sample_env (sample_session ''s'' [] []) blank)"
  have b: "ap_mgr b = manager_new" "db_store (ap_db b) = one_session" "db_tunnels (ap_db b) = []" "ap_tunnel_rx b = [Upserted ''s'']"
    by (simp_all add: b_def session_upsert_cmd_def session_upsert_def session_get_def blank_def one_session_def sample_session_def
        sample_env_def set_store_def audit_def Let_def)
  have valid: "validate_tunnel sample_def = Ok ()"
    by (simp add: validate_tunnel_def sample_def_def trim_def is_ws_def)
  define db where "db = audit sample_env (Some ''s'') ''tunnel_save'' [(''tunnelId'', ''a''), (''kind'', ''local'')]
    ((ap_db b)\<lparr>db_tunnels := [sample_def\<lparr>td_created_at := ''now''\<rparr>]\<rparr>)"
  have ups: "tunnel_upsert (en_now sample_env) (sample_def\<lparr>td_created_at := []\<rparr>) (ap_db b) =
      (Ok (), (ap_db b)\<lparr>db_tunnels := [sample_def\<lparr>td_created_at := ''now''\<rparr>]\<rparr>)"
    using b valid by (simp add: tunnel_upsert_def tunnel_upsert_row_def one_session_def sample_session_def sample_def_def sample_env_def)
  have "db_store db = one_session" "db_tunnels db = [sample_def\<lparr>td_created_at := ''now''\<rparr>]"
    using b by (simp_all add: db_def audit_def)
  moreover from start_sample [OF this(1)] obtain m where m: "start_tunnel sample_env (request_of sample_def False) db manager_new = (Ok (), m)"
    "tm_tunnels m = [(''a'', 0)]" "te_session_id (tm_entries m ! 0) = ''s''" by blast
  have "ap_world one_tunnel = (ap_world b)\<lparr>tw_db := db, tw_mgr := m\<rparr>"
    using m(1) b(1) ups
    by (simp add: one_tunnel_def b_def [symmetric] tunnel_save_def on_mgr_def or_false_def db_def Let_def) (simp add: sample_def_def)
  moreover have "ap_tunnel_rx one_tunnel = [Upserted ''s'']" using b(4) by (simp add: one_tunnel_def b_def)
  ultimately show ?thesis using m by (simp add: owners_eq)
qed

lemma one_tunnel_ok: "registry_ok (ap_mgr one_tunnel)"
  using ownership.inv_reachable [OF one_tunnel_reachable] by (simp add: owned_def)

lemma calm_reachable: "reachable app_init calm_step a \<Longrightarrow> reachable app_init app_step a"
  by (induction rule: reachable.induct) (auto intro: reach_init reach_step elim: calm_step.cases)

lemma one_tunnel_listed: obtains t where "t \<in> set (tunnel_list (ap_mgr one_tunnel))" "tn_session_id t = ''s''"
proof -
  have "(''a'', ''s'') \<in> set (owners (ap_mgr one_tunnel))" using one_tunnel_fields by simp
  then show ?thesis using that by (auto simp: owners_def)
qed


lemma definitions_stay_sound_witness:
  "validate_tunnel (sample_def\<lparr>td_created_at := ''now''\<rparr>) = Ok () \<and>
   list_ex (\<lambda>s. sr_id s = ''s'') (st_sessions (db_store (ap_db one_tunnel)))"
  using definitions_stay_sound [OF calm_reachable [OF one_tunnel_reachable], of "sample_def\<lparr>td_created_at := ''now''\<rparr>"] one_tunnel_fields
  by (simp add: sample_def_def)

definition settled :: "nat app" where
  "settled = one_tunnel\<lparr>ap_tunnel_rx := [], ap_sftp_rx := [], ap_exec_rx := []\<rparr>"

lemma settled_fields:
  "ap_tunnel_rx settled = []" "ap_sftp_rx settled = []" "ap_exec_rx settled = []" "ap_world settled = ap_world one_tunnel"
  by (simp_all add: settled_def)


lemma lagging_task_keeps_tunnels_witness:
  "owners (ap_mgr (tunnel_drain 64 sample_env
     (settled\<lparr>ap_tunnel_rx := Deleting [''s''] # Deleted [''s''] # replicate 64 (Upserted ''x'')\<rparr>))) = [(''a'', ''s'')]"
  using lagging_task_keeps_tunnels [of "settled\<lparr>ap_tunnel_rx := Deleting [''s''] # Deleted [''s''] # replicate 64 (Upserted ''x'')\<rparr>"
      "[''s'']" "''x''" sample_env] one_tunnel_fields
  by (simp add: settled_fields tunnels_for_session_def sample_def_def)

lemma refused_delete_stops_tunnels_witness:
  "''s'' \<notin> snd ` set (owners (ap_mgr (tunnel_drain 1 sample_env (snd (group_delete_cmd sample_env [] True settled)))))"
  using refused_delete_stops_tunnels [of settled "(sample_session ''s'' [] [])\<lparr>sr_created_at := ''now'', sr_updated_at := ''now''\<rparr>" sample_env]
    one_tunnel_fields one_tunnel_ok
  by (simp add: settled_fields one_session_def sample_session_def)

end
