(* ===== verification/Config_Export.thy ===== *)
theory Config_Export
  imports Mcp_Server Session_Events
begin

text \<open>
  The vault of credentials (\<^verbatim>\<open>src/crates/core-store/src/cred.rs\<close>), the export and the import of a
  configuration (\<^verbatim>\<open>src/crates/core-store/src/export.rs\<close>), and the commands on both in
  \<^verbatim>\<open>src/crates/app/src/sessions.rs\<close>.

  The crates that are called are the fields of the record \<open>crates\<close>: the key store of the operating
  system, Base64, Argon2, AES-GCM, the JSON writer and reader for the derived formats, and the
  random salt and nonce of one export. A transaction works on a copy of the tables and its result
  is kept only if it commits. A query without \<open>ORDER BY\<close> gives the rows in the order of the table,
  and the kind of a stored credential is one of the three that are ever written. The limit of one
  import is on bytes; a text is the list of its bytes.
\<close>

section \<open>Results\<close>

text \<open>\<open>Result::map_err\<close>, the operator \<open>?\<close>, and \<open>collect\<close> into a \<open>Result\<close>.\<close>

definition map_err :: "('e \<Rightarrow> 'f) \<Rightarrow> ('e, 'a) result \<Rightarrow> ('f, 'a) result" where
  "map_err f r = (case r of Inl e \<Rightarrow> Err (f e) | Inr x \<Rightarrow> Ok x)"

definition and_then :: "('e, 'a) result \<Rightarrow> ('a \<Rightarrow> ('e, 'b) result) \<Rightarrow> ('e, 'b) result" where
  "and_then r f = (case r of Inl e \<Rightarrow> Err e | Inr x \<Rightarrow> f x)"

definition ok_or :: "'e \<Rightarrow> 'a option \<Rightarrow> ('e, 'a) result" where
  "ok_or e x = (case x of None \<Rightarrow> Err e | Some a \<Rightarrow> Ok a)"

definition check_that :: "bool \<Rightarrow> 'e \<Rightarrow> ('e, unit) result" where
  "check_that b e = (if b then Ok () else Err e)"

fun try_map :: "('a \<Rightarrow> ('e, 'b) result) \<Rightarrow> 'a list \<Rightarrow> ('e, 'b list) result" where
  "try_map f [] = Ok []"
| "try_map f (x # xs) = and_then (f x) (\<lambda>y. and_then (try_map f xs) (\<lambda>ys. Ok (y # ys)))"

section \<open>Credentials\<close>

record crates =
  cx_protect :: "u8 list \<Rightarrow> (string, u8 list) result"
  cx_unprotect :: "u8 list \<Rightarrow> (string, u8 list) result"
  cx_b64_encode :: "u8 list \<Rightarrow> string"
  cx_b64_decode :: "string \<Rightarrow> (string, u8 list) result"
  cx_argon2 :: "u8 list \<Rightarrow> u8 list \<Rightarrow> u32 \<Rightarrow> u32 \<Rightarrow> u32 \<Rightarrow> (string, u8 list) result"
  cx_encrypt :: "u8 list \<Rightarrow> u8 list \<Rightarrow> u8 list \<Rightarrow> (string, u8 list) result"
  cx_decrypt :: "u8 list \<Rightarrow> u8 list \<Rightarrow> u8 list \<Rightarrow> (string, u8 list) result"
  cx_salt :: "u8 list"
  cx_nonce :: "u8 list"

fun cred_kind_str :: "CredentialKind \<Rightarrow> string" where
  "cred_kind_str CkPassword = ''password''"
| "cred_kind_str CkKeyPassphrase = ''key_passphrase''"
| "cred_kind_str CkSuPassword = ''su_password''"

definition cred_kind_parse :: "string \<Rightarrow> (StoreError, CredentialKind) result" where
  "cred_kind_parse s =
     (if s = ''password'' then Ok CkPassword
      else if s = ''key_passphrase'' then Ok CkKeyPassphrase
      else if s = ''su_password'' then Ok CkSuPassword
      else Err (Corrupt (''unknown kind of credential '' @ s)))"

definition protect :: "crates \<Rightarrow> u8 list \<Rightarrow> (StoreError, u8 list) result" where
  "protect cx secret = map_err Crypto (cx_protect cx secret)"

definition unprotect :: "crates \<Rightarrow> u8 list \<Rightarrow> (StoreError, u8 list) result" where
  "unprotect cx blob = map_err Crypto (cx_unprotect cx blob)"

text \<open>A credential needs its session; a second one of the same kind replaces the first.\<close>

definition put_blob_row :: "string \<times> CredentialKind \<times> u8 list \<Rightarrow> store \<Rightarrow> (StoreError, unit) result \<times> store" where
  "put_blob_row c st =
     (case c of (i, k, blob) \<Rightarrow>
        if \<not> has_session st i then (Err (StoreQuery ''FOREIGN KEY constraint failed''), st)
        else if list_ex (\<lambda>(j, l, _). j = i \<and> l = k) (st_creds st)
        then (Ok (), st\<lparr>st_creds := map (\<lambda>(j, l, b). (j, l, if j = i \<and> l = k then blob else b)) (st_creds st)\<rparr>)
        else (Ok (), st\<lparr>st_creds := st_creds st @ [(i, k, blob)]\<rparr>))"

definition cred_put :: "crates \<Rightarrow> string \<Rightarrow> CredentialKind \<Rightarrow> u8 list \<Rightarrow> store \<Rightarrow> (StoreError, unit) result \<times> store" where
  "cred_put cx i k secret st =
     (case protect cx secret of Inl e \<Rightarrow> (Err e, st) | Inr blob \<Rightarrow> put_blob_row (i, k, blob) st)"

definition cred_row :: "store \<Rightarrow> string \<Rightarrow> CredentialKind \<Rightarrow> u8 list option" where
  "cred_row st i k = map_option (snd \<circ> snd) (find (\<lambda>(j, l, _). j = i \<and> l = k) (st_creds st))"

definition cred_get :: "crates \<Rightarrow> string \<Rightarrow> CredentialKind \<Rightarrow> store \<Rightarrow> (StoreError, u8 list) result" where
  "cred_get cx i k st =
     and_then (ok_or (StoreNotFound (''credential '' @ i)) (cred_row st i k)) (unprotect cx)"

definition cred_get_all :: "crates \<Rightarrow> string \<Rightarrow> store \<Rightarrow> (StoreError, (CredentialKind \<times> u8 list) list) result" where
  "cred_get_all cx i st =
     try_map (\<lambda>(_, k, blob). and_then (unprotect cx blob) (\<lambda>s. Ok (k, s))) (filter (\<lambda>c. fst c = i) (st_creds st))"

definition cred_delete_row :: "string \<Rightarrow> CredentialKind option \<Rightarrow> store \<Rightarrow> store" where
  "cred_delete_row i kind st =
     (case kind of
        Some k \<Rightarrow> st\<lparr>st_creds := filter (\<lambda>(j, l, _). \<not> (j = i \<and> l = k)) (st_creds st)\<rparr>
      | None \<Rightarrow> st\<lparr>st_creds := filter (\<lambda>(j, _, _). j \<noteq> i) (st_creds st)\<rparr>)"

text \<open>The vault as the resolution of sessions sees it: a credential that cannot be read is missing.\<close>

definition vault_secrets :: "crates \<Rightarrow> (u8 list \<Rightarrow> string option) \<Rightarrow> (string \<Rightarrow> (string, string) result) \<Rightarrow> store \<Rightarrow> secrets" where
  "vault_secrets cx utf8 key_file st =
     \<lparr>sx_cred = (\<lambda>i k. case cred_get cx i k st of Inl _ \<Rightarrow> None | Inr s \<Rightarrow> Some s), sx_utf8 = utf8, sx_key_file = key_file\<rparr>"

section \<open>The format\<close>

definition ARGON2_M_KIB :: u32 where "ARGON2_M_KIB = 64 * 1024"
definition ARGON2_T :: u32 where "ARGON2_T = 3"
definition ARGON2_P :: u32 where "ARGON2_P = 4"
definition MAX_ENVELOPE_BYTES :: nat where "MAX_ENVELOPE_BYTES = 64 * 1024 * 1024"
definition MAX_PAYLOAD_BYTES :: nat where "MAX_PAYLOAD_BYTES = 128 * 1024 * 1024"
definition MAX_SESSIONS :: nat where "MAX_SESSIONS = 100000"
definition MAX_TUNNELS :: nat where "MAX_TUNNELS = 100000"
definition MAX_CREDENTIALS :: nat where "MAX_CREDENTIALS = 300000"
definition SALT_MIN_BYTES :: nat where "SALT_MIN_BYTES = 16"
definition SALT_MAX_BYTES :: nat where "SALT_MAX_BYTES = 64"
definition NONCE_BYTES :: nat where "NONCE_BYTES = 12"
definition ARGON2_M_MIN_KIB :: u32 where "ARGON2_M_MIN_KIB = 8 * 1024"
definition ARGON2_M_MAX_KIB :: u32 where "ARGON2_M_MAX_KIB = 256 * 1024"
definition ARGON2_T_MIN :: u32 where "ARGON2_T_MIN = 1"
definition ARGON2_T_MAX :: u32 where "ARGON2_T_MAX = 10"
definition ARGON2_P_MIN :: u32 where "ARGON2_P_MIN = 1"
definition ARGON2_P_MAX :: u32 where "ARGON2_P_MAX = 16"

lemmas limit_defs = ARGON2_M_KIB_def ARGON2_T_def ARGON2_P_def MAX_ENVELOPE_BYTES_def MAX_PAYLOAD_BYTES_def MAX_SESSIONS_def
  MAX_TUNNELS_def MAX_CREDENTIALS_def SALT_MIN_BYTES_def SALT_MAX_BYTES_def NONCE_BYTES_def ARGON2_M_MIN_KIB_def
  ARGON2_M_MAX_KIB_def ARGON2_T_MIN_def ARGON2_T_MAX_def ARGON2_P_MIN_def ARGON2_P_MAX_def

record CredEntry =
  ce_session_id :: string
  ce_kind :: string
  ce_secret :: string

record Payload =
  pl_sessions :: "SessionRecord list"
  pl_tunnels :: "TunnelRecord list"
  pl_credentials :: "CredEntry list"

record KdfInfo =
  kd_algo :: string
  kd_salt :: string
  kd_m_kib :: u32
  kd_t :: u32
  kd_p :: u32

record Envelope =
  ev_v :: u32
  ev_app :: string
  ev_encrypted :: bool
  ev_kdf :: "KdfInfo option"
  ev_nonce :: "string option"
  ev_data :: Value

record ConfigImportOutcome =
  io_sessions :: nat
  io_tunnels :: nat
  io_credentials :: nat

text \<open>The derived formats: a payload as a JSON value and as bytes, an envelope as text.\<close>

record formats =
  fm_to_value :: "Payload \<Rightarrow> (string, Value) result"
  fm_from_value :: "Value \<Rightarrow> (string, Payload) result"
  fm_to_vec :: "Payload \<Rightarrow> (string, u8 list) result"
  fm_from_slice :: "u8 list \<Rightarrow> (string, Payload) result"
  fm_to_text :: "Envelope \<Rightarrow> (string, string) result"
  fm_from_text :: "string \<Rightarrow> (string, Envelope) result"

definition derive_key :: "crates \<Rightarrow> u8 list \<Rightarrow> u8 list \<Rightarrow> u32 \<Rightarrow> u32 \<Rightarrow> u32 \<Rightarrow> (StoreError, u8 list) result" where
  "derive_key cx pass salt m t p = map_err Crypto (cx_argon2 cx pass salt m t p)"

definition b64dec :: "crates \<Rightarrow> string \<Rightarrow> (StoreError, u8 list) result" where
  "b64dec cx s = map_err (\<lambda>e. Corrupt (''base64: '' @ e)) (cx_b64_decode cx s)"

text \<open>\<open>Key::try_from\<close> and \<open>Nonce::try_from\<close>\<close>

definition gcm_key :: "u8 list \<Rightarrow> (StoreError, unit) result" where
  "gcm_key key = check_that (length key = 32) (Crypto ''length of the key'')"

definition gcm_nonce :: "u8 list \<Rightarrow> (StoreError, unit) result" where
  "gcm_nonce nonce = check_that (length nonce = 12) (Crypto ''length of the nonce'')"

section \<open>Export\<close>

text \<open>\<open>ORDER BY group_path, name\<close>\<close>

definition session_list :: "store \<Rightarrow> SessionRecord list" where
  "session_list st = sort_key sr_group_path (sort_key sr_name (st_sessions st))"

definition export_plain :: "formats \<Rightarrow> tunnel_db \<Rightarrow> (StoreError, string) result" where
  "export_plain fm db =
     and_then (map_err Corrupt (fm_to_value fm
         \<lparr>pl_sessions = session_list (db_store db), pl_tunnels = tunnel_rows db, pl_credentials = []\<rparr>)) (\<lambda>v.
     map_err Corrupt (fm_to_text fm
       \<lparr>ev_v = 1, ev_app = ''myssh'', ev_encrypted = False, ev_kdf = None, ev_nonce = None, ev_data = v\<rparr>))"

definition cred_entry :: "crates \<Rightarrow> string \<Rightarrow> CredentialKind \<times> u8 list \<Rightarrow> CredEntry" where
  "cred_entry cx i c =
     \<lparr>ce_session_id = i, ce_kind = cred_kind_str (fst c), ce_secret = cx_b64_encode cx (snd c)\<rparr>"

text \<open>The credentials of all sessions, in the order of the sessions.\<close>

definition export_creds :: "crates \<Rightarrow> store \<Rightarrow> (StoreError, CredEntry list) result" where
  "export_creds cx st =
     and_then (try_map (\<lambda>s. and_then (cred_get_all cx (sr_id s) st) (\<lambda>cs. Ok (map (cred_entry cx (sr_id s)) cs))) (session_list st))
       (\<lambda>es. Ok (concat es))"

definition export_encrypted :: "crates \<Rightarrow> formats \<Rightarrow> tunnel_db \<Rightarrow> u8 list \<Rightarrow> (StoreError, string) result" where
  "export_encrypted cx fm db pass =
     and_then (export_creds cx (db_store db)) (\<lambda>creds.
     and_then (map_err Corrupt (fm_to_vec fm
         \<lparr>pl_sessions = session_list (db_store db), pl_tunnels = tunnel_rows db, pl_credentials = creds\<rparr>)) (\<lambda>plain.
     and_then (derive_key cx pass (cx_salt cx) ARGON2_M_KIB ARGON2_T ARGON2_P) (\<lambda>key.
     and_then (gcm_key key) (\<lambda>_.
     and_then (gcm_nonce (cx_nonce cx)) (\<lambda>_.
     and_then (map_err (\<lambda>e. Crypto (''encryption: '' @ e)) (cx_encrypt cx key (cx_nonce cx) plain)) (\<lambda>blob.
     map_err Corrupt (fm_to_text fm
       \<lparr>ev_v = 1, ev_app = ''myssh'', ev_encrypted = True,
        ev_kdf = Some \<lparr>kd_algo = ''argon2id'', kd_salt = cx_b64_encode cx (cx_salt cx), kd_m_kib = ARGON2_M_KIB, kd_t = ARGON2_T, kd_p = ARGON2_P\<rparr>,
        ev_nonce = Some (cx_b64_encode cx (cx_nonce cx)), ev_data = VString (cx_b64_encode cx blob)\<rparr>)))))))"

section \<open>Import\<close>

subsection \<open>Validation\<close>

fun check_sessions :: "string list \<Rightarrow> SessionRecord list \<Rightarrow> (StoreError, unit) result" where
  "check_sessions seen [] = Ok ()"
| "check_sessions seen (s # ss) =
     (if trim (sr_id s) = [] then Err (Validation ''empty session id'')
      else if sr_id s \<in> set seen then Err (Validation (''session id twice: '' @ sr_id s))
      else check_sessions (sr_id s # seen) ss)"

fun check_tunnels :: "string list \<Rightarrow> TunnelRecord list \<Rightarrow> (StoreError, unit) result" where
  "check_tunnels seen [] = Ok ()"
| "check_tunnels seen (t # ts) =
     (case validate_tunnel t of
        Inl e \<Rightarrow> Err e
      | Inr _ \<Rightarrow>
          if td_id t \<in> set seen then Err (Validation (''tunnel id twice: '' @ td_id t))
          else check_tunnels (td_id t # seen) ts)"

fun check_creds :: "(string \<times> string) list \<Rightarrow> CredEntry list \<Rightarrow> (StoreError, unit) result" where
  "check_creds seen [] = Ok ()"
| "check_creds seen (c # cs) =
     (if (ce_session_id c, ce_kind c) \<in> set seen then Err (Validation (''credential twice: '' @ ce_session_id c))
      else check_creds ((ce_session_id c, ce_kind c) # seen) cs)"

text \<open>The first reference that is not known is an error.\<close>

definition check_refs :: "string list \<Rightarrow> ('a \<Rightarrow> string) \<Rightarrow> string \<Rightarrow> 'a list \<Rightarrow> (StoreError, unit) result" where
  "check_refs ids f msg xs =
     (case find (\<lambda>x. f x \<notin> set ids) xs of
        None \<Rightarrow> Ok ()
      | Some x \<Rightarrow> Err (Validation (msg @ f x)))"

definition validate_payload :: "store \<Rightarrow> Payload \<Rightarrow> (StoreError, unit) result" where
  "validate_payload st p =
     and_then (check_that (length (pl_sessions p) \<le> MAX_SESSIONS) (Validation ''too many sessions'')) (\<lambda>_.
     and_then (check_that (length (pl_tunnels p) \<le> MAX_TUNNELS) (Validation ''too many tunnels'')) (\<lambda>_.
     and_then (check_that (length (pl_credentials p) \<le> MAX_CREDENTIALS) (Validation ''too many credentials'')) (\<lambda>_.
     and_then (check_sessions [] (pl_sessions p)) (\<lambda>_.
     and_then (check_tunnels [] (pl_tunnels p)) (\<lambda>_.
     and_then (check_creds [] (pl_credentials p)) (\<lambda>_.
     let ids = map sr_id (st_sessions st) @ map sr_id (pl_sessions p)
     in and_then (check_refs ids td_session_id ''tunnel of an unknown session '' (pl_tunnels p)) (\<lambda>_.
        check_refs ids ce_session_id ''credential of an unknown session '' (pl_credentials p))))))))"

subsection \<open>Decoding\<close>

definition within :: "'a::linorder \<Rightarrow> 'a \<Rightarrow> 'a \<Rightarrow> bool" where
  "within lo hi x \<longleftrightarrow> lo \<le> x \<and> x \<le> hi"

text \<open>The parameters of an encrypted envelope are checked before any key is derived.\<close>

definition kdf_in_bounds :: "u32 \<Rightarrow> u32 \<Rightarrow> u32 \<Rightarrow> u8 list \<Rightarrow> bool" where
  "kdf_in_bounds m t p salt \<longleftrightarrow>
     within ARGON2_M_MIN_KIB ARGON2_M_MAX_KIB m \<and> within ARGON2_T_MIN ARGON2_T_MAX t \<and> within ARGON2_P_MIN ARGON2_P_MAX p \<and>
     within SALT_MIN_BYTES SALT_MAX_BYTES (length salt)"

definition decrypt_payload :: "crates \<Rightarrow> formats \<Rightarrow> Envelope \<Rightarrow> u8 list option \<Rightarrow> (StoreError, Payload) result" where
  "decrypt_payload cx fm env passphrase =
     and_then (ok_or (Corrupt ''a passphrase is needed'') passphrase) (\<lambda>pass.
     and_then (ok_or (Corrupt ''no KDF parameters'') (ev_kdf env)) (\<lambda>kdf.
     and_then (check_that (kd_algo kdf = ''argon2id'') (Corrupt (''unknown KDF '' @ kd_algo kdf))) (\<lambda>_.
     and_then (check_that (within ARGON2_M_MIN_KIB ARGON2_M_MAX_KIB (kd_m_kib kdf)) (Validation ''KDF memory'')) (\<lambda>_.
     and_then (check_that (within ARGON2_T_MIN ARGON2_T_MAX (kd_t kdf)) (Validation ''KDF iterations'')) (\<lambda>_.
     and_then (check_that (within ARGON2_P_MIN ARGON2_P_MAX (kd_p kdf)) (Validation ''KDF parallelism'')) (\<lambda>_.
     and_then (b64dec cx (kd_salt kdf)) (\<lambda>salt.
     and_then (check_that (within SALT_MIN_BYTES SALT_MAX_BYTES (length salt)) (Validation ''length of the salt'')) (\<lambda>_.
     and_then (ok_or (Corrupt ''no nonce'') (ev_nonce env)) (\<lambda>n.
     and_then (b64dec cx n) (\<lambda>nonce.
     and_then (check_that (length nonce = NONCE_BYTES) (Validation ''length of the nonce'')) (\<lambda>_.
     and_then (ok_or (Corrupt ''not a ciphertext'') (as_str (ev_data env))) (\<lambda>d.
     and_then (b64dec cx d) (\<lambda>blob.
     and_then (derive_key cx pass salt (kd_m_kib kdf) (kd_t kdf) (kd_p kdf)) (\<lambda>key.
     and_then (gcm_key key) (\<lambda>_.
     and_then (gcm_nonce nonce) (\<lambda>_.
     and_then (map_err (\<lambda>_. Corrupt ''wrong passphrase or damaged data'') (cx_decrypt cx key nonce blob)) (\<lambda>plain.
     and_then (check_that (length plain \<le> MAX_PAYLOAD_BYTES) (Validation ''payload too long'')) (\<lambda>_.
     map_err Corrupt (fm_from_slice fm plain)))))))))))))))))))"

definition read_payload :: "crates \<Rightarrow> formats \<Rightarrow> string \<Rightarrow> u8 list option \<Rightarrow> (StoreError, Payload) result" where
  "read_payload cx fm src passphrase =
     and_then (check_that (length src \<le> MAX_ENVELOPE_BYTES) (Validation ''envelope too long'')) (\<lambda>_.
     and_then (map_err (\<lambda>e. Corrupt (''envelope: '' @ e)) (fm_from_text fm src)) (\<lambda>env.
     and_then (check_that (ev_app env = ''myssh'' \<and> ev_v env = 1) (Corrupt ''not a mySSH v1 envelope'')) (\<lambda>_.
     if ev_encrypted env then decrypt_payload cx fm env passphrase
     else map_err Corrupt (fm_from_value fm (ev_data env)))))"

subsection \<open>Writing\<close>

definition import_cred :: "crates \<Rightarrow> CredEntry \<Rightarrow> (StoreError, string \<times> CredentialKind \<times> u8 list) result" where
  "import_cred cx c =
     and_then (cred_kind_parse (ce_kind c)) (\<lambda>kind.
     and_then (b64dec cx (ce_secret c)) (\<lambda>secret.
     and_then (protect cx secret) (\<lambda>blob. Ok (ce_session_id c, kind, blob))))"

fun write_all :: "('a \<Rightarrow> 's \<Rightarrow> ('e, unit) result \<times> 's) \<Rightarrow> 'a list \<Rightarrow> 's \<Rightarrow> ('e, unit) result \<times> 's" where
  "write_all f [] s = (Ok (), s)"
| "write_all f (x # xs) s = (case f x s of (Inl e, s) \<Rightarrow> (Err e, s) | (Inr _, s) \<Rightarrow> write_all f xs s)"

definition session_upsert_tx :: "string \<Rightarrow> SessionRecord \<Rightarrow> tunnel_db \<Rightarrow> (StoreError, unit) result \<times> tunnel_db" where
  "session_upsert_tx now rec db = (Ok (), db\<lparr>db_store := snd (session_upsert now rec (db_store db))\<rparr>)"

definition put_blob_tx :: "string \<times> CredentialKind \<times> u8 list \<Rightarrow> tunnel_db \<Rightarrow> (StoreError, unit) result \<times> tunnel_db" where
  "put_blob_tx c db = (case put_blob_row c (db_store db) of (r, st) \<Rightarrow> (r, db\<lparr>db_store := st\<rparr>))"

definition import_tx ::
  "string \<Rightarrow> Payload \<Rightarrow> (string \<times> CredentialKind \<times> u8 list) list \<Rightarrow> tunnel_db \<Rightarrow> (StoreError, unit) result \<times> tunnel_db" where
  "import_tx now p creds db =
     (case write_all (session_upsert_tx now) (pl_sessions p) db of
        (Inl e, _) \<Rightarrow> (Err e, db)
      | (Inr _, tx) \<Rightarrow>
          (case write_all (tunnel_upsert now) (pl_tunnels p) tx of
             (Inl e, _) \<Rightarrow> (Err e, db)
           | (Inr _, tx) \<Rightarrow>
               (case write_all put_blob_tx creds tx of
                  (Inl e, _) \<Rightarrow> (Err e, db)
                | (Inr _, tx) \<Rightarrow> (Ok (), tx))))"

definition import_config ::
  "crates \<Rightarrow> formats \<Rightarrow> string \<Rightarrow> string \<Rightarrow> u8 list option \<Rightarrow> tunnel_db \<Rightarrow> (StoreError, ConfigImportOutcome) result \<times> tunnel_db" where
  "import_config cx fm now src passphrase db =
     (case and_then (read_payload cx fm src passphrase) (\<lambda>p.
           and_then (validate_payload (db_store db) p) (\<lambda>_.
           and_then (try_map (import_cred cx) (pl_credentials p)) (\<lambda>creds. Ok (p, creds)))) of
        Inl e \<Rightarrow> (Err e, db)
      | Inr (p, creds) \<Rightarrow>
          (case import_tx now p creds db of
             (Inl e, db) \<Rightarrow> (Err e, db)
           | (Inr _, db) \<Rightarrow>
               (Ok \<lparr>io_sessions = length (pl_sessions p), io_tunnels = length (pl_tunnels p), io_credentials = length creds\<rparr>, db)))"

section \<open>Commands\<close>

text \<open>\<open>disk\<close> is the file system and the clock of one command.\<close>

record disk =
  dk_dir :: "string option"
  dk_mkdir :: "string \<Rightarrow> (string, unit) result"
  dk_secs :: nat
  dk_write :: "string \<Rightarrow> string \<Rightarrow> (string, unit) result"
  dk_read :: "string \<Rightarrow> (string, string) result"

definition cred_set :: "crates \<Rightarrow> string \<Rightarrow> CredentialKind \<Rightarrow> string \<Rightarrow> 'c app \<Rightarrow> (string, unit) result \<times> 'c app" where
  "cred_set cx i k secret a =
     (case cred_put cx i k (ascii_bytes secret) (db_store (ap_db a)) of
        (r, st) \<Rightarrow> (map_err store_error_str r, set_db ((ap_db a)\<lparr>db_store := st\<rparr>) a))"

definition cred_delete :: "string \<Rightarrow> CredentialKind option \<Rightarrow> 'c app \<Rightarrow> (string, unit) result \<times> 'c app" where
  "cred_delete i k a = (Ok (), set_db ((ap_db a)\<lparr>db_store := cred_delete_row i k (db_store (ap_db a))\<rparr>) a)"

definition export_text :: "crates \<Rightarrow> formats \<Rightarrow> bool \<Rightarrow> string option \<Rightarrow> tunnel_db \<Rightarrow> (string, string) result" where
  "export_text cx fm encrypted passphrase db =
     (let pass = (case passphrase of None \<Rightarrow> [] | Some p \<Rightarrow> p)
      in if encrypted \<and> pass = [] then Err ''a passphrase is needed''
         else map_err store_error_str (if encrypted then export_encrypted cx fm db (ascii_bytes pass) else export_plain fm db))"

definition config_export ::
  "tunnel_env \<Rightarrow> crates \<Rightarrow> formats \<Rightarrow> disk \<Rightarrow> bool \<Rightarrow> string option \<Rightarrow> 'c app \<Rightarrow> (string, string) result \<times> 'c app" where
  "config_export env cx fm dk encrypted passphrase a =
     (case and_then (export_text cx fm encrypted passphrase (ap_db a)) (\<lambda>out.
           and_then (ok_or ''no directory for exports'' (dk_dir dk)) (\<lambda>dir.
           and_then (dk_mkdir dk dir) (\<lambda>_.
           let path = dir @ ''/myssh-config-'' @ show_nat (dk_secs dk) @ ''.json''
           in and_then (dk_write dk path out) (\<lambda>_. Ok path)))) of
        Inl e \<Rightarrow> (Err e, a)
      | Inr path \<Rightarrow>
          (Ok path, set_db (audit env None ''config_export''
             [(''path'', path), (''encrypted'', if encrypted then ''true'' else ''false'')] (ap_db a)) a))"

definition config_import ::
  "tunnel_env \<Rightarrow> crates \<Rightarrow> formats \<Rightarrow> disk \<Rightarrow> string \<Rightarrow> string option \<Rightarrow> 'c app \<Rightarrow> (string, ConfigImportOutcome) result \<times> 'c app" where
  "config_import env cx fm dk path passphrase a =
     (case dk_read dk path of
        Inl e \<Rightarrow> (Err e, a)
      | Inr src \<Rightarrow>
          (case import_config cx fm (en_now env) src (map_option ascii_bytes passphrase) (ap_db a) of
             (Inl e, db) \<Rightarrow> (Err (store_error_str e), set_db db a)
           | (Inr out, db) \<Rightarrow>
               (Ok out, set_db (audit env None ''config_import''
                  [(''path'', path), (''sessions'', show_nat (io_sessions out)), (''tunnels'', show_nat (io_tunnels out)),
                   (''credentials'', show_nat (io_credentials out))] db) a)))"

section \<open>Results in chains\<close>

lemma and_then_simps [simp]: "and_then (Ok x) f = f x" "and_then (Err e) f = Err e"
  by (simp_all add: and_then_def)

lemma and_then_Ok_iff: "and_then r f = Ok y \<longleftrightarrow> (\<exists>x. r = Ok x \<and> f x = Ok y)"
  by (cases r) auto

lemma and_then_unit_Ok_iff: "and_then (r :: ('e, unit) result) f = Ok y \<longleftrightarrow> r = Ok () \<and> f () = Ok y"
  by (cases r) auto

lemma map_err_simps [simp]: "map_err f (Ok x) = Ok x" "map_err f (Err e) = Err (f e)"
  by (simp_all add: map_err_def)

lemma map_err_Ok_iff [simp]: "map_err f r = Ok x \<longleftrightarrow> r = Ok x"
  by (cases r) auto

lemma ok_or_Ok_iff [simp]: "ok_or e x = Ok a \<longleftrightarrow> x = Some a"
  by (simp add: ok_or_def split: option.split)

lemma ok_or_Some [simp]: "ok_or e (Some a) = Ok a"
  by simp

lemma check_that_Ok_iff [simp]: "check_that b e = Ok u \<longleftrightarrow> b"
  by (simp add: check_that_def)

lemma check_that_True [simp]: "check_that True e = Ok ()"
  by simp

lemma try_map_Ok_iff: "try_map f xs = Ok ys \<longleftrightarrow> list_all2 (\<lambda>x y. f x = Ok y) xs ys"
proof (induction xs arbitrary: ys)
  case (Cons x xs)
  then show ?case by (cases ys) (auto simp: and_then_Ok_iff)
qed auto

lemma try_map_map: "try_map f (map g xs) = try_map (\<lambda>x. f (g x)) xs"
  by (induction xs) auto

text \<open>The errors that a chain can give: those of its links.\<close>

definition no_query :: "(StoreError, 'a) result \<Rightarrow> bool" where
  "no_query r \<longleftrightarrow> (case r of Inl (StoreQuery _) \<Rightarrow> False | _ \<Rightarrow> True)"

lemma no_query_simps [simp]:
  "no_query (Ok x)" "no_query (Err (Corrupt m))" "no_query (Err (Validation m))" "no_query (Err (Crypto m))"
  by (simp_all add: no_query_def)

lemma no_query_Err: "no_query (Err e) \<longleftrightarrow> (\<forall>m. e \<noteq> StoreQuery m)"
  by (cases e) (simp_all add: no_query_def)

lemma no_query_and_then [simp, intro]: "no_query r \<Longrightarrow> (\<And>x. r = Ok x \<Longrightarrow> no_query (f x)) \<Longrightarrow> no_query (and_then r f)"
  by (cases r) (simp_all add: no_query_def)

lemma no_query_map_err [simp]: "(\<And>e. no_query (Err (f e) :: (StoreError, 'a) result)) \<Longrightarrow> no_query (map_err f (r :: ('e, 'a) result))"
  by (cases r) simp_all

lemma no_query_ok_or [simp]: "no_query (Err e :: (StoreError, 'a) result) \<Longrightarrow> no_query (ok_or e (x :: 'a option))"
  by (cases x) (simp_all add: ok_or_def)

lemma no_query_check_that [simp]: "no_query (Err e :: (StoreError, unit) result) \<Longrightarrow> no_query (check_that b e)"
  by (simp add: check_that_def)

lemma no_query_try_map: "(\<And>x. no_query (f x)) \<Longrightarrow> no_query (try_map f xs)"
  by (induction xs) auto

section \<open>The vault stays sound\<close>

definition cred_key :: "string \<times> CredentialKind \<times> u8 list \<Rightarrow> string \<times> CredentialKind" where
  "cred_key c = (fst c, fst (snd c))"

lemma cred_key_simps [simp]: "cred_key (i, k, b) = (i, k)"
  by (simp add: cred_key_def)

definition vault_ok :: "store \<Rightarrow> bool" where
  "vault_ok st \<longleftrightarrow>
     distinct (map sr_id (st_sessions st)) \<and> distinct (map cred_key (st_creds st)) \<and> (\<forall>c \<in> set (st_creds st). has_session st (fst c))"

lemma has_session_iff: "has_session st i \<longleftrightarrow> i \<in> sr_id ` set (st_sessions st)"
  by (auto simp: has_session_def list_ex_iff)

lemma ids_map_if [simp]: "(\<And>r. sr_id (f r) = sr_id r) \<Longrightarrow> map (sr_id \<circ> (\<lambda>r. if P r then f r else r)) rs = map sr_id rs"
  by (induction rs) auto

lemma session_upsert_ids:
  "map sr_id (st_sessions (snd (session_upsert now rec st))) =
     (if has_session st (sr_id rec) then map sr_id (st_sessions st) else map sr_id (st_sessions st) @ [sr_id rec])"
proof -
  have "map (sr_id \<circ> (\<lambda>r. if sr_id r = sr_id rec then rec\<lparr>sr_created_at := sr_created_at r, sr_updated_at := now\<rparr> else r)) rs = map sr_id rs" for rs
    by (induction rs) auto
  then show ?thesis by (simp add: session_upsert_def Let_def has_session_def)
qed

lemma session_upsert_creds [simp]: "st_creds (snd (session_upsert now rec st)) = st_creds st"
  by (simp add: session_upsert_def Let_def)

lemma has_session_upsert [simp]: "has_session (snd (session_upsert now rec st)) i \<longleftrightarrow> i = sr_id rec \<or> has_session st i"
proof -
  have "set (map sr_id (st_sessions (snd (session_upsert now rec st)))) = insert (sr_id rec) (set (map sr_id (st_sessions st)))"
    unfolding session_upsert_ids by (auto simp: has_session_iff)
  then show ?thesis by (auto simp: has_session_iff simp flip: set_map)
qed

lemma vault_ok_upsert: "vault_ok st \<Longrightarrow> vault_ok (snd (session_upsert now rec st))"
  by (simp add: vault_ok_def session_upsert_ids) (simp add: has_session_iff)

lemma vault_ok_same_ids:
  assumes "map sr_id (st_sessions st') = map sr_id (st_sessions st)" "st_creds st' = st_creds st"
  shows "vault_ok st' = vault_ok st"
proof -
  have "has_session st' i = has_session st i" for i
    using arg_cong [OF assms(1), of set] by (auto simp: has_session_iff)
  with assms show ?thesis by (simp add: vault_ok_def)
qed

lemma has_session_delete_rows:
  "has_session st i \<Longrightarrow> i \<notin> sr_id ` {r \<in> set (st_sessions st). P r} \<Longrightarrow> has_session (delete_rows P st) i"
  by (force simp: has_session_iff delete_rows_def Let_def)

lemma vault_ok_delete_rows: "vault_ok st \<Longrightarrow> vault_ok (delete_rows P st)"
  using has_session_delete_rows [of st _ P]
  by (auto simp: vault_ok_def delete_rows_def Let_def distinct_map_filter)

lemma update_paths_store:
  "map sr_id (st_sessions (snd (update_paths now P f st))) = map sr_id (st_sessions st)"
  "st_creds (snd (update_paths now P f st)) = st_creds st"
  by (simp_all add: update_paths_def)

lemma vault_ok_update_paths [simp]: "vault_ok (snd (update_paths now P f st)) = vault_ok st"
  by (rule vault_ok_same_ids) (rule update_paths_store)+

lemma vault_ok_move_rows [simp]: "vault_ok (snd (move_rows now g ids st)) = vault_ok st"
proof (induction ids arbitrary: st)
  case (Cons i ids)
  have "vault_ok (st\<lparr>st_sessions := map (\<lambda>r. if sr_id r = i then r\<lparr>sr_group_path := g, sr_updated_at := now\<rparr> else r) (st_sessions st)\<rparr>) = vault_ok st"
    by (rule vault_ok_same_ids) simp_all
  with Cons show ?case by (simp add: Let_def case_prod_unfold)
qed simp

lemma vault_ok_session_delete: "vault_ok st \<Longrightarrow> vault_ok (snd (session_delete i st))"
  by (simp add: session_delete_def vault_ok_delete_rows)

lemma vault_ok_group_rename: "vault_ok st \<Longrightarrow> vault_ok (snd (group_rename now old new st))"
  by (simp add: group_rename_def case_prod_unfold Let_def split: sum.split)

lemma vault_ok_group_delete: "vault_ok st \<Longrightarrow> vault_ok (snd (group_delete now path b st))"
  by (simp add: group_delete_def case_prod_unfold Let_def vault_ok_delete_rows split: sum.split)

lemma vault_ok_move: "vault_ok st \<Longrightarrow> vault_ok (snd (move_to_group now ids g st))"
  by (simp add: move_to_group_def case_prod_unfold Let_def split: sum.split)

lemmas vault_ok_statements = vault_ok_upsert vault_ok_session_delete vault_ok_group_rename vault_ok_group_delete vault_ok_move

text \<open>Statements on credentials.\<close>

lemma put_blob_row_sessions [simp]: "st_sessions (snd (put_blob_row c st)) = st_sessions st"
  by (simp add: put_blob_row_def split: prod.split)

lemma has_session_put [simp]: "has_session (snd (put_blob_row c st)) i = has_session st i"
  by (simp add: has_session_def)

lemma put_blob_row_fst: "fst (put_blob_row c st) = (if has_session st (fst c) then Ok () else Err (StoreQuery ''FOREIGN KEY constraint failed''))"
  by (simp add: put_blob_row_def split: prod.split)

lemma put_blob_row_keys:
  "map cred_key (st_creds (snd (put_blob_row c st))) =
     (if \<not> has_session st (fst c) \<or> cred_key c \<in> cred_key ` set (st_creds st) then map cred_key (st_creds st)
      else map cred_key (st_creds st) @ [cred_key c])"
proof -
  obtain i k b where c: "c = (i, k, b)" by (cases c)
  have "cred_key \<circ> (\<lambda>(j, l, b'). (j, l, if j = i \<and> l = k then b else b')) = cred_key"
    by (rule ext) (simp add: cred_key_def case_prod_unfold)
  then have "map (cred_key \<circ> (\<lambda>(j, l, b'). (j, l, if j = i \<and> l = k then b else b'))) cs = map cred_key cs" for cs by simp
  moreover have "list_ex (\<lambda>(j, l, _). j = i \<and> l = k) cs \<longleftrightarrow> (i, k) \<in> cred_key ` set cs" for cs
    by (force simp: list_ex_iff)
  ultimately show ?thesis by (simp add: put_blob_row_def c)
qed

lemma vault_ok_keys:
  "vault_ok st \<longleftrightarrow> distinct (map sr_id (st_sessions st)) \<and> distinct (map cred_key (st_creds st)) \<and>
     (\<forall>q \<in> set (map cred_key (st_creds st)). has_session st (fst q))"
  by (simp add: vault_ok_def cred_key_def)

lemma vault_ok_put: "vault_ok st \<Longrightarrow> vault_ok (snd (put_blob_row c st))"
  unfolding vault_ok_keys put_blob_row_keys put_blob_row_sessions has_session_put
  by (auto simp: cred_key_def)

lemma vault_ok_cred_delete: "vault_ok st \<Longrightarrow> vault_ok (cred_delete_row i k st)"
  by (auto simp: vault_ok_def cred_delete_row_def has_session_def distinct_map_filter split: option.split)

section \<open>A checked import commits\<close>

lemma check_sessions_Ok_iff:
  "check_sessions seen ss = Ok u \<longleftrightarrow>
     distinct (map sr_id ss) \<and> set seen \<inter> sr_id ` set ss = {} \<and> (\<forall>s \<in> set ss. trim (sr_id s) \<noteq> [])"
  by (induction seen ss rule: check_sessions.induct) auto

lemma check_tunnels_Ok_iff:
  "check_tunnels seen ts = Ok u \<longleftrightarrow>
     distinct (map td_id ts) \<and> set seen \<inter> td_id ` set ts = {} \<and> (\<forall>t \<in> set ts. validate_tunnel t = Ok ())"
  by (induction seen ts rule: check_tunnels.induct) (auto split: sum.split)

lemma check_creds_Ok_iff:
  "check_creds seen cs = Ok u \<longleftrightarrow>
     distinct (map (\<lambda>c. (ce_session_id c, ce_kind c)) cs) \<and> set seen \<inter> (\<lambda>c. (ce_session_id c, ce_kind c)) ` set cs = {}"
  by (induction seen cs rule: check_creds.induct) auto

lemma check_refs_Ok_iff: "check_refs ids f msg xs = Ok u \<longleftrightarrow> f ` set xs \<subseteq> set ids"
proof (cases "find (\<lambda>x. f x \<notin> set ids) xs")
  case None
  then have "f ` set xs \<subseteq> set ids" by (auto simp: find_None_iff)
  with None show ?thesis by (simp add: check_refs_def)
next
  case (Some x)
  then have "x \<in> set xs" "f x \<notin> set ids" by (auto simp: find_Some_iff)
  with Some show ?thesis by (auto simp: check_refs_def)
qed

lemma validate_payload_Ok_iff:
  "validate_payload st p = Ok () \<longleftrightarrow>
     length (pl_sessions p) \<le> MAX_SESSIONS \<and> length (pl_tunnels p) \<le> MAX_TUNNELS \<and> length (pl_credentials p) \<le> MAX_CREDENTIALS \<and>
     check_sessions [] (pl_sessions p) = Ok () \<and> check_tunnels [] (pl_tunnels p) = Ok () \<and> check_creds [] (pl_credentials p) = Ok () \<and>
     td_session_id ` set (pl_tunnels p) \<subseteq> set (map sr_id (st_sessions st) @ map sr_id (pl_sessions p)) \<and>
     ce_session_id ` set (pl_credentials p) \<subseteq> set (map sr_id (st_sessions st) @ map sr_id (pl_sessions p))"
  unfolding validate_payload_def Let_def and_then_unit_Ok_iff check_that_Ok_iff check_refs_Ok_iff by simp

lemma validate_payload_refs:
  assumes "validate_payload st p = Ok ()"
  shows "td_session_id ` set (pl_tunnels p) \<subseteq> set (map sr_id (st_sessions st) @ map sr_id (pl_sessions p))"
    and "ce_session_id ` set (pl_credentials p) \<subseteq> set (map sr_id (st_sessions st) @ map sr_id (pl_sessions p))"
    and "\<forall>t \<in> set (pl_tunnels p). validate_tunnel t = Ok ()"
  using assms unfolding validate_payload_Ok_iff check_tunnels_Ok_iff by blast+

text \<open>
  A statement that is run for each row of a list in one transaction: when its guard holds in a
  sound state, it succeeds, leaves a sound state, keeps the sessions that others refer to, and
  establishes its postcondition.
\<close>

locale guarded_write =
  fixes f :: "'a \<Rightarrow> 's \<Rightarrow> ('e, unit) result \<times> 's"
    and guard :: "'a \<Rightarrow> 's \<Rightarrow> bool" and post :: "'a \<Rightarrow> 's \<Rightarrow> bool"
    and sound :: "'s \<Rightarrow> bool" and keeps :: "'s \<Rightarrow> 's \<Rightarrow> bool"
  assumes writes: "sound s \<Longrightarrow> guard x s \<Longrightarrow> \<exists>s'. f x s = (Ok (), s') \<and> sound s' \<and> keeps s s' \<and> post x s'"
    and stable: "keeps s s' \<Longrightarrow> guard x s \<Longrightarrow> guard x s'"
    and post_stable: "keeps s s' \<Longrightarrow> post x s \<Longrightarrow> post x s'"
    and keeps_refl: "keeps s s"
    and keeps_trans: "keeps s s' \<Longrightarrow> keeps s' s'' \<Longrightarrow> keeps s s''"
begin

lemma commits:
  "sound s \<Longrightarrow> \<forall>x \<in> set xs. guard x s \<Longrightarrow>
   \<exists>s'. write_all f xs s = (Ok (), s') \<and> sound s' \<and> keeps s s' \<and> (\<forall>x \<in> set xs. post x s')"
proof (induction xs arbitrary: s)
  case Nil
  then show ?case by (simp add: keeps_refl)
next
  case (Cons x xs)
  from Cons.prems have "guard x s" by simp
  from writes [OF Cons.prems(1) this]
  obtain s1 where s1: "f x s = (Ok (), s1)" "sound s1" "keeps s s1" "post x s1" by blast
  from Cons.prems(2) have "\<forall>y \<in> set xs. guard y s1" by (simp add: stable [OF s1(3)])
  from Cons.IH [OF s1(2) this]
  obtain s2 where s2: "write_all f xs s1 = (Ok (), s2)" "sound s2" "keeps s1 s2" "\<forall>y \<in> set xs. post y s2" by blast
  from keeps_trans [OF s1(3) s2(3)] post_stable [OF s2(3) s1(4)] s1(1) s2 show ?case by simp
qed

end

definition db_sound :: "tunnel_db \<Rightarrow> bool" where
  "db_sound db \<longleftrightarrow> defs_ok db \<and> vault_ok (db_store db)"

definition keeps_sessions :: "tunnel_db \<Rightarrow> tunnel_db \<Rightarrow> bool" where
  "keeps_sessions db db' \<longleftrightarrow> (\<forall>i. has_session (db_store db) i \<longrightarrow> has_session (db_store db') i)"

declare tunnel_upsert_store [simp]

lemma tunnel_upsert_Ok:
  "validate_tunnel t = Ok () \<Longrightarrow> has_session (db_store db) (td_session_id t) \<Longrightarrow> fst (tunnel_upsert now t db) = Ok ()"
  by (simp add: tunnel_upsert_def tunnel_upsert_row_def has_session_def)

lemma defs_ok_store: "defs_ok db \<Longrightarrow> (\<And>i. has_session (db_store db) i \<Longrightarrow> has_session st i) \<Longrightarrow> defs_ok (db\<lparr>db_store := st\<rparr>)"
  by (auto simp: defs_ok_def)

interpretation session_writes: guarded_write "session_upsert_tx now" "\<lambda>_ _. True" "\<lambda>rec db. has_session (db_store db) (sr_id rec)"
    db_sound keeps_sessions for now
  by unfold_locales (auto simp: session_upsert_tx_def db_sound_def keeps_sessions_def vault_ok_upsert intro: defs_ok_store)

interpretation tunnel_writes: guarded_write "tunnel_upsert now"
    "\<lambda>t db. validate_tunnel t = Ok () \<and> has_session (db_store db) (td_session_id t)" "\<lambda>_ _. True" db_sound keeps_sessions for now
proof (unfold_locales, goal_cases)
  case (1 db t)
  obtain db' where t: "tunnel_upsert now t db = (Ok (), db')"
    using tunnel_upsert_Ok [of t db now] 1 by (cases "tunnel_upsert now t db") auto
  with 1 tunnel_upsert_store [of now t db] defs_ok_upsert [of db now t] show ?case
    by (auto simp: db_sound_def keeps_sessions_def)
qed (auto simp: keeps_sessions_def)

interpretation cred_writes: guarded_write put_blob_tx "\<lambda>c db. has_session (db_store db) (fst c)" "\<lambda>_ _. True" db_sound keeps_sessions
proof (unfold_locales, goal_cases)
  case (1 db c)
  obtain st where p: "put_blob_row c (db_store db) = (Ok (), st)"
    using put_blob_row_fst [of c "db_store db"] 1(2) by (cases "put_blob_row c (db_store db)") auto
  with has_session_put [of c "db_store db"] have "has_session st i = has_session (db_store db) i" for i by simp
  with 1 p vault_ok_put [of "db_store db" c] show ?case
    by (auto simp: put_blob_tx_def db_sound_def keeps_sessions_def intro: defs_ok_store)
qed (auto simp: keeps_sessions_def)

lemma import_cred_Ok_iff:
  "import_cred cx c = Ok (i, k, blob) \<longleftrightarrow>
     i = ce_session_id c \<and> cred_kind_parse (ce_kind c) = Ok k \<and> (\<exists>s. b64dec cx (ce_secret c) = Ok s \<and> protect cx s = Ok blob)"
  by (auto simp: import_cred_def and_then_Ok_iff)

lemma import_creds_sessions:
  assumes "try_map (import_cred cx) cs = Ok creds"
  shows "map fst creds = map ce_session_id cs"
proof -
  from assms have "list_all2 (\<lambda>c d. import_cred cx c = Ok d) cs creds" by (simp add: try_map_Ok_iff)
  then show ?thesis by induction (auto simp: import_cred_Ok_iff)
qed

text \<open>Nothing that the transaction writes can fail once the payload is checked.\<close>

lemma import_tx_commits:
  assumes "db_sound db" "validate_payload (db_store db) p = Ok ()" "map fst creds = map ce_session_id (pl_credentials p)"
  obtains db' where "import_tx now p creds db = (Ok (), db')" "db_sound db'" "keeps_sessions db db'"
    "\<forall>s \<in> set (pl_sessions p). has_session (db_store db') (sr_id s)"
proof -
  obtain d1 where d1: "write_all (session_upsert_tx now) (pl_sessions p) db = (Ok (), d1)" "db_sound d1" "keeps_sessions db d1"
    "\<forall>s \<in> set (pl_sessions p). has_session (db_store d1) (sr_id s)"
    using session_writes.commits [OF assms(1), of "pl_sessions p" now] by auto
  then have known: "i \<in> set (map sr_id (st_sessions (db_store db)) @ map sr_id (pl_sessions p)) \<Longrightarrow> has_session (db_store d1) i" for i
    by (auto simp: keeps_sessions_def has_session_iff)
  have "\<forall>t \<in> set (pl_tunnels p). validate_tunnel t = Ok () \<and> has_session (db_store d1) (td_session_id t)"
    using validate_payload_refs(1,3) [OF assms(2)] known by blast
  with d1(2) obtain d2 where d2: "write_all (tunnel_upsert now) (pl_tunnels p) d1 = (Ok (), d2)" "db_sound d2" "keeps_sessions d1 d2"
    using tunnel_writes.commits by meson
  have "fst c \<in> ce_session_id ` set (pl_credentials p)" if "c \<in> set creds" for c
    using that arg_cong [OF assms(3), of set] by auto
  moreover have "ce_session_id ` set (pl_credentials p) \<subseteq> {i. has_session (db_store d2) i}"
    using validate_payload_refs(2) [OF assms(2)] known d2(3) unfolding keeps_sessions_def by blast
  ultimately have "\<forall>c \<in> set creds. has_session (db_store d2) (fst c)" by blast
  with d2(2) obtain d3 where d3: "write_all put_blob_tx creds d2 = (Ok (), d3)" "db_sound d3" "keeps_sessions d2 d3"
    using cred_writes.commits by meson
  show ?thesis
  proof (rule that)
    show "import_tx now p creds db = (Ok (), d3)" by (simp add: import_tx_def d1 d2 d3)
    show "keeps_sessions db d3" using d1 d2 d3 by (simp add: keeps_sessions_def)
    show "\<forall>s \<in> set (pl_sessions p). has_session (db_store d3) (sr_id s)" using d1 d2 d3 by (simp add: keeps_sessions_def)
  qed (rule d3)
qed

lemma no_query_validate: "no_query (validate_payload st p)"
proof -
  have "no_query (check_sessions seen ss)" for seen ss by (induction seen ss rule: check_sessions.induct) auto
  moreover have "no_query (validate_tunnel t)" for t by (simp add: validate_tunnel_def split: option.split prod.split)
  then have "validate_tunnel t = Err e \<Longrightarrow> no_query (Err e :: (StoreError, unit) result)" for t e by metis
  then have "no_query (check_tunnels seen ts)" for seen ts
    by (induction seen ts rule: check_tunnels.induct) (auto split: sum.split)
  moreover have "no_query (check_creds seen cs)" for seen cs by (induction seen cs rule: check_creds.induct) auto
  moreover have "no_query (check_refs ids f msg xs)" for ids f msg and xs :: "'x list" by (simp add: check_refs_def split: option.split)
  ultimately show ?thesis by (auto simp: validate_payload_def Let_def check_refs_def split: option.split)
qed

lemma no_query_read: "no_query (read_payload cx fm src pass)"
  by (auto simp: read_payload_def decrypt_payload_def b64dec_def derive_key_def gcm_key_def gcm_nonce_def)

lemma no_query_import_cred: "no_query (import_cred cx c)"
  by (auto simp: import_cred_def cred_kind_parse_def b64dec_def protect_def)

lemma import_config_cases [consumes 1, case_names refused imported]:
  assumes "db_sound db"
  obtains (refused) e where "import_config cx fm now src pass db = (Err e, db)" "\<forall>m. e \<noteq> StoreQuery m"
    | (imported) p creds db' where "read_payload cx fm src pass = Ok p" "validate_payload (db_store db) p = Ok ()"
        "try_map (import_cred cx) (pl_credentials p) = Ok creds" "import_tx now p creds db = (Ok (), db')"
        "import_config cx fm now src pass db =
           (Ok \<lparr>io_sessions = length (pl_sessions p), io_tunnels = length (pl_tunnels p), io_credentials = length creds\<rparr>, db')"
        "db_sound db'" "keeps_sessions db db'" "\<forall>s \<in> set (pl_sessions p). has_session (db_store db') (sr_id s)"
proof (cases "and_then (read_payload cx fm src pass) (\<lambda>p. and_then (validate_payload (db_store db) p) (\<lambda>_.
    and_then (try_map (import_cred cx) (pl_credentials p)) (\<lambda>creds. Ok (p, creds))))")
  case (Inl e)
  have "no_query (Err e :: (StoreError, Payload \<times> (string \<times> CredentialKind \<times> u8 list) list) result)"
    unfolding Inl [symmetric]
    by (intro no_query_and_then no_query_read no_query_validate no_query_try_map no_query_import_cred) simp
  with Inl show ?thesis by (intro refused) (simp_all add: import_config_def no_query_Err)
next
  case (Inr x)
  obtain p creds where x: "x = (p, creds)" by fastforce
  from Inr x have p: "read_payload cx fm src pass = Ok p" "validate_payload (db_store db) p = Ok ()"
    "try_map (import_cred cx) (pl_credentials p) = Ok creds" by (auto simp: and_then_Ok_iff)
  obtain db' where d: "import_tx now p creds db = (Ok (), db')" "db_sound db'" "keeps_sessions db db'"
    "\<forall>s \<in> set (pl_sessions p). has_session (db_store db') (sr_id s)"
    by (rule import_tx_commits [OF assms p(2) import_creds_sessions [OF p(3)]])
  from d(1) Inr x have "import_config cx fm now src pass db =
      (Ok \<lparr>io_sessions = length (pl_sessions p), io_tunnels = length (pl_tunnels p), io_credentials = length creds\<rparr>, db')"
    by (simp add: import_config_def)
  with p d show ?thesis by (intro imported)
qed


section \<open>The application with its vault\<close>

text \<open>The commands of this theory, next to all steps of the application.\<close>

inductive config_step :: "'c app \<Rightarrow> 'c app \<Rightarrow> bool" where
  cs_app: "app_step a a' \<Longrightarrow> config_step a a'"
| cs_cred_set: "config_step a (snd (cred_set cx i k secret a))"
| cs_cred_delete: "config_step a (snd (cred_delete i kind a))"
| cs_export: "config_step a (snd (config_export env cx fm dk encrypted pass a))"
| cs_import: "config_step a (snd (config_import env cx fm dk path pass a))"

lemma vault_ok_set_store [simp]: "db_store (set_store st db) = st"
  by (simp add: set_store_def)

lemma db_sound_audit [simp]: "db_sound (audit env sid action detail db) = db_sound db"
  by (simp add: db_sound_def)

lemma vault_ok_results:
  "vault_ok st \<Longrightarrow> session_upsert now rec st = (x, st1) \<Longrightarrow> vault_ok st1"
  "vault_ok st \<Longrightarrow> session_delete i st = (y, st2) \<Longrightarrow> vault_ok st2"
  "vault_ok st \<Longrightarrow> group_rename now old new st = (z, st3) \<Longrightarrow> vault_ok st3"
  "vault_ok st \<Longrightarrow> group_delete now path b st = (z, st4) \<Longrightarrow> vault_ok st4"
  "vault_ok st \<Longrightarrow> move_to_group now ids path st = (z, st5) \<Longrightarrow> vault_ok st5"
  using vault_ok_statements [of st] by (metis snd_conv)+

lemma vault_ok_step:
  assumes "app_step a a'" "vault_ok (db_store (ap_db a))"
  shows "vault_ok (db_store (ap_db a'))"
  using assms
proof (induction rule: app_step.induct)
  case (as_tunnel_save a env def)
  then show ?case by (cases rule: tunnel_save_parts [of env def "ap_world a"]) simp_all
next
  case (as_tunnel_delete a env i)
  have "db_store (snd (tunnel_delete_row i db)) = db_store db" for db by (simp add: tunnel_delete_row_def)
  with as_tunnel_delete tunnel_delete_parts(1) [of env i "ap_world a"] show ?case by auto
next
  case (as_tunnel_task env a a')
  then show ?case by (simp add: tunnel_task_db)
next
  case (as_sftp_task a a')
  then show ?case by (simp add: other_tasks_world)
next
  case (as_exec_task a a')
  then show ?case by (simp add: other_tasks_world)
qed (auto simp: session_cmds Let_def tunnel_start_parts tunnel_stop_parts dest: vault_ok_results split: prod.split sum.split if_splits)

lemma put_sound: "db_sound db \<Longrightarrow> db_sound (db\<lparr>db_store := snd (put_blob_row c (db_store db))\<rparr>)"
  by (simp add: db_sound_def vault_ok_put defs_ok_store)

lemma cred_set_sound: "db_sound (ap_db a) \<Longrightarrow> db_sound (ap_db (snd (cred_set cx i k secret a)))"
  using put_sound [of "ap_db a"] by (simp add: cred_set_def cred_put_def case_prod_unfold split: sum.split)

lemma cred_delete_sound: "db_sound (ap_db a) \<Longrightarrow> db_sound (ap_db (snd (cred_delete i kind a)))"
proof -
  have "has_session (cred_delete_row i kind st) j = has_session st j" for st j
    by (simp add: cred_delete_row_def has_session_def split: option.split)
  then show "db_sound (ap_db a) \<Longrightarrow> ?thesis"
    by (auto simp: cred_delete_def db_sound_def vault_ok_cred_delete intro: defs_ok_store)
qed

lemma config_export_sound: "db_sound (ap_db a) \<Longrightarrow> db_sound (ap_db (snd (config_export env cx fm dk encrypted pass a)))"
  by (simp add: config_export_def split: sum.split)

lemma config_import_sound: "db_sound (ap_db a) \<Longrightarrow> db_sound (ap_db (snd (config_import env cx fm dk path pass a)))"
proof (cases "dk_read dk path")
  case (Inr src)
  assume s: "db_sound (ap_db a)"
  then show ?thesis
    by (cases rule: import_config_cases [where cx = cx and fm = fm and now = "en_now env" and src = src and pass = "map_option ascii_bytes pass"])
      (simp_all add: config_import_def Inr s)
qed (simp add: config_import_def)

interpretation configuration: invariant_system app_init config_step "\<lambda>a. db_sound (ap_db a)"
proof (unfold_locales, goal_cases)
  case (1 a)
  then show ?case by (simp add: app_init_def db_sound_def defs_ok_def vault_ok_def)
next
  case (2 a a')
  from 2(2,1) show ?case
  proof (induction rule: config_step.induct)
    case (cs_app a a')
    then show ?case by (simp add: db_sound_def defs_ok_step vault_ok_step)
  qed (simp_all add: cred_set_sound cred_delete_sound config_export_sound config_import_sound)
qed

text \<open>
  C22. The credentials of a reachable state are those of stored sessions, one of each kind: whatever
  commands, imports and tasks are interleaved, deleting sessions and groups takes the secrets
  along, and no import brings in a credential that belongs to nobody.
\<close>

theorem vault_stays_sound:
  assumes "reachable app_init config_step a" "(i, k, blob) \<in> set (st_creds (db_store (ap_db a)))"
  shows "list_ex (\<lambda>s. sr_id s = i) (st_sessions (db_store (ap_db a))) \<and> cred_row (db_store (ap_db a)) i k = Some blob"
proof -
  have s: "db_sound (ap_db a)" by (rule configuration.inv_reachable [OF assms(1)])
  then have d: "distinct (map cred_key (st_creds (db_store (ap_db a))))" by (simp add: db_sound_def vault_ok_def)
  have "find (\<lambda>(j, l, _). j = i \<and> l = k) cs = Some (i, k, blob)" if "distinct (map cred_key cs)" "(i, k, blob) \<in> set cs" for cs
    using that by (induction cs) (force simp: cred_key_def)+
  with d assms(2) have "cred_row (db_store (ap_db a)) i k = Some blob" by (simp add: cred_row_def)
  moreover have "has_session (db_store (ap_db a)) i" using s assms(2) by (force simp: db_sound_def vault_ok_def)
  ultimately show ?thesis by (simp add: has_session_def)
qed

section \<open>Keys are derived within bounds\<close>

lemma and_then_cong: "r = r' \<Longrightarrow> (\<And>x. r' = Ok x \<Longrightarrow> f x = g x) \<Longrightarrow> and_then r f = and_then r' g"
  by (cases r') simp_all

lemma decrypt_payload_argon2:
  assumes "\<And>pass salt m t p. kdf_in_bounds m t p salt \<Longrightarrow> g pass salt m t p = cx_argon2 cx pass salt m t p"
  shows "decrypt_payload (cx\<lparr>cx_argon2 := g\<rparr>) fm env pass = decrypt_payload cx fm env pass"
proof -
  have b: "b64dec (cx\<lparr>cx_argon2 := g\<rparr>) = b64dec cx" by (rule ext) (simp add: b64dec_def)
  show ?thesis
    unfolding decrypt_payload_def b by (intro and_then_cong refl) (simp_all add: derive_key_def assms kdf_in_bounds_def)
qed

text \<open>
  C24. Argon2 runs only with parameters within the bounds, whatever a file says: two libraries that agree
  on 8 to 256 MiB, 1 to 10 passes, 1 to 16 lanes and a salt of 16 to 64 bytes, and may do anything
  else outside, give the same import. A crafted envelope cannot buy more memory or time.
\<close>

theorem key_derivation_is_bounded:
  assumes "\<And>pass salt m t p. 8192 \<le> m \<Longrightarrow> m \<le> 262144 \<Longrightarrow> 1 \<le> t \<Longrightarrow> t \<le> 10 \<Longrightarrow> 1 \<le> p \<Longrightarrow> p \<le> 16 \<Longrightarrow>
     16 \<le> length salt \<Longrightarrow> length salt \<le> 64 \<Longrightarrow> g pass salt m t p = cx_argon2 cx pass salt m t p"
  shows "import_config (cx\<lparr>cx_argon2 := g\<rparr>) fm now src pass db = import_config cx fm now src pass db"
proof -
  have d: "decrypt_payload (cx\<lparr>cx_argon2 := g\<rparr>) fm env pass = decrypt_payload cx fm env pass" for env
    by (rule decrypt_payload_argon2) (rule assms; simp add: kdf_in_bounds_def within_def limit_defs)
  have "read_payload (cx\<lparr>cx_argon2 := g\<rparr>) fm src pass = read_payload cx fm src pass"
    by (simp only: read_payload_def d)
  moreover have "import_cred (cx\<lparr>cx_argon2 := g\<rparr>) = import_cred cx"
    by (rule ext) (simp add: import_cred_def b64dec_def protect_def)
  ultimately show ?thesis by (simp add: import_config_def)
qed

section \<open>Moving a configuration\<close>

text \<open>What the crates promise, for an export here (\<open>cx\<close>) and an import there (\<open>cx'\<close>).\<close>

definition codecs_ok :: "crates \<Rightarrow> crates \<Rightarrow> bool" where
  "codecs_ok cx cx' \<longleftrightarrow>
     (\<forall>b. cx_b64_decode cx' (cx_b64_encode cx b) = Ok b \<and> length b \<le> length (cx_b64_encode cx b)) \<and> cx_argon2 cx' = cx_argon2 cx \<and>
     (\<forall>k n p c. cx_encrypt cx k n p = Ok c \<longrightarrow> cx_decrypt cx' k n c = Ok p \<and> length p \<le> length c) \<and> length (cx_salt cx) = 16"

definition formats_ok :: "formats \<Rightarrow> bool" where
  "formats_ok fm \<longleftrightarrow>
     (\<forall>p v. fm_to_vec fm p = Ok v \<longrightarrow> fm_from_slice fm v = Ok p) \<and>
     (\<forall>e t. fm_to_text fm e = Ok t \<longrightarrow> fm_from_text fm t = Ok e \<and> (\<forall>s. ev_data e = VString s \<longrightarrow> length s \<le> length t))"

definition vault_works :: "crates \<Rightarrow> bool" where
  "vault_works cx \<longleftrightarrow> (\<forall>s. \<exists>b. cx_protect cx s = Ok b \<and> cx_unprotect cx b = Ok s)"

subsection \<open>Writing to empty tables\<close>

definition stamp :: "string \<Rightarrow> SessionRecord \<Rightarrow> SessionRecord" where
  "stamp now r = r\<lparr>sr_created_at := now, sr_updated_at := now\<rparr>"

lemma sr_id_stamp [simp]: "sr_id (stamp now r) = sr_id r"
  by (simp add: stamp_def)

lemma write_fresh_sessions:
  "distinct (map sr_id ss) \<Longrightarrow> \<forall>s \<in> set ss. \<not> has_session (db_store db) (sr_id s) \<Longrightarrow>
   write_all (session_upsert_tx now) ss db =
     (Ok (), db\<lparr>db_store := (db_store db)\<lparr>st_sessions := st_sessions (db_store db) @ map (stamp now) ss\<rparr>\<rparr>)"
proof (induction ss arbitrary: db)
  case (Cons s ss)
  define d where "d = db\<lparr>db_store := (db_store db)\<lparr>st_sessions := st_sessions (db_store db) @ [stamp now s]\<rparr>\<rparr>"
  from Cons.prems have u: "session_upsert_tx now s db = (Ok (), d)"
    by (simp add: session_upsert_tx_def session_upsert_def Let_def has_session_def stamp_def d_def)
  from Cons.prems have "\<forall>r \<in> set ss. \<not> has_session (db_store d) (sr_id r)" by (auto simp: has_session_def d_def)
  with Cons.IH [of d] Cons.prems(1) u show ?case by (simp add: d_def)
qed simp

lemma write_fresh_tunnels:
  "distinct (map td_id ts) \<Longrightarrow> td_id ` set ts \<inter> td_id ` set (db_tunnels db) = {} \<Longrightarrow>
   \<forall>t \<in> set ts. validate_tunnel t = Ok () \<and> has_session (db_store db) (td_session_id t) \<Longrightarrow>
   write_all (tunnel_upsert now) ts db = (Ok (), db\<lparr>db_tunnels := db_tunnels db @ map (\<lambda>t. t\<lparr>td_created_at := now\<rparr>) ts\<rparr>)"
proof (induction ts arbitrary: db)
  case (Cons t ts)
  define d where "d = db\<lparr>db_tunnels := db_tunnels db @ [t\<lparr>td_created_at := now\<rparr>]\<rparr>"
  from Cons.prems(2) have "\<not> list_ex (\<lambda>r. td_id r = td_id t) (db_tunnels db)"
    by (simp add: list_ex_iff) (metis imageI)
  with Cons.prems(3) have u: "tunnel_upsert now t db = (Ok (), d)"
    by (simp add: tunnel_upsert_def tunnel_upsert_row_def has_session_def d_def)
  from Cons.prems(1,2) have "td_id ` set ts \<inter> td_id ` set (db_tunnels d) = {}" by (auto simp: d_def)
  moreover from Cons.prems(3) have "\<forall>t \<in> set ts. validate_tunnel t = Ok () \<and> has_session (db_store d) (td_session_id t)"
    by (simp add: d_def)
  ultimately show ?case using Cons.IH [of d] Cons.prems(1) u by (simp add: d_def)
qed simp

lemma write_fresh_creds:
  "distinct (map cred_key cs) \<Longrightarrow> cred_key ` set cs \<inter> cred_key ` set (st_creds (db_store db)) = {} \<Longrightarrow>
   \<forall>c \<in> set cs. has_session (db_store db) (fst c) \<Longrightarrow>
   write_all put_blob_tx cs db = (Ok (), db\<lparr>db_store := (db_store db)\<lparr>st_creds := st_creds (db_store db) @ cs\<rparr>\<rparr>)"
proof (induction cs arbitrary: db)
  case (Cons c cs)
  obtain i k b where c: "c = (i, k, b)" by (cases c)
  define d where "d = db\<lparr>db_store := (db_store db)\<lparr>st_creds := st_creds (db_store db) @ [c]\<rparr>\<rparr>"
  from Cons.prems(2) c have "\<not> list_ex (\<lambda>(j, l, _). j = i \<and> l = k) (st_creds (db_store db))" by (force simp: list_ex_iff)
  with Cons.prems(3) c have u: "put_blob_tx c db = (Ok (), d)" by (simp add: put_blob_tx_def put_blob_row_def d_def)
  from Cons.prems(1,2) have "cred_key ` set cs \<inter> cred_key ` set (st_creds (db_store d)) = {}" by (auto simp: d_def)
  moreover from Cons.prems(3) have "\<forall>c \<in> set cs. has_session (db_store d) (fst c)" by (simp add: d_def has_session_def)
  ultimately show ?case using Cons.IH [of d] Cons.prems(1) u by (simp add: d_def)
qed simp

subsection \<open>Credentials on their way\<close>

lemma try_map_cong: "(\<And>x. x \<in> set xs \<Longrightarrow> f x = g x) \<Longrightarrow> try_map f xs = try_map g xs"
  by (induction xs) auto

lemma try_map_append: "try_map f (xs @ ys) = and_then (try_map f xs) (\<lambda>as. and_then (try_map f ys) (\<lambda>bs. Ok (as @ bs)))"
  by (induction xs) (auto simp: and_then_def split: sum.split)

lemma try_map_concat: "and_then (try_map (\<lambda>x. try_map f (g x)) xs) (\<lambda>es. Ok (concat es)) = try_map f (concat (map g xs))"
  by (induction xs) (auto simp: try_map_append and_then_def split: sum.splits)

lemma try_map_then: "and_then (try_map h xs) (\<lambda>ys. Ok (map e ys)) = try_map (\<lambda>x. and_then (h x) (\<lambda>y. Ok (e y))) xs"
  by (induction xs) (auto simp: and_then_def split: sum.splits)

text \<open>The rows that an export reads, and what it makes of one.\<close>

definition export_rows :: "store \<Rightarrow> (string \<times> CredentialKind \<times> u8 list) list" where
  "export_rows st = concat (map (\<lambda>s. filter (\<lambda>c. fst c = sr_id s) (st_creds st)) (session_list st))"

definition export_row :: "crates \<Rightarrow> string \<times> CredentialKind \<times> u8 list \<Rightarrow> (StoreError, CredEntry) result" where
  "export_row cx c = and_then (unprotect cx (snd (snd c))) (\<lambda>s. Ok (cred_entry cx (fst c) (fst (snd c), s)))"

lemma export_creds_rows: "export_creds cx st = try_map (export_row cx) (export_rows st)"
proof -
  have "and_then (cred_get_all cx i st) (\<lambda>cs. Ok (map (cred_entry cx i) cs)) =
      try_map (export_row cx) (filter (\<lambda>c. fst c = i) (st_creds st))" for i
    unfolding cred_get_all_def try_map_then
    by (rule try_map_cong) (auto simp: export_row_def and_then_def split: sum.split)
  then show ?thesis by (simp add: export_creds_def export_rows_def try_map_concat)
qed

lemma set_session_list [simp]: "set (session_list st) = set (st_sessions st)"
  by (simp add: session_list_def)

lemma mset_session_list: "mset (session_list st) = mset (st_sessions st)"
  by (simp add: session_list_def)

lemma distinct_session_list: "distinct (map sr_id (session_list st)) = distinct (map sr_id (st_sessions st))"
  by (metis mset_session_list mset_eq_imp_distinct_iff mset_map)

lemma set_export_rows: "vault_ok st \<Longrightarrow> set (export_rows st) = set (st_creds st)"
  by (force simp: export_rows_def vault_ok_def has_session_iff)

lemma distinct_by_session:
  "distinct (map sr_id ss) \<Longrightarrow> distinct (map cred_key cs) \<Longrightarrow>
   distinct (map cred_key (concat (map (\<lambda>s. filter (\<lambda>c. fst c = sr_id s) cs) ss)))"
proof (induction ss)
  case (Cons s ss)
  have "cred_key c \<noteq> cred_key d" if "fst c = sr_id s" "fst d = sr_id r" "r \<in> set ss" for c d r
    using that Cons.prems(1) by (auto simp: cred_key_def)
  with Cons show ?case by (auto simp: distinct_map_filter)
qed simp

lemma distinct_export_rows: "vault_ok st \<Longrightarrow> distinct (map cred_key (export_rows st))"
  by (simp add: export_rows_def vault_ok_def distinct_by_session distinct_session_list)

lemma length_export_rows: "vault_ok st \<Longrightarrow> length (export_rows st) = length (st_creds st)"
  using set_export_rows distinct_export_rows
  by (metis distinct_card length_map list.set_map vault_ok_def)

lemma UNIV_kinds: "(UNIV :: CredentialKind set) = {CkPassword, CkKeyPassphrase, CkSuPassword}"
  by (auto intro: CredentialKind.exhaust)

lemma card_kinds: "card (UNIV :: CredentialKind set) = 3" "finite (UNIV :: CredentialKind set)"
  by (simp_all add: UNIV_kinds)

text \<open>At most three credentials a session: the limits of an import fit together.\<close>

lemma creds_per_session: "vault_ok st \<Longrightarrow> length (st_creds st) \<le> 3 * length (st_sessions st)"
proof -
  assume v: "vault_ok st"
  then have "length (st_creds st) = card (cred_key ` set (st_creds st))"
    by (metis distinct_card length_map list.set_map vault_ok_def)
  also have "\<dots> \<le> card (sr_id ` set (st_sessions st) \<times> (UNIV :: CredentialKind set))"
    using v card_kinds by (intro card_mono) (auto simp: vault_ok_def has_session_iff cred_key_def)
  also have "\<dots> = card (sr_id ` set (st_sessions st)) * 3" by (simp add: card_cartesian_product card_kinds)
  also have "\<dots> \<le> length (st_sessions st) * 3"
    by (simp add: card_image_le order_trans [OF card_image_le card_length])
  finally show ?thesis by simp
qed

lemma cred_row_Some_iff:
  assumes "distinct (map cred_key (st_creds st))"
  shows "cred_row st i k = Some b \<longleftrightarrow> (i, k, b) \<in> set (st_creds st)"
proof -
  have "map_option (snd \<circ> snd) (find (\<lambda>(j, l, _). j = i \<and> l = k) cs) = Some b \<longleftrightarrow> (i, k, b) \<in> set cs"
    if "distinct (map cred_key cs)" for cs
    using that by (induction cs) (force simp: cred_key_def)+
  with assms show ?thesis by (simp add: cred_row_def)
qed

lemma cred_kind_parse_str [simp]: "cred_kind_parse (cred_kind_str k) = Ok k"
  by (cases k) (simp_all add: cred_kind_parse_def)

lemma cred_kind_str_inject: "cred_kind_str k = cred_kind_str l \<longleftrightarrow> k = l"
  by (metis cred_kind_parse_str sum.inject(2))

text \<open>A row here and a row there: the same credential, each protected by its own machine.\<close>

definition moved :: "crates \<Rightarrow> crates \<Rightarrow> string \<times> CredentialKind \<times> u8 list \<Rightarrow> string \<times> CredentialKind \<times> u8 list \<Rightarrow> bool" where
  "moved cx cx' c d \<longleftrightarrow> cred_key d = cred_key c \<and> (\<exists>s. unprotect cx (snd (snd c)) = Ok s \<and> unprotect cx' (snd (snd d)) = Ok s)"

lemma export_import_row:
  assumes "export_row cx c = Ok e" "codecs_ok cx cx'" "vault_works cx'"
  shows "\<exists>d. import_cred cx' e = Ok d \<and> moved cx cx' c d"
proof -
  obtain i k b where c: "c = (i, k, b)" by (cases c)
  with assms(1) obtain s where s: "unprotect cx b = Ok s" "e = cred_entry cx i (k, s)" by (auto simp: export_row_def and_then_Ok_iff)
  obtain b' where b': "cx_protect cx' s = Ok b'" "cx_unprotect cx' b' = Ok s" using assms(3) by (auto simp: vault_works_def)
  have "b64dec cx' (ce_secret e) = Ok s" using assms(2) s by (simp add: b64dec_def codecs_ok_def cred_entry_def)
  with s b' have "import_cred cx' e = Ok (i, k, b')" by (simp add: import_cred_def cred_entry_def protect_def)
  moreover have "moved cx cx' c (i, k, b')" using s b' by (simp add: moved_def c unprotect_def)
  ultimately show ?thesis by blast
qed

lemma export_import_rows:
  assumes "try_map (export_row cx) cs = Ok es" "codecs_ok cx cx'" "vault_works cx'"
  obtains ds where "try_map (import_cred cx') es = Ok ds" "list_all2 (moved cx cx') cs ds"
proof -
  from assms(1) have "list_all2 (\<lambda>c e. export_row cx c = Ok e) cs es" by (simp add: try_map_Ok_iff)
  then have "\<exists>ds. try_map (import_cred cx') es = Ok ds \<and> list_all2 (moved cx cx') cs ds"
  proof induction
    case (Cons c cs e es)
    from export_import_row [OF Cons.hyps(1) assms(2,3)] obtain d where "import_cred cx' e = Ok d" "moved cx cx' c d" by blast
    with Cons.IH show ?case by auto
  qed simp
  with that show ?thesis by blast
qed

lemma export_rows_entries:
  assumes "try_map (export_row cx) cs = Ok es"
  shows "map (\<lambda>e. (ce_session_id e, ce_kind e)) es = map (\<lambda>q. (fst q, cred_kind_str (snd q))) (map cred_key cs)"
proof -
  from assms have "list_all2 (\<lambda>c e. export_row cx c = Ok e) cs es" by (simp add: try_map_Ok_iff)
  then show ?thesis by induction (auto simp: export_row_def and_then_Ok_iff cred_entry_def cred_key_def)
qed

lemma moved_keys: "list_all2 (moved cx cx') cs ds \<Longrightarrow> map cred_key ds = map cred_key cs"
  by (induction rule: list_all2_induct) (auto simp: moved_def)

lemma moved_get:
  assumes "list_all2 (moved cx cx') cs ds" "distinct (map cred_key cs)"
    and "set cs = set (st_creds st)" "distinct (map cred_key (st_creds st))" "st_creds st' = ds"
  shows "cred_get cx' i k st' = cred_get cx i k st"
proof -
  have keys: "map cred_key ds = map cred_key cs" by (rule moved_keys [OF assms(1)])
  have row': "cred_row st' i k = Some b \<longleftrightarrow> (i, k, b) \<in> set ds" for b
    using cred_row_Some_iff [of st'] keys assms(2,5) by simp
  have row: "cred_row st i k = Some b \<longleftrightarrow> (i, k, b) \<in> set cs" for b
    using cred_row_Some_iff [of st] assms(3,4) by simp
  show ?thesis
  proof (cases "cred_row st i k")
    case None
    have "cred_row st' i k = None"
    proof (rule ccontr)
      assume "cred_row st' i k \<noteq> None"
      then obtain b where "(i, k, b) \<in> set ds" using row' by auto
      then have "(i, k) \<in> set (map cred_key ds)" by force
      then obtain b' where "(i, k, b') \<in> set cs" unfolding keys by (auto simp: cred_key_def)
      with row None show False by simp
    qed
    with None show ?thesis by (simp add: cred_get_def ok_or_def)
  next
    case (Some b)
    then have "(i, k, b) \<in> set cs" by (simp add: row)
    with assms(1) obtain d where d: "d \<in> set ds" "moved cx cx' (i, k, b) d"
      by (metis in_set_conv_nth list_all2_conv_all_nth)
    from d(2) have "d = (i, k, snd (snd d))" by (simp add: moved_def cred_key_def prod_eq_iff)
    then obtain b' where b': "d = (i, k, b')" by blast
    with d row' have "cred_row st' i k = Some b'" by simp
    with Some d b' show ?thesis by (auto simp: cred_get_def moved_def)
  qed
qed

subsection \<open>Sessions resolve as before\<close>

text \<open>A session without its times, and a definition without its own.\<close>

definition untimed :: "SessionRecord \<Rightarrow> SessionRecord" where
  "untimed r = r\<lparr>sr_created_at := [], sr_updated_at := []\<rparr>"

definition undated :: "TunnelRecord \<Rightarrow> TunnelRecord" where
  "undated t = t\<lparr>td_created_at := []\<rparr>"

lemma undated_created [simp]: "undated (t\<lparr>td_created_at := now\<rparr>) = undated t"
  by (simp add: undated_def)

lemma untimed_stamp [simp]: "untimed (stamp now r) = untimed r"
  by (simp add: untimed_def stamp_def)

lemma untimed_fields:
  "sr_kind (untimed r) = sr_kind r" "sr_name (untimed r) = sr_name r" "sr_host (untimed r) = sr_host r" "sr_port (untimed r) = sr_port r"
  "sr_user (untimed r) = sr_user r" "sr_jump_chain (untimed r) = sr_jump_chain r" "sr_command (untimed r) = sr_command r"
  "sr_encoding (untimed r) = sr_encoding r" "sr_login_macro (untimed r) = sr_login_macro r" "sr_id (untimed r) = sr_id r"
  "sr_auth_type (untimed r) = sr_auth_type r" "sr_key_path (untimed r) = sr_key_path r" "sr_su_user (untimed r) = sr_su_user r"
  by (simp_all add: untimed_def)

lemma resolve_untimed:
  "resolve_auth sx (untimed r) = resolve_auth sx r" "resolve_su sx (untimed r) = resolve_su sx r" "su_user_of (untimed r) = su_user_of r"
  unfolding resolve_auth_def resolve_su_def su_user_of_def untimed_fields by (rule refl)+

lemma untimed_eqD:
  assumes "untimed r' = untimed r"
  shows "sr_kind r' = sr_kind r" "sr_name r' = sr_name r" "sr_host r' = sr_host r" "sr_port r' = sr_port r" "sr_user r' = sr_user r"
    "sr_jump_chain r' = sr_jump_chain r" "sr_command r' = sr_command r" "sr_encoding r' = sr_encoding r"
    "sr_login_macro r' = sr_login_macro r" "resolve_auth sx r' = resolve_auth sx r" "resolve_su sx r' = resolve_su sx r"
    "su_user_of r' = su_user_of r"
  by (metis assms untimed_fields resolve_untimed)+

lemma resolve_spec_inner_untimed:
  assumes "\<And>i. map_sum id untimed (session_get st' i) = map_sum id untimed (session_get st i)"
  shows "resolve_spec_inner n sx st' i visited = resolve_spec_inner n sx st i visited"
proof (induction n arbitrary: i visited)
  case (Suc n)
  then have IH: "resolve_spec_inner n sx st' = resolve_spec_inner n sx st" by blast
  show ?case
  proof (cases "session_get st i")
    case (Inl e)
    with assms [of i] have "session_get st' i = Err e" by (cases "session_get st' i") auto
    with Inl show ?thesis by simp
  next
    case (Inr r)
    with assms [of i] obtain r' where r': "session_get st' i = Ok r'" "untimed r' = untimed r" by (cases "session_get st' i") auto
    note f = untimed_eqD [OF r'(2)]
    show ?thesis unfolding resolve_spec_inner.simps Inr r'(1) IH sum.case f by (rule refl)
  qed
qed simp

lemma find_same_key:
  assumes "distinct (map f xs)" "distinct (map f ys)" "set ys = set xs"
  shows "find (\<lambda>r. f r = i) ys = find (\<lambda>r. f r = i) xs"
proof -
  have *: "find (\<lambda>r. f r = i) zs = Some z \<longleftrightarrow> z \<in> set zs \<and> f z = i" if "distinct (map f zs)" for zs z
    using that by (induction zs) force+
  have "find (\<lambda>r. f r = i) ys = Some z \<longleftrightarrow> find (\<lambda>r. f r = i) xs = Some z" for z
    by (simp add: * assms)
  then show ?thesis by (metis not_None_eq)
qed

lemma session_get_moved:
  assumes "distinct (map sr_id (st_sessions st))" "st_sessions st' = map (stamp now) (session_list st)"
  shows "map_sum id untimed (session_get st' i) = map_sum id untimed (session_get st i)"
proof -
  have "find (\<lambda>r. sr_id r = i) (map (stamp now) rs) = map_option (stamp now) (find (\<lambda>r. sr_id r = i) rs)" for rs
    by (induction rs) auto
  moreover have "find (\<lambda>r. sr_id r = i) (session_list st) = find (\<lambda>r. sr_id r = i) (st_sessions st)"
    by (rule find_same_key) (simp_all add: assms distinct_session_list)
  ultimately show ?thesis by (simp add: session_get_def assms(2) split: option.split)
qed

subsection \<open>The whole way\<close>

definition export_payload :: "tunnel_db \<Rightarrow> CredEntry list \<Rightarrow> Payload" where
  "export_payload db creds = \<lparr>pl_sessions = session_list (db_store db), pl_tunnels = tunnel_rows db, pl_credentials = creds\<rparr>"

lemma tunnel_rows_mset: "mset (tunnel_rows db) = mset (db_tunnels db)" "set (tunnel_rows db) = set (db_tunnels db)"
  by (simp_all add: tunnel_rows_def)

lemma distinct_tunnel_rows: "distinct (map td_id (tunnel_rows db)) = distinct (map td_id (db_tunnels db))"
  by (metis tunnel_rows_mset(1) mset_eq_imp_distinct_iff mset_map)

text \<open>What an export has written can be read there, with the same passphrase.\<close>

lemma exported_is_read:
  assumes "export_encrypted cx fm db pass = Ok src" "codecs_ok cx cx'" "formats_ok fm" "length src \<le> MAX_ENVELOPE_BYTES"
  obtains es where "export_creds cx (db_store db) = Ok es" "read_payload cx' fm src (Some pass) = Ok (export_payload db es)"
proof -
  from assms(1) obtain es v key blob where e: "export_creds cx (db_store db) = Ok es"
    "fm_to_vec fm (export_payload db es) = Ok v" "cx_argon2 cx pass (cx_salt cx) ARGON2_M_KIB ARGON2_T ARGON2_P = Ok key"
    "length key = 32" "length (cx_nonce cx) = 12" "cx_encrypt cx key (cx_nonce cx) v = Ok blob"
    "fm_to_text fm \<lparr>ev_v = 1, ev_app = ''myssh'', ev_encrypted = True,
        ev_kdf = Some \<lparr>kd_algo = ''argon2id'', kd_salt = cx_b64_encode cx (cx_salt cx), kd_m_kib = ARGON2_M_KIB, kd_t = ARGON2_T, kd_p = ARGON2_P\<rparr>,
        ev_nonce = Some (cx_b64_encode cx (cx_nonce cx)), ev_data = VString (cx_b64_encode cx blob)\<rparr> = Ok src"
    unfolding export_encrypted_def and_then_Ok_iff derive_key_def gcm_key_def gcm_nonce_def check_that_Ok_iff map_err_Ok_iff export_payload_def
    by blast
  have len: "length (cx_b64_encode cx blob) \<le> length src" and t: "fm_from_text fm src = Ok \<lparr>ev_v = 1, ev_app = ''myssh'', ev_encrypted = True,
        ev_kdf = Some \<lparr>kd_algo = ''argon2id'', kd_salt = cx_b64_encode cx (cx_salt cx), kd_m_kib = ARGON2_M_KIB, kd_t = ARGON2_T, kd_p = ARGON2_P\<rparr>,
        ev_nonce = Some (cx_b64_encode cx (cx_nonce cx)), ev_data = VString (cx_b64_encode cx blob)\<rparr>"
    using assms(3) e(7) by (auto simp: formats_ok_def)
  have dec: "b64dec cx' (cx_b64_encode cx b) = Ok b" for b using assms(2) by (simp add: codecs_ok_def b64dec_def)
  have key: "derive_key cx' pass (cx_salt cx) ARGON2_M_KIB ARGON2_T ARGON2_P = Ok key" "length (cx_salt cx) = 16"
    using assms(2) e(3) by (simp_all add: codecs_ok_def derive_key_def)
  have plain: "cx_decrypt cx' key (cx_nonce cx) blob = Ok v" "length v \<le> length blob" "length blob \<le> length (cx_b64_encode cx blob)"
    using assms(2) e(6) by (auto simp: codecs_ok_def)
  have v: "length v \<le> MAX_PAYLOAD_BYTES" using plain(2,3) len assms(4) by (simp add: limit_defs)
  have slice: "fm_from_slice fm v = Ok (export_payload db es)" using assms(3) e(2) by (simp add: formats_ok_def)
  have bounds: "within ARGON2_M_MIN_KIB ARGON2_M_MAX_KIB ARGON2_M_KIB" "within ARGON2_T_MIN ARGON2_T_MAX ARGON2_T"
    "within ARGON2_P_MIN ARGON2_P_MAX ARGON2_P" "within SALT_MIN_BYTES SALT_MAX_BYTES (16 :: nat)" "(12 :: nat) = NONCE_BYTES"
    by (simp_all add: within_def limit_defs)
  have "read_payload cx' fm src (Some pass) = Ok (export_payload db es)"
    using assms(4) e(4,5) bounds by (simp add: read_payload_def decrypt_payload_def t dec key plain(1) v slice gcm_key_def gcm_nonce_def)
  with e(1) that show ?thesis by blast
qed

lemma exported_is_valid:
  assumes "db_sound db" "export_creds cx (db_store db) = Ok es" "\<forall>s \<in> set (st_sessions (db_store db)). trim (sr_id s) \<noteq> []"
    and "length (st_sessions (db_store db)) \<le> MAX_SESSIONS" "length (db_tunnels db) \<le> MAX_TUNNELS"
  shows "validate_payload st (export_payload db es) = Ok ()"
proof -
  let ?st = "db_store db"
  from assms(1) have v: "vault_ok ?st" "defs_ok db" by (simp_all add: db_sound_def)
  have rows: "try_map (export_row cx) (export_rows ?st) = Ok es" using assms(2) by (simp add: export_creds_rows)
  note keys = export_rows_entries [OF rows]
  have "inj_on (\<lambda>q. (fst q, cred_kind_str (snd q))) A" for A by (rule inj_onI) (simp add: cred_kind_str_inject prod_eq_iff)
  with distinct_export_rows [OF v(1)] have "distinct (map (\<lambda>q. (fst q, cred_kind_str (snd q))) (map cred_key (export_rows ?st)))"
    by (subst distinct_map) blast
  then have creds: "check_creds [] es = Ok ()" unfolding check_creds_Ok_iff keys by simp
  have "length es \<le> 3 * length (st_sessions ?st)"
    using arg_cong [OF keys, of length] creds_per_session [OF v(1)] length_export_rows [OF v(1)] by simp
  then have n: "length es \<le> MAX_CREDENTIALS" using assms(4) by (simp add: limit_defs)
  have "ce_session_id ` set es = fst ` set (export_rows ?st)"
    using arg_cong [OF keys, of "\<lambda>l. fst ` set l"] by (simp add: image_image cred_key_def)
  then have refs: "ce_session_id ` set es \<subseteq> sr_id ` set (st_sessions ?st)"
    using v(1) by (auto simp: set_export_rows vault_ok_def has_session_iff)
  have "td_session_id ` set (db_tunnels db) \<subseteq> sr_id ` set (st_sessions ?st)"
    using v(2) by (auto simp: defs_ok_def has_session_iff)
  moreover have "length (session_list ?st) = length (st_sessions ?st)" "length (tunnel_rows db) = length (db_tunnels db)"
    by (simp_all add: session_list_def tunnel_rows_def)
  ultimately show ?thesis
    unfolding validate_payload_Ok_iff check_sessions_Ok_iff check_tunnels_Ok_iff
    using assms(3,4,5) v refs creds n
    by (auto simp: export_payload_def distinct_session_list distinct_tunnel_rows tunnel_rows_mset vault_ok_def defs_ok_def)
qed

definition db_empty :: "tunnel_db \<Rightarrow> bool" where
  "db_empty db \<longleftrightarrow> st_sessions (db_store db) = [] \<and> st_creds (db_store db) = [] \<and> db_tunnels db = []"

lemma import_into_empty:
  assumes "db_empty db0" "db_sound db" "export_creds cx (db_store db) = Ok es" "codecs_ok cx cx'" "vault_works cx'"
    and "validate_payload (db_store db0) (export_payload db es) = Ok ()"
  obtains ds db' where "try_map (import_cred cx') es = Ok ds" "list_all2 (moved cx cx') (export_rows (db_store db)) ds"
    "import_tx now (export_payload db es) ds db0 = (Ok (), db')" "st_creds (db_store db') = ds"
    "st_sessions (db_store db') = map (stamp now) (session_list (db_store db))"
    "db_tunnels db' = map (\<lambda>t. t\<lparr>td_created_at := now\<rparr>) (tunnel_rows db)"
proof -
  let ?st = "db_store db"
  from assms(2) have v: "vault_ok ?st" "defs_ok db" by (simp_all add: db_sound_def)
  have rows: "try_map (export_row cx) (export_rows ?st) = Ok es" using assms(3) by (simp add: export_creds_rows)
  from export_import_rows [OF rows assms(4,5)]
  obtain ds where ds: "try_map (import_cred cx') es = Ok ds" "list_all2 (moved cx cx') (export_rows ?st) ds" .
  define d1 where "d1 = db0\<lparr>db_store := (db_store db0)\<lparr>st_sessions := map (stamp now) (session_list ?st)\<rparr>\<rparr>"
  define d2 where "d2 = d1\<lparr>db_tunnels := map (\<lambda>t. t\<lparr>td_created_at := now\<rparr>) (tunnel_rows db)\<rparr>"
  define d3 where "d3 = d2\<lparr>db_store := (db_store d2)\<lparr>st_creds := ds\<rparr>\<rparr>"
  have d1: "write_all (session_upsert_tx now) (session_list ?st) db0 = (Ok (), d1)"
    using write_fresh_sessions [of "session_list ?st" db0 now] v(1) assms(1)
    by (simp add: d1_def vault_ok_def distinct_session_list db_empty_def has_session_def)
  have has1: "has_session (db_store d1) i = has_session ?st i" for i by (simp add: d1_def has_session_iff image_image)
  have d2: "write_all (tunnel_upsert now) (tunnel_rows db) d1 = (Ok (), d2)"
    using write_fresh_tunnels [of "tunnel_rows db" d1 now] v(2) assms(1)
    by (simp add: d2_def defs_ok_def distinct_tunnel_rows tunnel_rows_mset has1) (simp add: d1_def db_empty_def)
  have has2: "has_session (db_store d2) i = has_session ?st i" for i using has1 by (simp add: d2_def)
  have keys: "map cred_key ds = map cred_key (export_rows ?st)" by (rule moved_keys [OF ds(2)])
  have "map fst ds = map fst (export_rows ?st)" using arg_cong [OF keys, of "map fst"] by (simp add: comp_def cred_key_def)
  then have "fst ` set ds = fst ` set (export_rows ?st)" by (metis list.set_map)
  then have "\<forall>c \<in> set ds. has_session (db_store d2) (fst c)"
    using v(1) by (metis (mono_tags, lifting) has2 imageE imageI set_export_rows vault_ok_def)
  with write_fresh_creds [of ds d2] distinct_export_rows [OF v(1)] keys assms(1)
  have d3: "write_all put_blob_tx ds d2 = (Ok (), d3)" by (simp add: d3_def) (simp add: d2_def d1_def db_empty_def)
  show ?thesis
  proof (rule that [OF ds, of d3])
    show "import_tx now (export_payload db es) ds db0 = (Ok (), d3)"
      using d1 d2 d3 by (simp add: import_tx_def export_payload_def)
  qed (simp_all add: d3_def d2_def d1_def)
qed


section \<open>What an import does not do\<close>

text \<open>
  An import publishes no event, unlike every other command that writes sessions: whatever the file
  changes about a session, no task hears of it, and the tunnels, the SFTP contexts and the command
  connections that are open go on with the old parameters.
\<close>

theorem import_tells_nobody:
  "let b = snd (config_import env cx fm dk path pass a)
   in ap_tunnel_rx b = ap_tunnel_rx a \<and> ap_sftp_rx b = ap_sftp_rx a \<and> ap_exec_rx b = ap_exec_rx a \<and>
      ap_mgr b = ap_mgr a \<and> ap_sftp b = ap_sftp a \<and> ap_exec b = ap_exec a"
  by (simp add: config_import_def set_db_def Let_def split: sum.split prod.split)

text \<open>
  A session without an identifier is stored by \<open>session_upsert\<close>, exported with all others, and
  refused by the import: one such session makes the whole export useless.
\<close>

theorem blank_id_spoils_export:
  assumes "trim (sr_id rec) = []" "read_payload cx fm src pass = Ok p" "rec \<in> set (pl_sessions p)"
  shows "\<exists>e. import_config cx fm now src pass db = (Err (Validation e), db)"
proof -
  have "\<exists>e. check_sessions seen ss = Err (Validation e)" if "rec \<in> set ss" for seen ss
    using that assms(1) by (induction seen ss rule: check_sessions.induct) auto
  with assms(3) obtain e where "check_sessions [] (pl_sessions p) = Err (Validation e)" by blast
  then have "\<exists>e. validate_payload (db_store db) p = Err (Validation e)" by (simp add: validate_payload_def check_that_def)
  with assms(2) show ?thesis by (auto simp: import_config_def)
qed

section \<open>Examples\<close>

definition byte_char :: "u8 \<Rightarrow> char" where
  "byte_char b = char_of (unat b)"

definition char_byte :: "char \<Rightarrow> u8" where
  "char_byte c = of_nat (of_char c)"

text \<open>Machine \<open>n\<close> protects a secret by a shift of its bytes; the cipher puts the key in front.\<close>

definition sample_crates :: "u8 \<Rightarrow> crates" where
  "sample_crates n =
     \<lparr>cx_protect = (\<lambda>s. Ok (map (\<lambda>b. b + n) s)), cx_unprotect = (\<lambda>s. Ok (map (\<lambda>b. b - n) s)),
      cx_b64_encode = map byte_char, cx_b64_decode = (\<lambda>s. Ok (map char_byte s)),
      cx_argon2 = (\<lambda>pass salt m t p. Ok (take 32 (pass @ salt @ replicate 32 0))),
      cx_encrypt = (\<lambda>k n p. Ok (k @ p)), cx_decrypt = (\<lambda>k n c. if take (length k) c = k then Ok (drop (length k) c) else Err ''tag''),
      cx_salt = replicate 16 7, cx_nonce = replicate 12 9\<rparr>"

text \<open>A format that knows one payload and one envelope.\<close>

definition one_format :: "Payload \<Rightarrow> Envelope \<Rightarrow> formats" where
  "one_format p e =
     (let t = (case ev_data e of VString s \<Rightarrow> s | _ \<Rightarrow> [])
      in \<lparr>fm_to_value = (\<lambda>_. Err []), fm_from_value = (\<lambda>_. Ok p),
          fm_to_vec = (\<lambda>q. if q = p then Ok [1] else Err []), fm_from_slice = (\<lambda>v. if v = [1] then Ok p else Err []),
          fm_to_text = (\<lambda>f. if f = e then Ok t else Err []), fm_from_text = (\<lambda>u. if u = t then Ok e else Err [])\<rparr>)"

lemma char_byte_inverse [simp]: "char_byte (byte_char b) = b"
proof -
  have "unat b < 2 ^ LENGTH(8)" by (rule unsigned_less)
  then show ?thesis by (simp add: char_byte_def byte_char_def)
qed

lemma sample_crates_ok: "codecs_ok (sample_crates m) (sample_crates n)" "vault_works (sample_crates n)"
  by (simp_all add: codecs_ok_def vault_works_def sample_crates_def comp_def)

lemma one_format_ok: "formats_ok (one_format p e)"
  by (simp add: formats_ok_def one_format_def Let_def)

definition export_db :: tunnel_db where
  "export_db = \<lparr>db_store = password_store\<lparr>st_creds := [(''s'', CkPassword, [2])]\<rparr>, db_tunnels = [sample_def], db_audit = audit_new\<rparr>"

definition sample_payload :: Payload where
  "sample_payload = export_payload export_db [\<lparr>ce_session_id = ''s'', ce_kind = ''password'', ce_secret = [byte_char 1]\<rparr>]"

definition sample_text :: string where
  "sample_text = map byte_char (take 32 ([5] @ replicate 16 7 @ replicate 32 0) @ [1 :: u8])"

definition sample_envelope :: Envelope where
  "sample_envelope =
     \<lparr>ev_v = 1, ev_app = ''myssh'', ev_encrypted = True,
      ev_kdf = Some \<lparr>kd_algo = ''argon2id'', kd_salt = map byte_char (replicate 16 (7 :: u8)), kd_m_kib = ARGON2_M_KIB, kd_t = ARGON2_T, kd_p = ARGON2_P\<rparr>,
      ev_nonce = Some (map byte_char (replicate 12 (9 :: u8))), ev_data = VString sample_text\<rparr>"

definition sample_formats :: formats where
  "sample_formats = one_format sample_payload sample_envelope"

definition empty_db :: tunnel_db where
  "empty_db = \<lparr>db_store = \<lparr>st_sessions = [], st_creds = []\<rparr>, db_tunnels = [], db_audit = audit_new\<rparr>"

lemma export_db_sound: "db_sound export_db"
  by (simp add: db_sound_def defs_ok_def vault_ok_def export_db_def password_store_def sample_session_def sample_def_def has_session_def
      validate_tunnel_def trim_def is_ws_def)

lemma sample_export: "export_encrypted (sample_crates 1) sample_formats export_db [5] = Ok sample_text"
proof -
  have "export_creds (sample_crates 1) (db_store export_db) = Ok [\<lparr>ce_session_id = ''s'', ce_kind = ''password'', ce_secret = [byte_char 1]\<rparr>]"
    by (simp add: export_creds_rows export_rows_def export_row_def session_list_def export_db_def password_store_def sample_session_def
        unprotect_def cred_entry_def sample_crates_def)
  then show ?thesis
    by (simp add: export_encrypted_def derive_key_def gcm_key_def gcm_nonce_def sample_formats_def one_format_def Let_def sample_payload_def
        export_payload_def sample_envelope_def sample_text_def) (simp add: sample_crates_def)
qed



lemma key_derivation_is_bounded_witness:
  "import_config ((sample_crates 2)\<lparr>cx_argon2 := (\<lambda>pass salt m t p. if m \<le> 262144 then Ok (take 32 (pass @ salt @ replicate 32 0)) else Err ''memory'')\<rparr>)
     sample_formats ''now'' sample_text (Some [5]) empty_db =
   import_config (sample_crates 2) sample_formats ''now'' sample_text (Some [5]) empty_db"
  by (rule key_derivation_is_bounded) (simp add: sample_crates_def)

lemma blank_id_spoils_export_witness:
  "\<exists>e. import_config (sample_crates 1)
     (one_format \<lparr>pl_sessions = [sample_session '' '' [] []], pl_tunnels = [], pl_credentials = []\<rparr>
       \<lparr>ev_v = 1, ev_app = ''myssh'', ev_encrypted = False, ev_kdf = None, ev_nonce = None, ev_data = VNull\<rparr>)
     ''now'' [] None export_db = (Err (Validation e), export_db)"
  by (rule blank_id_spoils_export [of "sample_session '' '' [] []" _ _ _ _ "\<lparr>pl_sessions = [sample_session '' '' [] []], pl_tunnels = [], pl_credentials = []\<rparr>"])
    (simp_all add: sample_session_def trim_def is_ws_def read_payload_def one_format_def Let_def limit_defs)

definition one_secret :: "nat app" where
  "one_secret = snd (cred_set (sample_crates 1) ''s'' CkPassword ''p'' (snd (session_upsert_cmd sample_env (sample_session ''s'' [] []) blank)))"

lemma one_secret_reachable: "reachable app_init config_step one_secret"
proof -
  have "reachable app_init config_step blank" by (rule reach_init) (simp add: app_init_def blank_def)
  then have "reachable app_init config_step (snd (session_upsert_cmd sample_env (sample_session ''s'' [] []) blank))"
    by (rule reach_step) (intro cs_app as_upsert)
  then show ?thesis unfolding one_secret_def by (rule reach_step) (rule cs_cred_set)
qed

lemma vault_stays_sound_witness:
  "cred_row (db_store (ap_db one_secret)) ''s'' CkPassword = Some [113]"
proof -
  have "(''s'', CkPassword, [113]) \<in> set (st_creds (db_store (ap_db one_secret)))"
    by (simp add: one_secret_def cred_set_def cred_put_def put_blob_row_def protect_def sample_crates_def session_upsert_cmd_def session_upsert_def
        session_get_def blank_def sample_session_def sample_env_def Let_def has_session_def ascii_bytes_def)
  with vault_stays_sound [OF one_secret_reachable] show ?thesis by blast
qed

end
