(* ===== verification/Settings.thy ===== *)
theory Settings
  imports Mcp_Server "HOL-Library.List_Lexorder" "HOL-Library.Char_ord" "HOL-Library.Multiset"
begin

text \<open>
  The settings: the table of \<^verbatim>\<open>src/crates/core-store/src/settings.rs\<close>, the commands on it in
  \<^verbatim>\<open>src/crates/app/src/settings.rs\<close>, and how they meet the readers in theory \<open>Mcp_Server\<close>.

  The table is the list of its rows with unique keys; the time of a change is left out, and a
  failed call of SQLite is not modelled. \<open>to_str\<close> and \<open>from_str\<close> are the writer and the reader of
  serde\_json.
\<close>

section \<open>The table\<close>

type_synonym SettingsRepo = "(string \<times> string) list"

definition settings_get :: "SettingsRepo \<Rightarrow> string \<Rightarrow> string option" where
  "settings_get db key = map_of db key"

definition settings_all :: "SettingsRepo \<Rightarrow> (string \<times> string) list" where
  "settings_all db = sort_key fst db"

text \<open>\<open>ON CONFLICT(key) DO UPDATE\<close>\<close>

definition settings_put :: "string \<Rightarrow> string \<Rightarrow> SettingsRepo \<Rightarrow> SettingsRepo" where
  "settings_put key v db =
     (if list_ex (\<lambda>r. fst r = key) db then map (\<lambda>(k, w). (k, if k = key then v else w)) db else db @ [(key, v)])"

definition settings_remove :: "string \<Rightarrow> SettingsRepo \<Rightarrow> SettingsRepo" where
  "settings_remove key db = filter (\<lambda>r. fst r \<noteq> key) db"

section \<open>Commands\<close>

definition key_char :: "char \<Rightarrow> bool" where
  "key_char c \<longleftrightarrow>
     is_ascii_digit c \<or> (CHR ''a'' \<le> c \<and> c \<le> CHR ''z'') \<or> (CHR ''A'' \<le> c \<and> c \<le> CHR ''Z'') \<or> c \<in> {CHR ''.'', CHR ''-'', CHR ''_''}"

definition valid_key :: "string \<Rightarrow> bool" where
  "valid_key key \<longleftrightarrow> key \<noteq> [] \<and> length key \<le> 64 \<and> list_all key_char key"

text \<open>The object that the front end gets: values that are not JSON are left out.\<close>

definition settings_list :: "(string \<Rightarrow> Value option) \<Rightarrow> SettingsRepo \<Rightarrow> (string \<times> Value) list" where
  "settings_list from_str db = List.map_filter (\<lambda>(k, v). map_option (Pair k) (from_str v)) (settings_all db)"

definition settings_set :: "(Value \<Rightarrow> (string, string) result) \<Rightarrow> string \<Rightarrow> Value \<Rightarrow> SettingsRepo \<Rightarrow> (string, unit) result \<times> SettingsRepo" where
  "settings_set to_str key v db =
     (if \<not> valid_key key then (Err ''bad key'', db)
      else case to_str v of Inl e \<Rightarrow> (Err e, db) | Inr t \<Rightarrow> (Ok (), settings_put key t db))"

definition settings_delete :: "string \<Rightarrow> SettingsRepo \<Rightarrow> (string, unit) result \<times> SettingsRepo" where
  "settings_delete key db = (Ok (), settings_remove key db)"

section \<open>A table of keys and values\<close>

locale kv_table =
  fixes get :: "'s \<Rightarrow> 'k \<Rightarrow> 'v option" and put :: "'k \<Rightarrow> 'v \<Rightarrow> 's \<Rightarrow> 's" and remove :: "'k \<Rightarrow> 's \<Rightarrow> 's" and table_ok :: "'s \<Rightarrow> bool"
  assumes get_put: "get (put k v s) j = (if j = k then Some v else get s j)"
    and get_remove: "get (remove k s) j = (if j = k then None else get s j)"
    and put_ok: "table_ok s \<Longrightarrow> table_ok (put k v s)"
    and remove_ok: "table_ok s \<Longrightarrow> table_ok (remove k s)"
begin

text \<open>The last write of a key decides, whatever was written before, after and in between.\<close>

lemma get_puts: "get (fold (\<lambda>(k, v). put k v) kvs s) j = (case map_of (rev kvs) j of Some v \<Rightarrow> Some v | None \<Rightarrow> get s j)"
  by (induction kvs arbitrary: s) (auto simp: get_put map_add_def split: option.split)

lemma puts_ok: "table_ok s \<Longrightarrow> table_ok (fold (\<lambda>(k, v). put k v) kvs s)"
  by (induction kvs arbitrary: s) (auto simp: put_ok)

end

definition keys_ok :: "SettingsRepo \<Rightarrow> bool" where
  "keys_ok db \<longleftrightarrow> distinct (map fst db)"

lemma map_of_update: "map_of (map (\<lambda>(k, w). (k, g k w)) rs) j = map_option (g j) (map_of rs j)"
  by (induction rs) auto

lemma list_ex_key: "list_ex (\<lambda>r. fst r = key) rs \<longleftrightarrow> map_of rs key \<noteq> None"
  by (force simp: list_ex_iff map_of_eq_None_iff)

lemma settings_get_put: "settings_get (settings_put key v db) j = (if j = key then Some v else settings_get db j)"
  by (auto simp: settings_get_def settings_put_def list_ex_key map_of_update map_add_def split: option.split)

lemma settings_get_remove: "settings_get (settings_remove key db) j = (if j = key then None else settings_get db j)"
  by (induction db) (auto simp: settings_get_def settings_remove_def)

lemma settings_put_keys: "keys_ok db \<Longrightarrow> keys_ok (settings_put key v db)"
proof -
  have "fst \<circ> (\<lambda>(k, w). (k, if k = key then v else w)) = fst" by (rule ext) (simp add: case_prod_unfold)
  then show "keys_ok db \<Longrightarrow> ?thesis" by (auto simp: keys_ok_def settings_put_def list_ex_iff)
qed

lemma settings_remove_keys: "keys_ok db \<Longrightarrow> keys_ok (settings_remove key db)"
  by (simp add: keys_ok_def settings_remove_def distinct_map_filter)

interpretation settings_table: kv_table settings_get settings_put settings_remove keys_ok
  by unfold_locales (simp_all add: settings_get_put settings_get_remove settings_put_keys settings_remove_keys)

section \<open>What is set is what is read\<close>

lemma map_of_settings_list:
  assumes "keys_ok db"
  shows "map_of (settings_list from_str db) k = Option.bind (settings_get db k) from_str"
proof -
  have "map_of (List.map_filter (\<lambda>(k, v). map_option (Pair k) (from_str v)) rs) k = Option.bind (map_of rs k) from_str"
    if "distinct (map fst rs)" for rs
    using that
  proof (induction rs)
    case (Cons r rs)
    obtain j v where r: "r = (j, v)" by (cases r)
    have "map_of rs j = None" using Cons.prems r by (simp add: map_of_eq_None_iff)
    with Cons r show ?case by (cases "from_str v") (auto simp: map_filter_simps)
  qed (simp add: map_filter_simps)
  moreover have d: "distinct (map fst (sort_key fst db))"
    using assms by (metis keys_ok_def mset_eq_imp_distinct_iff mset_map mset_sort)
  moreover have "map_of (sort_key fst db) = map_of db"
    using map_of_inject_set [OF d] assms by (simp add: keys_ok_def)
  ultimately show ?thesis by (simp add: settings_list_def settings_all_def settings_get_def)
qed

text \<open>
  A setting that is stored is read again, by the front end and by the server: after any number of
  accepted commands, the list and the configuration of the server see for each key the value that
  was set last, and of the keys that were not touched what was there before.
\<close>

definition set_each :: "(Value \<Rightarrow> (string, string) result) \<Rightarrow> (string \<times> Value) list \<Rightarrow> SettingsRepo \<Rightarrow> SettingsRepo" where
  "set_each to_str kvs db = fold (\<lambda>(k, v) db. snd (settings_set to_str k v db)) kvs db"

lemma set_each_puts:
  assumes "\<forall>(k, v) \<in> set kvs. valid_key k \<and> to_str v = Ok (f v)"
  shows "set_each to_str kvs db = fold (\<lambda>(k, t). settings_put k t) (map (\<lambda>(k, v). (k, f v)) kvs) db"
  using assms by (induction kvs arbitrary: db) (auto simp: set_each_def settings_set_def)

theorem settings_are_read_back:
  assumes "keys_ok db" "\<forall>(k, v) \<in> set kvs. valid_key k \<and> to_str v = Ok (f v) \<and> from_str (f v) = Some v"
  shows "map_of (settings_list from_str (set_each to_str kvs db)) j =
    (case map_of (rev kvs) j of Some v \<Rightarrow> Some v | None \<Rightarrow> map_of (settings_list from_str db) j)"
proof -
  have p: "set_each to_str kvs db = fold (\<lambda>(k, t). settings_put k t) (map (\<lambda>(k, v). (k, f v)) kvs) db"
    using assms(2) by (intro set_each_puts) auto
  have "map_of (rev (map (\<lambda>(k, v). (k, f v)) kvs)) j = map_option f (map_of (rev kvs) j)"
    using map_of_update [of "\<lambda>_. f" "rev kvs" j] by (simp add: rev_map)
  moreover have "from_str (f v) = Some v" if "map_of (rev kvs) j = Some v" for v
    using assms(2) map_of_SomeD [OF that] by auto
  ultimately show ?thesis
    using settings_table.puts_ok [OF assms(1)] assms(1)
    by (auto simp: map_of_settings_list p settings_table.get_puts split: option.split)
qed

text \<open>
  A token that the server has made up is used again: once \<open>ensure_token\<close> has stored it, the next
  reading of the configuration gives that token, and \<open>ensure_token\<close> then makes no other.
\<close>

theorem generated_token_persists:
  assumes "ensure_token random token = (t, Some v)" "length random = 32" "to_str v = Ok s" "from_str s = Some v"
    and "db' = snd (settings_set to_str ''mcp.token'' v db)" "read_mcp_config from_str (\<lambda>k. Ok (settings_get db' k)) = Ok cfg"
  shows "mc_token cfg = Some t \<and> ensure_token random' (mc_token cfg) = (t, None)"
proof -
  have v: "v = VString t" "t = gen_token random" using assms(1) by (auto simp: ensure_token_def Let_def split: option.splits if_splits)
  obtain b bs where "random = b # bs" using assms(2) by (cases random) auto
  then have t: "t \<noteq> []" using v(2) by (simp add: gen_token_def hex_byte_def Let_def)
  have "valid_key ''mcp.token''" by (simp add: valid_key_def key_char_def less_eq_char_def)
  with assms(3,5) have "settings_get db' ''mcp.token'' = Some s" by (simp add: settings_set_def settings_get_put)
  with assms(4,6) v(1) t have "mc_token cfg = Some t"
    by (auto simp: read_mcp_config_def parse_token_setting_def Let_def split: option.splits)
  with t show ?thesis by (simp add: ensure_token_def Let_def)
qed

section \<open>Examples\<close>

lemma settings_are_read_back_witness:
  "map_of (settings_list (\<lambda>t. if t = ''1'' then Some (VBool True) else Some (VBool False))
     (set_each (\<lambda>v. Ok (if v = VBool True then ''1'' else ''0'')) [(''a'', VBool True), (''b'', VBool True), (''a'', VBool False)] [])) ''a'' = Some (VBool False)"
proof -
  have "valid_key ''a''" "valid_key ''b''" by (simp_all add: valid_key_def key_char_def less_eq_char_def)
  then show ?thesis
    using settings_are_read_back [of "[]" "[(''a'', VBool True), (''b'', VBool True), (''a'', VBool False)]"
        "\<lambda>v. Ok (if v = VBool True then ''1'' else ''0'')" "\<lambda>v. if v = VBool True then ''1'' else ''0''"
        "\<lambda>t. if t = ''1'' then Some (VBool True) else Some (VBool False)" "''a''"]
    by (simp add: keys_ok_def)
qed

lemma generated_token_persists_witness:
  "\<exists>cfg. read_mcp_config (\<lambda>s. Some (VString s))
     (\<lambda>k. Ok (settings_get (snd (settings_set (\<lambda>v. Ok (the (as_str v))) ''mcp.token'' (VString (gen_token (replicate 32 7))) [])) k)) = Ok cfg \<and>
     mc_token cfg = Some (gen_token (replicate 32 7))"
proof -
  obtain cfg where c: "read_mcp_config (\<lambda>s. Some (VString s))
     (\<lambda>k. Ok (settings_get (snd (settings_set (\<lambda>v. Ok (the (as_str v))) ''mcp.token'' (VString (gen_token (replicate 32 7))) [])) k)) = Ok cfg"
    by (simp add: read_mcp_config_def Let_def)
  have e: "ensure_token (replicate 32 7) None = (gen_token (replicate 32 7), Some (VString (gen_token (replicate 32 7))))"
    by (simp add: ensure_token_def Let_def)
  from generated_token_persists [OF e _ _ _ refl c] c show ?thesis by simp
qed

end
